(* ===== verification/Prelude.thy ===== *)
theory Prelude
  imports Main "HOL-Library.Word" "HOL-Library.Monad_Syntax" "HOL-Library.Signed_Division"
begin

text \<open>
  Shared vocabulary of the development: the C arithmetic the components use (truncating
  remainder, 32-bit wrap-around on unsigned values), bounds-checked array accesses, and the
  lemma collections the component theories extend.

  Undefined behaviour of C (an access outside an array, a division by zero, a null
  dereference) is the value \<^term>\<open>None\<close>; a theorem that an operation returns
  \<^term>\<open>Some\<close> therefore includes that it performs no such access.
\<close>

unbundle bit_operations_syntax

named_theorems c_arith \<open>reduction of C arithmetic to plain arithmetic under bounds\<close>
named_theorems lq_simps \<open>evaluation of the ring queue's primitive steps\<close>

type_synonym u8 = "8 word"
type_synonym u16 = "16 word"
type_synonym u32 = "32 word"

section \<open>C arithmetic\<close>

definition c_mod :: "int \<Rightarrow> int \<Rightarrow> int option" where
  "c_mod a b = (if b = 0 then None else Some (a smod b))"

definition int_max :: int where
  "int_max = 2147483647"

definition arr_read :: "'a list \<Rightarrow> int \<Rightarrow> 'a option" where
  "arr_read xs i = (if 0 \<le> i \<and> i < int (length xs) then Some (xs ! nat i) else None)"

definition arr_write :: "'a list \<Rightarrow> int \<Rightarrow> 'a \<Rightarrow> 'a list option" where
  "arr_write xs i v = (if 0 \<le> i \<and> i < int (length xs) then Some (xs[nat i := v]) else None)"

text \<open>
  Unsigned 32-bit values as naturals below \<open>2 ^ 32\<close>, with the wrap-around written out.
  \<open>and_not32 a m\<close> is the C expression \<^verbatim>\<open>a & ~m\<close> at 32 bits.
\<close>

definition add32 :: "nat \<Rightarrow> nat \<Rightarrow> nat" where
  "add32 a b = (a + b) mod 2 ^ 32"

definition sub32 :: "nat \<Rightarrow> nat \<Rightarrow> nat" where
  "sub32 a b = (a + 2 ^ 32 - b) mod 2 ^ 32"

definition and_not32 :: "nat \<Rightarrow> nat \<Rightarrow> nat" where
  "and_not32 a m = a AND (2 ^ 32 - 1 - m)"

definition assert_c :: "bool \<Rightarrow> unit option" where
  "assert_c b = (if b then Some () else None)"

section \<open>Total correctness of partial operations\<close>

text \<open>\<open>yields f P\<close>: the operation returns, and what it returns satisfies \<open>P\<close>.\<close>

definition yields :: "'a option \<Rightarrow> ('a \<Rightarrow> bool) \<Rightarrow> bool" where
  "yields f P \<longleftrightarrow> (\<exists>r. f = Some r \<and> P r)"

section \<open>Client loops over an interface\<close>

fun get_n :: "('q \<Rightarrow> ('a \<times> 'q) option) \<Rightarrow> nat \<Rightarrow> 'q \<Rightarrow> ('a list \<times> 'q) option" where
  "get_n get 0 q = Some ([], q)"
| "get_n get (Suc n) q = do {
     (x, q1) \<leftarrow> get q;
     (xs, q2) \<leftarrow> get_n get n q1;
     Some (x # xs, q2) }"

fun push_all :: "('q \<Rightarrow> 'a \<Rightarrow> 'q option) \<Rightarrow> 'q \<Rightarrow> 'a list \<Rightarrow> 'q option" where
  "push_all push q [] = Some q"
| "push_all push q (x # xs) = do { q1 \<leftarrow> push q x; push_all push q1 xs }"

section \<open>Lemmas\<close>

lemma c_mod_nonneg [c_arith]: "0 \<le> a \<Longrightarrow> 0 < b \<Longrightarrow> c_mod a b = Some (a mod b)"
  by (cases "a = 0") (simp_all add: c_mod_def signed_modulo_int_def)

lemma arr_read_in [c_arith]: "0 \<le> i \<Longrightarrow> i < int (length xs) \<Longrightarrow> arr_read xs i = Some (xs ! nat i)"
  by (simp add: arr_read_def)

lemma arr_write_in [c_arith]:
  "0 \<le> i \<Longrightarrow> i < int (length xs) \<Longrightarrow> arr_write xs i v = Some (xs[nat i := v])"
  by (simp add: arr_write_def)

lemma mod_succ_cases:
  assumes "0 \<le> a" "a < n"
  shows "(a + 1) mod n = (if a + 1 = n then 0 else a + (1::int))"
  using assms by (cases "a + 1 = n") auto

lemma mod_add_inj:
  fixes h i j n :: int
  assumes "(h + i) mod n = (h + j) mod n" "0 \<le> i" "i < n" "0 \<le> j" "j < n"
  shows "i = j"
proof -
  have "((h + i) - h) mod n = ((h + j) - h) mod n"
    using assms(1) by (metis mod_diff_left_eq)
  then show ?thesis using assms by simp
qed

lemma drop_window:
  assumes "length xs \<le> Suc c"
  shows "drop (length (drop (length xs - c) xs) + length ys - c) (drop (length xs - c) xs @ ys) =
    drop (length xs + length ys - c) (xs @ ys)"
proof (cases "length xs \<le> c")
  case False
  with assms have "length xs = Suc c" by simp
  then obtain z zs where "xs = z # zs" "length zs = c" by (cases xs) auto
  then show ?thesis by simp
qed simp

section \<open>32-bit arithmetic and masks\<close>

lemma add32_small [c_arith]: "a + b < 2 ^ 32 \<Longrightarrow> add32 a b = a + b"
  by (simp add: add32_def)

lemma sub_mod_gen: "b \<le> a \<Longrightarrow> a < M \<Longrightarrow> (a + M - b) mod M = a - (b::nat)"
proof -
  assume "b \<le> a" "a < M"
  then have "(a + M - b) mod M = ((a - b) + M) mod M" by simp
  with \<open>a < M\<close> show ?thesis by simp
qed

lemma sub32_small [c_arith]: "b \<le> a \<Longrightarrow> a < 2 ^ 32 \<Longrightarrow> sub32 a b = a - b"
  unfolding sub32_def by (rule sub_mod_gen)

lemma bit_below: "n < 2 ^ k \<Longrightarrow> bit (n::nat) i \<Longrightarrow> i < k"
  by (metis bit_take_bit_iff take_bit_nat_eq_self)

lemma and_mask: "(n::nat) AND (2 ^ k - 1) = n mod 2 ^ k"
  by (simp only: mask_eq_exp_minus_1 [symmetric] take_bit_eq_mask [symmetric] take_bit_eq_mod)

lemma and_3 [c_arith]: "(n::nat) AND 3 = n mod 4"
  using and_mask [of n 2] by simp

lemma and_shifted_mask:
  assumes "(n::nat) < 2 ^ (k + j)"
  shows "n AND push_bit k (mask j) = n - n mod 2 ^ k"
proof -
  have "n AND push_bit k (mask j) = push_bit k (drop_bit k n)"
  proof (rule bit_eqI)
    fix i
    show "bit (n AND push_bit k (mask j)) i = bit (push_bit k (drop_bit k n)) i"
      using bit_below [OF assms, of i] by (auto simp: bit_and_iff bit_push_bit_iff bit_mask_iff bit_drop_bit_eq)
  qed
  also have "\<dots> = n - n mod 2 ^ k"
    by (simp add: push_bit_eq_mult drop_bit_eq_div minus_mod_eq_div_mult)
  finally show ?thesis .
qed

lemma and_not32_3 [c_arith]: "n < 2 ^ 32 \<Longrightarrow> and_not32 n 3 = n - n mod 4"
proof -
  assume n: "n < 2 ^ 32"
  have "(2 ^ 32 - 1 - 3 :: nat) = push_bit 2 (mask 30)"
    by (simp add: mask_eq_exp_minus_1 push_bit_eq_mult)
  then show ?thesis using n and_shifted_mask [of n 2 30] by (simp only: and_not32_def) simp
qed

lemma and_exp: "n < 2 ^ k \<Longrightarrow> (n::nat) AND 2 ^ k = 0"
  by (rule bit_eqI) (auto simp: bit_and_iff bit_exp_iff dest: bit_below)

lemma or_exp: "n < 2 ^ k \<Longrightarrow> (n::nat) OR 2 ^ k = n + 2 ^ k"
  by (rule disjunctive_add_eq_or [symmetric]) (rule and_exp)

lemma add_exp_and: "n < 2 ^ k \<Longrightarrow> ((n::nat) + 2 ^ k) AND 2 ^ k = 2 ^ k"
  by (simp only: or_exp [symmetric]) (rule bit_eqI, auto simp: bit_simps)

lemmas and_bit31 [c_arith] = and_exp [of _ 31]
lemmas or_bit31 [c_arith] = or_exp [of _ 31]
lemmas add_bit31_and [c_arith] = add_exp_and [of _ 31]

lemma and_not32_bit31 [c_arith]: "n < 2 ^ 31 \<Longrightarrow> and_not32 (n + 2 ^ 31) (2 ^ 31) = n"
proof -
  assume n: "n < 2 ^ 31"
  have "(2 ^ 32 - 1 - 2 ^ 31 :: nat) = 2 ^ 31 - 1" by simp
  then have "and_not32 (n + 2 ^ 31) (2 ^ 31) = (n + 2 ^ 31) mod 2 ^ 31"
    by (simp only: and_not32_def and_mask)
  also have "\<dots> = n" using n by simp
  finally show ?thesis .
qed

lemma high_bit31 [c_arith]: "2 ^ 31 \<le> n \<Longrightarrow> n < 2 ^ 32 \<Longrightarrow> (n::nat) AND 2 ^ 31 \<noteq> 0"
proof -
  assume "2 ^ 31 \<le> n" "n < 2 ^ 32"
  then have "n - 2 ^ 31 < 2 ^ 31" "n - 2 ^ 31 + 2 ^ 31 = n" by simp_all
  with add_bit31_and [of "n - 2 ^ 31"] show ?thesis by (simp only:)
qed

lemmas bit31_numeral [c_arith] = and_bit31 [simplified] or_bit31 [simplified] add_bit31_and [simplified]
  and_not32_bit31 [simplified] high_bit31 [simplified]

lemma yields_Some [simp]: "yields (Some r) P \<longleftrightarrow> P r" and yields_None [simp]: "\<not> yields None P"
  by (simp_all add: yields_def)

lemma yields_bind: "yields f P \<Longrightarrow> (\<And>r. P r \<Longrightarrow> yields (g r) Q) \<Longrightarrow> yields (f \<bind> g) Q"
  by (auto simp: yields_def)

lemma yields_mono: "yields f P \<Longrightarrow> (\<And>r. P r \<Longrightarrow> Q r) \<Longrightarrow> yields f Q"
  by (auto simp: yields_def)

lemma yields_map [simp]: "yields (map_option h f) P \<longleftrightarrow> yields f (\<lambda>r. P (h r))"
  by (auto simp: yields_def)

lemma assert_c_simps [simp]: "assert_c True = Some ()" "assert_c False = None"
  by (simp_all add: assert_c_def)

end
