(* ===== verification/LoopQueue.thy ===== *)
theory LoopQueue
  imports Prelude
begin

text \<open>
  The ring queue of \<^verbatim>\<open>loopQueue/loopQueue.h\<close> and \<^verbatim>\<open>loopQueue/loopQueue.c\<close>.
  \<^verbatim>\<open>lq_size_t\<close> is \<^verbatim>\<open>int\<close>; it is modelled by \<^typ>\<open>int\<close>, and the invariant bounds the
  indices by the length of the array, at most \<^verbatim>\<open>INT_MAX\<close>, so that no sum overflows.
  The two data callbacks are function pointers: null, the built-in default, or a function
  of the application. The last is code outside the library and is an argument
  (\<open>uadd\<close>, \<open>uget\<close>) of every operation that calls through the pointer.
\<close>

section \<open>State\<close>

datatype lq_cb = Cb_null | Cb_default | Cb_user

datatype lq_state = Lq_OK | Lq_FULL | Lq_EMPTY

record 'd lq =
  lq_head :: int
  lq_end :: int
  lq_max :: int
  lq_queue :: "'d list"
  lq_addFn :: lq_cb
  lq_getFn :: lq_cb
  lq_userData :: nat

type_synonym 'd add_fn = "'d lq \<Rightarrow> 'd \<Rightarrow> 'd lq option"
type_synonym 'd get_fn = "'d lq \<Rightarrow> 'd list option \<Rightarrow> int \<Rightarrow> ('d lq \<times> 'd list option) option"

section \<open>Macros of loopQueue.h\<close>

definition loopQueueIsEmpty :: "'d lq \<Rightarrow> lq_state" where
  "loopQueueIsEmpty q = (if lq_head q = lq_end q then Lq_EMPTY else Lq_OK)"

definition loopQueueIsFull :: "'d lq \<Rightarrow> lq_state option" where
  "loopQueueIsFull q = do {
     m \<leftarrow> c_mod (lq_end q + 1) (lq_max q);
     Some (if m = lq_head q then Lq_FULL else Lq_OK) }"

definition loopQueueGetUseLength :: "'d lq \<Rightarrow> int" where
  "loopQueueGetUseLength q =
     (if lq_end q \<ge> lq_head q then lq_end q - lq_head q
      else (lq_max q - lq_head q) + lq_end q)"

definition loopQueueGetIdleLength :: "'d lq \<Rightarrow> int" where
  "loopQueueGetIdleLength q = lq_max q - 1 - loopQueueGetUseLength q"

definition loopQueueNonFullFastAddOne :: "'d lq \<Rightarrow> 'd lq option" where
  "loopQueueNonFullFastAddOne q = do {
     e \<leftarrow> c_mod (lq_end q + 1) (lq_max q);
     Some (q\<lparr>lq_end := e\<rparr>) }"

definition loopQueueNonEmptyFastGetOne :: "'d lq \<Rightarrow> 'd lq option" where
  "loopQueueNonEmptyFastGetOne q = do {
     h \<leftarrow> c_mod (lq_head q + 1) (lq_max q);
     Some (q\<lparr>lq_head := h\<rparr>) }"

definition loopQueueUnknownFullFastAddOne :: "'d lq \<Rightarrow> 'd lq option" where
  "loopQueueUnknownFullFastAddOne q = do {
     q1 \<leftarrow> loopQueueNonFullFastAddOne q;
     if lq_end q1 = lq_head q1
     then do { h \<leftarrow> c_mod (lq_head q1 + 1) (lq_max q1); Some (q1\<lparr>lq_head := h\<rparr>) }
     else Some q1 }"

definition loopQueueFastDeleteAll :: "'d lq \<Rightarrow> 'd lq" where
  "loopQueueFastDeleteAll q = q\<lparr>lq_head := lq_end q\<rparr>"

section \<open>Functions of loopQueue.c\<close>

definition defaultAddOneDataFunc :: "'d add_fn" where
  "defaultAddOneDataFunc q newData = do {
     arr \<leftarrow> arr_write (lq_queue q) (lq_end q) newData;
     Some (q\<lparr>lq_queue := arr\<rparr>) }"

definition defaultAeduceOneDataFunc :: "'d get_fn" where
  "defaultAeduceOneDataFunc q recvData recvIndex =
     (case recvData of
        None \<Rightarrow> Some (q, None)
      | Some buf \<Rightarrow> do {
          v \<leftarrow> arr_read (lq_queue q) (lq_head q);
          buf' \<leftarrow> arr_write buf 0 v;
          Some (q, Some buf') })"

definition call_add :: "'d add_fn \<Rightarrow> 'd add_fn" where
  "call_add uadd q newData =
     (case lq_addFn q of
        Cb_null \<Rightarrow> Some q
      | Cb_default \<Rightarrow> defaultAddOneDataFunc q newData
      | Cb_user \<Rightarrow> uadd q newData)"

definition call_get :: "'d get_fn \<Rightarrow> 'd get_fn" where
  "call_get uget q recvData recvIndex =
     (case lq_getFn q of
        Cb_null \<Rightarrow> Some (q, recvData)
      | Cb_default \<Rightarrow> defaultAeduceOneDataFunc q recvData recvIndex
      | Cb_user \<Rightarrow> uget q recvData recvIndex)"

definition loopQueueInit ::
  "'d lq \<Rightarrow> int \<Rightarrow> 'd list \<Rightarrow> lq_cb \<Rightarrow> lq_cb \<Rightarrow> nat \<Rightarrow> 'd lq" where
  "loopQueueInit q m arr addp getp ud =
     (let q1 = q\<lparr>lq_head := 0, lq_end := 0, lq_max := m, lq_queue := arr,
                 lq_addFn := (if addp \<noteq> Cb_null then addp else Cb_default),
                 lq_getFn := (if getp \<noteq> Cb_null then getp else Cb_default)\<rparr>
      in if ud \<noteq> 0 then q1\<lparr>lq_userData := ud\<rparr> else q1)"

definition loopQueueAddOne :: "'d add_fn \<Rightarrow> 'd lq \<Rightarrow> 'd \<Rightarrow> (int \<times> 'd lq) option" where
  "loopQueueAddOne uadd q newData = do {
     full \<leftarrow> loopQueueIsFull q;
     if full \<noteq> Lq_FULL
     then do { q1 \<leftarrow> call_add uadd q newData;
               q2 \<leftarrow> loopQueueNonFullFastAddOne q1;
               Some (1, q2) }
     else Some (0, q) }"

definition loopQueueForceAddOne :: "'d add_fn \<Rightarrow> 'd lq \<Rightarrow> 'd \<Rightarrow> (int \<times> 'd lq) option" where
  "loopQueueForceAddOne uadd q newData = do {
     q1 \<leftarrow> call_add uadd q newData;
     q2 \<leftarrow> loopQueueUnknownFullFastAddOne q1;
     Some (1, q2) }"

function addMulti_loop :: "'d add_fn \<Rightarrow> 'd \<Rightarrow> int \<Rightarrow> int \<Rightarrow> 'd lq \<Rightarrow> 'd lq option" where
  "addMulti_loop uadd newData i idle q =
     (if i < idle
      then do { q1 \<leftarrow> call_add uadd q newData;
                q2 \<leftarrow> loopQueueNonFullFastAddOne q1;
                addMulti_loop uadd newData (i + 1) idle q2 }
      else Some q)"
  by pat_completeness auto
termination
  by (relation "measure (\<lambda>(u, d, i, n, q). nat (n - i))") auto

definition loopQueueAddMulti :: "'d add_fn \<Rightarrow> 'd lq \<Rightarrow> 'd \<Rightarrow> int \<Rightarrow> (int \<times> 'd lq) option" where
  "loopQueueAddMulti uadd q newData multi =
     (let idle0 = loopQueueGetIdleLength q;
          idle = (if multi < idle0 then multi else idle0)
      in do { q' \<leftarrow> addMulti_loop uadd newData 0 idle q; Some (idle, q') })"

function forceAddMulti_loop :: "'d add_fn \<Rightarrow> 'd \<Rightarrow> int \<Rightarrow> int \<Rightarrow> 'd lq \<Rightarrow> 'd lq option" where
  "forceAddMulti_loop uadd newData i multi q =
     (if i < multi
      then do { q1 \<leftarrow> call_add uadd q newData;
                q2 \<leftarrow> loopQueueUnknownFullFastAddOne q1;
                forceAddMulti_loop uadd newData (i + 1) multi q2 }
      else Some q)"
  by pat_completeness auto
termination
  by (relation "measure (\<lambda>(u, d, i, n, q). nat (n - i))") auto

definition loopQueueForceAddMulti ::
  "'d add_fn \<Rightarrow> 'd lq \<Rightarrow> 'd \<Rightarrow> int \<Rightarrow> (int \<times> 'd lq) option" where
  "loopQueueForceAddMulti uadd q newData multi =
     do { q' \<leftarrow> forceAddMulti_loop uadd newData 0 multi q; Some (multi, q') }"

text \<open>The receive buffer is an argument that the source never touches.\<close>

definition loopQueueGetOne ::
  "'d lq \<Rightarrow> 'd list option \<Rightarrow> (int \<times> 'd lq \<times> 'd list option) option" where
  "loopQueueGetOne q recvData =
     (if loopQueueIsEmpty q = Lq_EMPTY then Some (0, q, recvData)
      else do { q1 \<leftarrow> loopQueueNonEmptyFastGetOne q; Some (1, q1, recvData) })"

function getMulti_loop ::
  "'d get_fn \<Rightarrow> int \<Rightarrow> int \<Rightarrow> 'd lq \<Rightarrow> 'd list option \<Rightarrow> ('d lq \<times> 'd list option) option" where
  "getMulti_loop uget i u q recvData =
     (if i < u
      then do { (q1, r1) \<leftarrow> call_get uget q recvData i;
                q2 \<leftarrow> loopQueueNonEmptyFastGetOne q1;
                getMulti_loop uget (i + 1) u q2 r1 }
      else Some (q, recvData))"
  by pat_completeness auto
termination
  by (relation "measure (\<lambda>(g, i, n, q, r). nat (n - i))") auto

definition loopQueueGetMulti ::
  "'d get_fn \<Rightarrow> 'd lq \<Rightarrow> 'd list option \<Rightarrow> int \<Rightarrow> (int \<times> 'd lq \<times> 'd list option) option" where
  "loopQueueGetMulti uget q recvData recvSize =
     (let use0 = loopQueueGetUseLength q;
          u = (if recvSize < use0 then recvSize else use0)
      in do { (q', r') \<leftarrow> getMulti_loop uget 0 u q recvData; Some (u, q', r') })"

function inspectMulti_loop ::
  "'d get_fn \<Rightarrow> int \<Rightarrow> int \<Rightarrow> 'd lq \<Rightarrow> 'd list option \<Rightarrow> ('d lq \<times> 'd list option) option" where
  "inspectMulti_loop uget i u q recvData =
     (if i < u
      then do { (q1, r1) \<leftarrow> call_get uget q recvData i;
                inspectMulti_loop uget (i + 1) u q1 r1 }
      else Some (q, recvData))"
  by pat_completeness auto
termination
  by (relation "measure (\<lambda>(g, i, n, q, r). nat (n - i))") auto

definition loopQueueInspectMulti ::
  "'d get_fn \<Rightarrow> 'd lq \<Rightarrow> 'd list option \<Rightarrow> int \<Rightarrow> (int \<times> 'd lq \<times> 'd list option) option" where
  "loopQueueInspectMulti uget q recvData recvSize =
     (let use0 = loopQueueGetUseLength q;
          u = (if recvSize < use0 then recvSize else use0)
      in do { (q', r') \<leftarrow> inspectMulti_loop uget 0 u q recvData; Some (u, q', r') })"

function delete_loop :: "int \<Rightarrow> int \<Rightarrow> 'd lq \<Rightarrow> 'd lq option" where
  "delete_loop i n q =
     (if i < n
      then do { q1 \<leftarrow> loopQueueNonEmptyFastGetOne q; delete_loop (i + 1) n q1 }
      else Some q)"
  by pat_completeness auto
termination
  by (relation "measure (\<lambda>(i, n, q). nat (n - i))") auto

definition loopQueueInspectDelete :: "'d lq \<Rightarrow> int \<Rightarrow> (int \<times> 'd lq) option" where
  "loopQueueInspectDelete q inspectMulti =
     do { q' \<leftarrow> delete_loop 0 inspectMulti q; Some (inspectMulti, q') }"

definition loopQueueDeleteMulti :: "'d lq \<Rightarrow> int \<Rightarrow> (int \<times> 'd lq) option" where
  "loopQueueDeleteMulti q multi =
     (let use0 = loopQueueGetUseLength q;
          u = (if multi < use0 then multi else use0)
      in do { q' \<leftarrow> delete_loop 0 u q; Some (u, q') })"

definition loopQueueDeleteAll :: "'d lq \<Rightarrow> 'd lq" where
  "loopQueueDeleteAll q = loopQueueFastDeleteAll q"

section \<open>The example of loopQueue\_example.c\<close>

text \<open>
  The queue states at the three points where \<^verbatim>\<open>lq01_test\<close> prints: after the
  initialisation, after ten additions and after the deletion. \<^verbatim>\<open>lq01\<close> and
  \<^verbatim>\<open>lqueue01\<close> are static objects, so they start out as zeros.
\<close>

definition lq01 :: "int lq" where
  "lq01 = \<lparr>lq_head = 0, lq_end = 0, lq_max = 0, lq_queue = [], lq_addFn = Cb_null,
           lq_getFn = Cb_null, lq_userData = 0\<rparr>"

fun add_each :: "'d add_fn \<Rightarrow> 'd list \<Rightarrow> 'd lq \<Rightarrow> 'd lq option" where
  "add_each uadd [] q = Some q"
| "add_each uadd (x # xs) q = do { (r, q1) \<leftarrow> loopQueueAddOne uadd q x; add_each uadd xs q1 }"

definition lq01_test :: "(int lq \<times> int lq \<times> int lq) option" where
  "lq01_test =
     (let q0 = loopQueueInit lq01 6 [0, 0, 0, 0, 0, 0] Cb_null Cb_null 0
      in do { q1 \<leftarrow> add_each (\<lambda>q d. None) [0, 1, 2, 3, 4, 5, 6, 7, 8, 9] q0;
              Some (q0, q1, loopQueueDeleteAll q1) })"

section \<open>Invariant and abstraction\<close>

definition lq_inv :: "'d lq \<Rightarrow> bool" where
  "lq_inv q \<longleftrightarrow> 0 \<le> lq_head q \<and> lq_head q < lq_max q \<and> 0 \<le> lq_end q \<and> lq_end q < lq_max q \<and>
     lq_max q = int (length (lq_queue q)) \<and> lq_max q \<le> int_max"

definition lq_ok :: "'d lq \<Rightarrow> bool" where
  "lq_ok q \<longleftrightarrow> lq_inv q \<and> lq_addFn q = Cb_default \<and> lq_getFn q = Cb_default"

definition lq_list :: "'d lq \<Rightarrow> 'd list" where
  "lq_list q = map (\<lambda>i. lq_queue q ! nat ((lq_head q + int i) mod lq_max q))
                 [0..<nat (loopQueueGetUseLength q)]"

definition lq_cap :: "'d lq \<Rightarrow> nat" where
  "lq_cap q = nat (lq_max q - 1)"

definition lq_push :: "'d \<Rightarrow> 'd lq \<Rightarrow> 'd lq" where
  "lq_push d q = q\<lparr>lq_queue := (lq_queue q)[nat (lq_end q) := d],
                   lq_end := (lq_end q + 1) mod lq_max q\<rparr>"

definition lq_force :: "'d \<Rightarrow> 'd lq \<Rightarrow> 'd lq" where
  "lq_force d q = (let q1 = lq_push d q in
     if lq_end q1 = lq_head q1 then q1\<lparr>lq_head := (lq_head q1 + 1) mod lq_max q1\<rparr> else q1)"

definition lq_pop :: "'d lq \<Rightarrow> 'd lq" where
  "lq_pop q = q\<lparr>lq_head := (lq_head q + 1) mod lq_max q\<rparr>"

declare addMulti_loop.simps [simp del] forceAddMulti_loop.simps [simp del]
  getMulti_loop.simps [simp del] inspectMulti_loop.simps [simp del] delete_loop.simps [simp del]

section \<open>Lengths\<close>

lemma lq_invD:
  assumes "lq_inv q"
  shows "0 \<le> lq_head q" "lq_head q < lq_max q" "0 \<le> lq_end q" "lq_end q < lq_max q"
    "lq_max q = int (length (lq_queue q))" "lq_max q \<le> int_max"
  using assms by (auto simp: lq_inv_def)

lemma use_mod: "lq_inv q \<Longrightarrow> loopQueueGetUseLength q = (lq_end q - lq_head q) mod lq_max q"
proof -
  assume inv: "lq_inv q"
  show ?thesis
  proof (cases "lq_end q \<ge> lq_head q")
    case True
    with lq_invD [OF inv] show ?thesis by (simp add: loopQueueGetUseLength_def)
  next
    case False
    have "(lq_end q - lq_head q) mod lq_max q = (lq_end q - lq_head q + lq_max q) mod lq_max q"
      by simp
    also have "\<dots> = lq_end q - lq_head q + lq_max q"
      using False lq_invD [OF inv] by (intro mod_pos_pos_trivial) auto
    finally show ?thesis using False by (simp add: loopQueueGetUseLength_def)
  qed
qed

lemma use_bounds: "lq_inv q \<Longrightarrow> 0 \<le> loopQueueGetUseLength q \<and> loopQueueGetUseLength q < lq_max q"
  by (auto simp: loopQueueGetUseLength_def lq_inv_def)

lemma end_eq: "lq_inv q \<Longrightarrow> (lq_head q + loopQueueGetUseLength q) mod lq_max q = lq_end q"
  by (simp add: use_mod mod_add_right_eq) (simp add: lq_inv_def)

lemma length_lq_list: "length (lq_list q) = nat (loopQueueGetUseLength q)"
  by (simp add: lq_list_def)

lemma lq_list_nth:
  "i < length (lq_list q) \<Longrightarrow> lq_list q ! i = lq_queue q ! nat ((lq_head q + int i) mod lq_max q)"
  by (simp add: lq_list_def)

lemma use_eq_length: "lq_inv q \<Longrightarrow> loopQueueGetUseLength q = int (length (lq_list q))"
  using use_bounds [of q] by (simp add: length_lq_list)

lemma idle_eq: "lq_inv q \<Longrightarrow> loopQueueGetIdleLength q = int (lq_cap q - length (lq_list q))"
  using use_bounds [of q] by (auto simp: loopQueueGetIdleLength_def lq_cap_def length_lq_list nat_diff_distrib [symmetric])

lemma length_le_cap: "lq_inv q \<Longrightarrow> length (lq_list q) \<le> lq_cap q"
  using use_bounds [of q] by (auto simp: lq_cap_def length_lq_list)

lemma full_iff: "lq_inv q \<Longrightarrow> (lq_end q + 1) mod lq_max q = lq_head q \<longleftrightarrow> length (lq_list q) = lq_cap q"
  using use_bounds [of q] lq_invD [of q]
  by (auto simp: mod_succ_cases lq_cap_def length_lq_list loopQueueGetUseLength_def split: if_splits)

lemma empty_iff: "lq_inv q \<Longrightarrow> lq_head q = lq_end q \<longleftrightarrow> lq_list q = []"
  using lq_invD [of q] by (auto simp: lq_list_def loopQueueGetUseLength_def)

section \<open>The two ring steps\<close>

lemma c_mod_end: "lq_inv q \<Longrightarrow> c_mod (lq_end q + 1) (lq_max q) = Some ((lq_end q + 1) mod lq_max q)"
  by (rule c_mod_nonneg) (auto simp: lq_inv_def)

lemma c_mod_head: "lq_inv q \<Longrightarrow> c_mod (lq_head q + 1) (lq_max q) = Some ((lq_head q + 1) mod lq_max q)"
  by (rule c_mod_nonneg) (auto simp: lq_inv_def)

lemma mod_max_bounds: "lq_inv q \<Longrightarrow> 0 \<le> i mod lq_max q \<and> i mod lq_max q < lq_max q"
  by (auto simp: lq_inv_def intro!: pos_mod_sign pos_mod_bound)

lemma fast_add [lq_simps]:
  "lq_inv q \<Longrightarrow> loopQueueNonFullFastAddOne q = Some (q\<lparr>lq_end := (lq_end q + 1) mod lq_max q\<rparr>)"
  by (simp add: loopQueueNonFullFastAddOne_def c_mod_end)

lemma fast_get [lq_simps]: "lq_inv q \<Longrightarrow> loopQueueNonEmptyFastGetOne q = Some (lq_pop q)"
  by (simp add: loopQueueNonEmptyFastGetOne_def c_mod_head lq_pop_def)

lemma is_full [lq_simps]:
  "lq_inv q \<Longrightarrow> loopQueueIsFull q = Some (if length (lq_list q) = lq_cap q then Lq_FULL else Lq_OK)"
  by (simp only: loopQueueIsFull_def c_mod_end bind.bind_lunit full_iff)

lemma call_add_default [lq_simps]:
  "lq_ok q \<Longrightarrow> call_add uadd q d = Some (q\<lparr>lq_queue := (lq_queue q)[nat (lq_end q) := d]\<rparr>)"
  by (auto simp: call_add_def defaultAddOneDataFunc_def lq_ok_def lq_inv_def arr_write_in)

lemma lq_ok_write [simp]: "lq_ok (q\<lparr>lq_queue := (lq_queue q)[i := d]\<rparr>) = lq_ok q"
  by (simp add: lq_ok_def lq_inv_def)

lemma lq_ok_inv [simp]: "lq_ok q \<Longrightarrow> lq_inv q"
  by (simp add: lq_ok_def)

lemma lq_inv_push [simp]: "lq_inv q \<Longrightarrow> lq_inv (lq_push d q)"
  using mod_max_bounds [of q "lq_end q + 1"] by (simp add: lq_inv_def lq_push_def)

lemma lq_inv_pop [simp]: "lq_inv q \<Longrightarrow> lq_inv (lq_pop q)"
  using mod_max_bounds [of q "lq_head q + 1"] by (simp add: lq_inv_def lq_pop_def)

lemma lq_ok_push [simp]: "lq_ok q \<Longrightarrow> lq_ok (lq_push d q)"
  by (simp add: lq_ok_def) (simp add: lq_push_def)

lemma lq_ok_pop [simp]: "lq_ok q \<Longrightarrow> lq_ok (lq_pop q)"
  by (simp add: lq_ok_def) (simp add: lq_pop_def)

lemma lq_cap_push [simp]: "lq_cap (lq_push d q) = lq_cap q"
  by (simp add: lq_cap_def lq_push_def)

lemma lq_cap_pop [simp]: "lq_cap (lq_pop q) = lq_cap q"
  by (simp add: lq_cap_def lq_pop_def)

lemma use_push:
  assumes "lq_inv q" "length (lq_list q) < lq_cap q"
  shows "loopQueueGetUseLength (lq_push d q) = loopQueueGetUseLength q + 1"
  using assms use_bounds [of q] lq_invD [of q]
  by (auto simp: loopQueueGetUseLength_def lq_push_def mod_succ_cases lq_cap_def length_lq_list split: if_splits)

lemma lq_list_push:
  assumes inv: "lq_inv q" and room: "length (lq_list q) < lq_cap q"
  shows "lq_list (lq_push d q) = lq_list q @ [d]"
proof (rule nth_equalityI)
  let ?u = "loopQueueGetUseLength q"
  note b = use_bounds [OF inv] lq_invD [OF inv]
  show "length (lq_list (lq_push d q)) = length (lq_list q @ [d])"
    using b use_push [OF inv room] by (simp add: length_lq_list Suc_nat_eq_nat_zadd1 add.commute)
  fix i assume "i < length (lq_list (lq_push d q))"
  then have i: "int i \<le> ?u" using b use_push [OF inv room] by (simp add: length_lq_list)
  have val: "lq_list (lq_push d q) ! i =
      (lq_queue q)[nat (lq_end q) := d] ! nat ((lq_head q + int i) mod lq_max q)"
    using i b use_push [OF inv room] by (simp add: lq_list_def) (simp add: lq_push_def)
  show "lq_list (lq_push d q) ! i = (lq_list q @ [d]) ! i"
  proof (cases "int i = ?u")
    case True
    then have "nat ((lq_head q + int i) mod lq_max q) = nat (lq_end q)"
      using end_eq [OF inv] by simp
    moreover have "nat (lq_end q) < length (lq_queue q)" using b by linarith
    moreover have "length (lq_list q) = i" using True by (simp add: length_lq_list)
    ultimately show ?thesis using val by (auto simp: nth_append)
  next
    case False
    with i have lt: "int i < ?u" by simp
    have "(lq_head q + int i) mod lq_max q \<noteq> (lq_head q + ?u) mod lq_max q"
      using mod_add_inj [of "lq_head q" "int i" "lq_max q" ?u] lt b by auto
    then have "nat ((lq_head q + int i) mod lq_max q) \<noteq> nat (lq_end q)"
      using end_eq [OF inv] b(4) mod_max_bounds [OF inv, of "lq_head q + int i"]
      by (simp add: eq_nat_nat_iff)
    moreover have "i < length (lq_list q)" using lt by (simp add: length_lq_list)
    ultimately show ?thesis using val by (simp add: nth_append lq_list_nth)
  qed
qed

lemma use_pop:
  assumes "lq_inv q" "lq_list q \<noteq> []"
  shows "loopQueueGetUseLength (lq_pop q) = loopQueueGetUseLength q - 1"
proof -
  have "lq_head q \<noteq> lq_end q" using assms empty_iff by blast
  then show ?thesis using lq_invD [OF assms(1)]
    by (auto simp: loopQueueGetUseLength_def lq_pop_def mod_succ_cases)
qed

lemma lq_list_pop:
  assumes inv: "lq_inv q" and ne: "lq_list q \<noteq> []"
  shows "lq_list (lq_pop q) = tl (lq_list q)"
proof (rule nth_equalityI)
  show "length (lq_list (lq_pop q)) = length (tl (lq_list q))"
    using use_pop [OF inv ne] by (simp add: length_lq_list)
  fix i assume i: "i < length (lq_list (lq_pop q))"
  from lq_list_nth [OF this] have "lq_list (lq_pop q) ! i =
      lq_queue q ! nat (((lq_head q + 1) mod lq_max q + int i) mod lq_max q)"
    by (simp add: lq_pop_def)
  moreover have "((lq_head q + 1) mod lq_max q + int i) mod lq_max q =
      (lq_head q + int (Suc i)) mod lq_max q"
    by (metis add.assoc mod_add_left_eq of_nat_Suc)
  ultimately show "lq_list (lq_pop q) ! i = tl (lq_list q) ! i"
    using i use_pop [OF inv ne] by (simp add: nth_tl length_lq_list lq_list_nth)
qed

lemma lq_head_read:
  assumes inv: "lq_inv q" and ne: "lq_list q \<noteq> []"
  shows "arr_read (lq_queue q) (lq_head q) = Some (hd (lq_list q))"
proof -
  have "0 < nat (loopQueueGetUseLength q)" using ne by (simp add: lq_list_def)
  then have "hd (lq_list q) = lq_queue q ! nat (lq_head q)"
    using lq_invD [OF inv] by (simp add: lq_list_def hd_map upt_conv_Cons)
  then show ?thesis using lq_invD [OF inv] by (simp add: arr_read_in)
qed

section \<open>Operations\<close>

lemma addOne_eval:
  assumes "lq_ok q"
  shows "loopQueueAddOne uadd q d =
    Some (if length (lq_list q) < lq_cap q then (1, lq_push d q) else (0, q))"
proof -
  let ?w = "q\<lparr>lq_queue := (lq_queue q)[nat (lq_end q) := d]\<rparr>"
  have "lq_ok ?w" using assms by simp
  then have "loopQueueNonFullFastAddOne ?w = Some (lq_push d q)"
    by (simp add: fast_add) (simp add: lq_push_def)
  moreover have "length (lq_list q) \<le> lq_cap q" using assms by (simp add: length_le_cap)
  ultimately show ?thesis
    using assms by (simp add: loopQueueAddOne_def is_full call_add_default)
qed

lemma forceAddOne_eval:
  assumes "lq_ok q"
  shows "loopQueueForceAddOne uadd q d = Some (1, lq_force d q)"
proof -
  let ?w = "q\<lparr>lq_queue := (lq_queue q)[nat (lq_end q) := d]\<rparr>"
  have ok: "lq_ok ?w" using assms by simp
  then have w: "loopQueueNonFullFastAddOne ?w = Some (lq_push d q)"
    by (simp add: fast_add) (simp add: lq_push_def)
  have "lq_inv (lq_push d q)" using assms by simp
  from c_mod_head [OF this] show ?thesis
    using assms w by (simp add: loopQueueForceAddOne_def call_add_default
        loopQueueUnknownFullFastAddOne_def lq_force_def Let_def)
qed

lemma lq_ok_force [simp]: "lq_ok q \<Longrightarrow> lq_ok (lq_force d q)"
  using lq_ok_pop [of "lq_push d q"] by (simp add: lq_force_def Let_def lq_pop_def)

lemma lq_cap_force [simp]: "lq_cap (lq_force d q) = lq_cap q"
  by (simp add: lq_force_def Let_def lq_cap_def lq_push_def)

lemma lq_force_full:
  "lq_end (lq_push d q) = lq_head (lq_push d q) \<Longrightarrow> lq_force d q = lq_push d (lq_pop q)"
  by (simp add: lq_force_def Let_def lq_push_def lq_pop_def)

lemma lq_list_force:
  assumes ok: "lq_ok q"
  shows "lq_list (lq_force d q) = drop (length (lq_list q) + 1 - lq_cap q) (lq_list q @ [d])"
proof (cases "length (lq_list q) = lq_cap q")
  case False
  with ok have lt: "length (lq_list q) < lq_cap q" using length_le_cap [of q] by auto
  then have "lq_end (lq_push d q) \<noteq> lq_head (lq_push d q)"
    using full_iff [of q] ok False by (simp add: lq_push_def)
  with lt ok show ?thesis by (simp add: lq_force_def lq_list_push)
next
  case True
  then have "lq_end (lq_push d q) = lq_head (lq_push d q)"
    using full_iff [of q] ok by (simp add: lq_push_def)
  then have f: "lq_force d q = lq_push d (lq_pop q)" by (rule lq_force_full)
  show ?thesis
  proof (cases "lq_cap q = 0")
    case True
    with ok have "length (lq_list (lq_force d q)) \<le> 0"
      using length_le_cap [of "lq_force d q"] by (metis lq_cap_force lq_ok_force lq_ok_inv)
    with True show ?thesis by simp
  next
    case False
    with \<open>length (lq_list q) = lq_cap q\<close> have ne: "lq_list q \<noteq> []" by auto
    then have "lq_list (lq_pop q) = tl (lq_list q)" using ok by (simp add: lq_list_pop)
    then have "lq_list (lq_push d (lq_pop q)) = tl (lq_list q) @ [d]"
      using ok False ne \<open>length (lq_list q) = lq_cap q\<close>
      by (subst lq_list_push) (auto)
    with f ne False \<open>length (lq_list q) = lq_cap q\<close> show ?thesis
      by (simp add: drop_Suc)
  qed
qed

lemma addMulti_loop_spec:
  assumes "lq_ok q" "nat (n - i) \<le> lq_cap q - length (lq_list q)"
  shows "\<exists>q'. addMulti_loop uadd d i n q = Some q' \<and> lq_ok q' \<and> lq_cap q' = lq_cap q \<and>
    lq_list q' = lq_list q @ replicate (nat (n - i)) d"
  using assms
proof (induction uadd d i n q rule: addMulti_loop.induct)
  case (1 uadd d i n q)
  show ?case
  proof (cases "i < n")
    case False
    with "1.prems" show ?thesis by (simp add: addMulti_loop.simps [of uadd d i n q])
  next
    case True
    let ?w = "q\<lparr>lq_queue := (lq_queue q)[nat (lq_end q) := d]\<rparr>"
    have w: "loopQueueNonFullFastAddOne ?w = Some (lq_push d q)"
      using "1.prems"(1) by (simp add: fast_add) (simp add: lq_push_def)
    have room: "length (lq_list q) < lq_cap q" using "1.prems"(2) True by linarith
    have l: "lq_list (lq_push d q) = lq_list q @ [d]"
      using "1.prems"(1) room by (intro lq_list_push) auto
    have eq: "nat (n - i) = Suc (nat (n - (i + 1)))" using True by simp
    have "\<exists>q'. addMulti_loop uadd d (i + 1) n (lq_push d q) = Some q' \<and> lq_ok q' \<and>
        lq_cap q' = lq_cap (lq_push d q) \<and>
        lq_list q' = lq_list (lq_push d q) @ replicate (nat (n - (i + 1))) d"
      using "1.prems" True l eq w by (intro "1.IH") (auto simp: call_add_default)
    then show ?thesis using True "1.prems"(1) w l eq
      by (simp add: addMulti_loop.simps [of uadd d i n q] call_add_default)
  qed
qed

lemma forceAddMulti_loop_spec:
  assumes "lq_ok q"
  shows "\<exists>q'. forceAddMulti_loop uadd d i n q = Some q' \<and> lq_ok q' \<and> lq_cap q' = lq_cap q \<and>
    lq_list q' = drop (length (lq_list q) + nat (n - i) - lq_cap q)
                   (lq_list q @ replicate (nat (n - i)) d)"
  using assms
proof (induction uadd d i n q rule: forceAddMulti_loop.induct)
  case (1 uadd d i n q)
  have le: "length (lq_list q) \<le> lq_cap q" using "1.prems" by (simp add: length_le_cap)
  show ?case
  proof (cases "i < n")
    case False
    with "1.prems" le show ?thesis
      by (simp add: forceAddMulti_loop.simps [of uadd d i n q])
  next
    case True
    let ?w = "q\<lparr>lq_queue := (lq_queue q)[nat (lq_end q) := d]\<rparr>"
    have w: "loopQueueUnknownFullFastAddOne ?w = Some (lq_force d q)"
      using forceAddOne_eval [OF "1.prems", of uadd d] "1.prems"
      by (auto simp: loopQueueForceAddOne_def call_add_default split: bind_splits)
    have eq: "nat (n - i) = Suc (nat (n - (i + 1)))" using True by simp
    obtain q' where q': "forceAddMulti_loop uadd d (i + 1) n (lq_force d q) = Some q'" "lq_ok q'"
        "lq_cap q' = lq_cap q"
        "lq_list q' = drop (length (lq_list (lq_force d q)) + nat (n - (i + 1)) - lq_cap q)
                   (lq_list (lq_force d q) @ replicate (nat (n - (i + 1))) d)"
      using "1.IH" [of ?w "lq_force d q"] "1.prems" True w by (auto simp: call_add_default)
    have "lq_list q' = drop (length (lq_list q) + nat (n - i) - lq_cap q)
                   (lq_list q @ replicate (nat (n - i)) d)"
      using drop_window [of "lq_list q @ [d]" "lq_cap q" "replicate (nat (n - (i + 1))) d"] le
      by (simp only: q'(4) lq_list_force [OF "1.prems"] eq) simp
    with q' show ?thesis using True "1.prems" w
      by (simp add: forceAddMulti_loop.simps [of uadd d i n q] call_add_default)
  qed
qed

lemma getMulti_loop_spec:
  assumes "lq_ok q" "nat (n - i) \<le> length (lq_list q)" "buf \<noteq> []"
  shows "\<exists>q'. getMulti_loop uget i n q (Some buf) =
      Some (q', Some (if i < n then buf[0 := last (take (nat (n - i)) (lq_list q))] else buf)) \<and>
    lq_ok q' \<and> lq_cap q' = lq_cap q \<and> lq_list q' = drop (nat (n - i)) (lq_list q)"
  using assms
proof (induction "nat (n - i)" arbitrary: i q buf)
  case 0
  then show ?case by (simp add: getMulti_loop.simps [of uget i n q])
next
  case (Suc k)
  then have lt: "i < n" and k: "k = nat (n - (i + 1))" by simp_all
  from Suc.prems lt obtain x xs where l: "lq_list q = x # xs" by (cases "lq_list q") auto
  have get: "call_get uget q (Some buf) i = Some (q, Some (buf[0 := x]))"
    using Suc.prems l lq_head_read [of q]
    by (auto simp: call_get_def lq_ok_def defaultAeduceOneDataFunc_def arr_write_def)
  have pop: "lq_list (lq_pop q) = xs" using Suc.prems l by (simp add: lq_list_pop)
  have eq: "nat (n - i) = Suc (nat (n - (i + 1)))" using lt by simp
  have len: "nat (n - (i + 1)) \<le> length xs" using Suc.prems l eq by simp
  obtain q' where q': "getMulti_loop uget (i + 1) n (lq_pop q) (Some (buf[0 := x])) =
      Some (q', Some (if i + 1 < n then buf[0 := x, 0 := last (take (nat (n - (i + 1))) xs)]
                      else buf[0 := x]))"
    "lq_ok q'" "lq_cap q' = lq_cap q" "lq_list q' = drop (nat (n - (i + 1))) xs"
    using Suc.hyps(1) [OF k, of "lq_pop q" "buf[0 := x]"] Suc.prems len pop by auto
  have buf: "(if i + 1 < n then buf[0 := x, 0 := last (take (nat (n - (i + 1))) xs)] else buf[0 := x]) =
      buf[0 := last (take (nat (n - i)) (lq_list q))]"
    using eq len l by auto
  show ?case using q' lt get buf Suc.prems(1) eq l
    by (simp add: getMulti_loop.simps [of uget i n q] fast_get)
qed

lemma getMulti_loop_null:
  assumes "lq_ok q" "nat (n - i) \<le> length (lq_list q)"
  shows "\<exists>q'. getMulti_loop uget i n q None = Some (q', None) \<and>
    lq_ok q' \<and> lq_cap q' = lq_cap q \<and> lq_list q' = drop (nat (n - i)) (lq_list q)"
  using assms
proof (induction "nat (n - i)" arbitrary: i q)
  case 0
  then show ?case by (simp add: getMulti_loop.simps [of uget i n q])
next
  case (Suc k)
  then have lt: "i < n" and k: "k = nat (n - (i + 1))" by simp_all
  then have eq: "nat (n - i) = Suc (nat (n - (i + 1)))" by simp
  from Suc.prems eq obtain x xs where l: "lq_list q = x # xs" by (cases "lq_list q") auto
  have get: "call_get uget q None i = Some (q, None)"
    using Suc.prems by (simp add: call_get_def lq_ok_def defaultAeduceOneDataFunc_def)
  have pop: "lq_list (lq_pop q) = xs" using Suc.prems l by (simp add: lq_list_pop)
  show ?case using Suc.hyps(1) [OF k, of "lq_pop q"] Suc.prems l lt pop eq get
    by (simp add: getMulti_loop.simps [of uget i n q] fast_get)
qed

lemma inspectMulti_loop_spec:
  assumes "lq_ok q" "lq_list q = x # xs" "buf \<noteq> []"
  shows "inspectMulti_loop uget i n q (Some buf) =
    Some (q, Some (if i < n then buf[0 := x] else buf))"
  using assms(3)
proof (induction "nat (n - i)" arbitrary: i buf)
  case 0
  then show ?case by (simp add: inspectMulti_loop.simps [of uget i n q])
next
  case (Suc k)
  then have lt: "i < n" and k: "k = nat (n - (i + 1))" by simp_all
  have "call_get uget q (Some buf) i = Some (q, Some (buf[0 := x]))"
    using Suc.prems assms lq_head_read [of q]
    by (auto simp: call_get_def lq_ok_def defaultAeduceOneDataFunc_def arr_write_def)
  with Suc.hyps(1) [OF k, of "buf[0 := x]"] Suc.prems lt show ?case
    by (simp add: inspectMulti_loop.simps [of uget i n q])
qed

lemma delete_loop_spec:
  assumes "lq_inv q" "nat (n - i) \<le> length (lq_list q)"
  shows "\<exists>q'. delete_loop i n q = Some q' \<and> lq_inv q' \<and> lq_cap q' = lq_cap q \<and>
    lq_addFn q' = lq_addFn q \<and> lq_getFn q' = lq_getFn q \<and>
    lq_list q' = drop (nat (n - i)) (lq_list q)"
  using assms
proof (induction "nat (n - i)" arbitrary: i q)
  case 0
  then show ?case by (simp add: delete_loop.simps [of i n q])
next
  case (Suc k)
  then have lt: "i < n" and k: "k = nat (n - (i + 1))" by simp_all
  then have eq: "nat (n - i) = Suc (nat (n - (i + 1)))" by simp
  from Suc.prems eq obtain x xs where l: "lq_list q = x # xs" by (cases "lq_list q") auto
  have pop: "lq_list (lq_pop q) = xs" using Suc.prems l by (simp add: lq_list_pop)
  have fn: "lq_addFn (lq_pop q) = lq_addFn q" "lq_getFn (lq_pop q) = lq_getFn q"
    by (simp_all add: lq_pop_def)
  show ?case using Suc.hyps(1) [OF k, of "lq_pop q"] Suc.prems l lt pop eq fn
    by (simp add: delete_loop.simps [of i n q] fast_get)
qed

section \<open>The bounded FIFO interface\<close>

text \<open>
  What a client relies on: an operation that appends or refuses, and one that returns the
  oldest element. The client's facts are proved once from these laws.
\<close>

fun put_all :: "('q \<Rightarrow> 'a \<Rightarrow> (int \<times> 'q) option) \<Rightarrow> 'q \<Rightarrow> 'a list \<Rightarrow> (int \<times> 'q) option" where
  "put_all put q [] = Some (0, q)"
| "put_all put q (x # xs) = do {
     (r, q1) \<leftarrow> put q x;
     (n, q2) \<leftarrow> put_all put q1 xs;
     Some (r + n, q2) }"

text \<open>Receiving one element through \<^const>\<open>loopQueueGetMulti\<close> with a one-element buffer.\<close>

definition lq_receive :: "'d get_fn \<Rightarrow> 'd \<Rightarrow> 'd lq \<Rightarrow> ('d \<times> 'd lq) option" where
  "lq_receive uget x0 q = do {
     (n, q', r) \<leftarrow> loopQueueGetMulti uget q (Some [x0]) 1;
     b \<leftarrow> r;
     x \<leftarrow> arr_read b 0;
     if n = 1 then Some (x, q') else None }"

locale bounded_fifo =
  fixes ok :: "'q \<Rightarrow> bool"
    and contents :: "'q \<Rightarrow> 'a list"
    and cap :: "'q \<Rightarrow> nat"
    and put :: "'q \<Rightarrow> 'a \<Rightarrow> (int \<times> 'q) option"
    and get :: "'q \<Rightarrow> ('a \<times> 'q) option"
  assumes put_room: "ok q \<Longrightarrow> length (contents q) < cap q \<Longrightarrow>
      \<exists>q'. put q x = Some (1, q') \<and> ok q' \<and> cap q' = cap q \<and> contents q' = contents q @ [x]"
    and put_full: "ok q \<Longrightarrow> cap q \<le> length (contents q) \<Longrightarrow> put q x = Some (0, q)"
    and get_hd: "ok q \<Longrightarrow> contents q = x # xs \<Longrightarrow>
      \<exists>q'. get q = Some (x, q') \<and> ok q' \<and> cap q' = cap q \<and> contents q' = xs"
begin

lemma put_all_prefix:
  "ok q \<Longrightarrow> \<exists>q'. put_all put q xs =
      Some (int (min (length xs) (cap q - length (contents q))), q') \<and> ok q' \<and> cap q' = cap q \<and>
    contents q' = contents q @ take (cap q - length (contents q)) xs"
proof (induction xs arbitrary: q)
  case (Cons x xs)
  show ?case
  proof (cases "length (contents q) < cap q")
    case True
    then obtain q1 where q1: "put q x = Some (1, q1)" "ok q1" "cap q1 = cap q"
        "contents q1 = contents q @ [x]"
      using put_room Cons.prems by blast
    have "cap q - length (contents q) = Suc (cap q1 - length (contents q1))"
      using True q1 by simp
    with Cons.IH [OF q1(2)] q1 show ?thesis by auto
  next
    case False
    then show ?thesis using Cons.IH [OF Cons.prems] put_full [OF Cons.prems] by auto
  qed
qed simp

lemma get_n_take:
  "ok q \<Longrightarrow> n \<le> length (contents q) \<Longrightarrow> \<exists>q'. get_n get n q = Some (take n (contents q), q') \<and>
    ok q' \<and> cap q' = cap q \<and> contents q' = drop n (contents q)"
proof (induction n arbitrary: q)
  case (Suc n)
  then obtain x xs where l: "contents q = x # xs" by (cases "contents q") auto
  from get_hd [OF Suc.prems(1) l] obtain q1 where q1: "get q = Some (x, q1)" "ok q1"
      "cap q1 = cap q" "contents q1 = xs" by blast
  with Suc.IH [of q1] Suc.prems l show ?case by auto
qed simp

lemma fifo_transfer:
  assumes "ok q" "length (contents q) + length xs \<le> cap q"
  shows "\<exists>q1 q2. put_all put q xs = Some (int (length xs), q1) \<and>
    get_n get (length (contents q) + length xs) q1 = Some (contents q @ xs, q2) \<and>
    ok q2 \<and> contents q2 = []"
proof -
  from put_all_prefix [OF assms(1), of xs] assms(2) obtain q1 where q1:
    "put_all put q xs = Some (int (length xs), q1)" "ok q1" "contents q1 = contents q @ xs"
    by auto
  with get_n_take [OF q1(2), of "length (contents q1)"] show ?thesis by auto
qed

end

lemma receive_hd:
  assumes "lq_ok q" "lq_list q = x # xs"
  shows "\<exists>q'. lq_receive uget x0 q = Some (x, q') \<and> lq_ok q' \<and> lq_cap q' = lq_cap q \<and> lq_list q' = xs"
proof -
  have u: "loopQueueGetUseLength q = int (length (x # xs))"
    using use_eq_length [of q] assms by simp
  from getMulti_loop_spec [OF assms(1), of 1 0 "[x0]" uget] assms
  show ?thesis by (auto simp: lq_receive_def loopQueueGetMulti_def u arr_read_def)
qed

interpretation lq: bounded_fifo lq_ok lq_list lq_cap "loopQueueAddOne uadd" "lq_receive uget x0"
  for uadd :: "'d add_fn" and uget :: "'d get_fn" and x0 :: 'd
proof unfold_locales
  fix q :: "'d lq" and x
  assume "lq_ok q" "length (lq_list q) < lq_cap q"
  then show "\<exists>q'. loopQueueAddOne uadd q x = Some (1, q') \<and> lq_ok q' \<and> lq_cap q' = lq_cap q \<and>
      lq_list q' = lq_list q @ [x]"
    by (simp add: addOne_eval lq_list_push)
qed (simp_all add: addOne_eval receive_hd)

section \<open>Properties\<close>

lemma init_ok:
  assumes "int (length arr) = m" "0 < m" "m \<le> int_max"
  shows "lq_ok (loopQueueInit q m arr Cb_null Cb_null ud)"
    and "lq_list (loopQueueInit q m arr Cb_null Cb_null ud) = []"
    and "lq_cap (loopQueueInit q m arr Cb_null Cb_null ud) = length arr - 1"
  using assms by (auto simp: loopQueueInit_def lq_ok_def lq_inv_def lq_list_def lq_cap_def
      loopQueueGetUseLength_def Let_def)



text \<open>
  \<^verbatim>\<open>loopQueueForceAddOne\<close> always stores: on a full queue it discards exactly the oldest
  element, otherwise nothing, and it keeps the invariant. A queue whose array has one slot
  has capacity zero and stays empty.
\<close>

theorem loopQueueForceAddOne_spec:
  assumes "lq_ok q"
  shows "\<exists>q'. loopQueueForceAddOne uadd q d = Some (1, q') \<and> lq_ok q' \<and> lq_cap q' = lq_cap q \<and>
    lq_list q' = drop (length (lq_list q) + 1 - lq_cap q) (lq_list q @ [d])"
  using assms by (simp add: forceAddOne_eval lq_list_force)

theorem loopQueueForceAddOne_witness:
  "\<exists>q'. loopQueueForceAddOne (\<lambda>q d. None) (loopQueueInit lq01 1 [0] Cb_null Cb_null 0) 5 =
    Some (1, q') \<and> lq_ok q' \<and> lq_list q' = []"
  using loopQueueForceAddOne_spec [of "loopQueueInit lq01 1 [0] Cb_null Cb_null 0" "\<lambda>q d. None" 5]
    init_ok [of "[0 :: int]" 1 lq01 0]
  by (auto simp: int_max_def)

text \<open>
  \<^verbatim>\<open>loopQueueAddMulti\<close> adds the smaller of the requested number and the free room, and
  returns that number. The loop passes the same \<^verbatim>\<open>newData\<close> every time, so with the built-in
  callback the elements it adds are copies of one element.
\<close>

theorem loopQueueAddMulti_spec:
  assumes "lq_ok q"
  shows "\<exists>q'. loopQueueAddMulti uadd q d multi =
      Some (min multi (int (lq_cap q - length (lq_list q))), q') \<and> lq_ok q' \<and>
    lq_list q' = lq_list q @ replicate (min (nat multi) (lq_cap q - length (lq_list q))) d"
proof -
  let ?n = "min multi (int (lq_cap q - length (lq_list q)))"
  have n: "nat ?n = min (nat multi) (lq_cap q - length (lq_list q))" by (simp add: min_def nat_le_iff)
  have "\<exists>q'. addMulti_loop uadd d 0 ?n q = Some q' \<and> lq_ok q' \<and> lq_cap q' = lq_cap q \<and>
      lq_list q' = lq_list q @ replicate (nat (?n - 0)) d"
    using assms n by (intro addMulti_loop_spec) auto
  moreover have "(if multi < loopQueueGetIdleLength q then multi else loopQueueGetIdleLength q) = ?n"
    using assms by (simp add: idle_eq min_def)
  ultimately show ?thesis using n by (auto simp: loopQueueAddMulti_def Let_def)
qed

theorem loopQueueAddMulti_witness:
  "\<exists>q'. loopQueueAddMulti (\<lambda>q d. None) (loopQueueInit lq01 3 [0, 0, 0] Cb_null Cb_null 0) 9 5 =
    Some (2, q') \<and> lq_ok q' \<and> lq_list q' = [9, 9]"
  using loopQueueAddMulti_spec [of "loopQueueInit lq01 3 [0, 0, 0] Cb_null Cb_null 0" "\<lambda>q d. None" 9 5]
    init_ok [of "[0, 0, 0 :: int]" 3 lq01 0]
  by (auto simp: int_max_def numeral_2_eq_2)

text \<open>
  \<^verbatim>\<open>loopQueueGetMulti\<close> removes and counts the oldest \<open>k\<close> elements, \<open>k\<close> the smaller of the
  requested size and the fill. The built-in callback ignores the index it is given and writes
  slot 0 of the receive buffer every time, so only the last removed element is delivered.
\<close>

theorem loopQueueGetMulti_spec:
  assumes "lq_ok q" "buf \<noteq> []" "0 < n" "lq_list q \<noteq> []"
  shows "\<exists>q'. loopQueueGetMulti uget q (Some buf) (int n) =
      Some (int (min n (length (lq_list q))), q', Some (buf[0 := last (take n (lq_list q))])) \<and>
    lq_ok q' \<and> lq_list q' = drop n (lq_list q)"
proof -
  let ?k = "int (min n (length (lq_list q)))"
  have u: "(if int n < loopQueueGetUseLength q then int n else loopQueueGetUseLength q) = ?k"
    using assms by (simp add: use_eq_length)
  have "0 < ?k" using assms by simp
  moreover have "take (min n (length (lq_list q))) (lq_list q) = take n (lq_list q)"
    and "drop (min n (length (lq_list q))) (lq_list q) = drop n (lq_list q)"
    by (simp_all add: min_def)
  moreover have "nat (?k - 0) \<le> length (lq_list q)" by simp
  ultimately show ?thesis
    using getMulti_loop_spec [OF assms(1), of ?k 0 buf uget] assms(2)
    by (auto simp: loopQueueGetMulti_def Let_def u)
qed

theorem loopQueueGetMulti_witness:
  "\<exists>q'. loopQueueGetMulti (\<lambda>q r i. None)
      \<lparr>lq_head = 2, lq_end = 1, lq_max = 3, lq_queue = [8, 0, 7 :: int], lq_addFn = Cb_default,
       lq_getFn = Cb_default, lq_userData = 0\<rparr> (Some [0, 0]) 2 = Some (2, q', Some [8, 0])"
  using loopQueueGetMulti_spec [of "\<lparr>lq_head = 2, lq_end = 1, lq_max = 3, lq_queue = [8, 0, 7 :: int],
      lq_addFn = Cb_default, lq_getFn = Cb_default, lq_userData = 0\<rparr>" "[0, 0]" 2 "\<lambda>q r i. None"]
  by (auto simp: lq_ok_def lq_inv_def int_max_def lq_list_def loopQueueGetUseLength_def
      upt_rec numeral_2_eq_2)

text \<open>
  \<^verbatim>\<open>loopQueueGetOne\<close> removes the oldest element of a non-empty queue and returns 1, but it
  never calls the data callback: whatever receive buffer it is given comes back unchanged.
\<close>

theorem loopQueueGetOne_discards:
  assumes "lq_ok q" "lq_list q = x # xs"
  shows "\<exists>q'. loopQueueGetOne q recvData = Some (1, q', recvData) \<and> lq_ok q' \<and> lq_list q' = xs"
proof -
  have "lq_head q \<noteq> lq_end q" using assms empty_iff [of q] by simp
  then show ?thesis using assms
    by (simp add: loopQueueGetOne_def loopQueueIsEmpty_def fast_get lq_list_pop)
qed

theorem loopQueueGetOne_witness:
  "\<exists>q'. loopQueueGetOne
      \<lparr>lq_head = 0, lq_end = 1, lq_max = 2, lq_queue = [7 :: int, 0], lq_addFn = Cb_default,
       lq_getFn = Cb_default, lq_userData = 0\<rparr> (Some [0]) = Some (1, q', Some [0])"
  using loopQueueGetOne_discards [of "\<lparr>lq_head = 0, lq_end = 1, lq_max = 2, lq_queue = [7 :: int, 0],
      lq_addFn = Cb_default, lq_getFn = Cb_default, lq_userData = 0\<rparr>" 7 "[]" "Some [0]"]
  by (auto simp: lq_ok_def lq_inv_def int_max_def lq_list_def loopQueueGetUseLength_def)

text \<open>
  \<^verbatim>\<open>loopQueueDeleteMulti\<close> drops the oldest elements and clamps the request to the fill;
  \<^verbatim>\<open>loopQueueInspectDelete\<close> agrees with it up to the fill, where it is safe to call.
\<close>

theorem loopQueueDeleteMulti_spec:
  assumes "lq_inv q"
  shows "\<exists>q'. loopQueueDeleteMulti q (int n) = Some (int (min n (length (lq_list q))), q') \<and>
    lq_inv q' \<and> lq_list q' = drop n (lq_list q) \<and>
    (n \<le> length (lq_list q) \<longrightarrow> loopQueueInspectDelete q (int n) = Some (int n, q'))"
proof -
  let ?k = "min n (length (lq_list q))"
  have u: "(if int n < loopQueueGetUseLength q then int n else loopQueueGetUseLength q) = int ?k"
    using assms by (simp add: use_eq_length)
  have "nat (int ?k - 0) \<le> length (lq_list q)" by simp
  from delete_loop_spec [OF assms this] obtain q' where
    q': "delete_loop 0 (int ?k) q = Some q'" "lq_inv q'" "lq_list q' = drop ?k (lq_list q)" by auto
  moreover have "drop ?k (lq_list q) = drop n (lq_list q)" by (simp add: min_def)
  ultimately show ?thesis
    by (auto simp: loopQueueDeleteMulti_def loopQueueInspectDelete_def Let_def u min_def)
qed

theorem loopQueueDeleteMulti_witness:
  "\<exists>q'. loopQueueDeleteMulti \<lparr>lq_head = 0, lq_end = 1, lq_max = 2, lq_queue = [7 :: int, 0],
       lq_addFn = Cb_null, lq_getFn = Cb_null, lq_userData = 0\<rparr> 4 = Some (1, q') \<and> lq_list q' = []"
  using loopQueueDeleteMulti_spec [of "\<lparr>lq_head = 0, lq_end = 1, lq_max = 2, lq_queue = [7 :: int, 0],
      lq_addFn = Cb_null, lq_getFn = Cb_null, lq_userData = 0\<rparr>" 4]
  by (auto simp: lq_inv_def int_max_def lq_list_def loopQueueGetUseLength_def)

text \<open>
  The trace the comments of \<^verbatim>\<open>loopQueue_example.c\<close> print: of ten additions to a queue
  over six slots the first five are stored, and deleting everything moves only the head.
\<close>

theorem lq01_test_trace:
  "map_option (\<lambda>(a, b, c). (map (\<lambda>q. (lq_head q, lq_end q, loopQueueGetUseLength q,
       loopQueueGetIdleLength q, loopQueueIsEmpty q, loopQueueIsFull q, lq_queue q)) [a, b, c])) lq01_test =
   Some [(0, 0, 0, 5, Lq_EMPTY, Some Lq_OK, [0, 0, 0, 0, 0, 0]),
         (0, 5, 5, 0, Lq_OK, Some Lq_FULL, [0, 1, 2, 3, 4, 0]),
         (5, 5, 0, 5, Lq_EMPTY, Some Lq_OK, [0, 1, 2, 3, 4, 0])]"
  by code_simp

end
