(* ===== verification/ListNode.thy ===== *)
theory ListNode
  imports Prelude
begin

text \<open>
  The intrusive doubly linked list of \<^verbatim>\<open>list/list.h\<close>. The nodes live in a store, a partial
  map from addresses to nodes; address 0 is \<^verbatim>\<open>NULL\<close>. Every field access of the source is one
  read or write of the store, in the source's order, so aliasing between the list head, the
  item and its neighbours is that of the code. A null or dangling access yields
  \<^term>\<open>None\<close>.

  A well-formed list is a cycle through its head: \<open>dll s l xs\<close> says that following
  \<^verbatim>\<open>next\<close> from the head \<open>l\<close> visits the distinct nodes \<open>xs\<close> and returns to \<open>l\<close>, and that
  \<^verbatim>\<open>prev\<close> is the inverse.
\<close>

named_theorems store_simps \<open>reads after writes in the node store\<close>

section \<open>Store\<close>

record list_node =
  n_prev :: nat
  n_next :: nat

type_synonym node_store = "nat \<rightharpoonup> list_node"

definition valid :: "node_store \<Rightarrow> nat \<Rightarrow> bool" where
  "valid s p \<longleftrightarrow> p \<noteq> 0 \<and> s p \<noteq> None"

definition rd_next :: "node_store \<Rightarrow> nat \<Rightarrow> nat option" where
  "rd_next s p = (if valid s p then Some (n_next (the (s p))) else None)"

definition rd_prev :: "node_store \<Rightarrow> nat \<Rightarrow> nat option" where
  "rd_prev s p = (if valid s p then Some (n_prev (the (s p))) else None)"

definition set_next :: "node_store \<Rightarrow> nat \<Rightarrow> nat \<Rightarrow> node_store" where
  "set_next s p v = s(p \<mapsto> (the (s p))\<lparr>n_next := v\<rparr>)"

definition set_prev :: "node_store \<Rightarrow> nat \<Rightarrow> nat \<Rightarrow> node_store" where
  "set_prev s p v = s(p \<mapsto> (the (s p))\<lparr>n_prev := v\<rparr>)"

definition wr_next :: "node_store \<Rightarrow> nat \<Rightarrow> nat \<Rightarrow> node_store option" where
  "wr_next s p v = (if valid s p then Some (set_next s p v) else None)"

definition wr_prev :: "node_store \<Rightarrow> nat \<Rightarrow> nat \<Rightarrow> node_store option" where
  "wr_prev s p v = (if valid s p then Some (set_prev s p v) else None)"

section \<open>Operations\<close>

definition containerof :: "nat \<Rightarrow> nat \<Rightarrow> nat" where
  "containerof ptr off = nat ((int ptr - int off) mod 2 ^ 32)"

definition list_initialize :: "node_store \<Rightarrow> nat \<Rightarrow> node_store option" where
  "list_initialize s l = do { s1 \<leftarrow> wr_next s l l; wr_prev s1 l l }"

definition list_clear_node :: "node_store \<Rightarrow> nat \<Rightarrow> node_store option" where
  "list_clear_node s item = do { s1 \<leftarrow> wr_next s item 0; wr_prev s1 item 0 }"

definition list_in_list :: "node_store \<Rightarrow> nat \<Rightarrow> bool option" where
  "list_in_list s item = do {
     p \<leftarrow> rd_prev s item;
     n \<leftarrow> rd_next s item;
     Some (if p = 0 \<and> n = 0 then False else True) }"

definition list_add_head :: "node_store \<Rightarrow> nat \<Rightarrow> nat \<Rightarrow> node_store option" where
  "list_add_head s l item = do {
     n \<leftarrow> rd_next s l;
     s1 \<leftarrow> wr_next s item n;
     s2 \<leftarrow> wr_prev s1 item l;
     n' \<leftarrow> rd_next s2 l;
     s3 \<leftarrow> wr_prev s2 n' item;
     wr_next s3 l item }"

definition list_add_after :: "node_store \<Rightarrow> nat \<Rightarrow> nat \<Rightarrow> node_store option" where
  "list_add_after s entry new_entry = list_add_head s entry new_entry"

definition list_add_tail :: "node_store \<Rightarrow> nat \<Rightarrow> nat \<Rightarrow> node_store option" where
  "list_add_tail s l item = do {
     p \<leftarrow> rd_prev s l;
     s1 \<leftarrow> wr_prev s item p;
     s2 \<leftarrow> wr_next s1 item l;
     p' \<leftarrow> rd_prev s2 l;
     s3 \<leftarrow> wr_next s2 p' item;
     wr_prev s3 l item }"

definition list_add_before :: "node_store \<Rightarrow> nat \<Rightarrow> nat \<Rightarrow> node_store option" where
  "list_add_before s entry new_entry = list_add_tail s entry new_entry"

definition list_delete :: "node_store \<Rightarrow> nat \<Rightarrow> node_store option" where
  "list_delete s item = do {
     p \<leftarrow> rd_prev s item;
     n \<leftarrow> rd_next s item;
     s1 \<leftarrow> wr_prev s n p;
     n' \<leftarrow> rd_next s1 item;
     p' \<leftarrow> rd_prev s1 item;
     s2 \<leftarrow> wr_next s1 p' n';
     s3 \<leftarrow> wr_next s2 item 0;
     wr_prev s3 item 0 }"

definition list_remove_head :: "node_store \<Rightarrow> nat \<Rightarrow> (nat \<times> node_store) option" where
  "list_remove_head s l = do {
     n \<leftarrow> rd_next s l;
     if n \<noteq> l
     then do { s1 \<leftarrow> list_delete s n; Some (n, s1) }
     else Some (0, s) }"

definition list_remove_tail :: "node_store \<Rightarrow> nat \<Rightarrow> (nat \<times> node_store) option" where
  "list_remove_tail s l = do {
     p \<leftarrow> rd_prev s l;
     if p \<noteq> l
     then do { s1 \<leftarrow> list_delete s p; Some (p, s1) }
     else Some (0, s) }"

definition list_peek_head :: "node_store \<Rightarrow> nat \<Rightarrow> nat option" where
  "list_peek_head s l = do { n \<leftarrow> rd_next s l; Some (if n \<noteq> l then n else 0) }"

definition list_peek_tail :: "node_store \<Rightarrow> nat \<Rightarrow> nat option" where
  "list_peek_tail s l = do { p \<leftarrow> rd_prev s l; Some (if p \<noteq> l then p else 0) }"

definition list_prev :: "node_store \<Rightarrow> nat \<Rightarrow> nat \<Rightarrow> nat option" where
  "list_prev s l item = do { p \<leftarrow> rd_prev s item; Some (if p \<noteq> l then p else 0) }"

definition list_prev_wrap :: "node_store \<Rightarrow> nat \<Rightarrow> nat \<Rightarrow> nat option" where
  "list_prev_wrap s l item = do {
     p \<leftarrow> rd_prev s item;
     if p \<noteq> l then Some p
     else do { pp \<leftarrow> rd_prev s p; Some (if pp \<noteq> l then pp else 0) } }"

definition list_next :: "node_store \<Rightarrow> nat \<Rightarrow> nat \<Rightarrow> nat option" where
  "list_next s l item = do { n \<leftarrow> rd_next s item; Some (if n \<noteq> l then n else 0) }"

definition list_next_wrap :: "node_store \<Rightarrow> nat \<Rightarrow> nat \<Rightarrow> nat option" where
  "list_next_wrap s l item = do {
     n \<leftarrow> rd_next s item;
     if n \<noteq> l then Some n
     else do { nn \<leftarrow> rd_next s n; Some (if nn \<noteq> l then nn else 0) } }"

definition list_is_empty :: "node_store \<Rightarrow> nat \<Rightarrow> bool option" where
  "list_is_empty s l = do { n \<leftarrow> rd_next s l; Some (n = l) }"

subsection \<open>The typed variants: the container of the node, or null\<close>

definition typed :: "nat \<Rightarrow> nat \<Rightarrow> nat" where
  "typed off nod = (if nod \<noteq> 0 then containerof nod off else 0)"

definition list_remove_head_type :: "nat \<Rightarrow> node_store \<Rightarrow> nat \<Rightarrow> (nat \<times> node_store) option" where
  "list_remove_head_type off s l = map_option (map_prod (typed off) id) (list_remove_head s l)"

definition list_remove_tail_type :: "nat \<Rightarrow> node_store \<Rightarrow> nat \<Rightarrow> (nat \<times> node_store) option" where
  "list_remove_tail_type off s l = map_option (map_prod (typed off) id) (list_remove_tail s l)"

definition list_peek_head_type :: "nat \<Rightarrow> node_store \<Rightarrow> nat \<Rightarrow> nat option" where
  "list_peek_head_type off s l = map_option (typed off) (list_peek_head s l)"

definition list_peek_tail_type :: "nat \<Rightarrow> node_store \<Rightarrow> nat \<Rightarrow> nat option" where
  "list_peek_tail_type off s l = map_option (typed off) (list_peek_tail s l)"

definition list_prev_type :: "nat \<Rightarrow> node_store \<Rightarrow> nat \<Rightarrow> nat \<Rightarrow> nat option" where
  "list_prev_type off s l item = map_option (typed off) (list_prev s l item)"

definition list_prev_wrap_type :: "nat \<Rightarrow> node_store \<Rightarrow> nat \<Rightarrow> nat \<Rightarrow> nat option" where
  "list_prev_wrap_type off s l item = map_option (typed off) (list_prev_wrap s l item)"

definition list_next_type :: "nat \<Rightarrow> node_store \<Rightarrow> nat \<Rightarrow> nat \<Rightarrow> nat option" where
  "list_next_type off s l item = map_option (typed off) (list_next s l item)"

definition list_next_wrap_type :: "nat \<Rightarrow> node_store \<Rightarrow> nat \<Rightarrow> nat \<Rightarrow> nat option" where
  "list_next_wrap_type off s l item = map_option (typed off) (list_next_wrap s l item)"

subsection \<open>Iteration\<close>

text \<open>
  The three loops may run for ever on a store that is not a well-formed list; then their
  value is \<^term>\<open>None\<close>. \<open>every_loop\<close> is the iteration macro with a body that records the
  nodes it sees, \<open>every_safe_loop\<close> the one that may delete the current node: it reads the
  successor before the body runs.
\<close>

partial_function (option) length_loop :: "node_store \<Rightarrow> nat \<Rightarrow> nat \<Rightarrow> u32 \<Rightarrow> u32 option" where
  "length_loop s l node cnt =
     (if node \<noteq> l then do { n \<leftarrow> rd_next s node; length_loop s l n (cnt + 1) } else Some cnt)"

definition list_length :: "node_store \<Rightarrow> nat \<Rightarrow> u32 option" where
  "list_length s l = do { n \<leftarrow> rd_next s l; length_loop s l n 0 }"

partial_function (option) every_loop :: "node_store \<Rightarrow> nat \<Rightarrow> nat \<Rightarrow> nat list \<Rightarrow> nat list option" where
  "every_loop s l node acc =
     (if node \<noteq> l then do { n \<leftarrow> rd_next s node; every_loop s l n (acc @ [node]) } else Some acc)"

definition list_for_every :: "node_store \<Rightarrow> nat \<Rightarrow> nat list option" where
  "list_for_every s l = do { n \<leftarrow> rd_next s l; every_loop s l n [] }"

partial_function (option) every_safe_loop ::
  "(node_store \<Rightarrow> nat \<Rightarrow> node_store option) \<Rightarrow> nat \<Rightarrow> nat \<Rightarrow> nat \<Rightarrow> node_store \<Rightarrow> node_store option" where
  "every_safe_loop body l node temp_node s =
     (if node \<noteq> l
      then do { s1 \<leftarrow> body s node;
                t \<leftarrow> rd_next s1 temp_node;
                every_safe_loop body l temp_node t s1 }
      else Some s)"

definition list_for_every_safe ::
  "(node_store \<Rightarrow> nat \<Rightarrow> node_store option) \<Rightarrow> node_store \<Rightarrow> nat \<Rightarrow> node_store option" where
  "list_for_every_safe body s l = do {
     n \<leftarrow> rd_next s l;
     t \<leftarrow> rd_next s n;
     every_safe_loop body l n t s }"

section \<open>Well-formed lists\<close>

fun seg :: "node_store \<Rightarrow> nat \<Rightarrow> nat list \<Rightarrow> nat \<Rightarrow> bool" where
  "seg s a [] b \<longleftrightarrow> rd_next s a = Some b \<and> rd_prev s b = Some a"
| "seg s a (x # xs) b \<longleftrightarrow> rd_next s a = Some x \<and> rd_prev s x = Some a \<and> seg s x xs b"

definition dll :: "node_store \<Rightarrow> nat \<Rightarrow> nat list \<Rightarrow> bool" where
  "dll s l xs \<longleftrightarrow> distinct (l # xs) \<and> seg s l xs l"

section \<open>Reads after writes\<close>

lemma valid_set [store_simps]:
  "valid s p \<Longrightarrow> valid (set_next s p v) q = valid s q"
  "valid s p \<Longrightarrow> valid (set_prev s p v) q = valid s q"
  by (auto simp: valid_def set_next_def set_prev_def)

lemma rd_set [store_simps]:
  "valid s p \<Longrightarrow> rd_next (set_next s p v) q = (if q = p then Some v else rd_next s q)"
  "valid s p \<Longrightarrow> rd_prev (set_next s p v) q = rd_prev s q"
  "valid s p \<Longrightarrow> rd_prev (set_prev s p v) q = (if q = p then Some v else rd_prev s q)"
  "valid s p \<Longrightarrow> rd_next (set_prev s p v) q = rd_next s q"
  by (auto simp: valid_def rd_next_def rd_prev_def set_next_def set_prev_def)

lemma wr_valid [store_simps]:
  "valid s p \<Longrightarrow> wr_next s p v = Some (set_next s p v)"
  "valid s p \<Longrightarrow> wr_prev s p v = Some (set_prev s p v)"
  by (simp_all add: wr_next_def wr_prev_def)

lemma rd_valid:
  "rd_next s p = Some v \<Longrightarrow> valid s p"
  "rd_prev s p = Some v \<Longrightarrow> valid s p"
  by (auto simp: rd_next_def rd_prev_def split: if_splits)

lemma set_other [store_simps]:
  "q \<noteq> p \<Longrightarrow> set_next s p v q = s q"
  "q \<noteq> p \<Longrightarrow> set_prev s p v q = s q"
  by (simp_all add: set_next_def set_prev_def)

section \<open>Segments\<close>

lemma seg_append: "seg s a (xs @ x # ys) b \<longleftrightarrow> seg s a xs x \<and> seg s x ys b"
  by (induction xs arbitrary: a) auto

lemma seg_valid: "seg s a xs b \<Longrightarrow> valid s a \<and> valid s b \<and> (\<forall>x \<in> set xs. valid s x)"
  by (induction xs arbitrary: a) (auto dest: rd_valid)

lemma seg_frame:
  assumes "\<forall>q \<in> insert a (set xs). rd_next s' q = rd_next s q"
    and "\<forall>q \<in> insert b (set xs). rd_prev s' q = rd_prev s q"
  shows "seg s' a xs b = seg s a xs b"
  using assms by (induction xs arbitrary: a) auto

lemma seg_last: "seg s a xs b \<Longrightarrow> rd_next s (last (a # xs)) = Some b \<and> rd_prev s b = Some (last (a # xs))"
  by (induction xs arbitrary: a) auto

lemma seg_redirect:
  assumes "seg s a xs b" "distinct (a # xs)"
    and "\<forall>q \<in> insert a (set xs). q \<noteq> last (a # xs) \<longrightarrow> rd_next s' q = rd_next s q"
    and "rd_next s' (last (a # xs)) = Some c"
    and "\<forall>q \<in> set xs. rd_prev s' q = rd_prev s q"
    and "rd_prev s' c = Some (last (a # xs))"
  shows "seg s' a xs c"
  using assms
proof (induction xs arbitrary: a)
  case (Cons x xs)
  have "a \<noteq> last (x # xs)" using Cons.prems(2) last_in_set [of "x # xs"] by auto
  then show ?case using Cons by auto
qed simp

section \<open>Cycles\<close>

lemma dll_valid: "dll s l xs \<Longrightarrow> x \<in> insert l (set xs) \<Longrightarrow> valid s x"
  using seg_valid by (fastforce simp: dll_def)

lemma dll_rotate: "dll s l (ys @ e # zs) \<longleftrightarrow> dll s e (zs @ l # ys)"
  by (auto simp: dll_def seg_append)

lemma dll_next: "dll s l (x # xs) \<Longrightarrow> rd_next s l = Some x"
  by (simp add: dll_def)

lemma dll_empty_iff: "dll s l xs \<Longrightarrow> rd_next s l = Some l \<longleftrightarrow> xs = []"
  by (cases xs) (auto simp: dll_def)

lemma dll_prev: "dll s l xs \<Longrightarrow> rd_prev s l = Some (last (l # xs))"
  using seg_last by (fastforce simp: dll_def)

lemma dll_frame:
  assumes "dll s l xs" "\<forall>q \<in> insert l (set xs). s' q = s q"
  shows "dll s' l xs"
proof -
  have "\<forall>q \<in> insert l (set xs). rd_next s' q = rd_next s q \<and> rd_prev s' q = rd_prev s q"
    using assms(2) by (simp add: rd_next_def rd_prev_def valid_def)
  with assms(1) show ?thesis by (simp add: dll_def seg_frame [of l xs s' s l])
qed

lemma add_head_dll:
  assumes d: "dll s l xs" and v: "valid s item" and fresh: "item \<notin> insert l (set xs)"
  shows "\<exists>s'. list_add_head s l item = Some s' \<and> dll s' l (item # xs) \<and>
    (\<forall>q. q \<notin> {l, item} \<union> set xs \<longrightarrow> s' q = s q)"
proof -
  have seg: "seg s l xs l" and dist: "distinct (l # xs)" using d by (auto simp: dll_def)
  have vl: "valid s l" using d by (auto intro: dll_valid)
  obtain n where n: "rd_next s l = Some n" and nx: "n = hd (xs @ [l])"
    using seg by (cases xs) auto
  have vn: "valid s n" using nx d by (cases xs) (auto intro: dll_valid)
  have nf: "n \<noteq> item" using nx fresh by (cases xs) auto
  let ?s2 = "set_prev (set_next s item n) item l"
  let ?s' = "set_next (set_prev ?s2 n item) l item"
  have run: "list_add_head s l item = Some ?s'"
    using n v vl vn fresh by (simp add: list_add_head_def store_simps)
  have "seg ?s' item xs l"
  proof (cases xs)
    case Nil
    with nx v vl fresh show ?thesis by (simp add: store_simps)
  next
    case (Cons x ys)
    have "seg ?s' x ys l = seg s x ys l"
      using Cons v vl vn fresh dist nx by (intro seg_frame) (auto simp: store_simps)
    with Cons seg nx v vl vn fresh dist show ?thesis by (auto simp: store_simps)
  qed
  then have "dll ?s' l (item # xs)"
    using dist fresh v vl vn nf by (simp add: dll_def store_simps)
  moreover have "\<forall>q. q \<notin> {l, item} \<union> set xs \<longrightarrow> ?s' q = s q"
    using nx by (cases xs) (auto simp: store_simps)
  ultimately show ?thesis using run by blast
qed

lemma add_tail_dll:
  assumes d: "dll s l xs" and v: "valid s item" and fresh: "item \<notin> insert l (set xs)"
  shows "\<exists>s'. list_add_tail s l item = Some s' \<and> dll s' l (xs @ [item]) \<and>
    (\<forall>q. q \<notin> {l, item} \<union> set xs \<longrightarrow> s' q = s q)"
proof -
  have seg: "seg s l xs l" and dist: "distinct (l # xs)" using d by (auto simp: dll_def)
  have vl: "valid s l" using d by (auto intro: dll_valid)
  let ?p = "last (l # xs)"
  have p: "rd_prev s l = Some ?p" using d by (rule dll_prev)
  have pin: "?p \<in> insert l (set xs)" using last_in_set [of "l # xs"] by simp
  then have vp: "valid s ?p" using d by (blast intro: dll_valid)
  have pf: "?p \<noteq> item" using pin fresh by auto
  let ?s2 = "set_next (set_prev s item ?p) item l"
  let ?s' = "set_prev (set_next ?s2 ?p item) l item"
  have run: "list_add_tail s l item = Some ?s'"
    using p v vl vp fresh by (simp add: list_add_tail_def store_simps)
  have "seg ?s' l xs item"
    using seg dist v vl vp fresh pf
    by (intro seg_redirect [OF seg dist]) (auto simp: store_simps)
  then have "dll ?s' l (xs @ [item])"
    using dist fresh v vl vp pf by (auto simp: dll_def seg_append store_simps)
  moreover have "\<forall>q. q \<notin> {l, item} \<union> set xs \<longrightarrow> ?s' q = s q"
    using pin by (metis UnI1 UnI2 insertCI insertE set_other)
  ultimately show ?thesis using run by blast
qed

lemma delete_head_dll:
  assumes d: "dll s x (c # cs)"
  shows "\<exists>s'. list_delete s x = Some s' \<and> dll s' c cs \<and> rd_prev s' x = Some 0 \<and>
    rd_next s' x = Some 0 \<and> (\<forall>q. q \<notin> {x, c} \<union> set cs \<longrightarrow> s' q = s q)"
proof -
  have seg: "seg s c cs x" and n: "rd_next s x = Some c" and dist: "distinct (x # c # cs)"
    using d by (auto simp: dll_def)
  let ?p = "last (c # cs)"
  have p: "rd_prev s x = Some ?p" using dll_prev [OF d] by simp
  have pin: "?p \<in> insert c (set cs)" using last_in_set [of "c # cs"] by simp
  have vs: "valid s x" "valid s c" "valid s ?p" using d pin by (auto intro: dll_valid)
  have px: "?p \<noteq> x" using pin dist by auto
  let ?s2 = "set_next (set_prev s c ?p) ?p c"
  let ?s' = "set_prev (set_next ?s2 x 0) x 0"
  have run: "list_delete s x = Some ?s'"
    using n p vs dist px by (simp add: list_delete_def store_simps)
  have "seg ?s' c cs c"
    using seg dist vs px by (intro seg_redirect [OF seg]) (auto simp: store_simps)
  then have "dll ?s' c cs" using dist by (simp add: dll_def)
  moreover have "rd_prev ?s' x = Some 0" "rd_next ?s' x = Some 0"
    using vs by (simp_all add: store_simps)
  moreover have "\<forall>q. q \<notin> {x, c} \<union> set cs \<longrightarrow> ?s' q = s q"
    using pin by (metis UnI1 UnI2 insertCI insertE set_other)
  ultimately show ?thesis using run by blast
qed

lemma delete_dll:
  assumes d: "dll s l (ys @ x # zs)"
  shows "\<exists>s'. list_delete s x = Some s' \<and> dll s' l (ys @ zs) \<and> list_in_list s' x = Some False \<and>
    (\<forall>q. q \<notin> {l, x} \<union> set ys \<union> set zs \<longrightarrow> s' q = s q)"
proof -
  from d have r: "dll s x (zs @ l # ys)" by (simp add: dll_rotate)
  then obtain c cs where c: "zs @ l # ys = c # cs" by (cases zs) auto
  from delete_head_dll [OF r [unfolded c]] obtain s' where s':
    "list_delete s x = Some s'" "dll s' c cs" "rd_prev s' x = Some 0" "rd_next s' x = Some 0"
    "\<forall>q. q \<notin> {x, c} \<union> set cs \<longrightarrow> s' q = s q" by blast
  have set: "{x, c} \<union> set cs = {l, x} \<union> set ys \<union> set zs"
    using arg_cong [OF c, of set] by auto
  have "dll s' l (ys @ zs)"
  proof (cases zs)
    case Nil
    with c s'(2) show ?thesis by simp
  next
    case (Cons z zs')
    with c s'(2) show ?thesis by (simp add: dll_rotate)
  qed
  with s' set show ?thesis by (auto simp: list_in_list_def)
qed

section \<open>Removal, iteration and neighbours\<close>

lemma remove_head_dll:
  assumes "dll s l (x # xs)"
  shows "\<exists>s'. list_remove_head s l = Some (x, s') \<and> dll s' l xs \<and> list_in_list s' x = Some False \<and>
    (\<forall>q. q \<notin> {l, x} \<union> set xs \<longrightarrow> s' q = s q)"
proof -
  have "x \<noteq> l" using assms by (auto simp: dll_def)
  with dll_next [OF assms] delete_dll [of s l "[]" x xs] assms show ?thesis
    by (auto simp: list_remove_head_def)
qed

lemma remove_tail_dll:
  assumes "dll s l (xs @ [x])"
  shows "\<exists>s'. list_remove_tail s l = Some (x, s') \<and> dll s' l xs \<and> list_in_list s' x = Some False \<and>
    (\<forall>q. q \<notin> {l, x} \<union> set xs \<longrightarrow> s' q = s q)"
proof -
  have "x \<noteq> l" using assms by (auto simp: dll_def)
  with dll_prev [OF assms] delete_dll [of s l xs x "[]"] assms show ?thesis
    by (auto simp: list_remove_tail_def)
qed

lemma length_loop_seg:
  "seg s a xs l \<Longrightarrow> l \<notin> set xs \<Longrightarrow> rd_next s a = Some n \<Longrightarrow>
   length_loop s l n cnt = Some (cnt + of_nat (length xs))"
proof (induction xs arbitrary: a n cnt)
  case Nil
  then show ?case by (simp add: length_loop.simps)
next
  case (Cons x xs)
  then have "n = x" "x \<noteq> l" "seg s x xs l" by auto
  moreover obtain m where "rd_next s x = Some m" using Cons.prems by (cases xs) auto
  ultimately show ?case using Cons.IH [of x m "cnt + 1"] Cons.prems
    by (simp add: length_loop.simps [of s l x] add.assoc)
qed

lemma every_loop_seg:
  "seg s a xs l \<Longrightarrow> l \<notin> set xs \<Longrightarrow> rd_next s a = Some n \<Longrightarrow> every_loop s l n acc = Some (acc @ xs)"
proof (induction xs arbitrary: a n acc)
  case Nil
  then show ?case by (simp add: every_loop.simps)
next
  case (Cons x xs)
  then have "n = x" "x \<noteq> l" "seg s x xs l" by auto
  moreover obtain m where "rd_next s x = Some m" using Cons.prems by (cases xs) auto
  ultimately show ?case using Cons.IH [of x m "acc @ [x]"] Cons.prems
    by (simp add: every_loop.simps [of s l x])
qed

lemma list_in_list_cong: "s' x = s x \<Longrightarrow> list_in_list s' x = list_in_list s x"
  by (simp add: list_in_list_def rd_prev_def rd_next_def valid_def)

lemma every_safe_delete:
  assumes "dll s l (x # xs)" "rd_next s x = Some t"
  shows "\<exists>s'. every_safe_loop list_delete l x t s = Some s' \<and> dll s' l [] \<and>
    (\<forall>y \<in> set (x # xs). list_in_list s' y = Some False) \<and>
    (\<forall>q. q \<notin> insert l (set (x # xs)) \<longrightarrow> s' q = s q)"
  using assms
proof (induction xs arbitrary: s x t)
  case Nil
  from delete_dll [of s l "[]" x "[]"] Nil obtain s1 where s1:
    "list_delete s x = Some s1" "dll s1 l []" "list_in_list s1 x = Some False"
    "\<forall>q. q \<notin> {l, x} \<longrightarrow> s1 q = s q" by auto
  have "x \<noteq> l" "t = l" using Nil by (auto simp: dll_def)
  moreover have "rd_next s1 l = Some l" using s1(2) by (simp add: dll_def)
  ultimately show ?case using s1
    by (simp add: every_safe_loop.simps [of _ l x] every_safe_loop.simps [of _ l l])
next
  case (Cons y ys)
  from delete_dll [of s l "[]" x "y # ys"] Cons.prems obtain s1 where s1:
    "list_delete s x = Some s1" "dll s1 l (y # ys)" "list_in_list s1 x = Some False"
    "\<forall>q. q \<notin> {l, x} \<union> set (y # ys) \<longrightarrow> s1 q = s q" by auto
  have xl: "x \<noteq> l" "t = y" using Cons.prems by (auto simp: dll_def)
  have xy: "x \<notin> insert l (set (y # ys))" using Cons.prems by (auto simp: dll_def)
  obtain t' where t': "rd_next s1 y = Some t'" using s1(2) by (cases ys) (auto simp: dll_def)
  from Cons.IH [OF s1(2) t'] obtain s' where s':
    "every_safe_loop list_delete l y t' s1 = Some s'" "dll s' l []"
    "\<forall>z \<in> set (y # ys). list_in_list s' z = Some False"
    "\<forall>q. q \<notin> insert l (set (y # ys)) \<longrightarrow> s' q = s1 q" by auto
  have "list_in_list s' x = Some False"
    using s'(4) xy s1(3) list_in_list_cong [of s' x s1] by simp
  with s' s1 xl t' show ?case by (auto simp: every_safe_loop.simps [of _ l x])
qed

section \<open>The deque interface\<close>

text \<open>
  What users of the list rely on: the two insertions and the two removals act on the
  sequence of nodes, and none of them makes another node of the store unusable.
\<close>

definition spare :: "nat \<Rightarrow> node_store \<Rightarrow> nat \<Rightarrow> bool" where
  "spare l s x \<longleftrightarrow> valid s x \<and> x \<noteq> l"

locale linked_deque =
  fixes rep :: "'s \<Rightarrow> 'n list \<Rightarrow> bool"
    and usable :: "'s \<Rightarrow> 'n \<Rightarrow> bool"
    and push_back push_front :: "'s \<Rightarrow> 'n \<Rightarrow> 's option"
    and pop_front pop_back :: "'s \<Rightarrow> ('n \<times> 's) option"
  assumes push_back_rep: "rep s xs \<Longrightarrow> usable s x \<Longrightarrow> x \<notin> set xs \<Longrightarrow>
      \<exists>s'. push_back s x = Some s' \<and> rep s' (xs @ [x]) \<and> usable s' = usable s"
    and push_front_rep: "rep s xs \<Longrightarrow> usable s x \<Longrightarrow> x \<notin> set xs \<Longrightarrow>
      \<exists>s'. push_front s x = Some s' \<and> rep s' (x # xs) \<and> usable s' = usable s"
    and pop_front_rep: "rep s (x # xs) \<Longrightarrow>
      \<exists>s'. pop_front s = Some (x, s') \<and> rep s' xs \<and> usable s' = usable s"
    and pop_back_rep: "rep s (xs @ [x]) \<Longrightarrow>
      \<exists>s'. pop_back s = Some (x, s') \<and> rep s' xs \<and> usable s' = usable s"
begin

lemma push_all_back:
  "rep s ys \<Longrightarrow> \<forall>x \<in> set xs. usable s x \<Longrightarrow> distinct (ys @ xs) \<Longrightarrow>
   \<exists>s'. push_all push_back s xs = Some s' \<and> rep s' (ys @ xs) \<and> usable s' = usable s"
proof (induction xs arbitrary: s ys)
  case (Cons x xs)
  then obtain s1 where "push_back s x = Some s1" "rep s1 (ys @ [x])" "usable s1 = usable s"
    using push_back_rep [of s ys x] by auto
  with Cons.IH [of s1 "ys @ [x]"] Cons.prems show ?case by auto
qed simp

lemma push_all_front:
  "rep s ys \<Longrightarrow> \<forall>x \<in> set xs. usable s x \<Longrightarrow> distinct (ys @ xs) \<Longrightarrow>
   \<exists>s'. push_all push_front s xs = Some s' \<and> rep s' (rev xs @ ys) \<and> usable s' = usable s"
proof (induction xs arbitrary: s ys)
  case (Cons x xs)
  then obtain s1 where "push_front s x = Some s1" "rep s1 (x # ys)" "usable s1 = usable s"
    using push_front_rep [of s ys x] by auto
  with Cons.IH [of s1 "x # ys"] Cons.prems show ?case by auto
qed simp

lemma pop_all_front:
  "rep s (xs @ ys) \<Longrightarrow> \<exists>s'. get_n pop_front (length xs) s = Some (xs, s') \<and> rep s' ys"
proof (induction xs arbitrary: s)
  case (Cons x xs)
  then obtain s1 where "pop_front s = Some (x, s1)" "rep s1 (xs @ ys)"
    using pop_front_rep [of s x "xs @ ys"] by auto
  with Cons.IH [of s1] show ?case by auto
qed simp

lemma pop_all_back:
  "rep s (ys @ rev xs) \<Longrightarrow> \<exists>s'. get_n pop_back (length xs) s = Some (xs, s') \<and> rep s' ys"
proof (induction xs arbitrary: s)
  case (Cons x xs)
  then obtain s1 where "pop_back s = Some (x, s1)" "rep s1 (ys @ rev xs)"
    using pop_back_rep [of s "ys @ rev xs" x] by auto
  with Cons.IH [of s1] show ?case by auto
qed simp

lemma queue_discipline:
  assumes "rep s []" "\<forall>x \<in> set xs. usable s x" "distinct xs"
  shows "\<exists>s1 s2. push_all push_back s xs = Some s1 \<and>
    get_n pop_front (length xs) s1 = Some (xs, s2) \<and> rep s2 []"
  using push_all_back [OF assms(1,2)] assms(3) pop_all_front [of _ xs "[]"] by auto

lemma stack_discipline:
  assumes "rep s []" "\<forall>x \<in> set xs. usable s x" "distinct xs"
  shows "\<exists>s1 s2. push_all push_front s xs = Some s1 \<and>
    get_n pop_front (length xs) s1 = Some (rev xs, s2) \<and> rep s2 []"
  using push_all_front [OF assms(1,2)] assms(3) pop_all_front [of _ "rev xs" "[]"] by auto

end

lemma spare_eqI:
  assumes "dll s l xs" "dll s' l ys" "valid s item" "valid s' item"
    "insert item (set xs) = insert item (set ys)"
    "\<forall>q. q \<notin> {l, item} \<union> set xs \<longrightarrow> s' q = s q"
  shows "spare l s' = spare l s"
proof
  fix q
  show "spare l s' q = spare l s q"
  proof (cases "q \<in> {l, item} \<union> set xs")
    case True
    then have "q = l \<or> q = item \<or> (q \<in> set xs \<and> q \<in> set ys)" using assms(5) by blast
    then show ?thesis using assms dll_valid [OF assms(1), of q] dll_valid [OF assms(2), of q]
      by (auto simp: spare_def)
  next
    case False
    with assms(6) show ?thesis by (simp add: spare_def valid_def)
  qed
qed

interpretation ln: linked_deque "\<lambda>s. dll s l" "spare l" "\<lambda>s. list_add_tail s l"
  "\<lambda>s. list_add_head s l" "\<lambda>s. list_remove_head s l" "\<lambda>s. list_remove_tail s l" for l
proof (unfold_locales, goal_cases)
  case (1 s xs x)
  then obtain s' where s': "list_add_tail s l x = Some s'" "dll s' l (xs @ [x])"
    "\<forall>q. q \<notin> {l, x} \<union> set xs \<longrightarrow> s' q = s q"
    using add_tail_dll [of s l xs x] by (auto simp: spare_def)
  then have "spare l s' = spare l s"
    using 1 by (intro spare_eqI [of s l xs s' "xs @ [x]" x]) (auto simp: spare_def dll_valid)
  with s' show ?case by blast
next
  case (2 s xs x)
  then obtain s' where s': "list_add_head s l x = Some s'" "dll s' l (x # xs)"
    "\<forall>q. q \<notin> {l, x} \<union> set xs \<longrightarrow> s' q = s q"
    using add_head_dll [of s l xs x] by (auto simp: spare_def)
  then have "spare l s' = spare l s"
    using 2 by (intro spare_eqI [of s l xs s' "x # xs" x]) (auto simp: spare_def dll_valid)
  with s' show ?case by blast
next
  case (3 s x xs)
  then obtain s' where s': "list_remove_head s l = Some (x, s')" "dll s' l xs"
    "list_in_list s' x = Some False" "\<forall>q. q \<notin> {l, x} \<union> set xs \<longrightarrow> s' q = s q"
    using remove_head_dll [of s l x xs] by auto
  then have "spare l s' = spare l s"
    using 3 by (intro spare_eqI [of s l "x # xs" s' xs x])
      (auto simp: list_in_list_def dll_valid split: bind_splits dest: rd_valid)
  with s' show ?case by blast
next
  case (4 s xs x)
  then obtain s' where s': "list_remove_tail s l = Some (x, s')" "dll s' l xs"
    "list_in_list s' x = Some False" "\<forall>q. q \<notin> {l, x} \<union> set xs \<longrightarrow> s' q = s q"
    using remove_tail_dll [of s l xs x] by auto
  then have "spare l s' = spare l s"
    using 4 by (intro spare_eqI [of s l "xs @ [x]" s' xs x])
      (auto simp: list_in_list_def dll_valid split: bind_splits dest: rd_valid)
  with s' show ?case by blast
qed

section \<open>Properties\<close>

text \<open>A concrete store for the witnesses: node 10 is an empty list, 20 and 30 are cleared nodes.\<close>

definition sample_store :: node_store where
  "sample_store = [10 \<mapsto> \<lparr>n_prev = 10, n_next = 10\<rparr>, 20 \<mapsto> \<lparr>n_prev = 0, n_next = 0\<rparr>,
                   30 \<mapsto> \<lparr>n_prev = 0, n_next = 0\<rparr>]"

lemma sample_store_facts:
  "dll sample_store 10 []" "spare 10 sample_store 20" "spare 10 sample_store 30"
  "valid sample_store 10" "valid sample_store 20" "valid sample_store 30"
  by (simp_all add: sample_store_def dll_def rd_next_def rd_prev_def valid_def spare_def)

text \<open>
  C2. Queue discipline: from an empty list, adding distinct usable nodes with
  \<^verbatim>\<open>list_add_tail\<close> and removing as many with \<^verbatim>\<open>list_remove_head\<close> returns them in the order
  of insertion and leaves the list empty. Every pointer followed is valid.
\<close>

theorem list_queue_discipline:
  assumes "dll s l []" "\<forall>x \<in> set xs. valid s x \<and> x \<noteq> l" "distinct xs"
  shows "\<exists>s1 s2. push_all (\<lambda>s. list_add_tail s l) s xs = Some s1 \<and>
    get_n (\<lambda>s. list_remove_head s l) (length xs) s1 = Some (xs, s2) \<and> dll s2 l []"
  using assms by (intro ln.queue_discipline) (auto simp: spare_def)

theorem list_queue_discipline_witness:
  "\<exists>s1 s2. push_all (\<lambda>s. list_add_tail s 10) sample_store [20, 30] = Some s1 \<and>
    get_n (\<lambda>s. list_remove_head s 10) 2 s1 = Some ([20, 30], s2) \<and> dll s2 10 []"
  using list_queue_discipline [of sample_store 10 "[20, 30]"]
  by (simp add: sample_store_facts numeral_2_eq_2)

text \<open>
  Stack discipline: with \<^verbatim>\<open>list_add_head\<close> and \<^verbatim>\<open>list_remove_head\<close> the nodes come back in
  reverse order.
\<close>

theorem list_stack_discipline:
  assumes "dll s l []" "\<forall>x \<in> set xs. valid s x \<and> x \<noteq> l" "distinct xs"
  shows "\<exists>s1 s2. push_all (\<lambda>s. list_add_head s l) s xs = Some s1 \<and>
    get_n (\<lambda>s. list_remove_head s l) (length xs) s1 = Some (rev xs, s2) \<and> dll s2 l []"
  using assms by (intro ln.stack_discipline) (auto simp: spare_def)

theorem list_stack_discipline_witness:
  "\<exists>s1 s2. push_all (\<lambda>s. list_add_head s 10) sample_store [20, 30] = Some s1 \<and>
    get_n (\<lambda>s. list_remove_head s 10) 2 s1 = Some ([30, 20], s2) \<and> dll s2 10 []"
  using list_stack_discipline [of sample_store 10 "[20, 30]"]
  by (simp add: sample_store_facts numeral_2_eq_2)

text \<open>
  \<^verbatim>\<open>list_add_after\<close> and \<^verbatim>\<open>list_add_before\<close> insert next to any node of a list, not only
  at the head, and leave every node outside the list untouched.
\<close>

theorem list_insert_at_entry:
  assumes "dll s l (ys @ e # zs)" "valid s item" "item \<notin> {l, e} \<union> set ys \<union> set zs"
  shows "\<exists>sa sb. list_add_after s e item = Some sa \<and> dll sa l (ys @ e # item # zs) \<and>
    list_add_before s e item = Some sb \<and> dll sb l (ys @ item # e # zs) \<and>
    (\<forall>q. q \<notin> {l, e, item} \<union> set ys \<union> set zs \<longrightarrow> sa q = s q \<and> sb q = s q)"
proof -
  have r: "dll s e (zs @ l # ys)" using assms(1) by (simp add: dll_rotate)
  have f: "item \<notin> insert e (set (zs @ l # ys))" using assms(3) by auto
  from add_head_dll [OF r assms(2) f] obtain sa where sa: "list_add_head s e item = Some sa"
    "dll sa e (item # zs @ l # ys)" "\<forall>q. q \<notin> {e, item} \<union> set (zs @ l # ys) \<longrightarrow> sa q = s q" by blast
  from add_tail_dll [OF r assms(2) f] obtain sb where sb: "list_add_tail s e item = Some sb"
    "dll sb e ((zs @ l # ys) @ [item])" "\<forall>q. q \<notin> {e, item} \<union> set (zs @ l # ys) \<longrightarrow> sb q = s q" by blast
  have "dll sa l (ys @ e # item # zs)" using sa(2) dll_rotate [of sa e "item # zs" l ys] by simp
  moreover have "dll sb l (ys @ item # e # zs)"
    using sb(2) dll_rotate [of sb e zs l "ys @ [item]"] by simp
  ultimately show ?thesis using sa sb by (auto simp: list_add_after_def list_add_before_def)
qed

theorem list_insert_at_entry_witness:
  "\<exists>s1 sa. list_add_head sample_store 10 20 = Some s1 \<and> list_add_after s1 20 30 = Some sa \<and>
    dll sa 10 [20, 30]"
proof -
  from ln.push_front_rep [OF sample_store_facts(1) sample_store_facts(2)] obtain s1 where
    s1: "list_add_head sample_store 10 20 = Some s1" "dll s1 10 [20]" "spare 10 s1 = spare 10 sample_store"
    by auto
  have "valid s1 30" using s1(3) sample_store_facts(3) by (metis spare_def)
  with s1 list_insert_at_entry [of s1 10 "[]" 20 "[]" 30] show ?thesis by auto
qed

text \<open>
  \<^verbatim>\<open>list_delete\<close> unlinks exactly the given node wherever it stands, clears it so that
  \<^verbatim>\<open>list_in_list\<close> is false for it, and touches nothing outside the list.
\<close>

theorem list_delete_unlinks:
  assumes "dll s l (ys @ x # zs)"
  shows "\<exists>s'. list_delete s x = Some s' \<and> dll s' l (ys @ zs) \<and> list_in_list s' x = Some False \<and>
    (\<forall>q. q \<notin> {l, x} \<union> set ys \<union> set zs \<longrightarrow> s' q = s q)"
  using assms by (rule delete_dll)

theorem list_delete_unlinks_witness:
  "\<exists>s1 s2. list_add_head sample_store 10 20 = Some s1 \<and> list_delete s1 20 = Some s2 \<and>
    dll s2 10 [] \<and> list_in_list s2 20 = Some False"
proof -
  from ln.push_front_rep [OF sample_store_facts(1) sample_store_facts(2)] obtain s1 where
    s1: "list_add_head sample_store 10 20 = Some s1" "dll s1 10 [20]" by auto
  with list_delete_unlinks [of s1 10 "[]" 20 "[]"] show ?thesis by auto
qed

text \<open>
  The iterations end on every well-formed list: \<^verbatim>\<open>list_for_every\<close> visits its nodes in
  order, \<^verbatim>\<open>list_length\<close> counts them (modulo \<open>2 ^ 32\<close>), and \<^verbatim>\<open>list_for_every_safe\<close> survives a
  body that deletes the current node: it empties the list and clears every node.
\<close>

theorem list_iteration:
  assumes "dll s l xs"
  shows "list_for_every s l = Some xs \<and> list_length s l = Some (of_nat (length xs)) \<and>
    (\<exists>s'. list_for_every_safe list_delete s l = Some s' \<and> dll s' l [] \<and>
      (\<forall>y \<in> set xs. list_in_list s' y = Some False))"
proof -
  have seg: "seg s l xs l" and nl: "l \<notin> set xs" using assms by (auto simp: dll_def)
  obtain n where n: "rd_next s l = Some n" using seg by (cases xs) auto
  have "list_for_every s l = Some xs" "list_length s l = Some (of_nat (length xs))"
    using every_loop_seg [OF seg nl n] length_loop_seg [OF seg nl n] n
    by (simp_all add: list_for_every_def list_length_def)
  moreover have "\<exists>s'. list_for_every_safe list_delete s l = Some s' \<and> dll s' l [] \<and>
      (\<forall>y \<in> set xs. list_in_list s' y = Some False)"
  proof (cases xs)
    case Nil
    with assms seg show ?thesis by (simp add: list_for_every_safe_def every_safe_loop.simps)
  next
    case (Cons x ys)
    obtain t where "rd_next s x = Some t" using seg Cons by (cases ys) auto
    with every_safe_delete [of s l x ys t] assms Cons n seg show ?thesis
      by (auto simp: list_for_every_safe_def)
  qed
  ultimately show ?thesis by blast
qed

theorem list_iteration_witness:
  "list_length sample_store 10 = Some 0 \<and> list_for_every sample_store 10 = Some []"
  using list_iteration [OF sample_store_facts(1)] by simp

text \<open>
  Neighbours. In a list with at least one node, \<^verbatim>\<open>list_next_wrap\<close> and \<^verbatim>\<open>list_prev_wrap\<close>
  step through the nodes cyclically and skip the head: they are never null, and after the
  last node comes the first. A list of one node wraps to that node itself.
\<close>

theorem list_wrap_cyclic:
  assumes "dll s l xs" "i < length xs"
  shows "list_next_wrap s l (xs ! i) = Some (xs ! ((i + 1) mod length xs)) \<and>
    list_prev_wrap s l (xs ! ((i + 1) mod length xs)) = Some (xs ! i)"
proof -
  have seg: "seg s l xs l" and nl: "l \<notin> set xs" using assms by (auto simp: dll_def)
  define ys zs where "ys = take i xs" and "zs = drop (Suc i) xs"
  have xs: "xs = ys @ xs ! i # zs" using assms(2) by (simp add: ys_def zs_def id_take_nth_drop)
  have len: "length ys = i" using assms(2) by (simp add: ys_def)
  have "seg s l xs l = seg s l (ys @ xs ! i # zs) l" using xs by simp
  then have seg_split: "seg s l xs l = (seg s l ys (xs ! i) \<and> seg s (xs ! i) zs l)"
    by (simp only: seg_append)
  show ?thesis
  proof (cases zs)
    case Nil
    then have last: "Suc i = length xs" using xs len by (metis Suc_eq_plus1 length_append_singleton)
    have lx: "last (l # xs) = xs ! i" using xs Nil by (metis last_snoc last_ConsR append_is_Nil_conv not_Cons_self2)
    obtain f fs where f: "xs = f # fs" using assms(2) by (cases xs) auto
    have "rd_next s l = Some f" "rd_prev s f = Some l" using seg f by auto
    moreover have "rd_next s (xs ! i) = Some l" "rd_prev s l = Some (xs ! i)"
      using seg_last [OF seg] lx by auto
    moreover have "xs ! i \<noteq> l" using nl nth_mem [OF assms(2)] by auto
    moreover have "f \<noteq> l" using nl f by auto
    ultimately show ?thesis using last f by (simp add: list_next_wrap_def list_prev_wrap_def)
  next
    case (Cons z zs')
    then have lt: "Suc i < length xs" using zs_def by (metis drop_all list.distinct(1) not_le)
    moreover have z: "xs ! Suc i = z"
      using Cons lt nth_drop [of "Suc i" xs 0] by (simp add: zs_def)
    moreover have "rd_next s (xs ! i) = Some z" "rd_prev s z = Some (xs ! i)"
      using seg [unfolded seg_split] Cons by simp_all
    moreover have "xs ! i \<noteq> l" "z \<noteq> l" using nl z lt nth_mem [OF assms(2)] nth_mem [OF lt] by auto
    ultimately show ?thesis by (simp add: list_next_wrap_def list_prev_wrap_def)
  qed
qed

theorem list_wrap_cyclic_witness:
  "\<exists>s1. list_add_head sample_store 10 20 = Some s1 \<and> list_next_wrap s1 10 20 = Some 20 \<and>
    list_prev_wrap s1 10 20 = Some 20"
proof -
  from ln.push_front_rep [OF sample_store_facts(1) sample_store_facts(2)] obtain s1 where
    s1: "list_add_head sample_store 10 20 = Some s1" "dll s1 10 [20]" by auto
  with list_wrap_cyclic [of s1 10 "[20]" 0] show ?thesis by auto
qed

end
