(* ===== verification/PortHeap.thy ===== *)
theory PortHeap
  imports Prelude
begin

text \<open>
  The coalescing first-fit allocator of \<^verbatim>\<open>heap/heap.c\<close> (a multi-instance version of FreeRTOS
  \<^verbatim>\<open>heap_4\<close>). The target is the 32-bit one the source is written for: \<^verbatim>\<open>size_t\<close> and pointers
  are naturals below \<open>2 ^ 32\<close> with wrapping arithmetic. Memory is a function from addresses to
  32-bit cells; a \<^verbatim>\<open>BlockLink_t\<close> at address \<open>p\<close> has \<^verbatim>\<open>pxNextFreeBlock\<close> in the cell \<open>p\<close> and
  \<^verbatim>\<open>xBlockSize\<close> in the cell \<open>p + 4\<close>, and the payload of a block is the cells behind its header,
  so that the allocator and the application share one memory. The member \<^verbatim>\<open>xStart\<close> of a heap
  lies in that memory too, at the address \<open>xStart_p\<close>.

  A failed \<^verbatim>\<open>assert\<close>, a null dereference and a loop that never ends are the value
  \<^term>\<open>None\<close>. The scheduler hooks and the trace macros are empty in the source.
\<close>

section \<open>State\<close>

type_synonym memory = "nat \<Rightarrow> nat"

record Heap_t =
  configTOTAL_HEAP_SIZE :: nat
  ucHeap :: nat
  HEAP :: nat
  namep :: string
  xStart_p :: nat
  pxEnd :: nat
  xFreeBytesRemaining :: nat
  xMinimumEverFreeBytesRemaining :: nat
  xNumberOfSuccessfulAllocations :: nat
  xNumberOfSuccessfulFrees :: nat

text \<open>One heap with what it shares with the others: the memory and \<^verbatim>\<open>xBlockAllocatedBit\<close>.\<close>

record hstate =
  hp :: Heap_t
  mem :: memory
  xBlockAllocatedBit :: nat

record HeapStats_t =
  st_available :: nat
  st_largest :: nat
  st_smallest :: nat
  st_blocks :: nat
  st_minimum_ever :: nat
  st_allocs :: nat
  st_frees :: nat

definition portMAX_DELAY :: nat where
  "portMAX_DELAY = 0xffffffff"

definition portBYTE_ALIGNMENT :: nat where
  "portBYTE_ALIGNMENT = 4"

definition portBYTE_ALIGNMENT_MASK :: nat where
  "portBYTE_ALIGNMENT_MASK = portBYTE_ALIGNMENT - 1"

definition sizeof_BlockLink_t :: nat where
  "sizeof_BlockLink_t = 8"

definition xHeapStructSize :: nat where
  "xHeapStructSize =
     and_not32 (sizeof_BlockLink_t + (portBYTE_ALIGNMENT - 1)) portBYTE_ALIGNMENT_MASK"

definition heapMINIMUM_BLOCK_SIZE :: nat where
  "heapMINIMUM_BLOCK_SIZE = push_bit 1 xHeapStructSize mod 2 ^ 32"

definition heapBITS_PER_BYTE :: nat where
  "heapBITS_PER_BYTE = 8"

section \<open>Header accesses\<close>

definition rd_next :: "memory \<Rightarrow> nat \<Rightarrow> nat option" where
  "rd_next m p = (if p = 0 then None else Some (m p))"

definition rd_size :: "memory \<Rightarrow> nat \<Rightarrow> nat option" where
  "rd_size m p = (if p = 0 then None else Some (m (p + 4)))"

definition wr_next :: "memory \<Rightarrow> nat \<Rightarrow> nat \<Rightarrow> memory option" where
  "wr_next m p v = (if p = 0 then None else Some (m(p := v)))"

definition wr_size :: "memory \<Rightarrow> nat \<Rightarrow> nat \<Rightarrow> memory option" where
  "wr_size m p v = (if p = 0 then None else Some (m(p + 4 := v)))"

section \<open>Operations\<close>

definition HeapInit :: "hstate \<Rightarrow> hstate option" where
  "HeapInit s =
     (let h = hp s;
          ux0 = ucHeap h;
          (ux1, total) =
            (if ux0 AND portBYTE_ALIGNMENT_MASK \<noteq> 0
             then (let a = and_not32 (add32 ux0 (portBYTE_ALIGNMENT - 1)) portBYTE_ALIGNMENT_MASK
                   in (a, sub32 (configTOTAL_HEAP_SIZE h) (sub32 a (ucHeap h))))
             else (ux0, configTOTAL_HEAP_SIZE h));
          pucAlignedHeap = ux1;
          uxE = and_not32 (sub32 (add32 pucAlignedHeap total) xHeapStructSize) portBYTE_ALIGNMENT_MASK
      in do {
        m1 \<leftarrow> wr_next (mem s) (xStart_p h) pucAlignedHeap;
        m2 \<leftarrow> wr_size m1 (xStart_p h) 0;
        m3 \<leftarrow> wr_size m2 uxE 0;
        m4 \<leftarrow> wr_next m3 uxE 0;
        m5 \<leftarrow> wr_size m4 pucAlignedHeap (sub32 uxE pucAlignedHeap);
        m6 \<leftarrow> wr_next m5 pucAlignedHeap uxE;
        n \<leftarrow> rd_size m6 pucAlignedHeap;
        Some (s\<lparr>hp := h\<lparr>pxEnd := uxE, xMinimumEverFreeBytesRemaining := n, xFreeBytesRemaining := n\<rparr>,
                mem := m6,
                xBlockAllocatedBit := push_bit (4 * heapBITS_PER_BYTE - 1) 1\<rparr>) })"

partial_function (option) insert_iter :: "memory \<Rightarrow> nat \<Rightarrow> nat \<Rightarrow> nat option" where
  "insert_iter m pxIterator pxBlockToInsert = do {
     nx \<leftarrow> rd_next m pxIterator;
     if nx < pxBlockToInsert then insert_iter m nx pxBlockToInsert else Some pxIterator }"

text \<open>\<^verbatim>\<open>prvInsertBlockIntoFreeList\<close> merges with the preceding, then with the following block.\<close>

definition insert_prev :: "memory \<Rightarrow> nat \<Rightarrow> nat \<Rightarrow> (memory \<times> nat) option" where
  "insert_prev m pxIterator pxBlockToInsert = do {
     isz \<leftarrow> rd_size m pxIterator;
     if add32 pxIterator isz = pxBlockToInsert
     then do { bsz \<leftarrow> rd_size m pxBlockToInsert;
               m1 \<leftarrow> wr_size m pxIterator (add32 isz bsz);
               Some (m1, pxIterator) }
     else Some (m, pxBlockToInsert) }"

definition insert_next :: "nat \<Rightarrow> memory \<Rightarrow> nat \<Rightarrow> nat \<Rightarrow> memory option" where
  "insert_next pxEnd_v m pxIterator pxBlockToInsert = do {
     bsz \<leftarrow> rd_size m pxBlockToInsert;
     nx \<leftarrow> rd_next m pxIterator;
     if add32 pxBlockToInsert bsz = nx
     then (if nx \<noteq> pxEnd_v
           then do { nsz \<leftarrow> rd_size m nx;
                     m1 \<leftarrow> wr_size m pxBlockToInsert (add32 bsz nsz);
                     nx' \<leftarrow> rd_next m1 pxIterator;
                     nn \<leftarrow> rd_next m1 nx';
                     wr_next m1 pxBlockToInsert nn }
           else wr_next m pxBlockToInsert pxEnd_v)
     else wr_next m pxBlockToInsert nx }"

definition prvInsertBlockIntoFreeList :: "Heap_t \<Rightarrow> memory \<Rightarrow> nat \<Rightarrow> memory option" where
  "prvInsertBlockIntoFreeList h m pxBlockToInsert = do {
     pxIterator \<leftarrow> insert_iter m (xStart_p h) pxBlockToInsert;
     (m1, blk) \<leftarrow> insert_prev m pxIterator pxBlockToInsert;
     m2 \<leftarrow> insert_next (pxEnd h) m1 pxIterator blk;
     if pxIterator \<noteq> blk then wr_next m2 pxIterator blk else Some m2 }"

text \<open>The part of \<^verbatim>\<open>PortMalloc\<close> that turns the request into a block size, 0 for refusal.\<close>

definition malloc_adjust :: "nat \<Rightarrow> nat option" where
  "malloc_adjust xWantedSize =
     (if xWantedSize > 0 \<and> add32 xWantedSize xHeapStructSize > xWantedSize
      then (let w = add32 xWantedSize xHeapStructSize
            in if w AND portBYTE_ALIGNMENT_MASK \<noteq> 0
               then (let w' = add32 w (portBYTE_ALIGNMENT - (w AND portBYTE_ALIGNMENT_MASK))
                     in if w' > w
                        then do { assert_c (w' AND portBYTE_ALIGNMENT_MASK = 0); Some w' }
                        else Some 0)
               else Some w)
      else Some 0)"

partial_function (option) find_fit :: "memory \<Rightarrow> nat \<Rightarrow> nat \<Rightarrow> nat \<Rightarrow> (nat \<times> nat) option" where
  "find_fit m pxPreviousBlock pxBlock xWantedSize = do {
     sz \<leftarrow> rd_size m pxBlock;
     nx \<leftarrow> rd_next m pxBlock;
     if sz < xWantedSize \<and> nx \<noteq> 0 then find_fit m pxBlock nx xWantedSize
     else Some (pxPreviousBlock, pxBlock) }"

text \<open>The part of \<^verbatim>\<open>PortMalloc\<close> that splits a block that is larger than required.\<close>

definition malloc_split :: "Heap_t \<Rightarrow> memory \<Rightarrow> nat \<Rightarrow> nat \<Rightarrow> memory option" where
  "malloc_split h m pxBlock xWantedSize = do {
     bsz \<leftarrow> rd_size m pxBlock;
     if sub32 bsz xWantedSize > heapMINIMUM_BLOCK_SIZE
     then (let pxNewBlockLink = add32 pxBlock xWantedSize
           in do { assert_c (pxNewBlockLink AND portBYTE_ALIGNMENT_MASK = 0);
                   m1 \<leftarrow> wr_size m pxNewBlockLink (sub32 bsz xWantedSize);
                   m2 \<leftarrow> wr_size m1 pxBlock xWantedSize;
                   prvInsertBlockIntoFreeList h m2 pxNewBlockLink })
     else Some m }"

text \<open>The part of \<^verbatim>\<open>PortMalloc\<close> that hands out the found block.\<close>

definition malloc_take :: "hstate \<Rightarrow> nat \<Rightarrow> nat \<Rightarrow> nat \<Rightarrow> (nat \<times> hstate) option" where
  "malloc_take s pxPreviousBlock pxBlock xWantedSize = do {
     pn \<leftarrow> rd_next (mem s) pxPreviousBlock;
     let pvReturn = add32 pn xHeapStructSize;
     bn \<leftarrow> rd_next (mem s) pxBlock;
     m1 \<leftarrow> wr_next (mem s) pxPreviousBlock bn;
     m2 \<leftarrow> malloc_split (hp s) m1 pxBlock xWantedSize;
     sz \<leftarrow> rd_size m2 pxBlock;
     let free' = sub32 (xFreeBytesRemaining (hp s)) sz;
     let min' = (if free' < xMinimumEverFreeBytesRemaining (hp s) then free'
                 else xMinimumEverFreeBytesRemaining (hp s));
     m3 \<leftarrow> wr_size m2 pxBlock (sz OR xBlockAllocatedBit s);
     m4 \<leftarrow> wr_next m3 pxBlock 0;
     Some (pvReturn,
       s\<lparr>hp := (hp s)\<lparr>xFreeBytesRemaining := free', xMinimumEverFreeBytesRemaining := min',
           xNumberOfSuccessfulAllocations := add32 (xNumberOfSuccessfulAllocations (hp s)) 1\<rparr>,
         mem := m4\<rparr>) }"

definition PortMalloc :: "hstate \<Rightarrow> nat \<Rightarrow> (nat \<times> hstate) option" where
  "PortMalloc s0 xWantedSize = do {
     s \<leftarrow> (if pxEnd (hp s0) = 0 then HeapInit s0 else Some s0);
     (pvReturn, s') \<leftarrow>
       (if xWantedSize AND xBlockAllocatedBit s = 0
        then do {
          w \<leftarrow> malloc_adjust xWantedSize;
          if w > 0 \<and> w \<le> xFreeBytesRemaining (hp s)
          then do {
            first \<leftarrow> rd_next (mem s) (xStart_p (hp s));
            (prev, blk) \<leftarrow> find_fit (mem s) (xStart_p (hp s)) first w;
            if blk \<noteq> pxEnd (hp s) then malloc_take s prev blk w else Some (0, s) }
          else Some (0, s) }
        else Some (0, s));
     assert_c (pvReturn AND portBYTE_ALIGNMENT_MASK = 0);
     Some (pvReturn, s') }"

definition PortFree :: "hstate \<Rightarrow> nat \<Rightarrow> hstate option" where
  "PortFree s pv =
     (if pv \<noteq> 0
      then (let pxLink = sub32 pv xHeapStructSize
            in do {
              sz \<leftarrow> rd_size (mem s) pxLink;
              assert_c (sz AND xBlockAllocatedBit s \<noteq> 0);
              nx \<leftarrow> rd_next (mem s) pxLink;
              assert_c (nx = 0);
              if sz AND xBlockAllocatedBit s \<noteq> 0
              then (if nx = 0
                    then do {
                      m1 \<leftarrow> wr_size (mem s) pxLink (and_not32 sz (xBlockAllocatedBit s));
                      sz1 \<leftarrow> rd_size m1 pxLink;
                      let free' = add32 (xFreeBytesRemaining (hp s)) sz1;
                      m2 \<leftarrow> prvInsertBlockIntoFreeList ((hp s)\<lparr>xFreeBytesRemaining := free'\<rparr>) m1 pxLink;
                      Some (s\<lparr>hp := (hp s)\<lparr>xFreeBytesRemaining := free',
                          xNumberOfSuccessfulFrees := add32 (xNumberOfSuccessfulFrees (hp s)) 1\<rparr>,
                        mem := m2\<rparr>) }
                    else Some s)
              else Some s })
      else Some s)"

partial_function (option) stats_loop ::
  "memory \<Rightarrow> nat \<Rightarrow> nat \<Rightarrow> nat \<Rightarrow> nat \<Rightarrow> nat \<Rightarrow> (nat \<times> nat \<times> nat) option" where
  "stats_loop m e pxBlock xBlocks xMaxSize xMinSize =
     (if pxBlock \<noteq> e
      then do { sz \<leftarrow> rd_size m pxBlock;
                nx \<leftarrow> rd_next m pxBlock;
                stats_loop m e nx (add32 xBlocks 1)
                  (if sz > xMaxSize then sz else xMaxSize)
                  (if sz < xMinSize then sz else xMinSize) }
      else Some (xBlocks, xMaxSize, xMinSize))"

definition vPortGetHeapStats :: "hstate \<Rightarrow> HeapStats_t option" where
  "vPortGetHeapStats s = do {
     first \<leftarrow> rd_next (mem s) (xStart_p (hp s));
     (xBlocks, xMaxSize, xMinSize) \<leftarrow>
       (if first \<noteq> 0 then stats_loop (mem s) (pxEnd (hp s)) first 0 0 portMAX_DELAY
        else Some (0, 0, portMAX_DELAY));
     Some \<lparr>st_available = xFreeBytesRemaining (hp s), st_largest = xMaxSize, st_smallest = xMinSize,
           st_blocks = xBlocks, st_minimum_ever = xMinimumEverFreeBytesRemaining (hp s),
           st_allocs = xNumberOfSuccessfulAllocations (hp s),
           st_frees = xNumberOfSuccessfulFrees (hp s)\<rparr> }"

definition xPortGetFreeHeapSize :: "hstate \<Rightarrow> nat" where
  "xPortGetFreeHeapSize s = xFreeBytesRemaining (hp s)"

definition xPortGetMinimumEverFreeHeapSize :: "hstate \<Rightarrow> nat" where
  "xPortGetMinimumEverFreeHeapSize s = xMinimumEverFreeBytesRemaining (hp s)"

text \<open>The body of the functions \<^verbatim>\<open>name##_reinit\<close>.\<close>

definition reinit :: "hstate \<Rightarrow> hstate option" where
  "reinit s = do {
     m1 \<leftarrow> wr_next (mem s) (xStart_p (hp s)) 0;
     m2 \<leftarrow> wr_size m1 (xStart_p (hp s)) 0;
     HeapInit (s\<lparr>mem := m2,
       hp := (hp s)\<lparr>pxEnd := 0, xFreeBytesRemaining := 0, xMinimumEverFreeBytesRemaining := 0,
                    xNumberOfSuccessfulAllocations := 0, xNumberOfSuccessfulFrees := 0\<rparr>\<rparr>) }"

section \<open>The heap as a sequence of blocks\<close>

text \<open>
  The abstract heap is the list of its blocks in address order, each with its size (header
  included) and whether the application owns it. \<open>fl m p a bs e\<close>: the free list reachable
  from the link cell \<open>p\<close> consists of exactly the free blocks of \<open>bs\<close>, laid out from address
  \<open>a\<close>, in address order, with their size cells, and ends in \<open>e\<close>. \<open>fp\<close> is the same for a prefix
  and \<open>lastp\<close> is the link cell that continues it. \<open>ub\<close>: the headers of the owned blocks.
\<close>

type_synonym block = "nat \<times> bool"

fun span :: "block list \<Rightarrow> nat" where
  "span [] = 0"
| "span ((n, u) # bs) = n + span bs"

fun free_bytes :: "block list \<Rightarrow> nat" where
  "free_bytes [] = 0"
| "free_bytes ((n, u) # bs) = (if u then 0 else n) + free_bytes bs"

fun fl :: "memory \<Rightarrow> nat \<Rightarrow> nat \<Rightarrow> block list \<Rightarrow> nat \<Rightarrow> bool" where
  "fl m p a [] e \<longleftrightarrow> m p = e"
| "fl m p a ((n, u) # bs) e \<longleftrightarrow>
     (if u then fl m p (a + n) bs e else m p = a \<and> m (a + 4) = n \<and> fl m a (a + n) bs e)"

fun fp :: "memory \<Rightarrow> nat \<Rightarrow> nat \<Rightarrow> block list \<Rightarrow> bool" where
  "fp m p a [] \<longleftrightarrow> True"
| "fp m p a ((n, u) # bs) \<longleftrightarrow>
     (if u then fp m p (a + n) bs else m p = a \<and> m (a + 4) = n \<and> fp m a (a + n) bs)"

fun lastp :: "nat \<Rightarrow> nat \<Rightarrow> block list \<Rightarrow> nat" where
  "lastp p a [] = p"
| "lastp p a ((n, u) # bs) = (if u then lastp p (a + n) bs else lastp a (a + n) bs)"

fun nextf :: "nat \<Rightarrow> block list \<Rightarrow> nat \<Rightarrow> nat" where
  "nextf a [] e = e"
| "nextf a ((n, u) # bs) e = (if u then nextf (a + n) bs e else a)"

fun ub :: "memory \<Rightarrow> nat \<Rightarrow> block list \<Rightarrow> bool" where
  "ub m a [] \<longleftrightarrow> True"
| "ub m a ((n, u) # bs) \<longleftrightarrow> (u \<longrightarrow> m a = 0 \<and> m (a + 4) = n + 2 ^ 31) \<and> ub m (a + n) bs"

fun owned :: "nat \<Rightarrow> block list \<Rightarrow> (nat \<times> nat) list" where
  "owned a [] = []"
| "owned a ((n, u) # bs) = (if u then (a, n) # owned (a + n) bs else owned (a + n) bs)"

fun no_adj :: "block list \<Rightarrow> bool" where
  "no_adj ((n, u) # (k, v) # bs) \<longleftrightarrow> (u \<or> v) \<and> no_adj ((k, v) # bs)"
| "no_adj bs \<longleftrightarrow> True"

definition wf_blocks :: "block list \<Rightarrow> bool" where
  "wf_blocks bs \<longleftrightarrow> (\<forall>(n, u) \<in> set bs. 8 \<le> n \<and> 4 dvd n)"

text \<open>The two abstract operations: first fit with splitting, and release with merging.\<close>

fun alloc_first :: "nat \<Rightarrow> block list \<Rightarrow> block list option" where
  "alloc_first w [] = None"
| "alloc_first w ((n, u) # bs) =
     (if \<not> u \<and> w \<le> n
      then Some (if n - w > 16 then (w, True) # (n - w, False) # bs else (n, True) # bs)
      else map_option ((#) (n, u)) (alloc_first w bs))"

definition merge_prev :: "block list \<Rightarrow> nat \<Rightarrow> block list \<times> nat" where
  "merge_prev pre k =
     (if pre \<noteq> [] \<and> \<not> snd (last pre) then (butlast pre, fst (last pre) + k) else (pre, k))"

definition merge_next :: "nat \<Rightarrow> block list \<Rightarrow> nat \<times> block list" where
  "merge_next k post =
     (if post \<noteq> [] \<and> \<not> snd (hd post) then (k + fst (hd post), tl post) else (k, post))"

definition release :: "block list \<Rightarrow> nat \<Rightarrow> block list \<Rightarrow> block list" where
  "release pre k post =
     (let (pre', k') = merge_prev pre k; (k'', post') = merge_next k' post
      in pre' @ (k'', False) # post')"

definition heap_rep :: "hstate \<Rightarrow> nat \<Rightarrow> block list \<Rightarrow> bool" where
  "heap_rep s a bs \<longleftrightarrow>
     (let xs = xStart_p (hp s); e = pxEnd (hp s); m = mem s in
      xBlockAllocatedBit s = 2 ^ 31 \<and> 0 < a \<and> 4 dvd a \<and> e = a + span bs \<and> span bs < 2 ^ 31 \<and>
      e + 8 \<le> 2 ^ 32 \<and> 0 < xs \<and> xs < 2 ^ 32 \<and> (xs + 8 \<le> a \<or> e + 8 \<le> xs) \<and>
      wf_blocks bs \<and> no_adj bs \<and> fl m xs a bs e \<and> ub m a bs \<and>
      m (xs + 4) = 0 \<and> m e = 0 \<and> m (e + 4) = 0 \<and>
      xFreeBytesRemaining (hp s) = free_bytes bs \<and>
      xMinimumEverFreeBytesRemaining (hp s) \<le> free_bytes bs)"

section \<open>Constants and header accesses\<close>

lemma heap_consts [simp]:
  "portBYTE_ALIGNMENT = 4" "portBYTE_ALIGNMENT_MASK = 3" "xHeapStructSize = 8"
  "heapMINIMUM_BLOCK_SIZE = 16" "heapBITS_PER_BYTE = 8"
  by (simp_all add: portBYTE_ALIGNMENT_def portBYTE_ALIGNMENT_MASK_def xHeapStructSize_def
      sizeof_BlockLink_t_def heapMINIMUM_BLOCK_SIZE_def heapBITS_PER_BYTE_def and_not32_3
      push_bit_eq_mult)

lemma header_simps [simp]:
  "0 < p \<Longrightarrow> rd_next m p = Some (m p)" "0 < p \<Longrightarrow> rd_size m p = Some (m (p + 4))"
  "0 < p \<Longrightarrow> wr_next m p v = Some (m(p := v))" "0 < p \<Longrightarrow> wr_size m p v = Some (m(p + 4 := v))"
  by (simp_all add: rd_next_def rd_size_def wr_next_def wr_size_def)

section \<open>Block lists\<close>

lemma wf_blocks_simps [simp]:
  "wf_blocks []" "wf_blocks ((n, u) # bs) \<longleftrightarrow> 8 \<le> n \<and> 4 dvd n \<and> wf_blocks bs"
  "wf_blocks (xs @ ys) \<longleftrightarrow> wf_blocks xs \<and> wf_blocks ys"
  by (auto simp: wf_blocks_def)

lemma span_append [simp]: "span (xs @ ys) = span xs + span ys"
  by (induction xs rule: span.induct) auto

lemma free_bytes_append [simp]: "free_bytes (xs @ ys) = free_bytes xs + free_bytes ys"
  by (induction xs rule: free_bytes.induct) auto

lemma free_bytes_le_span: "free_bytes bs \<le> span bs"
  by (induction bs rule: span.induct) auto

lemma span_dvd: "wf_blocks bs \<Longrightarrow> 4 dvd span bs"
  by (induction bs rule: span.induct) auto

lemma owned_append [simp]: "owned a (xs @ ys) = owned a xs @ owned (a + span xs) ys"
  by (induction xs arbitrary: a rule: span.induct) (auto simp: add.assoc)

lemma ub_append [simp]: "ub m a (xs @ ys) \<longleftrightarrow> ub m a xs \<and> ub m (a + span xs) ys"
  by (induction xs arbitrary: a rule: span.induct) (auto simp: add.assoc)

lemma fl_append: "fl m p a (xs @ ys) e \<longleftrightarrow> fp m p a xs \<and> fl m (lastp p a xs) (a + span xs) ys e"
  by (induction xs arbitrary: a p rule: span.induct) (auto simp: add.assoc)

lemma fp_append: "fp m p a (xs @ ys) \<longleftrightarrow> fp m p a xs \<and> fp m (lastp p a xs) (a + span xs) ys"
  by (induction xs arbitrary: a p rule: span.induct) (auto simp: add.assoc)

lemma lastp_append: "lastp p a (xs @ ys) = lastp (lastp p a xs) (a + span xs) ys"
  by (induction xs arbitrary: a p rule: span.induct) (auto simp: add.assoc)

lemma fl_head: "fl m p a bs e \<Longrightarrow> m p = nextf a bs e"
  by (induction bs arbitrary: a p rule: span.induct) (auto split: if_splits)

lemma nextf_bounds: "wf_blocks bs \<Longrightarrow> a \<le> nextf a bs (a + span bs) \<and> nextf a bs (a + span bs) \<le> a + span bs"
proof (induction bs arbitrary: a rule: span.induct)
  case (2 n u bs)
  from "2.IH" [of "a + n"] "2.prems" show ?case by (auto simp: add.assoc)
qed simp

lemma nextf_ge: "a \<le> nextf a bs e \<or> nextf a bs e = e"
  by (induction bs arbitrary: a rule: span.induct) (auto dest: add_leD1)

lemma lastp_cases:
  "(lastp p a bs = p \<and> (\<forall>b \<in> set bs. snd b)) \<or>
   (\<exists>xs n ys. bs = xs @ (n, False) # ys \<and> lastp p a bs = a + span xs \<and> (\<forall>b \<in> set ys. snd b))"
proof (induction bs rule: rev_induct)
  case (snoc b bs)
  obtain n u where b: "b = (n, u)" by (cases b)
  show ?case
  proof (cases u)
    case False
    then show ?thesis using b by (intro disjI2 exI [of _ bs]) (simp add: lastp_append)
  next
    case True
    from snoc consider "lastp p a bs = p" "\<forall>b \<in> set bs. snd b"
      | xs k ys where "bs = xs @ (k, False) # ys" "lastp p a bs = a + span xs" "\<forall>b \<in> set ys. snd b"
      by blast
    then show ?thesis
    proof cases
      case 1
      with True b show ?thesis by (simp add: lastp_append)
    next
      case 2
      then have "bs @ [b] = xs @ (k, False) # (ys @ [b])" "\<forall>c \<in> set (ys @ [b]). snd c"
        using True b by auto
      moreover have "lastp p a (bs @ [b]) = a + span xs"
        using 2(2) True b by (simp add: lastp_append)
      ultimately show ?thesis by blast
    qed
  qed
qed simp

lemma lastp_bounds:
  assumes "wf_blocks bs"
  shows "lastp p a bs = p \<or> (a \<le> lastp p a bs \<and> lastp p a bs + 8 \<le> a + span bs)"
  using lastp_cases [of p a bs] assms by auto

section \<open>Frame properties\<close>

lemma fl_frame:
  assumes "wf_blocks bs" "m' p = m p" "\<And>c. a \<le> c \<Longrightarrow> c < a + span bs \<Longrightarrow> m' c = m c"
  shows "fl m' p a bs e = fl m p a bs e"
  using assms
proof (induction bs arbitrary: a p rule: span.induct)
  case (2 n u bs)
  have "\<And>c. a + n \<le> c \<Longrightarrow> c < a + n + span bs \<Longrightarrow> m' c = m c" using "2.prems"(3) by simp
  then have IH: "\<And>q. m' q = m q \<Longrightarrow> fl m' q (a + n) bs e = fl m q (a + n) bs e"
    using "2.IH" "2.prems"(1) by simp
  moreover have "m' a = m a" "m' (a + 4) = m (a + 4)" using "2.prems" by auto
  ultimately show ?case using "2.prems"(2) by auto
qed simp

lemma fl_cong_head: "m p = m q \<Longrightarrow> fl m p a bs e = fl m q a bs e"
  by (induction bs arbitrary: a rule: span.induct) auto

lemma fp_frame:
  assumes "wf_blocks bs" "p \<notin> {a..<a + span bs}" "lastp p a bs \<noteq> p \<Longrightarrow> m' p = m p"
    "\<And>c. a \<le> c \<Longrightarrow> c < a + span bs \<Longrightarrow> c \<noteq> lastp p a bs \<Longrightarrow> m' c = m c"
  shows "fp m' p a bs = fp m p a bs"
  using assms
proof (induction bs arbitrary: a p rule: span.induct)
  case (2 n u bs)
  show ?case
  proof (cases u)
    case True
    have "fp m' p (a + n) bs = fp m p (a + n) bs"
      using "2.prems" True by (intro "2.IH") (auto simp: add.assoc)
    with True show ?thesis by simp
  next
    case False
    let ?l = "lastp a (a + n) bs"
    have l: "?l = a \<or> a + n \<le> ?l \<and> ?l + 8 \<le> a + n + span bs"
      using lastp_bounds [of bs a "a + n"] "2.prems"(1) by auto
    have "fp m' a (a + n) bs = fp m a (a + n) bs"
      using "2.prems" False by (intro "2.IH") (auto simp: add.assoc)
    moreover have "m' p = m p" using "2.prems" False l by auto
    moreover have "m' (a + 4) = m (a + 4)" using "2.prems" False l by auto
    ultimately show ?thesis using False by simp
  qed
qed simp

lemma ub_frame:
  assumes "\<And>x n. (x, n) \<in> set (owned a bs) \<Longrightarrow> m' x = m x \<and> m' (x + 4) = m (x + 4)"
  shows "ub m' a bs = ub m a bs"
  using assms
proof (induction bs arbitrary: a rule: span.induct)
  case (2 n u bs)
  have "\<And>x k. (x, k) \<in> set (owned (a + n) bs) \<Longrightarrow> (x, k) \<in> set (owned a ((n, u) # bs))" by simp
  with "2.prems" have "ub m' (a + n) bs = ub m (a + n) bs" by (intro "2.IH") blast
  moreover have "u \<Longrightarrow> m' a = m a \<and> m' (a + 4) = m (a + 4)" using "2.prems" [of a n] by simp
  ultimately show ?case by auto
qed simp

lemma owned_bounds:
  "wf_blocks bs \<Longrightarrow> (x, n) \<in> set (owned a bs) \<Longrightarrow> a \<le> x \<and> x + n \<le> a + span bs \<and> 8 \<le> n \<and> (4 dvd a \<longrightarrow> 4 dvd x)"
proof (induction bs arbitrary: a rule: span.induct)
  case (2 k u bs)
  show ?case using "2.IH" [of "a + k"] "2.prems" by (auto split: if_splits)
qed simp

section \<open>The list walks\<close>

lemma insert_iter_ok:
  assumes "fp m p a bs" "wf_blocks bs" "0 < p" "0 < a" "a + span bs \<le> b" "b \<le> m (lastp p a bs)"
  shows "insert_iter m p b = Some (lastp p a bs)"
  using assms
proof (induction bs arbitrary: a p rule: span.induct)
  case 1
  then show ?case by (simp add: insert_iter.simps)
next
  case (2 n u bs)
  show ?case
  proof (cases u)
    case True
    then show ?thesis using "2.IH" [of p "a + n"] "2.prems" by simp
  next
    case False
    then have "insert_iter m a b = Some (lastp a (a + n) bs)" "m p = a" "a < b"
      using "2.IH" [of a "a + n"] "2.prems" by auto
    with False "2.prems"(3) show ?thesis by (simp add: insert_iter.simps [of m p])
  qed
qed

lemma find_fit_ok:
  assumes "fl m p a (bs @ (n, False) # post) e" "wf_blocks bs" "wf_blocks post" "0 < a" "w \<le> n" "8 \<le> n"
    "\<forall>(k, u) \<in> set bs. \<not> u \<longrightarrow> k < w" "e = a + span bs + n + span post"
  shows "find_fit m p (m p) w = Some (lastp p a bs, a + span bs)"
  using assms
proof (induction bs arbitrary: a p rule: span.induct)
  case 1
  then have "m p = a" "m (a + 4) = n" by auto
  with 1 show ?case by (simp add: find_fit.simps [of m p a])
next
  case (2 k u bs)
  show ?case
  proof (cases u)
    case True
    then show ?thesis using "2.IH" [of p "a + k"] "2.prems" by (simp add: add.assoc)
  next
    case False
    then have f: "find_fit m a (m a) w = Some (lastp a (a + k) bs, a + (k + span bs))" "m p = a"
      "m (a + 4) = k" "k < w"
      using "2.IH" [of a "a + k"] "2.prems" by (auto simp: add.assoc)
    have "fl m a (a + k) (bs @ (n, False) # post) e" using "2.prems"(1) False by simp
    then have "m a = nextf (a + k) (bs @ (n, False) # post) e" by (rule fl_head)
    moreover have "a + k \<le> e" using "2.prems"(8) by simp
    ultimately have "m a \<noteq> 0"
      using nextf_ge [of "a + k" "bs @ (n, False) # post" e] "2.prems"(4) by auto
    with f False "2.prems"(4) show ?thesis by (simp add: find_fit.simps [of m p a])
  qed
qed

lemma find_fit_none:
  assumes "fl m p a bs e" "0 < a" "0 < e" "e = a + span bs" "m e = 0" "m (e + 4) = 0"
    "\<forall>(k, u) \<in> set bs. \<not> u \<longrightarrow> k < w"
  shows "find_fit m p (m p) w = Some (lastp p a bs, e)"
  using assms
proof (induction bs arbitrary: a p rule: span.induct)
  case 1
  then show ?case by (simp add: find_fit.simps [of m p])
next
  case (2 k u bs)
  show ?case
  proof (cases u)
    case True
    then show ?thesis using "2.IH" [of p "a + k"] "2.prems" by (simp add: add.assoc)
  next
    case False
    then have f: "find_fit m a (m a) w = Some (lastp a (a + k) bs, e)" "m p = a"
      "m (a + 4) = k" "k < w" and fl: "fl m a (a + k) bs e"
      using "2.IH" [of a "a + k"] "2.prems" by (auto simp: add.assoc)
    from fl_head [OF fl] have "m a \<noteq> 0"
      using nextf_ge [of "a + k" bs e] "2.prems" by auto
    with f False "2.prems"(2) show ?thesis by (simp add: find_fit.simps [of m p a])
  qed
qed

section \<open>Insertion with merging\<close>

lemma insert_next_ok:
  assumes fl: "fl m it (blk + k) post e" and e: "e = blk + k + span post" "e < 2 ^ 32"
    and wf: "wf_blocks post" and k: "8 \<le> k" "m (blk + 4) = k" and pos: "0 < it" "0 < blk"
    and it: "it = blk \<or> it < blk \<or> e \<le> it"
    and mn: "merge_next k post = (k', post')"
  shows "\<exists>m'. insert_next e m it blk = Some m' \<and> m' (blk + 4) = k' \<and> fl m' blk (blk + k') post' e \<and>
    blk + k' + span post' = e \<and> k \<le> k' \<and> wf_blocks post' \<and> (\<forall>c. c \<notin> {blk, blk + 4} \<longrightarrow> m' c = m c)"
proof -
  have nx: "m it = nextf (blk + k) post e" using fl by (rule fl_head)
  have it4: "it \<noteq> blk + 4" using it k e by auto
  show ?thesis
  proof (cases post)
    case Nil
    with mn have "k' = k" "post' = []" by (simp_all add: merge_next_def)
    with Nil nx e k pos show ?thesis by (auto simp: insert_next_def add32_small)
  next
    case (Cons b ps)
    obtain j u where b: "b = (j, u)" by (cases b)
    show ?thesis
    proof (cases u)
      case True
      have "blk + k < nextf (blk + k + j) ps e"
        using nextf_ge [of "blk + k + j" ps e] Cons b e wf by auto
      moreover from True have m': "k' = k" "post' = post" using mn Cons b by (simp_all add: merge_next_def)
      moreover have "fl (m(blk := m it)) blk (blk + k) post e"
      proof -
        have "fl (m(blk := m it)) blk (blk + k) post e = fl (m(blk := m it)) it (blk + k) post e"
          if "it \<noteq> blk" using that by (intro fl_cong_head) simp
        moreover have "fl (m(blk := m it)) it (blk + k) post e = fl m it (blk + k) post e"
          using it k(1) by (intro fl_frame [OF wf]) auto
        ultimately show ?thesis using fl by (cases "it = blk") auto
      qed
      ultimately show ?thesis using Cons b True nx e k pos wf
        by (auto simp: insert_next_def add32_small)
    next
      case False
      with Cons b have fl': "m it = blk + k" "m (blk + k + 4) = j" "fl m (blk + k) (blk + k + j) ps e"
        using fl by auto
      have m': "k' = k + j" "post' = ps" using mn Cons b False by (simp_all add: merge_next_def)
      let ?m = "m(blk + 4 := k + j, blk := m (blk + k))"
      have "fl ?m blk (blk + k + j) ps e = fl ?m (blk + k) (blk + k + j) ps e"
        using k by (intro fl_cong_head) simp
      also have "\<dots> = fl m (blk + k) (blk + k + j) ps e"
        using k wf Cons b by (intro fl_frame) auto
      finally have "fl ?m blk (blk + k + j) ps e" using fl' by simp
      moreover have "insert_next e m it blk = Some ?m"
        using fl' e k pos wf Cons b it4 by (simp add: insert_next_def add32_small)
      ultimately show ?thesis using m' e Cons b wf by (auto simp: add.assoc)
    qed
  qed
qed

lemma wf_snoc_free:
  assumes "pre \<noteq> []" "\<not> snd (last pre)"
  obtains pre1 j where "pre = pre1 @ [(j, False)]"
  using assms by (metis append_butlast_last_id prod.collapse)

text \<open>The data of one insertion: the block of size \<open>k\<close> at \<open>b\<close> lies between \<open>pre\<close> and \<open>post\<close>,
  and the free list skips it.\<close>

definition gap :: "Heap_t \<Rightarrow> memory \<Rightarrow> nat \<Rightarrow> block list \<Rightarrow> nat \<Rightarrow> block list \<Rightarrow> bool" where
  "gap h m a pre k post \<longleftrightarrow>
     (let xs = xStart_p h; e = pxEnd h; b = a + span pre in
      wf_blocks pre \<and> wf_blocks post \<and> 8 \<le> k \<and> 0 < a \<and> e = b + k + span post \<and> e + 8 \<le> 2 ^ 32 \<and>
      0 < xs \<and> xs < 2 ^ 32 \<and> (xs + 8 \<le> a \<or> e + 8 \<le> xs) \<and> m (b + 4) = k \<and> m (xs + 4) = 0 \<and>
      fp m xs a pre \<and> fl m (lastp xs a pre) (b + k) post e)"

lemma insert_prev_merge:
  assumes g: "gap h m a pre k post" and pre: "pre = pre1 @ [(j, False)]"
  shows "insert_prev m (lastp (xStart_p h) a pre) (a + span pre) =
    Some (m(a + span pre1 + 4 := j + k), a + span pre1)"
proof -
  have "lastp (xStart_p h) a pre = a + span pre1" by (simp add: pre lastp_append)
  moreover have "m (a + span pre1 + 4) = j" using g by (simp add: gap_def Let_def pre fp_append)
  ultimately show ?thesis using g pre
    by (simp add: insert_prev_def gap_def Let_def add32_small add.assoc)
qed

lemma insert_prev_apart:
  assumes g: "gap h m a pre k post" and pre: "\<not> (pre \<noteq> [] \<and> \<not> snd (last pre))"
  shows "insert_prev m (lastp (xStart_p h) a pre) (a + span pre) = Some (m, a + span pre)"
proof -
  let ?xs = "xStart_p h" let ?l = "lastp ?xs a pre"
  note G = g [unfolded gap_def Let_def]
  consider "?l = ?xs" | xs n ys where "pre = xs @ (n, False) # ys" "?l = a + span xs" "\<forall>b \<in> set ys. snd b"
    using lastp_cases [of ?xs a pre] by blast
  then have "0 < ?l \<and> add32 ?l (m (?l + 4)) \<noteq> a + span pre"
  proof cases
    case 1
    with G show ?thesis by (auto simp: add32_small)
  next
    case 2
    then have "ys \<noteq> []" using pre by auto
    then obtain c cs where "ys = c # cs" by (cases ys) auto
    moreover have "m (?l + 4) = n" using G 2 by (simp add: fp_append)
    ultimately show ?thesis using G 2 by (cases c) (auto simp: add32_small)
  qed
  then show ?thesis by (simp add: insert_prev_def)
qed

lemma gap_walk:
  assumes g: "gap h m a pre k post"
  defines "l \<equiv> lastp (xStart_p h) a pre"
  shows "l = xStart_p h \<or> (a \<le> l \<and> l + 8 \<le> a + span pre)" "0 < l"
    "insert_iter m (xStart_p h) (a + span pre) = Some l"
proof -
  note G = g [unfolded gap_def Let_def]
  show lb: "l = xStart_p h \<or> (a \<le> l \<and> l + 8 \<le> a + span pre)"
    using lastp_bounds G unfolding l_def by blast
  then show "0 < l" using G by auto
  have "m l = nextf (a + span pre + k) post (pxEnd h)" using G fl_head unfolding l_def by blast
  then have "a + span pre \<le> m l" using nextf_ge [of "a + span pre + k" post "pxEnd h"] G by auto
  then show "insert_iter m (xStart_p h) (a + span pre) = Some l"
    using G unfolding l_def by (intro insert_iter_ok) auto
qed

lemma insert_ok_merge:
  assumes g: "gap h m a pre k post" and pre: "pre = pre1 @ [(j, False)]"
  shows "\<exists>m'. prvInsertBlockIntoFreeList h m (a + span pre) = Some m' \<and>
    fl m' (xStart_p h) a (release pre k post) (pxEnd h) \<and>
    (\<forall>c. c \<notin> {a + span pre1, a + span pre1 + 4} \<longrightarrow> m' c = m c)"
proof -
  let ?xs = "xStart_p h" let ?e = "pxEnd h" let ?c = "a + span pre1" let ?m1 = "m(?c + 4 := j + k)"
  note G = g [unfolded gap_def Let_def] and W = gap_walk [OF g]
  have l: "lastp ?xs a pre = ?c" by (simp add: pre lastp_append)
  have P: "fp m ?xs a pre1" "m (lastp ?xs a pre1) = ?c" "8 \<le> j" "wf_blocks pre1"
    using G by (auto simp: pre fp_append)
  have l1: "lastp ?xs a pre1 = ?xs \<or> (a \<le> lastp ?xs a pre1 \<and> lastp ?xs a pre1 + 8 \<le> ?c)"
    using lastp_bounds P(4) by blast
  obtain k' post' where mn: "merge_next (j + k) post = (k', post')" by fastforce
  have fl1: "fl ?m1 ?c (?c + (j + k)) post ?e = fl m ?c (?c + (j + k)) post ?e"
    using G P(3) by (intro fl_frame) auto
  have "\<exists>m'. insert_next ?e ?m1 ?c ?c = Some m' \<and> m' (?c + 4) = k' \<and> fl m' ?c (?c + k') post' ?e \<and>
      ?c + k' + span post' = ?e \<and> j + k \<le> k' \<and> wf_blocks post' \<and> (\<forall>c. c \<notin> {?c, ?c + 4} \<longrightarrow> m' c = ?m1 c)"
    using G l fl1 P by (intro insert_next_ok [OF _ _ _ _ _ _ _ _ _ mn]) (auto simp: pre add.assoc)
  then obtain m' where m': "insert_next ?e ?m1 ?c ?c = Some m'" "m' (?c + 4) = k'"
      "fl m' ?c (?c + k') post' ?e" "\<forall>c. c \<notin> {?c, ?c + 4} \<longrightarrow> m' c = m c" by auto
  have run: "prvInsertBlockIntoFreeList h m (a + span pre) = Some m'"
    using W(3) insert_prev_merge [OF g pre] m'(1) l by (simp add: prvInsertBlockIntoFreeList_def)
  have rel: "release pre k post = pre1 @ (k', False) # post'"
    using mn by (simp add: release_def merge_prev_def pre)
  have "fp m' ?xs a pre1" using fp_frame [of pre1 ?xs a m' m] P G m'(4) l1 by (auto simp: pre)
  moreover have "m' (lastp ?xs a pre1) = ?c" using m'(4) P(2) l1 G by (auto simp: pre)
  ultimately have "fl m' ?xs a (release pre k post) ?e" using m' by (simp add: rel fl_append)
  then show ?thesis using run m'(4) by blast
qed

lemma insert_ok_apart:
  assumes g: "gap h m a pre k post" and pre: "\<not> (pre \<noteq> [] \<and> \<not> snd (last pre))"
  defines "b \<equiv> a + span pre" and "l \<equiv> lastp (xStart_p h) a pre"
  shows "\<exists>m'. prvInsertBlockIntoFreeList h m b = Some m' \<and>
    fl m' (xStart_p h) a (release pre k post) (pxEnd h) \<and> m' (b + 4) \<le> k + span post \<and>
    (\<forall>c. c \<notin> {b, b + 4, l} \<longrightarrow> m' c = m c)"
proof -
  let ?xs = "xStart_p h" let ?e = "pxEnd h"
  note G = g [unfolded gap_def Let_def, folded b_def l_def] and W = gap_walk [OF g, folded b_def l_def]
  obtain k' post' where mn: "merge_next k post = (k', post')" by fastforce
  have "\<exists>m'. insert_next ?e m l b = Some m' \<and> m' (b + 4) = k' \<and> fl m' b (b + k') post' ?e \<and>
      b + k' + span post' = ?e \<and> k \<le> k' \<and> wf_blocks post' \<and> (\<forall>c. c \<notin> {b, b + 4} \<longrightarrow> m' c = m c)"
    using G W(1,2) by (intro insert_next_ok [OF _ _ _ _ _ _ _ _ _ mn]) (auto simp: b_def)
  then obtain m2 where m2: "insert_next ?e m l b = Some m2" "m2 (b + 4) = k'"
      "fl m2 b (b + k') post' ?e" "b + k' + span post' = ?e" "wf_blocks post'"
      "\<forall>c. c \<notin> {b, b + 4} \<longrightarrow> m2 c = m c" by auto
  have lnb: "l \<noteq> b" "l \<noteq> b + 4" using W(1) G by (auto simp: b_def)
  let ?m' = "m2(l := b)"
  have run: "prvInsertBlockIntoFreeList h m b = Some ?m'"
    using W(2,3) insert_prev_apart [OF g pre, folded b_def l_def] m2(1) lnb
    by (simp add: prvInsertBlockIntoFreeList_def)
  have rel: "release pre k post = pre @ (k', False) # post'"
    using mn pre by (auto simp: release_def merge_prev_def)
  have "fp ?m' ?xs a pre"
    using fp_frame [of pre ?xs a ?m' m] G m2(6) W(1) by (auto simp: l_def b_def)
  moreover have "fl ?m' b (b + k') post' ?e = fl m2 b (b + k') post' ?e"
    using W(1) lnb m2(4) G by (intro fl_frame [OF m2(5)]) (auto simp: b_def)
  ultimately have "fl ?m' ?xs a (release pre k post) ?e"
    using m2 lnb by (simp add: rel fl_append b_def [symmetric] l_def [symmetric])
  moreover have "?m' (b + 4) \<le> k + span post" using m2 lnb G by auto
  ultimately show ?thesis using run m2(6) by auto
qed

lemma insert_ok:
  assumes g: "gap h m a pre k post"
  shows "\<exists>m'. prvInsertBlockIntoFreeList h m (a + span pre) = Some m' \<and>
    fl m' (xStart_p h) a (release pre k post) (pxEnd h) \<and> m' (xStart_p h + 4) = 0 \<and>
    m' (a + span pre + 4) \<le> k + span post \<and>
    (\<forall>c. c \<notin> {a + span pre, a + span pre + 4, lastp (xStart_p h) a pre, lastp (xStart_p h) a pre + 4}
       \<longrightarrow> m' c = m c)"
proof (cases "pre \<noteq> [] \<and> \<not> snd (last pre)")
  case True
  then obtain pre1 j where pre: "pre = pre1 @ [(j, False)]" by (auto elim: wf_snoc_free)
  note G = g [unfolded gap_def Let_def]
  have l: "lastp (xStart_p h) a pre = a + span pre1" by (simp add: pre lastp_append)
  from insert_ok_merge [OF g pre] obtain m' where
    m': "prvInsertBlockIntoFreeList h m (a + span pre) = Some m'"
      "fl m' (xStart_p h) a (release pre k post) (pxEnd h)"
      "\<forall>c. c \<notin> {a + span pre1, a + span pre1 + 4} \<longrightarrow> m' c = m c" by blast
  moreover have "m' (xStart_p h + 4) = 0" "m' (a + span pre + 4) \<le> k + span post"
    using m'(3) G by (auto simp: pre)
  ultimately show ?thesis using l by auto
next
  case False
  note G = g [unfolded gap_def Let_def]
  from insert_ok_apart [OF g False] obtain m' where
    m': "prvInsertBlockIntoFreeList h m (a + span pre) = Some m'"
      "fl m' (xStart_p h) a (release pre k post) (pxEnd h)" "m' (a + span pre + 4) \<le> k + span post"
      "\<forall>c. c \<notin> {a + span pre, a + span pre + 4, lastp (xStart_p h) a pre} \<longrightarrow> m' c = m c" by blast
  moreover have "m' (xStart_p h + 4) = 0" using m'(4) gap_walk(1) [OF g] G by auto
  ultimately show ?thesis by auto
qed

section \<open>The abstract operations\<close>

lemma no_adj_Cons: "no_adj (b # bs) \<longleftrightarrow> no_adj bs \<and> (bs = [] \<or> snd b \<or> snd (hd bs))"
  by (cases b; cases bs) auto

lemma no_adj_append:
  "no_adj (xs @ ys) \<longleftrightarrow> no_adj xs \<and> no_adj ys \<and> (xs = [] \<or> ys = [] \<or> snd (last xs) \<or> snd (hd ys))"
  by (induction xs) (auto simp: no_adj_Cons)

definition opt_free :: "nat \<Rightarrow> block list" where
  "opt_free j = (if j = 0 then [] else [(j, False)])"

lemma opt_free_facts [simp]:
  "span (opt_free j) = j" "free_bytes (opt_free j) = j" "owned a (opt_free j) = []"
  "no_adj (opt_free j)" "opt_free 0 = []" "wf_blocks (opt_free j) \<longleftrightarrow> j = 0 \<or> 8 \<le> j \<and> 4 dvd j"
  by (simp_all add: opt_free_def)

lemma release_cases:
  assumes wf: "wf_blocks pre" "wf_blocks post"
  obtains pre' j i post' where "release pre k post = pre' @ (j + k + i, False) # post'"
    "pre = pre' @ opt_free j" "post = opt_free i @ post'"
    "j = 0 \<longrightarrow> pre' = [] \<or> snd (last pre')" "i = 0 \<longrightarrow> post' = [] \<or> snd (hd post')"
proof -
  note goal = that
  obtain pre' j where 1: "merge_prev pre k = (pre', j + k)" "pre = pre' @ opt_free j"
    "j = 0 \<longrightarrow> pre' = [] \<or> snd (last pre')"
  proof (cases "pre \<noteq> [] \<and> \<not> snd (last pre)")
    case True
    then obtain p1 n where "pre = p1 @ [(n, False)]" by (auto elim: wf_snoc_free)
    with wf(1) that [of p1 n] show ?thesis by (simp add: merge_prev_def opt_free_def)
  next
    case False
    with that [of pre 0] show ?thesis by (auto simp: merge_prev_def)
  qed
  obtain i post' where 2: "merge_next (j + k) post = (j + k + i, post')" "post = opt_free i @ post'"
    "i = 0 \<longrightarrow> post' = [] \<or> snd (hd post')"
  proof (cases "post \<noteq> [] \<and> \<not> snd (hd post)")
    case True
    then obtain n ps where "post = (n, False) # ps" by (cases post) auto
    with wf(2) that [of n ps] show ?thesis by (simp add: merge_next_def opt_free_def)
  next
    case False
    with that [of 0 post] show ?thesis by (auto simp: merge_next_def)
  qed
  from goal [of pre' j i post'] 1 2 show ?thesis by (simp add: release_def)
qed

lemma release_facts:
  assumes "wf_blocks pre" "wf_blocks post" "8 \<le> k" "4 dvd k"
  shows "span (release pre k post) = span pre + k + span post"
    "free_bytes (release pre k post) = free_bytes pre + k + free_bytes post"
    "wf_blocks (release pre k post)"
    "owned a (release pre k post) = owned a pre @ owned (a + span pre + k) post"
    "no_adj pre \<Longrightarrow> no_adj post \<Longrightarrow> no_adj (release pre k post)"
proof -
  obtain pre' j i post' where r: "release pre k post = pre' @ (j + k + i, False) # post'"
    and pre: "pre = pre' @ opt_free j" and post: "post = opt_free i @ post'"
    and "j = 0 \<longrightarrow> pre' = [] \<or> snd (last pre')" "i = 0 \<longrightarrow> post' = [] \<or> snd (hd post')"
    using release_cases [OF assms(1,2)] by metis
  show "span (release pre k post) = span pre + k + span post"
    "free_bytes (release pre k post) = free_bytes pre + k + free_bytes post"
    "owned a (release pre k post) = owned a pre @ owned (a + span pre + k) post"
    unfolding r unfolding pre post by (simp_all add: add.assoc)
  show "wf_blocks (release pre k post)"
    unfolding r using assms unfolding pre post by auto
  show "no_adj (release pre k post)" if "no_adj pre" "no_adj post"
  proof -
    have "pre' = [] \<or> snd (last pre')"
      using that(1) pre \<open>j = 0 \<longrightarrow> _\<close> by (cases "j = 0") (auto simp: no_adj_append opt_free_def)
    moreover have "post' = [] \<or> snd (hd post')"
      using that(2) post \<open>i = 0 \<longrightarrow> _\<close> by (cases "i = 0") (auto simp: no_adj_Cons opt_free_def)
    moreover have "no_adj pre'" "no_adj post'" using that pre post by (auto simp: no_adj_append)
    ultimately show ?thesis
      by (auto simp: r no_adj_append no_adj_Cons)
  qed
qed

lemma release_apart:
  assumes "pre = [] \<or> snd (last pre)" "post = [] \<or> snd (hd post)"
  shows "release pre k post = pre @ (k, False) # post"
  using assms by (auto simp: release_def merge_prev_def merge_next_def)

lemma alloc_first_Some:
  assumes "alloc_first w bs = Some bs'"
  obtains pre n post where "bs = pre @ (n, False) # post" "w \<le> n" "\<forall>(k, u) \<in> set pre. \<not> u \<longrightarrow> k < w"
    "bs' = pre @ (if n - w > 16 then [(w, True), (n - w, False)] else [(n, True)]) @ post"
proof -
  have "\<exists>pre n post. bs = pre @ (n, False) # post \<and> w \<le> n \<and> (\<forall>(k, u) \<in> set pre. \<not> u \<longrightarrow> k < w) \<and>
    bs' = pre @ (if n - w > 16 then [(w, True), (n - w, False)] else [(n, True)]) @ post"
    using assms
  proof (induction bs arbitrary: bs' rule: span.induct)
    case (2 n u bs)
    show ?case
    proof (cases "\<not> u \<and> w \<le> n")
      case True
      with "2.prems" show ?thesis by (intro exI [of _ "[]"]) auto
    next
      case False
      with "2.prems" obtain cs where cs: "alloc_first w bs = Some cs" "bs' = (n, u) # cs" by auto
      from "2.IH" [OF cs(1)] obtain pre k post where "bs = pre @ (k, False) # post" "w \<le> k"
        "\<forall>(k, u) \<in> set pre. \<not> u \<longrightarrow> k < w"
        "cs = pre @ (if k - w > 16 then [(w, True), (k - w, False)] else [(k, True)]) @ post" by blast
      with False cs(2) show ?thesis by (intro exI [of _ "(n, u) # pre"] exI [of _ k] exI [of _ post]) auto
    qed
  qed simp
  then show ?thesis using that by blast
qed

lemma alloc_first_None: "alloc_first w bs = None \<longleftrightarrow> (\<forall>(k, u) \<in> set bs. \<not> u \<longrightarrow> k < w)"
  by (induction bs rule: span.induct) auto

lemma lastp_owned:
  assumes "wf_blocks bs" "(x, n) \<in> set (owned a bs)"
  shows "lastp p a bs = p \<or> lastp p a bs + 8 \<le> x \<or> x + n \<le> lastp p a bs"
  using lastp_cases [of p a bs]
proof
  assume "\<exists>xs k ys. bs = xs @ (k, False) # ys \<and> lastp p a bs = a + span xs \<and> (\<forall>b \<in> set ys. snd b)"
  then obtain xs k ys where "bs = xs @ (k, False) # ys" "lastp p a bs = a + span xs" by blast
  with assms owned_bounds [of xs x n a] owned_bounds [of ys x n "a + span xs + k"] show ?thesis by auto
qed blast

section \<open>Release\<close>

text \<open>Memory cells that belong to blocks the application owns are left alone.\<close>

definition keeps :: "memory \<Rightarrow> memory \<Rightarrow> (nat \<times> nat) list \<Rightarrow> bool" where
  "keeps m m' os \<longleftrightarrow> (\<forall>(x, n) \<in> set os. \<forall>c. x \<le> c \<and> c < x + n \<longrightarrow> m' c = m c)"

lemma keepsD: "keeps m m' os \<Longrightarrow> (x, n) \<in> set os \<Longrightarrow> x \<le> c \<Longrightarrow> c < x + n \<Longrightarrow> m' c = m c"
  by (auto simp: keeps_def)

lemma keepsI: "(\<And>x n c. (x, n) \<in> set os \<Longrightarrow> x \<le> c \<Longrightarrow> c < x + n \<Longrightarrow> m' c = m c) \<Longrightarrow> keeps m m' os"
  by (auto simp: keeps_def)

lemma keeps_trans: "keeps m m1 os \<Longrightarrow> keeps m1 m' os \<Longrightarrow> keeps m m' os"
  by (rule keepsI) (simp add: keepsD)

lemma keeps_append [simp]: "keeps m m' (xs @ ys) \<longleftrightarrow> keeps m m' xs \<and> keeps m m' ys"
  by (auto simp: keeps_def)

lemma ub_keeps: "wf_blocks bs \<Longrightarrow> keeps m m' (owned a bs) \<Longrightarrow> ub m' a bs = ub m a bs"
proof (rule ub_frame)
  fix x n assume k: "wf_blocks bs" "keeps m m' (owned a bs)" and x: "(x, n) \<in> set (owned a bs)"
  from owned_bounds [OF k(1) x] have "8 \<le> n" by simp
  with keepsD [OF k(2) x, of x] keepsD [OF k(2) x, of "x + 4"]
  show "m' x = m x \<and> m' (x + 4) = m (x + 4)" by simp
qed

lemma ub_release:
  assumes "wf_blocks pre" "wf_blocks post" "8 \<le> k" "4 dvd k"
  shows "ub m a (release pre k post) \<longleftrightarrow> ub m a pre \<and> ub m (a + span pre + k) post"
proof -
  obtain pre' j i post' where "release pre k post = pre' @ (j + k + i, False) # post'"
    and "pre = pre' @ opt_free j" "post = opt_free i @ post'"
    using release_cases [OF assms(1,2)] by metis
  then show ?thesis by (simp add: opt_free_def add.assoc)
qed

lemma heap_repD:
  assumes "heap_rep s a bs"
  shows "xBlockAllocatedBit s = 2 ^ 31" "0 < a" "4 dvd a" "pxEnd (hp s) = a + span bs" "span bs < 2 ^ 31"
    "a + span bs + 8 \<le> 2 ^ 32" "0 < xStart_p (hp s)" "xStart_p (hp s) < 2 ^ 32"
    "xStart_p (hp s) + 8 \<le> a \<or> a + span bs + 8 \<le> xStart_p (hp s)"
    "wf_blocks bs" "no_adj bs" "fl (mem s) (xStart_p (hp s)) a bs (a + span bs)" "ub (mem s) a bs"
    "mem s (xStart_p (hp s) + 4) = 0" "mem s (a + span bs) = 0" "mem s (a + span bs + 4) = 0"
    "xFreeBytesRemaining (hp s) = free_bytes bs"
    "xMinimumEverFreeBytesRemaining (hp s) \<le> free_bytes bs"
  using assms unfolding heap_rep_def Let_def by auto

lemma insert_outside:
  assumes g: "gap h m a pre k post"
    and frame: "\<forall>c. c \<notin> {a + span pre, a + span pre + 4, lastp (xStart_p h) a pre,
      lastp (xStart_p h) a pre + 4} \<longrightarrow> m' c = m c"
  shows "keeps m m' (owned a pre)" "keeps m m' (owned (a + span pre + k) post)"
    "m' (pxEnd h) = m (pxEnd h)" "m' (pxEnd h + 4) = m (pxEnd h + 4)"
proof -
  note G = g [unfolded gap_def Let_def]
  let ?l = "lastp (xStart_p h) a pre"
  have lb: "?l = xStart_p h \<or> (a \<le> ?l \<and> ?l + 8 \<le> a + span pre)" using lastp_bounds G by blast
  show "keeps m m' (owned a pre)"
  proof (rule keepsI)
    fix x n c assume x: "(x, n) \<in> set (owned a pre)" and c: "x \<le> c" "c < x + n"
    from x G have "a \<le> x \<and> x + n \<le> a + span pre" using owned_bounds by blast
    moreover have "?l = xStart_p h \<or> ?l + 8 \<le> x \<or> x + n \<le> ?l" using x G lastp_owned by blast
    ultimately have "c \<notin> {a + span pre, a + span pre + 4, ?l, ?l + 4}" using c G by auto
    with frame show "m' c = m c" by blast
  qed
  show "keeps m m' (owned (a + span pre + k) post)"
  proof (rule keepsI)
    fix x n c assume x: "(x, n) \<in> set (owned (a + span pre + k) post)" and c: "x \<le> c" "c < x + n"
    from x G have "a + span pre + k \<le> x \<and> x + n \<le> a + span pre + k + span post"
      using owned_bounds by blast
    then have "c \<notin> {a + span pre, a + span pre + 4, ?l, ?l + 4}" using c lb G by auto
    with frame show "m' c = m c" by blast
  qed
  show "m' (pxEnd h) = m (pxEnd h)" "m' (pxEnd h + 4) = m (pxEnd h + 4)"
    using frame lb G by auto
qed

lemma PortFree_rep:
  assumes rep: "heap_rep s a (pre @ (n, True) # post)"
  shows "\<exists>s'. PortFree s (a + span pre + 8) = Some s' \<and> heap_rep s' a (release pre n post) \<and>
    keeps (mem s) (mem s') (owned a pre @ owned (a + span pre + n) post) \<and>
    mem s' (a + span pre + 4) < 2 ^ 31 \<and>
    hp s' = (hp s)\<lparr>xFreeBytesRemaining := free_bytes (release pre n post),
      xNumberOfSuccessfulFrees := add32 (xNumberOfSuccessfulFrees (hp s)) 1\<rparr>"
proof -
  note R = heap_repD [OF rep]
  let ?b = "a + span pre" let ?m = "mem s" let ?m1 = "?m(?b + 4 := n)"
  have n: "8 \<le> n" "4 dvd n" "n < 2 ^ 31" using R(5,10) by auto
  have hdr: "?m (?b + 4) = n + 2 ^ 31" "?m ?b = 0" using R(13) by auto
  have lb: "lastp (xStart_p (hp s)) a pre = xStart_p (hp s) \<or>
      (a \<le> lastp (xStart_p (hp s)) a pre \<and> lastp (xStart_p (hp s)) a pre + 8 \<le> ?b)"
    using lastp_bounds R(10) by auto
  let ?f = "free_bytes (release pre n post)"
  have rf: "span (release pre n post) = span pre + n + span post"
    "?f = free_bytes pre + n + free_bytes post" "wf_blocks (release pre n post)"
    "no_adj (release pre n post)" "owned a (release pre n post) = owned a pre @ owned (?b + n) post"
    using release_facts [of pre post n] R(10,11) n by (auto simp: no_adj_append no_adj_Cons)
  have fp: "fp ?m1 (xStart_p (hp s)) a pre"
    using fp_frame [of pre "xStart_p (hp s)" a ?m1 ?m] R lb by (auto simp: fl_append)
  have fl: "fl ?m1 (lastp (xStart_p (hp s)) a pre) (?b + n) post (pxEnd (hp s))"
    using fl_frame [of post ?m1 "lastp (xStart_p (hp s)) a pre" ?m "?b + n"] R lb n
    by (auto simp: fl_append)
  have "gap (hp s) ?m1 a pre n post"
    using R n fp fl by (auto simp: gap_def Let_def add.assoc)
  then have g: "gap ((hp s)\<lparr>xFreeBytesRemaining := ?f\<rparr>) ?m1 a pre n post" by (simp add: gap_def)
  from insert_ok [OF g] obtain m' where m':
    "prvInsertBlockIntoFreeList ((hp s)\<lparr>xFreeBytesRemaining := ?f\<rparr>) ?m1 ?b = Some m'"
    "fl m' (xStart_p (hp s)) a (release pre n post) (pxEnd (hp s))" "m' (xStart_p (hp s) + 4) = 0"
    "m' (?b + 4) \<le> n + span post"
    "\<forall>c. c \<notin> {?b, ?b + 4, lastp (xStart_p (hp s)) a pre, lastp (xStart_p (hp s)) a pre + 4}
      \<longrightarrow> m' c = ?m1 c" by auto
  have out: "keeps ?m1 m' (owned a pre)" "keeps ?m1 m' (owned (?b + n) post)"
    "m' (pxEnd (hp s)) = ?m1 (pxEnd (hp s))" "m' (pxEnd (hp s) + 4) = ?m1 (pxEnd (hp s) + 4)"
    using insert_outside [OF g, of m'] m'(5) by simp_all
  have k1: "keeps ?m ?m1 (owned a pre)" "keeps ?m ?m1 (owned (?b + n) post)"
    using owned_bounds [of pre _ _ a] owned_bounds [of post _ _ "?b + n"] R(10) n
    by (fastforce intro!: keepsI)+
  have k: "keeps ?m m' (owned a pre)" "keeps ?m m' (owned (?b + n) post)"
    using out(1,2) k1 by (blast intro: keeps_trans)+
  have "ub m' a pre" "ub m' (?b + n) post" using k R(10,13) by (auto simp: ub_keeps)
  then have ub: "ub m' a (release pre n post)" using ub_release [of pre post n] R(10) n by simp
  have sum: "free_bytes pre + free_bytes post + n < 2 ^ 32"
    using free_bytes_le_span [of pre] free_bytes_le_span [of post] R(5) by simp
  let ?s' = "s\<lparr>hp := (hp s)\<lparr>xFreeBytesRemaining := ?f,
      xNumberOfSuccessfulFrees := add32 (xNumberOfSuccessfulFrees (hp s)) 1\<rparr>, mem := m'\<rparr>"
  have b: "0 < ?b" "?b + 8 < 2 ^ 32" using R by auto
  have pl: "sub32 (?b + 8) 8 = ?b" using b by (simp add: sub32_small)
  have fr: "add32 (xFreeBytesRemaining (hp s)) n = ?f"
    using sum R(17) rf(2) by (simp add: add32_small)
  have run: "PortFree s (?b + 8) = Some ?s'"
    unfolding PortFree_def Let_def heap_consts pl
    using b hdr n R(1) m'(1) fr by (simp add: bit31_numeral)
  have "heap_rep ?s' a (release pre n post)"
    using R rf m' ub out by (auto simp: heap_rep_def Let_def add.assoc)
  moreover have "m' (?b + 4) < 2 ^ 31" using m'(4) R(5) by simp
  ultimately show ?thesis using run k by auto
qed

section \<open>Allocation\<close>

lemma malloc_adjust_eval:
  assumes "w < 2 ^ 31"
  shows "malloc_adjust w = Some (if w = 0 then 0 else 4 * ((w + 11) div 4))"
proof (cases "w = 0")
  case True
  then show ?thesis by (simp add: malloc_adjust_def)
next
  case False
  let ?v = "w + 8"
  have v: "add32 w 8 = ?v" using assms by (simp add: add32_small)
  show ?thesis
  proof (cases "?v mod 4 = 0")
    case True
    then have "4 * ((w + 11) div 4) = ?v" by presburger
    with True v False show ?thesis by (simp add: malloc_adjust_def and_3)
  next
    case neq: False
    have a: "add32 ?v (4 - ?v mod 4) = ?v + (4 - ?v mod 4)"
      using assms by (intro add32_small) simp
    have "?v + (4 - ?v mod 4) = 4 * ((w + 11) div 4)" "?v mod 4 < 4" using neq by presburger+
    then have "(?v + (4 - ?v mod 4)) mod 4 = 0" "?v < ?v + (4 - ?v mod 4)" by simp_all
    with a v neq False \<open>?v + (4 - ?v mod 4) = _\<close> show ?thesis
      by (simp add: malloc_adjust_def and_3)
  qed
qed

text \<open>Taking the block between \<open>pre\<close> and \<open>post\<close> out of the free list.\<close>

lemma unlink_gap:
  assumes rep: "heap_rep s a (pre @ (n, False) # post)"
  defines "l \<equiv> lastp (xStart_p (hp s)) a pre" and "b \<equiv> a + span pre"
  assumes m1: "m1 l = mem s b" "\<And>c. c \<noteq> l \<Longrightarrow> c < b \<or> b + n \<le> c \<Longrightarrow> m1 c = mem s c"
  shows "fp m1 (xStart_p (hp s)) a pre" "fl m1 l (b + n) post (pxEnd (hp s))"
    "l = xStart_p (hp s) \<or> (a \<le> l \<and> l + 8 \<le> b)" "0 < l" "mem s l = b" "mem s (b + 4) = n"
proof -
  note R = heap_repD [OF rep]
  show lb: "l = xStart_p (hp s) \<or> (a \<le> l \<and> l + 8 \<le> b)"
    using lastp_bounds R(10) by (auto simp: l_def b_def)
  then show "0 < l" using R(2,7) by auto
  have F: "fp (mem s) (xStart_p (hp s)) a pre" "mem s l = b" "mem s (b + 4) = n"
      "fl (mem s) b (b + n) post (pxEnd (hp s))"
    using R(4,12) by (auto simp: fl_append l_def b_def add.assoc)
  then show "mem s l = b" "mem s (b + 4) = n" by simp_all
  show "fp m1 (xStart_p (hp s)) a pre"
    using fp_frame [of pre "xStart_p (hp s)" a m1 "mem s"] F(1) R(9,10) m1(2)
    by (auto simp: l_def [symmetric] b_def)
  have "fl m1 l (b + n) post (pxEnd (hp s)) = fl (m1(b := mem s b)) l (b + n) post (pxEnd (hp s))"
    using lb R(2,9,10) by (intro fl_frame) (auto simp: b_def)
  also have "\<dots> = fl (m1(b := mem s b)) b (b + n) post (pxEnd (hp s))"
    using m1(1) by (intro fl_cong_head) simp
  also have "\<dots> = fl (mem s) b (b + n) post (pxEnd (hp s))"
    using m1(2) lb R(9,10) by (intro fl_frame) (auto simp: b_def)
  finally show "fl m1 l (b + n) post (pxEnd (hp s))" using F(4) by simp
qed

lemma unlink_keeps:
  assumes rep: "heap_rep s a (pre @ (n, False) # post)"
  defines "l \<equiv> lastp (xStart_p (hp s)) a pre" and "b \<equiv> a + span pre"
  assumes m1: "\<And>c. c \<notin> {l, l + 4} \<Longrightarrow> c < b \<or> b + n \<le> c \<Longrightarrow> m1 c = mem s c"
  shows "keeps (mem s) m1 (owned a pre @ owned (b + n) post)"
    "m1 (pxEnd (hp s)) = 0" "m1 (pxEnd (hp s) + 4) = 0"
proof -
  note R = heap_repD [OF rep]
  have lb: "l = xStart_p (hp s) \<or> (a \<le> l \<and> l + 8 \<le> b)"
    using lastp_bounds R(10) by (auto simp: l_def b_def)
  have "m1 c = mem s c" if x: "(x, k) \<in> set (owned a pre)" "x \<le> c" "c < x + k" for x k c
  proof -
    have "a \<le> x" "x + k \<le> b" using x(1) R(10) owned_bounds [of pre x k a] by (auto simp: b_def)
    moreover have "l = xStart_p (hp s) \<or> l + 8 \<le> x \<or> x + k \<le> l"
      using x(1) R(10) lastp_owned by (auto simp: l_def)
    ultimately have "c \<notin> {l, l + 4}" "c < b" using x R(9) by (auto simp: b_def)
    then show ?thesis using m1 by blast
  qed
  moreover have "m1 c = mem s c" if x: "(x, k) \<in> set (owned (b + n) post)" "x \<le> c" "c < x + k" for x k c
  proof -
    have "b + n \<le> x" "x + k \<le> b + n + span post"
      using x(1) R(10) owned_bounds [of post x k "b + n"] by auto
    then have "c \<notin> {l, l + 4}" "b + n \<le> c" using x lb R(9,10) by (auto simp: b_def)
    then show ?thesis using m1 by blast
  qed
  ultimately show "keeps (mem s) m1 (owned a pre @ owned (b + n) post)"
    by (auto intro: keepsI)
  have "pxEnd (hp s) \<notin> {l, l + 4}" "pxEnd (hp s) + 4 \<notin> {l, l + 4}" "b + n \<le> pxEnd (hp s)"
    using lb R(4,9,10) by (auto simp: b_def)
  then show "m1 (pxEnd (hp s)) = 0" "m1 (pxEnd (hp s) + 4) = 0"
    using m1 R(4,15,16) by (metis le_add1 order_trans)+
qed

definition taken :: "block list \<Rightarrow> nat \<Rightarrow> nat \<Rightarrow> block list \<Rightarrow> block list" where
  "taken pre n w post = pre @ (if n - w > 16 then [(w, True), (n - w, False)] else [(n, True)]) @ post"

text \<open>
  The memory after the block has left the free list and has been split: the block at \<open>b\<close>, of
  size \<open>z\<close>, still has to be marked; \<open>rest\<close> follows it.
\<close>

lemma mark_taken:
  assumes rep: "heap_rep s a (pre @ (n, False) # post)"
  defines "b \<equiv> a + span pre"
  assumes z: "8 \<le> z" "4 dvd z" "z + span rest = n + span post" "z + free_bytes rest = n + free_bytes post"
    and wf: "wf_blocks rest" "no_adj rest" "owned (b + z) rest = owned (b + n) post"
    and m2: "m2 (b + 4) = z" "fl m2 (xStart_p (hp s)) a (pre @ (z, True) # rest) (pxEnd (hp s))"
      "keeps (mem s) m2 (owned a pre @ owned (b + n) post)" "m2 (xStart_p (hp s) + 4) = 0"
      "m2 (pxEnd (hp s)) = 0" "m2 (pxEnd (hp s) + 4) = 0"
    and ub: "ub m2 (b + z) rest = ub m2 (b + n) post"
    and s': "mem s' = m2(b + 4 := z + 2 ^ 31, b := 0)" "xBlockAllocatedBit s' = 2 ^ 31"
      "xStart_p (hp s') = xStart_p (hp s)" "pxEnd (hp s') = pxEnd (hp s)"
      "xFreeBytesRemaining (hp s') = free_bytes pre + free_bytes rest"
      "xMinimumEverFreeBytesRemaining (hp s') \<le> free_bytes pre + free_bytes rest"
  shows "heap_rep s' a (pre @ (z, True) # rest)" "keeps (mem s) (mem s') (owned a pre @ owned (b + n) post)"
proof -
  note R = heap_repD [OF rep]
  let ?xs = "xStart_p (hp s)" let ?m4 = "m2(b + 4 := z + 2 ^ 31, b := 0)"
  have lb: "lastp ?xs a pre = ?xs \<or> (a \<le> lastp ?xs a pre \<and> lastp ?xs a pre + 8 \<le> b)"
    using lastp_bounds R(10) by (auto simp: b_def)
  have F: "fp m2 ?xs a pre" "fl m2 (lastp ?xs a pre) (b + z) rest (pxEnd (hp s))"
    using m2(2) by (auto simp: fl_append b_def)
  have "fp ?m4 ?xs a pre"
    using fp_frame [of pre ?xs a ?m4 m2] F(1) R(9,10) lb by (auto simp: b_def)
  moreover have "fl ?m4 (lastp ?xs a pre) (b + z) rest (pxEnd (hp s))"
    using fl_frame [OF wf(1), of ?m4 "lastp ?xs a pre" m2 "b + z"] F(2) R(9,10) lb z(1)
    by (auto simp: b_def)
  ultimately have fl: "fl ?m4 ?xs a (pre @ (z, True) # rest) (pxEnd (hp s))"
    by (simp add: fl_append b_def)
  have "keeps m2 ?m4 (owned a pre)"
    using owned_bounds [of pre _ _ a] R(10) by (fastforce intro!: keepsI simp: b_def)
  moreover have "keeps m2 ?m4 (owned (b + n) post)"
    using owned_bounds [of post _ _ "b + n"] R(10) by (fastforce intro!: keepsI)
  ultimately have k: "keeps m2 ?m4 (owned a pre @ owned (b + n) post)" by simp
  then show K: "keeps (mem s) (mem s') (owned a pre @ owned (b + n) post)"
    using m2(3) s'(1) by (auto intro: keeps_trans)
  have "ub ?m4 a pre" "ub m2 (b + n) post"
    using K m2(3) R(10,13) s'(1) by (auto simp: ub_keeps b_def add.assoc)
  then have "ub ?m4 a (pre @ (z, True) # rest)"
    using ub k wf z(1) ub_keeps [OF wf(1), of m2 ?m4 "b + z"] by (auto simp: b_def)
  moreover have "no_adj (pre @ (z, True) # rest)"
    using R(11) wf(2) by (auto simp: no_adj_append no_adj_Cons)
  moreover have "?m4 (?xs + 4) = 0" "?m4 (pxEnd (hp s)) = 0" "?m4 (pxEnd (hp s) + 4) = 0"
    using m2(4-6) R(4,9,10) z by (auto simp: b_def)
  ultimately show "heap_rep s' a (pre @ (z, True) # rest)"
    using R z wf(1) fl s' by (auto simp: heap_rep_def Let_def)
qed

lemma split_block:
  assumes rep: "heap_rep s a (pre @ (n, False) # post)"
    and w: "8 \<le> w" "4 dvd w" "n - w > 16"
  defines "l \<equiv> lastp (xStart_p (hp s)) a pre" and "b \<equiv> a + span pre"
  defines "m1 \<equiv> (mem s)(l := mem s b, b + w + 4 := n - w, b + 4 := w)"
  shows "\<exists>m2. prvInsertBlockIntoFreeList (hp s) m1 (b + w) = Some m2 \<and> m2 (b + 4) = w \<and>
    fl m2 (xStart_p (hp s)) a (pre @ (w, True) # (n - w, False) # post) (pxEnd (hp s)) \<and>
    keeps (mem s) m2 (owned a pre @ owned (b + n) post) \<and> m2 (xStart_p (hp s) + 4) = 0 \<and>
    m2 (pxEnd (hp s)) = 0 \<and> m2 (pxEnd (hp s) + 4) = 0"
proof -
  note R = heap_repD [OF rep]
  let ?xs = "xStart_p (hp s)" let ?pre = "pre @ [(w, True)]"
  have lb: "l = ?xs \<or> (a \<le> l \<and> l + 8 \<le> b)" using lastp_bounds R(10) by (auto simp: l_def b_def)
  have "m1 l = mem s b" "\<And>c. c \<noteq> l \<Longrightarrow> c < b \<or> b + n \<le> c \<Longrightarrow> m1 c = mem s c"
    using lb R(9,10) w by (auto simp: m1_def b_def)
  note u = unlink_gap [OF rep, folded l_def b_def, OF this]
  have lp: "lastp ?xs a ?pre = l" by (simp add: lastp_append l_def)
  have m1v: "m1 (b + w + 4) = n - w" "m1 (b + 4) = w" "m1 (?xs + 4) = 0"
    using w R(9,10,14) lb by (auto simp: m1_def b_def)
  have "gap (hp s) m1 a ?pre (n - w) post"
    using R u(1,2) m1v w lp by (auto simp: gap_def Let_def fp_append b_def add.assoc)
  from insert_ok [OF this] obtain m2 where m2:
    "prvInsertBlockIntoFreeList (hp s) m1 (b + w) = Some m2"
    "fl m2 ?xs a (release ?pre (n - w) post) (pxEnd (hp s))" "m2 (?xs + 4) = 0"
    "\<forall>c. c \<notin> {b + w, b + w + 4, l, l + 4} \<longrightarrow> m2 c = m1 c"
    by (auto simp: lp b_def add.assoc)
  have "release ?pre (n - w) post = ?pre @ (n - w, False) # post"
    using R(11) by (intro release_apart) (auto simp: no_adj_append no_adj_Cons)
  with m2(2) have fl: "fl m2 ?xs a (pre @ (w, True) # (n - w, False) # post) (pxEnd (hp s))" by simp
  have b4: "m2 (b + 4) = w" using m2(4) m1v(2) w lb R(9) by (auto simp: b_def)
  have "m2 c = mem s c" if c: "c \<notin> {l, l + 4}" "c < b \<or> b + n \<le> c" for c
  proof -
    have "c \<noteq> b + w" "c \<noteq> b + w + 4" "c \<noteq> b + 4" using c(2) w(1,3) by auto
    with m2(4) c(1) show ?thesis by (auto simp: m1_def)
  qed
  from unlink_keeps [OF rep, folded l_def b_def, OF this] m2(1,3) fl b4 show ?thesis by blast
qed

lemma malloc_split_rep:
  assumes rep: "heap_rep s a (pre @ (n, False) # post)" and w: "8 \<le> w" "4 dvd w" "w \<le> n"
  defines "b \<equiv> a + span pre" and "l \<equiv> lastp (xStart_p (hp s)) a pre"
  defines "z \<equiv> (if n - w > 16 then w else n)"
    and "rest \<equiv> (if n - w > 16 then (n - w, False) # post else post)"
  shows "\<exists>m2. malloc_split (hp s) ((mem s)(l := mem s b)) b w = Some m2 \<and> m2 (b + 4) = z \<and>
      fl m2 (xStart_p (hp s)) a (pre @ (z, True) # rest) (pxEnd (hp s)) \<and>
      keeps (mem s) m2 (owned a pre @ owned (b + n) post) \<and> m2 (xStart_p (hp s) + 4) = 0 \<and>
      m2 (pxEnd (hp s)) = 0 \<and> m2 (pxEnd (hp s) + 4) = 0"
proof -
  note R = heap_repD [OF rep]
  let ?m1 = "(mem s)(l := mem s b)"
  have n: "n < 2 ^ 31" "8 \<le> n" using R(5,10) by auto
  have "?m1 l = mem s b" "\<And>c. c \<noteq> l \<Longrightarrow> c < b \<or> b + n \<le> c \<Longrightarrow> ?m1 c = mem s c" by simp_all
  note u = unlink_gap [OF rep, folded b_def l_def, OF this]
  have "\<And>c. c \<notin> {l, l + 4} \<Longrightarrow> c < b \<or> b + n \<le> c \<Longrightarrow> ?m1 c = mem s c" by simp
  note uk = unlink_keeps [OF rep, folded b_def l_def, OF this]
  have ne: "l \<noteq> b + 4" "l \<noteq> xStart_p (hp s) + 4" "0 < b" using u(3) R(2,9) by (auto simp: b_def)
  show ?thesis
  proof (cases "n - w > 16")
    case True
    have al: "(b + w) mod 4 = 0" using R(3,10) span_dvd [of pre] w(2) by (simp add: b_def)
    have nb: "add32 b w = b + w" using R(6) w by (simp add: add32_small b_def)
    from split_block [OF rep w(1,2) True, folded b_def l_def] True al nb w ne n u(6) show ?thesis
      by (auto simp: malloc_split_def z_def rest_def sub32_small and_3 Let_def)
  next
    case False
    have "fl ?m1 (xStart_p (hp s)) a (pre @ (n, True) # post) (pxEnd (hp s))"
      using u(1,2) by (simp only: fl_append fl.simps b_def l_def) (simp del: fun_upd_apply)
    moreover have "malloc_split (hp s) ?m1 b w = Some ?m1"
      using False u(6) w n ne by (simp add: malloc_split_def sub32_small)
    moreover have "?m1 (b + 4) = n" "?m1 (xStart_p (hp s) + 4) = 0" using u(6) ne R(14) by simp_all
    moreover note uk
    moreover have "z = n" "rest = post" using False by (simp_all add: z_def rest_def)
    ultimately show ?thesis by blast
  qed
qed

lemma malloc_take_rep:
  assumes rep: "heap_rep s a (pre @ (n, False) # post)" and w: "8 \<le> w" "4 dvd w" "w \<le> n"
  defines "b \<equiv> a + span pre" and "l \<equiv> lastp (xStart_p (hp s)) a pre"
  shows "\<exists>s'. malloc_take s l b w = Some (b + 8, s') \<and> heap_rep s' a (taken pre n w post) \<and>
    keeps (mem s) (mem s') (owned a pre @ owned (b + n) post) \<and>
    hp s' = (hp s)\<lparr>xFreeBytesRemaining := free_bytes (taken pre n w post),
      xMinimumEverFreeBytesRemaining :=
        min (xMinimumEverFreeBytesRemaining (hp s)) (free_bytes (taken pre n w post)),
      xNumberOfSuccessfulAllocations := add32 (xNumberOfSuccessfulAllocations (hp s)) 1\<rparr>"
proof -
  note R = heap_repD [OF rep]
  have n: "8 \<le> n" "4 dvd n" "n < 2 ^ 31" using R(5,10) by auto
  have "((mem s)(l := mem s b)) l = mem s b"
    "\<And>c. c \<noteq> l \<Longrightarrow> c < b \<or> b + n \<le> c \<Longrightarrow> ((mem s)(l := mem s b)) c = mem s c" by simp_all
  note u = unlink_gap [OF rep, folded b_def l_def, OF this]
  define z rest where "z = (if n - w > 16 then w else n)"
    and "rest = (if n - w > 16 then (n - w, False) # post else post)"
  have tk: "taken pre n w post = pre @ (z, True) # rest" by (simp add: taken_def z_def rest_def)
  have zr: "8 \<le> z" "4 dvd z" "z + span rest = n + span post" "z + free_bytes rest = n + free_bytes post"
    "wf_blocks rest" "no_adj rest" "owned (a + span pre + z) rest = owned (a + span pre + n) post"
    "\<And>m. ub m (a + span pre + z) rest = ub m (a + span pre + n) post" "z \<le> n"
    using w n R(10,11) by (auto simp: z_def rest_def no_adj_append no_adj_Cons add.assoc)
  obtain m2 where m2: "malloc_split (hp s) ((mem s)(l := mem s b)) b w = Some m2" and M: "m2 (b + 4) = z"
      "fl m2 (xStart_p (hp s)) a (pre @ (z, True) # rest) (pxEnd (hp s))"
      "keeps (mem s) m2 (owned a pre @ owned (b + n) post)" "m2 (xStart_p (hp s) + 4) = 0"
      "m2 (pxEnd (hp s)) = 0" "m2 (pxEnd (hp s) + 4) = 0"
    using malloc_split_rep [OF rep w, folded b_def l_def z_def rest_def] by blast
  let ?f = "free_bytes pre + free_bytes rest"
  have f: "sub32 (xFreeBytesRemaining (hp s)) z = ?f"
    using R(5,17) zr(4) free_bytes_le_span [of pre] free_bytes_le_span [of post]
    by (simp add: sub32_small)
  let ?s' = "s\<lparr>hp := (hp s)\<lparr>xFreeBytesRemaining := ?f,
        xMinimumEverFreeBytesRemaining := min (xMinimumEverFreeBytesRemaining (hp s)) ?f,
        xNumberOfSuccessfulAllocations := add32 (xNumberOfSuccessfulAllocations (hp s)) 1\<rparr>,
      mem := m2(b + 4 := z + 2 ^ 31, b := 0)\<rparr>"
  have ret: "add32 b 8 = b + 8" "0 < b" using R(2,6) w n by (auto simp: add32_small b_def)
  have "z < 2 ^ 31" using zr(9) n by simp
  then have bit: "z OR xBlockAllocatedBit s = z + 2 ^ 31" using R(1) or_bit31 by metis
  have run: "malloc_take s l b w = Some (b + 8, ?s')"
    unfolding malloc_take_def heap_consts Let_def using u(4,5) ret m2 M(1) f bit
    by (simp add: min_def not_less del: fun_upd_apply)
  have "heap_rep ?s' a (pre @ (z, True) # rest)"
    and "keeps (mem s) (mem ?s') (owned a pre @ owned (b + n) post)"
    using mark_taken [OF rep zr(1-7) M [unfolded b_def] zr(8), of ?s'] R(1) by (simp_all add: b_def)
  with run show ?thesis by (simp add: tk)
qed

end
