(* ===== verification/HeapAlloc.thy ===== *)
theory HeapAlloc
  imports PortHeap
begin

text \<open>
  The allocator of \<^verbatim>\<open>heap/heap.c\<close> as its clients see it. \<^term>\<open>PortMalloc\<close> refines first fit on
  the block list, \<^term>\<open>PortFree\<close> refines release with merging, \<^term>\<open>HeapInit\<close> establishes the
  representation, and \<^term>\<open>vPortGetHeapStats\<close> reports the block list. The locale \<open>allocator\<close>
  states the contract of malloc and free over the set of live regions; its client lemmas are
  about arbitrary sequences of requests. It is interpreted on the model of \<^verbatim>\<open>heap.c\<close>.
\<close>

section \<open>Vocabulary\<close>

text \<open>The block size \<^term>\<open>PortMalloc\<close> uses for a request: header and alignment included.\<close>

definition block_size :: "nat \<Rightarrow> nat" where
  "block_size w = 4 * ((w + 11) div 4)"

text \<open>The configuration \<^verbatim>\<open>heap_cfg\<close> leaves behind: an array inside the address space, large enough
  for one block, and the descriptor outside the array.\<close>

definition cfg_ok :: "Heap_t \<Rightarrow> bool" where
  "cfg_ok h \<longleftrightarrow> 0 < ucHeap h \<and> ucHeap h + configTOTAL_HEAP_SIZE h \<le> 2 ^ 32 \<and> 22 \<le> configTOTAL_HEAP_SIZE h \<and>
     configTOTAL_HEAP_SIZE h < 2 ^ 31 \<and> 0 < xStart_p h \<and> xStart_p h < 2 ^ 32 \<and>
     (xStart_p h + 8 \<le> ucHeap h \<or> ucHeap h + configTOTAL_HEAP_SIZE h \<le> xStart_p h)"

definition heap_base :: "Heap_t \<Rightarrow> nat" where
  "heap_base h = 4 * ((ucHeap h + 3) div 4)"

definition heap_bytes :: "Heap_t \<Rightarrow> nat" where
  "heap_bytes h = 4 * ((ucHeap h + configTOTAL_HEAP_SIZE h) div 4) - heap_base h - 8"

definition free_sizes :: "block list \<Rightarrow> nat list" where
  "free_sizes bs = map fst (filter (\<lambda>b. \<not> snd b) bs)"

definition payloads :: "nat \<Rightarrow> block list \<Rightarrow> (nat \<times> nat) set" where
  "payloads a bs = (\<lambda>(x, n). (x + 8, n - 8)) ` set (owned a bs)"

definition live :: "hstate \<Rightarrow> (nat \<times> nat) set \<Rightarrow> bool" where
  "live s R \<longleftrightarrow> (\<exists>bs. heap_rep s (heap_base (hp s)) bs \<and> span bs = heap_bytes (hp s) \<and>
     R = payloads (heap_base (hp s)) bs)"

section \<open>The contract of an allocator\<close>

text \<open>
  A client of the allocator: it requests blocks, stores words at aligned offsets of the blocks it
  owns and gives blocks back, naming a block by its position among the live ones. Each slot
  remembers the pointer, the requested size and the words stored so far.
\<close>

datatype req = Alloc nat | Store nat nat nat | Release nat

type_synonym slot = "nat \<times> nat \<times> (nat \<rightharpoonup> nat)"

fun client_step :: "('s \<Rightarrow> nat \<Rightarrow> (nat \<times> 's) option) \<Rightarrow> ('s \<Rightarrow> nat \<Rightarrow> 's option) \<Rightarrow>
    ('s \<Rightarrow> nat \<Rightarrow> nat \<Rightarrow> 's) \<Rightarrow> req \<Rightarrow> 's \<times> slot list \<Rightarrow> ('s \<times> slot list) option" where
  "client_step malloc free store (Alloc w) (s, L) = do {
     (p, s') \<leftarrow> malloc s w;
     Some (s', if p = 0 then L else L @ [(p, w, Map.empty)]) }"
| "client_step malloc free store (Store i off v) (s, L) =
     (if i < length L
      then (case L ! i of (p, w, f) \<Rightarrow>
        if 4 dvd off \<and> off + 4 \<le> w then Some (store s (p + off) v, L[i := (p, w, f(off \<mapsto> v))]) else Some (s, L))
      else Some (s, L))"
| "client_step malloc free store (Release i) (s, L) =
     (if i < length L then do { s' \<leftarrow> free s (fst (L ! i)); Some (s', take i L @ drop (Suc i) L) }
      else Some (s, L))"

fun client_run :: "('s \<Rightarrow> nat \<Rightarrow> (nat \<times> 's) option) \<Rightarrow> ('s \<Rightarrow> nat \<Rightarrow> 's option) \<Rightarrow>
    ('s \<Rightarrow> nat \<Rightarrow> nat \<Rightarrow> 's) \<Rightarrow> req list \<Rightarrow> 's \<times> slot list \<Rightarrow> ('s \<times> slot list) option" where
  "client_run malloc free store [] c = Some c"
| "client_run malloc free store (r # rs) c = do {
     c' \<leftarrow> client_step malloc free store r c;
     client_run malloc free store rs c' }"

fun req_ok :: "req \<Rightarrow> bool" where
  "req_ok (Alloc w) \<longleftrightarrow> w < 2 ^ 32"
| "req_ok _ \<longleftrightarrow> True"

definition apart :: "nat \<times> nat \<Rightarrow> nat \<times> nat \<Rightarrow> bool" where
  "apart r r' \<longleftrightarrow> fst r + snd r \<le> fst r' \<or> fst r' + snd r' \<le> fst r"

locale allocator =
  fixes rep :: "'s \<Rightarrow> (nat \<times> nat) set \<Rightarrow> bool"
    and read :: "'s \<Rightarrow> nat \<Rightarrow> nat"
    and store :: "'s \<Rightarrow> nat \<Rightarrow> nat \<Rightarrow> 's"
    and malloc :: "'s \<Rightarrow> nat \<Rightarrow> (nat \<times> 's) option"
    and free :: "'s \<Rightarrow> nat \<Rightarrow> 's option"
  assumes region_aligned: "rep s R \<Longrightarrow> (p, n) \<in> R \<Longrightarrow> 0 < p \<and> 4 dvd p"
    and region_apart: "rep s R \<Longrightarrow> (p, n) \<in> R \<Longrightarrow> (q, k) \<in> R \<Longrightarrow> p = q \<and> n = k \<or> p \<noteq> q \<and> apart (p, n) (q, k)"
    and malloc_law: "rep s R \<Longrightarrow> w < 2 ^ 32 \<Longrightarrow> \<exists>p s'. malloc s w = Some (p, s') \<and>
      (p = 0 \<and> s' = s \<or> (\<exists>n. w \<le> n \<and> 0 < p \<and> p \<notin> fst ` R \<and> rep s' (insert (p, n) R) \<and>
        (\<forall>(q, k) \<in> R. \<forall>c. q \<le> c \<and> c < q + k \<longrightarrow> read s' c = read s c)))"
    and free_law: "rep s R \<Longrightarrow> (p, n) \<in> R \<Longrightarrow> \<exists>s'. free s p = Some s' \<and> rep s' (R - {(p, n)}) \<and>
        (\<forall>(q, k) \<in> R - {(p, n)}. \<forall>c. q \<le> c \<and> c < q + k \<longrightarrow> read s' c = read s c)"
    and store_law: "rep s R \<Longrightarrow> (p, n) \<in> R \<Longrightarrow> p \<le> c \<Longrightarrow> c + 4 \<le> p + n \<Longrightarrow> 4 dvd c \<Longrightarrow>
      rep (store s c v) R \<and> (\<forall>d. read (store s c v) d = (if d = c then v else read s d))"
begin

definition slot_ok :: "'s \<Rightarrow> (nat \<times> nat) set \<Rightarrow> slot \<Rightarrow> bool" where
  "slot_ok s R = (\<lambda>(p, w, f). \<exists>n. w \<le> n \<and> (p, n) \<in> R \<and>
     (\<forall>off v. f off = Some v \<longrightarrow> 4 dvd off \<and> off + 4 \<le> w \<and> read s (p + off) = v))"

definition client_inv :: "'s \<Rightarrow> slot list \<Rightarrow> (nat \<times> nat) set \<Rightarrow> bool" where
  "client_inv s L R \<longleftrightarrow> rep s R \<and> distinct (map fst L) \<and> fst ` set L = fst ` R \<and> (\<forall>x \<in> set L. slot_ok s R x)"

lemma slot_ok_mono:
  assumes "slot_ok s R x" "\<And>n. (fst x, n) \<in> R \<Longrightarrow> (fst x, n) \<in> R'"
    and keep: "\<And>n c. (fst x, n) \<in> R \<Longrightarrow> fst x \<le> c \<Longrightarrow> c < fst x + n \<Longrightarrow> read s' c = read s c"
  shows "slot_ok s' R' x"
proof -
  obtain p w f where x: "x = (p, w, f)" by (cases x)
  from assms(1) obtain n where n: "w \<le> n" "(p, n) \<in> R"
    and f: "\<And>off v. f off = Some v \<Longrightarrow> 4 dvd off \<and> off + 4 \<le> w \<and> read s (p + off) = v"
    by (auto simp: slot_ok_def x)
  have "read s' (p + off) = read s (p + off)" if "f off = Some v" for off v
    using keep [of n "p + off"] n f [OF that] by (simp add: x)
  with n f assms(2) show ?thesis by (auto simp: slot_ok_def x)
qed

lemma step_alloc:
  assumes inv: "client_inv s L R" and w: "w < 2 ^ 32"
  shows "\<exists>s' L' R'. client_step malloc free store (Alloc w) (s, L) = Some (s', L') \<and> client_inv s' L' R'"
proof -
  from malloc_law [of s R w] inv w obtain p s' where m: "malloc s w = Some (p, s')"
    and c: "p = 0 \<and> s' = s \<or> (\<exists>n. w \<le> n \<and> 0 < p \<and> p \<notin> fst ` R \<and> rep s' (insert (p, n) R) \<and>
        (\<forall>(q, k) \<in> R. \<forall>c. q \<le> c \<and> c < q + k \<longrightarrow> read s' c = read s c))"
    by (auto simp: client_inv_def)
  show ?thesis
  proof (cases "p = 0")
    case True
    with m c inv show ?thesis by auto
  next
    case False
    with c obtain n where n: "w \<le> n" "p \<notin> fst ` R" "rep s' (insert (p, n) R)"
      and keep: "\<And>q k c. (q, k) \<in> R \<Longrightarrow> q \<le> c \<Longrightarrow> c < q + k \<Longrightarrow> read s' c = read s c" by blast
    have "slot_ok s' (insert (p, n) R) x" if "x \<in> set L" for x
      using slot_ok_mono [of s R x "insert (p, n) R" s'] inv that keep by (auto simp: client_inv_def)
    moreover have "slot_ok s' (insert (p, n) R) (p, w, Map.empty)" using n by (auto simp: slot_ok_def)
    moreover have "p \<notin> fst ` set L" using n(2) inv by (auto simp: client_inv_def)
    ultimately have "client_inv s' (L @ [(p, w, Map.empty)]) (insert (p, n) R)"
      using n inv by (auto simp: client_inv_def)
    with m False show ?thesis by auto
  qed
qed

lemma step_store:
  assumes inv: "client_inv s L R"
  shows "\<exists>s' L' R'. client_step malloc free store (Store i off v) (s, L) = Some (s', L') \<and> client_inv s' L' R'"
proof (cases "i < length L \<and> 4 dvd off \<and> off + 4 \<le> fst (snd (L ! i))")
  case False
  then show ?thesis using inv by (auto split: prod.splits)
next
  case True
  obtain p w f where x: "L ! i = (p, w, f)" by (cases "L ! i")
  let ?s = "store s (p + off) v"
  have i: "(p, w, f) \<in> set L" using True x nth_mem [of i L] by simp
  with inv obtain n where n: "w \<le> n" "(p, n) \<in> R"
    and f: "\<And>o' u. f o' = Some u \<Longrightarrow> 4 dvd o' \<and> o' + 4 \<le> w \<and> read s (p + o') = u" and R: "rep s R"
    by (auto simp: client_inv_def slot_ok_def)
  have "4 dvd p + off" using True region_aligned [OF R n(2)] by simp
  with store_law [OF R n(2), of "p + off" v] True n x have st: "rep ?s R"
    "\<And>d. read ?s d = (if d = p + off then v else read s d)" by auto
  have new: "slot_ok ?s R (p, w, f(off \<mapsto> v))" using n f st True x by (auto simp: slot_ok_def split: if_splits)
  have old: "slot_ok ?s R y" if y: "y \<in> set L" "fst y \<noteq> p" for y
  proof (rule slot_ok_mono)
    show "slot_ok s R y" using inv y by (simp add: client_inv_def)
    fix k c assume k: "(fst y, k) \<in> R" "fst y \<le> c" "c < fst y + k"
    with region_apart [OF R n(2) k(1)] y(2) True n(1) x have "c \<noteq> p + off" by (auto simp: apart_def)
    then show "read ?s c = read s c" by (simp add: st)
  qed
  have fst_upd: "map fst (L[i := (p, w, f(off \<mapsto> v))]) = map fst L"
    using True x by (simp add: map_update) (metis fst_conv list_update_id nth_map)
  have "slot_ok ?s R y" if "y \<in> set (L[i := (p, w, f(off \<mapsto> v))])" for y
  proof -
    from that obtain j where j: "j < length L" "y = L[i := (p, w, f(off \<mapsto> v))] ! j"
      by (metis in_set_conv_nth length_list_update)
    show ?thesis
    proof (cases "j = i")
      case False
      with j have "y = L ! j" by simp
      moreover have "fst (L ! j) \<noteq> p"
        using False j True x inv nth_eq_iff_index_eq [of "map fst L" j i] by (simp add: client_inv_def)
      ultimately show ?thesis using old j by simp
    qed (use j new in simp)
  qed
  then have "client_inv ?s (L[i := (p, w, f(off \<mapsto> v))]) R"
    using inv st(1) fst_upd unfolding client_inv_def by (metis image_set)
  with True x show ?thesis by auto
qed

lemma step_release:
  assumes inv: "client_inv s L R"
  shows "\<exists>s' L' R'. client_step malloc free store (Release i) (s, L) = Some (s', L') \<and> client_inv s' L' R'"
proof (cases "i < length L")
  case True
  let ?x = "L ! i" let ?L = "take i L @ drop (Suc i) L"
  have L: "L = take i L @ ?x # drop (Suc i) L" using True by (rule id_take_nth_drop)
  have D: "distinct (map fst (take i L @ ?x # drop (Suc i) L))" using inv L by (simp add: client_inv_def)
  then have nin: "fst ?x \<notin> fst ` set ?L" by (simp add: image_Un)
  have R: "rep s R" and "fst ?x \<in> fst ` R" using inv True by (auto simp: client_inv_def intro!: imageI)
  then obtain n where n: "(fst ?x, n) \<in> R" by force
  from free_law [OF R n] obtain s' where s': "free s (fst ?x) = Some s'" "rep s' (R - {(fst ?x, n)})"
    and keep: "\<And>q k c. (q, k) \<in> R - {(fst ?x, n)} \<Longrightarrow> q \<le> c \<Longrightarrow> c < q + k \<Longrightarrow> read s' c = read s c" by blast
  have uniq: "k = n" if "(fst ?x, k) \<in> R" for k using region_apart [OF R n that] by auto
  have "slot_ok s' (R - {(fst ?x, n)}) y" if y: "y \<in> set ?L" for y
  proof (rule slot_ok_mono)
    have "y \<in> set L" using y in_set_takeD in_set_dropD by fastforce
    then show "slot_ok s R y" using inv by (simp add: client_inv_def)
    have "fst y \<noteq> fst ?x" using nin imageI [OF y, of fst] by metis
    then show "(fst y, k) \<in> R - {(fst ?x, n)}" if "(fst y, k) \<in> R" for k using that by auto
    then show "read s' c = read s c" if "(fst y, k) \<in> R" "fst y \<le> c" "c < fst y + k" for k c
      using keep that by blast
  qed
  moreover have "fst ` set ?L = fst ` (R - {(fst ?x, n)})"
  proof -
    have "insert (fst ?x) (fst ` set ?L) = fst ` set L" using L by (metis (no_types, lifting) Un_insert_right image_insert list.simps(15) set_append)
    also have "\<dots> = fst ` R" using inv by (simp add: client_inv_def)
    also have "\<dots> = insert (fst ?x) (fst ` (R - {(fst ?x, n)}))" using n by force
    finally have "insert (fst ?x) (fst ` set ?L) = insert (fst ?x) (fst ` (R - {(fst ?x, n)}))" .
    moreover have "fst ?x \<notin> fst ` (R - {(fst ?x, n)})" using uniq by fastforce
    ultimately show ?thesis using nin insert_ident by metis
  qed
  ultimately have "client_inv s' ?L (R - {(fst ?x, n)})" using s'(2) D by (auto simp: client_inv_def)
  with True s'(1) show ?thesis by auto
qed (use inv in auto)

lemma client_safe:
  assumes "client_inv s L R" "\<forall>r \<in> set rs. req_ok r"
  shows "\<exists>s' L' R'. client_run malloc free store rs (s, L) = Some (s', L') \<and> client_inv s' L' R'"
  using assms
proof (induction rs arbitrary: s L R)
  case Nil
  then show ?case by auto
next
  case (Cons r rs)
  have "\<exists>s' L' R'. client_step malloc free store r (s, L) = Some (s', L') \<and> client_inv s' L' R'"
    using Cons.prems step_alloc step_store step_release by (cases r) auto
  then obtain s' L' R' where "client_step malloc free store r (s, L) = Some (s', L')" "client_inv s' L' R'"
    by blast
  with Cons.IH [of s' L' R'] Cons.prems show ?case by auto
qed

end

section \<open>The statistics of the unmodified allocator\<close>

text \<open>\<^verbatim>\<open>vPortGetHeapStats\<close> of \<^verbatim>\<open>original_heap_4.c\<close> counts with a do-while loop; \<^verbatim>\<open>heap.c\<close> replaced it.\<close>

partial_function (option) orig_stats_loop ::
  "memory \<Rightarrow> nat \<Rightarrow> nat \<Rightarrow> nat \<Rightarrow> nat \<Rightarrow> nat \<Rightarrow> (nat \<times> nat \<times> nat) option" where
  "orig_stats_loop m e pxBlock xBlocks xMaxSize xMinSize = do {
     sz \<leftarrow> rd_size m pxBlock;
     let xBlocks' = add32 xBlocks 1;
     let xMaxSize' = (if sz > xMaxSize then sz else xMaxSize);
     let xMinSize' = (if sz < xMinSize then sz else xMinSize);
     nx \<leftarrow> rd_next m pxBlock;
     if nx \<noteq> e then orig_stats_loop m e nx xBlocks' xMaxSize' xMinSize'
     else Some (xBlocks', xMaxSize', xMinSize') }"

definition orig_vPortGetHeapStats :: "hstate \<Rightarrow> HeapStats_t option" where
  "orig_vPortGetHeapStats s = do {
     first \<leftarrow> rd_next (mem s) (xStart_p (hp s));
     (xBlocks, xMaxSize, xMinSize) \<leftarrow>
       (if first \<noteq> 0 then orig_stats_loop (mem s) (pxEnd (hp s)) first 0 0 portMAX_DELAY
        else Some (0, 0, portMAX_DELAY));
     Some \<lparr>st_available = xFreeBytesRemaining (hp s), st_largest = xMaxSize, st_smallest = xMinSize,
           st_blocks = xBlocks, st_minimum_ever = xMinimumEverFreeBytesRemaining (hp s),
           st_allocs = xNumberOfSuccessfulAllocations (hp s),
           st_frees = xNumberOfSuccessfulFrees (hp s)\<rparr> }"

section \<open>A sample heap\<close>

text \<open>A 64-byte array at a misaligned address, as \<^term>\<open>HeapInit\<close> leaves it, and before that.\<close>

definition demo_cfg :: hstate where
  "demo_cfg = \<lparr>hp = \<lparr>configTOTAL_HEAP_SIZE = 64, ucHeap = 4098, HEAP = 0, namep = ''name0'', xStart_p = 256,
     pxEnd = 0, xFreeBytesRemaining = 0, xMinimumEverFreeBytesRemaining = 0,
     xNumberOfSuccessfulAllocations = 0, xNumberOfSuccessfulFrees = 0\<rparr>, mem = (\<lambda>_. 0), xBlockAllocatedBit = 0\<rparr>"

definition demo_heap :: hstate where
  "demo_heap = \<lparr>hp = (hp demo_cfg)\<lparr>pxEnd := 4152, xFreeBytesRemaining := 52,
     xMinimumEverFreeBytesRemaining := 52\<rparr>, mem = (\<lambda>_. 0)(256 := 4100, 4104 := 52, 4100 := 4152),
     xBlockAllocatedBit = 2 ^ 31\<rparr>"

section \<open>Words owned by the application\<close>

definition hread :: "hstate \<Rightarrow> nat \<Rightarrow> nat" where
  "hread s c = mem s c"

definition hstore :: "hstate \<Rightarrow> nat \<Rightarrow> nat \<Rightarrow> hstate" where
  "hstore s c v = s\<lparr>mem := (mem s)(c := v)\<rparr>"

lemma owned_split:
  "(x, n) \<in> set (owned a bs) \<Longrightarrow> \<exists>pre post. bs = pre @ (n, True) # post \<and> x = a + span pre"
proof (induction bs arbitrary: a rule: span.induct)
  case (2 k u bs)
  show ?case
  proof (cases "u \<and> (x, n) = (a, k)")
    case True
    then show ?thesis by (intro exI [of _ "[]"] exI [of _ bs]) auto
  next
    case False
    with "2.prems" have "(x, n) \<in> set (owned (a + k) bs)" by (auto split: if_splits)
    from "2.IH" [OF this] obtain pre post where "bs = pre @ (n, True) # post" "x = a + k + span pre" by blast
    then show ?thesis by (intro exI [of _ "(k, u) # pre"] exI [of _ post]) auto
  qed
qed simp

lemma owned_apart:
  assumes "wf_blocks bs" "(x, n) \<in> set (owned a bs)" "(y, k) \<in> set (owned a bs)"
  shows "x = y \<and> n = k \<or> x + n \<le> y \<or> y + k \<le> x"
proof -
  from owned_split [OF assms(2)] obtain pre post where bs: "bs = pre @ (n, True) # post" "x = a + span pre"
    by blast
  with assms(3) have "(y, k) \<in> set (owned a pre) \<or> (y, k) = (x, n) \<or> (y, k) \<in> set (owned (x + n) post)"
    by auto
  with owned_bounds [of pre y k a] owned_bounds [of post y k "x + n"] assms(1) bs show ?thesis by auto
qed

lemma payloadsE:
  assumes "(p, n) \<in> payloads a bs" "wf_blocks bs"
  obtains pre post where "bs = pre @ (n + 8, True) # post" "p = a + span pre + 8"
proof -
  from assms(1) obtain x k where x: "(x, k) \<in> set (owned a bs)" "p = x + 8" "n = k - 8"
    by (auto simp: payloads_def)
  then have "k = n + 8" using owned_bounds [OF assms(2) x(1)] by simp
  with owned_split [OF x(1)] x(2) that show ?thesis by blast
qed

lemma heap_rep_hstore:
  assumes rep: "heap_rep s a (pre @ (n, True) # post)" and c: "a + span pre + 8 \<le> c" "c < a + span pre + n"
  shows "heap_rep (hstore s c v) a (pre @ (n, True) # post)"
proof -
  note R = heap_repD [OF rep]
  let ?m = "mem s" let ?xs = "xStart_p (hp s)" let ?b = "a + span pre" let ?e = "a + span (pre @ (n, True) # post)"
  have lb: "lastp ?xs a pre = ?xs \<or> (a \<le> lastp ?xs a pre \<and> lastp ?xs a pre + 8 \<le> ?b)"
    using lastp_bounds R(10) by auto
  have F: "fp ?m ?xs a pre" "fl ?m (lastp ?xs a pre) (?b + n) post ?e" using R(12) by (auto simp: fl_append)
  have "fp (?m(c := v)) ?xs a pre"
    using F(1) fp_frame [of pre ?xs a "?m(c := v)" ?m] R(9,10) c by (auto simp: fun_upd_def)
  moreover have "fl (?m(c := v)) (lastp ?xs a pre) (?b + n) post ?e = fl ?m (lastp ?xs a pre) (?b + n) post ?e"
    using lb R(9,10) c by (intro fl_frame) auto
  moreover have "ub (?m(c := v)) a pre = ub ?m a pre" "ub (?m(c := v)) (?b + n) post = ub ?m (?b + n) post"
    using owned_bounds [of pre _ _ a] owned_bounds [of post _ _ "?b + n"] R(10) c
    by (intro ub_frame; fastforce)+
  moreover have "c \<noteq> ?xs + 4" "c \<noteq> ?e" "c \<noteq> ?e + 4" "c \<noteq> ?b" "c \<noteq> ?b + 4" using R(9) c by auto
  ultimately show ?thesis
    using R F(2) by (simp add: heap_rep_def Let_def hstore_def fl_append)
qed

section \<open>Allocation\<close>

lemma block_size_facts: "w < 2 ^ 31 \<Longrightarrow> 8 \<le> block_size w \<and> 4 dvd block_size w \<and> w + 8 \<le> block_size w"
  unfolding block_size_def by presburger

lemma PortMalloc_refused:
  assumes rep: "heap_rep s a bs" and w: "w = 0 \<or> 2 ^ 31 \<le> w \<and> w < 2 ^ 32 \<or>
    w < 2 ^ 31 \<and> alloc_first (block_size w) bs = None"
  shows "PortMalloc s w = Some (0, s)"
proof -
  note R = heap_repD [OF rep]
  have e: "pxEnd (hp s) \<noteq> 0" using R(2,4) by simp
  consider "w = 0" | "2 ^ 31 \<le> w" "w < 2 ^ 32" | "0 < w" "w < 2 ^ 31" "alloc_first (block_size w) bs = None"
    using w by auto
  then show ?thesis
  proof cases
    case 1
    then show ?thesis using e by (simp add: PortMalloc_def malloc_adjust_def)
  next
    case 2
    then have "w AND xBlockAllocatedBit s \<noteq> 0" using R(1) high_bit31 by simp
    then show ?thesis using e by (simp add: PortMalloc_def)
  next
    case 3
    have "w AND xBlockAllocatedBit s = 0" using R(1) and_bit31 [OF 3(2)] by simp
    moreover have "malloc_adjust w = Some (block_size w)"
      using malloc_adjust_eval [OF 3(2)] 3(1) by (simp add: block_size_def)
    moreover have "find_fit (mem s) (xStart_p (hp s)) (mem s (xStart_p (hp s))) (block_size w) =
        Some (lastp (xStart_p (hp s)) a bs, pxEnd (hp s))"
      using find_fit_none [OF R(12,2) _ refl R(15,16)] 3(3) R(2,4) by (simp add: alloc_first_None)
    ultimately show ?thesis using e R(7) by (simp add: PortMalloc_def)
  qed
qed

lemma PortMalloc_taken:
  assumes rep: "heap_rep s a (pre @ (n, False) # post)" and w: "0 < w" "w < 2 ^ 31" "block_size w \<le> n"
    and first: "\<forall>(k, u) \<in> set pre. \<not> u \<longrightarrow> k < block_size w"
  shows "PortMalloc s w = malloc_take s (lastp (xStart_p (hp s)) a pre) (a + span pre) (block_size w)"
proof -
  note R = heap_repD [OF rep]
  note B = block_size_facts [OF w(2)]
  obtain s' where t: "malloc_take s (lastp (xStart_p (hp s)) a pre) (a + span pre) (block_size w) =
      Some (a + span pre + 8, s')"
    using malloc_take_rep [OF rep _ _ w(3)] B by blast
  have "w AND xBlockAllocatedBit s = 0" using R(1) and_bit31 [OF w(2)] by simp
  moreover have "malloc_adjust w = Some (block_size w)"
    using malloc_adjust_eval [OF w(2)] w(1) by (simp add: block_size_def)
  moreover have "find_fit (mem s) (xStart_p (hp s)) (mem s (xStart_p (hp s))) (block_size w) =
      Some (lastp (xStart_p (hp s)) a pre, a + span pre)"
    using find_fit_ok [OF R(12) _ _ R(2) w(3) _ first] R(10) by (simp add: add.assoc)
  moreover have "(a + span pre + 8) AND 3 = 0"
    using R(3,10) span_dvd [of pre] by (simp add: and_3)
  moreover have "pxEnd (hp s) \<noteq> 0" "a + span pre \<noteq> pxEnd (hp s)" "block_size w \<le> xFreeBytesRemaining (hp s)"
    "0 < block_size w"
    using R(2,4,10,17) w(3) B by auto
  ultimately show ?thesis using t R(7) by (simp add: PortMalloc_def)
qed

section \<open>Initialisation\<close>

lemma sub32_add32: "a + b \<le> 2 ^ 32 \<Longrightarrow> 0 < c \<Longrightarrow> c \<le> a + b \<Longrightarrow> sub32 (add32 a b) c = a + b - c"
  by (cases "a + b = 2 ^ 32") (simp_all add: add32_def sub32_def sub_mod_gen)

lemma heap_layout:
  assumes "cfg_ok h"
  shows "ucHeap h \<le> heap_base h" "heap_base h \<le> ucHeap h + 3" "4 dvd heap_base h" "4 dvd heap_bytes h"
    "8 \<le> heap_bytes h" "heap_base h + heap_bytes h + 8 \<le> ucHeap h + configTOTAL_HEAP_SIZE h"
    "ucHeap h + configTOTAL_HEAP_SIZE h < heap_base h + heap_bytes h + 12"
    "heap_base h + heap_bytes h = 4 * ((ucHeap h + configTOTAL_HEAP_SIZE h) div 4) - 8"
proof -
  let ?t = "ucHeap h + configTOTAL_HEAP_SIZE h"
  have q: "4 * (?t div 4) \<le> ?t" "?t < 4 * (?t div 4) + 4" by presburger+
  show p: "ucHeap h \<le> heap_base h" "heap_base h \<le> ucHeap h + 3" "4 dvd heap_base h"
    unfolding heap_base_def by presburger+
  show "4 dvd heap_bytes h" unfolding heap_bytes_def heap_base_def by (intro dvd_diff_nat) simp_all
  have "22 \<le> configTOTAL_HEAP_SIZE h" using assms by (simp add: cfg_ok_def)
  with p q show "8 \<le> heap_bytes h" "heap_base h + heap_bytes h + 8 \<le> ?t" "?t < heap_base h + heap_bytes h + 12"
    "heap_base h + heap_bytes h = 4 * (?t div 4) - 8"
    unfolding heap_bytes_def by linarith+
qed

lemma round_down_minus8: "8 \<le> x \<Longrightarrow> x - 8 - (x - 8) mod 4 = 4 * (x div 4) - (8::nat)"
proof -
  assume "8 \<le> x"
  then obtain y where "x = y + 4 * 2" using le_add_diff_inverse2 [of 8 x] by (metis add.commute mult_2_right numeral_Bit0)
  moreover have "(y + 8) div 4 = y div 4 + 2" by presburger
  ultimately show ?thesis by (simp add: minus_mod_eq_mult_div)
qed

lemma HeapInit_run:
  assumes "cfg_ok (hp s)"
  defines "a \<equiv> heap_base (hp s)" and "n \<equiv> heap_bytes (hp s)" and "xs \<equiv> xStart_p (hp s)"
  shows "HeapInit s = Some (s\<lparr>hp := (hp s)\<lparr>pxEnd := a + n, xMinimumEverFreeBytesRemaining := n,
      xFreeBytesRemaining := n\<rparr>, mem := (mem s)(xs := a, xs + 4 := 0, a + n + 4 := 0, a + n := 0,
      a + 4 := n, a := a + n), xBlockAllocatedBit := 2 ^ 31\<rparr>)"
proof -
  note L = heap_layout [OF assms(1), folded a_def n_def]
  let ?u = "ucHeap (hp s)" let ?c = "configTOTAL_HEAP_SIZE (hp s)"
  have C: "0 < ?u" "?u + ?c \<le> 2 ^ 32" "22 \<le> ?c" "0 < xs" using assms(1) by (simp_all add: cfg_ok_def xs_def)
  have al: "and_not32 (add32 ?u 3) 3 = a" if "?u mod 4 \<noteq> 0"
    using C by (simp add: add32_small and_not32_3 a_def heap_base_def minus_mod_eq_mult_div)
  have tot: "sub32 ?c (sub32 a ?u) = ?u + ?c - a"
    using L(1,2) C by (subst sub32_small; (subst sub32_small)?) auto
  have "a = ?u" if "?u mod 4 = 0" using that unfolding a_def heap_base_def by presburger
  have "sub32 (add32 a (?u + ?c - a)) 8 = ?u + ?c - 8"
    using sub32_add32 [of a "?u + ?c - a" 8] L(1,2) C by simp
  then have ux: "and_not32 (sub32 (add32 a (?u + ?c - a)) 8) 3 = a + n"
    using C round_down_minus8 [of "?u + ?c"] unfolding L(8) by (simp add: and_not32_3)
  have sz: "sub32 (a + n) a = n" using L(6) C by (simp add: sub32_small)
  show ?thesis
  proof (cases "?u mod 4 = 0")
    case True
    with \<open>_ \<Longrightarrow> a = ?u\<close> have "a = ?u" by simp
    then have ux': "and_not32 (sub32 (add32 a ?c) 8) 3 = a + n" using ux by simp
    show ?thesis using True ux' sz C L(1,5) \<open>a = ?u\<close> 
      by (simp add: HeapInit_def Let_def and_3 xs_def [symmetric] push_bit_eq_mult)
  next
    case False
    then show ?thesis using al tot ux sz C L(1,5)
      by (simp add: HeapInit_def Let_def and_3 xs_def [symmetric] push_bit_eq_mult)
  qed
qed

lemma HeapInit_rep:
  assumes c: "cfg_ok (hp s)"
  shows "\<exists>s'. HeapInit s = Some s' \<and> heap_rep s' (heap_base (hp s)) [(heap_bytes (hp s), False)] \<and>
    hp s' = (hp s)\<lparr>pxEnd := heap_base (hp s) + heap_bytes (hp s),
      xFreeBytesRemaining := heap_bytes (hp s), xMinimumEverFreeBytesRemaining := heap_bytes (hp s)\<rparr>"
proof -
  note L = heap_layout [OF c] and C = c [unfolded cfg_ok_def]
  let ?a = "heap_base (hp s)" let ?n = "heap_bytes (hp s)" let ?x = "xStart_p (hp s)"
  have d: "?x + 8 \<le> ?a \<or> ?a + ?n + 8 \<le> ?x" using L(1,6) C by linarith
  then have ne: "?x \<noteq> ?a" "?x \<noteq> ?a + 4" "?x \<noteq> ?a + ?n" "?x \<noteq> ?a + ?n + 4" "?x + 4 \<noteq> ?a"
      "?x + 4 \<noteq> ?a + ?n" "?n \<noteq> 0" "?n \<noteq> 4"
    using L(5) by linarith+
  have b: "0 < ?a" "?a + ?n + 8 \<le> 2 ^ 32" "?n < 2 ^ 31" "0 < ?x" "?x < 2 ^ 32" using L(1,2,6) C by linarith+
  show ?thesis unfolding HeapInit_run [OF c]
    using L(3-5) d ne b by (simp add: heap_rep_def Let_def)
qed

section \<open>Statistics\<close>

lemma stats_loop_walk:
  assumes "fl m p a bs e" "wf_blocks bs" "0 < a" "e = a + span bs" "k + length bs < 2 ^ 32"
  shows "stats_loop m e (m p) k mx mn = Some (k + length (free_sizes bs),
    fold max (free_sizes bs) mx, fold min (free_sizes bs) mn)"
  using assms
proof (induction bs arbitrary: a p k mx mn rule: span.induct)
  case 1
  then show ?case by (simp add: stats_loop.simps free_sizes_def)
next
  case (2 n u bs)
  show ?case
  proof (cases u)
    case True
    then show ?thesis using "2.IH" [of p "a + n" k] "2.prems" by (simp add: add.assoc free_sizes_def)
  next
    case False
    then have m: "m p = a" "m (a + 4) = n" "fl m a (a + n) bs e" "a \<noteq> e" using "2.prems" by auto
    have "(if n > mx then n else mx) = max n mx" "(if n < mn then n else mn) = min n mn" by auto
    with m "2.prems"(3,5) have "stats_loop m e a k mx mn = stats_loop m e (m a) (k + 1) (max n mx) (min n mn)"
      by (subst stats_loop.simps) (simp add: add32_small)
    with "2.IH" [of a "a + n" "k + 1" "max n mx" "min n mn"] m "2.prems" False show ?thesis
      by (simp add: free_sizes_def add.assoc)
  qed
qed

lemma blocks_length: "wf_blocks bs \<Longrightarrow> 8 * length bs \<le> span bs"
  by (induction bs rule: span.induct) auto

section \<open>The contract holds\<close>

lemma owned_taken:
  "\<exists>z. w \<le> z \<and> owned a (taken pre n w post) = owned a pre @ (a + span pre, z) # owned (a + span pre + n) post"
  if "w \<le> n"
  using that by (cases "n - w > 16") (auto simp: taken_def add.assoc)

lemma span_taken: "w \<le> n \<Longrightarrow> span (taken pre n w post) = span pre + n + span post"
  by (simp add: taken_def)

lemma live_region:
  assumes "live s R" "(p, n) \<in> R"
  obtains pre post where "heap_rep s (heap_base (hp s)) (pre @ (n + 8, True) # post)"
    "p = heap_base (hp s) + span pre + 8" "R = payloads (heap_base (hp s)) (pre @ (n + 8, True) # post)"
    "span (pre @ (n + 8, True) # post) = heap_bytes (hp s)"
proof -
  from assms(1) obtain bs where bs: "heap_rep s (heap_base (hp s)) bs" "span bs = heap_bytes (hp s)"
    "R = payloads (heap_base (hp s)) bs" by (auto simp: live_def)
  with payloadsE [of p n "heap_base (hp s)" bs] assms(2) heap_repD(10) [OF bs(1)] that show ?thesis by metis
qed

lemma keeps_payloads:
  assumes "keeps m m' os" "(q, k) \<in> (\<lambda>(x, n). (x + 8, n - 8)) ` set os" "q \<le> c" "c < q + k"
  shows "m' c = m c"
proof -
  from assms(2) obtain x n where "(x, n) \<in> set os" "q = x + 8" "k = n - 8" by auto
  with keepsD [OF assms(1), of x n c] assms(3,4) show ?thesis by simp
qed

lemma live_apart:
  assumes "live s R" "(p, n) \<in> R" "(q, k) \<in> R"
  shows "p = q \<and> n = k \<or> p \<noteq> q \<and> apart (p, n) (q, k)"
proof -
  from assms obtain bs where bs: "heap_rep s (heap_base (hp s)) bs" "R = payloads (heap_base (hp s)) bs"
    by (auto simp: live_def)
  note W = heap_repD(10) [OF bs(1)]
  from assms(2,3) bs(2) obtain x i y j where x: "(x, i) \<in> set (owned (heap_base (hp s)) bs)" "p = x + 8" "n = i - 8"
    and y: "(y, j) \<in> set (owned (heap_base (hp s)) bs)" "q = y + 8" "k = j - 8" by (auto simp: payloads_def)
  from owned_apart [OF W x(1) y(1)] owned_bounds [OF W x(1)] owned_bounds [OF W y(1)] x y show ?thesis
    by (auto simp: apart_def)
qed

lemma live_malloc:
  assumes "live s R" "w < 2 ^ 32"
  shows "\<exists>p s'. PortMalloc s w = Some (p, s') \<and>
      (p = 0 \<and> s' = s \<or> (\<exists>n. w \<le> n \<and> 0 < p \<and> p \<notin> fst ` R \<and> live s' (insert (p, n) R) \<and>
        (\<forall>(q, k) \<in> R. \<forall>c. q \<le> c \<and> c < q + k \<longrightarrow> hread s' c = hread s c)))"
proof -
  let ?a = "heap_base (hp s)"
  from assms(1) obtain bs where bs: "heap_rep s ?a bs" "span bs = heap_bytes (hp s)" "R = payloads ?a bs"
    by (auto simp: live_def)
  show ?thesis
  proof (cases "w = 0 \<or> 2 ^ 31 \<le> w \<or> alloc_first (block_size w) bs = None")
    case True
    then have "PortMalloc s w = Some (0, s)"
      using PortMalloc_refused [OF bs(1), of w] assms(2) leI [of w "2 ^ 31"] by blast
    then show ?thesis by blast
  next
    case False
    then obtain bs' where w: "0 < w" "w < 2 ^ 31" and a: "alloc_first (block_size w) bs = Some bs'" by auto
    from a obtain pre n post where p: "bs = pre @ (n, False) # post" "block_size w \<le> n"
      "\<forall>(k, u) \<in> set pre. \<not> u \<longrightarrow> k < block_size w" by (rule alloc_first_Some)
    note B = block_size_facts [OF w(2)] and rep = bs(1) [unfolded p(1)]
    let ?b = "?a + span pre"
    from malloc_take_rep [OF rep _ _ p(2)] B PortMalloc_taken [OF rep w p(2,3)]
    obtain s' where s': "PortMalloc s w = Some (?b + 8, s')" "heap_rep s' ?a (taken pre n (block_size w) post)"
      "keeps (mem s) (mem s') (owned ?a pre @ owned (?b + n) post)" and h: "heap_base (hp s') = ?a"
      "heap_bytes (hp s') = heap_bytes (hp s)" by (auto simp: heap_base_def heap_bytes_def)
    from owned_taken [OF p(2)] obtain z where z: "block_size w \<le> z"
      "owned ?a (taken pre n (block_size w) post) = owned ?a pre @ (?b, z) # owned (?b + n) post" by blast
    have R: "R = (\<lambda>(x, n). (x + 8, n - 8)) ` set (owned ?a pre @ owned (?b + n) post)"
      using bs(3) by (simp add: payloads_def p(1))
    have "live s' (insert (?b + 8, z - 8) R)"
      using s'(2) bs(2) h span_taken [OF p(2)] z(2)
      by (auto simp: live_def payloads_def p(1) R intro!: exI [of _ "taken pre n (block_size w) post"])
    moreover have "?b + 8 \<notin> fst ` R"
      using owned_bounds [of pre _ _ ?a] owned_bounds [of post _ _ "?b + n"] heap_repD(10) [OF rep]
      by (fastforce simp: R)
    moreover have "hread s' c = hread s c" if "(q, k) \<in> R" "q \<le> c" "c < q + k" for q k c
      using keeps_payloads [OF s'(3)] that by (simp add: R hread_def)
    moreover have "w \<le> z - 8" using z(1) B by linarith
    ultimately show ?thesis using s'(1) by (intro exI [of _ "?b + 8"] exI [of _ s']) auto
  qed
qed

lemma live_free:
  assumes "live s R" "(p, n) \<in> R"
  shows "\<exists>s'. PortFree s p = Some s' \<and> live s' (R - {(p, n)}) \<and>
        (\<forall>(q, k) \<in> R - {(p, n)}. \<forall>c. q \<le> c \<and> c < q + k \<longrightarrow> hread s' c = hread s c)"
proof -
  let ?a = "heap_base (hp s)"
  from live_region [OF assms] obtain pre post where rep: "heap_rep s ?a (pre @ (n + 8, True) # post)"
    and p: "p = ?a + span pre + 8" and R: "R = payloads ?a (pre @ (n + 8, True) # post)"
    and sp: "span (pre @ (n + 8, True) # post) = heap_bytes (hp s)" .
  from PortFree_rep [OF rep] obtain s' where s': "PortFree s p = Some s'" "heap_rep s' ?a (release pre (n + 8) post)"
    "keeps (mem s) (mem s') (owned ?a pre @ owned (?a + span pre + (n + 8)) post)"
    and h: "heap_base (hp s') = ?a" "heap_bytes (hp s') = heap_bytes (hp s)"
    by (auto simp: heap_base_def heap_bytes_def p)
  have W: "wf_blocks pre" "wf_blocks post" "8 \<le> n + 8" "4 dvd n + 8" using heap_repD(10) [OF rep] by auto
  note F = release_facts [OF W]
  let ?T = "(\<lambda>(x, n). (x + 8, n - 8)) ` set (owned ?a pre @ owned (?a + span pre + (n + 8)) post)"
  have "R = insert (p, n) ?T" by (simp add: R payloads_def p)
  moreover have "(p, n) \<notin> ?T"
  proof
    assume "(p, n) \<in> ?T"
    then obtain x k where "(x, k) \<in> set (owned ?a pre) \<union> set (owned (?a + span pre + (n + 8)) post)"
      "x + 8 = p" by (auto simp del: add_diff_inverse_nat)
    then have "(?a + span pre, k) \<in> set (owned ?a pre) \<union> set (owned (?a + span pre + (n + 8)) post)"
      by (simp add: p)
    with owned_bounds [OF W(1)] owned_bounds [OF W(2)] show False by fastforce
  qed
  ultimately have T: "R - {(p, n)} = ?T" by blast
  then have "live s' (R - {(p, n)})"
    using s'(2) h F(1) F(4) [of ?a] sp
    by (auto simp: live_def payloads_def intro!: exI [of _ "release pre (n + 8) post"])
  moreover have "hread s' c = hread s c" if "(q, k) \<in> R - {(p, n)}" "q \<le> c" "c < q + k" for q k c
    using keeps_payloads [OF s'(3)] that unfolding T hread_def by blast
  ultimately show ?thesis using s'(1) by blast
qed

lemma live_hstore:
  assumes "live s R" "(p, n) \<in> R" "p \<le> c" "c + 4 \<le> p + n"
  shows "live (hstore s c v) R"
proof -
  from live_region [OF assms(1,2)] obtain pre post where
    "heap_rep s (heap_base (hp s)) (pre @ (n + 8, True) # post)" "p = heap_base (hp s) + span pre + 8"
    "R = payloads (heap_base (hp s)) (pre @ (n + 8, True) # post)"
    "span (pre @ (n + 8, True) # post) = heap_bytes (hp s)" .
  with heap_rep_hstore [of s "heap_base (hp s)" pre "n + 8" post c v] assms(3,4) show ?thesis
    unfolding live_def by (intro exI [of _ "pre @ (n + 8, True) # post"]) (simp add: hstore_def)
qed

lemma live_store_law:
  assumes "live s R" "(p, n) \<in> R" "p \<le> c" "c + 4 \<le> p + n"
  shows "live (hstore s c v) R \<and> (\<forall>d. hread (hstore s c v) d = (if d = c then v else hread s d))"
  using live_hstore [OF assms] by (simp add: hread_def hstore_def)

lemma live_aligned:
  assumes "live s R" "(p, n) \<in> R"
  shows "0 < p \<and> 4 dvd p"
proof -
  from live_region [OF assms] obtain pre post where rep: "heap_rep s (heap_base (hp s)) (pre @ (n + 8, True) # post)"
    and p: "p = heap_base (hp s) + span pre + 8" .
  from heap_repD(3,10) [OF rep] span_dvd [of pre] show ?thesis by (simp add: p)
qed

interpretation heap4: allocator live hread hstore PortMalloc PortFree
  by unfold_locales (rule live_aligned live_apart live_malloc live_free live_store_law; assumption)+

section \<open>Properties\<close>

text \<open>A heap at rest: no block is live.\<close>

lemma live_empty:
  assumes "live s {}"
  shows "heap_rep s (heap_base (hp s)) [(heap_bytes (hp s), False)] \<or> heap_bytes (hp s) = 0"
proof -
  from assms obtain bs where bs: "heap_rep s (heap_base (hp s)) bs" "span bs = heap_bytes (hp s)"
    "owned (heap_base (hp s)) bs = []" by (auto simp: live_def payloads_def)
  have free: "\<not> snd b" if "b \<in> set bs" for b
  proof
    assume "snd b"
    with that obtain pre n post where "bs = pre @ (n, True) # post" by (metis prod.collapse split_list)
    with bs(3) show False by simp
  qed
  show ?thesis
  proof (cases bs)
    case (Cons b cs)
    with heap_repD(11) [OF bs(1)] free have "cs = []" by (cases cs) (auto simp: no_adj_Cons)
    with Cons bs free show ?thesis by (cases b) auto
  qed (use bs in simp)
qed

text \<open>
  C4. \<^verbatim>\<open>PortMalloc\<close> is first fit: on a heap that represents the block list \<open>bs\<close> it always returns.
  It returns NULL and changes nothing when the request is zero, has the top bit set, or no free
  block is large enough for the request with its header and alignment. Otherwise it returns the
  payload of the first free block that is large enough, splitting off a rest of more than 16
  bytes; the payloads of all other owned blocks keep their contents; the free count, its minimum
  and the allocation counter are updated accordingly.
\<close>

theorem PortMalloc_spec:
  assumes rep: "heap_rep s a bs" and w: "w < 2 ^ 32"
  shows "if w = 0 \<or> 2 ^ 31 \<le> w then PortMalloc s w = Some (0, s)
    else case alloc_first (block_size w) bs of
      None \<Rightarrow> PortMalloc s w = Some (0, s)
    | Some bs' \<Rightarrow> \<exists>pre n post s'. bs = pre @ (n, False) # post \<and> block_size w \<le> n \<and>
        (\<forall>(k, u) \<in> set pre. \<not> u \<longrightarrow> k < block_size w) \<and>
        PortMalloc s w = Some (a + span pre + 8, s') \<and> heap_rep s' a bs' \<and>
        keeps (mem s) (mem s') (owned a bs) \<and>
        hp s' = (hp s)\<lparr>xFreeBytesRemaining := free_bytes bs',
          xMinimumEverFreeBytesRemaining := min (xMinimumEverFreeBytesRemaining (hp s)) (free_bytes bs'),
          xNumberOfSuccessfulAllocations := add32 (xNumberOfSuccessfulAllocations (hp s)) 1\<rparr>"
proof (cases "w = 0 \<or> 2 ^ 31 \<le> w \<or> alloc_first (block_size w) bs = None")
  case True
  then have "PortMalloc s w = Some (0, s)"
    using PortMalloc_refused [OF rep, of w] w leI [of w "2 ^ 31"] by blast
  then show ?thesis using True by auto
next
  case False
  then obtain bs' where v: "0 < w" "w < 2 ^ 31" and a: "alloc_first (block_size w) bs = Some bs'" by auto
  from a obtain pre n post where p: "bs = pre @ (n, False) # post" "block_size w \<le> n"
    "\<forall>(k, u) \<in> set pre. \<not> u \<longrightarrow> k < block_size w" "bs' = taken pre n (block_size w) post"
    by (metis alloc_first_Some taken_def)
  note B = block_size_facts [OF v(2)] and rep' = rep [unfolded p(1)]
  from malloc_take_rep [OF rep' _ _ p(2)] B PortMalloc_taken [OF rep' v p(2,3)] False a p show ?thesis
    by (auto simp: p(1,4))
qed

text \<open>
  \<^verbatim>\<open>PortFree\<close> of an owned block returns, releases exactly that block and merges it with a free
  neighbour on either side, so that no two free blocks are adjacent afterwards; the payloads of
  all other owned blocks keep their contents; the free count grows by the block and the counter
  of frees by one. A second \<^verbatim>\<open>PortFree\<close> of the same pointer is caught by an assertion.
\<close>

theorem PortFree_spec:
  assumes rep: "heap_rep s a (pre @ (n, True) # post)"
  shows "\<exists>s'. PortFree s (a + span pre + 8) = Some s' \<and> heap_rep s' a (release pre n post) \<and>
    keeps (mem s) (mem s') (owned a pre @ owned (a + span pre + n) post) \<and>
    hp s' = (hp s)\<lparr>xFreeBytesRemaining := xFreeBytesRemaining (hp s) + n,
      xNumberOfSuccessfulFrees := add32 (xNumberOfSuccessfulFrees (hp s)) 1\<rparr> \<and>
    PortFree s' (a + span pre + 8) = None"
proof -
  note R = heap_repD [OF rep]
  from PortFree_rep [OF rep] obtain s' where s': "PortFree s (a + span pre + 8) = Some s'"
    "heap_rep s' a (release pre n post)"
    "keeps (mem s) (mem s') (owned a pre @ owned (a + span pre + n) post)"
    "mem s' (a + span pre + 4) < 2 ^ 31"
    and h: "hp s' = (hp s)\<lparr>xFreeBytesRemaining := free_bytes (release pre n post),
      xNumberOfSuccessfulFrees := add32 (xNumberOfSuccessfulFrees (hp s)) 1\<rparr>" by blast
  have "free_bytes (release pre n post) = xFreeBytesRemaining (hp s) + n"
    using R(10,17) release_facts(2) [of pre post n] by auto
  moreover have "sub32 (a + span pre + 8) 8 = a + span pre" using R(6,10) by (simp add: sub32_small)
  moreover have "mem s' (a + span pre + 4) AND xBlockAllocatedBit s' = 0"
    using and_bit31 [OF s'(4)] heap_repD(1) [OF s'(2)] by simp
  ultimately show ?thesis using s' h R(2) by (simp add: PortFree_def Let_def)
qed

text \<open>
  \<^verbatim>\<open>vPortGetHeapStats\<close> on an initialised heap terminates and reports the number of free
  blocks, the largest and the smallest of them (0 and \<^verbatim>\<open>portMAX_DELAY\<close> when there is none), the free
  bytes and the counters.
\<close>

theorem vPortGetHeapStats_spec:
  assumes rep: "heap_rep s a bs"
  shows "vPortGetHeapStats s = Some \<lparr>st_available = sum_list (free_sizes bs),
    st_largest = fold max (free_sizes bs) 0, st_smallest = fold min (free_sizes bs) portMAX_DELAY,
    st_blocks = length (free_sizes bs), st_minimum_ever = xMinimumEverFreeBytesRemaining (hp s),
    st_allocs = xNumberOfSuccessfulAllocations (hp s), st_frees = xNumberOfSuccessfulFrees (hp s)\<rparr>"
proof -
  note R = heap_repD [OF rep]
  have "mem s (xStart_p (hp s)) \<noteq> 0"
    using fl_head [OF R(12)] nextf_bounds [OF R(10), of a] R(2) by simp
  moreover have "stats_loop (mem s) (pxEnd (hp s)) (mem s (xStart_p (hp s))) 0 0 portMAX_DELAY =
      Some (length (free_sizes bs), fold max (free_sizes bs) 0, fold min (free_sizes bs) portMAX_DELAY)"
    using stats_loop_walk [OF R(12,10,2) refl, of 0 0 portMAX_DELAY] blocks_length [OF R(10)] R(4,5) by simp
  moreover have "free_bytes bs = sum_list (free_sizes bs)"
    by (induction bs rule: free_bytes.induct) (auto simp: free_sizes_def)
  ultimately show ?thesis using R(7,17) by (simp add: vPortGetHeapStats_def)
qed

lemma demo_rep: "heap_rep demo_heap 4100 [(52, False)]"
  by (simp add: heap_rep_def demo_heap_def demo_cfg_def)

theorem PortMalloc_witness:
  "heap_rep demo_heap 4100 [(52, False)] \<and> alloc_first (block_size 10) [(52, False)] = Some [(20, True), (32, False)] \<and>
   (\<exists>s'. PortMalloc demo_heap 10 = Some (4108, s') \<and> heap_rep s' 4100 [(20, True), (32, False)])"
  using PortMalloc_spec [OF demo_rep, of 10] demo_rep
  by (auto simp: block_size_def Cons_eq_append_conv)

theorem PortFree_witness:
  "\<exists>s s'. heap_rep s 4100 [(20, True), (32, False)] \<and> PortFree s 4108 = Some s' \<and>
     heap_rep s' 4100 [(52, False)] \<and> PortFree s' 4108 = None"
proof -
  let ?s = "demo_heap\<lparr>hp := (hp demo_heap)\<lparr>xFreeBytesRemaining := 32, xMinimumEverFreeBytesRemaining := 32\<rparr>,
    mem := (\<lambda>_. 0)(256 := 4120, 4104 := 20 + 2 ^ 31, 4120 := 4152, 4124 := 32)\<rparr>"
  have "heap_rep ?s 4100 ([] @ (20, True) # [(32, False)])"
    by (simp add: heap_rep_def demo_heap_def demo_cfg_def)
  from this PortFree_spec [OF this] show ?thesis
    by - (rule exI [of _ ?s], auto simp: release_def merge_prev_def merge_next_def)
qed

theorem vPortGetHeapStats_witness:
  "heap_rep demo_heap 4100 [(52, False)] \<and> map_option st_blocks (vPortGetHeapStats demo_heap) = Some 1 \<and>
   map_option st_smallest (vPortGetHeapStats demo_heap) = Some 52"
  using vPortGetHeapStats_spec [OF demo_rep] demo_rep by (simp add: free_sizes_def portMAX_DELAY_def)

text \<open>
  From a configured heap whose array and descriptor do not overlap, \<^verbatim>\<open>HeapInit\<close> and the function
  \<^verbatim>\<open>name##_reinit\<close> return and leave one free block that covers the aligned part of the array up to
  the end marker; so does the implicit initialisation in the first \<^verbatim>\<open>PortMalloc\<close>. Reinitialisation
  also clears the counters.
\<close>

theorem HeapInit_spec:
  assumes c: "cfg_ok (hp s)"
  shows "(\<exists>s'. HeapInit s = Some s' \<and> heap_rep s' (heap_base (hp s)) [(heap_bytes (hp s), False)] \<and> live s' {} \<and>
      (pxEnd (hp s) = 0 \<longrightarrow> PortMalloc s w = PortMalloc s' w)) \<and>
    (\<exists>s'. reinit s = Some s' \<and> heap_rep s' (heap_base (hp s)) [(heap_bytes (hp s), False)] \<and> live s' {} \<and>
      xNumberOfSuccessfulAllocations (hp s') = 0 \<and> xNumberOfSuccessfulFrees (hp s') = 0)"
proof -
  have L: "live s' {}" if "heap_rep s' a [(n, False)]" "heap_base (hp s') = a" "heap_bytes (hp s') = n" for s' a n
    using that by (auto simp: live_def payloads_def intro!: exI [of _ "[(n, False)]"])
  from HeapInit_rep [OF c] obtain s' where s': "HeapInit s = Some s'"
    "heap_rep s' (heap_base (hp s)) [(heap_bytes (hp s), False)]"
    "hp s' = (hp s)\<lparr>pxEnd := heap_base (hp s) + heap_bytes (hp s),
      xFreeBytesRemaining := heap_bytes (hp s), xMinimumEverFreeBytesRemaining := heap_bytes (hp s)\<rparr>" by blast
  have "pxEnd (hp s') \<noteq> 0" using heap_repD(2,4) [OF s'(2)] by simp
  then have "pxEnd (hp s) = 0 \<longrightarrow> PortMalloc s w = PortMalloc s' w" by (simp add: PortMalloc_def s'(1))
  moreover have "live s' {}" using L [OF s'(2)] s'(3) by (simp add: heap_base_def heap_bytes_def)
  ultimately have init: "\<exists>s'. HeapInit s = Some s' \<and> heap_rep s' (heap_base (hp s)) [(heap_bytes (hp s), False)] \<and>
      live s' {} \<and> (pxEnd (hp s) = 0 \<longrightarrow> PortMalloc s w = PortMalloc s' w)"
    using s'(1,2) by (intro exI [of _ s'] conjI)
  have "\<exists>r. reinit s = Some r \<and> heap_rep r (heap_base (hp s)) [(heap_bytes (hp s), False)] \<and> live r {} \<and>
      xNumberOfSuccessfulAllocations (hp r) = 0 \<and> xNumberOfSuccessfulFrees (hp r) = 0"
  proof -
    let ?m = "(mem s)(xStart_p (hp s) := 0, xStart_p (hp s) + 4 := 0)"
    let ?s = "s\<lparr>mem := ?m, hp := (hp s)\<lparr>pxEnd := 0, xFreeBytesRemaining := 0, xMinimumEverFreeBytesRemaining := 0,
      xNumberOfSuccessfulAllocations := 0, xNumberOfSuccessfulFrees := 0\<rparr>\<rparr>"
    have "reinit s = HeapInit ?s" using c by (simp add: reinit_def cfg_ok_def)
    moreover have "cfg_ok (hp ?s)" using c by (simp add: cfg_ok_def)
    moreover have "heap_base (hp ?s) = heap_base (hp s)" "heap_bytes (hp ?s) = heap_bytes (hp s)"
      by (simp_all add: heap_base_def heap_bytes_def)
    ultimately obtain r where r: "reinit s = Some r" "heap_rep r (heap_base (hp s)) [(heap_bytes (hp s), False)]"
      and h: "hp r = (hp ?s)\<lparr>pxEnd := heap_base (hp s) + heap_bytes (hp s),
        xFreeBytesRemaining := heap_bytes (hp s), xMinimumEverFreeBytesRemaining := heap_bytes (hp s)\<rparr>"
      using HeapInit_rep [of ?s] by (simp only:) blast
    moreover have "live r {}" using h by (intro L [OF r(2)]) (simp_all add: heap_base_def heap_bytes_def)
    ultimately show ?thesis by simp
  qed
  with init show ?thesis by (rule conjI)
qed

theorem HeapInit_witness:
  "cfg_ok (hp demo_cfg) \<and> heap_base (hp demo_cfg) = 4100 \<and> heap_bytes (hp demo_cfg) = 52 \<and>
   (\<exists>s'. HeapInit demo_cfg = Some s' \<and> heap_rep s' 4100 [(52, False)] \<and> PortMalloc demo_cfg 10 = PortMalloc s' 10)"
proof -
  have "cfg_ok (hp demo_cfg)" "heap_base (hp demo_cfg) = 4100" "heap_bytes (hp demo_cfg) = 52" "pxEnd (hp demo_cfg) = 0"
    by (simp_all add: cfg_ok_def demo_cfg_def heap_base_def heap_bytes_def)
  with HeapInit_spec [of demo_cfg 10] show ?thesis by auto
qed

text \<open>
  C3. A client that only uses the pointers it was given is safe: starting from a heap at rest, any
  sequence of requests, word stores into owned blocks and releases runs without a failed
  assertion, null dereference or endless loop; at every point the live blocks are pairwise
  disjoint and as large as requested, and hold the words last stored in them. When all of them have been
  released, the heap is one free block of its full size again: nothing is lost to fragmentation.
\<close>

theorem heap_client_safe:
  assumes "live s {}" "\<forall>r \<in> set rs. req_ok r"
  shows "\<exists>s' L. client_run PortMalloc PortFree hstore rs (s, []) = Some (s', L) \<and>
    (\<exists>R. live s' R \<and> fst ` set L = fst ` R \<and> distinct (map fst L) \<and>
      (\<forall>(p, w, f) \<in> set L. \<exists>n. w \<le> n \<and> (p, n) \<in> R \<and>
        (\<forall>off v. f off = Some v \<longrightarrow> hread s' (p + off) = v)) \<and>
      (\<forall>(p, n) \<in> R. \<forall>(q, k) \<in> R. p = q \<or> apart (p, n) (q, k))) \<and>
    (L = [] \<longrightarrow> xFreeBytesRemaining (hp s') = heap_bytes (hp s'))"
proof -
  have "heap4.client_inv s [] {}" using assms(1) by (simp add: heap4.client_inv_def)
  from heap4.client_safe [OF this assms(2)] obtain s' L R where
    r: "client_run PortMalloc PortFree hstore rs (s, []) = Some (s', L)" and I: "heap4.client_inv s' L R" by blast
  have D: "\<forall>(p, n) \<in> R. \<forall>(q, k) \<in> R. p = q \<or> apart (p, n) (q, k)"
    using I heap4.region_apart by (fastforce simp: heap4.client_inv_def)
  have S: "\<forall>(p, w, f) \<in> set L. \<exists>n. w \<le> n \<and> (p, n) \<in> R \<and> (\<forall>off v. f off = Some v \<longrightarrow> hread s' (p + off) = v)"
  proof clarify
    fix p w f assume "(p, w, f) \<in> set L"
    with I have "heap4.slot_ok s' R (p, w, f)" unfolding heap4.client_inv_def by blast
    then show "\<exists>n. w \<le> n \<and> (p, n) \<in> R \<and> (\<forall>off v. f off = Some v \<longrightarrow> hread s' (p + off) = v)"
      unfolding heap4.slot_ok_def by auto
  qed
  have "L = [] \<longrightarrow> xFreeBytesRemaining (hp s') = heap_bytes (hp s')"
  proof
    assume "L = []"
    with I have "live s' {}" by (auto simp: heap4.client_inv_def)
    then obtain bs where bs: "heap_rep s' (heap_base (hp s')) bs" "span bs = heap_bytes (hp s')"
      by (auto simp: live_def)
    from live_empty [OF \<open>live s' {}\<close>] show "xFreeBytesRemaining (hp s') = heap_bytes (hp s')"
    proof
      assume "heap_rep s' (heap_base (hp s')) [(heap_bytes (hp s'), False)]"
      from heap_repD(17) [OF this] show "xFreeBytesRemaining (hp s') = heap_bytes (hp s')" by simp
    qed (use heap_repD(17) [OF bs(1)] bs(2) free_bytes_le_span [of bs] in simp)
  qed
  moreover have "live s' R" "fst ` set L = fst ` R" "distinct (map fst L)"
    using I by (simp_all only: heap4.client_inv_def)
  ultimately show ?thesis using r D S by (intro exI [of _ s'] exI [of _ L] exI [of _ R] conjI)
qed

theorem heap_client_witness:
  "\<exists>s. live s {} \<and> (\<exists>s' L. client_run PortMalloc PortFree hstore
     [Alloc 10, Alloc 4, Store 0 4 7, Release 1, Release 0] (s, []) = Some (s', L))"
proof -
  have "live demo_heap {}"
    using demo_rep by (auto simp: live_def payloads_def demo_heap_def demo_cfg_def heap_base_def heap_bytes_def
        intro!: exI [of _ "[(52, False)]"])
  with heap_client_safe [OF this, of "[Alloc 10, Alloc 4, Store 0 4 7, Release 1, Release 0]"] show ?thesis
    by (auto simp del: client_run.simps)
qed

lemma orig_stats_loop_agrees:
  assumes "fl m p a bs e" "wf_blocks bs" "0 < a" "m p \<noteq> e"
  shows "orig_stats_loop m e (m p) k mx mn = stats_loop m e (m p) k mx mn"
  using assms
proof (induction bs arbitrary: a p k mx mn rule: span.induct)
  case (2 n u bs)
  show ?case
  proof (cases u)
    case True
    then show ?thesis using "2.IH" [of p "a + n"] "2.prems" by simp
  next
    case False
    then have m: "m p = a" "fl m a (a + n) bs e" using "2.prems" by auto
    let ?mx = "if m (a + 4) > mx then m (a + 4) else mx" and ?mn = "if m (a + 4) < mn then m (a + 4) else mn"
    have "stats_loop m e a k mx mn = stats_loop m e (m a) (add32 k 1) ?mx ?mn"
      using "2.prems"(3,4) m(1) by (subst stats_loop.simps) simp
    moreover have "orig_stats_loop m e a k mx mn = (if m a \<noteq> e
        then orig_stats_loop m e (m a) (add32 k 1) ?mx ?mn else Some (add32 k 1, ?mx, ?mn))"
      using "2.prems"(3) by (subst orig_stats_loop.simps) (simp add: Let_def)
    moreover have "m a \<noteq> e \<Longrightarrow> orig_stats_loop m e (m a) (add32 k 1) ?mx ?mn = stats_loop m e (m a) (add32 k 1) ?mx ?mn"
      using "2.IH" [of a "a + n"] m(2) "2.prems"(2,3) by simp
    ultimately show ?thesis by (simp add: m(1) stats_loop.simps [of m e e])
  qed
qed simp

lemma no_free_blocks:
  assumes "fl m p a bs (a + span bs)" "wf_blocks bs"
  shows "m p = a + span bs \<longleftrightarrow> free_sizes bs = []"
proof -
  have "nextf a bs (a + span bs) = a + span bs \<longleftrightarrow> free_sizes bs = []" for a
    using assms(2)
  proof (induction bs arbitrary: a rule: span.induct)
    case (2 n u bs)
    then show ?case using "2.IH" [of "a + n"] by (auto simp: free_sizes_def add.assoc)
  qed (simp add: free_sizes_def)
  with fl_head [OF assms(1)] show ?thesis by simp
qed

text \<open>
  The replaced loop of \<^verbatim>\<open>vPortGetHeapStats\<close> is necessary: the do-while loop of the original file agrees
  with that of \<^verbatim>\<open>heap.c\<close> while some block is free, but on a fully allocated heap it walks past the end
  marker and dereferences NULL, where \<^verbatim>\<open>heap.c\<close> reports zero blocks.
\<close>

theorem orig_stats_full_heap:
  assumes rep: "heap_rep s a bs"
  shows "orig_vPortGetHeapStats s = (if free_sizes bs = [] then None else vPortGetHeapStats s)"
proof -
  note R = heap_repD [OF rep]
  let ?p = "xStart_p (hp s)" let ?e = "pxEnd (hp s)"
  have first: "mem s ?p \<noteq> 0" using fl_head [OF R(12)] nextf_bounds [OF R(10), of a] R(2) by simp
  show ?thesis
  proof (cases "free_sizes bs = []")
    case True
    then have "mem s ?p = ?e" using no_free_blocks [OF R(12,10)] R(4) by simp
    moreover have "orig_stats_loop (mem s) ?e ?e 0 0 portMAX_DELAY = None"
      using R(2,4,15) by (simp add: orig_stats_loop.simps [of _ _ "a + span bs"] orig_stats_loop.simps [of _ _ 0]
          rd_size_def Let_def)
    ultimately show ?thesis using True R(2,4,7) by (simp add: orig_vPortGetHeapStats_def)
  next
    case False
    then have "mem s ?p \<noteq> ?e" using no_free_blocks [OF R(12,10)] R(4) by simp
    then show ?thesis using False first R(4,7) orig_stats_loop_agrees [OF R(12,10,2)]
      by (simp add: orig_vPortGetHeapStats_def vPortGetHeapStats_def)
  qed
qed

theorem orig_stats_full_heap_witness:
  "\<exists>s. heap_rep s 4100 [(52, True)] \<and> orig_vPortGetHeapStats s = None \<and> vPortGetHeapStats s \<noteq> None"
proof -
  let ?s = "demo_heap\<lparr>hp := (hp demo_heap)\<lparr>xFreeBytesRemaining := 0, xMinimumEverFreeBytesRemaining := 0\<rparr>,
    mem := (\<lambda>_. 0)(256 := 4152, 4104 := 52 + 2 ^ 31)\<rparr>"
  have rep: "heap_rep ?s 4100 [(52, True)]"
    by (simp add: heap_rep_def demo_heap_def demo_cfg_def)
  have "vPortGetHeapStats ?s \<noteq> None"
    by (simp add: vPortGetHeapStats_def demo_heap_def demo_cfg_def stats_loop.simps [of _ "4152" "4152"])
  with rep orig_stats_full_heap [OF rep] show ?thesis by (intro exI [of _ ?s]) (simp add: free_sizes_def)
qed

end
