(* ===== verification/StrBuffer.thy ===== *)
theory StrBuffer
  imports Prelude
begin

text \<open>
  The growing byte buffer of \<^verbatim>\<open>jansson-2.14/src/strbuffer.c\<close> over the allocation wrappers of
  \<^verbatim>\<open>memory.c\<close>. The installed allocator is a parameter: \<open>malloc n\<close> is the block it hands out, with
  whatever it contains, or NULL (\<^term>\<open>None\<close>); its documented behaviour is \<open>malloc_ok\<close>. \<^verbatim>\<open>size_t\<close> has
  32 bits. Operations return the code of the source with the new state; a null dereference or an
  access outside the block is \<^term>\<open>None\<close>.
\<close>

section \<open>State\<close>

record strbuffer_t =
  sb_value :: "int list option"
  sb_length :: nat
  sb_size :: nat

type_synonym mallocf = "nat \<Rightarrow> int list option"

definition STRBUFFER_MIN_SIZE :: nat where
  "STRBUFFER_MIN_SIZE = 16"

definition STRBUFFER_FACTOR :: nat where
  "STRBUFFER_FACTOR = 2"

definition STRBUFFER_SIZE_MAX :: nat where
  "STRBUFFER_SIZE_MAX = 2 ^ 32 - 1"

section \<open>Operations\<close>

definition jsonp_malloc :: "mallocf \<Rightarrow> nat \<Rightarrow> int list option" where
  "jsonp_malloc malloc n = (if n = 0 then None else malloc n)"

text \<open>\<^verbatim>\<open>memcpy(dst + off, src, n)\<close> and a store of one byte.\<close>

definition mem_copy :: "int list \<Rightarrow> nat \<Rightarrow> int list \<Rightarrow> nat \<Rightarrow> int list option" where
  "mem_copy dst off src n =
     (if off + n \<le> length dst \<and> n \<le> length src
      then Some (take off dst @ take n src @ drop (off + n) dst) else None)"

definition mem_set :: "int list \<Rightarrow> nat \<Rightarrow> int \<Rightarrow> int list option" where
  "mem_set dst off v = (if off < length dst then Some (dst[off := v]) else None)"

definition jsonp_strndup :: "mallocf \<Rightarrow> int list \<Rightarrow> nat \<Rightarrow> int list option option" where
  "jsonp_strndup malloc str len =
     (case jsonp_malloc malloc (add32 len 1) of
        None \<Rightarrow> Some None
      | Some new_str \<Rightarrow> do {
          v1 \<leftarrow> mem_copy new_str 0 str len;
          v2 \<leftarrow> mem_set v1 len 0;
          Some (Some v2) })"

definition strbuffer_init :: "mallocf \<Rightarrow> (int \<times> strbuffer_t) option" where
  "strbuffer_init malloc =
     (case jsonp_malloc malloc STRBUFFER_MIN_SIZE of
        None \<Rightarrow> Some (-1, \<lparr>sb_value = None, sb_length = 0, sb_size = STRBUFFER_MIN_SIZE\<rparr>)
      | Some v \<Rightarrow> do {
          v' \<leftarrow> mem_set v 0 0;
          Some (0, \<lparr>sb_value = Some v', sb_length = 0, sb_size = STRBUFFER_MIN_SIZE\<rparr>) })"

definition strbuffer_close :: "strbuffer_t \<Rightarrow> strbuffer_t" where
  "strbuffer_close sb = \<lparr>sb_value = None, sb_length = 0, sb_size = 0\<rparr>"

definition strbuffer_clear :: "strbuffer_t \<Rightarrow> strbuffer_t option" where
  "strbuffer_clear sb = do {
     v \<leftarrow> sb_value sb;
     v' \<leftarrow> mem_set v 0 0;
     Some (sb\<lparr>sb_length := 0, sb_value := Some v'\<rparr>) }"

definition strbuffer_value :: "strbuffer_t \<Rightarrow> int list option" where
  "strbuffer_value sb = sb_value sb"

definition strbuffer_steal_value :: "strbuffer_t \<Rightarrow> int list option \<times> strbuffer_t" where
  "strbuffer_steal_value sb = (sb_value sb, sb\<lparr>sb_value := None\<rparr>)"

definition strbuffer_append_bytes :: "mallocf \<Rightarrow> strbuffer_t \<Rightarrow> int list \<Rightarrow> nat \<Rightarrow> (int \<times> strbuffer_t) option" where
  "strbuffer_append_bytes malloc sb data n =
     (let finish = (\<lambda>sb. do {
            v \<leftarrow> sb_value sb;
            v1 \<leftarrow> mem_copy v (sb_length sb) data n;
            let len' = add32 (sb_length sb) n;
            v2 \<leftarrow> mem_set v1 len' 0;
            Some (0, sb\<lparr>sb_length := len', sb_value := Some v2\<rparr>) })
      in if n \<ge> sub32 (sb_size sb) (sb_length sb)
         then (if sb_size sb > STRBUFFER_SIZE_MAX div STRBUFFER_FACTOR \<or> n > STRBUFFER_SIZE_MAX - 1 \<or>
                  sb_length sb > STRBUFFER_SIZE_MAX - 1 - n
               then Some (-1, sb)
               else let new_size = max (sb_size sb * STRBUFFER_FACTOR) (sb_length sb + n + 1)
                    in case jsonp_malloc malloc new_size of
                         None \<Rightarrow> Some (-1, sb)
                       | Some new_value \<Rightarrow> do {
                           v \<leftarrow> sb_value sb;
                           nv \<leftarrow> mem_copy new_value 0 v (sb_length sb);
                           finish (sb\<lparr>sb_value := Some nv, sb_size := new_size\<rparr>) })
         else finish sb)"

definition strbuffer_append_byte :: "mallocf \<Rightarrow> strbuffer_t \<Rightarrow> int \<Rightarrow> (int \<times> strbuffer_t) option" where
  "strbuffer_append_byte malloc sb byte = strbuffer_append_bytes malloc sb [byte] 1"

definition strbuffer_pop :: "strbuffer_t \<Rightarrow> (int \<times> strbuffer_t) option" where
  "strbuffer_pop sb =
     (if sb_length sb > 0
      then do {
        v \<leftarrow> sb_value sb;
        let len' = sb_length sb - 1;
        if len' < length v
        then do { v' \<leftarrow> mem_set v len' 0; Some (v ! len', sb\<lparr>sb_length := len', sb_value := Some v'\<rparr>) }
        else None }
      else Some (0, sb))"

section \<open>The buffer as a byte string\<close>

definition malloc_ok :: "mallocf \<Rightarrow> bool" where
  "malloc_ok malloc \<longleftrightarrow> (\<forall>n b. malloc n = Some b \<longrightarrow> length b = n)"

definition sb_wf :: "strbuffer_t \<Rightarrow> bool" where
  "sb_wf sb \<longleftrightarrow> (case sb_value sb of None \<Rightarrow> False
     | Some v \<Rightarrow> length v = sb_size sb \<and> sb_length sb < sb_size sb \<and> sb_size sb < 2 ^ 32 \<and> v ! sb_length sb = 0)"

definition sb_contents :: "strbuffer_t \<Rightarrow> int list" where
  "sb_contents sb = (case sb_value sb of None \<Rightarrow> [] | Some v \<Rightarrow> take (sb_length sb) v)"

text \<open>Appending data of length \<open>n\<close> does not run out of memory.\<close>

definition sb_room :: "mallocf \<Rightarrow> strbuffer_t \<Rightarrow> nat \<Rightarrow> bool" where
  "sb_room malloc sb n \<longleftrightarrow> n < sb_size sb - sb_length sb \<or>
     sb_size sb < 2 ^ 31 \<and> sb_length sb + n + 1 < 2 ^ 32 \<and>
     malloc (max (2 * sb_size sb) (sb_length sb + n + 1)) \<noteq> None"

text \<open>A sample allocator and buffer.\<close>

definition demo_malloc :: mallocf where
  "demo_malloc n = (if n \<le> 64 then Some (replicate n 7) else None)"

definition demo_sb :: strbuffer_t where
  "demo_sb = \<lparr>sb_value = Some ([97, 98, 0] @ replicate 13 0), sb_length = 2, sb_size = 16\<rparr>"

lemma sb_wfE:
  assumes "sb_wf sb"
  obtains v where "sb_value sb = Some v" "length v = sb_size sb" "sb_length sb < sb_size sb" "sb_size sb < 2 ^ 32"
    "v ! sb_length sb = 0"
  using assms by (auto simp: sb_wf_def split: option.splits)

lemma append_core:
  assumes "length v = sz" "l + n < sz" "sz < 2 ^ 32" "length data = n"
  defines "v2 \<equiv> (take l v @ data @ drop (l + n) v)[l + n := 0]"
  shows "mem_copy v l data n = Some (take l v @ data @ drop (l + n) v)"
    "mem_set (take l v @ data @ drop (l + n) v) (l + n) 0 = Some v2"
    "length v2 = sz" "v2 ! (l + n) = 0" "take (l + n) v2 = take l v @ data"
  using assms by (auto simp: mem_copy_def mem_set_def nth_append take_update_cancel)

lemma append_bytes_cases:
  assumes ok: "malloc_ok malloc" and wf: "sb_wf sb" and n: "length data = n" "n < 2 ^ 32"
  shows "if sb_room malloc sb n
    then \<exists>sb'. strbuffer_append_bytes malloc sb data n = Some (0, sb') \<and> sb_wf sb' \<and>
      sb_contents sb' = sb_contents sb @ data
    else strbuffer_append_bytes malloc sb data n = Some (-1, sb)"
proof -
  obtain v where v: "sb_value sb = Some v" "length v = sb_size sb" "sb_length sb < sb_size sb" "sb_size sb < 2 ^ 32"
    using wf by (rule sb_wfE)
  let ?l = "sb_length sb" let ?N = "max (sb_size sb * 2) (?l + n + 1)"
  have s: "sub32 (sb_size sb) ?l = sb_size sb - ?l" using v by (simp add: sub32_small)
  consider "n < sb_size sb - ?l" | "\<not> n < sb_size sb - ?l" "2 ^ 31 \<le> sb_size sb \<or> 2 ^ 32 \<le> ?l + n + 1"
    | "\<not> n < sb_size sb - ?l" "sb_size sb < 2 ^ 31" "?l + n + 1 < 2 ^ 32" by linarith
  then show ?thesis
  proof cases
    case 1
    then have "?l + n < sb_size sb" by simp
    from append_core [OF v(2) this v(4) n(1)] 1 v s show ?thesis
      by (auto simp: strbuffer_append_bytes_def Let_def sb_room_def sb_wf_def sb_contents_def add32_small)
  next
    case 2
    then have "sb_size sb > STRBUFFER_SIZE_MAX div STRBUFFER_FACTOR \<or> n > STRBUFFER_SIZE_MAX - 1 \<or>
        ?l > STRBUFFER_SIZE_MAX - 1 - n"
      by (auto simp: STRBUFFER_SIZE_MAX_def STRBUFFER_FACTOR_def)
    with 2 s show ?thesis by (auto simp: strbuffer_append_bytes_def Let_def sb_room_def)
  next
    case 3
    then have g: "\<not> (sb_size sb > STRBUFFER_SIZE_MAX div STRBUFFER_FACTOR \<or> n > STRBUFFER_SIZE_MAX - 1 \<or>
        ?l > STRBUFFER_SIZE_MAX - 1 - n)"
      by (auto simp: STRBUFFER_SIZE_MAX_def STRBUFFER_FACTOR_def)
    have N: "?N \<noteq> 0" "?l + n < ?N" "?N < 2 ^ 32" using 3 by auto
    show ?thesis
    proof (cases "malloc ?N")
      case None
      with 3 g s N show ?thesis
        by (simp add: strbuffer_append_bytes_def Let_def sb_room_def jsonp_malloc_def STRBUFFER_FACTOR_def mult.commute)
    next
      case (Some b)
      let ?nv = "take ?l v @ drop ?l b"
      have b: "length b = ?N" using ok Some by (auto simp: malloc_ok_def)
      have nv: "mem_copy b 0 v ?l = Some ?nv" "length ?nv = ?N" "take ?l ?nv = take ?l v"
        using v b N by (auto simp: mem_copy_def)
      from append_core [OF nv(2) N(2,3) n(1)] Some 3 g s N v nv show ?thesis
        by (simp add: strbuffer_append_bytes_def Let_def sb_room_def sb_wf_def sb_contents_def add32_small
            jsonp_malloc_def STRBUFFER_FACTOR_def mult.commute)
    qed
  qed
qed

lemma strbuffer_init_cases:
  assumes "malloc_ok malloc"
  shows "if malloc 16 = None then \<exists>sb. strbuffer_init malloc = Some (-1, sb)
    else \<exists>sb. strbuffer_init malloc = Some (0, sb) \<and> sb_wf sb \<and> sb_contents sb = []"
  using assms by (auto simp: strbuffer_init_def jsonp_malloc_def STRBUFFER_MIN_SIZE_def malloc_ok_def mem_set_def
      sb_wf_def sb_contents_def split: option.splits)

lemma strbuffer_clear_ok: "sb_wf sb \<Longrightarrow> \<exists>sb'. strbuffer_clear sb = Some sb' \<and> sb_wf sb' \<and> sb_contents sb' = []"
  by (erule sb_wfE) (auto simp: strbuffer_clear_def mem_set_def sb_wf_def sb_contents_def)

lemma strbuffer_pop_ok:
  assumes "sb_wf sb"
  shows "\<exists>c sb'. strbuffer_pop sb = Some (c, sb') \<and> sb_wf sb' \<and>
    (if sb_contents sb = [] then c = 0 \<and> sb' = sb else sb_contents sb = sb_contents sb' @ [c])"
proof -
  obtain v where v: "sb_value sb = Some v" "length v = sb_size sb" "sb_length sb < sb_size sb" "sb_size sb < 2 ^ 32"
    using assms by (rule sb_wfE)
  show ?thesis
  proof (cases "sb_length sb")
    case 0
    then show ?thesis using assms v by (simp add: strbuffer_pop_def sb_contents_def)
  next
    case (Suc k)
    then have "take (sb_length sb) v = take k v @ [v ! k]" using v by (simp add: take_Suc_conv_app_nth)
    with Suc v show ?thesis
      by (auto simp: strbuffer_pop_def sb_contents_def sb_wf_def mem_set_def take_update_cancel)
  qed
qed

section \<open>Properties\<close>

text \<open>
  C6. \<^verbatim>\<open>strbuffer_append_bytes\<close> implements appending to a byte string: on a well-formed buffer it never
  leaves the allocated block; it either fails with -1 and leaves the buffer as it was, exactly
  when growing would overflow \<^verbatim>\<open>size_t\<close> or the allocator refuses, or it returns 0 and
  the contents are the old contents followed by the data, still NUL-terminated.
\<close>

theorem strbuffer_append_bytes_spec:
  assumes "malloc_ok malloc" "sb_wf sb" "length data < 2 ^ 32"
  shows "if sb_room malloc sb (length data)
    then \<exists>sb'. strbuffer_append_bytes malloc sb data (length data) = Some (0, sb') \<and> sb_wf sb' \<and>
      sb_contents sb' = sb_contents sb @ data
    else strbuffer_append_bytes malloc sb data (length data) = Some (-1, sb)"
  by (rule append_bytes_cases [OF assms(1,2) refl assms(3)])

theorem strbuffer_append_bytes_witness:
  "malloc_ok demo_malloc \<and> sb_wf demo_sb \<and>
   (\<exists>sb'. strbuffer_append_bytes demo_malloc demo_sb (replicate 20 99) 20 = Some (0, sb') \<and>
     sb_contents sb' = [97, 98] @ replicate 20 99) \<and>
   strbuffer_append_bytes demo_malloc demo_sb (replicate 70 99) 70 = Some (-1, demo_sb)"
proof -
  have "malloc_ok demo_malloc" by (auto simp: malloc_ok_def demo_malloc_def)
  moreover have "sb_wf demo_sb" by (simp add: sb_wf_def demo_sb_def)
  moreover have "sb_room demo_malloc demo_sb 20" "\<not> sb_room demo_malloc demo_sb 70" "sb_contents demo_sb = [97, 98]"
    by (simp_all add: sb_room_def demo_sb_def demo_malloc_def sb_contents_def)
  ultimately show ?thesis
    using strbuffer_append_bytes_spec [of demo_malloc demo_sb "replicate 20 99"]
      strbuffer_append_bytes_spec [of demo_malloc demo_sb "replicate 70 99"]
    by auto
qed

end
