(* ===== verification/Utf.thy ===== *)
theory Utf
  imports Prelude
begin

text \<open>
  The UTF-8 codec of \<^verbatim>\<open>jansson-2.14/src/utf.c\<close>. A \<^verbatim>\<open>char\<close> is its value as an unsigned byte
  (\<open>0..255\<close>, \<^verbatim>\<open>char\<close> is unsigned on the targets of the components, and the code casts to
  \<^verbatim>\<open>unsigned char\<close> where it matters); a buffer is the list of its bytes. The theorems relate the
  decoder to the encoder and to the set of Unicode scalar values: \<^verbatim>\<open>utf8_iterate\<close> accepts exactly
  the shortest encodings of scalar values.
\<close>

section \<open>Operations\<close>

definition utf8_encode :: "int \<Rightarrow> int list option" where
  "utf8_encode codepoint =
     (if codepoint < 0 then None
      else if codepoint < 0x80 then Some [codepoint]
      else if codepoint < 0x800 then
        Some [0xC0 + drop_bit 6 (codepoint AND 0x7C0), 0x80 + (codepoint AND 0x03F)]
      else if codepoint < 0x10000 then
        Some [0xE0 + drop_bit 12 (codepoint AND 0xF000), 0x80 + drop_bit 6 (codepoint AND 0x0FC0),
              0x80 + (codepoint AND 0x003F)]
      else if codepoint \<le> 0x10FFFF then
        Some [0xF0 + drop_bit 18 (codepoint AND 0x1C0000), 0x80 + drop_bit 12 (codepoint AND 0x03F000),
              0x80 + drop_bit 6 (codepoint AND 0x000FC0), 0x80 + (codepoint AND 0x00003F)]
      else None)"

definition utf8_check_first :: "int \<Rightarrow> nat" where
  "utf8_check_first u =
     (if u < 0x80 then 1
      else if 0x80 \<le> u \<and> u \<le> 0xBF then 0
      else if u = 0xC0 \<or> u = 0xC1 then 0
      else if 0xC2 \<le> u \<and> u \<le> 0xDF then 2
      else if 0xE0 \<le> u \<and> u \<le> 0xEF then 3
      else if 0xF0 \<le> u \<and> u \<le> 0xF4 then 4
      else 0)"

text \<open>The loop over the continuation bytes \<^verbatim>\<open>buffer[1..size-1]\<close>.\<close>

fun full_loop :: "int list \<Rightarrow> int \<Rightarrow> int option" where
  "full_loop [] value = Some value"
| "full_loop (u # us) value =
     (if u < 0x80 \<or> u > 0xBF then None
      else full_loop us (push_bit 6 value + (u AND 0x3F)))"

definition utf8_check_full :: "int list \<Rightarrow> nat \<Rightarrow> int option" where
  "utf8_check_full buffer sz =
     (let u = buffer ! 0 in
      do {
        value0 \<leftarrow> (if sz = 2 then Some (u AND 0x1F)
                  else if sz = 3 then Some (u AND 0xF)
                  else if sz = 4 then Some (u AND 0x7)
                  else None);
        value \<leftarrow> full_loop (take (sz - 1) (drop 1 buffer)) value0;
        if value > 0x10FFFF then None
        else if 0xD800 \<le> value \<and> value \<le> 0xDFFF then None
        else if (sz = 2 \<and> value < 0x80) \<or> (sz = 3 \<and> value < 0x800) \<or> (sz = 4 \<and> value < 0x10000)
        then None
        else Some value })"

text \<open>The result is the number of bytes to advance by and the code point, which an empty
  buffer leaves as it was; NULL is \<^term>\<open>None\<close>.\<close>

definition utf8_iterate :: "int list \<Rightarrow> int \<Rightarrow> (nat \<times> int) option" where
  "utf8_iterate buffer codepoint =
     (if buffer = [] then Some (0, codepoint)
      else let count = utf8_check_first (buffer ! 0) in
        if count \<le> 0 then None
        else if count = 1 then Some (count, buffer ! 0)
        else if count > length buffer then None
        else map_option (\<lambda>value. (count, value)) (utf8_check_full buffer count))"

function utf8_check_string :: "int list \<Rightarrow> bool" where
  "utf8_check_string string =
     (if string = [] then True
      else let count = utf8_check_first (string ! 0) in
        if count = 0 then False
        else if count > 1 then
          (if count > length string then False
           else if utf8_check_full string count = None then False
           else utf8_check_string (drop count string))
        else utf8_check_string (drop 1 string))"
  by pat_completeness auto
termination by (relation "measure length") auto

section \<open>Specification\<close>

definition scalar :: "int \<Rightarrow> bool" where
  "scalar cp \<longleftrightarrow> 0 \<le> cp \<and> cp \<le> 0x10FFFF \<and> \<not> (0xD800 \<le> cp \<and> cp \<le> 0xDFFF)"

definition bytes :: "int list \<Rightarrow> bool" where
  "bytes bs \<longleftrightarrow> (\<forall>b \<in> set bs. 0 \<le> b \<and> b < 256)"

definition enc :: "int \<Rightarrow> int list" where
  "enc cp = the (utf8_encode cp)"

definition enc_all :: "int list \<Rightarrow> int list" where
  "enc_all cps = concat (map enc cps)"

section \<open>Lemmas\<close>

declare utf8_check_string.simps [simp del]

lemma and_field: "drop_bit k ((x::int) AND push_bit k (mask n)) = x div 2 ^ k mod 2 ^ n"
proof -
  have "drop_bit k (x AND push_bit k (mask n)) = take_bit n (drop_bit k x)"
    by (rule bit_eqI) (auto simp: bit_simps)
  then show ?thesis by (simp add: take_bit_eq_mod drop_bit_eq_div)
qed

lemma masks:
  "(0x7C0::int) = push_bit 6 (mask 5)" "(0xFC0::int) = push_bit 6 (mask 6)" "(0xF000::int) = push_bit 12 (mask 4)"
  "(0x3F000::int) = push_bit 12 (mask 6)" "(0x1C0000::int) = push_bit 18 (mask 3)" "(0x3F::int) = mask 6"
  "(0x1F::int) = mask 5" "(0xF::int) = mask 4" "(0x7::int) = mask 3"
  by (simp_all add: push_bit_eq_mult mask_eq_exp_minus_1)

lemma fields:
  "drop_bit 6 ((x::int) AND 0x7C0) = x div 64 mod 32" "drop_bit 6 (x AND 0xFC0) = x div 64 mod 64"
  "drop_bit 12 (x AND 0xF000) = x div 4096 mod 16" "drop_bit 12 (x AND 0x3F000) = x div 4096 mod 64"
  "drop_bit 18 (x AND 0x1C0000) = x div 262144 mod 8" "x AND 0x3F = x mod 64" "x AND 0x1F = x mod 32"
  "x AND 0xF = x mod 16" "x AND 0x7 = x mod 8"
  unfolding masks and_field take_bit_eq_mask [symmetric] take_bit_eq_mod by simp_all

lemma div_small: "(0::int) \<le> x \<Longrightarrow> 0 < k \<Longrightarrow> x < k * n \<Longrightarrow> x div k mod n = x div k"
proof -
  assume x: "0 \<le> x" "0 < k" "x < k * n"
  have "k * (x div k) < k * n" using x mult_div_mod_eq [of k x] pos_mod_sign [of k x] by linarith
  then have "x div k < n" using x(2) by simp
  moreover have "0 \<le> x div k" using x by (simp add: pos_imp_zdiv_nonneg_iff)
  ultimately show ?thesis by simp
qed

lemma utf8_encode_simps:
  "0 \<le> cp \<Longrightarrow> cp < 0x80 \<Longrightarrow> utf8_encode cp = Some [cp]"
  "0x80 \<le> cp \<Longrightarrow> cp < 0x800 \<Longrightarrow> utf8_encode cp = Some [0xC0 + cp div 64, 0x80 + cp mod 64]"
  "0x800 \<le> cp \<Longrightarrow> cp < 0x10000 \<Longrightarrow>
     utf8_encode cp = Some [0xE0 + cp div 4096, 0x80 + cp div 64 mod 64, 0x80 + cp mod 64]"
  "0x10000 \<le> cp \<Longrightarrow> cp \<le> 0x10FFFF \<Longrightarrow> utf8_encode cp =
     Some [0xF0 + cp div 262144, 0x80 + cp div 4096 mod 64, 0x80 + cp div 64 mod 64, 0x80 + cp mod 64]"
  unfolding utf8_encode_def fields
  using div_small [of cp 64 32] div_small [of cp 4096 16] div_small [of cp 262144 8] by simp_all

lemma check_full_simps:
  "utf8_check_full (a # b # r) 2 = (if b < 0x80 \<or> b > 0xBF then None
     else let v = a mod 32 * 64 + b mod 64 in if v < 0x80 then None else Some v)"
  "utf8_check_full (a # b # c # r) 3 = (if b < 0x80 \<or> b > 0xBF \<or> c < 0x80 \<or> c > 0xBF then None
     else let v = (a mod 16 * 64 + b mod 64) * 64 + c mod 64
          in if 0xD800 \<le> v \<and> v \<le> 0xDFFF \<or> v < 0x800 then None else Some v)"
  "utf8_check_full (a # b # c # d # r) 4 =
     (if b < 0x80 \<or> b > 0xBF \<or> c < 0x80 \<or> c > 0xBF \<or> d < 0x80 \<or> d > 0xBF then None
     else let v = ((a mod 8 * 64 + b mod 64) * 64 + c mod 64) * 64 + d mod 64
          in if v > 0x10FFFF \<or> v < 0x10000 then None else Some v)"
proof -
  have "a mod 32 * 64 + b mod 64 < 2048" by presburger
  then show "utf8_check_full (a # b # r) 2 = (if b < 0x80 \<or> b > 0xBF then None
     else let v = a mod 32 * 64 + b mod 64 in if v < 0x80 then None else Some v)"
    by (simp add: utf8_check_full_def fields push_bit_eq_mult Let_def)
  have "p \<le> 15 \<Longrightarrow> q \<le> 63 \<Longrightarrow> r \<le> 63 \<Longrightarrow> (p * 64 + q) * 64 + r \<le> 0xFFFF" for p q r :: int by simp
  moreover have "a mod 16 \<le> 15" "b mod 64 \<le> 63" "c mod 64 \<le> 63" by presburger+
  ultimately have "(a mod 16 * 64 + b mod 64) * 64 + c mod 64 \<le> 0xFFFF" .
  then show "utf8_check_full (a # b # c # r) 3 = (if b < 0x80 \<or> b > 0xBF \<or> c < 0x80 \<or> c > 0xBF then None
     else let v = (a mod 16 * 64 + b mod 64) * 64 + c mod 64
          in if 0xD800 \<le> v \<and> v \<le> 0xDFFF \<or> v < 0x800 then None else Some v)"
    by (simp add: utf8_check_full_def fields push_bit_eq_mult Let_def numeral_3_eq_3)
  show "utf8_check_full (a # b # c # d # r) 4 =
     (if b < 0x80 \<or> b > 0xBF \<or> c < 0x80 \<or> c > 0xBF \<or> d < 0x80 \<or> d > 0xBF then None
     else let v = ((a mod 8 * 64 + b mod 64) * 64 + c mod 64) * 64 + d mod 64
          in if v > 0x10FFFF \<or> v < 0x10000 then None else Some v)"
    by (simp add: utf8_check_full_def fields push_bit_eq_mult Let_def)
qed

lemma enc_simps:
  "0 \<le> cp \<Longrightarrow> cp < 0x80 \<Longrightarrow> enc cp = [cp]"
  "0x80 \<le> cp \<Longrightarrow> cp < 0x800 \<Longrightarrow> enc cp = [0xC0 + cp div 64, 0x80 + cp mod 64]"
  "0x800 \<le> cp \<Longrightarrow> cp < 0x10000 \<Longrightarrow> enc cp = [0xE0 + cp div 4096, 0x80 + cp div 64 mod 64, 0x80 + cp mod 64]"
  "0x10000 \<le> cp \<Longrightarrow> cp \<le> 0x10FFFF \<Longrightarrow> enc cp =
     [0xF0 + cp div 262144, 0x80 + cp div 4096 mod 64, 0x80 + cp div 64 mod 64, 0x80 + cp mod 64]"
  by (simp_all add: enc_def utf8_encode_simps)

lemma scalar_cases:
  assumes "scalar cp"
  obtains (1) "0 \<le> cp" "cp < 0x80" | (2) "0x80 \<le> cp" "cp < 0x800"
    | (3) "0x800 \<le> cp" "cp < 0x10000" "\<not> (0xD800 \<le> cp \<and> cp \<le> 0xDFFF)" | (4) "0x10000 \<le> cp" "cp \<le> 0x10FFFF"
  using assms by (fastforce simp: scalar_def)

lemma recompose:
  "(cp::int) div 64 * 64 + cp mod 64 = cp"
  "(cp div 4096 * 64 + cp div 64 mod 64) * 64 + cp mod 64 = cp"
  "((cp div 262144 * 64 + cp div 4096 mod 64) * 64 + cp div 64 mod 64) * 64 + cp mod 64 = cp"
proof -
  have d: "cp div 4096 = cp div 64 div 64" "cp div 262144 = cp div 64 div 64 div 64" for cp :: int
    by (simp_all flip: zdiv_zmult2_eq)
  have r: "x div 64 * 64 + x mod 64 = x" for x :: int by (rule div_mult_mod_eq)
  show "(cp::int) div 64 * 64 + cp mod 64 = cp" by (rule r)
  show "(cp div 4096 * 64 + cp div 64 mod 64) * 64 + cp mod 64 = cp" by (simp only: d r)
  show "((cp div 262144 * 64 + cp div 4096 mod 64) * 64 + cp div 64 mod 64) * 64 + cp mod 64 = cp"
    by (simp only: d r)
qed

lemma cont_byte: "0x80 \<le> 0x80 + (x::int) mod 64" "0x80 + (x::int) mod 64 \<le> 0xBF" "(0x80 + x mod 64) mod 64 = x mod 64"
proof -
  show "0x80 \<le> 0x80 + x mod 64" by simp
  have "x mod 64 < 64" by simp
  then show "0x80 + x mod 64 \<le> 0xBF" by simp
  have "(0x80 + x mod 64) mod 64 = (2 * 64 + x mod 64) mod 64" by simp
  also have "\<dots> = x mod 64 mod 64" by (rule mod_mult_self3)
  finally show "(0x80 + x mod 64) mod 64 = x mod 64" by simp
qed

text \<open>The decoder undoes the encoder.\<close>

lemma check_enc_all:
  assumes "scalar cp"
  shows "utf8_check_first (hd (enc cp)) = length (enc cp) \<and> 0 < length (enc cp) \<and>
    (1 < length (enc cp) \<longrightarrow> utf8_check_full (enc cp @ r) (length (enc cp)) = Some cp) \<and>
    (length (enc cp) = 1 \<longrightarrow> enc cp = [cp]) \<and> (cp < 0x80 \<longleftrightarrow> length (enc cp) = 1) \<and> bytes (enc cp)"
  using assms
proof (cases rule: scalar_cases)
  case 1
  then have e: "enc cp = [cp]" by (simp add: enc_simps)
  show ?thesis
    unfolding e using 1 by (simp_all add: utf8_check_first_def bytes_def)
next
  case 2
  define x y where "x = cp div 64" and "y = cp mod 64"
  have e: "enc cp = [0xC0 + x, 0x80 + y]" using 2 by (simp add: enc_simps x_def y_def)
  have q: "2 \<le> x" "x < 32" "0 \<le> y" "y < 64" "cp = x * 64 + y" using 2 by (simp_all add: x_def y_def)
  have m: "(0xC0 + x) mod 32 = x" "(0x80 + y) mod 64 = y"
    using q mod_mult_self3 [of 6 32 x] mod_mult_self3 [of 2 64 y] by simp_all
  show ?thesis
    unfolding e using q
    by (simp_all add: utf8_check_first_def bytes_def check_full_simps m Let_def flip: numeral_2_eq_2)
next
  case 3
  define x y z where "x = cp div 4096" and "y = cp div 64 mod 64" and "z = cp mod 64"
  have e: "enc cp = [0xE0 + x, 0x80 + y, 0x80 + z]" using 3 by (simp only: enc_simps(3) x_def y_def z_def)
  have "0 \<le> cp div 4096" "cp div 4096 < 16" using 3 by linarith+
  then have q: "0 \<le> x" "x < 16" "0 \<le> y" "y < 64" "0 \<le> z" "z < 64" and cp: "(x * 64 + y) * 64 + z = cp"
    using recompose(2) [of cp] by (simp_all add: x_def y_def z_def)
  have m: "(0xE0 + x) mod 16 = x" "(0x80 + y) mod 64 = y" "(0x80 + z) mod 64 = z"
    using q mod_mult_self3 [of 14 16 x] mod_mult_self3 [of 2 64 y] mod_mult_self3 [of 2 64 z] by simp_all
  have f: "utf8_check_full ([0xE0 + x, 0x80 + y, 0x80 + z] @ r) 3 = Some cp"
    unfolding append_Cons append_Nil check_full_simps m cp Let_def using q 3 by simp
  show ?thesis unfolding e using q 3 f
    by (simp add: utf8_check_first_def bytes_def flip: numeral_3_eq_3)
next
  case 4
  define w x y z where "w = cp div 262144" and "x = cp div 4096 mod 64" and "y = cp div 64 mod 64" and "z = cp mod 64"
  have e: "enc cp = [0xF0 + w, 0x80 + x, 0x80 + y, 0x80 + z]" using 4 by (simp only: enc_simps(4) w_def x_def y_def z_def)
  have "0 \<le> cp div 262144" "cp div 262144 < 5" using 4 by linarith+
  then have q: "0 \<le> w" "w < 5" "0 \<le> x" "x < 64" "0 \<le> y" "y < 64" "0 \<le> z" "z < 64"
    by (simp_all add: w_def x_def y_def z_def)
  have cp: "((w * 64 + x) * 64 + y) * 64 + z = cp"
    unfolding w_def x_def y_def z_def by (rule recompose(3))
  have m: "(0xF0 + w) mod 8 = w" "(0x80 + x) mod 64 = x" "(0x80 + y) mod 64 = y" "(0x80 + z) mod 64 = z"
    using q mod_mult_self3 [of 30 8 w] mod_mult_self3 [of 2 64 x] mod_mult_self3 [of 2 64 y] mod_mult_self3 [of 2 64 z]
    by simp_all
  have f: "utf8_check_full ([0xF0 + w, 0x80 + x, 0x80 + y, 0x80 + z] @ r) 4 = Some cp"
    unfolding append_Cons append_Nil check_full_simps m cp Let_def using q 4 by simp
  have l: "Suc (Suc (Suc (Suc 0))) = 4" by simp
  show ?thesis unfolding e using q 4 f by (simp add: utf8_check_first_def bytes_def l)
qed

lemma check_enc:
  assumes "scalar cp"
  shows "utf8_check_first (hd (enc cp)) = length (enc cp)" "0 < length (enc cp)" "enc cp \<noteq> []"
    "1 < length (enc cp) \<Longrightarrow> utf8_check_full (enc cp @ r) (length (enc cp)) = Some cp"
    "length (enc cp) = 1 \<Longrightarrow> enc cp = [cp]" "cp < 0x80 \<longleftrightarrow> length (enc cp) = 1" "bytes (enc cp)"
  using check_enc_all [OF assms, of r] by auto

text \<open>Conversely, whatever the decoder accepts is the encoding of a scalar value.\<close>

lemma divmod64: "0 \<le> r \<Longrightarrow> r < 64 \<Longrightarrow> (q * 64 + r) div 64 = (q::int)" "0 \<le> r \<Longrightarrow> r < 64 \<Longrightarrow> (q * 64 + r) mod 64 = r"
  by simp_all

lemma decode2:
  assumes a: "0xC2 \<le> a" "a \<le> 0xDF" and b: "0x80 \<le> b" "b \<le> (0xBF::int)"
  defines "v \<equiv> a mod 32 * 64 + b mod 64"
  shows "scalar v" "enc v = [a, b]"
proof -
  have a': "a mod 32 = a - 0xC0" using a mod_mult_self3 [of 6 32 "a - 0xC0"] by simp
  have b': "b mod 64 = b - 0x80" using b mod_mult_self3 [of 2 64 "b - 0x80"] by simp
  have v: "v = (a - 0xC0) * 64 + (b - 0x80)" by (simp add: v_def a' b')
  have r: "0x80 \<le> v" "v < 0x800" unfolding v using a b by simp_all
  have "v div 64 = a - 0xC0" "v mod 64 = b - 0x80" using b unfolding v by (intro divmod64; simp)+
  with r show "enc v = [a, b]" by (simp add: enc_simps)
  show "scalar v" using r by (simp add: scalar_def)
qed

lemma decode3:
  assumes a: "0xE0 \<le> a" "a \<le> 0xEF" and b: "0x80 \<le> b" "b \<le> (0xBF::int)" and c: "0x80 \<le> c" "c \<le> (0xBF::int)"
  defines "v \<equiv> (a mod 16 * 64 + b mod 64) * 64 + c mod 64"
  assumes r: "0x800 \<le> v" "\<not> (0xD800 \<le> v \<and> v \<le> 0xDFFF)"
  shows "scalar v" "enc v = [a, b, c]"
proof -
  have a': "a mod 16 = a - 0xE0" using a mod_mult_self3 [of 14 16 "a - 0xE0"] by simp
  have b': "b mod 64 = b - 0x80" using b mod_mult_self3 [of 2 64 "b - 0x80"] by simp
  have c': "c mod 64 = c - 0x80" using c mod_mult_self3 [of 2 64 "c - 0x80"] by simp
  have v: "v = ((a - 0xE0) * 64 + (b - 0x80)) * 64 + (c - 0x80)" unfolding v_def a' b' c' by simp
  have "v < 0x10000" unfolding v using a b c by simp
  have "v div 64 = (a - 0xE0) * 64 + (b - 0x80)" "v mod 64 = c - 0x80" using c unfolding v by (intro divmod64; simp)+
  moreover from this have "v div 4096 = a - 0xE0" "v div 64 mod 64 = b - 0x80"
    using b zdiv_zmult2_eq [of 64 v 64] divmod64 [of "b - 0x80" "a - 0xE0"] by simp_all
  ultimately show "enc v = [a, b, c]" using r(1) \<open>v < 0x10000\<close> by (simp add: enc_simps)
  show "scalar v" using r \<open>v < 0x10000\<close> by (simp add: scalar_def)
qed

lemma decode4:
  assumes a: "0xF0 \<le> a" "a \<le> 0xF4" and b: "0x80 \<le> b" "b \<le> (0xBF::int)" and c: "0x80 \<le> c" "c \<le> (0xBF::int)"
    and d: "0x80 \<le> d" "d \<le> (0xBF::int)"
  defines "v \<equiv> ((a mod 8 * 64 + b mod 64) * 64 + c mod 64) * 64 + d mod 64"
  assumes r: "0x10000 \<le> v" "v \<le> 0x10FFFF"
  shows "scalar v" "enc v = [a, b, c, d]"
proof -
  have a': "a mod 8 = a - 0xF0" using a mod_mult_self3 [of 30 8 "a - 0xF0"] by simp
  have b': "b mod 64 = b - 0x80" using b mod_mult_self3 [of 2 64 "b - 0x80"] by simp
  have c': "c mod 64 = c - 0x80" using c mod_mult_self3 [of 2 64 "c - 0x80"] by simp
  have d': "d mod 64 = d - 0x80" using d mod_mult_self3 [of 2 64 "d - 0x80"] by simp
  have v: "v = (((a - 0xF0) * 64 + (b - 0x80)) * 64 + (c - 0x80)) * 64 + (d - 0x80)"
    unfolding v_def a' b' c' d' by simp
  have q1: "v div 64 = ((a - 0xF0) * 64 + (b - 0x80)) * 64 + (c - 0x80)" "v mod 64 = d - 0x80"
    using d unfolding v by (intro divmod64; simp)+
  have "v div 4096 = v div 64 div 64" using zdiv_zmult2_eq [of 64 v 64] by simp
  moreover have "v div 64 div 64 = (a - 0xF0) * 64 + (b - 0x80)" "v div 64 mod 64 = c - 0x80"
    unfolding q1 using c by (intro divmod64; simp)+
  ultimately have q2: "v div 4096 = (a - 0xF0) * 64 + (b - 0x80)" "v div 64 mod 64 = c - 0x80" by simp_all
  have "v div 262144 = v div 4096 div 64" using zdiv_zmult2_eq [of 64 v 4096] by simp
  moreover have "v div 4096 div 64 = a - 0xF0" "v div 4096 mod 64 = b - 0x80"
    unfolding q2(1) using b by (intro divmod64; simp)+
  ultimately have q3: "v div 262144 = a - 0xF0" "v div 4096 mod 64 = b - 0x80" by (simp_all only:)
  show "enc v = [a, b, c, d]" unfolding enc_simps(4) [OF r] q3 q2(2) q1(2) by simp
  show "scalar v" using r by (simp add: scalar_def)
qed

text \<open>One step of the decoder.\<close>

lemma utf8_iterate_enc:
  assumes "scalar cp"
  shows "utf8_iterate (enc cp @ r) c0 = Some (length (enc cp), cp)"
proof -
  have "(enc cp @ r) ! 0 = hd (enc cp)" using check_enc(3) [OF assms] by (cases "enc cp") auto
  moreover have "length (enc cp) = 1 \<or> 1 < length (enc cp)" using check_enc(2) [OF assms] by linarith
  ultimately show ?thesis using check_enc [OF assms]
    by (auto simp: utf8_iterate_def Let_def)
qed

lemma list4_cases: "4 \<le> length xs \<Longrightarrow> \<exists>a b c d r. xs = a # b # c # d # r"
  by (metis Suc_le_length_iff eval_nat_numeral(2) numeral_3_eq_3 semiring_norm(26) semiring_norm(27))

lemma utf8_iterate_sound:
  assumes "utf8_iterate buf c0 = Some (n, cp)" "buf \<noteq> []" "bytes buf"
  shows "scalar cp" "enc cp = take n buf" "0 < n" "n \<le> length buf"
proof -
  obtain a r where buf: "buf = a # r" using assms(2) by (cases buf) auto
  have a: "0 \<le> a" using assms(3) by (simp add: bytes_def buf)
  let ?k = "utf8_check_first a"
  have n: "n = ?k" "0 < ?k" using assms(1) by (auto simp: utf8_iterate_def buf Let_def split: if_splits)
  have "scalar cp \<and> enc cp = take ?k buf \<and> ?k \<le> length buf"
  proof (cases "?k = 1")
    case True
    then have "a < 0x80" by (auto simp: utf8_check_first_def split: if_splits)
    with a assms(1) True n(1) show ?thesis by (simp add: utf8_iterate_def buf scalar_def enc_simps)
  next
    case False
    with n(2) have k: "?k \<le> length buf" "utf8_check_full buf ?k = Some cp"
      using assms(1) by (auto simp: utf8_iterate_def buf Let_def split: if_splits)
    consider "?k = 2" "0xC2 \<le> a" "a \<le> 0xDF" | "?k = 3" "0xE0 \<le> a" "a \<le> 0xEF" | "?k = 4" "0xF0 \<le> a" "a \<le> 0xF4"
      using n(2) False by (auto simp: utf8_check_first_def split: if_splits)
    then show ?thesis
    proof cases
      case 1
      then obtain b s where r: "r = b # s" using k(1) by (cases r) (auto simp: buf)
      show ?thesis using k decode2 [OF 1(2,3), of b] unfolding 1(1) buf r check_full_simps
        by (auto simp: Let_def split: if_splits)
    next
      case 2
      then obtain b c s where r: "r = b # c # s" using k(1) by (cases r; cases "tl r") (auto simp: buf)
      show ?thesis using k decode3 [OF 2(2,3), of b c] unfolding 2(1) buf r check_full_simps
        by (auto simp: Let_def split: if_splits)
    next
      case 3
      then obtain b c d s where r: "r = b # c # d # s" using k(1) list4_cases [of buf] by (auto simp: buf)
      show ?thesis using k decode4 [OF 3(2,3), of b c d] unfolding 3(1) buf r check_full_simps
        by (auto simp: Let_def split: if_splits)
    qed
  qed
  with n show "scalar cp" "enc cp = take n buf" "0 < n" "n \<le> length buf" by simp_all
qed

lemma utf8_check_string_step:
  assumes "s \<noteq> []"
  shows "utf8_check_string s \<longleftrightarrow> (\<exists>n cp. utf8_iterate s 0 = Some (n, cp) \<and> utf8_check_string (drop n s))"
proof -
  let ?k = "utf8_check_first (s ! 0)"
  consider "?k = 0" | "?k = 1" | "?k > 1" by linarith
  then show ?thesis
  proof cases
    case 3
    then show ?thesis using assms
      by (cases "utf8_check_full s ?k") (simp_all add: utf8_check_string.simps [of s] utf8_iterate_def Let_def)
  qed (use assms in \<open>simp_all add: utf8_check_string.simps [of s] utf8_iterate_def Let_def\<close>)
qed

lemma utf8_check_string_enc: "scalar cp \<Longrightarrow> utf8_check_string (enc cp @ s) = utf8_check_string s"
  using check_enc(3) [of cp] by (subst utf8_check_string_step) (auto simp: utf8_iterate_enc)

lemma utf8_check_string_enc_all: "\<forall>cp \<in> set cps. scalar cp \<Longrightarrow> utf8_check_string (enc_all cps @ s) = utf8_check_string s"
  by (induction cps) (auto simp: enc_all_def utf8_check_string_enc)

lemma utf8_check_string_Nil [simp]: "utf8_check_string []"
  by (simp add: utf8_check_string.simps)

lemma utf8_check_string_decode:
  assumes "utf8_check_string s" "bytes s"
  shows "\<exists>cps. (\<forall>cp \<in> set cps. scalar cp) \<and> s = enc_all cps"
  using assms
proof (induction "length s" arbitrary: s rule: less_induct)
  case less
  show ?case
  proof (cases "s = []")
    case True
    then show ?thesis by (intro exI [of _ "[]"]) (simp add: enc_all_def)
  next
    case False
    with less.prems obtain n cp where n: "utf8_iterate s 0 = Some (n, cp)" "utf8_check_string (drop n s)"
      using utf8_check_string_step by blast
    note S = utf8_iterate_sound [OF n(1) False less.prems(2)]
    have "bytes (drop n s)" using less.prems(2) by (auto simp: bytes_def dest: in_set_dropD)
    with less.hyps [of "drop n s"] n(2) S(3) False obtain cps where "\<forall>cp \<in> set cps. scalar cp" "drop n s = enc_all cps"
      by auto
    moreover from this S(2) have "s = enc_all (cp # cps)"
      by (metis append_take_drop_id concat.simps(2) enc_all_def list.simps(9))
    ultimately show ?thesis using S(1) by (intro exI [of _ "cp # cps"]) simp
  qed
qed

lemma utf8_encode_scalar:
  assumes "scalar cp"
  shows "utf8_encode cp = Some (enc cp) \<and> length (enc cp) \<le> 4"
  using assms by (cases rule: scalar_cases) (simp_all add: enc_def utf8_encode_simps)

section \<open>Properties\<close>

text \<open>
  C5. Encoding and decoding are inverse. \<^verbatim>\<open>utf8_encode\<close> succeeds on every scalar value with one to four
  bytes, and \<^verbatim>\<open>utf8_iterate\<close> on a buffer that starts with them returns that value and their number;
  conversely, whenever \<^verbatim>\<open>utf8_iterate\<close> succeeds on a nonempty buffer of bytes, the code point is a scalar value
  (no surrogate, not beyond the Unicode range) and the bytes passed over are exactly its
  encoding, so no overlong form is accepted and no byte outside the buffer is read.
\<close>

theorem utf8_codec:
  "(scalar cp \<longrightarrow> (\<exists>bs. utf8_encode cp = Some bs \<and> 0 < length bs \<and> length bs \<le> 4 \<and> bytes bs \<and>
     utf8_iterate (bs @ rest) c0 = Some (length bs, cp))) \<and>
   (bytes buf \<and> buf \<noteq> [] \<and> utf8_iterate buf c0 = Some (n, cp') \<longrightarrow>
     scalar cp' \<and> n \<le> length buf \<and> utf8_encode cp' = Some (take n buf))"
proof -
  have "\<exists>bs. utf8_encode cp = Some bs \<and> 0 < length bs \<and> length bs \<le> 4 \<and> bytes bs \<and>
     utf8_iterate (bs @ rest) c0 = Some (length bs, cp)" if "scalar cp"
    using utf8_encode_scalar [OF that] check_enc [OF that] utf8_iterate_enc [OF that] by blast
  moreover have "scalar cp' \<and> n \<le> length buf \<and> utf8_encode cp' = Some (take n buf)"
    if "bytes buf" "buf \<noteq> []" "utf8_iterate buf c0 = Some (n, cp')"
    using utf8_iterate_sound [OF that(3,2,1)] utf8_encode_scalar by auto
  ultimately show ?thesis by blast
qed

theorem utf8_codec_witness:
  "(\<exists>bs. utf8_encode 0x20AC = Some bs \<and> utf8_iterate (bs @ [65]) 0 = Some (length bs, 0x20AC)) \<and>
   utf8_encode 0xE9 = Some (take 2 [0xC3, 0xA9, 65])"
proof -
  have "scalar 0x20AC" "bytes [0xC3, 0xA9, 65]" by (simp_all add: scalar_def bytes_def)
  moreover have "utf8_iterate [0xC3, 0xA9, 65] 0 = Some (2, 0xE9)" by code_simp
  ultimately show ?thesis
    using utf8_codec [of "0x20AC" "[65]" 0 "[0xC3, 0xA9, 65]" 2 "0xE9"] by blast
qed

text \<open>
  \<^verbatim>\<open>utf8_check_string\<close> accepts a byte string exactly when it is the concatenation of the encodings
  of a sequence of scalar values.
\<close>

theorem utf8_check_string_iff:
  assumes "bytes s"
  shows "utf8_check_string s \<longleftrightarrow> (\<exists>cps. (\<forall>cp \<in> set cps. scalar cp) \<and> map utf8_encode cps = map Some (map enc cps) \<and> s = concat (map enc cps))"
  using utf8_check_string_decode [OF _ assms] utf8_check_string_enc_all [of _ "[]"] utf8_encode_scalar
  by (fastforce simp: enc_all_def)

theorem utf8_check_string_witness:
  "bytes [0x7B, 0xC3, 0xA9] \<and> (\<exists>cps. (\<forall>cp \<in> set cps. scalar cp) \<and> [0x7B, 0xC3, 0xA9] = concat (map enc cps)) \<and>
   \<not> (\<exists>cps. (\<forall>cp \<in> set cps. scalar cp) \<and> map utf8_encode cps = map Some (map enc cps) \<and> [0xC0, 0x80] = concat (map enc cps))"
proof -
  have b: "bytes [0x7B, 0xC3, 0xA9]" "bytes [0xC0, 0x80]" by (simp_all add: bytes_def)
  have "utf8_check_string [0x7B, 0xC3, 0xA9]" "\<not> utf8_check_string [0xC0, 0x80]" by code_simp+
  with b show ?thesis
    using utf8_check_string_iff [OF b(1)] utf8_check_string_iff [OF b(2)] by blast
qed

end
