(* ===== verification/JsonLoad.thy ===== *)
theory JsonLoad
  imports Utf
begin

text \<open>
  The decoder of \<^verbatim>\<open>jansson-2.14/src/load.c\<close> with the error object of \<^verbatim>\<open>error.c\<close>: stream, lexical
  analyser, parser and entry points.

  A \<^verbatim>\<open>char\<close> is its unsigned value, \<^verbatim>\<open>EOF\<close> is -1. The source of a stream is the finite sequence of
  bytes it delivers before \<^verbatim>\<open>EOF\<close>, whichever \<^verbatim>\<open>get_func\<close> reads it. Memory is never exhausted, so
  \<^verbatim>\<open>saved_text\<close> is the contents of the string buffer (theory \<open>StrBuffer\<close> relates the two), and a
  value under construction, which nothing else refers to, is a tree. A failed \<^verbatim>\<open>assert\<close>, an access
  outside an array and a loop that does not end are \<^term>\<open>None\<close>. The libc function \<^verbatim>\<open>strtod\<close> is a parameter, in
  the C locale; line, column and position are unbounded.
\<close>

section \<open>Values\<close>

datatype 'r json =
    JObject "(int list \<times> 'r json) list"
  | JArray "'r json list"
  | JString "int list"
  | JInteger int
  | JReal 'r
  | JTrue
  | JFalse
  | JNull

text \<open>\<^verbatim>\<open>json_object_setn_new_nocheck\<close> and \<^verbatim>\<open>json_object_getn\<close> on the ordered members of an object.\<close>

fun set_member :: "int list \<Rightarrow> 'v \<Rightarrow> (int list \<times> 'v) list \<Rightarrow> (int list \<times> 'v) list" where
  "set_member k v [] = [(k, v)]"
| "set_member k v ((k', v') # ms) = (if k' = k then (k, v) # ms else (k', v') # set_member k v ms)"

section \<open>Errors\<close>

datatype json_error_code =
    json_error_unknown | json_error_out_of_memory | json_error_stack_overflow | json_error_cannot_open_file
  | json_error_invalid_argument | json_error_invalid_utf8 | json_error_premature_end_of_input
  | json_error_end_of_input_expected | json_error_invalid_syntax | json_error_invalid_format
  | json_error_wrong_type | json_error_null_character | json_error_null_value | json_error_null_byte_in_key
  | json_error_duplicate_key | json_error_numeric_overflow | json_error_item_not_found | json_error_index_out_of_range

record json_error_t =
  err_line :: int
  err_column :: int
  err_position :: int
  err_source :: "int list"
  err_text :: "int list"
  err_code :: json_error_code

definition str :: "string \<Rightarrow> int list" where
  "str s = map of_char s"

definition JSON_ERROR_TEXT_LENGTH :: nat where
  "JSON_ERROR_TEXT_LENGTH = 160"

definition JSON_ERROR_SOURCE_LENGTH :: nat where
  "JSON_ERROR_SOURCE_LENGTH = 80"

definition jsonp_error_set_source :: "json_error_t \<Rightarrow> int list \<Rightarrow> json_error_t" where
  "jsonp_error_set_source e source =
     e\<lparr>err_source :=
       (if length source < JSON_ERROR_SOURCE_LENGTH then source
        else str ''...'' @ drop (length source - JSON_ERROR_SOURCE_LENGTH + 4) source)\<rparr>"

definition jsonp_error_init :: "json_error_t option \<Rightarrow> int list \<Rightarrow> json_error_t option" where
  "jsonp_error_init error source =
     map_option (\<lambda>e. jsonp_error_set_source
       (e\<lparr>err_text := [], err_line := -1, err_column := -1, err_position := 0\<rparr>) source) error"

definition jsonp_error_set ::
  "json_error_t option \<Rightarrow> int \<Rightarrow> int \<Rightarrow> int \<Rightarrow> json_error_code \<Rightarrow> int list \<Rightarrow> json_error_t option" where
  "jsonp_error_set error line column position code msg =
     map_option (\<lambda>e. if err_text e \<noteq> [] then e
       else e\<lparr>err_line := line, err_column := column, err_position := position,
              err_text := take (JSON_ERROR_TEXT_LENGTH - 2) msg, err_code := code\<rparr>) error"

text \<open>The formats \<^verbatim>\<open>%x\<close> and \<^verbatim>\<open>%04X\<close>.\<close>

fun hex_digits :: "nat \<Rightarrow> int \<Rightarrow> int \<Rightarrow> int list" where
  "hex_digits 0 ten n = []"
| "hex_digits (Suc k) ten n =
     hex_digits k ten (n div 16) @ [if n mod 16 < 10 then 48 + n mod 16 else ten + (n mod 16 - 10)]"

definition fmt_x :: "int \<Rightarrow> int list" where
  "fmt_x n = (if n < 16 then hex_digits 1 97 n else hex_digits 2 97 n)"

definition fmt_04X :: "int \<Rightarrow> int list" where
  "fmt_04X n = hex_digits 4 65 n"

section \<open>Stream and lexer state\<close>

definition STREAM_STATE_OK :: int where "STREAM_STATE_OK = 0"
definition STREAM_STATE_EOF :: int where "STREAM_STATE_EOF = -1"
definition STREAM_STATE_ERROR :: int where "STREAM_STATE_ERROR = -2"

definition TOKEN_INVALID :: int where "TOKEN_INVALID = -1"
definition TOKEN_EOF :: int where "TOKEN_EOF = 0"
definition TOKEN_STRING :: int where "TOKEN_STRING = 256"
definition TOKEN_INTEGER :: int where "TOKEN_INTEGER = 257"
definition TOKEN_REAL :: int where "TOKEN_REAL = 258"
definition TOKEN_TRUE :: int where "TOKEN_TRUE = 259"
definition TOKEN_FALSE :: int where "TOKEN_FALSE = 260"
definition TOKEN_NULL :: int where "TOKEN_NULL = 261"

definition JSON_REJECT_DUPLICATES :: nat where "JSON_REJECT_DUPLICATES = 1"
definition JSON_DISABLE_EOF_CHECK :: nat where "JSON_DISABLE_EOF_CHECK = 2"
definition JSON_DECODE_ANY :: nat where "JSON_DECODE_ANY = 4"
definition JSON_DECODE_INT_AS_REAL :: nat where "JSON_DECODE_INT_AS_REAL = 8"
definition JSON_ALLOW_NUL :: nat where "JSON_ALLOW_NUL = 16"
definition JSON_PARSER_MAX_DEPTH :: nat where "JSON_PARSER_MAX_DEPTH = 2048"

definition l_isupper :: "int \<Rightarrow> bool" where "l_isupper c \<longleftrightarrow> 65 \<le> c \<and> c \<le> 90"
definition l_islower :: "int \<Rightarrow> bool" where "l_islower c \<longleftrightarrow> 97 \<le> c \<and> c \<le> 122"
definition l_isalpha :: "int \<Rightarrow> bool" where "l_isalpha c \<longleftrightarrow> l_isupper c \<or> l_islower c"
definition l_isdigit :: "int \<Rightarrow> bool" where "l_isdigit c \<longleftrightarrow> 48 \<le> c \<and> c \<le> 57"
definition l_isxdigit :: "int \<Rightarrow> bool" where
  "l_isxdigit c \<longleftrightarrow> l_isdigit c \<or> (65 \<le> c \<and> c \<le> 70) \<or> (97 \<le> c \<and> c \<le> 102)"

text \<open>The source of the stream and its \<^verbatim>\<open>get\<close> are the bytes still to come.\<close>

record stream_t =
  st_data :: "int list"
  st_buffer :: "int list"
  st_buffer_pos :: nat
  st_state :: int
  st_line :: int
  st_column :: int
  st_last_column :: int
  st_position :: int

text \<open>The lexer together with the error object of the caller (\<^term>\<open>None\<close> for NULL).\<close>

record 'r lex_t =
  lx_stream :: stream_t
  saved_text :: "int list"
  lx_flags :: nat
  depth :: nat
  token :: int
  string_val :: "int list option"
  integer_val :: int
  real_val :: "'r option"
  lx_error :: "json_error_t option"

text \<open>\<^verbatim>\<open>error_set\<close> with a lexer and without.\<close>

definition error_set :: "'r lex_t \<Rightarrow> json_error_code \<Rightarrow> int list \<Rightarrow> 'r lex_t" where
  "error_set lx code msg =
     (let msg_text = take (JSON_ERROR_TEXT_LENGTH - 1) msg;
          st = lx_stream lx;
          saved = takeWhile (\<lambda>c. c \<noteq> 0) (saved_text lx);
          (result, code') =
            (if saved \<noteq> []
             then (if length (saved_text lx) \<le> 20
                   then take (JSON_ERROR_TEXT_LENGTH - 1) (msg_text @ str '' near '' @ [39] @ saved @ [39])
                   else msg_text, code)
             else (if st_state st = STREAM_STATE_ERROR then msg_text
                   else take (JSON_ERROR_TEXT_LENGTH - 1) (msg_text @ str '' near end of file''),
                   if code = json_error_invalid_syntax then json_error_premature_end_of_input else code))
      in lx\<lparr>lx_error := jsonp_error_set (lx_error lx) (st_line st) (st_column st) (st_position st) code' result\<rparr>)"

definition error_set_nolex :: "json_error_t option \<Rightarrow> json_error_code \<Rightarrow> int list \<Rightarrow> json_error_t option" where
  "error_set_nolex error code msg =
     jsonp_error_set error (-1) (-1) 0 code (take (JSON_ERROR_TEXT_LENGTH - 1) msg)"

section \<open>The stream\<close>

definition stream_init :: "int list \<Rightarrow> stream_t" where
  "stream_init data = \<lparr>st_data = data, st_buffer = [0, 0, 0, 0, 0], st_buffer_pos = 0, st_state = STREAM_STATE_OK,
     st_line = 1, st_column = 0, st_last_column = 0, st_position = 0\<rparr>"

definition st_get :: "stream_t \<Rightarrow> int \<times> stream_t" where
  "st_get st = (case st_data st of [] \<Rightarrow> (-1, st) | c # cs \<Rightarrow> (c, st\<lparr>st_data := cs\<rparr>))"

text \<open>The loop that fetches \<open>k\<close> continuation bytes from index \<open>i\<close> on; \<^verbatim>\<open>EOF\<close> is stored as a \<^verbatim>\<open>char\<close>.\<close>

fun fill_buffer :: "nat \<Rightarrow> nat \<Rightarrow> stream_t \<Rightarrow> stream_t" where
  "fill_buffer i 0 st = st"
| "fill_buffer i (Suc k) st =
     (let (c, st1) = st_get st
      in fill_buffer (Suc i) k (st1\<lparr>st_buffer := (st_buffer st1)[i := c mod 256]\<rparr>))"

definition stream_take :: "stream_t \<Rightarrow> int \<times> stream_t" where
  "stream_take st =
     (let c = st_buffer st ! st_buffer_pos st;
          st1 = st\<lparr>st_buffer_pos := st_buffer_pos st + 1, st_position := st_position st + 1\<rparr>
      in (c, if c = 10
             then st1\<lparr>st_line := st_line st + 1, st_last_column := st_column st, st_column := 0\<rparr>
             else if utf8_check_first c \<noteq> 0 then st1\<lparr>st_column := st_column st + 1\<rparr> else st1))"

definition stream_fail :: "'r lex_t \<Rightarrow> int \<Rightarrow> int \<times> 'r lex_t" where
  "stream_fail lx c =
     (STREAM_STATE_ERROR,
      error_set (lx\<lparr>lx_stream := (lx_stream lx)\<lparr>st_state := STREAM_STATE_ERROR\<rparr>\<rparr>) json_error_invalid_utf8
        (str ''unable to decode byte 0x'' @ fmt_x c))"

definition stream_get :: "'r lex_t \<Rightarrow> (int \<times> 'r lex_t) option" where
  "stream_get lx =
     (let st = lx_stream lx;
          deliver = (\<lambda>s. let (c, s') = stream_take s in (c, lx\<lparr>lx_stream := s'\<rparr>))
      in if st_state st \<noteq> STREAM_STATE_OK then Some (st_state st, lx)
         else if st_buffer st ! st_buffer_pos st = 0
         then (let (c, st1) = st_get st
               in if c = -1
                  then Some (STREAM_STATE_EOF, lx\<lparr>lx_stream := st1\<lparr>st_state := STREAM_STATE_EOF\<rparr>\<rparr>)
                  else let st2 = st1\<lparr>st_buffer := (st_buffer st1)[0 := c], st_buffer_pos := 0\<rparr>
                       in if 0x80 \<le> c \<and> c \<le> 0xFF
                          then (let count = utf8_check_first c
                                in if count = 0 then Some (stream_fail (lx\<lparr>lx_stream := st2\<rparr>) c)
                                   else do {
                                     assert_c (count \<ge> 2);
                                     let st3 = fill_buffer 1 (count - 1) st2;
                                     if utf8_check_full (st_buffer st3) count = None
                                     then Some (stream_fail (lx\<lparr>lx_stream := st3\<rparr>) c)
                                     else Some (deliver (st3\<lparr>st_buffer := (st_buffer st3)[count := 0]\<rparr>)) })
                          else Some (deliver (st2\<lparr>st_buffer := (st_buffer st2)[1 := 0]\<rparr>)))
         else Some (deliver st))"

definition stream_unget :: "'r lex_t \<Rightarrow> int \<Rightarrow> 'r lex_t option" where
  "stream_unget lx c =
     (if c = STREAM_STATE_EOF \<or> c = STREAM_STATE_ERROR then Some lx
      else let st = lx_stream lx;
               st1 = st\<lparr>st_position := st_position st - 1\<rparr>;
               st2 = (if c = 10 then st1\<lparr>st_line := st_line st - 1, st_column := st_last_column st\<rparr>
                      else if utf8_check_first c \<noteq> 0 then st1\<lparr>st_column := st_column st - 1\<rparr> else st1)
           in do {
             assert_c (st_buffer_pos st2 > 0);
             let st3 = st2\<lparr>st_buffer_pos := st_buffer_pos st2 - 1\<rparr>;
             assert_c (st_buffer st3 ! st_buffer_pos st3 = c);
             Some (lx\<lparr>lx_stream := st3\<rparr>) })"

section \<open>The lexical analyser\<close>

definition lex_get :: "'r lex_t \<Rightarrow> (int \<times> 'r lex_t) option" where
  "lex_get lx = stream_get lx"

definition lex_save :: "'r lex_t \<Rightarrow> int \<Rightarrow> 'r lex_t" where
  "lex_save lx c = lx\<lparr>saved_text := saved_text lx @ [c]\<rparr>"

definition lex_get_save :: "'r lex_t \<Rightarrow> (int \<times> 'r lex_t) option" where
  "lex_get_save lx = do {
     (c, lx1) \<leftarrow> stream_get lx;
     Some (c, if c \<noteq> STREAM_STATE_EOF \<and> c \<noteq> STREAM_STATE_ERROR then lex_save lx1 c else lx1) }"

definition lex_unget :: "'r lex_t \<Rightarrow> int \<Rightarrow> 'r lex_t option" where
  "lex_unget lx c = stream_unget lx c"

definition lex_unget_unsave :: "'r lex_t \<Rightarrow> int \<Rightarrow> 'r lex_t option" where
  "lex_unget_unsave lx c =
     (if c \<noteq> STREAM_STATE_EOF \<and> c \<noteq> STREAM_STATE_ERROR
      then do {
        lx1 \<leftarrow> stream_unget lx c;
        let d = (if saved_text lx1 = [] then 0 else last (saved_text lx1));
        assert_c (c = d);
        Some (lx1\<lparr>saved_text := butlast (saved_text lx1)\<rparr>) }
      else Some lx)"

function lex_save_cached :: "'r lex_t \<Rightarrow> 'r lex_t option" where
  "lex_save_cached lx =
     (let st = lx_stream lx in
      if st_buffer_pos st < length (st_buffer st)
      then (if st_buffer st ! st_buffer_pos st \<noteq> 0
            then lex_save_cached ((lex_save lx (st_buffer st ! st_buffer_pos st))\<lparr>lx_stream :=
                   st\<lparr>st_buffer_pos := st_buffer_pos st + 1, st_position := st_position st + 1\<rparr>\<rparr>)
            else Some lx)
      else None)"
  by pat_completeness auto
termination by (relation "measure (\<lambda>lx. length (st_buffer (lx_stream lx)) - st_buffer_pos (lx_stream lx))")
  (auto simp: lex_save_def)

definition lex_free_string :: "'r lex_t \<Rightarrow> 'r lex_t" where
  "lex_free_string lx = lx\<lparr>string_val := None\<rparr>"

fun unicode_loop :: "int list \<Rightarrow> nat \<Rightarrow> int \<Rightarrow> int option" where
  "unicode_loop p 0 value = Some value"
| "unicode_loop [] (Suc k) value = None"
| "unicode_loop (c # p) (Suc k) value =
     (let v = push_bit 4 value in
      if l_isdigit c then unicode_loop p k (v + (c - 48))
      else if l_islower c then unicode_loop p k (v + (c - 97 + 10))
      else if l_isupper c then unicode_loop p k (v + (c - 65 + 10))
      else Some (-1))"

definition decode_unicode_escape :: "int list \<Rightarrow> int option" where
  "decode_unicode_escape p =
     (case p of [] \<Rightarrow> None | c # q \<Rightarrow> do { assert_c (c = 117); unicode_loop q 4 0 })"

text \<open>The first pass of \<^verbatim>\<open>lex_scan_string\<close>: up to the closing quote; False is the jump to \<^verbatim>\<open>out\<close>.\<close>

fun scan_hex :: "nat \<Rightarrow> int \<Rightarrow> 'r lex_t \<Rightarrow> (bool \<times> int \<times> 'r lex_t) option" where
  "scan_hex 0 c lx = Some (True, c, lx)"
| "scan_hex (Suc k) c lx =
     (if \<not> l_isxdigit c then Some (False, c, error_set lx json_error_invalid_syntax (str ''invalid escape''))
      else do { (c', lx') \<leftarrow> lex_get_save lx; scan_hex k c' lx' })"

partial_function (option) scan_string :: "int \<Rightarrow> 'r lex_t \<Rightarrow> (bool \<times> 'r lex_t) option" where
  "scan_string c lx =
     (if c = 34 then Some (True, lx)
      else if c = STREAM_STATE_ERROR then Some (False, lx)
      else if c = STREAM_STATE_EOF
      then Some (False, error_set lx json_error_premature_end_of_input (str ''premature end of input''))
      else if 0 \<le> c \<and> c \<le> 0x1F
      then do {
        lx1 \<leftarrow> lex_unget_unsave lx c;
        Some (False, if c = 10 then error_set lx1 json_error_invalid_syntax (str ''unexpected newline'')
                     else error_set lx1 json_error_invalid_syntax (str ''control character 0x'' @ fmt_x c)) }
      else if c = 92
      then do {
        (c1, lx1) \<leftarrow> lex_get_save lx;
        if c1 = 117
        then do {
          (c2, lx2) \<leftarrow> lex_get_save lx1;
          (ok, c3, lx3) \<leftarrow> scan_hex 4 c2 lx2;
          if ok then scan_string c3 lx3 else Some (False, lx3) }
        else if c1 = 34 \<or> c1 = 92 \<or> c1 = 47 \<or> c1 = 98 \<or> c1 = 102 \<or> c1 = 110 \<or> c1 = 114 \<or> c1 = 116
        then do { (c2, lx2) \<leftarrow> lex_get_save lx1; scan_string c2 lx2 }
        else Some (False, error_set lx1 json_error_invalid_syntax (str ''invalid escape'')) }
      else do { (c1, lx1) \<leftarrow> lex_get_save lx; scan_string c1 lx1 })"

text \<open>The second pass: \<open>p\<close> is the rest of \<^verbatim>\<open>saved_text\<close> with its terminator, \<open>t\<close> the bytes written so
  far; \<open>Inl\<close> is an error message. First the \<^verbatim>\<open>\u\<close> escapes, with \<open>p\<close> at the backslash.\<close>

definition decode_u :: "int list \<Rightarrow> (int list + int list \<times> int list) option" where
  "decode_u p =
     (let emit = (\<lambda>value rest. case utf8_encode value of None \<Rightarrow> None | Some bs \<Rightarrow> Some (Inr (bs, rest)))
      in do {
        value \<leftarrow> decode_unicode_escape (drop 1 p);
        if value < 0 then Some (Inl (str ''invalid Unicode escape '' @ [39] @ take 6 p @ [39]))
        else let p1 = drop 6 p in
          if 0xD800 \<le> value \<and> value \<le> 0xDBFF
          then (if take 2 p1 = [92, 117]
                then do {
                  value2 \<leftarrow> decode_unicode_escape (drop 1 p1);
                  if value2 < 0 then Some (Inl (str ''invalid Unicode escape '' @ [39] @ take 6 p1 @ [39]))
                  else if 0xDC00 \<le> value2 \<and> value2 \<le> 0xDFFF
                  then emit (push_bit 10 (value - 0xD800) + (value2 - 0xDC00) + 0x10000) (drop 6 p1)
                  else Some (Inl (str ''invalid Unicode '' @ [39, 92, 117] @ fmt_04X value @ [92, 117] @ fmt_04X value2 @ [39])) }
                else Some (Inl (str ''invalid Unicode '' @ [39, 92, 117] @ fmt_04X value @ [39])))
          else if 0xDC00 \<le> value \<and> value \<le> 0xDFFF
          then Some (Inl (str ''invalid Unicode '' @ [39, 92, 117] @ fmt_04X value @ [39]))
          else emit value p1 })"

definition decode_short :: "int \<Rightarrow> int option" where
  "decode_short c =
     (if c = 34 \<or> c = 92 \<or> c = 47 then Some c
      else if c = 98 then Some 8 else if c = 102 then Some 12 else if c = 110 then Some 10
      else if c = 114 then Some 13 else if c = 116 then Some 9 else None)"

lemma decode_u_shorter: "decode_u p = Some (Inr (bs, rest)) \<Longrightarrow> length rest < length p \<or> p = []"
  by (auto simp: decode_u_def Let_def split: if_splits option.splits bind_splits)

function decode_string :: "int list \<Rightarrow> int list \<Rightarrow> (int list + int list) option" where
  "decode_string p t =
     (case p of
        [] \<Rightarrow> None
      | c # q \<Rightarrow>
          if c = 34 then Some (Inr t)
          else if c = 92
          then (case q of
                  [] \<Rightarrow> None
                | d # r \<Rightarrow>
                    if d = 117
                    then (case decode_u p of
                            None \<Rightarrow> None
                          | Some (Inl msg) \<Rightarrow> Some (Inl msg)
                          | Some (Inr (bs, rest)) \<Rightarrow> decode_string rest (t @ bs))
                    else (case decode_short d of None \<Rightarrow> None | Some b \<Rightarrow> decode_string r (t @ [b])))
          else decode_string q (t @ [c]))"
  by pat_completeness auto
termination by (relation "measure (\<lambda>(p, t). length p)") (auto dest: decode_u_shorter)

definition lex_scan_string :: "'r lex_t \<Rightarrow> 'r lex_t option" where
  "lex_scan_string lx0 = do {
     (c, lx1) \<leftarrow> lex_get_save (lx0\<lparr>string_val := None, token := TOKEN_INVALID\<rparr>);
     (ok, lx2) \<leftarrow> scan_string c lx1;
     if \<not> ok then Some (lex_free_string lx2)
     else (case decode_string (drop 1 (saved_text lx2 @ [0])) [] of
             None \<Rightarrow> None
           | Some (Inl msg) \<Rightarrow> Some (lex_free_string (error_set lx2 json_error_invalid_syntax msg))
           | Some (Inr t) \<Rightarrow> Some (lx2\<lparr>string_val := Some t, token := TOKEN_STRING\<rparr>)) }"

text \<open>\<^verbatim>\<open>strtoll\<close> on a text without leading white space or plus sign: the value, whether it was out of
  range, and the number of characters consumed. \<^verbatim>\<open>strtod\<close> is a parameter that returns the
  number of characters consumed, the value, and whether it overflowed.\<close>

definition digits_value :: "int list \<Rightarrow> int" where
  "digits_value ds = foldl (\<lambda>v c. v * 10 + (c - 48)) 0 ds"

definition strtoll :: "int list \<Rightarrow> int \<times> bool \<times> nat" where
  "strtoll s =
     (let neg = (s \<noteq> [] \<and> hd s = 45);
          ds = takeWhile l_isdigit (if neg then tl s else s);
          v = (if neg then - digits_value ds else digits_value ds)
      in if v < - (2 ^ 63) then (- (2 ^ 63), True, (if neg then 1 else 0) + length ds)
         else if v > 2 ^ 63 - 1 then (2 ^ 63 - 1, True, (if neg then 1 else 0) + length ds)
         else (v, False, if ds = [] then 0 else (if neg then 1 else 0) + length ds))"

type_synonym 'r strtodf = "int list \<Rightarrow> nat \<times> 'r \<times> bool"

definition jsonp_strtod :: "'r strtodf \<Rightarrow> int list \<Rightarrow> 'r option option" where
  "jsonp_strtod strtod text =
     (let (n, value, overflow) = strtod text
      in do { assert_c (n = length text); Some (if overflow then None else Some value) })"

partial_function (option) scan_digits :: "'r lex_t \<Rightarrow> (int \<times> 'r lex_t) option" where
  "scan_digits lx = do {
     (c, lx1) \<leftarrow> lex_get_save lx;
     if l_isdigit c then scan_digits lx1 else Some (c, lx1) }"

text \<open>\<^verbatim>\<open>lex_scan_number\<close> in three parts: the integer part (None inside is the jump to \<^verbatim>\<open>out\<close>), the fraction
  and the exponent. The result says whether the scan succeeded.\<close>

definition scan_int_part :: "int \<Rightarrow> 'r lex_t \<Rightarrow> (int option \<times> 'r lex_t) option" where
  "scan_int_part c0 lx0 = do {
     (c, lx) \<leftarrow> (if c0 = 45 then lex_get_save lx0 else Some (c0, lx0));
     if c = 48
     then do {
       (c1, lx1) \<leftarrow> lex_get_save lx;
       if l_isdigit c1 then do { lx2 \<leftarrow> lex_unget_unsave lx1 c1; Some (None, lx2) } else Some (Some c1, lx1) }
     else if l_isdigit c then do { (c1, lx1) \<leftarrow> scan_digits lx; Some (Some c1, lx1) }
     else do { lx1 \<leftarrow> lex_unget_unsave lx c; Some (None, lx1) } }"

definition scan_fraction :: "int \<Rightarrow> 'r lex_t \<Rightarrow> (int option \<times> 'r lex_t) option" where
  "scan_fraction c lx =
     (if c = 46
      then do {
        (c1, lx1) \<leftarrow> lex_get lx;
        if \<not> l_isdigit c1 then do { lx2 \<leftarrow> lex_unget lx1 c1; Some (None, lx2) }
        else do { (c2, lx2) \<leftarrow> scan_digits (lex_save lx1 c1); Some (Some c2, lx2) } }
      else Some (Some c, lx))"

definition scan_exponent :: "int \<Rightarrow> 'r lex_t \<Rightarrow> (int option \<times> 'r lex_t) option" where
  "scan_exponent c lx =
     (if c = 69 \<or> c = 101
      then do {
        (c1, lx1) \<leftarrow> lex_get_save lx;
        (c2, lx2) \<leftarrow> (if c1 = 43 \<or> c1 = 45 then lex_get_save lx1 else Some (c1, lx1));
        if \<not> l_isdigit c2 then do { lx3 \<leftarrow> lex_unget_unsave lx2 c2; Some (None, lx3) }
        else do { (c3, lx3) \<leftarrow> scan_digits lx2; Some (Some c3, lx3) } }
      else Some (Some c, lx))"

definition finish_integer :: "int \<Rightarrow> 'r lex_t \<Rightarrow> (bool \<times> 'r lex_t) option" where
  "finish_integer c lx = do {
     lx1 \<leftarrow> lex_unget_unsave lx c;
     let (intval, erange, n) = strtoll (saved_text lx1);
     if erange
     then Some (False, error_set lx1 json_error_numeric_overflow
                  (if intval < 0 then str ''too big negative integer'' else str ''too big integer''))
     else do {
       assert_c (n = length (saved_text lx1));
       Some (True, lx1\<lparr>token := TOKEN_INTEGER, integer_val := intval\<rparr>) } }"

definition finish_real :: "'r strtodf \<Rightarrow> int \<Rightarrow> 'r lex_t \<Rightarrow> (bool \<times> 'r lex_t) option" where
  "finish_real strtod c lx = do {
     lx1 \<leftarrow> lex_unget_unsave lx c;
     r \<leftarrow> jsonp_strtod strtod (saved_text lx1);
     (case r of
        None \<Rightarrow> Some (False, error_set lx1 json_error_numeric_overflow (str ''real number overflow''))
      | Some doubleval \<Rightarrow> Some (True, lx1\<lparr>token := TOKEN_REAL, real_val := Some doubleval\<rparr>)) }"

definition lex_scan_number :: "'r strtodf \<Rightarrow> int \<Rightarrow> 'r lex_t \<Rightarrow> (bool \<times> 'r lex_t) option" where
  "lex_scan_number strtod c0 lx0 = do {
     (r1, lx1) \<leftarrow> scan_int_part c0 (lx0\<lparr>token := TOKEN_INVALID\<rparr>);
     (case r1 of
        None \<Rightarrow> Some (False, lx1)
      | Some c1 \<Rightarrow>
          if lx_flags lx1 AND JSON_DECODE_INT_AS_REAL = 0 \<and> c1 \<noteq> 46 \<and> c1 \<noteq> 69 \<and> c1 \<noteq> 101
          then finish_integer c1 lx1
          else do {
            (r2, lx2) \<leftarrow> scan_fraction c1 lx1;
            (case r2 of
               None \<Rightarrow> Some (False, lx2)
             | Some c2 \<Rightarrow> do {
                 (r3, lx3) \<leftarrow> scan_exponent c2 lx2;
                 (case r3 of None \<Rightarrow> Some (False, lx3) | Some c3 \<Rightarrow> finish_real strtod c3 lx3) }) }) }"

partial_function (option) skip_space :: "'r lex_t \<Rightarrow> (int \<times> 'r lex_t) option" where
  "skip_space lx = do {
     (c, lx1) \<leftarrow> lex_get lx;
     if c = 32 \<or> c = 9 \<or> c = 10 \<or> c = 13 then skip_space lx1 else Some (c, lx1) }"

partial_function (option) scan_alpha :: "'r lex_t \<Rightarrow> (int \<times> 'r lex_t) option" where
  "scan_alpha lx = do {
     (c, lx1) \<leftarrow> lex_get_save lx;
     if l_isalpha c then scan_alpha lx1 else Some (c, lx1) }"

definition lex_scan :: "'r strtodf \<Rightarrow> 'r lex_t \<Rightarrow> 'r lex_t option" where
  "lex_scan strtod lx0 =
     (let lx1 = lx0\<lparr>saved_text := []\<rparr>;
          lx2 = (if token lx1 = TOKEN_STRING then lex_free_string lx1 else lx1)
      in do {
        (c, lx3) \<leftarrow> skip_space lx2;
        if c = STREAM_STATE_EOF then Some (lx3\<lparr>token := TOKEN_EOF\<rparr>)
        else if c = STREAM_STATE_ERROR then Some (lx3\<lparr>token := TOKEN_INVALID\<rparr>)
        else let lx4 = lex_save lx3 c in
          if c = 123 \<or> c = 125 \<or> c = 91 \<or> c = 93 \<or> c = 58 \<or> c = 44 then Some (lx4\<lparr>token := c\<rparr>)
          else if c = 34 then lex_scan_string lx4
          else if l_isdigit c \<or> c = 45 then do { (ok, lx5) \<leftarrow> lex_scan_number strtod c lx4; Some lx5 }
          else if l_isalpha c
          then do {
            (c1, lx5) \<leftarrow> scan_alpha lx4;
            lx6 \<leftarrow> lex_unget_unsave lx5 c1;
            Some (lx6\<lparr>token :=
              (if saved_text lx6 = str ''true'' then TOKEN_TRUE
               else if saved_text lx6 = str ''false'' then TOKEN_FALSE
               else if saved_text lx6 = str ''null'' then TOKEN_NULL
               else TOKEN_INVALID)\<rparr>) }
          else do { lx5 \<leftarrow> lex_save_cached lx4; Some (lx5\<lparr>token := TOKEN_INVALID\<rparr>) } })"

definition lex_steal_string :: "'r lex_t \<Rightarrow> int list option \<times> 'r lex_t" where
  "lex_steal_string lx =
     (if token lx = TOKEN_STRING then (string_val lx, lx\<lparr>string_val := None\<rparr>) else (None, lx))"

definition lex_init :: "int list \<Rightarrow> nat \<Rightarrow> json_error_t option \<Rightarrow> 'r lex_t" where
  "lex_init data flags error =
     \<lparr>lx_stream = stream_init data, saved_text = [], lx_flags = flags, depth = 0, token = TOKEN_INVALID,
      string_val = None, integer_val = 0, real_val = None, lx_error = error\<rparr>"

definition lex_close :: "'r lex_t \<Rightarrow> 'r lex_t" where
  "lex_close lx = (if token lx = TOKEN_STRING then lex_free_string lx else lx)\<lparr>saved_text := []\<rparr>"

section \<open>The parser\<close>

text \<open>Each function returns the value, or None for NULL, with the lexer. The loops take the parser of
  the elements as an argument.\<close>

type_synonym 'r parsef = "'r lex_t \<Rightarrow> ('r json option \<times> 'r lex_t) option"

partial_function (option) parse_members ::
  "'r strtodf \<Rightarrow> nat \<Rightarrow> 'r parsef \<Rightarrow> 'r lex_t \<Rightarrow> (int list \<times> 'r json) list \<Rightarrow> ('r json option \<times> 'r lex_t) option" where
  "parse_members strtod flags value lx object =
     (if token lx \<noteq> TOKEN_STRING
      then Some (None, error_set lx json_error_invalid_syntax (str ''string or '' @ [39] @ str ''}'' @ [39] @ str '' expected''))
      else case lex_steal_string lx of
        (None, lx1) \<Rightarrow> Some (None, lx1)
      | (Some key, lx1) \<Rightarrow>
          if 0 \<in> set key
          then Some (None, error_set lx1 json_error_null_byte_in_key (str ''NUL byte in object key not supported''))
          else if flags AND JSON_REJECT_DUPLICATES \<noteq> 0 \<and> map_of object key \<noteq> None
          then Some (None, error_set lx1 json_error_duplicate_key (str ''duplicate object key''))
          else do {
            lx2 \<leftarrow> lex_scan strtod lx1;
            if token lx2 \<noteq> 58
            then Some (None, error_set lx2 json_error_invalid_syntax ([39] @ str '':'' @ [39] @ str '' expected''))
            else do {
              lx3 \<leftarrow> lex_scan strtod lx2;
              (v, lx4) \<leftarrow> value lx3;
              (case v of
                 None \<Rightarrow> Some (None, lx4)
               | Some x \<Rightarrow> do {
                   lx5 \<leftarrow> lex_scan strtod lx4;
                   if token lx5 = 44
                   then do {
                     lx6 \<leftarrow> lex_scan strtod lx5;
                     parse_members strtod flags value lx6 (set_member key x object) }
                   else if token lx5 \<noteq> 125
                   then Some (None, error_set lx5 json_error_invalid_syntax ([39] @ str ''}'' @ [39] @ str '' expected''))
                   else Some (Some (JObject (set_member key x object)), lx5) }) } })"

partial_function (option) parse_elements ::
  "'r strtodf \<Rightarrow> 'r parsef \<Rightarrow> 'r lex_t \<Rightarrow> 'r json list \<Rightarrow> ('r json option \<times> 'r lex_t) option" where
  "parse_elements strtod value lx array =
     (let finish = (\<lambda>lx array. if token lx \<noteq> 93
            then Some (None, error_set lx json_error_invalid_syntax ([39] @ str '']'' @ [39] @ str '' expected''))
            else Some (Some (JArray array), lx))
      in if token lx = 0 then finish lx array
         else do {
           (v, lx1) \<leftarrow> value lx;
           (case v of
              None \<Rightarrow> Some (None, lx1)
            | Some x \<Rightarrow> do {
                lx2 \<leftarrow> lex_scan strtod lx1;
                if token lx2 \<noteq> 44 then finish lx2 (array @ [x])
                else do { lx3 \<leftarrow> lex_scan strtod lx2; parse_elements strtod value lx3 (array @ [x]) } }) })"

definition parse_object :: "'r strtodf \<Rightarrow> nat \<Rightarrow> 'r parsef \<Rightarrow> 'r parsef" where
  "parse_object strtod flags value lx = do {
     lx1 \<leftarrow> lex_scan strtod lx;
     if token lx1 = 125 then Some (Some (JObject []), lx1)
     else parse_members strtod flags value lx1 [] }"

definition parse_array :: "'r strtodf \<Rightarrow> 'r parsef \<Rightarrow> 'r parsef" where
  "parse_array strtod value lx = do {
     lx1 \<leftarrow> lex_scan strtod lx;
     if token lx1 = 93 then Some (Some (JArray []), lx1)
     else parse_elements strtod value lx1 [] }"

text \<open>The recursion is bounded by the depth check; the first argument bounds it in the model.\<close>

fun parse_value :: "nat \<Rightarrow> 'r strtodf \<Rightarrow> nat \<Rightarrow> 'r parsef" where
  "parse_value 0 strtod flags lx = None"
| "parse_value (Suc n) strtod flags lx0 =
     (let lx = lx0\<lparr>depth := depth lx0 + 1\<rparr>;
          leave = (\<lambda>(v, lx'). (v, if v = None then lx' else lx'\<lparr>depth := depth lx' - 1\<rparr>))
      in if depth lx > JSON_PARSER_MAX_DEPTH
         then Some (None, error_set lx json_error_stack_overflow (str ''maximum parsing depth reached''))
         else if token lx = TOKEN_STRING
         then (case string_val lx of
                 None \<Rightarrow> None
               | Some value \<Rightarrow>
                   if flags AND JSON_ALLOW_NUL = 0 \<and> 0 \<in> set value
                   then Some (None, error_set lx json_error_null_character
                          ([92] @ str ''u0000 is not allowed without JSON_ALLOW_NUL''))
                   else Some (leave (Some (JString value), lx\<lparr>string_val := None\<rparr>)))
         else if token lx = TOKEN_INTEGER then Some (leave (Some (JInteger (integer_val lx)), lx))
         else if token lx = TOKEN_REAL then map_option (\<lambda>r. leave (Some (JReal r), lx)) (real_val lx)
         else if token lx = TOKEN_TRUE then Some (leave (Some JTrue, lx))
         else if token lx = TOKEN_FALSE then Some (leave (Some JFalse, lx))
         else if token lx = TOKEN_NULL then Some (leave (Some JNull, lx))
         else if token lx = 123 then map_option leave (parse_object strtod flags (parse_value n strtod flags) lx)
         else if token lx = 91 then map_option leave (parse_array strtod (parse_value n strtod flags) lx)
         else if token lx = TOKEN_INVALID
         then Some (None, error_set lx json_error_invalid_syntax (str ''invalid token''))
         else Some (None, error_set lx json_error_invalid_syntax (str ''unexpected token'')))"

definition parse_json :: "'r strtodf \<Rightarrow> nat \<Rightarrow> 'r parsef" where
  "parse_json strtod flags lx0 = do {
     lx1 \<leftarrow> lex_scan strtod (lx0\<lparr>depth := 0\<rparr>);
     if flags AND JSON_DECODE_ANY = 0 \<and> token lx1 \<noteq> 91 \<and> token lx1 \<noteq> 123
     then Some (None, error_set lx1 json_error_invalid_syntax
            ([39] @ str ''['' @ [39] @ str '' or '' @ [39] @ str ''{'' @ [39] @ str '' expected''))
     else do {
       (result, lx2) \<leftarrow> parse_value (JSON_PARSER_MAX_DEPTH + 1) strtod flags lx1;
       (case result of
          None \<Rightarrow> Some (None, lx2)
        | Some v \<Rightarrow> do {
            lx3 \<leftarrow> (if flags AND JSON_DISABLE_EOF_CHECK = 0 then lex_scan strtod lx2 else Some lx2);
            if flags AND JSON_DISABLE_EOF_CHECK = 0 \<and> token lx3 \<noteq> TOKEN_EOF
            then Some (None, error_set lx3 json_error_end_of_input_expected (str ''end of file expected''))
            else Some (Some v, lx3\<lparr>lx_error :=
                   map_option (\<lambda>e. e\<lparr>err_position := st_position (lx_stream lx3)\<rparr>) (lx_error lx3)\<rparr>) }) } }"

section \<open>Entry points\<close>

text \<open>The result is the value, or None for NULL, with the error object.\<close>

definition load_stream :: "'r strtodf \<Rightarrow> int list \<Rightarrow> nat \<Rightarrow> json_error_t option \<Rightarrow>
    ('r json option \<times> json_error_t option) option" where
  "load_stream strtod data flags error =
     map_option (\<lambda>(result, lx). (result, lx_error (lex_close lx))) (parse_json strtod flags (lex_init data flags error))"

text \<open>What the sources deliver: \<^verbatim>\<open>string_get\<close> up to the terminator, \<^verbatim>\<open>buffer_get\<close> the given length,
  \<^verbatim>\<open>callback_get\<close> the chunks up to the first empty one.\<close>

definition string_get :: "int list \<Rightarrow> int list" where
  "string_get data = takeWhile (\<lambda>c. c \<noteq> 0) data"

definition buffer_get :: "int list \<Rightarrow> nat \<Rightarrow> int list" where
  "buffer_get data len = take len data"

definition callback_get :: "int list list \<Rightarrow> int list" where
  "callback_get chunks = concat (takeWhile (\<lambda>c. c \<noteq> []) chunks)"

definition json_loads :: "'r strtodf \<Rightarrow> int list option \<Rightarrow> nat \<Rightarrow> json_error_t option \<Rightarrow>
    ('r json option \<times> json_error_t option) option" where
  "json_loads strtod string flags error =
     (let error1 = jsonp_error_init error (str ''<string>'')
      in case string of
           None \<Rightarrow> Some (None, error_set_nolex error1 json_error_invalid_argument (str ''wrong arguments''))
         | Some s \<Rightarrow> load_stream strtod (string_get s) flags error1)"

definition json_loadb :: "'r strtodf \<Rightarrow> int list option \<Rightarrow> nat \<Rightarrow> nat \<Rightarrow> json_error_t option \<Rightarrow>
    ('r json option \<times> json_error_t option) option" where
  "json_loadb strtod buffer buflen flags error =
     (let error1 = jsonp_error_init error (str ''<buffer>'')
      in case buffer of
           None \<Rightarrow> Some (None, error_set_nolex error1 json_error_invalid_argument (str ''wrong arguments''))
         | Some s \<Rightarrow> load_stream strtod (buffer_get s buflen) flags error1)"

definition json_loadf :: "'r strtodf \<Rightarrow> bool \<Rightarrow> int list option \<Rightarrow> nat \<Rightarrow> json_error_t option \<Rightarrow>
    ('r json option \<times> json_error_t option) option" where
  "json_loadf strtod is_stdin input flags error =
     (let error1 = jsonp_error_init error (if is_stdin then str ''<stdin>'' else str ''<stream>'')
      in case input of
           None \<Rightarrow> Some (None, error_set_nolex error1 json_error_invalid_argument (str ''wrong arguments''))
         | Some s \<Rightarrow> load_stream strtod s flags error1)"

text \<open>\<open>fd_reads\<close> are the bytes that \<^verbatim>\<open>read\<close> delivers from the descriptor.\<close>

definition json_loadfd :: "'r strtodf \<Rightarrow> int \<Rightarrow> int list \<Rightarrow> nat \<Rightarrow> json_error_t option \<Rightarrow>
    ('r json option \<times> json_error_t option) option" where
  "json_loadfd strtod input fd_reads flags error =
     (let error1 = jsonp_error_init error (if input = 0 then str ''<stdin>'' else str ''<stream>'')
      in if input < 0 then Some (None, error_set_nolex error1 json_error_invalid_argument (str ''wrong arguments''))
         else load_stream strtod fd_reads flags error1)"

definition json_load_file :: "'r strtodf \<Rightarrow> (int list \<Rightarrow> int list option) \<Rightarrow> int list \<Rightarrow> int list option \<Rightarrow> nat \<Rightarrow>
    json_error_t option \<Rightarrow> ('r json option \<times> json_error_t option) option" where
  "json_load_file strtod fopen strerror path flags error =
     (let error1 = jsonp_error_init error (case path of None \<Rightarrow> [] | Some p \<Rightarrow> p)
      in case path of
           None \<Rightarrow> Some (None, error_set_nolex error1 json_error_invalid_argument (str ''wrong arguments''))
         | Some p \<Rightarrow> (case fopen p of
             None \<Rightarrow> Some (None, error_set_nolex error1 json_error_cannot_open_file
                       (str ''unable to open '' @ p @ str '': '' @ strerror))
           | Some s \<Rightarrow> json_loadf strtod False (Some s) flags error1))"

definition json_load_callback :: "'r strtodf \<Rightarrow> int list list option \<Rightarrow> nat \<Rightarrow> json_error_t option \<Rightarrow>
    ('r json option \<times> json_error_t option) option" where
  "json_load_callback strtod callback flags error =
     (let error1 = jsonp_error_init error (str ''<callback>'')
      in case callback of
           None \<Rightarrow> Some (None, error_set_nolex error1 json_error_invalid_argument (str ''wrong arguments''))
         | Some chunks \<Rightarrow> load_stream strtod (callback_get chunks) flags error1)"

declare lex_save_cached.simps [simp del] decode_string.simps [simp del]

declare scan_string.simps [code] scan_digits.simps [code] skip_space.simps [code] scan_alpha.simps [code]
  parse_members.simps [code] parse_elements.simps [code]

end
