(* ===== verification/JsonLoadSafe.thy ===== *)
theory JsonLoadSafe
  imports JsonLoad
begin

text \<open>
  The decoder always returns: on any input bytes and flags, no assertion of \<^verbatim>\<open>load.c\<close> fails, no buffer is
  read outside its bounds, and every loop ends.
\<close>

section \<open>Vocabulary\<close>

definition stream_ok :: "stream_t \<Rightarrow> bool" where
  "stream_ok st \<longleftrightarrow> length (st_buffer st) = 5 \<and> st_buffer_pos st \<le> 4 \<and> bytes (st_data st) \<and> bytes (st_buffer st) \<and>
     (st_state st \<noteq> 0 \<longrightarrow> st_state st = -1 \<or> st_state st = -2) \<and>
     (st_state st = 0 \<longrightarrow> (\<exists>j \<le> 4. st_buffer_pos st \<le> j \<and> st_buffer st ! j = 0))"

definition rem :: "'r lex_t \<Rightarrow> nat" where
  "rem lx = (if st_state (lx_stream lx) \<noteq> 0 then 0 else length (st_data (lx_stream lx)) +
     length (takeWhile (\<lambda>c. c \<noteq> 0) (drop (st_buffer_pos (lx_stream lx)) (st_buffer (lx_stream lx)))))"

definition lok :: "'r lex_t \<Rightarrow> bool" where
  "lok lx \<longleftrightarrow> stream_ok (lx_stream lx)"

text \<open>\<open>c\<close> is what the last read returned: the end, an error, or the byte before the position.\<close>

definition behind :: "'r lex_t \<Rightarrow> int \<Rightarrow> bool" where
  "behind lx c \<longleftrightarrow> c = -1 \<or> c = -2 \<or>
     0 \<le> c \<and> c < 256 \<and> st_state (lx_stream lx) = 0 \<and> 0 < st_buffer_pos (lx_stream lx) \<and> st_buffer (lx_stream lx) ! (st_buffer_pos (lx_stream lx) - 1) = c"

definition same :: "'r lex_t \<Rightarrow> 'r lex_t \<Rightarrow> bool" where
  "same lx lx' \<longleftrightarrow> saved_text lx' = saved_text lx \<and> token lx' = token lx \<and> lx_flags lx' = lx_flags lx \<and>
     depth lx' = depth lx \<and> string_val lx' = string_val lx \<and> real_val lx' = real_val lx \<and> integer_val lx' = integer_val lx"

definition opt_byte :: "int \<Rightarrow> int list" where
  "opt_byte c = (if 0 \<le> c then [c] else [])"

section \<open>Stream operations\<close>

lemma same_simps [simp]: "same lx lx" "same lx (lx\<lparr>lx_stream := st\<rparr>)"
  by (simp_all add: same_def)

lemma error_set_simps [simp]:
  "lx_stream (error_set lx e m) = lx_stream lx" "saved_text (error_set lx e m) = saved_text lx"
  "token (error_set lx e m) = token lx" "lx_flags (error_set lx e m) = lx_flags lx"
  "depth (error_set lx e m) = depth lx" "string_val (error_set lx e m) = string_val lx"
  "real_val (error_set lx e m) = real_val lx" "integer_val (error_set lx e m) = integer_val lx"
  "rem (error_set lx e m) = rem lx" "lok (error_set lx e m) = lok lx"
  by (simp_all add: error_set_def Let_def rem_def lok_def split: prod.splits)

lemma error_set_same [simp]: "same lx0 (error_set lx e m) = same lx0 lx"
  by (simp add: same_def)

lemma takeWhile_nth: "xs ! i \<noteq> 0 \<Longrightarrow> i < length xs \<Longrightarrow>
    takeWhile (\<lambda>c. c \<noteq> (0::int)) (drop i xs) = xs ! i # takeWhile (\<lambda>c. c \<noteq> 0) (drop (Suc i) xs)"
  by (simp add: Cons_nth_drop_Suc [symmetric])

lemma takeWhile_stop: "i \<le> j \<Longrightarrow> j < length xs \<Longrightarrow> xs ! j = 0 \<Longrightarrow>
    length (takeWhile (\<lambda>c. c \<noteq> (0::int)) (drop i xs)) \<le> j - i"
proof (induction "j - i" arbitrary: i)
  case (Suc n)
  then have IH: "length (takeWhile (\<lambda>c. c \<noteq> 0) (drop (Suc i) xs)) \<le> j - Suc i" by simp
  have "drop i xs = xs ! i # drop (Suc i) xs" using Suc by (simp add: Cons_nth_drop_Suc)
  then show ?case using IH Suc.hyps(2) by auto
next
  case 0
  then have "i = j" by simp
  with 0 have "drop i xs = 0 # drop (Suc i) xs" using Cons_nth_drop_Suc [of j xs] by simp
  then show ?case by simp
qed

text \<open>One byte of the buffer is delivered.\<close>

lemma stream_take_ok:
  assumes s: "length (st_buffer st) = 5" "bytes (st_data st)" "bytes (st_buffer st)" "st_state st = 0"
    "st_buffer_pos st < j" "j \<le> 4" "st_buffer st ! j = 0"
  shows "case stream_take st of (c, st') \<Rightarrow> stream_ok st' \<and> c = st_buffer st ! st_buffer_pos st \<and> 0 \<le> c \<and> c < 256 \<and>
    st_buffer_pos st' = Suc (st_buffer_pos st) \<and> st_buffer st' = st_buffer st \<and> st_data st' = st_data st \<and>
    st_state st' = 0"
proof -
  have "st_buffer st ! st_buffer_pos st \<in> set (st_buffer st)" using s by simp
  then show ?thesis using s by (auto simp: stream_take_def Let_def stream_ok_def bytes_def intro!: exI [of _ j])
qed

lemma fill_buffer_ok:
  assumes "i + k \<le> 5" "length (st_buffer st) = 5" "bytes (st_data st)" "bytes (st_buffer st)"
  shows "let st' = fill_buffer i k st in length (st_buffer st') = 5 \<and> bytes (st_data st') \<and> bytes (st_buffer st') \<and>
    st_state st' = st_state st \<and> st_buffer_pos st' = st_buffer_pos st \<and> (\<forall>l < i. st_buffer st' ! l = st_buffer st ! l) \<and>
    length (st_data st') \<le> length (st_data st) \<and>
    (k \<le> length (st_data st) \<longrightarrow> length (st_data st') = length (st_data st) - k \<and> 
       take k (drop i (st_buffer st')) = take k (st_data st)) \<and>
    (length (st_data st) < k \<longrightarrow> st_buffer st' ! (i + length (st_data st)) = 255)"
  using assms
proof (induction i k st rule: fill_buffer.induct)
  case (1 i st)
  then show ?case by simp
next
  case (2 i k st)
  show ?case
  proof (cases "st_data st")
    case Nil
    have b: "bytes ((st_buffer st)[i := 255])" using 2(5) by (auto simp: bytes_def dest!: set_update_subset_insert [THEN subsetD])
    let ?st = "st\<lparr>st_buffer := (st_buffer st)[i := 255]\<rparr>"
    have g: "st_get st = (-1, st)" using Nil by (simp add: st_get_def)
    from 2(1) [OF g [symmetric]] 2(2-5) Nil b show ?thesis
      by (simp add: g Let_def)
  next
    case (Cons c cs)
    then have c: "0 \<le> c" "c < 256" "bytes cs" using 2(4) by (auto simp: bytes_def)
    have g: "st_get st = (c, st\<lparr>st_data := cs\<rparr>)" using Cons by (simp add: st_get_def)
    have b: "bytes ((st_buffer st)[i := c])" using 2(5) c by (auto simp: bytes_def dest!: set_update_subset_insert [THEN subsetD])
    let ?st1 = "st\<lparr>st_data := cs, st_buffer := (st_buffer st)[i := c]\<rparr>"
    note IH = 2(1) [OF g [symmetric]]
    have R: "let st' = fill_buffer (Suc i) k ?st1 in length (st_buffer st') = 5 \<and> bytes (st_data st') \<and> bytes (st_buffer st') \<and>
      st_state st' = st_state st \<and> st_buffer_pos st' = st_buffer_pos st \<and>
      (\<forall>l < Suc i. st_buffer st' ! l = (st_buffer st)[i := c] ! l) \<and> length (st_data st') \<le> length cs \<and>
      (k \<le> length cs \<longrightarrow> length (st_data st') = length cs - k \<and> take k (drop (Suc i) (st_buffer st')) = take k cs) \<and>
      (length cs < k \<longrightarrow> st_buffer st' ! (Suc i + length cs) = 255)"
      using IH 2(2-5) c b by simp
    have e: "fill_buffer i (Suc k) st = fill_buffer (Suc i) k ?st1" using c by (simp add: g)
    from R have "drop i (st_buffer (fill_buffer (Suc i) k ?st1)) = c # drop (Suc i) (st_buffer (fill_buffer (Suc i) k ?st1))"
      using 2(2,3) by (simp add: Let_def Cons_nth_drop_Suc [symmetric])
    with R show ?thesis unfolding e using Cons 2(2,3) by (auto simp: Let_def)
  qed
qed

lemma check_first_range: "utf8_check_first c = 0 \<or> utf8_check_first c = 1 \<and> c < 0x80 \<or> 2 \<le> utf8_check_first c \<and> utf8_check_first c \<le> 4"
  by (auto simp: utf8_check_first_def)

text \<open>A complete UTF-8 sequence has no NUL and no missing byte.\<close>

lemma check_full_nonzero:
  assumes "utf8_check_full b n = Some v" "n \<le> length b" "0 < i" "i < n"
  shows "0x80 \<le> b ! i \<and> b ! i \<le> 0xBF"
proof -
  have L: "full_loop us v0 = Some w \<Longrightarrow> x \<in> set us \<Longrightarrow> 0x80 \<le> x \<and> x \<le> 0xBF" for us v0 w x
    by (induction us arbitrary: v0) (auto split: if_splits)
  have "b ! i \<in> set (take (n - 1) (drop 1 b))"
    using assms(2-4) by (auto simp: in_set_conv_nth intro!: exI [of _ "i - 1"])
  moreover obtain v0 v1 where "full_loop (take (n - 1) (drop 1 b)) v0 = Some v1"
    using assms(1) by (auto simp: utf8_check_full_def Let_def split: if_splits bind_splits)
  ultimately show ?thesis using L by blast
qed

definition got :: "'r lex_t \<Rightarrow> int \<times> 'r lex_t \<Rightarrow> bool" where
  "got lx = (\<lambda>(c, lx'). lok lx' \<and> behind lx' c \<and> same lx lx' \<and> rem lx' + (if 0 \<le> c then 1 else 0) \<le> rem lx)"

lemma stream_fail_got:
  assumes "same lx lx'" "stream_ok ((lx_stream lx')\<lparr>st_state := -2\<rparr>)"
  shows "got lx (stream_fail lx' c)"
  using assms by (simp add: got_def stream_fail_def STREAM_STATE_ERROR_def lok_def behind_def) (simp add: rem_def same_def)

lemma stream_take_got:
  assumes s: "length (st_buffer st) = 5" "bytes (st_data st)" "bytes (st_buffer st)" "st_state st = 0"
    "st_buffer_pos st < j" "j \<le> 4" "st_buffer st ! j = 0"
    and r: "length (st_data st) + length (takeWhile (\<lambda>c. c \<noteq> 0) (drop (Suc (st_buffer_pos st)) (st_buffer st))) < rem lx"
  shows "got lx (case stream_take st of (c, s') \<Rightarrow> (c, lx\<lparr>lx_stream := s'\<rparr>))"
proof -
  obtain c s' where t: "stream_take st = (c, s')" by (cases "stream_take st")
  from stream_take_ok [OF s] r show ?thesis
    by (simp add: t got_def lok_def behind_def) (simp add: rem_def split: if_splits)
qed

lemma bytes_update: "bytes xs \<Longrightarrow> 0 \<le> v \<Longrightarrow> v < 256 \<Longrightarrow> bytes (xs[i := v])"
  by (auto simp: bytes_def dest!: set_update_subset_insert [THEN subsetD])

lemma stream_get_ok:
  assumes "lok lx"
  shows "yields (stream_get lx) (got lx)"
proof -
  define st where "st = lx_stream lx"
  note S = assms [unfolded lok_def stream_ok_def, folded st_def]
  consider "st_state st \<noteq> 0" | "st_state st = 0" "st_buffer st ! st_buffer_pos st \<noteq> 0"
    | "st_state st = 0" "st_buffer st ! st_buffer_pos st = 0" "st_data st = []"
    | c cs where "st_state st = 0" "st_buffer st ! st_buffer_pos st = 0" "st_data st = c # cs"
    by (cases "st_data st") auto
  then show ?thesis
  proof cases
    case 1
    then show ?thesis using S assms
      by (auto simp: stream_get_def st_def [symmetric] STREAM_STATE_OK_def got_def behind_def)
  next
    case 2
    then obtain j where "st_buffer_pos st < j" "j \<le> 4" "st_buffer st ! j = 0"
      using S by (metis le_neq_implies_less)
    moreover have "rem lx = Suc (length (st_data st) + length (takeWhile (\<lambda>c. c \<noteq> 0) (drop (Suc (st_buffer_pos st)) (st_buffer st))))"
      using 2 S takeWhile_nth [of "st_buffer st" "st_buffer_pos st"] by (simp add: rem_def st_def [symmetric])
    ultimately have "got lx (case stream_take st of (c, s') \<Rightarrow> (c, lx\<lparr>lx_stream := s'\<rparr>))"
      using 2 S by (intro stream_take_got) auto
    with 2 show ?thesis by (simp add: stream_get_def st_def [symmetric] STREAM_STATE_OK_def)
  next
    case 3
    then show ?thesis using S
      by (simp add: stream_get_def st_def [symmetric] STREAM_STATE_OK_def STREAM_STATE_EOF_def st_get_def got_def
          behind_def lok_def stream_ok_def) (simp add: rem_def)
  next
    case 4
    have c: "0 \<le> c" "c < 256" "bytes cs" using 4 S by (auto simp: bytes_def)
    define s2 where "s2 = st\<lparr>st_data := cs, st_buffer := (st_buffer st)[0 := c], st_buffer_pos := 0\<rparr>"
    have s2: "length (st_buffer s2) = 5" "bytes (st_data s2)" "bytes (st_buffer s2)" "st_state s2 = 0"
      "st_buffer_pos s2 = 0" "st_data s2 = cs" "st_buffer s2 ! 0 = c"
      using S c 4(1) by (auto simp: s2_def bytes_update)
    have rem: "length cs < rem lx" using 4 by (simp add: rem_def st_def [symmetric])
    have get: "stream_get lx = (if 0x80 \<le> c
        then (let count = utf8_check_first c
              in if count = 0 then Some (stream_fail (lx\<lparr>lx_stream := s2\<rparr>) c)
                 else assert_c (count \<ge> 2) \<bind> (\<lambda>_. let st3 = fill_buffer 1 (count - 1) s2
                   in if utf8_check_full (st_buffer st3) count = None
                      then Some (stream_fail (lx\<lparr>lx_stream := st3\<rparr>) c)
                      else Some (case stream_take (st3\<lparr>st_buffer := (st_buffer st3)[count := 0]\<rparr>) of
                             (c, s') \<Rightarrow> (c, lx\<lparr>lx_stream := s'\<rparr>))))
        else Some (case stream_take (s2\<lparr>st_buffer := (st_buffer s2)[1 := 0]\<rparr>) of (c, s') \<Rightarrow> (c, lx\<lparr>lx_stream := s'\<rparr>)))"
      using 4 c by (simp add: stream_get_def st_def [symmetric] STREAM_STATE_OK_def st_get_def s2_def Let_def)
    show ?thesis
    proof (cases "c < 0x80")
      case True
      have "got lx (case stream_take (s2\<lparr>st_buffer := (st_buffer s2)[1 := 0]\<rparr>) of (c, s') \<Rightarrow> (c, lx\<lparr>lx_stream := s'\<rparr>))"
        using s2 rem takeWhile_stop [of 1 1 "(st_buffer s2)[1 := 0]"]
        by (intro stream_take_got [where j = 1]) (auto simp: bytes_update)
      with True show ?thesis by (simp add: get)
    next
      case False
      define n where "n = utf8_check_first c"
      consider "n = 0" | "2 \<le> n" "n \<le> 4" using check_first_range [of c] False by (auto simp: n_def)
      then show ?thesis
      proof cases
        case 1
        have "got lx (stream_fail (lx\<lparr>lx_stream := s2\<rparr>) c)"
          using s2 by (intro stream_fail_got) (auto simp: stream_ok_def)
        with False 1 show ?thesis by (simp add: get n_def [symmetric])
      next
        case 2
        let ?s3 = "fill_buffer 1 (n - 1) s2" let ?b = "(st_buffer ?s3)[n := 0]"
        have F: "length (st_buffer ?s3) = 5" "bytes (st_data ?s3)" "bytes (st_buffer ?s3)" "st_state ?s3 = 0"
          "st_buffer_pos ?s3 = 0" "n - 1 \<le> length cs \<Longrightarrow> length (st_data ?s3) = length cs - (n - 1)"
          "length cs < n - 1 \<Longrightarrow> st_buffer ?s3 ! (1 + length cs) = 255"
          using fill_buffer_ok [of 1 "n - 1" s2] 2 s2 by (auto simp: Let_def)
        show ?thesis
        proof (cases "utf8_check_full (st_buffer ?s3) n")
          case None
          have "got lx (stream_fail (lx\<lparr>lx_stream := ?s3\<rparr>) c)"
            using F by (intro stream_fail_got) (auto simp: stream_ok_def)
          with False 2 None show ?thesis by (simp add: get n_def [symmetric] Let_def)
        next
          case (Some v)
          have "\<not> length cs < n - 1"
          proof
            assume *: "length cs < n - 1"
            then have "1 + length cs < n" by linarith
            with check_full_nonzero [OF Some, of "1 + length cs"] F(1,7) * 2 show False by simp
          qed
          then have d: "length (st_data ?s3) = length cs - (n - 1)" "n - 1 \<le> length cs" using F(6) by simp_all
          have "length (takeWhile (\<lambda>c. c \<noteq> 0) (drop 1 ?b)) \<le> n - 1"
            using takeWhile_stop [of 1 n ?b] F(1) 2 by simp
          with d rem have "length (st_data ?s3) + length (takeWhile (\<lambda>c. c \<noteq> 0) (drop 1 ?b)) < rem lx" by simp
          then have "got lx (case stream_take (?s3\<lparr>st_buffer := ?b\<rparr>) of (c, s') \<Rightarrow> (c, lx\<lparr>lx_stream := s'\<rparr>))"
            using F 2 by (intro stream_take_got [where j = n]) (auto simp: bytes_update)
          with False 2 Some show ?thesis by (simp add: get n_def [symmetric] Let_def)
        qed
      qed
    qed
  qed
qed

section \<open>Lexer operations\<close>

lemma lex_get_ok: "lok lx \<Longrightarrow> yields (lex_get lx) (got lx)"
  by (simp add: lex_get_def stream_get_ok)

definition got_saved :: "'r lex_t \<Rightarrow> int \<times> 'r lex_t \<Rightarrow> bool" where
  "got_saved lx = (\<lambda>(c, lx'). lok lx' \<and> behind lx' c \<and> same (lx\<lparr>saved_text := saved_text lx @ opt_byte c\<rparr>) lx' \<and>
     rem lx' + (if 0 \<le> c then 1 else 0) \<le> rem lx)"

lemma lex_get_save_ok: "lok lx \<Longrightarrow> yields (lex_get_save lx) (got_saved lx)"
  unfolding lex_get_save_def
  by (rule yields_bind [OF stream_get_ok])
    (auto simp: got_def got_saved_def lex_save_def STREAM_STATE_EOF_def STREAM_STATE_ERROR_def behind_def opt_byte_def
      same_def lok_def rem_def)

lemma stream_unget_ok:
  assumes "lok lx" "behind lx c" "0 \<le> c"
  shows "yields (stream_unget lx c) (\<lambda>lx'. lok lx' \<and> same lx lx' \<and> rem lx' \<le> Suc (rem lx))"
proof -
  let ?s = "lx_stream lx" let ?p = "st_buffer_pos ?s"
  have b: "0 < ?p" "st_buffer ?s ! (?p - 1) = c" using assms(2,3) by (auto simp: behind_def)
  have "length (st_buffer ?s) = 5" "?p \<le> 4" using assms(1) by (auto simp: lok_def stream_ok_def)
  then have "drop (?p - 1) (st_buffer ?s) = c # drop ?p (st_buffer ?s)"
    using b Cons_nth_drop_Suc [of "?p - 1" "st_buffer ?s"] by simp
  then have r: "length (takeWhile (\<lambda>c. c \<noteq> 0) (drop (?p - 1) (st_buffer ?s))) \<le>
      Suc (length (takeWhile (\<lambda>c. c \<noteq> 0) (drop ?p (st_buffer ?s))))" by simp
  show ?thesis using assms b r
    by (auto simp: stream_unget_def STREAM_STATE_EOF_def STREAM_STATE_ERROR_def Let_def lok_def stream_ok_def rem_def same_def
        intro: le_trans [OF diff_le_self])
qed

lemma lex_unget_unsave_ok:
  assumes "lok lx" "behind lx c" "saved_text lx = s @ opt_byte c"
  shows "yields (lex_unget_unsave lx c) (\<lambda>lx'. lok lx' \<and> same (lx\<lparr>saved_text := s\<rparr>) lx' \<and>
    rem lx' \<le> rem lx + (if 0 \<le> c then 1 else 0))"
proof (cases "0 \<le> c")
  case True
  then show ?thesis using assms(3) unfolding lex_unget_unsave_def
    by (auto simp: STREAM_STATE_EOF_def STREAM_STATE_ERROR_def intro!: yields_bind [OF stream_unget_ok [OF assms(1,2)]])
      (auto simp: same_def opt_byte_def lok_def rem_def Let_def)
next
  case False
  then have "c = -1 \<or> c = -2" using assms(2) by (auto simp: behind_def)
  then show ?thesis using assms(1,3) False
    by (auto simp: lex_unget_unsave_def STREAM_STATE_EOF_def STREAM_STATE_ERROR_def same_def opt_byte_def)
qed

lemma lex_save_cached_ok:
  assumes "lok lx" "st_state (lx_stream lx) = 0"
  shows "yields (lex_save_cached lx) (\<lambda>lx'. lok lx' \<and> rem lx' \<le> rem lx \<and> depth lx' = depth lx \<and> lx_flags lx' = lx_flags lx)"
  using assms
proof (induction lx rule: lex_save_cached.induct)
  case (1 lx)
  let ?s = "lx_stream lx" let ?p = "st_buffer_pos ?s"
  from "1.prems" obtain j where j: "length (st_buffer ?s) = 5" "j \<le> 4" "?p \<le> j" "st_buffer ?s ! j = 0"
    by (auto simp: lok_def stream_ok_def)
  show ?case
  proof (cases "st_buffer ?s ! ?p = 0")
    case True
    then show ?thesis using j "1.prems" by (subst lex_save_cached.simps) simp
  next
    case False
    let ?lx = "(lex_save lx (st_buffer ?s ! ?p))\<lparr>lx_stream := ?s\<lparr>st_buffer_pos := ?p + 1, st_position := st_position ?s + 1\<rparr>\<rparr>"
    have p: "?p < j" using False j by (metis le_neq_implies_less)
    have "lok ?lx" using "1.prems" j p by (auto simp: lok_def stream_ok_def)
    moreover have "rem ?lx \<le> rem lx" using takeWhile_nth [OF False] j by (simp add: rem_def)
    moreover have "lex_save_cached lx = lex_save_cached ?lx"
      using False j by (subst lex_save_cached.simps) (simp add: Let_def)
    ultimately show ?thesis using "1.IH" [OF refl _ False] j "1.prems" by (auto elim!: yields_mono simp: lex_save_def)
  qed
qed

lemma got_trans:
  assumes "got lx (c, lx1)" "0 \<le> c" "got lx1 (c', lx2)"
  shows "got lx (c', lx2)" "rem lx1 < rem lx"
  using assms by (auto simp: got_def same_def)

lemma skip_space_ok: "lok lx \<Longrightarrow> yields (skip_space lx) (got lx)"
proof (induction "rem lx" arbitrary: lx rule: less_induct)
  case less
  show ?case
  proof (subst skip_space.simps, rule yields_bind [OF lex_get_ok [OF less.prems]], clarify)
    fix c lx1 assume g: "got lx (c, lx1)"
    show "yields (if c = 32 \<or> c = 9 \<or> c = 10 \<or> c = 13 then skip_space lx1 else Some (c, lx1)) (got lx)"
    proof (cases "c = 32 \<or> c = 9 \<or> c = 10 \<or> c = 13")
      case True
      then have "0 \<le> c" by auto
      moreover from this g have "rem lx1 < rem lx" "lok lx1" by (auto simp: got_def)
      ultimately show ?thesis using True less.hyps [of lx1] got_trans [OF g] by (auto elim!: yields_mono)
    qed (use g in simp)
  qed
qed

text \<open>A run of bytes with property \<open>P\<close> has been saved, then \<open>c\<close> without it.\<close>

definition ran :: "(int \<Rightarrow> bool) \<Rightarrow> 'r lex_t \<Rightarrow> int \<times> 'r lex_t \<Rightarrow> bool" where
  "ran P lx = (\<lambda>(c, lx'). \<exists>ds. (\<forall>d \<in> set ds. P d) \<and> \<not> P c \<and> lok lx' \<and> behind lx' c \<and>
     same (lx\<lparr>saved_text := saved_text lx @ ds @ opt_byte c\<rparr>) lx' \<and> rem lx' + (if 0 \<le> c then 1 else 0) \<le> rem lx)"

lemma ran_stop: "got_saved lx (c, lx') \<Longrightarrow> \<not> P c \<Longrightarrow> ran P lx (c, lx')"
  by (auto simp: got_saved_def ran_def intro!: exI [of _ "[]"])

lemma ran_step:
  assumes "got_saved lx (c, lx1)" "P c" "0 \<le> c" "ran P lx1 r"
  shows "ran P lx r"
proof -
  obtain c' lx2 where r: "r = (c', lx2)" by (cases r)
  from assms(4) obtain ds where "\<forall>d \<in> set ds. P d" "\<not> P c'" "lok lx2" "behind lx2 c'"
    "same (lx1\<lparr>saved_text := saved_text lx1 @ ds @ opt_byte c'\<rparr>) lx2" "rem lx2 + (if 0 \<le> c' then 1 else 0) \<le> rem lx1"
    by (auto simp: ran_def r)
  with assms(1-3) show ?thesis
    by (auto simp: ran_def r got_saved_def same_def opt_byte_def intro!: exI [of _ "c # ds"])
qed

lemma scan_digits_ok: "lok lx \<Longrightarrow> yields (scan_digits lx) (ran l_isdigit lx)"
proof (induction "rem lx" arbitrary: lx rule: less_induct)
  case less
  show ?case
  proof (subst scan_digits.simps, rule yields_bind [OF lex_get_save_ok [OF less.prems]], clarify)
    fix c lx1 assume g: "got_saved lx (c, lx1)"
    show "yields (if l_isdigit c then scan_digits lx1 else Some (c, lx1)) (ran l_isdigit lx)"
    proof (cases "l_isdigit c")
      case True
      then have "0 \<le> c" by (simp add: l_isdigit_def)
      moreover from this g have "rem lx1 < rem lx" "lok lx1" by (auto simp: got_saved_def)
      ultimately show ?thesis using True less.hyps [of lx1] ran_step [OF g] by (auto elim!: yields_mono)
    qed (use g ran_stop in auto)
  qed
qed

lemma scan_alpha_ok: "lok lx \<Longrightarrow> yields (scan_alpha lx) (ran l_isalpha lx)"
proof (induction "rem lx" arbitrary: lx rule: less_induct)
  case less
  show ?case
  proof (subst scan_alpha.simps, rule yields_bind [OF lex_get_save_ok [OF less.prems]], clarify)
    fix c lx1 assume g: "got_saved lx (c, lx1)"
    show "yields (if l_isalpha c then scan_alpha lx1 else Some (c, lx1)) (ran l_isalpha lx)"
    proof (cases "l_isalpha c")
      case True
      then have "0 \<le> c" by (auto simp: l_isalpha_def l_isupper_def l_islower_def)
      moreover from this g have "rem lx1 < rem lx" "lok lx1" by (auto simp: got_saved_def)
      ultimately show ?thesis using True less.hyps [of lx1] ran_step [OF g] by (auto elim!: yields_mono)
    qed (use g ran_stop in auto)
  qed
qed

lemma field_upd [simp]:
  "rem (lx\<lparr>token := x\<rparr>) = rem lx" "lok (lx\<lparr>token := x\<rparr>) = lok lx" "behind (lx\<lparr>token := x\<rparr>) c = behind lx c"
  "rem (lx\<lparr>string_val := y\<rparr>) = rem lx" "lok (lx\<lparr>string_val := y\<rparr>) = lok lx" "behind (lx\<lparr>string_val := y\<rparr>) c = behind lx c"
  "rem (lx\<lparr>saved_text := z\<rparr>) = rem lx" "lok (lx\<lparr>saved_text := z\<rparr>) = lok lx" "behind (lx\<lparr>saved_text := z\<rparr>) c = behind lx c"
  "rem (lx\<lparr>depth := d\<rparr>) = rem lx" "lok (lx\<lparr>depth := d\<rparr>) = lok lx" "behind (lx\<lparr>depth := d\<rparr>) c = behind lx c"
  "rem (lx\<lparr>integer_val := i\<rparr>) = rem lx" "lok (lx\<lparr>integer_val := i\<rparr>) = lok lx" "behind (lx\<lparr>integer_val := i\<rparr>) c = behind lx c"
  "rem (lx\<lparr>real_val := r\<rparr>) = rem lx" "lok (lx\<lparr>real_val := r\<rparr>) = lok lx" "behind (lx\<lparr>real_val := r\<rparr>) c = behind lx c"
  "rem (lx\<lparr>lx_error := e\<rparr>) = rem lx" "lok (lx\<lparr>lx_error := e\<rparr>) = lok lx" "behind (lx\<lparr>lx_error := e\<rparr>) c = behind lx c"
  by (simp_all add: rem_def lok_def behind_def)

section \<open>Strings\<close>

text \<open>The text between the quotes of a string token, as the first pass accepts it.\<close>

fun str_body :: "int list \<Rightarrow> bool" where
  "str_body [] \<longleftrightarrow> True"
| "str_body (c # cs) \<longleftrightarrow>
     (if c = 92
      then (case cs of
              [] \<Rightarrow> False
            | d # r \<Rightarrow>
                if d = 117
                then (case r of
                        h1 # h2 # h3 # h4 # r' \<Rightarrow>
                          l_isxdigit h1 \<and> l_isxdigit h2 \<and> l_isxdigit h3 \<and> l_isxdigit h4 \<and> str_body r'
                      | _ \<Rightarrow> False)
                else decode_short d \<noteq> None \<and> str_body r)
      else c \<noteq> 34 \<and> str_body cs)"

lemma str_body_append: "str_body xs \<Longrightarrow> str_body (xs @ ys) = str_body ys"
proof (induction xs rule: str_body.induct)
  case (2 c cs)
  show ?case
  proof (cases "c = 92")
    case True
    with "2.prems" obtain d r where cs: "cs = d # r" by (cases cs) auto
    show ?thesis
    proof (cases "d = 117")
      case u: True
      with "2.prems" True cs obtain h1 h2 h3 h4 r' where r: "r = h1 # h2 # h3 # h4 # r'"
        by (auto split: list.splits)
      show ?thesis using 2(1) [OF True cs u r refl refl refl] "2.prems" True cs u r by simp
    next
      case False
      then show ?thesis using 2(2) [OF True cs] "2.prems" True cs by simp
    qed
  next
    case False
    then show ?thesis using 2(3) "2.prems" by simp
  qed
qed simp

text \<open>Four hexadecimal digits always decode.\<close>

definition hex_val :: "int \<Rightarrow> int" where
  "hex_val h = (if l_isdigit h then h - 48 else if l_islower h then h - 87 else h - 55)"

lemma hex_val_range: "l_isxdigit h \<Longrightarrow> 0 \<le> hex_val h \<and> hex_val h < 16"
  by (auto simp: hex_val_def l_isxdigit_def l_isdigit_def l_islower_def)

lemma unicode_loop_xdigit:
  "l_isxdigit h \<Longrightarrow> unicode_loop (h # p) (Suc k) x = unicode_loop p k (16 * x + hex_val h)"
  by (auto simp: hex_val_def l_isxdigit_def l_isdigit_def l_islower_def l_isupper_def push_bit_eq_mult Let_def
      algebra_simps)

definition hex4 :: "int \<Rightarrow> int \<Rightarrow> int \<Rightarrow> int \<Rightarrow> int" where
  "hex4 h1 h2 h3 h4 = ((hex_val h1 * 16 + hex_val h2) * 16 + hex_val h3) * 16 + hex_val h4"

lemma decode_escape_xdigits:
  assumes "l_isxdigit h1" "l_isxdigit h2" "l_isxdigit h3" "l_isxdigit h4"
  shows "decode_unicode_escape (117 # h1 # h2 # h3 # h4 # r) = Some (hex4 h1 h2 h3 h4)"
    "0 \<le> hex4 h1 h2 h3 h4" "hex4 h1 h2 h3 h4 < 0x10000"
proof -
  have u: "unicode_loop q 4 x = unicode_loop q (Suc (Suc (Suc (Suc 0)))) x" for q x by (simp add: eval_nat_numeral)
  show "decode_unicode_escape (117 # h1 # h2 # h3 # h4 # r) = Some (hex4 h1 h2 h3 h4)"
    using assms by (simp add: decode_unicode_escape_def u unicode_loop_xdigit hex4_def algebra_simps del: unicode_loop.simps(3))
  show "0 \<le> hex4 h1 h2 h3 h4" "hex4 h1 h2 h3 h4 < 0x10000"
    using assms [THEN hex_val_range] by (simp_all add: hex4_def)
qed

text \<open>A \<^verbatim>\<open>\u\<close> escape at the front of a string body is decoded or reported, and what follows is again a
  string body.\<close>

lemma encode_total: "0 \<le> v \<Longrightarrow> v \<le> 0x10FFFF \<Longrightarrow> \<exists>bs. utf8_encode v = Some bs"
  by (auto simp: utf8_encode_def)

lemma decode_u_ok:
  assumes h: "l_isxdigit h1" "l_isxdigit h2" "l_isxdigit h3" "l_isxdigit h4" and r: "str_body r"
  shows "yields (decode_u (92 # 117 # h1 # h2 # h3 # h4 # r @ 34 # rest))
    (\<lambda>res. \<forall>bs q. res = Inr (bs, q) \<longrightarrow> (\<exists>r'. q = r' @ 34 # rest \<and> str_body r' \<and> length r' \<le> length r))"
proof -
  define p1 where "p1 = r @ 34 # rest"
  define v where "v = hex4 h1 h2 h3 h4"
  note V = decode_escape_xdigits [OF h, folded v_def]
  show ?thesis
  proof (cases "0xD800 \<le> v \<and> v \<le> 0xDBFF \<and> take 2 p1 = [92, 117]")
    case False
    obtain bs where "utf8_encode v = Some bs" using encode_total V by fastforce
    with False V r show ?thesis
      by (auto simp: decode_u_def p1_def [symmetric] Let_def) (auto simp: p1_def)
  next
    case True
    then obtain q where "r @ 34 # rest = 92 # 117 # q" unfolding p1_def
      by (metis append_Cons append_Nil append_take_drop_id)
    then obtain g1 g2 g3 g4 r' where r': "r = 92 # 117 # g1 # g2 # g3 # g4 # r'" and
      g: "l_isxdigit g1" "l_isxdigit g2" "l_isxdigit g3" "l_isxdigit g4" "str_body r'"
      using r by (cases r; cases "tl r") (auto split: list.splits if_splits)
    define w where "w = hex4 g1 g2 g3 g4"
    note W = decode_escape_xdigits [OF g(1-4), folded w_def]
    let ?x = "push_bit 10 (v - 0xD800) + (w - 0xDC00) + 0x10000"
    have x: "\<exists>bs. utf8_encode ?x = Some bs" if "0xDC00 \<le> w" "w \<le> 0xDFFF"
      using True that by (intro encode_total) (auto simp: push_bit_eq_mult)
    show ?thesis using True V W g(5) x
      by (auto simp: decode_u_def r' Let_def)
  qed
qed

lemma decode_string_ok: "str_body b \<Longrightarrow> yields (decode_string (b @ 34 # rest) t) (\<lambda>_. True)"
proof (induction "length b" arbitrary: b t rule: less_induct)
  case less
  show ?case
  proof (cases b)
    case Nil
    then show ?thesis by (simp add: decode_string.simps)
  next
    case (Cons c cs)
    show ?thesis
    proof (cases "c = 92")
      case False
      then have "decode_string (b @ 34 # rest) t = decode_string (cs @ 34 # rest) (t @ [c])"
        using Cons less.prems by (subst decode_string.simps) simp
      then show ?thesis using less.hyps [of cs "t @ [c]"] less.prems False Cons by simp
    next
      case True
      with less.prems Cons obtain d r where cs: "cs = d # r" by (cases cs) auto
      show ?thesis
      proof (cases "d = 117")
        case False
        then obtain y where y: "decode_short d = Some y" "str_body r" using less.prems Cons True cs by auto
        then have "decode_string (b @ 34 # rest) t = decode_string (r @ 34 # rest) (t @ [y])"
          using Cons True cs False by (subst decode_string.simps) simp
        then show ?thesis using less.hyps [of r "t @ [y]"] y Cons cs by simp
      next
        case u: True
        with less.prems True Cons cs obtain h1 h2 h3 h4 r' where
          h: "r = h1 # h2 # h3 # h4 # r'" "l_isxdigit h1" "l_isxdigit h2" "l_isxdigit h3" "l_isxdigit h4" "str_body r'"
          by (auto split: list.splits)
        from decode_u_ok [OF h(2-6), of rest] obtain res where
          res: "decode_u (b @ 34 # rest) = Some res"
            "\<forall>bs q. res = Inr (bs, q) \<longrightarrow> (\<exists>r''. q = r'' @ 34 # rest \<and> str_body r'' \<and> length r'' \<le> length r')"
          using Cons True cs u h(1) by (auto simp: yields_def)
        have e: "decode_string (b @ 34 # rest) t = (case res of Inl msg \<Rightarrow> Some (Inl msg) | Inr (bs, q) \<Rightarrow> decode_string q (t @ bs))"
          using res(1) Cons True cs u by (subst decode_string.simps) (simp split: sum.splits prod.splits)
        show ?thesis
        proof (cases res)
          case (Inr a)
          with res(2) obtain bs q r'' where "res = Inr (bs, q)" "q = r'' @ 34 # rest" "str_body r''" "length r'' \<le> length r'"
            by (cases a) auto
          with less.hyps [of r'' "t @ bs"] e Cons cs h(1) show ?thesis by simp
        qed (simp add: e)
      qed
    qed
  qed
qed

text \<open>\<open>\<^verbatim>\<open>at lx0 s c lx\<close>\<close>: the lexer has read on from \<open>lx0\<close>, the saved text is \<open>s\<close> and the last byte \<open>c\<close>.\<close>

definition at :: "'r lex_t \<Rightarrow> int list \<Rightarrow> int \<Rightarrow> 'r lex_t \<Rightarrow> bool" where
  "at lx0 s c lx \<longleftrightarrow> lok lx \<and> behind lx c \<and> same (lx0\<lparr>saved_text := s @ opt_byte c\<rparr>) lx \<and>
     rem lx + (if 0 \<le> c then 1 else 0) \<le> rem lx0"

lemma at_next:
  assumes "at lx0 s c lx" "0 \<le> c" "got_saved lx (c', lx')"
  shows "at lx0 (s @ [c]) c' lx'" "rem lx' + (if 0 \<le> c' then 1 else 0) \<le> rem lx"
  using assms by (auto simp: at_def got_saved_def same_def opt_byte_def)

lemma at_start: "got_saved lx0 (c, lx) \<Longrightarrow> at lx0 (saved_text lx0) c lx"
  by (auto simp: at_def got_saved_def same_def)

lemma at_error [simp]: "at lx0 s c (error_set lx e m) = at lx0 s c lx"
  by (simp add: at_def behind_def)

lemma scan_hex_ok:
  assumes "at lx0 s c lx"
  shows "yields (scan_hex k c lx) (\<lambda>(ok, c', lx'). rem lx' \<le> rem lx \<and>
    (\<exists>hs. (\<forall>h \<in> set hs. l_isxdigit h) \<and> at lx0 (s @ hs) c' lx' \<and> (ok \<longrightarrow> length hs = k)))"
  using assms
proof (induction k arbitrary: s c lx)
  case 0
  then show ?case by (auto intro!: exI [of _ "[]"])
next
  case (Suc k)
  show ?case
  proof (cases "l_isxdigit c")
    case False
    then show ?thesis using Suc.prems by (auto intro!: exI [of _ "[]"])
  next
    case True
    then have c: "0 \<le> c" by (auto simp: l_isxdigit_def l_isdigit_def)
    have l: "lok lx" using Suc.prems by (simp add: at_def)
    show ?thesis using True
    proof (simp, intro yields_bind [OF lex_get_save_ok [OF l]], clarify)
      fix c1 lx1 assume g: "got_saved lx (c1, lx1)"
      note A = at_next [OF Suc.prems c g]
      have "rem lx1 \<le> rem lx" using A(2) by (simp split: if_splits)
      then show "yields (scan_hex k c1 lx1) (\<lambda>(ok, c', lx'). rem lx' \<le> rem lx \<and>
        (\<exists>hs. (\<forall>h \<in> set hs. l_isxdigit h) \<and> at lx0 (s @ hs) c' lx' \<and> (ok \<longrightarrow> length hs = Suc k)))"
        using True by (intro yields_mono [OF Suc.IH [OF A(1)]]) (auto intro!: exI [of _ "c # _"])
    qed
  qed
qed

lemma str_body_snoc:
  "str_body b \<Longrightarrow> c \<noteq> 92 \<Longrightarrow> c \<noteq> 34 \<Longrightarrow> str_body (b @ [c])"
  "str_body b \<Longrightarrow> decode_short d \<noteq> None \<Longrightarrow> str_body (b @ [92, d])"
  "str_body b \<Longrightarrow> length hs = 4 \<Longrightarrow> \<forall>h \<in> set hs. l_isxdigit h \<Longrightarrow> str_body (b @ [92, 117] @ hs)"
  by (simp_all add: str_body_append decode_short_def split: if_splits)
    (auto simp: eval_nat_numeral length_Suc_conv)

text \<open>What a scan of a string leaves: \<open>ok\<close> when the closing quote was found.\<close>

definition scanned :: "'r lex_t \<Rightarrow> int list \<Rightarrow> bool \<times> 'r lex_t \<Rightarrow> bool" where
  "scanned lx0 s = (\<lambda>(ok, lx'). lok lx' \<and> rem lx' \<le> rem lx0 \<and>
     (\<exists>sv. same (lx0\<lparr>saved_text := sv\<rparr>) lx' \<and> (ok \<longrightarrow> (\<exists>b. sv = s @ b @ [34] \<and> str_body b))))"

lemma scanned_fail: "at lx0 s' c lx \<Longrightarrow> scanned lx0 s (False, lx)"
  by (auto simp: scanned_def at_def)

lemma scanned_error [simp]: "scanned lx0 s (False, error_set lx e m) = scanned lx0 s (False, lx)"
  by (simp add: scanned_def)

lemma scan_string_ok:
  assumes "at lx0 (s @ b) c lx" "str_body b"
  shows "yields (scan_string c lx) (scanned lx0 s)"
  using assms
proof (induction "rem lx" arbitrary: b c lx rule: less_induct)
  case less
  note A = less.prems(1)
  have l: "lok lx" and bh: "behind lx c" using A by (auto simp: at_def)
  have c: "c = -1 \<or> c = -2 \<or> 0 \<le> c" using bh by (auto simp: behind_def)
  consider (quote) "c = 34" | (eof) "c = -2 \<or> c = -1" | (control) "0 \<le> c" "c \<le> 0x1F" | (escape) "c = 92"
    | (plain) "0x1F < c" "c \<noteq> 34" "c \<noteq> 92"
    using c by linarith
  then show ?case
  proof cases
    case quote
    then show ?thesis using A less.prems(2)
      by (subst scan_string.simps) (auto simp: scanned_def at_def opt_byte_def)
  next
    case eof
    then show ?thesis using scanned_fail [OF A]
      by (subst scan_string.simps) (auto simp: STREAM_STATE_ERROR_def STREAM_STATE_EOF_def)
  next
    case control
    have sv: "saved_text lx = (s @ b) @ opt_byte c" using A by (auto simp: at_def same_def)
    have "scanned lx0 s (False, lx1)" if "lok lx1 \<and> same (lx\<lparr>saved_text := s @ b\<rparr>) lx1 \<and>
        rem lx1 \<le> rem lx + (if 0 \<le> c then 1 else 0)" for lx1
      using that A by (auto simp: scanned_def at_def same_def)
    with control show ?thesis
      by (subst scan_string.simps)
        (auto simp: STREAM_STATE_ERROR_def STREAM_STATE_EOF_def intro!: yields_bind [OF lex_unget_unsave_ok [OF l bh sv]])
  next
    case plain
    have "yields (scan_string c1 lx1) (scanned lx0 s)" if g: "got_saved lx (c1, lx1)" for c1 lx1
    proof -
      have "at lx0 (s @ b @ [c]) c1 lx1" "rem lx1 + (if 0 \<le> c1 then 1 else 0) \<le> rem lx"
        using at_next [OF A _ g] plain by auto
      show ?thesis
      proof (cases "0 \<le> c1")
        case True
        with \<open>at _ _ c1 lx1\<close> \<open>rem lx1 + _ \<le> _\<close> show ?thesis
          using less.hyps [of lx1 "b @ [c]" c1] str_body_snoc(1) [OF less.prems(2), of c] plain by simp
      next
        case False
        then have "c1 = -1 \<or> c1 = -2" using \<open>at _ _ c1 lx1\<close> by (auto simp: at_def behind_def)
        then show ?thesis using scanned_fail [OF \<open>at _ _ c1 lx1\<close>]
          by (subst scan_string.simps) (auto simp: STREAM_STATE_ERROR_def STREAM_STATE_EOF_def)
      qed
    qed
    with plain show ?thesis
      by (subst scan_string.simps)
        (auto simp: STREAM_STATE_ERROR_def STREAM_STATE_EOF_def intro!: yields_bind [OF lex_get_save_ok [OF l]])
  next
    case escape
    have "yields (if c1 = 117
         then do { (c2, lx2) \<leftarrow> lex_get_save lx1; (ok, c3, lx3) \<leftarrow> scan_hex 4 c2 lx2;
                   if ok then scan_string c3 lx3 else Some (False, lx3) }
         else if c1 = 34 \<or> c1 = 92 \<or> c1 = 47 \<or> c1 = 98 \<or> c1 = 102 \<or> c1 = 110 \<or> c1 = 114 \<or> c1 = 116
         then do { (c2, lx2) \<leftarrow> lex_get_save lx1; scan_string c2 lx2 }
         else Some (False, error_set lx1 json_error_invalid_syntax (str ''invalid escape''))) (scanned lx0 s)"
      if g: "got_saved lx (c1, lx1)" for c1 lx1
    proof -
      have A1: "at lx0 (s @ b @ [92]) c1 lx1" "rem lx1 + (if 0 \<le> c1 then 1 else 0) \<le> rem lx"
        using at_next [OF A _ g] escape by auto
      have l1: "lok lx1" using A1 by (simp add: at_def)
      have nxt: "at lx0 (s @ b @ [92, c1]) c2 lx2 \<and> rem lx2 < rem lx"
        if "0 \<le> c1" "got_saved lx1 (c2, lx2)" for c2 lx2
        using at_next [OF A1(1) that] A1(2) that(1) by (auto split: if_splits)
      show ?thesis
      proof (cases "c1 = 117")
        case True
        have "yields (scan_hex 4 c2 lx2 \<bind> (\<lambda>(ok, c3, lx3). if ok then scan_string c3 lx3 else Some (False, lx3)))
          (scanned lx0 s)" if g2: "got_saved lx1 (c2, lx2)" for c2 lx2
        proof -
          have A2: "at lx0 (s @ b @ [92, 117]) c2 lx2" "rem lx2 < rem lx" using nxt [OF _ g2] True by simp_all
          have "yields (if ok then scan_string c3 lx3 else Some (False, lx3)) (scanned lx0 s)"
            if q: "rem lx3 \<le> rem lx2" "\<forall>h \<in> set hs. l_isxdigit h" "at lx0 ((s @ b @ [92, 117]) @ hs) c3 lx3"
              "ok \<longrightarrow> length hs = 4" for ok c3 lx3 hs
          proof (cases ok)
            case True
            then have "str_body (b @ [92, 117] @ hs)" using str_body_snoc(3) [OF less.prems(2)] q by blast
            with less.hyps [of lx3 "b @ [92, 117] @ hs" c3] q A2 True show ?thesis by simp
          qed (use scanned_fail [OF q(3)] in simp)
          then show ?thesis by (auto intro!: yields_bind [OF scan_hex_ok [OF A2(1)]] intro: scanned_fail)
        qed
        with True show ?thesis by (auto intro!: yields_bind [OF lex_get_save_ok [OF l1]])
      next
        case False
        have "yields (scan_string c2 lx2) (scanned lx0 s)"
          if g2: "got_saved lx1 (c2, lx2)" and d: "0 \<le> c1" "decode_short c1 \<noteq> None" for c2 lx2
          using less.hyps [of lx2 "b @ [92, c1]" c2] nxt [OF d(1) g2] str_body_snoc(2) [OF less.prems(2) d(2)] by simp
        moreover have "scanned lx0 s (False, lx1)" by (rule scanned_fail [OF A1(1)])
        ultimately show ?thesis using False
          by (auto simp: decode_short_def intro!: yields_bind [OF lex_get_save_ok [OF l1]])
      qed
    qed
    with escape show ?thesis
      by (subst scan_string.simps)
        (auto simp: STREAM_STATE_ERROR_def STREAM_STATE_EOF_def intro!: yields_bind [OF lex_get_save_ok [OF l]])
  qed
qed

section \<open>Tokens\<close>

text \<open>What the scan of a token promises: the lexer is further (properly so after a comma), and the value that
  goes with the token is there.\<close>

definition tokened :: "nat \<Rightarrow> 'r lex_t \<Rightarrow> 'r lex_t \<Rightarrow> bool" where
  "tokened k lx lx' \<longleftrightarrow> lok lx' \<and> rem lx' \<le> k \<and> depth lx' = depth lx \<and> lx_flags lx' = lx_flags lx \<and>
     (token lx' = TOKEN_STRING \<longrightarrow> string_val lx' \<noteq> None) \<and> (token lx' = TOKEN_REAL \<longrightarrow> real_val lx' \<noteq> None) \<and>
     (token lx' = 44 \<longrightarrow> rem lx' < k)"

lemmas token_defs = TOKEN_INVALID_def TOKEN_EOF_def TOKEN_STRING_def TOKEN_INTEGER_def TOKEN_REAL_def TOKEN_TRUE_def
  TOKEN_FALSE_def TOKEN_NULL_def

lemma lex_scan_string_ok:
  assumes l: "lok lx" and s: "saved_text lx = [34]"
  shows "yields (lex_scan_string lx) (tokened (rem lx) lx)"
proof -
  let ?lx = "lx\<lparr>string_val := None, token := TOKEN_INVALID\<rparr>"
  have l0: "lok ?lx" using l by simp
  have fin: "yields (if \<not> ok then Some (lex_free_string lx2)
       else (case decode_string (drop 1 (saved_text lx2 @ [0])) [] of
             None \<Rightarrow> None
           | Some (Inl msg) \<Rightarrow> Some (lex_free_string (error_set lx2 json_error_invalid_syntax msg))
           | Some (Inr t) \<Rightarrow> Some (lx2\<lparr>string_val := Some t, token := TOKEN_STRING\<rparr>))) (tokened (rem lx) lx)"
    if sc: "scanned ?lx [34] (ok, lx2)" for ok lx2
  proof -
    have base: "lok lx2" "rem lx2 \<le> rem lx" "depth lx2 = depth lx" "lx_flags lx2 = lx_flags lx" "token lx2 = -1"
      using sc by (auto simp: scanned_def same_def token_defs)
    show ?thesis
    proof (cases ok)
      case False
      then show ?thesis using base
        by (simp add: tokened_def lex_free_string_def token_defs)
    next
      case True
      then obtain b where "saved_text lx2 = [34] @ b @ [34]" "str_body b" using sc by (auto simp: scanned_def same_def)
      then obtain res where "decode_string (drop 1 (saved_text lx2 @ [0])) [] = Some res"
        using decode_string_ok [of b "[0]" "[]"] by (auto simp: yields_def)
      with True base show ?thesis
        by (cases res) (simp_all add: tokened_def lex_free_string_def token_defs)
    qed
  qed
  have ss: "yields (scan_string c lx1) (scanned ?lx [34])" if "got_saved ?lx (c, lx1)" for c lx1
    using scan_string_ok [of ?lx "[34]" "[]" c lx1] at_start [OF that] s by simp
  show ?thesis unfolding lex_scan_string_def
    by (rule yields_bind [OF lex_get_save_ok [OF l0]], clarify, rule yields_bind, erule ss, clarify, rule fin)
qed

text \<open>The number grammar of JSON, the texts \<^verbatim>\<open>strtod\<close> is called on.\<close>

definition int_text :: "int list \<Rightarrow> bool" where
  "int_text t \<longleftrightarrow> (\<exists>m ds. t = m @ ds \<and> (m = [] \<or> m = [45]) \<and> ds \<noteq> [] \<and> (\<forall>d \<in> set ds. l_isdigit d))"

definition frac_text :: "int list \<Rightarrow> bool" where
  "frac_text t \<longleftrightarrow> t = [] \<or> (\<exists>ds. t = 46 # ds \<and> ds \<noteq> [] \<and> (\<forall>d \<in> set ds. l_isdigit d))"

definition exp_text :: "int list \<Rightarrow> bool" where
  "exp_text t \<longleftrightarrow> t = [] \<or> (\<exists>e m ds. t = e # m @ ds \<and> (e = 69 \<or> e = 101) \<and> (m = [] \<or> m = [43] \<or> m = [45]) \<and>
     ds \<noteq> [] \<and> (\<forall>d \<in> set ds. l_isdigit d))"

definition number_text :: "int list \<Rightarrow> bool" where
  "number_text t \<longleftrightarrow> (\<exists>i f e. t = i @ f @ e \<and> int_text i \<and> frac_text f \<and> exp_text e)"

text \<open>\<^verbatim>\<open>strtod\<close> consumes the whole of such a text, as the C standard says.\<close>

definition strtod_ok :: "'r strtodf \<Rightarrow> bool" where
  "strtod_ok strtod \<longleftrightarrow> (\<forall>t. number_text t \<longrightarrow> fst (strtod t) = length t)"

lemma takeWhile_all: "\<forall>x \<in> set xs. P x \<Longrightarrow> takeWhile P xs = xs"
  by (simp add: takeWhile_eq_all_conv)

lemma strtoll_int_text:
  assumes "int_text t"
  shows "snd (snd (strtoll t)) = length t"
proof -
  from assms obtain m ds where t: "t = m @ ds" "m = [] \<or> m = [45]" "ds \<noteq> []" "\<forall>d \<in> set ds. l_isdigit d"
    by (auto simp: int_text_def)
  have "hd ds \<noteq> 45" using t(3,4) by (cases ds) (auto simp: l_isdigit_def)
  with t show ?thesis by (auto simp: strtoll_def Let_def takeWhile_all)
qed

text \<open>The three parts of a number: \<open>s\<close> is the text before the part.\<close>

definition part :: "(int list \<Rightarrow> bool) \<Rightarrow> 'r lex_t \<Rightarrow> int list \<Rightarrow> int option \<times> 'r lex_t \<Rightarrow> bool" where
  "part P lx0 s = (\<lambda>(r, lx'). case r of
       None \<Rightarrow> lok lx' \<and> rem lx' \<le> rem lx0 \<and> (\<exists>sv. same (lx0\<lparr>saved_text := sv\<rparr>) lx')
     | Some c \<Rightarrow> \<exists>t. P t \<and> at lx0 (s @ t) c lx')"

lemma partI: "P t \<Longrightarrow> at lx0 (s @ t) c lx \<Longrightarrow> part P lx0 s (Some c, lx)"
  by (auto simp: part_def)

lemma at_unsave:
  assumes "at lx0 s c lx"
  shows "yields (lex_unget_unsave lx c) (\<lambda>lx'. lok lx' \<and> rem lx' \<le> rem lx0 \<and> same (lx0\<lparr>saved_text := s\<rparr>) lx')"
proof -
  have "saved_text lx = s @ opt_byte c" using assms by (auto simp: at_def same_def)
  with assms show ?thesis
    by (intro yields_mono [OF lex_unget_unsave_ok]) (auto simp: at_def same_def)
qed

lemma at_digits:
  assumes "at lx0 s c lx" "l_isdigit c"
  shows "yields (scan_digits lx) (\<lambda>(c', lx'). \<exists>ds. (\<forall>d \<in> set ds. l_isdigit d) \<and> \<not> l_isdigit c' \<and> at lx0 (s @ [c] @ ds) c' lx')"
proof -
  have "lok lx" using assms(1) by (simp add: at_def)
  moreover have "0 \<le> c" using assms(2) by (simp add: l_isdigit_def)
  ultimately show ?thesis using assms(1)
    by (intro yields_mono [OF scan_digits_ok]) (auto simp: ran_def at_def same_def opt_byte_def)
qed

lemma at_get:
  assumes "at lx0 s c lx" "0 \<le> c"
  shows "yields (lex_get_save lx) (\<lambda>(c', lx'). at lx0 (s @ [c]) c' lx')"
proof -
  have "lok lx" using assms(1) by (simp add: at_def)
  then show ?thesis using at_next(1) [OF assms] by (intro yields_mono [OF lex_get_save_ok]) auto
qed

lemma scan_int_part_ok:
  assumes A: "at lx0 [] c lx" and c: "l_isdigit c \<or> c = 45"
  shows "yields (scan_int_part c lx) (part int_text lx0 [])"
proof -
  have I: "int_text (m @ d # ds)" if "m = [] \<or> m = [45]" "l_isdigit d" "\<forall>d \<in> set ds. l_isdigit d" for m d ds
    unfolding int_text_def using that by - (rule exI [of _ m], rule exI [of _ "d # ds"], auto)
  have out: "yields (lex_unget_unsave lx1 c1 \<bind> (\<lambda>lx2. Some (None, lx2))) (part int_text lx0 [])" if "at lx0 s c1 lx1" for s c1 lx1
    by (rule yields_bind [OF at_unsave [OF that]]) (auto simp: part_def)
  have body: "yields (if c1 = 48
     then do { (c2, lx2) \<leftarrow> lex_get_save lx1;
               if l_isdigit c2 then do { lx3 \<leftarrow> lex_unget_unsave lx2 c2; Some (None, lx3) } else Some (Some c2, lx2) }
     else if l_isdigit c1 then do { (c2, lx2) \<leftarrow> scan_digits lx1; Some (Some c2, lx2) }
     else do { lx2 \<leftarrow> lex_unget_unsave lx1 c1; Some (None, lx2) }) (part int_text lx0 [])"
    if B: "at lx0 m c1 lx1" and m: "m = [] \<or> m = [45]" for m c1 lx1
  proof (cases "l_isdigit c1")
    case True
    show ?thesis
    proof (cases "c1 = 48")
      case z: True
      show ?thesis using z I [OF m True, of "[]"]
        by (auto intro!: yields_bind [OF at_get [OF B]] out partI [of int_text "m @ [48]" lx0 "[]"] split: if_splits)
    next
      case False
      then show ?thesis using True I [OF m True]
        by (auto intro!: yields_bind [OF at_digits [OF B True]] partI [of int_text "m @ c1 # _" lx0 "[]"])
    qed
  next
    case False
    then have "c1 \<noteq> 48" by (auto simp: l_isdigit_def)
    with False show ?thesis using out [OF B] by simp
  qed
  show ?thesis
  proof (cases "c = 45")
    case True
    then show ?thesis using body [of "[45]"]
      by (auto simp: scan_int_part_def intro!: yields_bind [OF at_get [OF A]])
  next
    case False
    then show ?thesis using body [OF A] by (simp add: scan_int_part_def)
  qed
qed

lemma at_out:
  "at lx0 s c lx \<Longrightarrow> yields (lex_unget_unsave lx c \<bind> (\<lambda>lx2. Some (None, lx2))) (part P lx0 s')"
  by (rule yields_bind [OF at_unsave]) (auto simp: part_def)

lemma at_get_unsaved:
  assumes "at lx0 s c lx" "0 \<le> c"
  shows "yields (lex_get lx) (\<lambda>(c', lx'). lok lx' \<and> behind lx' c' \<and> same (lx0\<lparr>saved_text := s @ [c]\<rparr>) lx' \<and>
    rem lx' + (if 0 \<le> c' then 1 else 0) \<le> rem lx0)"
proof -
  have "lok lx" using assms(1) by (simp add: at_def)
  then show ?thesis using assms
    by (intro yields_mono [OF lex_get_ok]) (auto simp: got_def at_def same_def opt_byte_def)
qed

lemma scan_fraction_ok:
  assumes A: "at lx0 s c lx"
  shows "yields (scan_fraction c lx) (part frac_text lx0 s)"
proof (cases "c = 46")
  case False
  then show ?thesis using A by (auto simp: scan_fraction_def part_def frac_text_def)
next
  case True
  have step: "yields (if \<not> l_isdigit c1 then do { lx2 \<leftarrow> lex_unget lx1 c1; Some (None, lx2) }
      else do { (c2, lx2) \<leftarrow> scan_digits (lex_save lx1 c1); Some (Some c2, lx2) }) (part frac_text lx0 s)"
    if g: "lok lx1" "behind lx1 c1" "same (lx0\<lparr>saved_text := s @ [46]\<rparr>) lx1" "rem lx1 + (if 0 \<le> c1 then 1 else 0) \<le> rem lx0"
    for c1 lx1
  proof (cases "l_isdigit c1")
    case d: True
    then have "0 \<le> c1" by (simp add: l_isdigit_def)
    then have "at lx0 (s @ [46]) c1 (lex_save lx1 c1)"
      using g by (auto simp: at_def lex_save_def same_def opt_byte_def)
    moreover have "frac_text (46 # c1 # ds)" if "\<forall>d \<in> set ds. l_isdigit d" for ds
      using d that by (simp add: frac_text_def)
    ultimately show ?thesis using d
      by (auto intro!: yields_bind [OF at_digits [OF _ d]] partI [of frac_text "46 # c1 # _"])
  next
    case False
    show ?thesis
    proof (cases "0 \<le> c1")
      case True
      have "yields (stream_unget lx1 c1 \<bind> (\<lambda>lx2. Some (None, lx2))) (part frac_text lx0 s)"
        using g True by (intro yields_bind [OF stream_unget_ok [OF g(1,2)]]) (auto simp: part_def same_def)
      with False show ?thesis by (simp add: lex_unget_def)
    next
      case n: False
      then have "c1 = -1 \<or> c1 = -2" using g(2) by (auto simp: behind_def)
      with False g n show ?thesis
        by (auto simp: lex_unget_def stream_unget_def STREAM_STATE_EOF_def STREAM_STATE_ERROR_def part_def same_def)
    qed
  qed
  show ?thesis unfolding scan_fraction_def using True
    by simp (rule yields_bind [OF at_get_unsaved [OF A]], simp, clarify, rule step [simplified], auto)
qed

lemma scan_exponent_ok:
  assumes A: "at lx0 s c lx"
  shows "yields (scan_exponent c lx) (part exp_text lx0 s)"
proof (cases "c = 69 \<or> c = 101")
  case False
  then show ?thesis using A by (auto simp: scan_exponent_def part_def exp_text_def)
next
  case True
  have E: "exp_text (c # m @ d # ds)" if "m = [] \<or> m = [43] \<or> m = [45]" "l_isdigit d" "\<forall>d \<in> set ds. l_isdigit d" for m d ds
    unfolding exp_text_def using that True by - (rule disjI2, rule exI [of _ c], rule exI [of _ m], rule exI [of _ "d # ds"], auto)
  have step: "yields (if \<not> l_isdigit c2 then do { lx3 \<leftarrow> lex_unget_unsave lx2 c2; Some (None, lx3) }
        else do { (c3, lx3) \<leftarrow> scan_digits lx2; Some (Some c3, lx3) }) (part exp_text lx0 s)"
    if B: "at lx0 (s @ c # m) c2 lx2" and m: "m = [] \<or> m = [43] \<or> m = [45]" for m c2 lx2
  proof (cases "l_isdigit c2")
    case d: True
    then show ?thesis using E [OF m d]
      by (auto intro!: yields_bind [OF at_digits [OF B d]] partI [of exp_text "c # m @ c2 # _"])
  next
    case False
    then show ?thesis using at_out [OF B] by simp
  qed
  have step1: "yields ((if c1 = 43 \<or> c1 = 45 then lex_get_save lx1 else Some (c1, lx1)) \<bind> (\<lambda>(c2, lx2).
      if \<not> l_isdigit c2 then do { lx3 \<leftarrow> lex_unget_unsave lx2 c2; Some (None, lx3) }
      else do { (c3, lx3) \<leftarrow> scan_digits lx2; Some (Some c3, lx3) })) (part exp_text lx0 s)"
    if B: "at lx0 (s @ [c]) c1 lx1" for c1 lx1
  proof (cases "c1 = 43 \<or> c1 = 45")
    case s: True
    then have "0 \<le> c1" by auto
    from s show ?thesis
      by simp (rule yields_bind [OF at_get [OF B \<open>0 \<le> c1\<close>]], clarify, rule step [of "[c1]", simplified], auto)
  next
    case False
    then show ?thesis using step [of "[]" c1 lx1] B by simp
  qed
  have "0 \<le> c" using True by auto
  from True show ?thesis unfolding scan_exponent_def
    by simp (rule yields_bind [OF at_get [OF A \<open>0 \<le> c\<close>]], clarify, rule step1 [simplified], simp)
qed

lemma at_token: "at lx0 s c lx \<Longrightarrow> at (lx0\<lparr>token := x\<rparr>) s c (lx\<lparr>token := x\<rparr>)"
  by (auto simp: at_def same_def)

lemma finish_integer_ok:
  assumes A: "at lx0 t c lx" and t: "int_text t" and tk: "token lx0 = TOKEN_INVALID"
  shows "yields (finish_integer c lx) (\<lambda>(ok, lx'). tokened (rem lx0) lx0 lx')"
proof -
  obtain v e where s: "strtoll t = (v, e, length t)" using strtoll_int_text [OF t] by (metis prod.collapse snd_conv)
  show ?thesis unfolding finish_integer_def
  proof (rule yields_bind [OF at_unsave [OF A]])
    fix lx1 assume B: "lok lx1 \<and> rem lx1 \<le> rem lx0 \<and> same (lx0\<lparr>saved_text := t\<rparr>) lx1"
    then have "saved_text lx1 = t" by (simp add: same_def)
    with s B tk show "yields (let (intval, erange, n) = strtoll (saved_text lx1) in
       if erange then Some (False, error_set lx1 json_error_numeric_overflow
                  (if intval < 0 then str ''too big negative integer'' else str ''too big integer''))
       else assert_c (n = length (saved_text lx1)) \<bind>
         (\<lambda>_. Some (True, lx1\<lparr>token := TOKEN_INTEGER, integer_val := intval\<rparr>))) (\<lambda>(ok, lx'). tokened (rem lx0) lx0 lx')"
      by (auto simp: tokened_def same_def token_defs)
  qed
qed

lemma finish_real_ok:
  assumes A: "at lx0 t c lx" and t: "number_text t" and tk: "token lx0 = TOKEN_INVALID" and sd: "strtod_ok strtod"
  shows "yields (finish_real strtod c lx) (\<lambda>(ok, lx'). tokened (rem lx0) lx0 lx')"
proof -
  obtain v e where s: "strtod t = (length t, v, e)" using sd t by (metis prod.collapse strtod_ok_def)
  show ?thesis unfolding finish_real_def
  proof (rule yields_bind [OF at_unsave [OF A]])
    fix lx1 assume B: "lok lx1 \<and> rem lx1 \<le> rem lx0 \<and> same (lx0\<lparr>saved_text := t\<rparr>) lx1"
    then have "saved_text lx1 = t" by (simp add: same_def)
    with s B tk show "yields (jsonp_strtod strtod (saved_text lx1) \<bind> (\<lambda>r. case r of
        None \<Rightarrow> Some (False, error_set lx1 json_error_numeric_overflow (str ''real number overflow''))
      | Some doubleval \<Rightarrow> Some (True, lx1\<lparr>token := TOKEN_REAL, real_val := Some doubleval\<rparr>)))
      (\<lambda>(ok, lx'). tokened (rem lx0) lx0 lx')"
      by (auto simp: jsonp_strtod_def tokened_def same_def token_defs)
  qed
qed

lemma part_None_tokened:
  "part P lx0 s (None, lx') \<Longrightarrow> token lx0 = TOKEN_INVALID \<Longrightarrow> tokened (rem lx0) lx0 lx'"
  by (auto simp: part_def tokened_def same_def token_defs)

lemma part_SomeE:
  assumes "part P lx0 s (Some c, lx')" obtains t where "P t" "at lx0 (s @ t) c lx'"
  using assms by (auto simp: part_def)

lemma number_texts:
  "int_text i \<Longrightarrow> frac_text f \<Longrightarrow> exp_text e \<Longrightarrow> number_text (i @ f @ e)"
  by (auto simp: number_text_def)

lemma lex_scan_number_ok:
  assumes A: "at lx0 [] c lx" and c: "l_isdigit c \<or> c = 45" and sd: "strtod_ok strtod"
  shows "yields (lex_scan_number strtod c lx) (\<lambda>(ok, lx'). tokened (rem lx0) lx0 lx')"
proof -
  let ?l0 = "lx0\<lparr>token := TOKEN_INVALID\<rparr>"
  have T: "tokened (rem ?l0) ?l0 lx' = tokened (rem lx0) lx0 lx'" for lx' by (simp add: tokened_def)
  have exp: "yields (case r3 of None \<Rightarrow> Some (False, lx3) | Some c3 \<Rightarrow> finish_real strtod c3 lx3)
      (\<lambda>(ok, lx'). tokened (rem ?l0) ?l0 lx')"
    if "part exp_text ?l0 (i @ f) (r3, lx3)" "int_text i" "frac_text f" for i f r3 lx3
  proof (cases r3)
    case (Some c3)
    with that obtain e where "exp_text e" "at ?l0 ((i @ f) @ e) c3 lx3" by (auto elim: part_SomeE)
    with that show ?thesis using finish_real_ok [of ?l0 "i @ f @ e" c3 lx3 strtod] number_texts sd Some by simp
  qed (use that part_None_tokened [of exp_text ?l0] in simp)
  have frac: "yields (case r2 of None \<Rightarrow> Some (False, lx2)
      | Some c2 \<Rightarrow> scan_exponent c2 lx2 \<bind> (\<lambda>(r3, lx3).
          case r3 of None \<Rightarrow> Some (False, lx3) | Some c3 \<Rightarrow> finish_real strtod c3 lx3))
      (\<lambda>(ok, lx'). tokened (rem ?l0) ?l0 lx')"
    if "part frac_text ?l0 i (r2, lx2)" "int_text i" for i r2 lx2
  proof (cases r2)
    case (Some c2)
    with that obtain f where f: "frac_text f" "at ?l0 (i @ f) c2 lx2" by (auto elim: part_SomeE)
    show ?thesis using Some exp [OF _ that(2) f(1)]
      by simp (rule yields_bind [OF scan_exponent_ok [OF f(2)]], clarify, blast)
  qed (use that part_None_tokened [of frac_text ?l0] in simp)
  have int: "yields (case r1 of None \<Rightarrow> Some (False, lx1)
      | Some c1 \<Rightarrow>
          if lx_flags lx1 AND JSON_DECODE_INT_AS_REAL = 0 \<and> c1 \<noteq> 46 \<and> c1 \<noteq> 69 \<and> c1 \<noteq> 101
          then finish_integer c1 lx1
          else scan_fraction c1 lx1 \<bind> (\<lambda>(r2, lx2). case r2 of None \<Rightarrow> Some (False, lx2)
             | Some c2 \<Rightarrow> scan_exponent c2 lx2 \<bind> (\<lambda>(r3, lx3).
                 case r3 of None \<Rightarrow> Some (False, lx3) | Some c3 \<Rightarrow> finish_real strtod c3 lx3)))
      (\<lambda>(ok, lx'). tokened (rem ?l0) ?l0 lx')"
    if "part int_text ?l0 [] (r1, lx1)" for r1 lx1
  proof (cases r1)
    case (Some c1)
    with that obtain i where i: "int_text i" "at ?l0 ([] @ i) c1 lx1" by (auto elim: part_SomeE)
    have "yields (scan_fraction c1 lx1 \<bind> (\<lambda>(r2, lx2). case r2 of None \<Rightarrow> Some (False, lx2)
             | Some c2 \<Rightarrow> scan_exponent c2 lx2 \<bind> (\<lambda>(r3, lx3).
                 case r3 of None \<Rightarrow> Some (False, lx3) | Some c3 \<Rightarrow> finish_real strtod c3 lx3)))
      (\<lambda>(ok, lx'). tokened (rem ?l0) ?l0 lx')"
      by (rule yields_bind [OF scan_fraction_ok [OF i(2)]], clarify, rule frac) (use i in auto)
    with Some i show ?thesis using finish_integer_ok [of ?l0 i c1 lx1] by simp
  qed (use that part_None_tokened [of int_text ?l0] in simp)
  show ?thesis unfolding lex_scan_number_def T [symmetric]
    by (rule yields_bind [OF scan_int_part_ok [OF at_token [OF A] c]], clarify, erule int)
qed

lemma tokened_mono: "tokened k lx lx' \<Longrightarrow> k \<le> k' \<Longrightarrow> depth lx = depth lx0 \<Longrightarrow> lx_flags lx = lx_flags lx0 \<Longrightarrow> tokened k' lx0 lx'"
  by (auto simp: tokened_def)

lemma token_word_ok:
  assumes l: "lok lx4" and s: "same (lx3\<lparr>saved_text := [c]\<rparr>) lx4"
  shows "yields (scan_alpha lx4 \<bind> (\<lambda>(c1, lx5). lex_unget_unsave lx5 c1 \<bind> (\<lambda>lx6.
            Some (lx6\<lparr>token :=
              (if saved_text lx6 = str ''true'' then TOKEN_TRUE
               else if saved_text lx6 = str ''false'' then TOKEN_FALSE
               else if saved_text lx6 = str ''null'' then TOKEN_NULL
               else TOKEN_INVALID)\<rparr>))))
    (tokened (rem lx4) lx3)"
proof (rule yields_bind [OF scan_alpha_ok [OF l]], clarify)
  fix c1 lx5 assume "ran l_isalpha lx4 (c1, lx5)"
  then obtain ds where r: "lok lx5" "behind lx5 c1" "same (lx4\<lparr>saved_text := saved_text lx4 @ ds @ opt_byte c1\<rparr>) lx5"
    "rem lx5 + (if 0 \<le> c1 then 1 else 0) \<le> rem lx4" by (auto simp: ran_def)
  then have "saved_text lx5 = (saved_text lx4 @ ds) @ opt_byte c1" by (simp add: same_def)
  from lex_unget_unsave_ok [OF r(1,2) this] r(3,4) s
  show "yields (lex_unget_unsave lx5 c1 \<bind> (\<lambda>lx6.
            Some (lx6\<lparr>token :=
              (if saved_text lx6 = str ''true'' then TOKEN_TRUE
               else if saved_text lx6 = str ''false'' then TOKEN_FALSE
               else if saved_text lx6 = str ''null'' then TOKEN_NULL
               else TOKEN_INVALID)\<rparr>)))
    (tokened (rem lx4) lx3)"
    by - (erule yields_bind, auto simp: tokened_def same_def token_defs)
qed

lemma got_save_at: "got lx2 (c, lx3) \<Longrightarrow> 0 \<le> c \<Longrightarrow> saved_text lx2 = [] \<Longrightarrow> at lx2 [] c (lex_save lx3 c)"
  by (auto simp: got_def at_def lex_save_def same_def opt_byte_def)

lemma lex_scan_ok:
  assumes l: "lok lx0" and sd: "strtod_ok strtod"
  shows "yields (lex_scan strtod lx0) (\<lambda>lx'. tokened (rem lx0) lx0 lx')"
proof -
  define lx2 where "lx2 = (let lx1 = lx0\<lparr>saved_text := []\<rparr> in if token lx1 = TOKEN_STRING then lex_free_string lx1 else lx1)"
  have L: "lok lx2" "rem lx2 = rem lx0" "depth lx2 = depth lx0" "lx_flags lx2 = lx_flags lx0" "saved_text lx2 = []"
    using l by (auto simp: lx2_def lex_free_string_def Let_def)
  let ?Q = "\<lambda>lx'. tokened (rem lx0) lx0 lx'"
  have "yields (if c = STREAM_STATE_EOF then Some (lx3\<lparr>token := TOKEN_EOF\<rparr>)
        else if c = STREAM_STATE_ERROR then Some (lx3\<lparr>token := TOKEN_INVALID\<rparr>)
        else let lx4 = lex_save lx3 c in
          if c = 123 \<or> c = 125 \<or> c = 91 \<or> c = 93 \<or> c = 58 \<or> c = 44 then Some (lx4\<lparr>token := c\<rparr>)
          else if c = 34 then lex_scan_string lx4
          else if l_isdigit c \<or> c = 45 then do { (ok, lx5) \<leftarrow> lex_scan_number strtod c lx4; Some lx5 }
          else if l_isalpha c
          then do {
            (c1, lx5) \<leftarrow> scan_alpha lx4;
            lx6 \<leftarrow> lex_unget_unsave lx5 c1;
            Some (lx6\<lparr>token :=
              (if saved_text lx6 = str ''true'' then TOKEN_TRUE
               else if saved_text lx6 = str ''false'' then TOKEN_FALSE
               else if saved_text lx6 = str ''null'' then TOKEN_NULL
               else TOKEN_INVALID)\<rparr>) }
          else do { lx5 \<leftarrow> lex_save_cached lx4; Some (lx5\<lparr>token := TOKEN_INVALID\<rparr>) }) ?Q"
    if g: "got lx2 (c, lx3)" for c lx3
  proof (cases "0 \<le> c")
    case False
    then have "c = -1 \<or> c = -2" using g by (auto simp: got_def behind_def)
    then show ?thesis using g L
      by (auto simp: STREAM_STATE_EOF_def STREAM_STATE_ERROR_def got_def tokened_def same_def token_defs)
  next
    case c: True
    define lx4 where "lx4 = lex_save lx3 c"
    have A: "at lx2 [] c lx4" unfolding lx4_def using got_save_at g c L by blast
    then have B: "lok lx4" "same (lx2\<lparr>saved_text := [c]\<rparr>) lx4" "Suc (rem lx4) \<le> rem lx0" "behind lx4 c"
      using c L by (auto simp: at_def opt_byte_def)
    have st: "saved_text lx4 = [c]" "depth lx4 = depth lx0" "lx_flags lx4 = lx_flags lx0"
      using B(2) L by (auto simp: same_def)
    have lx: "lx_stream lx4 = lx_stream lx3" by (simp add: lx4_def lex_save_def)
    have single: "?Q (lx4\<lparr>token := d\<rparr>)" if "d \<in> {123, 125, 91, 93, 58, 44}" for d
      using that B st by (auto simp: tokened_def token_defs)
    have string: "yields (lex_scan_string lx4) ?Q" if "c = 34"
      using lex_scan_string_ok [OF B(1)] st that B(3) by (auto elim!: yields_mono tokened_mono simp: tokened_def)
    have num: "yields (lex_scan_number strtod c lx4 \<bind> (\<lambda>(ok, lx5). Some lx5)) ?Q" if "l_isdigit c \<or> c = 45"
      using L by (intro yields_bind [OF lex_scan_number_ok [OF A that sd]]) (auto simp: tokened_def)
    have alpha: "yields (scan_alpha lx4 \<bind> (\<lambda>(c1, lx5). lex_unget_unsave lx5 c1 \<bind> (\<lambda>lx6.
            Some (lx6\<lparr>token :=
              (if saved_text lx6 = str ''true'' then TOKEN_TRUE
               else if saved_text lx6 = str ''false'' then TOKEN_FALSE
               else if saved_text lx6 = str ''null'' then TOKEN_NULL
               else TOKEN_INVALID)\<rparr>)))) ?Q"
      using B(3) L by (intro yields_mono [OF token_word_ok [OF B(1,2)]]) (auto elim: tokened_mono)
    have "st_state (lx_stream lx4) = 0" using B(4) c by (auto simp: behind_def)
    then have other: "yields (lex_save_cached lx4 \<bind> (\<lambda>lx5. Some (lx5\<lparr>token := TOKEN_INVALID\<rparr>))) ?Q"
      using B st by (intro yields_bind [OF lex_save_cached_ok]) (auto simp: tokened_def token_defs)
    show ?thesis unfolding lx4_def [symmetric] Let_def using c single string num alpha other
      by (auto simp: STREAM_STATE_EOF_def STREAM_STATE_ERROR_def)
  qed
  note Q = this
  show ?thesis unfolding lex_scan_def Let_def [of "lx0\<lparr>saved_text := []\<rparr>"] lx2_def [unfolded Let_def, symmetric]
    by (subst Let_def, rule yields_bind [OF skip_space_ok [OF L(1)]], clarify, erule Q)
qed

section \<open>The parser\<close>

text \<open>The parser is entered with the token's value at hand, at most as deep as the check allows.\<close>

definition ready :: "'r lex_t \<Rightarrow> bool" where
  "ready lx \<longleftrightarrow> lok lx \<and> (token lx = TOKEN_STRING \<longrightarrow> string_val lx \<noteq> None) \<and> (token lx = TOKEN_REAL \<longrightarrow> real_val lx \<noteq> None)"

definition parsed :: "'r lex_t \<Rightarrow> 'r json option \<times> 'r lex_t \<Rightarrow> bool" where
  "parsed lx = (\<lambda>(v, lx'). lok lx' \<and> rem lx' \<le> rem lx \<and> (v \<noteq> None \<longrightarrow> depth lx' = depth lx))"

definition parses :: "nat \<Rightarrow> 'r parsef \<Rightarrow> bool" where
  "parses d p \<longleftrightarrow> (\<forall>lx. ready lx \<longrightarrow> depth lx = d \<longrightarrow> yields (p lx) (parsed lx))"

lemma tokened_ready: "tokened k lx lx' \<Longrightarrow> ready lx'"
  by (auto simp: tokened_def ready_def)

lemma parsed_error [simp]: "parsed lx (None, error_set lx' e m) = parsed lx (None, lx')"
  by (simp add: parsed_def)

lemma tokened_parsed: "tokened k lx0 lx' \<Longrightarrow> k \<le> rem lx \<Longrightarrow> parsed lx (None, lx')"
  by (simp add: tokened_def parsed_def)

lemma scan_bind:
  assumes "strtod_ok strtod" "lok lx" "\<And>lx'. tokened (rem lx) lx lx' \<Longrightarrow> yields (g lx') Q"
  shows "yields (lex_scan strtod lx \<bind> g) Q"
  by (rule yields_bind [OF lex_scan_ok]) (use assms in auto)

lemma parses_bind:
  assumes "parses d p" "ready lx" "depth lx = d" "\<And>v lx'. parsed lx (v, lx') \<Longrightarrow> yields (g (v, lx')) Q"
  shows "yields (p lx \<bind> g) Q"
  by (rule yields_bind [where P = "parsed lx"]) (use assms in \<open>auto simp: parses_def\<close>)

lemma parse_elements_ok:
  assumes p: "parses d value" and sd: "strtod_ok strtod"
  shows "ready lx \<Longrightarrow> depth lx = d \<Longrightarrow> yields (parse_elements strtod value lx array) (parsed lx)"
proof (induction "rem lx" arbitrary: lx array rule: less_induct)
  case less
  have fin: "yields (if token lx1 \<noteq> 93 then Some (None, error_set lx1 e m) else Some (Some (JArray a), lx1)) (parsed lx)"
    if "lok lx1" "rem lx1 \<le> rem lx" "depth lx1 = depth lx" for lx1 e m a
    using that by (simp add: parsed_def)
  have rest: "yields (lex_scan strtod lx1 \<bind> (\<lambda>lx2.
        if token lx2 \<noteq> 44
        then if token lx2 \<noteq> 93 then Some (None, error_set lx2 e m) else Some (Some (JArray (array @ [x])), lx2)
        else lex_scan strtod lx2 \<bind> (\<lambda>lx3. parse_elements strtod value lx3 (array @ [x])))) (parsed lx)"
    if v: "parsed lx (Some x, lx1)" for x lx1 e m
  proof (rule scan_bind [OF sd])
    show "lok lx1" using v by (simp add: parsed_def)
    fix lx2 assume t2: "tokened (rem lx1) lx1 lx2"
    have "yields (lex_scan strtod lx2 \<bind> (\<lambda>lx3. parse_elements strtod value lx3 (array @ [x]))) (parsed lx)" if "token lx2 = 44"
    proof (rule scan_bind [OF sd])
      show "lok lx2" using t2 by (simp add: tokened_def)
      fix lx3 assume t3: "tokened (rem lx2) lx2 lx3"
      have "rem lx3 < rem lx" "depth lx3 = depth lx" using t2 t3 v that by (auto simp: tokened_def parsed_def)
      with less.hyps [of lx3 "array @ [x]"] tokened_ready [OF t3] less.prems(2)
      show "yields (parse_elements strtod value lx3 (array @ [x])) (parsed lx)"
        by (auto elim!: yields_mono simp: parsed_def)
    qed
    with fin [of lx2] t2 v
    show "yields (if token lx2 \<noteq> 44
        then if token lx2 \<noteq> 93 then Some (None, error_set lx2 e m) else Some (Some (JArray (array @ [x])), lx2)
        else lex_scan strtod lx2 \<bind> (\<lambda>lx3. parse_elements strtod value lx3 (array @ [x]))) (parsed lx)"
      by (auto simp: tokened_def parsed_def)
  qed
  show ?case
  proof (cases "token lx = 0")
    case True
    then show ?thesis using less.prems by (subst parse_elements.simps) (simp add: parsed_def ready_def)
  next
    case False
    then show ?thesis
      by (subst parse_elements.simps, simp add: Let_def)
        (rule parses_bind [OF p less.prems], auto intro: rest [simplified] split: option.split)
  qed
qed

lemma parse_members_ok:
  assumes p: "parses d value" and sd: "strtod_ok strtod"
  shows "ready lx \<Longrightarrow> depth lx = d \<Longrightarrow> yields (parse_members strtod flags value lx object) (parsed lx)"
proof (induction "rem lx" arbitrary: lx object rule: less_induct)
  case less
  have after: "yields (lex_scan strtod lx4 \<bind> (\<lambda>lx5.
        if token lx5 = 44 then lex_scan strtod lx5 \<bind> (\<lambda>lx6. parse_members strtod flags value lx6 ob)
        else if token lx5 \<noteq> 125 then Some (None, error_set lx5 e m)
        else Some (Some (JObject ob), lx5))) (parsed lx)"
    if v: "parsed lx (Some x, lx4)" for x lx4 ob e m
  proof (rule scan_bind [OF sd])
    show "lok lx4" using v by (simp add: parsed_def)
    fix lx5 assume t5: "tokened (rem lx4) lx4 lx5"
    have "yields (lex_scan strtod lx5 \<bind> (\<lambda>lx6. parse_members strtod flags value lx6 ob)) (parsed lx)" if "token lx5 = 44"
    proof (rule scan_bind [OF sd])
      show "lok lx5" using t5 by (simp add: tokened_def)
      fix lx6 assume t6: "tokened (rem lx5) lx5 lx6"
      have "rem lx6 < rem lx" "depth lx6 = depth lx" using t5 t6 v that by (auto simp: tokened_def parsed_def)
      with less.hyps [of lx6 ob] tokened_ready [OF t6] less.prems(2)
      show "yields (parse_members strtod flags value lx6 ob) (parsed lx)"
        by (auto elim!: yields_mono simp: parsed_def)
    qed
    with t5 v show "yields (if token lx5 = 44 then lex_scan strtod lx5 \<bind> (\<lambda>lx6. parse_members strtod flags value lx6 ob)
        else if token lx5 \<noteq> 125 then Some (None, error_set lx5 e m)
        else Some (Some (JObject ob), lx5)) (parsed lx)"
      by (auto simp: tokened_def parsed_def)
  qed
  have colon: "yields (lex_scan strtod lx2 \<bind> (\<lambda>lx3. value lx3 \<bind> (\<lambda>(v, lx4). case v of None \<Rightarrow> Some (None, lx4)
      | Some x \<Rightarrow> lex_scan strtod lx4 \<bind> (\<lambda>lx5.
        if token lx5 = 44 then lex_scan strtod lx5 \<bind> (\<lambda>lx6. parse_members strtod flags value lx6 (set_member key x object))
        else if token lx5 \<noteq> 125 then Some (None, error_set lx5 e m)
        else Some (Some (JObject (set_member key x object)), lx5))))) (parsed lx)"
    if t2: "tokened (rem lx) lx lx2" for lx2 key e m
  proof (rule scan_bind [OF sd])
    show "lok lx2" using t2 by (simp add: tokened_def)
    fix lx3 assume t3: "tokened (rem lx2) lx2 lx3"
    have d: "depth lx3 = d" "rem lx3 \<le> rem lx" using t2 t3 less.prems by (auto simp: tokened_def)
    show "yields (value lx3 \<bind> (\<lambda>(v, lx4). case v of None \<Rightarrow> Some (None, lx4)
      | Some x \<Rightarrow> lex_scan strtod lx4 \<bind> (\<lambda>lx5.
        if token lx5 = 44 then lex_scan strtod lx5 \<bind> (\<lambda>lx6. parse_members strtod flags value lx6 (set_member key x object))
        else if token lx5 \<noteq> 125 then Some (None, error_set lx5 e m)
        else Some (Some (JObject (set_member key x object)), lx5)))) (parsed lx)"
    proof (rule parses_bind [OF p tokened_ready [OF t3] d(1)])
      fix v lx4 assume "parsed lx3 (v, lx4)"
      then have "parsed lx (v, lx4)" using d less.prems by (simp add: parsed_def)
      then show "yields (case (v, lx4) of (v, lx4) \<Rightarrow> (case v of None \<Rightarrow> Some (None, lx4)
      | Some x \<Rightarrow> lex_scan strtod lx4 \<bind> (\<lambda>lx5.
        if token lx5 = 44 then lex_scan strtod lx5 \<bind> (\<lambda>lx6. parse_members strtod flags value lx6 (set_member key x object))
        else if token lx5 \<noteq> 125 then Some (None, error_set lx5 e m)
        else Some (Some (JObject (set_member key x object)), lx5)))) (parsed lx)"
        using after by (cases v) simp_all
    qed
  qed
  have l: "lok lx" using less.prems by (simp add: ready_def)
  show ?case
  proof (cases "token lx = TOKEN_STRING")
    case False
    then show ?thesis using l by (subst parse_members.simps) (simp add: parsed_def)
  next
    case True
    define lx1 where "lx1 = lx\<lparr>string_val := None\<rparr>"
    obtain key where key: "lex_steal_string lx = (Some key, lx1)"
      using True less.prems by (auto simp: ready_def lex_steal_string_def lx1_def)
    have l1: "lok lx1" "rem lx1 = rem lx" "depth lx1 = depth lx" using l by (simp_all add: lx1_def)
    have t: "tokened (rem lx) lx lx2" if "tokened (rem lx1) lx1 lx2" for lx2
      using that by (simp add: tokened_def lx1_def)
    have "yields (lex_scan strtod lx1 \<bind> (\<lambda>lx2. if token lx2 \<noteq> 58 then Some (None, error_set lx2 e m)
      else lex_scan strtod lx2 \<bind> (\<lambda>lx3. value lx3 \<bind> (\<lambda>(v, lx4). case v of None \<Rightarrow> Some (None, lx4)
      | Some x \<Rightarrow> lex_scan strtod lx4 \<bind> (\<lambda>lx5.
        if token lx5 = 44 then lex_scan strtod lx5 \<bind> (\<lambda>lx6. parse_members strtod flags value lx6 (set_member key x object))
        else if token lx5 \<noteq> 125 then Some (None, error_set lx5 e' m')
        else Some (Some (JObject (set_member key x object)), lx5)))))) (parsed lx)" for e m e' m'
      by (rule scan_bind [OF sd l1(1)]) (use t colon in \<open>auto intro: tokened_parsed\<close>)
    then show ?thesis using True l1 by (subst parse_members.simps) (simp add: key parsed_def)
  qed
qed

lemma parse_object_ok:
  assumes "parses d value" "strtod_ok strtod" "lok lx" "depth lx = d"
  shows "yields (parse_object strtod flags value lx) (parsed lx)"
  unfolding parse_object_def
proof (rule scan_bind [OF assms(2,3)])
  fix lx1 assume t: "tokened (rem lx) lx lx1"
  then have "depth lx1 = d" "parsed lx (Some (JObject []), lx1)" "rem lx1 \<le> rem lx"
    using assms(4) by (auto simp: tokened_def parsed_def)
  with parse_members_ok [OF assms(1,2) tokened_ready [OF t], of flags "[]"] assms(4)
  show "yields (if token lx1 = 125 then Some (Some (JObject []), lx1) else parse_members strtod flags value lx1 []) (parsed lx)"
    by (auto elim!: yields_mono simp: parsed_def)
qed

lemma parse_array_ok:
  assumes "parses d value" "strtod_ok strtod" "lok lx" "depth lx = d"
  shows "yields (parse_array strtod value lx) (parsed lx)"
  unfolding parse_array_def
proof (rule scan_bind [OF assms(2,3)])
  fix lx1 assume t: "tokened (rem lx) lx lx1"
  then have "depth lx1 = d" "parsed lx (Some (JArray []), lx1)" "rem lx1 \<le> rem lx"
    using assms(4) by (auto simp: tokened_def parsed_def)
  with parse_elements_ok [OF assms(1,2) tokened_ready [OF t], of "[]"] assms(4)
  show "yields (if token lx1 = 93 then Some (Some (JArray []), lx1) else parse_elements strtod value lx1 []) (parsed lx)"
    by (auto elim!: yields_mono simp: parsed_def)
qed

lemma parse_value_ok:
  assumes sd: "strtod_ok strtod"
  shows "Suc JSON_PARSER_MAX_DEPTH \<le> n + d \<Longrightarrow> d \<le> JSON_PARSER_MAX_DEPTH \<Longrightarrow> parses d (parse_value n strtod flags)"
proof (induction n arbitrary: d)
  case (Suc n)
  show ?case unfolding parses_def
  proof (intro allI impI)
    fix lx0 :: "'a lex_t" assume r: "ready lx0" "depth lx0 = d"
    define lx where "lx = lx0\<lparr>depth := depth lx0 + 1\<rparr>"
    have L: "ready lx" "lok lx" "depth lx = Suc d" "rem lx = rem lx0" using r by (auto simp: lx_def ready_def)
    have leave: "yields (map_option (\<lambda>(v, lx'). (v, if v = None then lx' else lx'\<lparr>depth := depth lx' - 1\<rparr>)) f) (parsed lx0)"
      if "yields f (parsed lx)" for f
      using that L r by (auto elim!: yields_mono simp: parsed_def)
    have strs: "token lx = TOKEN_STRING \<Longrightarrow> \<exists>s. string_val lx = Some s" "token lx = TOKEN_REAL \<Longrightarrow> \<exists>x. real_val lx = Some x"
      using L(1) by (auto simp: ready_def)
    show "yields (parse_value (Suc n) strtod flags lx0) (parsed lx0)"
    proof (cases "depth lx > JSON_PARSER_MAX_DEPTH")
      case True
      then show ?thesis using L by (simp add: lx_def parsed_def)
    next
      case False
      then have "parses (Suc d) (parse_value n strtod flags)" using Suc L by simp
      note sub = leave [OF parse_object_ok [OF this sd L(2,3)], of flags] leave [OF parse_array_ok [OF this sd L(2,3)]]
      have [simp]: "parsed lx0 (None, lx)" "parsed lx0 (Some v, lx\<lparr>depth := d\<rparr>)" "parsed lx0 (Some v, lx\<lparr>string_val := s, depth := d\<rparr>)"
        for v s using L r by (simp_all add: parsed_def)
      have [simp]: "yields (case string_val lx of None \<Rightarrow> None | Some value \<Rightarrow> f value) P" if "token lx = TOKEN_STRING" "\<And>s. yields (f s) P"
        for f and P :: "'a json option \<times> 'a lex_t \<Rightarrow> bool" using that strs by auto
      have [simp]: "yields (map_option f (real_val lx)) P" if "token lx = TOKEN_REAL" "\<And>s. P (f s)"
        for f and P :: "'a json option \<times> 'a lex_t \<Rightarrow> bool" using that strs by auto
      show ?thesis unfolding parse_value.simps(2) Let_def lx_def [symmetric] using sub False L(3)
        by (simp split: if_split del: yields_map)
    qed
  qed
qed simp

lemma parse_json_ok:
  assumes "strtod_ok strtod" "lok lx"
  shows "yields (parse_json strtod flags lx) (\<lambda>_. True)"
  unfolding parse_json_def
proof (rule scan_bind [OF assms(1)])
  show "lok (lx\<lparr>depth := 0\<rparr>)" using assms by simp
  fix lx1 assume t: "tokened (rem (lx\<lparr>depth := 0\<rparr>)) (lx\<lparr>depth := 0\<rparr>) lx1"
  have p: "parses 0 (parse_value (JSON_PARSER_MAX_DEPTH + 1) strtod flags)"
    by (rule parse_value_ok [OF assms(1)]) simp_all
  have "yields (parse_value (JSON_PARSER_MAX_DEPTH + 1) strtod flags lx1 \<bind> (\<lambda>(result, lx2).
       case result of None \<Rightarrow> Some (None, lx2)
        | Some v \<Rightarrow> (if flags AND JSON_DISABLE_EOF_CHECK = 0 then lex_scan strtod lx2 else Some lx2) \<bind> (\<lambda>lx3.
            if flags AND JSON_DISABLE_EOF_CHECK = 0 \<and> token lx3 \<noteq> TOKEN_EOF
            then Some (None, error_set lx3 json_error_end_of_input_expected (str ''end of file expected''))
            else Some (Some v, lx3\<lparr>lx_error :=
                   map_option (\<lambda>e. e\<lparr>err_position := st_position (lx_stream lx3)\<rparr>) (lx_error lx3)\<rparr>)))) (\<lambda>_. True)"
    by (rule parses_bind [OF p tokened_ready [OF t]])
      (use t in \<open>auto simp: tokened_def parsed_def split: option.split intro!: yields_bind [OF lex_scan_ok [OF _ assms(1)]]\<close>)
  then show "yields (if flags AND JSON_DECODE_ANY = 0 \<and> token lx1 \<noteq> 91 \<and> token lx1 \<noteq> 123
     then Some (None, error_set lx1 json_error_invalid_syntax
            ([39] @ str ''['' @ [39] @ str '' or '' @ [39] @ str ''{'' @ [39] @ str '' expected''))
     else parse_value (JSON_PARSER_MAX_DEPTH + 1) strtod flags lx1 \<bind> (\<lambda>(result, lx2).
       case result of None \<Rightarrow> Some (None, lx2)
        | Some v \<Rightarrow> (if flags AND JSON_DISABLE_EOF_CHECK = 0 then lex_scan strtod lx2 else Some lx2) \<bind> (\<lambda>lx3.
            if flags AND JSON_DISABLE_EOF_CHECK = 0 \<and> token lx3 \<noteq> TOKEN_EOF
            then Some (None, error_set lx3 json_error_end_of_input_expected (str ''end of file expected''))
            else Some (Some v, lx3\<lparr>lx_error :=
                   map_option (\<lambda>e. e\<lparr>err_position := st_position (lx_stream lx3)\<rparr>) (lx_error lx3)\<rparr>)))) (\<lambda>_. True)"
    by simp
qed

lemma load_stream_ok:
  assumes "bytes data" "strtod_ok strtod"
  shows "yields (load_stream strtod data flags error) (\<lambda>_. True)"
proof -
  have "lok (lex_init data flags error :: 'a lex_t)"
    using assms(1) by (auto simp: lex_init_def stream_init_def lok_def stream_ok_def bytes_def STREAM_STATE_OK_def intro: exI [of _ 0])
  from parse_json_ok [OF assms(2) this] show ?thesis by (simp add: load_stream_def)
qed

section \<open>Properties\<close>

text \<open>Witnesses read a real as its text.\<close>

definition text_strtod :: "int list strtodf" where
  "text_strtod t = (length t, t, False)"

lemma text_strtod_ok: "strtod_ok text_strtod"
  by (simp add: strtod_ok_def text_strtod_def)

lemma bytes_sub: "bytes s \<Longrightarrow> set t \<subseteq> set s \<Longrightarrow> bytes t"
  by (auto simp: bytes_def)



text \<open>
  A NUL byte read as lookahead is lost: after a number the lexer pushes the byte back, but
  \<^verbatim>\<open>stream_get\<close> takes a zero at the buffer position for an empty buffer. \<^verbatim>\<open>json_loadb\<close> therefore accepts
  the four bytes \<^verbatim>\<open>[1\0]\<close>, which are not JSON, while it rejects a NUL anywhere else.\<close>

theorem json_loadb_swallows_nul:
  "json_loadb text_strtod (Some [91, 49, 0, 93]) 4 0 None = Some (Some (JArray [JInteger 1]), None) \<and>
   json_loadb text_strtod (Some [91, 0, 49, 93]) 4 0 None = Some (None, None)"
  by (intro conjI) code_simp+

text \<open>The contents of the error object stay within its arrays.\<close>

definition error_fits :: "json_error_t \<Rightarrow> bool" where
  "error_fits e \<longleftrightarrow> length (err_text e) + 2 \<le> JSON_ERROR_TEXT_LENGTH \<and> length (err_source e) < JSON_ERROR_SOURCE_LENGTH"

text \<open>
  The error object is never overrun and keeps the first error: after \<^verbatim>\<open>jsonp_error_init\<close> and any report
  through \<^verbatim>\<open>error_set\<close>, text and source with their terminators fit the 160 and 80 byte arrays, however long the
  message, the saved text and the source are; a source that is too long ends in its own last 76 bytes after
  three dots; and once a text is set no later report changes anything.\<close>

theorem json_error_bounded:
  fixes lx :: "'r lex_t"
  assumes "lx_error lx = jsonp_error_init (Some e) source"
  shows "(\<forall>e1. lx_error lx = Some e1 \<longrightarrow> error_fits e1 \<and> err_text e1 = []) \<and>
    (\<exists>e2. lx_error (error_set lx code msg) = Some e2 \<and> error_fits e2 \<and>
      (length source \<ge> 80 \<longrightarrow> (\<exists>pre. source = pre @ drop 3 (err_source e2) \<and> length (err_source e2) = 79)) \<and>
      (msg \<noteq> [] \<longrightarrow> err_text e2 \<noteq> [] \<and> lx_error (error_set (error_set lx code msg) code' msg') = Some e2))"
proof -
  have set: "\<exists>m c. lx_error (error_set l code msg) = jsonp_error_set (lx_error l) (st_line (lx_stream l))
      (st_column (lx_stream l)) (st_position (lx_stream l)) c m \<and> (msg \<noteq> [] \<longrightarrow> m \<noteq> [])" for l :: "'r lex_t" and code msg
    by (auto simp: error_set_def Let_def JSON_ERROR_TEXT_LENGTH_def split: prod.splits if_splits)
  obtain m c where s1: "lx_error (error_set lx code msg) = jsonp_error_set (lx_error lx) (st_line (lx_stream lx))
      (st_column (lx_stream lx)) (st_position (lx_stream lx)) c m" "msg \<noteq> [] \<longrightarrow> m \<noteq> []" using set by blast
  obtain m' c' where s2: "lx_error (error_set (error_set lx code msg) code' msg') =
      jsonp_error_set (lx_error (error_set lx code msg)) (st_line (lx_stream lx)) (st_column (lx_stream lx)) (st_position (lx_stream lx)) c' m'"
    using set [of "error_set lx code msg"] by (metis error_set_simps(1))
  have "\<exists>pre. source = pre @ drop 3 (str ''...'' @ drop (length source - 76) source)" if "80 \<le> length source"
    using append_take_drop_id [of "length source - 76" source] by (auto simp: str_def intro: exI [of _ "take (length source - 76) source"])
  then show ?thesis using assms s1 s2
    by (auto simp: jsonp_error_init_def jsonp_error_set_source_def jsonp_error_set_def error_fits_def JSON_ERROR_TEXT_LENGTH_def
      JSON_ERROR_SOURCE_LENGTH_def str_def)
qed

theorem json_error_bounded_witness:
  "err_text (the (lx_error (error_set (lex_init [] 0 (jsonp_error_init (Some \<lparr>err_line = 0, err_column = 0, err_position = 0,
     err_source = [], err_text = [], err_code = json_error_unknown\<rparr>) (str ''<string>'')) :: int list lex_t)
     json_error_invalid_syntax (str ''invalid token'')))) \<noteq> []"
proof -
  have "(lex_init [] 0 (jsonp_error_init (Some \<lparr>err_line = 0, err_column = 0, err_position = 0, err_source = [], err_text = [],
     err_code = json_error_unknown\<rparr>) (str ''<string>'')) :: int list lex_t)\<lparr>lx_error := E\<rparr> =
     lex_init [] 0 E" for E by (simp add: lex_init_def)
  moreover have "lx_error (lex_init [] 0 E :: int list lex_t) = E" for E by (simp add: lex_init_def)
  moreover have "str ''invalid token'' \<noteq> []" by (simp add: str_def)
  ultimately show ?thesis using json_error_bounded [where code = json_error_invalid_syntax and msg = "str ''invalid token''"]
    by (metis option.sel)
qed

lemma unicode_loop_len: "unicode_loop p k x = Some v \<Longrightarrow> 0 \<le> v \<Longrightarrow> k \<le> length p"
  by (induction p k x rule: unicode_loop.induct) (auto simp: Let_def split: if_splits)

lemma decode_unicode_len: "decode_unicode_escape p = Some v \<Longrightarrow> 0 \<le> v \<Longrightarrow> 5 \<le> length p"
  by (auto simp: decode_unicode_escape_def assert_c_def dest!: unicode_loop_len split: list.splits if_splits)

lemma utf8_encode_len: "utf8_encode v = Some bs \<Longrightarrow> length bs \<le> 4"
  by (auto simp: utf8_encode_def split: if_splits)

lemma decode_u_len:
  assumes "decode_u p = Some (Inr (bs, rest))"
  shows "length bs + length rest \<le> length p"
proof -
  obtain v where v: "decode_unicode_escape (drop 1 p) = Some v" using assms by (auto simp: decode_u_def split: bind_splits)
  with assms have "0 \<le> v" by (auto simp: decode_u_def split: if_splits)
  with decode_unicode_len [OF v] have "6 \<le> length p" by simp
  with assms v show ?thesis
    by (auto simp: decode_u_def Let_def split: if_splits option.splits bind_splits dest: utf8_encode_len)
qed

lemma decode_string_len: "decode_string p t = Some (Inr t') \<Longrightarrow> length t' < length t + length p"
proof (induction "length p" arbitrary: p t rule: less_induct)
  case less
  have IH: "length t' < length u + length q" if "decode_string q u = Some (Inr t')" "length q < length p" for q u
    using less.hyps that by blast
  have U: "length rest < length p \<and> length bs + length rest \<le> length p" if "decode_u p = Some (Inr (bs, rest))" "p \<noteq> []" for bs rest
    using that decode_u_shorter decode_u_len by blast
  show ?case using less.prems IH U
    by (subst (asm) decode_string.simps)
      (fastforce split: list.splits if_splits option.splits sum.splits prod.splits)
qed

text \<open>
  The second pass over a string token stays inside its block: the decoded text and its terminator fit in the
  \<^verbatim>\<open>saved_text.length + 1\<close> bytes that \<^verbatim>\<open>lex_scan_string\<close> allocates, and in general the bytes written so far never
  outgrow the bytes read, whatever escapes the text has.\<close>

theorem decode_string_bounded:
  assumes "decode_string p t = Some (Inr t')"
  shows "length t' < length t + length p \<and>
    (\<forall>saved_text. p = drop 1 (saved_text @ [0]) \<and> t = [] \<longrightarrow> length t' + 1 \<le> length saved_text + 1)"
  using decode_string_len [OF assms] by auto

theorem decode_string_bounded_witness:
  "decode_string (drop 1 ([34, 92, 117, 50, 48, 65, 67, 34] @ [0])) [] = Some (Inr [0xE2, 0x82, 0xAC]) \<and>
   length [0xE2, 0x82, 0xAC :: int] + 1 \<le> length [34, 92, 117, 50, 48, 65, 67, 34 :: int] + 1"
proof -
  have "decode_string (drop 1 ([34, 92, 117, 50, 48, 65, 67, 34] @ [0])) [] = Some (Inr [0xE2, 0x82, 0xAC])" by code_simp
  with decode_string_bounded [OF this] show ?thesis by blast
qed

end
