(* ===== verification/HashTable.thy ===== *)
theory HashTable
  imports ListNode JsonLoad "HOL-Library.Multiset"
begin

text \<open>
  The hash table of \<^verbatim>\<open>jansson-2.14/src/hashtable.c\<close>: all pairs hang in one circular list in which every bucket is
  a contiguous run, and in a second circular list in order of insertion. Both lists are lists of
  theory \<open>ListNode\<close> in one node store.

  An address 0 is \<^verbatim>\<open>NULL\<close>. A pair at address \<open>a\<close> has its two list nodes at \<open>a\<close> and \<open>a + 16\<close>. The results of
  \<^verbatim>\<open>jsonp_malloc\<close> are arguments: whether the new bucket array was obtained, and the address of the new
  pair or None. The hash function \<^verbatim>\<open>hashlittle\<close> is the argument \<open>hash_str\<close>, and may be any function. \<^verbatim>\<open>json_decref\<close> on a
  value that leaves the table is not run: the operation returns these values, in order. A null, dangling or
  out-of-range access is \<^term>\<open>None\<close>.
\<close>

section \<open>Data\<close>

record 'v pair_t =
  pr_hash :: nat
  pr_value :: 'v
  pr_key :: "int list"

record 'v hashtable_t =
  ht_size :: nat
  ht_buckets :: "(nat \<times> nat) list"
  ht_order :: nat
  ht_nodes :: node_store
  ht_pairs :: "nat \<rightharpoonup> 'v pair_t"

definition LIST :: nat where "LIST = 1"
definition ORDERED :: nat where "ORDERED = 2"
definition ordered_off :: nat where "ordered_off = 16"

definition INITIAL_HASHTABLE_ORDER :: nat where "INITIAL_HASHTABLE_ORDER = 3"

definition hashsize :: "nat \<Rightarrow> nat" where "hashsize n = 2 ^ n"
definition hashmask :: "nat \<Rightarrow> nat" where "hashmask n = hashsize n - 1"

definition list_to_pair :: "nat \<Rightarrow> nat" where "list_to_pair l = l"
definition ordered_list_to_pair :: "nat \<Rightarrow> nat" where "ordered_list_to_pair l = l - ordered_off"

section \<open>List helpers\<close>

definition list_init :: "node_store \<Rightarrow> nat \<Rightarrow> node_store option" where
  "list_init s l = do { s1 \<leftarrow> wr_next s l l; wr_prev s1 l l }"

definition list_insert :: "node_store \<Rightarrow> nat \<Rightarrow> nat \<Rightarrow> node_store option" where
  "list_insert s l node = do {
     s1 \<leftarrow> wr_next s node l;
     p \<leftarrow> rd_prev s1 l;
     s2 \<leftarrow> wr_prev s1 node p;
     p' \<leftarrow> rd_prev s2 l;
     s3 \<leftarrow> wr_next s2 p' node;
     wr_prev s3 l node }"

definition list_remove :: "node_store \<Rightarrow> nat \<Rightarrow> node_store option" where
  "list_remove s l = do {
     p \<leftarrow> rd_prev s l;
     n \<leftarrow> rd_next s l;
     s1 \<leftarrow> wr_next s p n;
     n' \<leftarrow> rd_next s1 l;
     p' \<leftarrow> rd_prev s1 l;
     wr_prev s1 n' p' }"

section \<open>Buckets\<close>

definition bucket_at :: "'v hashtable_t \<Rightarrow> nat \<Rightarrow> (nat \<times> nat) option" where
  "bucket_at ht i = (if i < length (ht_buckets ht) then Some (ht_buckets ht ! i) else None)"

definition bucket_is_empty :: "nat \<times> nat \<Rightarrow> bool" where
  "bucket_is_empty b \<longleftrightarrow> fst b = LIST \<and> fst b = snd b"

definition insert_to_bucket :: "'v hashtable_t \<Rightarrow> nat \<Rightarrow> nat \<Rightarrow> 'v hashtable_t option" where
  "insert_to_bucket ht i l = do {
     b \<leftarrow> bucket_at ht i;
     if bucket_is_empty b
     then do {
       s \<leftarrow> list_insert (ht_nodes ht) LIST l;
       Some (ht\<lparr>ht_nodes := s, ht_buckets := (ht_buckets ht)[i := (l, l)]\<rparr>) }
     else do {
       s \<leftarrow> list_insert (ht_nodes ht) (fst b) l;
       Some (ht\<lparr>ht_nodes := s, ht_buckets := (ht_buckets ht)[i := (l, snd b)]\<rparr>) } }"

partial_function (option) find_loop ::
  "'v hashtable_t \<Rightarrow> nat \<times> nat \<Rightarrow> int list \<Rightarrow> nat \<Rightarrow> nat \<Rightarrow> nat option option" where
  "find_loop ht b key hash l = do {
     p \<leftarrow> ht_pairs ht (list_to_pair l);
     if pr_hash p = hash \<and> length (pr_key p) = length key \<and> pr_key p = key then Some (Some (list_to_pair l))
     else if l = snd b then Some None
     else do { n \<leftarrow> rd_next (ht_nodes ht) l; find_loop ht b key hash n } }"

definition hashtable_find_pair :: "'v hashtable_t \<Rightarrow> nat \<Rightarrow> int list \<Rightarrow> nat \<Rightarrow> nat option option" where
  "hashtable_find_pair ht i key hash = do {
     b \<leftarrow> bucket_at ht i;
     if bucket_is_empty b then Some None else find_loop ht b key hash (fst b) }"

text \<open>\<^verbatim>\<open>jsonp_free(pair)\<close>: pair and list nodes are gone.\<close>

definition free_pair :: "'v hashtable_t \<Rightarrow> nat \<Rightarrow> 'v hashtable_t" where
  "free_pair ht a = ht\<lparr>ht_pairs := (ht_pairs ht)(a := None),
     ht_nodes := (ht_nodes ht)(a := None, a + ordered_off := None)\<rparr>"

definition hashtable_do_del :: "'v hashtable_t \<Rightarrow> int list \<Rightarrow> nat \<Rightarrow> (int \<times> 'v list \<times> 'v hashtable_t) option" where
  "hashtable_do_del ht key hash =
     (let index = hash AND hashmask (ht_order ht)
      in do {
        b \<leftarrow> bucket_at ht index;
        r \<leftarrow> hashtable_find_pair ht index key hash;
        (case r of
           None \<Rightarrow> Some (-1, [], ht)
         | Some a \<Rightarrow> do {
             p \<leftarrow> ht_pairs ht a;
             b' \<leftarrow> (if a = fst b \<and> a = snd b then Some (LIST, LIST)
                    else if a = fst b then do { n \<leftarrow> rd_next (ht_nodes ht) a; Some (n, snd b) }
                    else if a = snd b then do { q \<leftarrow> rd_prev (ht_nodes ht) a; Some (fst b, q) }
                    else Some b);
             s1 \<leftarrow> list_remove (ht_nodes ht) a;
             s2 \<leftarrow> list_remove s1 (a + ordered_off);
             let ht1 = free_pair (ht\<lparr>ht_buckets := (ht_buckets ht)[index := b'], ht_nodes := s2\<rparr>) a;
             Some (0, [pr_value p], ht1\<lparr>ht_size := ht_size ht1 - 1\<rparr>) }) })"

partial_function (option) clear_loop ::
  "nat \<Rightarrow> 'v hashtable_t \<Rightarrow> 'v list \<Rightarrow> ('v list \<times> 'v hashtable_t) option" where
  "clear_loop l ht acc =
     (if l = LIST then Some (acc, ht)
      else do {
        n \<leftarrow> rd_next (ht_nodes ht) l;
        p \<leftarrow> ht_pairs ht (list_to_pair l);
        clear_loop n (free_pair ht (list_to_pair l)) (acc @ [pr_value p]) })"

definition hashtable_do_clear :: "'v hashtable_t \<Rightarrow> ('v list \<times> 'v hashtable_t) option" where
  "hashtable_do_clear ht = do { n \<leftarrow> rd_next (ht_nodes ht) LIST; clear_loop n ht [] }"

text \<open>The loop that moves every pair into the new buckets.\<close>

partial_function (option) rehash_loop :: "nat \<Rightarrow> 'v hashtable_t \<Rightarrow> 'v hashtable_t option" where
  "rehash_loop l ht =
     (if l = LIST then Some ht
      else do {
        n \<leftarrow> rd_next (ht_nodes ht) l;
        p \<leftarrow> ht_pairs ht (list_to_pair l);
        ht1 \<leftarrow> insert_to_bucket ht (pr_hash p mod hashsize (ht_order ht)) l;
        rehash_loop n ht1 })"

definition hashtable_do_rehash :: "bool \<Rightarrow> 'v hashtable_t \<Rightarrow> (int \<times> 'v hashtable_t) option" where
  "hashtable_do_rehash got_buckets ht =
     (let new_order = ht_order ht + 1
      in if \<not> got_buckets then Some (-1, ht)
         else do {
           let ht1 = ht\<lparr>ht_order := new_order, ht_buckets := replicate (hashsize new_order) (LIST, LIST)\<rparr>;
           l \<leftarrow> rd_next (ht_nodes ht1) LIST;
           s \<leftarrow> list_init (ht_nodes ht1) LIST;
           ht2 \<leftarrow> rehash_loop l (ht1\<lparr>ht_nodes := s\<rparr>);
           Some (0, ht2) })"

section \<open>Operations\<close>

text \<open>The struct itself, with its two list heads, exists before the call; None inside is the result -1.\<close>

definition hashtable_init :: "bool \<Rightarrow> 'v hashtable_t option option" where
  "hashtable_init got_buckets =
     (if \<not> got_buckets then Some None
      else do {
        let n = \<lparr>n_prev = 0, n_next = 0\<rparr>;
        s1 \<leftarrow> list_init [LIST \<mapsto> n, ORDERED \<mapsto> n] LIST;
        s2 \<leftarrow> list_init s1 ORDERED;
        Some (Some \<lparr>ht_size = 0, ht_buckets = replicate (hashsize INITIAL_HASHTABLE_ORDER) (LIST, LIST),
          ht_order = INITIAL_HASHTABLE_ORDER, ht_nodes = s2, ht_pairs = Map.empty\<rparr>) })"

definition hashtable_close :: "'v hashtable_t \<Rightarrow> 'v list option" where
  "hashtable_close ht = map_option fst (hashtable_do_clear ht)"

text \<open>The overflow guard compares with \<^verbatim>\<open>SIZE_MAX - offsetof(pair_t, key)\<close>, 64 bit.\<close>

definition init_pair :: "'v hashtable_t \<Rightarrow> nat option \<Rightarrow> 'v \<Rightarrow> int list \<Rightarrow> nat \<Rightarrow> (nat \<times> 'v hashtable_t) option option" where
  "init_pair ht addr value key hash =
     (if length key \<ge> 2 ^ 64 - 1 - 56 then Some None
      else case addr of
        None \<Rightarrow> Some None
      | Some a \<Rightarrow> do {
          let n = \<lparr>n_prev = 0, n_next = 0\<rparr>;
          s1 \<leftarrow> list_init ((ht_nodes ht)(a \<mapsto> n, a + ordered_off \<mapsto> n)) a;
          s2 \<leftarrow> list_init s1 (a + ordered_off);
          Some (Some (a, ht\<lparr>ht_nodes := s2,
            ht_pairs := (ht_pairs ht)(a \<mapsto> \<lparr>pr_hash = hash, pr_value = value, pr_key = key\<rparr>)\<rparr>)) })"

definition hashtable_set :: "(int list \<Rightarrow> nat) \<Rightarrow> bool \<Rightarrow> nat option \<Rightarrow> 'v hashtable_t \<Rightarrow> int list \<Rightarrow> 'v \<Rightarrow>
    (int \<times> 'v list \<times> 'v hashtable_t) option" where
  "hashtable_set hash_str got_buckets addr ht0 key value = do {
     (r, ht) \<leftarrow> (if ht_size ht0 \<ge> hashsize (ht_order ht0) then hashtable_do_rehash got_buckets ht0 else Some (0, ht0));
     if r \<noteq> 0 then Some (-1, [], ht)
     else let hash = hash_str key; index = hash AND hashmask (ht_order ht) in do {
       found \<leftarrow> hashtable_find_pair ht index key hash;
       (case found of
          Some a \<Rightarrow> do {
            p \<leftarrow> ht_pairs ht a;
            Some (0, [pr_value p], ht\<lparr>ht_pairs := (ht_pairs ht)(a \<mapsto> p\<lparr>pr_value := value\<rparr>)\<rparr>) }
        | None \<Rightarrow> do {
            np \<leftarrow> init_pair ht addr value key hash;
            (case np of
               None \<Rightarrow> Some (-1, [], ht)
             | Some (a, ht1) \<Rightarrow> do {
                 ht2 \<leftarrow> insert_to_bucket ht1 index a;
                 s \<leftarrow> list_insert (ht_nodes ht2) ORDERED (a + ordered_off);
                 Some (0, [], ht2\<lparr>ht_nodes := s, ht_size := ht_size ht2 + 1\<rparr>) }) }) } }"

definition hashtable_get :: "(int list \<Rightarrow> nat) \<Rightarrow> 'v hashtable_t \<Rightarrow> int list \<Rightarrow> 'v option option" where
  "hashtable_get hash_str ht key =
     (let hash = hash_str key in do {
        r \<leftarrow> hashtable_find_pair ht (hash AND hashmask (ht_order ht)) key hash;
        (case r of None \<Rightarrow> Some None | Some a \<Rightarrow> do { p \<leftarrow> ht_pairs ht a; Some (Some (pr_value p)) }) })"

definition hashtable_del :: "(int list \<Rightarrow> nat) \<Rightarrow> 'v hashtable_t \<Rightarrow> int list \<Rightarrow> (int \<times> 'v list \<times> 'v hashtable_t) option" where
  "hashtable_del hash_str ht key = hashtable_do_del ht key (hash_str key)"

definition hashtable_clear :: "'v hashtable_t \<Rightarrow> ('v list \<times> 'v hashtable_t) option" where
  "hashtable_clear ht = do {
     (vs, ht1) \<leftarrow> hashtable_do_clear ht;
     let ht2 = ht1\<lparr>ht_buckets := replicate (hashsize (ht_order ht1)) (LIST, LIST)\<rparr>;
     s1 \<leftarrow> list_init (ht_nodes ht2) LIST;
     s2 \<leftarrow> list_init s1 ORDERED;
     Some (vs, ht2\<lparr>ht_nodes := s2, ht_size := 0\<rparr>) }"

text \<open>An iterator is the address of an ordered list node, 0 for \<^verbatim>\<open>NULL\<close>.\<close>

definition hashtable_iter_next :: "'v hashtable_t \<Rightarrow> nat \<Rightarrow> nat option" where
  "hashtable_iter_next ht iter = do {
     n \<leftarrow> rd_next (ht_nodes ht) iter;
     Some (if n = ORDERED then 0 else n) }"

definition hashtable_iter :: "'v hashtable_t \<Rightarrow> nat option" where
  "hashtable_iter ht = hashtable_iter_next ht ORDERED"

definition hashtable_iter_at :: "(int list \<Rightarrow> nat) \<Rightarrow> 'v hashtable_t \<Rightarrow> int list \<Rightarrow> nat option" where
  "hashtable_iter_at hash_str ht key =
     (let hash = hash_str key in do {
        r \<leftarrow> hashtable_find_pair ht (hash AND hashmask (ht_order ht)) key hash;
        Some (case r of None \<Rightarrow> 0 | Some a \<Rightarrow> a + ordered_off) })"

definition hashtable_iter_key :: "'v hashtable_t \<Rightarrow> nat \<Rightarrow> int list option" where
  "hashtable_iter_key ht iter = map_option pr_key (ht_pairs ht (ordered_list_to_pair iter))"

definition hashtable_iter_key_len :: "'v hashtable_t \<Rightarrow> nat \<Rightarrow> nat option" where
  "hashtable_iter_key_len ht iter = map_option (\<lambda>p. length (pr_key p)) (ht_pairs ht (ordered_list_to_pair iter))"

definition hashtable_iter_value :: "'v hashtable_t \<Rightarrow> nat \<Rightarrow> 'v option" where
  "hashtable_iter_value ht iter = map_option pr_value (ht_pairs ht (ordered_list_to_pair iter))"

definition hashtable_iter_set :: "'v hashtable_t \<Rightarrow> nat \<Rightarrow> 'v \<Rightarrow> ('v list \<times> 'v hashtable_t) option" where
  "hashtable_iter_set ht iter value = do {
     p \<leftarrow> ht_pairs ht (ordered_list_to_pair iter);
     Some ([pr_value p], ht\<lparr>ht_pairs := (ht_pairs ht)(ordered_list_to_pair iter \<mapsto> p\<lparr>pr_value := value\<rparr>)\<rparr>) }"

declare find_loop.simps [code] clear_loop.simps [code] rehash_loop.simps [code]

section \<open>The two lists\<close>

lemma list_insert_eq:
  assumes "valid s node" "valid s l" "node \<noteq> l"
  shows "list_insert s l node = list_add_tail s l node"
proof -
  obtain p where p: "rd_prev s l = Some p" using assms(2) by (auto simp: rd_prev_def)
  have "set_prev (set_next s node l) node p = set_next (set_prev s node p) node l"
    by (rule ext) (simp add: set_prev_def set_next_def)
  with assms p show ?thesis by (simp add: list_insert_def list_add_tail_def store_simps)
qed

lemma list_insert_dll:
  assumes d: "dll s l (ys @ zs)" and v: "valid s node" and fresh: "node \<notin> insert l (set (ys @ zs))"
  shows "\<exists>s'. list_insert s (hd (zs @ [l])) node = Some s' \<and> dll s' l (ys @ node # zs) \<and>
    (\<forall>q. q \<notin> {l, node} \<union> set (ys @ zs) \<longrightarrow> s' q = s q) \<and> (\<forall>q. valid s q \<longrightarrow> valid s' q)"
proof -
  have mono: "valid s' q" if "list_add_tail s a b = Some s'" "valid s q" for s' a b q
    using that by (auto simp: list_add_tail_def wr_next_def wr_prev_def valid_def set_next_def set_prev_def split: if_splits bind_splits)
  show ?thesis
  proof (cases zs)
    case Nil
    then show ?thesis using add_tail_dll [of s l ys node] d v fresh list_insert_eq [OF v dll_valid [OF d], of l] mono
      by fastforce
  next
    case (Cons e es)
    then have "dll s e (es @ l # ys)" using d by (simp add: dll_rotate)
    with add_tail_dll [OF this v] fresh Cons obtain s' where
      s': "list_add_tail s e node = Some s'" "dll s' e ((es @ l # ys) @ [node])"
        "\<forall>q. q \<notin> {e, node} \<union> set (es @ l # ys) \<longrightarrow> s' q = s q" by auto
    moreover have "list_insert s e node = list_add_tail s e node"
      using list_insert_eq [OF v dll_valid [OF d], of e] Cons fresh by auto
    moreover have "dll s' l ((ys @ [node]) @ e # es)" using s'(2) by (subst dll_rotate) simp
    ultimately show ?thesis using Cons mono by auto
  qed
qed

lemma list_init_dll:
  assumes "valid s l"
  shows "\<exists>s'. list_init s l = Some s' \<and> dll s' l [] \<and> (\<forall>q. q \<noteq> l \<longrightarrow> s' q = s q) \<and> (\<forall>q. valid s' q = valid s q)"
proof -
  have "list_init s l = Some (set_prev (set_next s l l) l l)" using assms by (simp add: list_init_def store_simps)
  moreover have "dll (set_prev (set_next s l l) l l) l []" using assms by (simp add: dll_def store_simps)
  moreover have "\<forall>q. q \<noteq> l \<longrightarrow> set_prev (set_next s l l) l l q = s q" by (simp add: store_simps)
  ultimately show ?thesis using assms by (intro exI) (auto simp: store_simps)
qed

lemma list_remove_dll:
  assumes d: "dll s l (ys @ x # zs)"
  shows "\<exists>s'. list_remove s x = Some s' \<and> dll s' l (ys @ zs) \<and> (\<forall>q. q \<notin> {l} \<union> set ys \<union> set zs \<longrightarrow> s' q = s q) \<and>
    (\<forall>q. valid s q \<longrightarrow> valid s' q)"
proof -
  have r: "dll s x (zs @ l # ys)" using d by (simp add: dll_rotate)
  obtain n where n: "rd_next s x = Some n" "n \<in> insert l (set (ys @ zs))" "n \<noteq> x"
    using r by (cases zs) (auto simp: dll_def)
  obtain p where p: "rd_prev s x = Some p" "p \<in> insert l (set (ys @ zs))" "p \<noteq> x"
    using dll_prev [OF r] d last_in_set [of "l # ys"] by (fastforce simp: dll_def)
  have v: "valid s x" "valid s n" "valid s p" using d n(2) p(2) by (auto intro!: dll_valid [OF d])
  let ?s = "set_prev (set_next s p n) n p"
  have run: "list_remove s x = Some ?s" using n p v by (simp add: list_remove_def store_simps)
  obtain s1 where s1: "list_delete s x = Some s1" "dll s1 l (ys @ zs)" using delete_dll [OF d] by blast
  have "list_delete s x = Some (set_prev (set_next (set_next (set_prev s n p) p n) x 0) x 0)"
    using n p v by (simp add: list_delete_def store_simps)
  then have "?s q = s1 q" if "q \<noteq> x" for q
    using s1(1) that by (auto simp: set_prev_def set_next_def)
  moreover have "x \<notin> insert l (set (ys @ zs))" using d by (auto simp: dll_def)
  ultimately have "dll ?s l (ys @ zs)" by (intro dll_frame [OF s1(2)]) metis
  moreover have "\<forall>q. q \<notin> {l} \<union> set ys \<union> set zs \<longrightarrow> ?s q = s q" using n(2) p(2) by (auto simp: set_prev_def set_next_def)
  ultimately show ?thesis using run v by (auto simp: store_simps)
qed

fun path :: "node_store \<Rightarrow> nat list \<Rightarrow> bool" where
  "path s [] \<longleftrightarrow> True"
| "path s (x # xs) \<longleftrightarrow> (xs \<noteq> [] \<longrightarrow> rd_next s x = Some (hd xs)) \<and> path s xs"

lemma seg_path: "seg s a xs b \<Longrightarrow> path s (a # xs @ [b])"
  by (induction xs arbitrary: a) auto

lemma path_append: "path s (xs @ ys) \<Longrightarrow> path s xs \<and> path s ys"
  by (induction xs) auto

lemma rd_cong: "s' x = s x \<Longrightarrow> rd_next s' x = rd_next s x" "s' x = s x \<Longrightarrow> rd_prev s' x = rd_prev s x"
  by (simp_all add: rd_next_def rd_prev_def valid_def)

lemma path_frame: "path s (xs @ [l]) \<Longrightarrow> \<forall>q \<in> set xs. s' q = s q \<Longrightarrow> path s' (xs @ [l])"
proof (induction xs)
  case (Cons x xs)
  then show ?case using rd_cong(1) [of s' x s] by simp
qed simp

section \<open>The bucket list\<close>

definition bucket_of :: "nat list \<Rightarrow> nat \<times> nat" where
  "bucket_of xs = (if xs = [] then (LIST, LIST) else (hd xs, last xs))"

text \<open>\<open>bs\<close> are the contents of the buckets, \<open>ix\<close> the order in which they stand in the ring.\<close>

definition ring :: "nat list list \<Rightarrow> nat list \<Rightarrow> nat list" where
  "ring bs ix = concat (map ((!) bs) ix)"

definition lrep :: "'v hashtable_t \<Rightarrow> nat list list \<Rightarrow> nat list \<Rightarrow> bool" where
  "lrep ht bs ix \<longleftrightarrow> ht_buckets ht = map bucket_of bs \<and> distinct ix \<and> set ix \<subseteq> {..<length bs} \<and>
     (\<forall>i < length bs. bs ! i \<noteq> [] \<longrightarrow> i \<in> set ix) \<and> dll (ht_nodes ht) LIST (ring bs ix)"

lemma ring_split:
  assumes "distinct ix" "i \<in> set ix" "i < length bs"
  obtains us vs where "ring bs ix = us @ bs ! i @ vs" "\<And>xs. ring (bs[i := xs]) ix = us @ xs @ vs"
proof -
  obtain p q where ix: "ix = p @ i # q" using assms(2) by (auto dest: split_list)
  have e: "map ((!) (bs[i := xs])) r = map ((!) bs) r" if "i \<notin> set r" for r xs
    using that by (auto intro!: map_cong nth_list_update_neq)
  have n: "i \<notin> set p" "i \<notin> set q" using assms(1) ix by auto
  have "ring (bs[i := xs]) ix = concat (map ((!) bs) p) @ xs @ concat (map ((!) bs) q)" for xs
    unfolding ring_def ix map_append list.map e [OF n(1)] e [OF n(2)] using assms(3) by simp
  then show ?thesis
    by (rule that [rotated]) (simp add: ring_def ix)
qed

lemma ring_skip: "bs ! i = [] \<Longrightarrow> ring bs (filter (\<lambda>j. j \<noteq> i) ix) = ring bs ix"
  by (induction ix) (auto simp: ring_def)

lemma ring_update_other: "i \<notin> set ix \<Longrightarrow> ring (bs[i := xs]) ix = ring bs ix"
  by (induction ix) (auto simp: ring_def)

lemma ring_mem:
  assumes "lrep ht bs ix"
  shows "a \<in> set (ring bs ix) \<longleftrightarrow> (\<exists>i < length bs. a \<in> set (bs ! i))"
proof -
  have "i \<in> set ix" if "i < length bs" "a \<in> set (bs ! i)" for i
    using assms that unfolding lrep_def by (metis empty_iff empty_set)
  moreover have "i < length bs" if "i \<in> set ix" for i using assms that by (auto simp: lrep_def)
  ultimately show ?thesis by (auto simp: ring_def)
qed

lemma bucket_empty_iff: "LIST \<notin> set xs \<Longrightarrow> bucket_is_empty (bucket_of xs) = (xs = [])"
  by (cases xs) (auto simp: bucket_is_empty_def bucket_of_def)

lemma lrep_LIST:
  assumes "lrep ht bs ix" "i < length bs"
  shows "LIST \<notin> set (bs ! i)"
proof
  assume "LIST \<in> set (bs ! i)"
  then have "LIST \<in> set (ring bs ix)" using ring_mem [OF assms(1)] assms(2) by blast
  then show False using assms(1) by (simp add: lrep_def dll_def)
qed

lemma lrep_bucket_empty:
  "lrep ht bs ix \<Longrightarrow> i < length bs \<Longrightarrow> bucket_at ht i = Some (bucket_of (bs ! i)) \<and> (bucket_is_empty (bucket_of (bs ! i)) = (bs ! i = []))"
  by (simp add: bucket_empty_iff [OF lrep_LIST]) (simp add: lrep_def bucket_at_def)

lemma bucket_of_update: "(map bucket_of bs)[i := bucket_of xs] = map bucket_of (bs[i := xs])"
  by (simp add: map_update)

lemma insert_to_bucket_lrep:
  assumes L: "lrep ht bs ix" and i: "i < length bs" and v: "valid (ht_nodes ht) a" and fresh: "a \<notin> insert LIST (set (ring bs ix))"
  shows "\<exists>s ix' b. insert_to_bucket ht i a = Some (ht\<lparr>ht_nodes := s, ht_buckets := b\<rparr>) \<and>
    lrep (ht\<lparr>ht_nodes := s, ht_buckets := b\<rparr>) (bs[i := a # bs ! i]) ix' \<and>
    (\<forall>q. q \<notin> {LIST, a} \<union> set (ring bs ix) \<longrightarrow> s q = ht_nodes ht q) \<and> (\<forall>q. valid (ht_nodes ht) q \<longrightarrow> valid s q)"
proof -
  note D = L [unfolded lrep_def]
  note B = lrep_bucket_empty [OF L i]
  show ?thesis
  proof (cases "bs ! i = []")
    case True
    define jx where "jx = filter (\<lambda>j. j \<noteq> i) ix"
    have r: "ring bs jx = ring bs ix" unfolding jx_def by (rule ring_skip [OF True])
    from list_insert_dll [of "ht_nodes ht" LIST "ring bs ix" "[]" a] D v fresh obtain s where
      s: "list_insert (ht_nodes ht) LIST a = Some s" "dll s LIST (ring bs ix @ [a])"
        "\<forall>q. q \<notin> {LIST, a} \<union> set (ring bs ix) \<longrightarrow> s q = ht_nodes ht q" "\<forall>q. valid (ht_nodes ht) q \<longrightarrow> valid s q" by auto
    have "ring (bs[i := [a]]) (jx @ [i]) = ring bs ix @ [a]"
      using ring_update_other [of i jx bs "[a]"] r i by (simp add: jx_def) (simp add: ring_def)
    then have "lrep (ht\<lparr>ht_nodes := s, ht_buckets := map bucket_of (bs[i := [a]])\<rparr>) (bs[i := [a]]) (jx @ [i])"
      using D s i by (auto simp: lrep_def jx_def nth_list_update split: if_splits)
    moreover have "insert_to_bucket ht i a = Some (ht\<lparr>ht_nodes := s, ht_buckets := map bucket_of (bs[i := [a]])\<rparr>)"
      using B True s(1) D by (simp add: insert_to_bucket_def bucket_of_update [symmetric]) (simp add: bucket_of_def)
    ultimately show ?thesis using s True by auto
  next
    case False
    then have "i \<in> set ix" using D i by auto
    with D i obtain us vs where sp: "ring bs ix = us @ bs ! i @ vs" "\<And>xs. ring (bs[i := xs]) ix = us @ xs @ vs"
      using ring_split [of ix i bs] by metis
    let ?b = "bs ! i"
    from list_insert_dll [of "ht_nodes ht" LIST us "?b @ vs" a] D v fresh sp(1) False obtain s where
      s: "list_insert (ht_nodes ht) (hd ?b) a = Some s" "dll s LIST (us @ a # ?b @ vs)"
        "\<forall>q. q \<notin> {LIST, a} \<union> set (ring bs ix) \<longrightarrow> s q = ht_nodes ht q" "\<forall>q. valid (ht_nodes ht) q \<longrightarrow> valid s q" by auto
    have "lrep (ht\<lparr>ht_nodes := s, ht_buckets := map bucket_of (bs[i := a # ?b])\<rparr>) (bs[i := a # ?b]) ix"
      using D s i sp(2) \<open>i \<in> set ix\<close> by (auto simp: lrep_def nth_list_update split: if_splits)
    moreover have "insert_to_bucket ht i a = Some (ht\<lparr>ht_nodes := s, ht_buckets := map bucket_of (bs[i := a # ?b])\<rparr>)"
      using B False s(1) D by (simp add: insert_to_bucket_def bucket_of_update [symmetric]) (simp add: bucket_of_def)
    ultimately show ?thesis using s by blast
  qed
qed

section \<open>Searching a bucket\<close>

definition pair_matches :: "'v hashtable_t \<Rightarrow> int list \<Rightarrow> nat \<Rightarrow> nat \<Rightarrow> bool" where
  "pair_matches ht key hash a \<longleftrightarrow> pr_hash (the (ht_pairs ht a)) = hash \<and> pr_key (the (ht_pairs ht a)) = key"

lemma find_loop_path:
  assumes "path (ht_nodes ht) (x # xs)" "set (x # xs) \<subseteq> dom (ht_pairs ht)" "distinct (x # xs)" "snd b = last (x # xs)"
  shows "find_loop ht b key hash x = Some (List.find (pair_matches ht key hash) (x # xs))"
  using assms
proof (induction xs arbitrary: x)
  case Nil
  then show ?case by (subst find_loop.simps) (auto simp: pair_matches_def list_to_pair_def)
next
  case (Cons y ys)
  from Cons.prems(2) obtain p where p: "ht_pairs ht x = Some p" by auto
  have "x \<noteq> snd b" using Cons.prems(3,4) last_in_set [of "y # ys"] by auto
  moreover have "find_loop ht b key hash y = Some (List.find (pair_matches ht key hash) (y # ys))"
    using Cons.prems by (intro Cons.IH) auto
  moreover have "pair_matches ht key hash x \<longleftrightarrow> pr_hash p = hash \<and> length (pr_key p) = length key \<and> pr_key p = key"
    using p by (auto simp: pair_matches_def)
  moreover have "rd_next (ht_nodes ht) x = Some y" using Cons.prems(1) by simp
  ultimately show ?case using p by (subst find_loop.simps) (simp add: list_to_pair_def)
qed

lemma find_pair_lrep:
  assumes L: "lrep ht bs ix" and i: "i < length bs" and d: "set (bs ! i) \<subseteq> dom (ht_pairs ht)"
  shows "hashtable_find_pair ht i key hash = Some (List.find (pair_matches ht key hash) (bs ! i))"
proof (cases "bs ! i")
  case Nil
  then show ?thesis using lrep_bucket_empty [OF L i] by (simp add: hashtable_find_pair_def)
next
  case (Cons x xs)
  note D = L [unfolded lrep_def]
  have "i \<in> set ix" using D i Cons by auto
  with D i obtain us vs where sp: "ring bs ix = us @ bs ! i @ vs" using ring_split [of ix i bs] by metis
  have "path (ht_nodes ht) (LIST # us @ (x # xs) @ vs @ [LIST])" "distinct (x # xs)"
    using D sp Cons seg_path [of "ht_nodes ht" LIST "ring bs ix" LIST] by (auto simp: dll_def)
  then have "path (ht_nodes ht) (x # xs)"
    using path_append [of "ht_nodes ht" "LIST # us" "(x # xs) @ vs @ [LIST]"] path_append [of "ht_nodes ht" "x # xs" "vs @ [LIST]"] by simp
  with find_loop_path [of ht x xs "bucket_of (bs ! i)" key hash] d Cons \<open>distinct (x # xs)\<close> lrep_bucket_empty [OF L i]
  show ?thesis by (simp add: hashtable_find_pair_def bucket_of_def)
qed

section \<open>Rehashing\<close>

definition spread :: "(int list \<Rightarrow> nat) \<Rightarrow> 'v hashtable_t \<Rightarrow> nat list list \<Rightarrow> bool" where
  "spread H ht bs \<longleftrightarrow> length bs = hashsize (ht_order ht) \<and>
     (\<forall>i < length bs. \<forall>a \<in> set (bs ! i). \<exists>p. ht_pairs ht a = Some p \<and> pr_hash p = H (pr_key p) \<and> pr_hash p mod hashsize (ht_order ht) = i)"

lemma spreadD:
  "spread H ht bs \<Longrightarrow> i < length bs \<Longrightarrow> a \<in> set (bs ! i) \<Longrightarrow>
   \<exists>p. ht_pairs ht a = Some p \<and> pr_hash p = H (pr_key p) \<and> pr_hash p mod hashsize (ht_order ht) = i"
  by (simp add: spread_def)

lemma rehash_loop_ok:
  assumes "path (ht_nodes ht) (zs @ [LIST])" "distinct zs" "LIST \<notin> set zs" "\<forall>z \<in> set zs. valid (ht_nodes ht) z"
    "\<forall>z \<in> set zs. \<exists>p. ht_pairs ht z = Some p \<and> pr_hash p = H (pr_key p)"
    "lrep ht bs ix" "spread H ht bs" "set zs \<inter> set (ring bs ix) = {}"
  shows "\<exists>s b bs' ix'. rehash_loop (hd (zs @ [LIST])) ht = Some (ht\<lparr>ht_nodes := s, ht_buckets := b\<rparr>) \<and>
    lrep (ht\<lparr>ht_nodes := s, ht_buckets := b\<rparr>) bs' ix' \<and> spread H ht bs' \<and> set (ring bs' ix') = set zs \<union> set (ring bs ix) \<and>
    (\<forall>q. q \<notin> insert LIST (set zs \<union> set (ring bs ix)) \<longrightarrow> s q = ht_nodes ht q)"
  using assms
proof (induction zs arbitrary: ht bs ix)
  case Nil
  then show ?case by (subst rehash_loop.simps) (auto intro!: exI [of _ "ht_nodes ht"] exI [of _ "ht_buckets ht"] exI [of _ bs] exI [of _ ix])
next
  case (Cons z zs)
  let ?n = "hashsize (ht_order ht)"
  from Cons.prems(5) obtain p where p: "ht_pairs ht z = Some p" "pr_hash p = H (pr_key p)" by auto
  define i where "i = pr_hash p mod ?n"
  have i: "i < length bs" using Cons.prems(7) by (simp add: spread_def i_def hashsize_def)
  have n: "rd_next (ht_nodes ht) z = Some (hd (zs @ [LIST]))" using Cons.prems(1) by (cases zs) auto
  have zr: "z \<notin> insert LIST (set (ring bs ix))" "valid (ht_nodes ht) z" using Cons.prems(3,4,8) by auto
  obtain s1 ix1 b1 where s1: "insert_to_bucket ht i z = Some (ht\<lparr>ht_nodes := s1, ht_buckets := b1\<rparr>)"
    "lrep (ht\<lparr>ht_nodes := s1, ht_buckets := b1\<rparr>) (bs[i := z # bs ! i]) ix1"
    "\<forall>q. q \<notin> {LIST, z} \<union> set (ring bs ix) \<longrightarrow> s1 q = ht_nodes ht q" "\<forall>q. valid (ht_nodes ht) q \<longrightarrow> valid s1 q"
    using insert_to_bucket_lrep [OF Cons.prems(6) i zr(2,1)] by blast
  let ?ht = "ht\<lparr>ht_nodes := s1, ht_buckets := b1\<rparr>" let ?bs = "bs[i := z # bs ! i]"
  have r1: "set (ring ?bs ix1) = insert z (set (ring bs ix))"
    using ring_mem [OF s1(2)] ring_mem [OF Cons.prems(6)] i by (auto simp: nth_list_update split: if_splits)
  have sp: "spread H ?ht ?bs" using Cons.prems(7) p i by (auto simp: spread_def nth_list_update i_def)
  have "q \<notin> {LIST, z} \<union> set (ring bs ix)" if "q \<in> set zs" for q using that Cons.prems(2,3,8) by auto
  with s1(3) have z: "\<forall>q \<in> set zs. s1 q = ht_nodes ht q" by blast
  have pa: "path s1 (zs @ [LIST])" using path_frame [OF _ z] Cons.prems(1) by simp
  have "\<exists>s b bs' ix'. rehash_loop (hd (zs @ [LIST])) ?ht = Some (?ht\<lparr>ht_nodes := s, ht_buckets := b\<rparr>) \<and>
    lrep (?ht\<lparr>ht_nodes := s, ht_buckets := b\<rparr>) bs' ix' \<and> spread H ?ht bs' \<and> set (ring bs' ix') = set zs \<union> set (ring ?bs ix1) \<and>
    (\<forall>q. q \<notin> insert LIST (set zs \<union> set (ring ?bs ix1)) \<longrightarrow> s q = ht_nodes ?ht q)"
    using Cons.prems s1 sp pa r1 by (intro Cons.IH) auto
  then obtain s b bs' ix' where R: "rehash_loop (hd (zs @ [LIST])) ?ht = Some (ht\<lparr>ht_nodes := s, ht_buckets := b\<rparr>)"
    "lrep (ht\<lparr>ht_nodes := s, ht_buckets := b\<rparr>) bs' ix'" "spread H ht bs'" "set (ring bs' ix') = set zs \<union> set (ring ?bs ix1)"
    "\<forall>q. q \<notin> insert LIST (set zs \<union> set (ring ?bs ix1)) \<longrightarrow> s q = s1 q" by (auto simp: spread_def)
  have "rehash_loop z ht = rehash_loop (hd (zs @ [LIST])) ?ht"
    using n p s1(1) Cons.prems(3) by (subst rehash_loop.simps) (simp add: list_to_pair_def i_def)
  with R show ?case using r1 s1(3) by (intro exI [of _ s] exI [of _ b] exI [of _ bs'] exI [of _ ix']) auto
qed

section \<open>The representation relation\<close>

definition off :: "nat \<Rightarrow> nat" where
  "off a = a + ordered_off"

definition hrep :: "(int list \<Rightarrow> nat) \<Rightarrow> 'v hashtable_t \<Rightarrow> nat list list \<Rightarrow> nat list \<Rightarrow> nat list \<Rightarrow> bool" where
  "hrep H ht bs ix ps \<longleftrightarrow> lrep ht bs ix \<and> spread H ht bs \<and> dll (ht_nodes ht) ORDERED (map off ps) \<and>
     set (ring bs ix) = set ps \<and> insert LIST (set ps) \<inter> insert ORDERED (off ` set ps) = {} \<and>
     dom (ht_pairs ht) = set ps \<and> distinct (map (\<lambda>a. pr_key (the (ht_pairs ht a))) ps) \<and> ht_size ht = length ps \<and>
     ht_size ht \<le> hashsize (ht_order ht)"

definition members :: "'v hashtable_t \<Rightarrow> nat list \<Rightarrow> (int list \<times> 'v) list" where
  "members ht ps = map (\<lambda>a. (pr_key (the (ht_pairs ht a)), pr_value (the (ht_pairs ht a)))) ps"

definition ht_rep :: "(int list \<Rightarrow> nat) \<Rightarrow> 'v hashtable_t \<Rightarrow> (int list \<times> 'v) list \<Rightarrow> bool" where
  "ht_rep H ht ms \<longleftrightarrow> (\<exists>bs ix ps. hrep H ht bs ix ps \<and> ms = members ht ps)"

lemma off_inj [simp]: "off a = off b \<longleftrightarrow> a = b"
  by (simp add: off_def)

lemma off_map_inj [simp]: "distinct (map off ps) = distinct ps"
  by (simp add: distinct_map inj_on_def)

lemma index_mod: "h AND hashmask n = h mod hashsize n"
  using and_mask by (simp add: hashmask_def hashsize_def)

lemma hrep_index: "hrep H ht bs ix ps \<Longrightarrow> h AND hashmask (ht_order ht) < length bs"
  by (simp add: hrep_def spread_def index_mod hashsize_def)

lemma hrep_pair:
  assumes "hrep H ht bs ix ps" "a \<in> set ps"
  shows "\<exists>p. ht_pairs ht a = Some p \<and> pr_hash p = H (pr_key p) \<and> a \<in> set (bs ! (H (pr_key p) AND hashmask (ht_order ht)))"
proof -
  have "a \<in> set (ring bs ix)" "lrep ht bs ix" using assms by (auto simp: hrep_def)
  then obtain i where "i < length bs" "a \<in> set (bs ! i)" using ring_mem by blast
  moreover have "spread H ht bs" using assms(1) by (simp add: hrep_def)
  ultimately obtain p where "ht_pairs ht a = Some p" "pr_hash p = H (pr_key p)" "pr_hash p mod hashsize (ht_order ht) = i"
    using spreadD by blast
  with \<open>a \<in> set (bs ! i)\<close> show ?thesis by (auto simp: index_mod)
qed

lemma find_eq_SomeI:
  assumes "x \<in> set xs" "P x" "\<forall>y \<in> set xs. P y \<longrightarrow> y = x"
  shows "List.find P xs = Some x"
  using assms
proof (induction xs)
  case (Cons y ys)
  show ?case
  proof (cases "P y")
    case True
    moreover from this have "y = x" using Cons.prems(3) by simp
    ultimately show ?thesis by simp
  next
    case False
    then have "x \<in> set ys" using Cons.prems(1,2) by auto
    moreover have "\<forall>z \<in> set ys. P z \<longrightarrow> z = x" using Cons.prems(3) list.set_intros(2) by metis
    ultimately have "List.find P ys = Some x" using Cons.IH Cons.prems(2) by blast
    with False show ?thesis by simp
  qed
qed simp

text \<open>The search finds exactly the pair with the key.\<close>

lemma find_pair_hrep:
  assumes h: "hrep H ht bs ix ps"
  shows "hashtable_find_pair ht (H key AND hashmask (ht_order ht)) key (H key) =
    Some (List.find (\<lambda>a. pr_key (the (ht_pairs ht a)) = key) ps)"
proof -
  let ?i = "H key AND hashmask (ht_order ht)" let ?P = "\<lambda>a. pr_key (the (ht_pairs ht a)) = key"
  have L: "lrep ht bs ix" and sub: "set (bs ! ?i) \<subseteq> set ps" and dom: "dom (ht_pairs ht) = set ps"
    and inj: "inj_on (\<lambda>a. pr_key (the (ht_pairs ht a))) (set ps)"
    using h hrep_index [OF h, of "H key"] ring_mem [of ht bs ix] unfolding hrep_def distinct_map by blast+
  have eq: "List.find (pair_matches ht key (H key)) (bs ! ?i) = List.find ?P ps"
  proof (cases "\<exists>a \<in> set ps. ?P a")
    case True
    then obtain a where a: "a \<in> set ps" "?P a" by blast
    with hrep_pair [OF h a(1)] have m: "a \<in> set (bs ! ?i)" "pair_matches ht key (H key) a" by (auto simp: pair_matches_def)
    have u: "\<forall>b \<in> set ps. ?P b \<longrightarrow> b = a" using a inj by (auto simp: inj_on_def)
    then have "List.find (pair_matches ht key (H key)) (bs ! ?i) = Some a"
      using m sub by (intro find_eq_SomeI) (simp_all add: pair_matches_def subset_iff)
    moreover have "List.find ?P ps = Some a" using a u by (intro find_eq_SomeI)
    ultimately show ?thesis by simp
  next
    case False
    then have "List.find ?P ps = None" "List.find (pair_matches ht key (H key)) (bs ! ?i) = None"
      using sub by (auto simp: find_None_iff pair_matches_def)
    then show ?thesis by simp
  qed
  show ?thesis using find_pair_lrep [OF L hrep_index [OF h], of "H key" key "H key"] sub dom eq by simp
qed

lemma find_map_of:
  "map_of (members ht ps) key = map_option (\<lambda>a. pr_value (the (ht_pairs ht a))) (List.find (\<lambda>a. pr_key (the (ht_pairs ht a)) = key) ps)"
  by (induction ps) (auto simp: members_def)

lemma hashtable_get_rep:
  assumes "ht_rep H ht ms"
  shows "hashtable_get H ht key = Some (map_of ms key)"
proof -
  from assms obtain bs ix ps where h: "hrep H ht bs ix ps" "ms = members ht ps" by (auto simp: ht_rep_def)
  have "\<exists>p. ht_pairs ht a = Some p" if "List.find (\<lambda>a. pr_key (the (ht_pairs ht a)) = key) ps = Some a" for a
    using that h(1) by (auto simp: hrep_def find_Some_iff dom_def)
  then show ?thesis
    by (auto simp: hashtable_get_def Let_def find_pair_hrep [OF h(1)] h(2) find_map_of split: option.splits)
qed

text \<open>Writing a value.\<close>

lemma members_update_value:
  assumes "distinct (map (\<lambda>a. pr_key (the (ht_pairs ht a))) ps)" "a \<in> set ps" "ht_pairs ht a = Some p"
  shows "members (ht\<lparr>ht_pairs := (ht_pairs ht)(a \<mapsto> p\<lparr>pr_value := v\<rparr>)\<rparr>) ps = set_member (pr_key p) v (members ht ps)"
proof -
  let ?ht = "ht\<lparr>ht_pairs := (ht_pairs ht)(a \<mapsto> p\<lparr>pr_value := v\<rparr>)\<rparr>"
  have same: "members ?ht qs = members ht qs" if "a \<notin> set qs" for qs
    using that by (auto simp: members_def)
  show ?thesis using assms
  proof (induction ps)
    case (Cons b ps)
    show ?case
    proof (cases "b = a")
      case True
      then have "a \<notin> set ps" using Cons.prems(1) by (auto simp: image_iff)
      with True Cons.prems same show ?thesis by (simp add: members_def)
    next
      case False
      then have "pr_key (the (ht_pairs ht b)) \<noteq> pr_key p" using Cons.prems by (auto simp: image_def)
      with False Cons show ?thesis by (simp add: members_def)
    qed
  qed simp
qed

lemma hrep_value:
  assumes "hrep H ht bs ix ps" "ht_pairs ht a = Some p"
  shows "hrep H (ht\<lparr>ht_pairs := (ht_pairs ht)(a \<mapsto> p\<lparr>pr_value := v\<rparr>)\<rparr>) bs ix ps"
proof -
  let ?ht = "ht\<lparr>ht_pairs := (ht_pairs ht)(a \<mapsto> p\<lparr>pr_value := v\<rparr>)\<rparr>"
  have "(\<lambda>a. pr_key (the (ht_pairs ?ht a))) = (\<lambda>a. pr_key (the (ht_pairs ht a)))" using assms(2) by auto
  moreover have "lrep ?ht bs ix" using assms by (auto simp: hrep_def lrep_def)
  moreover have "spread H ?ht bs"
    using assms spreadD [of H ht bs _ a] unfolding hrep_def by (simp add: spread_def) metis
  moreover have "dom (ht_pairs ?ht) = set ps" using assms by (auto simp: hrep_def)
  ultimately show ?thesis using assms(1) by (simp add: hrep_def)
qed

section \<open>Inserting, deleting, clearing\<close>

lemma hashtable_do_rehash_rep:
  assumes h: "hrep H ht bs ix ps"
  shows "\<exists>s b bs' ix'. hashtable_do_rehash True ht = Some (0, ht\<lparr>ht_order := ht_order ht + 1, ht_nodes := s, ht_buckets := b\<rparr>) \<and>
    hrep H (ht\<lparr>ht_order := ht_order ht + 1, ht_nodes := s, ht_buckets := b\<rparr>) bs' ix' ps \<and>
    (\<forall>q. q \<notin> insert LIST (set ps) \<longrightarrow> s q = ht_nodes ht q)"
proof -
  let ?n = "hashsize (ht_order ht + 1)"
  have D: "dll (ht_nodes ht) LIST (ring bs ix)" using h by (simp add: hrep_def lrep_def)
  have vl: "valid (ht_nodes ht) LIST" using D by (auto intro: dll_valid)
  obtain s0 where s0: "list_init (ht_nodes ht) LIST = Some s0" "dll s0 LIST []" "\<forall>q. q \<noteq> LIST \<longrightarrow> s0 q = ht_nodes ht q"
    using list_init_dll [OF vl] by blast
  let ?ht = "ht\<lparr>ht_order := ht_order ht + 1, ht_buckets := replicate ?n (LIST, LIST), ht_nodes := s0\<rparr>"
  let ?bs = "replicate ?n []"
  have l: "rd_next (ht_nodes ht) LIST = Some (hd (ring bs ix @ [LIST]))" using D by (cases "ring bs ix") (auto simp: dll_def)
  have "path (ht_nodes ht) (ring bs ix @ [LIST])" using D seg_path [of "ht_nodes ht" LIST "ring bs ix" LIST] by (simp add: dll_def)
  moreover have "\<forall>q \<in> set (ring bs ix). s0 q = ht_nodes ht q"
  proof
    fix q assume "q \<in> set (ring bs ix)"
    then have "q \<noteq> LIST" using D by (auto simp: dll_def)
    then show "s0 q = ht_nodes ht q" using s0(3) by simp
  qed
  ultimately have "path s0 (ring bs ix @ [LIST])" by (rule path_frame)
  moreover have "lrep ?ht ?bs []" using s0(2) by (auto simp: lrep_def ring_def bucket_of_def)
  moreover have "spread H ?ht ?bs" by (simp add: spread_def)
  moreover have "\<forall>z \<in> set (ring bs ix). valid s0 z"
  proof
    fix z assume "z \<in> set (ring bs ix)"
    then have "valid (ht_nodes ht) z" "z \<noteq> LIST" using D by (auto intro: dll_valid simp: dll_def)
    then show "valid s0 z" using s0(3) by (simp add: valid_def)
  qed
  moreover have "\<forall>z \<in> set (ring bs ix). \<exists>p. ht_pairs ht z = Some p \<and> pr_hash p = H (pr_key p)"
  proof
    fix z assume "z \<in> set (ring bs ix)"
    then have "z \<in> set ps" using h by (simp add: hrep_def)
    from hrep_pair [OF h this] show "\<exists>p. ht_pairs ht z = Some p \<and> pr_hash p = H (pr_key p)" by blast
  qed
  moreover have "distinct (ring bs ix)" "LIST \<notin> set (ring bs ix)" using D by (auto simp: dll_def)
  ultimately have "\<exists>s b bs' ix'. rehash_loop (hd (ring bs ix @ [LIST])) ?ht = Some (?ht\<lparr>ht_nodes := s, ht_buckets := b\<rparr>) \<and>
    lrep (?ht\<lparr>ht_nodes := s, ht_buckets := b\<rparr>) bs' ix' \<and> spread H ?ht bs' \<and> set (ring bs' ix') = set (ring bs ix) \<union> set (ring ?bs []) \<and>
    (\<forall>q. q \<notin> insert LIST (set (ring bs ix) \<union> set (ring ?bs [])) \<longrightarrow> s q = ht_nodes ?ht q)"
    by (intro rehash_loop_ok) (simp_all add: ring_def)
  then obtain s b bs' ix' where R0: "rehash_loop (hd (ring bs ix @ [LIST])) ?ht = Some (?ht\<lparr>ht_nodes := s, ht_buckets := b\<rparr>)"
    "lrep (?ht\<lparr>ht_nodes := s, ht_buckets := b\<rparr>) bs' ix'" "spread H ?ht bs'" "set (ring bs' ix') = set (ring bs ix) \<union> set (ring ?bs [])"
    "\<forall>q. q \<notin> insert LIST (set (ring bs ix) \<union> set (ring ?bs [])) \<longrightarrow> s q = ht_nodes ?ht q" by blast
  have "set (ring bs ix) = set ps" "set (ring ?bs []) = {}" using h by (simp_all add: hrep_def ring_def)
  with R0(4,5) have R: "set (ring bs' ix') = set ps" "\<forall>q. q \<notin> insert LIST (set ps) \<longrightarrow> s q = s0 q" by simp_all
  let ?r = "ht\<lparr>ht_order := ht_order ht + 1, ht_nodes := s, ht_buckets := b\<rparr>"
  have "dll s ORDERED (map off ps)"
  proof (rule dll_frame)
    show "dll (ht_nodes ht) ORDERED (map off ps)" using h by (simp add: hrep_def)
    have "insert LIST (set ps) \<inter> insert ORDERED (off ` set ps) = {}" using h unfolding hrep_def by blast
    then have "q \<notin> insert LIST (set ps)" if "q \<in> insert ORDERED (set (map off ps))" for q
      using that unfolding set_map by blast
    then show "\<forall>q \<in> insert ORDERED (set (map off ps)). s q = ht_nodes ht q"
      using R(2) s0(3) by (metis insertCI)
  qed
  moreover have "lrep ?r bs' ix'" using R0(2) by (simp add: lrep_def)
  moreover have "spread H ?r bs'" using R0(3) by (simp add: spread_def)
  ultimately have "hrep H ?r bs' ix' ps" using h R(1) by (simp add: hrep_def hashsize_def)
  moreover have "\<forall>q. q \<notin> insert LIST (set ps) \<longrightarrow> s q = ht_nodes ht q" using R(2) s0(3) by simp
  moreover have "hashtable_do_rehash True ht = Some (0, ?r)"
    using R0(1) l s0(1) by (simp add: hashtable_do_rehash_def Let_def)
  ultimately show ?thesis by blast
qed

text \<open>An address the allocator may return: the block is outside the table.\<close>

definition fresh :: "'v hashtable_t \<Rightarrow> nat \<Rightarrow> bool" where
  "fresh ht a \<longleftrightarrow> a \<noteq> 0 \<and> ht_nodes ht a = None \<and> ht_nodes ht (off a) = None"

lemma set_member_new: "k \<notin> fst ` set ms \<Longrightarrow> set_member k v ms = ms @ [(k, v)]"
  by (induction ms) auto

lemma insert_pair_rep:
  assumes h: "hrep H ht bs ix ps" and a: "fresh ht a" and k: "key \<notin> (\<lambda>a. pr_key (the (ht_pairs ht a))) ` set ps"
    and len: "length key < 2 ^ 64 - 57" and sz: "ht_size ht < hashsize (ht_order ht)"
  shows "\<exists>ht1 ht2 s. init_pair ht (Some a) v key (H key) = Some (Some (a, ht1)) \<and>
    insert_to_bucket ht1 (H key AND hashmask (ht_order ht)) a = Some ht2 \<and>
    list_insert (ht_nodes ht2) ORDERED (a + ordered_off) = Some s \<and>
    (\<exists>bs' ix'. hrep H (ht2\<lparr>ht_nodes := s, ht_size := ht_size ht2 + 1\<rparr>) bs' ix' (ps @ [a])) \<and>
    ht_pairs ht2 = (ht_pairs ht)(a \<mapsto> \<lparr>pr_hash = H key, pr_value = v, pr_key = key\<rparr>)"
proof -
  let ?n = "\<lparr>n_prev = 0, n_next = 0\<rparr>" let ?i = "H key AND hashmask (ht_order ht)"
  let ?s0 = "(ht_nodes ht)(a \<mapsto> ?n, off a \<mapsto> ?n)" let ?p = "\<lparr>pr_hash = H key, pr_value = v, pr_key = key\<rparr>"
  have ao: "a \<noteq> off a" "off a \<noteq> 0" by (simp_all add: off_def ordered_off_def)
  have L: "lrep ht bs ix" and O: "dll (ht_nodes ht) ORDERED (map off ps)" and D: "dll (ht_nodes ht) LIST (ring bs ix)"
    and rs: "set (ring bs ix) = set ps" and dj: "insert LIST (set ps) \<inter> insert ORDERED (off ` set ps) = {}"
    using h by (auto simp: hrep_def lrep_def)
  have out: "x \<notin> insert LIST (set ps) \<union> insert ORDERED (off ` set ps)" if "ht_nodes ht x = None" for x
    using dll_valid [OF D, of x] dll_valid [OF O, of x] that rs by (auto simp: valid_def)
  have oa: "a \<notin> insert LIST (set ps) \<union> insert ORDERED (off ` set ps)"
    and oo: "off a \<notin> insert LIST (set ps) \<union> insert ORDERED (off ` set ps)"
    using out a by (auto simp: fresh_def)
  have "valid ?s0 a" using a ao by (simp add: valid_def fresh_def)
  from list_init_dll [OF this] obtain s1 where s1: "list_init ?s0 a = Some s1" "\<forall>q. q \<noteq> a \<longrightarrow> s1 q = ?s0 q" "\<forall>q. valid s1 q = valid ?s0 q" by blast
  have "valid ?s0 (off a)" using ao by (simp add: valid_def)
  with s1(3) have "valid s1 (off a)" by simp
  from list_init_dll [OF this] obtain s2 where s2: "list_init s1 (off a) = Some s2" "\<forall>q. q \<noteq> off a \<longrightarrow> s2 q = s1 q" "\<forall>q. valid s2 q = valid s1 q" by blast
  have other: "s2 q = ht_nodes ht q" if "q \<noteq> a" "q \<noteq> off a" for q using s1(2) s2(2) that by simp
  have va: "valid s2 a" "valid s2 (off a)" using s1(3) s2(3) \<open>valid ?s0 a\<close> \<open>valid ?s0 (off a)\<close> by simp_all
  let ?ht1 = "ht\<lparr>ht_nodes := s2, ht_pairs := (ht_pairs ht)(a \<mapsto> ?p)\<rparr>"
  have ip: "init_pair ht (Some a) v key (H key) = Some (Some (a, ?ht1))"
    using s1(1) s2(1) len by (simp add: init_pair_def Let_def off_def)
  have "dll s2 LIST (ring bs ix)" by (intro dll_frame [OF D] ballI other) (use oa oo rs in auto)
  then have L1: "lrep ?ht1 bs ix" using L by (simp add: lrep_def)
  have O1: "dll s2 ORDERED (map off ps)" by (intro dll_frame [OF O] ballI other) (use oa oo in auto)
  have i: "?i < length bs" by (rule hrep_index [OF h])
  obtain s3 ix' b where s3: "insert_to_bucket ?ht1 ?i a = Some (?ht1\<lparr>ht_nodes := s3, ht_buckets := b\<rparr>)"
    "lrep (?ht1\<lparr>ht_nodes := s3, ht_buckets := b\<rparr>) (bs[?i := a # bs ! ?i]) ix'"
    "\<forall>q. q \<notin> {LIST, a} \<union> set (ring bs ix) \<longrightarrow> s3 q = s2 q" "\<forall>q. valid s2 q \<longrightarrow> valid s3 q"
    using insert_to_bucket_lrep [OF L1 i, of a] va oa rs by auto
  let ?bs = "bs[?i := a # bs ! ?i]"
  have r3: "set (ring ?bs ix') = insert a (set ps)"
    using ring_mem [OF s3(2)] ring_mem [OF L] i rs by (auto simp: nth_list_update split: if_splits)
  have "q \<notin> {LIST, a} \<union> set (ring bs ix)" if "q \<in> insert ORDERED (set (map off ps))" for q
    using that oa dj rs unfolding set_map by blast
  then have O3: "dll s3 ORDERED (map off ps)" by (intro dll_frame [OF O1] ballI s3(3) [rule_format])
  obtain s where s: "list_insert s3 ORDERED (off a) = Some s" "dll s ORDERED (map off ps @ [off a])"
    "\<forall>q. q \<notin> {ORDERED, off a} \<union> set (map off ps) \<longrightarrow> s q = s3 q"
    using list_insert_dll [of s3 ORDERED "map off ps" "[]" "off a"] O3 s3(4) va oo by auto
  let ?r = "?ht1\<lparr>ht_buckets := b, ht_nodes := s, ht_size := ht_size ht + 1\<rparr>"
  have "dll s LIST (ring ?bs ix')"
  proof (rule dll_frame)
    show "dll s3 LIST (ring ?bs ix')" using s3(2) by (simp add: lrep_def)
    have "q \<notin> {ORDERED, off a} \<union> set (map off ps)" if "q \<in> insert LIST (set (ring ?bs ix'))" for q
      using that dj oa oo ao r3 by auto
    then show "\<forall>q \<in> insert LIST (set (ring ?bs ix')). s q = s3 q" using s(3) by blast
  qed
  then have "lrep ?r ?bs ix'" using s3(2) by (simp add: lrep_def)
  moreover have "spread H ?r ?bs"
  proof -
    have sp: "spread H ht bs" using h by (simp add: hrep_def)
    have "a \<notin> set (bs ! j)" if "j < length bs" for j using ring_mem [OF L, of a] that oa rs by auto
    then show ?thesis using sp i by (auto simp: spread_def nth_list_update index_mod)
  qed
  moreover have "insert LIST (set (ps @ [a])) \<inter> insert ORDERED (off ` set (ps @ [a])) = {}"
    using dj oa oo ao by auto
  moreover have "distinct (map (\<lambda>x. pr_key (the (ht_pairs ?r x))) (ps @ [a]))"
  proof -
    have "map (\<lambda>x. pr_key (the (ht_pairs ?r x))) (ps @ [a]) = map (\<lambda>x. pr_key (the (ht_pairs ht x))) ps @ [key]"
      using oa by auto
    moreover have "distinct (map (\<lambda>x. pr_key (the (ht_pairs ht x))) ps @ [key])" using h k by (simp add: hrep_def)
    ultimately show ?thesis by (simp only:)
  qed
  ultimately have "hrep H ?r ?bs ix' (ps @ [a])"
    using h s(2) r3 sz by (simp add: hrep_def)
  moreover have "list_insert s3 ORDERED (a + ordered_off) = Some s" using s(1) by (simp add: off_def)
  ultimately show ?thesis using ip s3(1)
    by - (rule exI [of _ ?ht1], rule exI [of _ "?ht1\<lparr>ht_nodes := s3, ht_buckets := b\<rparr>"], rule exI [of _ s], intro conjI,
      simp, simp, simp, rule exI [of _ ?bs], rule exI [of _ ix'], simp_all)
qed

lemma hashtable_set_hrep:
  assumes h: "hrep H ht bs ix ps" and a: "fresh ht a" and len: "length key < 2 ^ 64 - 57" and sz: "ht_size ht < hashsize (ht_order ht)"
  shows "\<exists>rel ht'. hashtable_set H g (Some a) ht key v = Some (0, rel, ht') \<and> ht_rep H ht' (set_member key v (members ht ps)) \<and>
    rel = (case map_of (members ht ps) key of None \<Rightarrow> [] | Some w \<Rightarrow> [w])"
proof (cases "List.find (\<lambda>a. pr_key (the (ht_pairs ht a)) = key) ps")
  case None
  then have k: "key \<notin> (\<lambda>a. pr_key (the (ht_pairs ht a))) ` set ps" by (auto simp: find_None_iff)
  from insert_pair_rep [OF h a k len sz, of v] obtain ht1 ht2 s bs' ix' where
    r: "init_pair ht (Some a) v key (H key) = Some (Some (a, ht1))"
    "insert_to_bucket ht1 (H key AND hashmask (ht_order ht)) a = Some ht2"
    "list_insert (ht_nodes ht2) ORDERED (a + ordered_off) = Some s"
    "hrep H (ht2\<lparr>ht_nodes := s, ht_size := ht_size ht2 + 1\<rparr>) bs' ix' (ps @ [a])"
    "ht_pairs ht2 = (ht_pairs ht)(a \<mapsto> \<lparr>pr_hash = H key, pr_value = v, pr_key = key\<rparr>)" by blast
  let ?r = "ht2\<lparr>ht_nodes := s, ht_size := ht_size ht2 + 1\<rparr>"
  have "a \<notin> set ps"
  proof
    assume "a \<in> set ps"
    then have "valid (ht_nodes ht) a" using h by (auto simp: hrep_def lrep_def intro: dll_valid)
    then show False using a by (simp add: fresh_def valid_def)
  qed
  then have "members ?r (ps @ [a]) = members ht ps @ [(key, v)]" using r(5) by (auto simp: members_def)
  moreover have nk: "key \<notin> fst ` set (members ht ps)" using k by (auto simp: members_def)
  ultimately have "ht_rep H ?r (set_member key v (members ht ps))"
    using r(4) set_member_new [OF nk] unfolding ht_rep_def by metis
  moreover have "hashtable_set H g (Some a) ht key v = Some (0, [], ?r)"
    using r(1-3) sz None by (simp add: hashtable_set_def Let_def find_pair_hrep [OF h])
  ultimately show ?thesis using nk by (auto simp: map_of_eq_None_iff [symmetric])
next
  case (Some b)
  then have b: "b \<in> set ps" "pr_key (the (ht_pairs ht b)) = key" by (auto simp: find_Some_iff)
  obtain p where p: "ht_pairs ht b = Some p" using hrep_pair [OF h b(1)] by blast
  let ?r = "ht\<lparr>ht_pairs := (ht_pairs ht)(b \<mapsto> p\<lparr>pr_value := v\<rparr>)\<rparr>"
  have "members ?r ps = set_member key v (members ht ps)"
    using members_update_value [OF _ b(1) p, of v] h b p by (simp add: hrep_def)
  then have "ht_rep H ?r (set_member key v (members ht ps))"
    using hrep_value [OF h p, of v] unfolding ht_rep_def by metis
  moreover have "hashtable_set H g (Some a) ht key v = Some (0, [pr_value p], ?r)"
    using sz Some p by (simp add: hashtable_set_def Let_def find_pair_hrep [OF h])
  ultimately show ?thesis using Some p by (auto simp: find_map_of)
qed

text \<open>With the bucket array obtained when it is needed, and a fresh pair, insertion succeeds.\<close>

lemma hashtable_set_rep:
  assumes h: "ht_rep H ht ms" and a: "fresh ht a" and len: "length key < 2 ^ 64 - 57"
  shows "\<exists>rel ht'. hashtable_set H True (Some a) ht key v = Some (0, rel, ht') \<and> ht_rep H ht' (set_member key v ms) \<and>
    rel = (case map_of ms key of None \<Rightarrow> [] | Some w \<Rightarrow> [w])"
proof -
  from h obtain bs ix ps where h: "hrep H ht bs ix ps" and ms: "ms = members ht ps" by (auto simp: ht_rep_def)
  show ?thesis
  proof (cases "ht_size ht < hashsize (ht_order ht)")
    case True
    then show ?thesis using hashtable_set_hrep [OF h a len True, of True v] ms by simp
  next
    case False
    obtain s b bs' ix' where r: "hashtable_do_rehash True ht = Some (0, ht\<lparr>ht_order := ht_order ht + 1, ht_nodes := s, ht_buckets := b\<rparr>)"
      "hrep H (ht\<lparr>ht_order := ht_order ht + 1, ht_nodes := s, ht_buckets := b\<rparr>) bs' ix' ps"
      "\<forall>q. q \<notin> insert LIST (set ps) \<longrightarrow> s q = ht_nodes ht q"
      using hashtable_do_rehash_rep [OF h] by blast
    let ?ht = "ht\<lparr>ht_order := ht_order ht + 1, ht_nodes := s, ht_buckets := b\<rparr>"
    have "ht_size ht \<le> 2 ^ ht_order ht" using h by (simp add: hrep_def hashsize_def)
    then have "ht_size ht < 2 * 2 ^ ht_order ht" using zero_less_power [of "2 :: nat" "ht_order ht"] by linarith
    then have sz: "ht_size ?ht < hashsize (ht_order ?ht)" by (simp add: hashsize_def)
    have "q \<notin> insert LIST (set ps)" if "ht_nodes ht q = None" for q
      using h that dll_valid [of "ht_nodes ht" LIST "ring bs ix" q] by (auto simp: hrep_def lrep_def valid_def)
    then have "fresh ?ht a" using a r(3) by (simp add: fresh_def)
    from hashtable_set_hrep [OF r(2) this len sz, of True v]
    have "\<exists>rel ht'. hashtable_set H True (Some a) ?ht key v = Some (0, rel, ht') \<and> ht_rep H ht' (set_member key v ms) \<and>
      rel = (case map_of ms key of None \<Rightarrow> [] | Some w \<Rightarrow> [w])"
      by (simp add: ms members_def)
    moreover have "hashtable_set H True (Some a) ht key v = hashtable_set H True (Some a) ?ht key v"
      using False sz r(1) by (simp add: hashtable_set_def)
    ultimately show ?thesis by simp
  qed
qed

lemma ring_neighbours:
  assumes d: "dll s LIST (us @ (xs @ a # ys) @ vs)"
  shows "ys \<noteq> [] \<Longrightarrow> rd_next s a = Some (hd ys)" "xs \<noteq> [] \<Longrightarrow> rd_prev s a = Some (last xs)"
proof -
  show "rd_next s a = Some (hd ys)" if "ys \<noteq> []"
    using d that seg_append [of s LIST "us @ xs" a "ys @ vs" LIST] by (cases ys) (auto simp: dll_def)
  have "dll s a (ys @ vs @ LIST # us @ xs)" using d dll_rotate [of s LIST "us @ xs" a "ys @ vs"] by simp
  then show "rd_prev s a = Some (last xs)" if "xs \<noteq> []" using dll_prev that by fastforce
qed

text \<open>Unlinking a pair from its bucket.\<close>

lemma unlink_bucket:
  assumes L: "lrep ht bs ix" and i: "i < length bs" and xy: "bs ! i = xs @ a # ys"
  shows "\<exists>s us vs. (if a = fst (bucket_of (bs ! i)) \<and> a = snd (bucket_of (bs ! i)) then Some (LIST, LIST)
        else if a = fst (bucket_of (bs ! i)) then do { n \<leftarrow> rd_next (ht_nodes ht) a; Some (n, snd (bucket_of (bs ! i))) }
        else if a = snd (bucket_of (bs ! i)) then do { q \<leftarrow> rd_prev (ht_nodes ht) a; Some (fst (bucket_of (bs ! i)), q) }
        else Some (bucket_of (bs ! i))) = Some (bucket_of (xs @ ys)) \<and>
    list_remove (ht_nodes ht) a = Some s \<and> dll s LIST (ring (bs[i := xs @ ys]) ix) \<and>
    ring bs ix = us @ a # vs \<and> ring (bs[i := xs @ ys]) ix = us @ vs \<and>
    (\<forall>q. q \<notin> insert LIST (set (us @ vs)) \<longrightarrow> s q = ht_nodes ht q)"
proof -
  have "i \<in> set ix" and D: "dll (ht_nodes ht) LIST (ring bs ix)" using L i xy by (auto simp: lrep_def)
  with L i obtain us vs where sp: "ring bs ix = us @ bs ! i @ vs" "\<And>zs. ring (bs[i := zs]) ix = us @ zs @ vs"
    using ring_split [of ix i bs] unfolding lrep_def by metis
  have D': "dll (ht_nodes ht) LIST (us @ (xs @ a # ys) @ vs)" using D sp(1) xy by simp
  note N = ring_neighbours [OF D']
  have dist: "distinct (xs @ a # ys)" using D' by (auto simp: dll_def)
  have "(if a = fst (bucket_of (bs ! i)) \<and> a = snd (bucket_of (bs ! i)) then Some (LIST, LIST)
        else if a = fst (bucket_of (bs ! i)) then do { n \<leftarrow> rd_next (ht_nodes ht) a; Some (n, snd (bucket_of (bs ! i))) }
        else if a = snd (bucket_of (bs ! i)) then do { q \<leftarrow> rd_prev (ht_nodes ht) a; Some (fst (bucket_of (bs ! i)), q) }
        else Some (bucket_of (bs ! i))) = Some (bucket_of (xs @ ys))"
    using N dist last_in_set [of ys] hd_in_set [of xs] unfolding xy
    by (cases "xs = []"; cases "ys = []") (auto simp: bucket_of_def)
  moreover have "dll (ht_nodes ht) LIST ((us @ xs) @ a # (ys @ vs))" using D' by simp
  from list_remove_dll [OF this] obtain s where "list_remove (ht_nodes ht) a = Some s" "dll s LIST ((us @ xs) @ ys @ vs)"
    "\<forall>q. q \<notin> {LIST} \<union> set (us @ xs) \<union> set (ys @ vs) \<longrightarrow> s q = ht_nodes ht q" by blast
  ultimately show ?thesis using sp xy
    by - (rule exI [of _ s], rule exI [of _ "us @ xs"], rule exI [of _ "ys @ vs"], auto)
qed

lemma del_pair_rep:
  assumes h: "hrep H ht bs ix (qs @ a # rs)" and i: "i < length bs" and xy: "bs ! i = xs @ a # ys"
    and s1: "list_remove (ht_nodes ht) a = Some s1" "dll s1 LIST (ring (bs[i := xs @ ys]) ix)"
    "ring bs ix = us @ a # vs" "ring (bs[i := xs @ ys]) ix = us @ vs" "\<forall>q. q \<notin> insert LIST (set (us @ vs)) \<longrightarrow> s1 q = ht_nodes ht q"
  shows "\<exists>s2. list_remove s1 (off a) = Some s2 \<and>
    hrep H (free_pair (ht\<lparr>ht_buckets := (ht_buckets ht)[i := bucket_of (xs @ ys)], ht_nodes := s2, ht_size := ht_size ht - 1\<rparr>) a)
      (bs[i := xs @ ys]) ix (qs @ rs)"
proof -
  let ?ps = "qs @ a # rs"
  have L: "lrep ht bs ix" and D: "dll (ht_nodes ht) LIST (us @ a # vs)" and O: "dll (ht_nodes ht) ORDERED (map off ?ps)"
    and st: "set (us @ a # vs) = set ?ps" and dj: "insert LIST (set ?ps) \<inter> insert ORDERED (off ` set ?ps) = {}"
    using h s1(3) by (auto simp: hrep_def lrep_def)
  have dps: "distinct ?ps" "distinct (us @ a # vs)" using O D by (auto simp: dll_def distinct_map inj_on_def)
  then have uv: "set (us @ vs) = set (qs @ rs)" using st by (auto simp: set_eq_iff)
  then have sub: "set (us @ vs) \<subseteq> set ?ps" by auto
  have "q \<notin> insert LIST (set (us @ vs))" if "q \<in> insert ORDERED (set (map off ?ps))" for q
    using that dj sub unfolding set_map by blast
  then have "dll s1 ORDERED (map off qs @ off a # map off rs)"
    using dll_frame [OF O, of s1] s1(5) by auto
  from list_remove_dll [OF this] obtain s2 where s2: "list_remove s1 (off a) = Some s2" "dll s2 ORDERED (map off qs @ map off rs)"
    "\<forall>q. q \<notin> {ORDERED} \<union> set (map off qs) \<union> set (map off rs) \<longrightarrow> s2 q = s1 q" by blast
  let ?s = "s2(a := None, off a := None)"
  let ?r = "free_pair (ht\<lparr>ht_buckets := (ht_buckets ht)[i := bucket_of (xs @ ys)], ht_nodes := s2, ht_size := ht_size ht - 1\<rparr>) a"
  have r: "ht_nodes ?r = ?s" "ht_pairs ?r = (ht_pairs ht)(a := None)" "ht_buckets ?r = (ht_buckets ht)[i := bucket_of (xs @ ys)]"
    "ht_order ?r = ht_order ht" "ht_size ?r = ht_size ht - 1" by (simp_all add: free_pair_def off_def)
  have out: "a \<notin> insert LIST (set (qs @ rs))" "off a \<notin> insert LIST (set (qs @ rs))"
    "a \<notin> insert ORDERED (off ` set (qs @ rs))" "off a \<notin> insert ORDERED (off ` set (qs @ rs))"
    using dj dps D O by (auto simp: dll_def)
  have dj': "insert LIST (set (qs @ rs)) \<inter> insert ORDERED (off ` set (qs @ rs)) = {}" using dj by auto
  have "dll ?s LIST (us @ vs)"
  proof (rule dll_frame)
    show "dll s1 LIST (us @ vs)" using s1(2,4) by simp
    have m: "{ORDERED} \<union> set (map off qs) \<union> set (map off rs) = insert ORDERED (off ` set (qs @ rs))" by auto
    have "q \<notin> {ORDERED} \<union> set (map off qs) \<union> set (map off rs) \<and> q \<noteq> a \<and> q \<noteq> off a" if "q \<in> insert LIST (set (us @ vs))" for q
      using that dj' out(1,2) unfolding m uv by blast
    then show "\<forall>q \<in> insert LIST (set (us @ vs)). ?s q = s1 q" using s2(3) by simp
  qed
  then have "lrep ?r (bs[i := xs @ ys]) ix"
    using L i xy s1(4) unfolding lrep_def r by (auto simp: bucket_of_update nth_list_update split: if_splits)
  moreover have "dll ?s ORDERED (map off (qs @ rs))"
    by (rule dll_frame) (use s2(2) out in auto)
  moreover have "spread H ?r (bs[i := xs @ ys])"
  proof -
    have sp: "spread H ht bs" using h by (simp add: hrep_def)
    have "b \<noteq> a" if "j < length bs" "b \<in> set ((bs[i := xs @ ys]) ! j)" for b j
    proof -
      have "b \<in> set (us @ vs)" using that ring_mem [OF \<open>lrep ?r (bs[i := xs @ ys]) ix\<close>, of b] s1(4) by auto
      then show ?thesis using dps by auto
    qed
    moreover have "set ((bs[i := xs @ ys]) ! j) \<subseteq> set (bs ! j)" if "j < length bs" for j
      using xy that by (cases "i = j") auto
    ultimately show ?thesis using sp unfolding spread_def r by (simp add: subset_iff)
  qed
  moreover have "distinct (map (\<lambda>x. pr_key (the (ht_pairs ?r x))) (qs @ rs))"
  proof -
    have "map (\<lambda>x. pr_key (the (ht_pairs ?r x))) (qs @ rs) = map (\<lambda>x. pr_key (the (ht_pairs ht x))) (qs @ rs)"
      unfolding r using dps by auto
    moreover have "distinct (map (\<lambda>x. pr_key (the (ht_pairs ht x))) (qs @ rs))" using h by (auto simp: hrep_def)
    ultimately show ?thesis by (simp only:)
  qed
  moreover have "dom (ht_pairs ?r) = set (qs @ rs)" unfolding r using h dps by (auto simp: hrep_def)
  moreover note dj'
  ultimately have "hrep H ?r (bs[i := xs @ ys]) ix (qs @ rs)"
    using h uv s1(4) unfolding hrep_def r by (simp only: set_append length_append) simp
  then show ?thesis using s2(1) by blast
qed

lemma hashtable_del_rep:
  assumes h: "ht_rep H ht ms"
  shows "\<exists>rel ht'. hashtable_del H ht key = Some (if map_of ms key = None then -1 else 0, rel, ht') \<and>
    ht_rep H ht' (filter (\<lambda>m. fst m \<noteq> key) ms) \<and> rel = (case map_of ms key of None \<Rightarrow> [] | Some w \<Rightarrow> [w])"
proof -
  from h obtain bs ix ps where h: "hrep H ht bs ix ps" and ms: "ms = members ht ps" by (auto simp: ht_rep_def)
  let ?i = "H key AND hashmask (ht_order ht)"
  have L: "lrep ht bs ix" and D: "dll (ht_nodes ht) LIST (ring bs ix)" and O: "dll (ht_nodes ht) ORDERED (map off ps)"
    and rs: "set (ring bs ix) = set ps" and dj: "insert LIST (set ps) \<inter> insert ORDERED (off ` set ps) = {}"
    using h by (auto simp: hrep_def lrep_def)
  have i: "?i < length bs" by (rule hrep_index [OF h])
  note B = lrep_bucket_empty [OF L i]
  show ?thesis
  proof (cases "List.find (\<lambda>a. pr_key (the (ht_pairs ht a)) = key) ps")
    case None
    then have "map_of ms key = None" "\<forall>m \<in> set ms. fst m \<noteq> key"
      by (auto simp: ms find_map_of find_None_iff) (auto simp: members_def)
    moreover have "ht_rep H ht ms" using assms .
    ultimately show ?thesis using None B
      by (simp add: hashtable_del_def hashtable_do_del_def Let_def find_pair_hrep [OF h] filter_id_conv)
  next
    case (Some a)
    then have a: "a \<in> set ps" "pr_key (the (ht_pairs ht a)) = key" by (auto simp: find_Some_iff)
    obtain p where p: "ht_pairs ht a = Some p" "pr_key p = key" using hrep_pair [OF h a(1)] a(2) by auto
    have "a \<in> set (bs ! ?i)" using hrep_pair [OF h a(1)] p by auto
    then obtain xs ys where xy: "bs ! ?i = xs @ a # ys" by (auto dest: split_list)
    from a obtain qs rs' where ps: "ps = qs @ a # rs'" by (auto dest: split_list)
    from unlink_bucket [OF L i xy] obtain s1 us vs where u: "(if a = fst (bucket_of (bs ! ?i)) \<and> a = snd (bucket_of (bs ! ?i)) then Some (LIST, LIST)
        else if a = fst (bucket_of (bs ! ?i)) then do { n \<leftarrow> rd_next (ht_nodes ht) a; Some (n, snd (bucket_of (bs ! ?i))) }
        else if a = snd (bucket_of (bs ! ?i)) then do { q \<leftarrow> rd_prev (ht_nodes ht) a; Some (fst (bucket_of (bs ! ?i)), q) }
        else Some (bucket_of (bs ! ?i))) = Some (bucket_of (xs @ ys))"
      "list_remove (ht_nodes ht) a = Some s1" "dll s1 LIST (ring (bs[?i := xs @ ys]) ix)" "ring bs ix = us @ a # vs"
      "ring (bs[?i := xs @ ys]) ix = us @ vs" "\<forall>q. q \<notin> insert LIST (set (us @ vs)) \<longrightarrow> s1 q = ht_nodes ht q" by blast
    from del_pair_rep [OF h [unfolded ps] i xy u(2-6)] obtain s2 where s2: "list_remove s1 (off a) = Some s2"
      "hrep H (free_pair (ht\<lparr>ht_buckets := (ht_buckets ht)[?i := bucket_of (xs @ ys)], ht_nodes := s2, ht_size := ht_size ht - 1\<rparr>) a)
      (bs[?i := xs @ ys]) ix (qs @ rs')" by blast
    let ?r = "free_pair (ht\<lparr>ht_buckets := (ht_buckets ht)[?i := bucket_of (xs @ ys)], ht_nodes := s2, ht_size := ht_size ht - 1\<rparr>) a"
    have "hashtable_del H ht key = Some (0, [pr_value p], ?r)"
      using B Some p u(1,2) s2(1)
      by (simp add: hashtable_del_def hashtable_do_del_def Let_def find_pair_hrep [OF h] off_def) (simp add: free_pair_def)
    moreover have "members ?r (qs @ rs') = filter (\<lambda>m. fst m \<noteq> key) ms"
    proof -
      have "distinct (map (\<lambda>x. pr_key (the (ht_pairs ht x))) ps)" using h by (simp add: hrep_def)
      then have k: "key \<notin> fst ` set (members ht (qs @ rs'))" "a \<notin> set (qs @ rs')" using a by (auto simp: ps members_def)
      then have "filter (\<lambda>m. fst m \<noteq> key) (members ht (qs @ rs')) = members ht (qs @ rs')" by (intro filter_True) auto
      moreover have "filter (\<lambda>m. fst m \<noteq> key) ms = filter (\<lambda>m. fst m \<noteq> key) (members ht (qs @ rs'))"
        using a by (simp add: ms ps members_def)
      ultimately show ?thesis using k(2) by (auto simp: members_def free_pair_def)
    qed
    ultimately have "ht_rep H ?r (filter (\<lambda>m. fst m \<noteq> key) ms)" "hashtable_del H ht key = Some (0, [pr_value p], ?r)"
      using s2(2) unfolding ht_rep_def by metis+
    then show ?thesis using Some p by (simp add: ms find_map_of)
  qed
qed

lemma clear_loop_ok:
  assumes "path (ht_nodes ht) (zs @ [LIST])" "distinct zs" "LIST \<notin> set zs" "set zs \<subseteq> dom (ht_pairs ht)"
    "\<forall>z \<in> set zs. off z \<notin> insert LIST (set zs)" "valid (ht_nodes ht) LIST" "valid (ht_nodes ht) ORDERED" "ORDERED \<notin> set zs \<union> off ` set zs"
  shows "\<exists>ht'. clear_loop (hd (zs @ [LIST])) ht acc = Some (acc @ map (\<lambda>a. pr_value (the (ht_pairs ht a))) zs, ht') \<and>
    ht_pairs ht' = ht_pairs ht |` (- set zs) \<and> valid (ht_nodes ht') LIST \<and> valid (ht_nodes ht') ORDERED \<and>
    ht_order ht' = ht_order ht"
  using assms
proof (induction zs arbitrary: ht acc)
  case Nil
  then show ?case by (subst clear_loop.simps) (auto simp: restrict_map_def)
next
  case (Cons z zs)
  obtain p where p: "ht_pairs ht z = Some p" using Cons.prems(4) by auto
  let ?ht = "free_pair ht z"
  have f: "ht_nodes ?ht = (ht_nodes ht)(z := None, off z := None)" "ht_pairs ?ht = (ht_pairs ht)(z := None)" "ht_order ?ht = ht_order ht"
    by (simp_all add: free_pair_def off_def)
  have n: "rd_next (ht_nodes ht) z = Some (hd (zs @ [LIST]))" using Cons.prems(1) by (cases zs) auto
  have q: "\<forall>q \<in> set zs. ht_nodes ?ht q = ht_nodes ht q" using Cons.prems(2,5) by (auto simp: f)
  have "path (ht_nodes ht) (zs @ [LIST])" using Cons.prems(1) by simp
  from path_frame [OF this q] have "path (ht_nodes ?ht) (zs @ [LIST])" .
  moreover have "valid (ht_nodes ?ht) LIST" "valid (ht_nodes ?ht) ORDERED"
    using Cons.prems(3,5-8) by (auto simp: f valid_def)
  moreover have "set zs \<subseteq> dom (ht_pairs ?ht)" using Cons.prems(2,4) by (auto simp: f)
  ultimately have "\<exists>ht'. clear_loop (hd (zs @ [LIST])) ?ht (acc @ [pr_value p]) =
      Some ((acc @ [pr_value p]) @ map (\<lambda>a. pr_value (the (ht_pairs ?ht a))) zs, ht') \<and>
    ht_pairs ht' = ht_pairs ?ht |` (- set zs) \<and> valid (ht_nodes ht') LIST \<and> valid (ht_nodes ht') ORDERED \<and> ht_order ht' = ht_order ?ht"
    using Cons.prems by (intro Cons.IH) auto
  moreover have "map (\<lambda>a. pr_value (the (ht_pairs ?ht a))) zs = map (\<lambda>a. pr_value (the (ht_pairs ht a))) zs"
    using Cons.prems(2) by (auto simp: f)
  moreover have "clear_loop z ht acc = clear_loop (hd (zs @ [LIST])) ?ht (acc @ [pr_value p])"
    using n p Cons.prems(3) by (subst clear_loop.simps) (simp add: list_to_pair_def)
  moreover have "ht_pairs ?ht |` (- set zs) = ht_pairs ht |` (- set (z # zs))"
    by (auto simp: f restrict_map_def)
  ultimately show ?case using p f(3) by simp
qed

lemma empty_hrep:
  assumes "dll s LIST []" "dll s ORDERED []" "ht_nodes ht = s" "ht_pairs ht = Map.empty" "ht_size ht = 0"
    "ht_buckets ht = replicate (hashsize (ht_order ht)) (LIST, LIST)"
  shows "ht_rep H ht []"
proof -
  have "hrep H ht (replicate (hashsize (ht_order ht)) []) [] []"
    using assms by (simp add: hrep_def lrep_def ring_def bucket_of_def spread_def LIST_def ORDERED_def)
  then show ?thesis by (auto simp: ht_rep_def members_def)
qed

lemma init_lists:
  assumes "valid s LIST" "valid s ORDERED"
  shows "\<exists>s1 s2. list_init s LIST = Some s1 \<and> list_init s1 ORDERED = Some s2 \<and> dll s2 LIST [] \<and> dll s2 ORDERED []"
proof -
  obtain s1 where s1: "list_init s LIST = Some s1" "dll s1 LIST []" "\<forall>q. valid s1 q = valid s q" using list_init_dll [OF assms(1)] by blast
  obtain s2 where s2: "list_init s1 ORDERED = Some s2" "dll s2 ORDERED []" "\<forall>q. q \<noteq> ORDERED \<longrightarrow> s2 q = s1 q"
    using list_init_dll [of s1 ORDERED] s1(3) assms(2) by blast
  have "dll s2 LIST []" using dll_frame [OF s1(2), of s2] s2(3) by (simp add: LIST_def ORDERED_def)
  then show ?thesis using s1 s2 by blast
qed

lemma hashtable_do_clear_rep:
  assumes h: "ht_rep H ht ms"
  shows "\<exists>vs ht'. hashtable_do_clear ht = Some (vs, ht') \<and> mset vs = mset (map snd ms) \<and> ht_pairs ht' = Map.empty \<and>
    valid (ht_nodes ht') LIST \<and> valid (ht_nodes ht') ORDERED \<and> ht_order ht' = ht_order ht"
proof -
  from h obtain bs ix ps where h: "hrep H ht bs ix ps" and ms: "ms = members ht ps" by (auto simp: ht_rep_def)
  let ?r = "ring bs ix"
  have D: "dll (ht_nodes ht) LIST ?r" and O: "dll (ht_nodes ht) ORDERED (map off ps)" and rs: "set ?r = set ps"
    and dj: "insert LIST (set ps) \<inter> insert ORDERED (off ` set ps) = {}" and dom: "dom (ht_pairs ht) = set ps"
    using h unfolding hrep_def lrep_def by blast+
  have pa: "path (ht_nodes ht) (?r @ [LIST])" using D seg_path [of "ht_nodes ht" LIST ?r LIST] by (simp add: dll_def)
  have d: "distinct ?r" "LIST \<notin> set ?r" "distinct ps" "ORDERED \<notin> set (map off ps)" using D O by (auto simp: dll_def distinct_map inj_on_def)
  have v: "valid (ht_nodes ht) LIST" "valid (ht_nodes ht) ORDERED" using D O by (auto intro: dll_valid)
  have o: "\<forall>z \<in> set ?r. off z \<notin> insert LIST (set ?r)" "ORDERED \<notin> set ?r \<union> off ` set ?r"
    using dj d(4) rs unfolding set_map by blast+
  have "\<exists>ht'. clear_loop (hd (?r @ [LIST])) ht [] = Some ([] @ map (\<lambda>a. pr_value (the (ht_pairs ht a))) ?r, ht') \<and>
    ht_pairs ht' = ht_pairs ht |` (- set ?r) \<and> valid (ht_nodes ht') LIST \<and> valid (ht_nodes ht') ORDERED \<and> ht_order ht' = ht_order ht"
    using pa d v o dom rs by (intro clear_loop_ok) auto
  moreover have "rd_next (ht_nodes ht) LIST = Some (hd (?r @ [LIST]))" using D by (cases ?r) (auto simp: dll_def)
  moreover have "mset ?r = mset ps" using d rs by (simp add: set_eq_iff_mset_eq_distinct)
  then have "mset (map (\<lambda>a. pr_value (the (ht_pairs ht a))) ?r) = mset (map snd ms)" by (simp add: ms members_def comp_def)
  moreover have "ht_pairs ht |` (- set ?r) = Map.empty"
    by (rule ext) (simp add: restrict_map_def rs dom [symmetric] domIff)
  ultimately show ?thesis by (auto simp: hashtable_do_clear_def)
qed

lemma hashtable_clear_rep:
  assumes "ht_rep H ht ms"
  shows "\<exists>vs ht'. hashtable_clear ht = Some (vs, ht') \<and> ht_rep H ht' [] \<and> mset vs = mset (map snd ms)"
proof -
  obtain vs ht1 where c: "hashtable_do_clear ht = Some (vs, ht1)" "mset vs = mset (map snd ms)" "ht_pairs ht1 = Map.empty"
    "valid (ht_nodes ht1) LIST" "valid (ht_nodes ht1) ORDERED" "ht_order ht1 = ht_order ht"
    using hashtable_do_clear_rep [OF assms] by blast
  from init_lists [OF c(4,5)] obtain s1 s2 where s: "list_init (ht_nodes ht1) LIST = Some s1" "list_init s1 ORDERED = Some s2"
    "dll s2 LIST []" "dll s2 ORDERED []" by blast
  let ?r = "ht1\<lparr>ht_buckets := replicate (hashsize (ht_order ht1)) (LIST, LIST), ht_nodes := s2, ht_size := 0\<rparr>"
  have "ht_rep H ?r []" by (rule empty_hrep [OF s(3,4)]) (simp_all add: c)
  moreover have "hashtable_clear ht = Some (vs, ?r)" using c(1) s by (simp add: hashtable_clear_def Let_def)
  ultimately show ?thesis using c(2) by blast
qed

lemma hashtable_close_rep:
  assumes "ht_rep H ht ms"
  shows "\<exists>vs. hashtable_close ht = Some vs \<and> mset vs = mset (map snd ms)"
  using hashtable_do_clear_rep [OF assms] by (auto simp: hashtable_close_def)

lemma hashtable_init_rep: "\<exists>ht. hashtable_init True = Some (Some ht) \<and> ht_rep H ht []"
proof -
  let ?n = "\<lparr>n_prev = 0, n_next = 0\<rparr>" let ?s = "[LIST \<mapsto> ?n, ORDERED \<mapsto> ?n]"
  have "valid ?s LIST" "valid ?s ORDERED" by (simp_all add: valid_def LIST_def ORDERED_def)
  from init_lists [OF this] obtain s1 s2 where s: "list_init ?s LIST = Some s1" "list_init s1 ORDERED = Some s2"
    "dll s2 LIST []" "dll s2 ORDERED []" by blast
  let ?r = "\<lparr>ht_size = 0, ht_buckets = replicate (hashsize INITIAL_HASHTABLE_ORDER) (LIST, LIST), ht_order = INITIAL_HASHTABLE_ORDER,
    ht_nodes = s2, ht_pairs = Map.empty\<rparr>"
  have "ht_rep H ?r []" by (rule empty_hrep [OF s(3,4)]) simp_all
  moreover have "hashtable_init True = Some (Some ?r)" using s by (simp add: hashtable_init_def Let_def)
  ultimately show ?thesis by blast
qed

section \<open>Iteration\<close>

text \<open>The keys and values an iteration from \<open>iter\<close> on visits.\<close>

partial_function (option) iterate :: "'v hashtable_t \<Rightarrow> nat \<Rightarrow> (int list \<times> 'v) list option" where
  "iterate ht iter =
     (if iter = 0 then Some []
      else do {
        k \<leftarrow> hashtable_iter_key ht iter;
        v \<leftarrow> hashtable_iter_value ht iter;
        n \<leftarrow> hashtable_iter_next ht iter;
        r \<leftarrow> iterate ht n;
        Some ((k, v) # r) })"

declare iterate.simps [code]

lemma iterate_path:
  assumes "path (ht_nodes ht) (map off zs @ [ORDERED])" "set zs \<subseteq> dom (ht_pairs ht)" "ORDERED \<notin> off ` set zs"
  shows "iterate ht (hd (map off zs @ [0])) = Some (members ht zs)"
  using assms
proof (induction zs)
  case Nil
  then show ?case by (subst iterate.simps) (simp add: members_def)
next
  case (Cons z zs)
  obtain p where p: "ht_pairs ht z = Some p" using Cons.prems(2) by auto
  have z: "off z \<noteq> 0" "ordered_list_to_pair (off z) = z" by (simp_all add: off_def ordered_off_def ordered_list_to_pair_def)
  have "hashtable_iter_next ht (off z) = Some (hd (map off zs @ [0]))"
    using Cons.prems(1,3) by (cases zs) (auto simp: hashtable_iter_next_def)
  with Cons p z show ?case
    by (subst iterate.simps) (simp add: hashtable_iter_key_def hashtable_iter_value_def members_def)
qed

lemma iterate_rep:
  assumes h: "ht_rep H ht ms"
  shows "\<exists>i. hashtable_iter ht = Some i \<and> iterate ht i = Some ms"
proof -
  from h obtain bs ix ps where h: "hrep H ht bs ix ps" and ms: "ms = members ht ps" by (auto simp: ht_rep_def)
  have O: "dll (ht_nodes ht) ORDERED (map off ps)" and dom: "dom (ht_pairs ht) = set ps" using h unfolding hrep_def by blast+
  then have "path (ht_nodes ht) (map off ps @ [ORDERED])" "ORDERED \<notin> off ` set ps"
    using seg_path [of "ht_nodes ht" ORDERED "map off ps" ORDERED] by (auto simp: dll_def)
  from iterate_path [OF this(1) _ this(2)] dom have "iterate ht (hd (map off ps @ [0])) = Some ms" by (simp add: ms)
  moreover have "hashtable_iter ht = Some (hd (map off ps @ [0]))"
    using O by (cases ps) (auto simp: hashtable_iter_def hashtable_iter_next_def dll_def)
  ultimately show ?thesis by blast
qed

lemma hashtable_iter_at_rep:
  assumes h: "ht_rep H ht ms"
  shows "\<exists>i. hashtable_iter_at H ht key = Some i \<and> (case map_of ms key of None \<Rightarrow> i = 0
    | Some v \<Rightarrow> hashtable_iter_key ht i = Some key \<and> hashtable_iter_key_len ht i = Some (length key) \<and> hashtable_iter_value ht i = Some v \<and>
        (\<forall>w. \<exists>ht'. hashtable_iter_set ht i w = Some ([v], ht') \<and> ht_rep H ht' (set_member key w ms)))"
proof -
  from h obtain bs ix ps where h: "hrep H ht bs ix ps" and ms: "ms = members ht ps" by (auto simp: ht_rep_def)
  show ?thesis
  proof (cases "List.find (\<lambda>a. pr_key (the (ht_pairs ht a)) = key) ps")
    case None
    then show ?thesis by (simp add: hashtable_iter_at_def Let_def find_pair_hrep [OF h] ms find_map_of)
  next
    case (Some a)
    then have a: "a \<in> set ps" "pr_key (the (ht_pairs ht a)) = key" by (auto simp: find_Some_iff)
    obtain p where p: "ht_pairs ht a = Some p" "pr_key p = key" using hrep_pair [OF h a(1)] a(2) by auto
    have "ht_rep H (ht\<lparr>ht_pairs := (ht_pairs ht)(a \<mapsto> p\<lparr>pr_value := w\<rparr>)\<rparr>) (set_member key w ms)" for w
      using hrep_value [OF h p(1), of w] members_update_value [OF _ a(1) p(1), of w] h p(2) ms unfolding ht_rep_def hrep_def by metis
    moreover have "ordered_list_to_pair (a + ordered_off) = a" by (simp add: ordered_list_to_pair_def)
    ultimately show ?thesis using Some p
      by (simp add: hashtable_iter_at_def Let_def find_pair_hrep [OF h] ms find_map_of hashtable_iter_key_def
          hashtable_iter_key_len_def hashtable_iter_value_def hashtable_iter_set_def)
  qed
qed

section \<open>The contract of an ordered map\<close>

text \<open>What an object of \<^verbatim>\<open>value.c\<close> relies on. \<open>put\<close> and \<open>del\<close> return the values that leave the map.\<close>

locale ordered_map =
  fixes rep :: "'s \<Rightarrow> (int list \<times> 'v) list \<Rightarrow> bool"
    and usable :: "'s \<Rightarrow> 'a \<Rightarrow> int list \<Rightarrow> bool"
    and get :: "'s \<Rightarrow> int list \<Rightarrow> 'v option option"
    and put :: "'a \<Rightarrow> 's \<Rightarrow> int list \<Rightarrow> 'v \<Rightarrow> (int \<times> 'v list \<times> 's) option"
    and del :: "'s \<Rightarrow> int list \<Rightarrow> (int \<times> 'v list \<times> 's) option"
  assumes rep_distinct: "rep s ms \<Longrightarrow> distinct (map fst ms)"
    and get_law: "rep s ms \<Longrightarrow> get s k = Some (map_of ms k)"
    and put_law: "rep s ms \<Longrightarrow> usable s a k \<Longrightarrow> \<exists>rel s'. put a s k v = Some (0, rel, s') \<and> rep s' (set_member k v ms) \<and>
      rel = (case map_of ms k of None \<Rightarrow> [] | Some w \<Rightarrow> [w])"
    and del_law: "rep s ms \<Longrightarrow> \<exists>rel s'. del s k = Some (if map_of ms k = None then -1 else 0, rel, s') \<and>
      rep s' (filter (\<lambda>m. fst m \<noteq> k) ms) \<and> rel = (case map_of ms k of None \<Rightarrow> [] | Some w \<Rightarrow> [w])"
begin

lemma map_of_set_member: "map_of (set_member k v ms) k' = (if k' = k then Some v else map_of ms k')"
  by (induction ms) auto

lemma mset_set_member:
  "mset (map snd (set_member k v ms)) + mset (case map_of ms k of None \<Rightarrow> [] | Some w \<Rightarrow> [w]) = mset (map snd ms) + {#v#}"
  by (induction ms) (auto simp: union_commute)

lemma mset_filter_key:
  "distinct (map fst ms) \<Longrightarrow>
   mset (map snd (filter (\<lambda>m. fst m \<noteq> k) ms)) + mset (case map_of ms k of None \<Rightarrow> [] | Some w \<Rightarrow> [w]) = mset (map snd ms)"
proof (induction ms)
  case (Cons m ms)
  show ?case
  proof (cases "fst m = k")
    case True
    then have "map_of ms k = None" using Cons.prems by (auto simp: map_of_eq_None_iff)
    with Cons True show ?thesis by (cases m) auto
  next
    case False
    with Cons show ?thesis by (cases m) auto
  qed
qed simp

lemma map_of_filter_key: "map_of (filter (\<lambda>m. fst m \<noteq> k) ms) k' = (if k' = k then None else map_of ms k')"
  by (induction ms) auto

lemma lookup_after_put:
  assumes "rep s ms" "usable s a k"
  shows "\<exists>rel s'. put a s k v = Some (0, rel, s') \<and> get s' k = Some (Some v) \<and> (\<forall>k'. k' \<noteq> k \<longrightarrow> get s' k' = get s k') \<and>
    (\<exists>ms'. rep s' ms' \<and> mset (map snd ms') + mset rel = mset (map snd ms) + {#v#})"
proof -
  obtain rel s' where p: "put a s k v = Some (0, rel, s')" "rep s' (set_member k v ms)"
    "rel = (case map_of ms k of None \<Rightarrow> [] | Some w \<Rightarrow> [w])" using put_law [OF assms] by blast
  then show ?thesis using get_law [OF p(2)] get_law [OF assms(1)] mset_set_member
    by (intro exI [of _ rel] exI [of _ s']) (auto simp: map_of_set_member intro!: exI [of _ "set_member k v ms"])
qed

lemma lookup_after_del:
  assumes "rep s ms"
  shows "\<exists>r rel s'. del s k = Some (r, rel, s') \<and> (r = 0) = (map_of ms k \<noteq> None) \<and> get s' k = Some None \<and>
    (\<forall>k'. k' \<noteq> k \<longrightarrow> get s' k' = get s k') \<and> (\<exists>ms'. rep s' ms' \<and> mset (map snd ms') + mset rel = mset (map snd ms))"
proof -
  obtain rel s' where p: "del s k = Some (if map_of ms k = None then -1 else 0, rel, s')" "rep s' (filter (\<lambda>m. fst m \<noteq> k) ms)"
    "rel = (case map_of ms k of None \<Rightarrow> [] | Some w \<Rightarrow> [w])" using del_law [OF assms] by blast
  then show ?thesis using get_law [OF p(2)] get_law [OF assms] mset_filter_key [OF rep_distinct [OF assms], of k]
    by (intro exI [of _ "if map_of ms k = None then -1 else 0"] exI [of _ rel] exI [of _ s'])
      (auto simp: map_of_filter_key intro!: exI [of _ "filter (\<lambda>m. fst m \<noteq> k) ms"])
qed

end

text \<open>A new pair can be made: the block is outside the table, and the key length does not overflow.\<close>

definition pair_usable :: "'v hashtable_t \<Rightarrow> nat \<Rightarrow> int list \<Rightarrow> bool" where
  "pair_usable ht a key \<longleftrightarrow> fresh ht a \<and> length key < 2 ^ 64 - 57"

lemma ht_rep_distinct: "ht_rep H ht ms \<Longrightarrow> distinct (map fst ms)"
  by (auto simp: ht_rep_def hrep_def members_def comp_def)

interpretation jht: ordered_map "ht_rep H" pair_usable "hashtable_get H" "\<lambda>a. hashtable_set H True (Some a)" "hashtable_del H"
  for H
proof (unfold_locales, goal_cases)
  case 1
  then show ?case by (rule ht_rep_distinct)
next
  case 2
  then show ?case by (rule hashtable_get_rep)
next
  case 3
  then show ?case by (intro hashtable_set_rep) (auto simp: pair_usable_def)
next
  case 4
  then show ?case by (rule hashtable_del_rep)
qed

section \<open>Properties\<close>

text \<open>
  C8. The hash table is an ordered map, for every hash function. In a table that represents the association
  list \<open>ms\<close> (keys distinct, in order of first insertion): an iteration visits exactly \<open>ms\<close>, lookup is
  \<^verbatim>\<open>map_of\<close>; \<^verbatim>\<open>hashtable_set\<close>, rehashing included, replaces in place or appends; \<^verbatim>\<open>hashtable_del\<close> removes the key or returns -1;
  \<^verbatim>\<open>hashtable_clear\<close> empties the table; and the values handed to \<^verbatim>\<open>json_decref\<close> are exactly those that leave it. The loops
  over the buckets end and no list node is accessed after it was freed.\<close>

theorem hashtable_refines_map:
  assumes "ht_rep H ht ms" "fresh ht a" "length key < 2 ^ 64 - 57"
  shows "(\<exists>i. hashtable_iter ht = Some i \<and> iterate ht i = Some ms) \<and> hashtable_get H ht key = Some (map_of ms key) \<and>
    (\<exists>ht'. hashtable_set H True (Some a) ht key v = Some (0, case map_of ms key of None \<Rightarrow> [] | Some w \<Rightarrow> [w], ht') \<and>
       ht_rep H ht' (set_member key v ms)) \<and>
    (\<exists>ht'. hashtable_del H ht key = Some (if map_of ms key = None then -1 else 0, case map_of ms key of None \<Rightarrow> [] | Some w \<Rightarrow> [w], ht') \<and>
       ht_rep H ht' (filter (\<lambda>m. fst m \<noteq> key) ms)) \<and>
    (\<exists>vs ht'. hashtable_clear ht = Some (vs, ht') \<and> ht_rep H ht' [] \<and> mset vs = mset (map snd ms))"
  using iterate_rep [OF assms(1)] hashtable_get_rep [OF assms(1)] hashtable_set_rep [OF assms, of v]
    hashtable_del_rep [OF assms(1)] hashtable_clear_rep [OF assms(1)] by blast

theorem hashtable_refines_map_witness:
  "\<exists>ht :: nat hashtable_t. hashtable_init True = Some (Some ht) \<and>
    (\<exists>ht'. hashtable_set (\<lambda>k. length k) True (Some 100) ht [97] 7 = Some (0, [], ht') \<and> ht_rep (\<lambda>k. length k) ht' [([97], 7)])"
proof -
  let ?n = "\<lparr>n_prev = 0, n_next = 0\<rparr>"
  obtain ht :: "nat hashtable_t" where ht: "hashtable_init True = Some (Some ht)" "ht_rep (\<lambda>k. length k) ht []"
    using hashtable_init_rep by blast
  then have "fresh ht 100"
    by (auto simp: hashtable_init_def list_init_def wr_next_def wr_prev_def set_next_def set_prev_def LIST_def ORDERED_def valid_def
        fresh_def off_def ordered_off_def)
  with hashtable_refines_map [of "\<lambda>k. length k" ht "[]" 100 "[97]" 7] ht show ?thesis by auto
qed

text \<open>
  The laws of lookup and ownership, on the table itself: after \<^verbatim>\<open>hashtable_set\<close> the key maps to the new value, after
  \<^verbatim>\<open>hashtable_del\<close> it is absent, and no other key is affected; and each value is owned exactly once: what the table holds
  afterwards together with what was released is what it held before, plus the value that was put in.\<close>

theorem hashtable_lookup_laws:
  assumes "ht_rep H ht ms" "fresh ht a" "length key < 2 ^ 64 - 57"
  shows "(\<exists>rel ht'. hashtable_set H True (Some a) ht key v = Some (0, rel, ht') \<and> hashtable_get H ht' key = Some (Some v) \<and>
      (\<forall>k'. k' \<noteq> key \<longrightarrow> hashtable_get H ht' k' = hashtable_get H ht k') \<and>
      (\<exists>ms'. ht_rep H ht' ms' \<and> mset (map snd ms') + mset rel = mset (map snd ms) + {#v#})) \<and>
    (\<exists>r rel ht'. hashtable_del H ht key = Some (r, rel, ht') \<and> (r = 0) = (map_of ms key \<noteq> None) \<and> hashtable_get H ht' key = Some None \<and>
      (\<forall>k'. k' \<noteq> key \<longrightarrow> hashtable_get H ht' k' = hashtable_get H ht k') \<and>
      (\<exists>ms'. ht_rep H ht' ms' \<and> mset (map snd ms') + mset rel = mset (map snd ms)))"
  using jht.lookup_after_put [OF assms(1), of a key v] jht.lookup_after_del [OF assms(1), of key] assms(2,3)
  by (simp add: pair_usable_def)

theorem hashtable_lookup_laws_witness:
  "\<exists>ht :: nat hashtable_t. hashtable_init True = Some (Some ht) \<and>
    (\<exists>rel ht'. hashtable_set (\<lambda>k. 0) True (Some 100) ht [98] 5 = Some (0, rel, ht') \<and> hashtable_get (\<lambda>k. 0) ht' [98] = Some (Some 5))"
proof -
  obtain ht :: "nat hashtable_t" where ht: "hashtable_init True = Some (Some ht)" "ht_rep (\<lambda>k. 0) ht []"
    using hashtable_init_rep by blast
  then have "fresh ht 100"
    by (auto simp: hashtable_init_def list_init_def wr_next_def wr_prev_def set_next_def set_prev_def LIST_def ORDERED_def valid_def
        fresh_def off_def ordered_off_def)
  with hashtable_lookup_laws [of "\<lambda>k. 0" ht "[]" 100 "[98]" 5] ht show ?thesis by auto
qed

text \<open>
  A failed allocation leaves the map as it was: when the bucket array for a full table cannot be had,
  \<^verbatim>\<open>hashtable_set\<close> returns -1 and the table is unchanged; when a new pair cannot be made it returns -1, releases
  nothing and the table, rehashed or not, still represents the same map, so a caller that keeps its
  reference to the value owns it.\<close>

theorem hashtable_set_failure:
  assumes "ht_rep H ht ms"
  shows "(hashsize (ht_order ht) \<le> ht_size ht \<longrightarrow> hashtable_set H False addr ht key v = Some (-1, [], ht)) \<and>
    (map_of ms key = None \<and> (addr = None \<or> 2 ^ 64 - 57 \<le> length key) \<longrightarrow>
      (\<exists>ht'. hashtable_set H True addr ht key v = Some (-1, [], ht') \<and> ht_rep H ht' ms))"
proof (intro conjI impI)
  assume "hashsize (ht_order ht) \<le> ht_size ht"
  then show "hashtable_set H False addr ht key v = Some (-1, [], ht)"
    by (simp add: hashtable_set_def hashtable_do_rehash_def)
next
  assume k: "map_of ms key = None \<and> (addr = None \<or> 2 ^ 64 - 57 \<le> length key)"
  from assms obtain bs ix ps where h: "hrep H ht bs ix ps" and ms: "ms = members ht ps" by (auto simp: ht_rep_def)
  have init: "init_pair ht' addr v key h = Some None" for ht' :: "'a hashtable_t" and h
    using k by (auto simp: init_pair_def split: option.split)
  have fail: "hashtable_set H True addr ht' key v = Some (-1, [], ht')"
    if "hrep H ht' bs' ix' ps" "ht_size ht' < hashsize (ht_order ht')" "ht_pairs ht' = ht_pairs ht" for ht' bs' ix'
  proof -
    have "List.find (\<lambda>a. pr_key (the (ht_pairs ht' a)) = key) ps = None" using k that(3) by (simp add: ms find_map_of)
    then show ?thesis using that(2) init by (simp add: hashtable_set_def Let_def find_pair_hrep [OF that(1)])
  qed
  show "\<exists>ht'. hashtable_set H True addr ht key v = Some (-1, [], ht') \<and> ht_rep H ht' ms"
  proof (cases "ht_size ht < hashsize (ht_order ht)")
    case True
    then show ?thesis using fail [OF h] assms by auto
  next
    case False
    obtain s b bs' ix' where r: "hashtable_do_rehash True ht = Some (0, ht\<lparr>ht_order := ht_order ht + 1, ht_nodes := s, ht_buckets := b\<rparr>)"
      "hrep H (ht\<lparr>ht_order := ht_order ht + 1, ht_nodes := s, ht_buckets := b\<rparr>) bs' ix' ps"
      using hashtable_do_rehash_rep [OF h] by blast
    let ?ht = "ht\<lparr>ht_order := ht_order ht + 1, ht_nodes := s, ht_buckets := b\<rparr>"
    have "ht_size ht \<le> 2 ^ ht_order ht" using h by (simp add: hrep_def hashsize_def)
    then have "ht_size ht < 2 * 2 ^ ht_order ht" using zero_less_power [of "2 :: nat" "ht_order ht"] by linarith
    then have sz: "ht_size ?ht < hashsize (ht_order ?ht)" by (simp add: hashsize_def)
    have "hashtable_set H True addr ht key v = hashtable_set H True addr ?ht key v"
      using False sz r(1) by (simp add: hashtable_set_def)
    moreover have "ht_rep H ?ht ms" using r(2) unfolding ht_rep_def by (auto simp: ms members_def)
    ultimately show ?thesis using fail [OF r(2) sz] by auto
  qed
qed

theorem hashtable_set_failure_witness:
  "\<exists>ht :: nat hashtable_t. hashtable_init True = Some (Some ht) \<and>
    (\<exists>ht'. hashtable_set (\<lambda>k. 0) True None ht [98] 5 = Some (-1, [], ht') \<and> ht_rep (\<lambda>k. 0) ht' [])"
proof -
  obtain ht :: "nat hashtable_t" where "hashtable_init True = Some (Some ht)" "ht_rep (\<lambda>k. 0) ht []"
    using hashtable_init_rep by blast
  with hashtable_set_failure [of "\<lambda>k. 0" ht "[]" None "[98]" 5] show ?thesis by auto
qed

end
