(* ===== verification/JsonValue.thy ===== *)
theory JsonValue
  imports HashTable
begin

text \<open>
  The values of \<^verbatim>\<open>jansson-2.14/src/value.c\<close> with their reference counts, in a store of nodes.

  A \<^verbatim>\<open>json_t *\<close> is an address, 0 for NULL. Addresses are handed out in increasing order and not reused, so that
  an access to a freed node is \<^term>\<open>None\<close>. Memory is not exhausted. The hash table of an object is the ordered
  association list it represents (theory \<open>HashTable\<close>); its iterators are keys, None for NULL. A C string argument
  is the contents of its array; functions that call \<^verbatim>\<open>strlen\<close> see it up to the first NUL. The set of parents that
  \<^verbatim>\<open>jsonp_loop_check\<close> keeps under the printed addresses is a list of addresses.
\<close>

section \<open>Nodes\<close>

text \<open>\<open>BArray size entries table\<close>: the fields of \<^verbatim>\<open>json_array_t\<close>.\<close>

datatype 'r body =
    BObject "(int list \<times> nat) list"
  | BArray nat nat "nat list"
  | BString "int list"
  | BInteger int
  | BReal 'r
  | BTrue
  | BFalse
  | BNull

text \<open>A count is None when it is \<^verbatim>\<open>(size_t)-1\<close>, the mark of the static values; other counts stay below it.\<close>

record 'r jnode =
  refcount :: "nat option"
  jbody :: "'r body"

record 'r jheap =
  jmem :: "nat \<rightharpoonup> 'r jnode"
  jnext :: nat

definition the_true :: nat where "the_true = 1"
definition the_false :: nat where "the_false = 2"
definition the_null :: nat where "the_null = 3"

definition json_true :: nat where "json_true = the_true"
definition json_false :: nat where "json_false = the_false"
definition json_null :: nat where "json_null = the_null"

text \<open>The store at program start: the three static values.\<close>

definition jheap0 :: "'r jheap" where
  "jheap0 = \<lparr>jmem = [the_true \<mapsto> \<lparr>refcount = None, jbody = BTrue\<rparr>, the_false \<mapsto> \<lparr>refcount = None, jbody = BFalse\<rparr>,
     the_null \<mapsto> \<lparr>refcount = None, jbody = BNull\<rparr>], jnext = 4\<rparr>"

definition cstr :: "int list \<Rightarrow> int list" where
  "cstr s = takeWhile (\<lambda>c. c \<noteq> 0) s"

fun is_object :: "'r body \<Rightarrow> bool" where "is_object (BObject _) = True" | "is_object _ = False"
fun is_array :: "'r body \<Rightarrow> bool" where "is_array (BArray _ _ _) = True" | "is_array _ = False"
fun is_string :: "'r body \<Rightarrow> bool" where "is_string (BString _) = True" | "is_string _ = False"
fun is_integer :: "'r body \<Rightarrow> bool" where "is_integer (BInteger _) = True" | "is_integer _ = False"
fun is_real :: "'r body \<Rightarrow> bool" where "is_real (BReal _) = True" | "is_real _ = False"

text \<open>The type tests \<^verbatim>\<open>json_is_xxx\<close>: false for NULL.\<close>

definition json_is :: "('r body \<Rightarrow> bool) \<Rightarrow> 'r jheap \<Rightarrow> nat \<Rightarrow> bool option" where
  "json_is t h p = (if p = 0 then Some False else map_option (\<lambda>n. t (jbody n)) (jmem h p))"

definition body_at :: "'r jheap \<Rightarrow> nat \<Rightarrow> 'r body option" where
  "body_at h p = map_option jbody (jmem h p)"

definition set_body :: "'r jheap \<Rightarrow> nat \<Rightarrow> 'r body \<Rightarrow> 'r jheap option" where
  "set_body h p b = (case jmem h p of None \<Rightarrow> None | Some n \<Rightarrow> Some (h\<lparr>jmem := (jmem h)(p \<mapsto> n\<lparr>jbody := b\<rparr>)\<rparr>))"

text \<open>\<^verbatim>\<open>jsonp_malloc\<close> of a node and \<^verbatim>\<open>json_init\<close>.\<close>

definition json_init :: "'r body \<Rightarrow> 'r jheap \<Rightarrow> nat \<times> 'r jheap" where
  "json_init b h = (jnext h, h\<lparr>jmem := (jmem h)(jnext h \<mapsto> \<lparr>refcount = Some 1, jbody = b\<rparr>), jnext := jnext h + 1\<rparr>)"

definition jsonp_loop_check :: "nat list \<Rightarrow> nat \<Rightarrow> int \<times> nat list" where
  "jsonp_loop_check parents p = (if p \<in> set parents then (-1, parents) else (0, p # parents))"

section \<open>Reference counts\<close>

definition json_incref :: "nat \<Rightarrow> 'r jheap \<Rightarrow> (nat \<times> 'r jheap) option" where
  "json_incref p h =
     (if p = 0 then Some (p, h)
      else case jmem h p of
        None \<Rightarrow> None
      | Some n \<Rightarrow> Some (p, case refcount n of
            None \<Rightarrow> h
          | Some c \<Rightarrow> h\<lparr>jmem := (jmem h)(p \<mapsto> n\<lparr>refcount := Some (c + 1)\<rparr>)\<rparr>))"

fun children :: "'r body \<Rightarrow> nat list" where
  "children (BObject ms) = map snd ms"
| "children (BArray _ entries table) = take entries table"
| "children _ = []"

text \<open>\<^verbatim>\<open>json_decref\<close> and \<^verbatim>\<open>json_delete\<close> call each other through the deletion of the members; the pending calls are a
  stack: decrement a count, or release the memory of a node whose members are done.\<close>

datatype task = Decref nat | Free nat

definition json_delete :: "nat \<Rightarrow> 'r body \<Rightarrow> task list" where
  "json_delete p b =
     (case b of
        BTrue \<Rightarrow> [] | BFalse \<Rightarrow> [] | BNull \<Rightarrow> []
      | _ \<Rightarrow> map Decref (children b) @ [Free p])"

partial_function (option) run_tasks :: "task list \<Rightarrow> 'r jheap \<Rightarrow> 'r jheap option" where
  "run_tasks ts h =
     (case ts of
        [] \<Rightarrow> Some h
      | Free p # ts' \<Rightarrow> (if jmem h p = None then None else run_tasks ts' (h\<lparr>jmem := (jmem h)(p := None)\<rparr>))
      | Decref p # ts' \<Rightarrow>
          if p = 0 then run_tasks ts' h
          else (case jmem h p of
            None \<Rightarrow> None
          | Some n \<Rightarrow> (case refcount n of
                None \<Rightarrow> run_tasks ts' h
              | Some c \<Rightarrow>
                  run_tasks (if c - 1 = 0 then json_delete p (jbody n) @ ts' else ts')
                    (h\<lparr>jmem := (jmem h)(p \<mapsto> n\<lparr>refcount := Some (c - 1)\<rparr>)\<rparr>))))"

definition json_decref :: "nat \<Rightarrow> 'r jheap \<Rightarrow> 'r jheap option" where
  "json_decref p h = run_tasks [Decref p] h"

section \<open>Objects\<close>

definition json_object :: "'r jheap \<Rightarrow> nat \<times> 'r jheap" where
  "json_object h = json_init (BObject []) h"

definition members_at :: "'r jheap \<Rightarrow> nat \<Rightarrow> (int list \<times> nat) list option" where
  "members_at h p = (case body_at h p of Some (BObject ms) \<Rightarrow> Some ms | _ \<Rightarrow> None)"

definition json_object_size :: "'r jheap \<Rightarrow> nat \<Rightarrow> nat option" where
  "json_object_size h p = do {
     o' \<leftarrow> json_is is_object h p;
     if \<not> o' then Some 0 else map_option length (members_at h p) }"

definition json_object_getn :: "'r jheap \<Rightarrow> nat \<Rightarrow> int list option \<Rightarrow> nat option" where
  "json_object_getn h p key =
     (case key of
        None \<Rightarrow> Some 0
      | Some k \<Rightarrow> do {
          o' \<leftarrow> json_is is_object h p;
          if \<not> o' then Some 0
          else map_option (\<lambda>ms. case map_of ms k of None \<Rightarrow> 0 | Some v \<Rightarrow> v) (members_at h p) })"

definition json_object_get :: "'r jheap \<Rightarrow> nat \<Rightarrow> int list option \<Rightarrow> nat option" where
  "json_object_get h p key = (case key of None \<Rightarrow> Some 0 | Some k \<Rightarrow> json_object_getn h p (Some (cstr k)))"

text \<open>\<^verbatim>\<open>hashtable_set\<close>: an existing value is released before it is replaced.\<close>

definition table_set :: "nat \<Rightarrow> int list \<Rightarrow> nat \<Rightarrow> 'r jheap \<Rightarrow> 'r jheap option" where
  "table_set p key value h = do {
     ms \<leftarrow> members_at h p;
     h1 \<leftarrow> (case map_of ms key of None \<Rightarrow> Some h | Some old \<Rightarrow> json_decref old h);
     ms1 \<leftarrow> members_at h1 p;
     set_body h1 p (BObject (set_member key value ms1)) }"

definition json_object_setn_new_nocheck :: "nat \<Rightarrow> int list option \<Rightarrow> nat \<Rightarrow> 'r jheap \<Rightarrow> (int \<times> 'r jheap) option" where
  "json_object_setn_new_nocheck p key value h =
     (if value = 0 then Some (-1, h)
      else do {
        o' \<leftarrow> (if key = None then Some False else json_is is_object h p);
        if key = None \<or> \<not> o' \<or> p = value then do { h1 \<leftarrow> json_decref value h; Some (-1, h1) }
        else do { h1 \<leftarrow> table_set p (the key) value h; Some (0, h1) } })"

definition json_object_set_new_nocheck :: "nat \<Rightarrow> int list option \<Rightarrow> nat \<Rightarrow> 'r jheap \<Rightarrow> (int \<times> 'r jheap) option" where
  "json_object_set_new_nocheck p key value h =
     (case key of
        None \<Rightarrow> do { h1 \<leftarrow> json_decref value h; Some (-1, h1) }
      | Some k \<Rightarrow> json_object_setn_new_nocheck p (Some (cstr k)) value h)"

definition json_object_setn_new :: "nat \<Rightarrow> int list option \<Rightarrow> nat \<Rightarrow> 'r jheap \<Rightarrow> (int \<times> 'r jheap) option" where
  "json_object_setn_new p key value h =
     (if key = None \<or> \<not> utf8_check_string (the key)
      then do { h1 \<leftarrow> json_decref value h; Some (-1, h1) }
      else json_object_setn_new_nocheck p key value h)"

definition json_object_set_new :: "nat \<Rightarrow> int list option \<Rightarrow> nat \<Rightarrow> 'r jheap \<Rightarrow> (int \<times> 'r jheap) option" where
  "json_object_set_new p key value h =
     (case key of
        None \<Rightarrow> do { h1 \<leftarrow> json_decref value h; Some (-1, h1) }
      | Some k \<Rightarrow> json_object_setn_new p (Some (cstr k)) value h)"

definition json_object_set_nocheck :: "nat \<Rightarrow> int list option \<Rightarrow> nat \<Rightarrow> 'r jheap \<Rightarrow> (int \<times> 'r jheap) option" where
  "json_object_set_nocheck p key value h = do { (v, h1) \<leftarrow> json_incref value h; json_object_set_new_nocheck p key v h1 }"

definition json_object_setn_nocheck :: "nat \<Rightarrow> int list option \<Rightarrow> nat \<Rightarrow> 'r jheap \<Rightarrow> (int \<times> 'r jheap) option" where
  "json_object_setn_nocheck p key value h = do { (v, h1) \<leftarrow> json_incref value h; json_object_setn_new_nocheck p key v h1 }"

definition json_object_deln :: "nat \<Rightarrow> int list option \<Rightarrow> 'r jheap \<Rightarrow> (int \<times> 'r jheap) option" where
  "json_object_deln p key h = do {
     o' \<leftarrow> (if key = None then Some False else json_is is_object h p);
     if key = None \<or> \<not> o' then Some (-1, h)
     else do {
       ms \<leftarrow> members_at h p;
       (case map_of ms (the key) of
          None \<Rightarrow> Some (-1, h)
        | Some old \<Rightarrow> do {
            h1 \<leftarrow> set_body h p (BObject (filter (\<lambda>m. fst m \<noteq> the key) ms));
            h2 \<leftarrow> json_decref old h1;
            Some (0, h2) }) } }"

definition json_object_del :: "nat \<Rightarrow> int list option \<Rightarrow> 'r jheap \<Rightarrow> (int \<times> 'r jheap) option" where
  "json_object_del p key h = (case key of None \<Rightarrow> Some (-1, h) | Some k \<Rightarrow> json_object_deln p (Some (cstr k)) h)"

definition json_object_clear :: "nat \<Rightarrow> 'r jheap \<Rightarrow> (int \<times> 'r jheap) option" where
  "json_object_clear p h = do {
     o' \<leftarrow> json_is is_object h p;
     if \<not> o' then Some (-1, h)
     else do {
       ms \<leftarrow> members_at h p;
       h1 \<leftarrow> run_tasks (map (\<lambda>m. Decref (snd m)) ms) h;
       h2 \<leftarrow> set_body h1 p (BObject []);
       Some (0, h2) } }"

text \<open>Iterators; following one whose pair is gone is \<^term>\<open>None\<close>.\<close>

fun key_after :: "int list \<Rightarrow> (int list \<times> nat) list \<Rightarrow> int list option option" where
  "key_after k [] = None"
| "key_after k ((k', v) # ms) = (if k' = k then Some (case ms of [] \<Rightarrow> None | m # _ \<Rightarrow> Some (fst m)) else key_after k ms)"

definition json_object_iter :: "'r jheap \<Rightarrow> nat \<Rightarrow> int list option option" where
  "json_object_iter h p = do {
     o' \<leftarrow> json_is is_object h p;
     if \<not> o' then Some None
     else map_option (\<lambda>ms. case ms of [] \<Rightarrow> None | m # _ \<Rightarrow> Some (fst m)) (members_at h p) }"

definition json_object_iter_at :: "'r jheap \<Rightarrow> nat \<Rightarrow> int list option \<Rightarrow> int list option option" where
  "json_object_iter_at h p key =
     (case key of
        None \<Rightarrow> Some None
      | Some k \<Rightarrow> do {
          o' \<leftarrow> json_is is_object h p;
          if \<not> o' then Some None
          else map_option (\<lambda>ms. if map_of ms (cstr k) = None then None else Some (cstr k)) (members_at h p) })"

definition json_object_iter_next :: "'r jheap \<Rightarrow> nat \<Rightarrow> int list option \<Rightarrow> int list option option" where
  "json_object_iter_next h p iter = do {
     o' \<leftarrow> json_is is_object h p;
     (case iter of
        None \<Rightarrow> Some None
      | Some k \<Rightarrow> if \<not> o' then Some None else do { ms \<leftarrow> members_at h p; key_after k ms }) }"

definition json_object_iter_value :: "'r jheap \<Rightarrow> nat \<Rightarrow> int list option \<Rightarrow> nat option" where
  "json_object_iter_value h p iter =
     (case iter of None \<Rightarrow> Some 0 | Some k \<Rightarrow> do { ms \<leftarrow> members_at h p; map_of ms k })"

definition json_object_iter_set_new :: "nat \<Rightarrow> int list option \<Rightarrow> nat \<Rightarrow> 'r jheap \<Rightarrow> (int \<times> 'r jheap) option" where
  "json_object_iter_set_new p iter value h = do {
     o' \<leftarrow> json_is is_object h p;
     if \<not> o' \<or> iter = None \<or> value = 0 then do { h1 \<leftarrow> json_decref value h; Some (-1, h1) }
     else do {
       ms \<leftarrow> members_at h p;
       old \<leftarrow> map_of ms (the iter);
       h1 \<leftarrow> json_decref old h;
       ms1 \<leftarrow> members_at h1 p;
       h2 \<leftarrow> set_body h1 p (BObject (set_member (the iter) value ms1));
       Some (0, h2) } }"

text \<open>The loop of \<^verbatim>\<open>json_object_foreach\<close> and \<^verbatim>\<open>json_object_keylen_foreach\<close> over \<open>q\<close>: the body may change the store and
  stop the loop with a result. The iterator advances in the changed store.\<close>

partial_function (option) foreach_loop ::
  "(int list \<Rightarrow> nat \<Rightarrow> 'r jheap \<Rightarrow> (int \<times> 'r jheap) option) \<Rightarrow> nat \<Rightarrow> int list option \<Rightarrow> 'r jheap \<Rightarrow> (int \<times> 'r jheap) option" where
  "foreach_loop step q iter h =
     (case iter of
        None \<Rightarrow> Some (0, h)
      | Some key \<Rightarrow> do {
          v \<leftarrow> json_object_iter_value h q iter;
          if v = 0 then Some (0, h)
          else do {
            (r, h1) \<leftarrow> step key v h;
            if r \<noteq> 0 then Some (r, h1)
            else do { n \<leftarrow> json_object_iter_next h1 q iter; foreach_loop step q n h1 } } })"

definition json_object_foreach ::
  "(int list \<Rightarrow> nat \<Rightarrow> 'r jheap \<Rightarrow> (int \<times> 'r jheap) option) \<Rightarrow> nat \<Rightarrow> 'r jheap \<Rightarrow> (int \<times> 'r jheap) option" where
  "json_object_foreach step q h = do { i \<leftarrow> json_object_iter h q; foreach_loop step q i h }"

definition both_objects :: "'r jheap \<Rightarrow> nat \<Rightarrow> nat \<Rightarrow> bool option" where
  "both_objects h p q = do { a \<leftarrow> json_is is_object h p; if \<not> a then Some False else json_is is_object h q }"

definition json_object_update :: "nat \<Rightarrow> nat \<Rightarrow> 'r jheap \<Rightarrow> (int \<times> 'r jheap) option" where
  "json_object_update p q h = do {
     ok \<leftarrow> both_objects h p q;
     if \<not> ok then Some (-1, h)
     else json_object_foreach (\<lambda>key v h'. do {
       (r, h1) \<leftarrow> json_object_set_nocheck p (Some key) v h';
       Some (if r \<noteq> 0 then -1 else 0, h1) }) q h }"

definition json_object_update_existing :: "nat \<Rightarrow> nat \<Rightarrow> 'r jheap \<Rightarrow> (int \<times> 'r jheap) option" where
  "json_object_update_existing p q h = do {
     ok \<leftarrow> both_objects h p q;
     if \<not> ok then Some (-1, h)
     else json_object_foreach (\<lambda>key v h'. do {
       old \<leftarrow> json_object_getn h' p (Some key);
       if old \<noteq> 0 then do { (r, h1) \<leftarrow> json_object_setn_nocheck p (Some key) v h'; Some (0, h1) }
       else Some (0, h') }) q h }"

definition json_object_update_missing :: "nat \<Rightarrow> nat \<Rightarrow> 'r jheap \<Rightarrow> (int \<times> 'r jheap) option" where
  "json_object_update_missing p q h = do {
     ok \<leftarrow> both_objects h p q;
     if \<not> ok then Some (-1, h)
     else json_object_foreach (\<lambda>key v h'. do {
       old \<leftarrow> json_object_get h' p (Some key);
       if old = 0 then do { (r, h1) \<leftarrow> json_object_set_nocheck p (Some key) v h'; Some (0, h1) }
       else Some (0, h') }) q h }"

text \<open>The first argument bounds the recursion, which the check for circular references ends.\<close>

fun do_object_update_recursive :: "nat \<Rightarrow> nat list \<Rightarrow> nat \<Rightarrow> nat \<Rightarrow> 'r jheap \<Rightarrow> (int \<times> 'r jheap) option" where
  "do_object_update_recursive 0 parents p q h = None"
| "do_object_update_recursive (Suc n) parents p q h = do {
     ok \<leftarrow> both_objects h p q;
     if \<not> ok then Some (-1, h)
     else let (c, parents1) = jsonp_loop_check parents q
       in if c \<noteq> 0 then Some (-1, h)
          else json_object_foreach (\<lambda>key value h'. do {
            v \<leftarrow> json_object_get h' p (Some key);
            objs \<leftarrow> both_objects h' v value;
            (r, h1) \<leftarrow> (if objs then do_object_update_recursive n parents1 v value h'
                        else json_object_setn_nocheck p (Some key) value h');
            Some (if r \<noteq> 0 then -1 else 0, h1) }) q h }"

definition json_object_update_recursive :: "nat \<Rightarrow> nat \<Rightarrow> 'r jheap \<Rightarrow> (int \<times> 'r jheap) option" where
  "json_object_update_recursive p q h = do_object_update_recursive (jnext h + 1) [] p q h"

definition json_object_copy :: "nat \<Rightarrow> 'r jheap \<Rightarrow> (nat \<times> 'r jheap) option" where
  "json_object_copy p h =
     (let (result, h1) = json_object h
      in do {
        (r, h2) \<leftarrow> json_object_foreach (\<lambda>key v h'. do {
          (r, h'') \<leftarrow> json_object_set_nocheck result (Some key) v h'; Some (0, h'') }) p h1;
        Some (result, h2) })"

section \<open>Arrays\<close>

definition json_array :: "'r jheap \<Rightarrow> nat \<times> 'r jheap" where
  "json_array h = json_init (BArray 8 0 (replicate 8 0)) h"

type_synonym arr = "nat \<times> nat \<times> nat list"

definition array_at :: "'r jheap \<Rightarrow> nat \<Rightarrow> arr option" where
  "array_at h p = (case body_at h p of Some (BArray s n t) \<Rightarrow> Some (s, n, t) | _ \<Rightarrow> None)"

definition json_array_size :: "'r jheap \<Rightarrow> nat \<Rightarrow> nat option" where
  "json_array_size h p = do {
     a \<leftarrow> json_is is_array h p;
     if \<not> a then Some 0 else do { (s, n, t) \<leftarrow> array_at h p; Some n } }"

definition table_at :: "nat list \<Rightarrow> nat \<Rightarrow> nat option" where
  "table_at t i = (if i < length t then Some (t ! i) else None)"

definition table_put :: "nat list \<Rightarrow> nat \<Rightarrow> nat \<Rightarrow> nat list option" where
  "table_put t i v = (if i < length t then Some (t[i := v]) else None)"

definition json_array_get :: "'r jheap \<Rightarrow> nat \<Rightarrow> nat \<Rightarrow> nat option" where
  "json_array_get h p index = do {
     a \<leftarrow> json_is is_array h p;
     if \<not> a then Some 0
     else do { (s, n, t) \<leftarrow> array_at h p; if index \<ge> n then Some 0 else table_at t index } }"

text \<open>\<^verbatim>\<open>memmove\<close> and \<^verbatim>\<open>memcpy\<close> of table entries, inside the tables.\<close>

definition array_copy :: "nat list \<Rightarrow> nat \<Rightarrow> nat list \<Rightarrow> nat \<Rightarrow> nat \<Rightarrow> nat list option" where
  "array_copy dest dpos src spos cnt =
     (if dpos + cnt \<le> length dest \<and> spos + cnt \<le> length src
      then Some (take dpos dest @ take cnt (drop spos src) @ drop (dpos + cnt) dest) else None)"

definition array_move :: "nat list \<Rightarrow> nat \<Rightarrow> nat \<Rightarrow> nat \<Rightarrow> nat list option" where
  "array_move table dest src cnt = array_copy table dest table src cnt"

text \<open>The table before (None when there was room) and the array after; a new table is filled with zeros.\<close>

definition json_array_grow :: "nat \<Rightarrow> bool \<Rightarrow> arr \<Rightarrow> (nat list option \<times> arr) option" where
  "json_array_grow amount copy = (\<lambda>(s, n, t).
     if n + amount \<le> s then Some (None, (s, n, t))
     else let new_size = max (s + amount) (s * 2); new_table = replicate new_size 0
          in if copy
             then do { t' \<leftarrow> array_copy new_table 0 t 0 n; Some (None, (new_size, n, t')) }
             else Some (Some t, (new_size, n, new_table)))"

definition set_array :: "'r jheap \<Rightarrow> nat \<Rightarrow> arr \<Rightarrow> 'r jheap option" where
  "set_array h p = (\<lambda>(s, n, t). set_body h p (BArray s n t))"

text \<open>A failing call releases the value it was given.\<close>

definition drop_value :: "nat \<Rightarrow> 'r jheap \<Rightarrow> (int \<times> 'r jheap) option" where
  "drop_value value h = do { h1 \<leftarrow> json_decref value h; Some (-1, h1) }"

definition json_array_set_new :: "nat \<Rightarrow> nat \<Rightarrow> nat \<Rightarrow> 'r jheap \<Rightarrow> (int \<times> 'r jheap) option" where
  "json_array_set_new p index value h =
     (if value = 0 then Some (-1, h)
      else do {
        a \<leftarrow> json_is is_array h p;
        if \<not> a \<or> p = value then drop_value value h
        else do {
          (s, n, t) \<leftarrow> array_at h p;
          if index \<ge> n then drop_value value h
          else do {
            old \<leftarrow> table_at t index;
            h1 \<leftarrow> json_decref old h;
            (s1, n1, t1) \<leftarrow> array_at h1 p;
            t2 \<leftarrow> table_put t1 index value;
            h2 \<leftarrow> set_array h1 p (s1, n1, t2);
            Some (0, h2) } } })"

definition json_array_append_new :: "nat \<Rightarrow> nat \<Rightarrow> 'r jheap \<Rightarrow> (int \<times> 'r jheap) option" where
  "json_array_append_new p value h =
     (if value = 0 then Some (-1, h)
      else do {
        a \<leftarrow> json_is is_array h p;
        if \<not> a \<or> p = value then drop_value value h
        else do {
          arr \<leftarrow> array_at h p;
          (_, s, n, t) \<leftarrow> json_array_grow 1 True arr;
          t1 \<leftarrow> table_put t n value;
          h1 \<leftarrow> set_array h p (s, n + 1, t1);
          Some (0, h1) } })"

definition json_array_insert_new :: "nat \<Rightarrow> nat \<Rightarrow> nat \<Rightarrow> 'r jheap \<Rightarrow> (int \<times> 'r jheap) option" where
  "json_array_insert_new p index value h =
     (if value = 0 then Some (-1, h)
      else do {
        a \<leftarrow> json_is is_array h p;
        if \<not> a \<or> p = value then drop_value value h
        else do {
          (s0, n0, t0) \<leftarrow> array_at h p;
          if index > n0 then drop_value value h
          else do {
            (old, s, n, t) \<leftarrow> json_array_grow 1 False (s0, n0, t0);
            t1 \<leftarrow> (case old of
                     Some old_table \<Rightarrow> do {
                       u \<leftarrow> array_copy t 0 old_table 0 index;
                       array_copy u (index + 1) old_table index (n - index) }
                   | None \<Rightarrow> array_move t (index + 1) index (n - index));
            t2 \<leftarrow> table_put t1 index value;
            h1 \<leftarrow> set_array h p (s, n + 1, t2);
            Some (0, h1) } } })"

definition json_array_remove :: "nat \<Rightarrow> nat \<Rightarrow> 'r jheap \<Rightarrow> (int \<times> 'r jheap) option" where
  "json_array_remove p index h = do {
     a \<leftarrow> json_is is_array h p;
     if \<not> a then Some (-1, h)
     else do {
       (s0, n0, t0) \<leftarrow> array_at h p;
       if index \<ge> n0 then Some (-1, h)
       else do {
         old \<leftarrow> table_at t0 index;
         h1 \<leftarrow> json_decref old h;
         (s, n, t) \<leftarrow> array_at h1 p;
         t1 \<leftarrow> (if index < n - 1 then array_move t index (index + 1) (n - index - 1) else Some t);
         h2 \<leftarrow> set_array h1 p (s, n - 1, t1);
         Some (0, h2) } } }"

definition json_array_clear :: "nat \<Rightarrow> 'r jheap \<Rightarrow> (int \<times> 'r jheap) option" where
  "json_array_clear p h = do {
     a \<leftarrow> json_is is_array h p;
     if \<not> a then Some (-1, h)
     else do {
       (s0, n0, t0) \<leftarrow> array_at h p;
       h1 \<leftarrow> run_tasks (map Decref (take n0 t0)) h;
       (s, n, t) \<leftarrow> array_at h1 p;
       h2 \<leftarrow> set_array h1 p (s, 0, t);
       Some (0, h2) } }"

fun incref_all :: "nat list \<Rightarrow> 'r jheap \<Rightarrow> 'r jheap option" where
  "incref_all [] h = Some h"
| "incref_all (p # ps) h = do { (q, h1) \<leftarrow> json_incref p h; incref_all ps h1 }"

definition json_array_extend :: "nat \<Rightarrow> nat \<Rightarrow> 'r jheap \<Rightarrow> (int \<times> 'r jheap) option" where
  "json_array_extend p q h = do {
     a \<leftarrow> json_is is_array h p;
     b \<leftarrow> (if a then json_is is_array h q else Some False);
     if \<not> b then Some (-1, h)
     else do {
       arr \<leftarrow> array_at h p;
       (_, m, _) \<leftarrow> array_at h q;
       (_, arr1) \<leftarrow> json_array_grow m True arr;
       h1 \<leftarrow> set_array h p arr1;
       (_, m1, u) \<leftarrow> array_at h1 q;
       h2 \<leftarrow> incref_all (take m1 u) h1;
       (s, n, t) \<leftarrow> array_at h2 p;
       t1 \<leftarrow> array_copy t n u 0 m1;
       h3 \<leftarrow> set_array h2 p (s, n + m1, t1);
       Some (0, h3) } }"

definition json_array_append :: "nat \<Rightarrow> nat \<Rightarrow> 'r jheap \<Rightarrow> (int \<times> 'r jheap) option" where
  "json_array_append p value h = do { (v, h1) \<leftarrow> json_incref value h; json_array_append_new p v h1 }"

text \<open>The loop from index \<open>i\<close>; the size is read again in every round.\<close>

partial_function (option) array_copy_loop :: "nat \<Rightarrow> nat \<Rightarrow> nat \<Rightarrow> 'r jheap \<Rightarrow> 'r jheap option" where
  "array_copy_loop result p i h = do {
     n \<leftarrow> json_array_size h p;
     if i < n
     then do { v \<leftarrow> json_array_get h p i; (r, h1) \<leftarrow> json_array_append result v h; array_copy_loop result p (i + 1) h1 }
     else Some h }"

definition json_array_copy :: "nat \<Rightarrow> 'r jheap \<Rightarrow> (nat \<times> 'r jheap) option" where
  "json_array_copy p h =
     (let (result, h1) = json_array h in do { h2 \<leftarrow> array_copy_loop result p 0 h1; Some (result, h2) })"

section \<open>Strings and numbers\<close>

definition string_create :: "int list option \<Rightarrow> 'r jheap \<Rightarrow> nat \<times> 'r jheap" where
  "string_create value h = (case value of None \<Rightarrow> (0, h) | Some v \<Rightarrow> json_init (BString v) h)"

definition json_string_nocheck :: "int list option \<Rightarrow> 'r jheap \<Rightarrow> nat \<times> 'r jheap" where
  "json_string_nocheck value h = (case value of None \<Rightarrow> (0, h) | Some v \<Rightarrow> string_create (Some (cstr v)) h)"

definition json_stringn_nocheck :: "int list option \<Rightarrow> 'r jheap \<Rightarrow> nat \<times> 'r jheap" where
  "json_stringn_nocheck value h = string_create value h"

definition jsonp_stringn_nocheck_own :: "int list option \<Rightarrow> 'r jheap \<Rightarrow> nat \<times> 'r jheap" where
  "jsonp_stringn_nocheck_own value h = string_create value h"

definition json_stringn :: "int list option \<Rightarrow> 'r jheap \<Rightarrow> nat \<times> 'r jheap" where
  "json_stringn value h =
     (if value = None \<or> \<not> utf8_check_string (the value) then (0, h) else json_stringn_nocheck value h)"

definition json_string :: "int list option \<Rightarrow> 'r jheap \<Rightarrow> nat \<times> 'r jheap" where
  "json_string value h = (case value of None \<Rightarrow> (0, h) | Some v \<Rightarrow> json_stringn (Some (cstr v)) h)"

definition json_string_value :: "'r jheap \<Rightarrow> nat \<Rightarrow> int list option option" where
  "json_string_value h p = do {
     s \<leftarrow> json_is is_string h p;
     if \<not> s then Some None else (case body_at h p of Some (BString v) \<Rightarrow> Some (Some v) | _ \<Rightarrow> None) }"

definition json_string_length :: "'r jheap \<Rightarrow> nat \<Rightarrow> nat option" where
  "json_string_length h p = map_option (\<lambda>v. case v of None \<Rightarrow> 0 | Some s \<Rightarrow> length s) (json_string_value h p)"

definition json_string_setn_nocheck :: "nat \<Rightarrow> int list option \<Rightarrow> 'r jheap \<Rightarrow> (int \<times> 'r jheap) option" where
  "json_string_setn_nocheck p value h = do {
     s \<leftarrow> json_is is_string h p;
     if \<not> s \<or> value = None then Some (-1, h)
     else do { h1 \<leftarrow> set_body h p (BString (the value)); Some (0, h1) } }"

definition json_string_set_nocheck :: "nat \<Rightarrow> int list option \<Rightarrow> 'r jheap \<Rightarrow> (int \<times> 'r jheap) option" where
  "json_string_set_nocheck p value h =
     (case value of None \<Rightarrow> Some (-1, h) | Some v \<Rightarrow> json_string_setn_nocheck p (Some (cstr v)) h)"

definition json_string_setn :: "nat \<Rightarrow> int list option \<Rightarrow> 'r jheap \<Rightarrow> (int \<times> 'r jheap) option" where
  "json_string_setn p value h =
     (if value = None \<or> \<not> utf8_check_string (the value) then Some (-1, h) else json_string_setn_nocheck p value h)"

definition json_string_set :: "nat \<Rightarrow> int list option \<Rightarrow> 'r jheap \<Rightarrow> (int \<times> 'r jheap) option" where
  "json_string_set p value h = (case value of None \<Rightarrow> Some (-1, h) | Some v \<Rightarrow> json_string_setn p (Some (cstr v)) h)"

definition json_string_equal :: "'r jheap \<Rightarrow> nat \<Rightarrow> nat \<Rightarrow> bool option" where
  "json_string_equal h p q =
     (case (body_at h p, body_at h q) of
        (Some (BString s1), Some (BString s2)) \<Rightarrow> Some (length s1 = length s2 \<and> take (length s1) s1 = take (length s1) s2)
      | _ \<Rightarrow> None)"

definition json_string_copy :: "nat \<Rightarrow> 'r jheap \<Rightarrow> (nat \<times> 'r jheap) option" where
  "json_string_copy p h = (case body_at h p of Some (BString s) \<Rightarrow> Some (json_stringn_nocheck (Some s) h) | _ \<Rightarrow> None)"

definition json_integer :: "int \<Rightarrow> 'r jheap \<Rightarrow> nat \<times> 'r jheap" where
  "json_integer value h = json_init (BInteger value) h"

definition json_integer_value :: "'r jheap \<Rightarrow> nat \<Rightarrow> int option" where
  "json_integer_value h p = do {
     i \<leftarrow> json_is is_integer h p;
     if \<not> i then Some 0 else (case body_at h p of Some (BInteger v) \<Rightarrow> Some v | _ \<Rightarrow> None) }"

definition json_integer_set :: "nat \<Rightarrow> int \<Rightarrow> 'r jheap \<Rightarrow> (int \<times> 'r jheap) option" where
  "json_integer_set p value h = do {
     i \<leftarrow> json_is is_integer h p;
     if \<not> i then Some (-1, h) else do { h1 \<leftarrow> set_body h p (BInteger value); Some (0, h1) } }"

definition json_integer_equal :: "'r jheap \<Rightarrow> nat \<Rightarrow> nat \<Rightarrow> bool option" where
  "json_integer_equal h p q = do { a \<leftarrow> json_integer_value h p; b \<leftarrow> json_integer_value h q; Some (a = b) }"

definition json_integer_copy :: "nat \<Rightarrow> 'r jheap \<Rightarrow> (nat \<times> 'r jheap) option" where
  "json_integer_copy p h = do { v \<leftarrow> json_integer_value h p; Some (json_integer v h) }"

text \<open>\<^verbatim>\<open>double\<close> and its tests are parameters: \<open>finite_real\<close> is neither \<^verbatim>\<open>isnan\<close> nor \<^verbatim>\<open>isinf\<close>, \<open>zero\<close> is 0.\<close>

definition json_real :: "('r \<Rightarrow> bool) \<Rightarrow> 'r \<Rightarrow> 'r jheap \<Rightarrow> nat \<times> 'r jheap" where
  "json_real finite_real value h = (if \<not> finite_real value then (0, h) else json_init (BReal value) h)"

definition json_real_value :: "'r \<Rightarrow> 'r jheap \<Rightarrow> nat \<Rightarrow> 'r option" where
  "json_real_value zero h p = do {
     r \<leftarrow> json_is is_real h p;
     if \<not> r then Some zero else (case body_at h p of Some (BReal v) \<Rightarrow> Some v | _ \<Rightarrow> None) }"

definition json_real_set :: "('r \<Rightarrow> bool) \<Rightarrow> nat \<Rightarrow> 'r \<Rightarrow> 'r jheap \<Rightarrow> (int \<times> 'r jheap) option" where
  "json_real_set finite_real p value h = do {
     r \<leftarrow> json_is is_real h p;
     if \<not> r \<or> \<not> finite_real value then Some (-1, h) else do { h1 \<leftarrow> set_body h p (BReal value); Some (0, h1) } }"

definition json_real_equal :: "'r \<Rightarrow> 'r jheap \<Rightarrow> nat \<Rightarrow> nat \<Rightarrow> bool option" where
  "json_real_equal zero h p q = do { a \<leftarrow> json_real_value zero h p; b \<leftarrow> json_real_value zero h q; Some (a = b) }"

definition json_real_copy :: "('r \<Rightarrow> bool) \<Rightarrow> 'r \<Rightarrow> nat \<Rightarrow> 'r jheap \<Rightarrow> (nat \<times> 'r jheap) option" where
  "json_real_copy finite_real zero p h = do { v \<leftarrow> json_real_value zero h p; Some (json_real finite_real v h) }"

section \<open>Equality and copies\<close>

fun same_type :: "'r body \<Rightarrow> 'r body \<Rightarrow> bool" where
  "same_type (BObject _) (BObject _) = True"
| "same_type (BArray _ _ _) (BArray _ _ _) = True"
| "same_type (BString _) (BString _) = True"
| "same_type (BInteger _) (BInteger _) = True"
| "same_type (BReal _) (BReal _) = True"
| "same_type BTrue BTrue = True"
| "same_type BFalse BFalse = True"
| "same_type BNull BNull = True"
| "same_type _ _ = False"

text \<open>The loops over members and elements, with the comparison of the values as an argument.\<close>

fun object_equal_loop :: "(nat \<Rightarrow> nat \<Rightarrow> bool option) \<Rightarrow> 'r jheap \<Rightarrow> nat \<Rightarrow> (int list \<times> nat) list \<Rightarrow> bool option" where
  "object_equal_loop eq h q [] = Some True"
| "object_equal_loop eq h q ((key, v1) # ms) = do {
     v2 \<leftarrow> json_object_get h q (Some key);
     e \<leftarrow> eq v1 v2;
     if e then object_equal_loop eq h q ms else Some False }"

definition json_object_equal :: "(nat \<Rightarrow> nat \<Rightarrow> bool option) \<Rightarrow> 'r jheap \<Rightarrow> nat \<Rightarrow> nat \<Rightarrow> bool option" where
  "json_object_equal eq h p q = do {
     n \<leftarrow> json_object_size h p;
     m \<leftarrow> json_object_size h q;
     if n \<noteq> m then Some False else do { ms \<leftarrow> members_at h p; object_equal_loop eq h q ms } }"

fun array_equal_loop :: "(nat \<Rightarrow> nat \<Rightarrow> bool option) \<Rightarrow> 'r jheap \<Rightarrow> nat \<Rightarrow> nat \<Rightarrow> nat \<Rightarrow> nat \<Rightarrow> bool option" where
  "array_equal_loop eq h p q i 0 = Some True"
| "array_equal_loop eq h p q i (Suc k) = do {
     v1 \<leftarrow> json_array_get h p i;
     v2 \<leftarrow> json_array_get h q i;
     e \<leftarrow> eq v1 v2;
     if e then array_equal_loop eq h p q (i + 1) k else Some False }"

definition json_array_equal :: "(nat \<Rightarrow> nat \<Rightarrow> bool option) \<Rightarrow> 'r jheap \<Rightarrow> nat \<Rightarrow> nat \<Rightarrow> bool option" where
  "json_array_equal eq h p q = do {
     n \<leftarrow> json_array_size h p;
     m \<leftarrow> json_array_size h q;
     if n \<noteq> m then Some False else array_equal_loop eq h p q 0 n }"

text \<open>The recursion does not end on circular values; the first argument bounds it.\<close>

fun json_equal :: "nat \<Rightarrow> 'r \<Rightarrow> 'r jheap \<Rightarrow> nat \<Rightarrow> nat \<Rightarrow> bool option" where
  "json_equal 0 zero h p q = None"
| "json_equal (Suc n) zero h p q =
     (if p = 0 \<or> q = 0 then Some False
      else do {
        a \<leftarrow> body_at h p;
        b \<leftarrow> body_at h q;
        if \<not> same_type a b then Some False
        else if p = q then Some True
        else (case a of
            BObject _ \<Rightarrow> json_object_equal (json_equal n zero h) h p q
          | BArray _ _ _ \<Rightarrow> json_array_equal (json_equal n zero h) h p q
          | BString _ \<Rightarrow> json_string_equal h p q
          | BInteger _ \<Rightarrow> json_integer_equal h p q
          | BReal _ \<Rightarrow> json_real_equal zero h p q
          | _ \<Rightarrow> Some False) })"

definition json_copy :: "('r \<Rightarrow> bool) \<Rightarrow> 'r \<Rightarrow> nat \<Rightarrow> 'r jheap \<Rightarrow> (nat \<times> 'r jheap) option" where
  "json_copy finite_real zero p h =
     (if p = 0 then Some (0, h)
      else do {
        b \<leftarrow> body_at h p;
        (case b of
            BObject _ \<Rightarrow> json_object_copy p h
          | BArray _ _ _ \<Rightarrow> json_array_copy p h
          | BString _ \<Rightarrow> json_string_copy p h
          | BInteger _ \<Rightarrow> json_integer_copy p h
          | BReal _ \<Rightarrow> json_real_copy finite_real zero p h
          | _ \<Rightarrow> Some (p, h)) })"

text \<open>The loops of the deep copy; \<open>copy\<close> copies one value. A failed copy drops the result, 0 is returned.\<close>

partial_function (option) object_deep_loop ::
  "(nat \<Rightarrow> 'r jheap \<Rightarrow> (nat \<times> 'r jheap) option) \<Rightarrow> nat \<Rightarrow> nat \<Rightarrow> int list option \<Rightarrow> 'r jheap \<Rightarrow> (nat \<times> 'r jheap) option" where
  "object_deep_loop copy result p iter h =
     (case iter of
        None \<Rightarrow> Some (result, h)
      | Some key \<Rightarrow> do {
          v \<leftarrow> json_object_iter_value h p iter;
          (c, h1) \<leftarrow> copy v h;
          (r, h2) \<leftarrow> json_object_set_new_nocheck result (Some key) c h1;
          if r \<noteq> 0 then do { h3 \<leftarrow> json_decref result h2; Some (0, h3) }
          else do { n \<leftarrow> json_object_iter_next h2 p iter; object_deep_loop copy result p n h2 } })"

partial_function (option) array_deep_loop ::
  "(nat \<Rightarrow> 'r jheap \<Rightarrow> (nat \<times> 'r jheap) option) \<Rightarrow> nat \<Rightarrow> nat \<Rightarrow> nat \<Rightarrow> 'r jheap \<Rightarrow> (nat \<times> 'r jheap) option" where
  "array_deep_loop copy result p i h = do {
     n \<leftarrow> json_array_size h p;
     if i < n
     then do {
       v \<leftarrow> json_array_get h p i;
       (c, h1) \<leftarrow> copy v h;
       (r, h2) \<leftarrow> json_array_append_new result c h1;
       if r \<noteq> 0 then do { h3 \<leftarrow> json_decref result h2; Some (0, h3) }
       else array_deep_loop copy result p (i + 1) h2 }
     else Some (result, h) }"

definition json_object_deep_copy ::
  "(nat list \<Rightarrow> nat \<Rightarrow> 'r jheap \<Rightarrow> (nat \<times> 'r jheap) option) \<Rightarrow> nat list \<Rightarrow> nat \<Rightarrow> 'r jheap \<Rightarrow> (nat \<times> 'r jheap) option" where
  "json_object_deep_copy copy parents p h =
     (let (c, parents1) = jsonp_loop_check parents p
      in if c \<noteq> 0 then Some (0, h)
         else let (result, h1) = json_object h
           in do { i \<leftarrow> json_object_iter h1 p; object_deep_loop (copy parents1) result p i h1 })"

definition json_array_deep_copy ::
  "(nat list \<Rightarrow> nat \<Rightarrow> 'r jheap \<Rightarrow> (nat \<times> 'r jheap) option) \<Rightarrow> nat list \<Rightarrow> nat \<Rightarrow> 'r jheap \<Rightarrow> (nat \<times> 'r jheap) option" where
  "json_array_deep_copy copy parents p h =
     (let (c, parents1) = jsonp_loop_check parents p
      in if c \<noteq> 0 then Some (0, h)
         else let (result, h1) = json_array h in array_deep_loop (copy parents1) result p 0 h1)"

fun do_deep_copy :: "nat \<Rightarrow> ('r \<Rightarrow> bool) \<Rightarrow> 'r \<Rightarrow> nat list \<Rightarrow> nat \<Rightarrow> 'r jheap \<Rightarrow> (nat \<times> 'r jheap) option" where
  "do_deep_copy 0 finite_real zero parents p h = None"
| "do_deep_copy (Suc n) finite_real zero parents p h =
     (if p = 0 then Some (0, h)
      else do {
        b \<leftarrow> body_at h p;
        (case b of
            BObject _ \<Rightarrow> json_object_deep_copy (do_deep_copy n finite_real zero) parents p h
          | BArray _ _ _ \<Rightarrow> json_array_deep_copy (do_deep_copy n finite_real zero) parents p h
          | BString _ \<Rightarrow> json_string_copy p h
          | BInteger _ \<Rightarrow> json_integer_copy p h
          | BReal _ \<Rightarrow> json_real_copy finite_real zero p h
          | _ \<Rightarrow> Some (p, h)) })"

definition json_deep_copy :: "('r \<Rightarrow> bool) \<Rightarrow> 'r \<Rightarrow> nat \<Rightarrow> 'r jheap \<Rightarrow> (nat \<times> 'r jheap) option" where
  "json_deep_copy finite_real zero p h = do_deep_copy (jnext h + 1) finite_real zero [] p h"

declare run_tasks.simps [code] foreach_loop.simps [code] array_copy_loop.simps [code]
  object_deep_loop.simps [code] array_deep_loop.simps [code]

end
