(* ===== verification/JsonOwn.thy ===== *)
theory JsonOwn
  imports JsonValue
begin

text \<open>
  Reference counting of \<^verbatim>\<open>value.c\<close>: every count is the number of references, from the members of other
  values, from pending calls and from the program; operations neither leak a value nor touch a freed one.
\<close>

section \<open>Reference accounting\<close>

text \<open>\<open>C b\<close> are the references that the node \<open>b\<close> holds, \<open>ext a\<close> the number of references to \<open>a\<close> outside the store, \<open>ts\<close> the
  pending calls. In the middle of an operation \<open>C\<close> may differ from the members of a node that is referred
  to from outside.\<close>

definition inrefs :: "nat set \<Rightarrow> (nat \<Rightarrow> nat list) \<Rightarrow> nat \<Rightarrow> nat" where
  "inrefs D C a = (\<Sum>b\<in>D. count_list (C b) a)"

definition singleton :: "'r body \<Rightarrow> bool" where
  "singleton b \<longleftrightarrow> b = BTrue \<or> b = BFalse \<or> b = BNull"

definition statics :: "nat set" where
  "statics = {the_true, the_false, the_null}"

definition owned :: "'r jheap \<Rightarrow> task list \<Rightarrow> (nat \<Rightarrow> nat list) \<Rightarrow> (nat \<Rightarrow> nat) \<Rightarrow> bool" where
  "owned h ts C ext \<longleftrightarrow>
     finite (dom (jmem h)) \<and> 0 \<notin> dom (jmem h) \<and> (\<forall>a \<in> statics. \<exists>n. jmem h a = Some n \<and> refcount n = None) \<and> (\<forall>a \<in> dom (jmem h). a < jnext h \<and> set (C a) \<subseteq> dom (jmem h)) \<and>
     (\<forall>a. ext a > 0 \<longrightarrow> a \<in> dom (jmem h)) \<and>
     (\<forall>a. Decref a \<in> set ts \<longrightarrow> a = 0 \<or> a \<in> dom (jmem h)) \<and>
     (\<forall>a. Free a \<in> set ts \<longrightarrow> a \<in> dom (jmem h) \<and> C a = [] \<and> count_list ts (Free a) = 1) \<and>
     (\<forall>a n. jmem h a = Some n \<longrightarrow> (refcount n = Some 0 \<longleftrightarrow> Free a \<in> set ts) \<and>
        (C a = children (jbody n) \<or> ext a > 0 \<or> Free a \<in> set ts) \<and>
        (refcount n = None \<longrightarrow> singleton (jbody n) \<and> a \<in> statics) \<and>
        (\<forall>c. refcount n = Some c \<longrightarrow> \<not> singleton (jbody n) \<and> c = inrefs (dom (jmem h)) C a + count_list ts (Decref a) + ext a))"

lemma ownedD:
  assumes "owned h ts C ext"
  shows "finite (dom (jmem h))" "0 \<notin> dom (jmem h)"
    "a \<in> dom (jmem h) \<Longrightarrow> a < jnext h" "a \<in> dom (jmem h) \<Longrightarrow> set (C a) \<subseteq> dom (jmem h)"
    "ext a > 0 \<Longrightarrow> a \<in> dom (jmem h)" "Decref a \<in> set ts \<Longrightarrow> a = 0 \<or> a \<in> dom (jmem h)"
    "Free a \<in> set ts \<Longrightarrow> a \<in> dom (jmem h) \<and> C a = [] \<and> count_list ts (Free a) = 1"
    "jmem h a = Some n \<Longrightarrow> refcount n = Some 0 \<longleftrightarrow> Free a \<in> set ts"
    "jmem h a = Some n \<Longrightarrow> C a = children (jbody n) \<or> ext a > 0 \<or> Free a \<in> set ts"
    "jmem h a = Some n \<Longrightarrow> refcount n = None \<Longrightarrow> singleton (jbody n) \<and> a \<in> statics"
    "jmem h a = Some n \<Longrightarrow> refcount n = Some c \<Longrightarrow> \<not> singleton (jbody n) \<and>
       c = inrefs (dom (jmem h)) C a + count_list ts (Decref a) + ext a"
    "a \<in> statics \<Longrightarrow> \<exists>n. jmem h a = Some n \<and> refcount n = None"
  using assms unfolding owned_def by blast+

lemma ownedI:
  assumes "finite (dom (jmem h))" "0 \<notin> dom (jmem h)" "\<And>a. a \<in> dom (jmem h) \<Longrightarrow> a < jnext h"
    "\<And>a. a \<in> dom (jmem h) \<Longrightarrow> set (C a) \<subseteq> dom (jmem h)"
    "\<And>a. ext a > 0 \<Longrightarrow> a \<in> dom (jmem h)" "\<And>a. Decref a \<in> set ts \<Longrightarrow> a = 0 \<or> a \<in> dom (jmem h)"
    "\<And>a. Free a \<in> set ts \<Longrightarrow> a \<in> dom (jmem h) \<and> C a = [] \<and> count_list ts (Free a) = 1"
    "\<And>a n. jmem h a = Some n \<Longrightarrow> refcount n = Some 0 \<longleftrightarrow> Free a \<in> set ts"
    "\<And>a n. jmem h a = Some n \<Longrightarrow> C a = children (jbody n) \<or> ext a > 0 \<or> Free a \<in> set ts"
    "\<And>a n. jmem h a = Some n \<Longrightarrow> refcount n = None \<Longrightarrow> singleton (jbody n) \<and> a \<in> statics"
    "\<And>a n c. jmem h a = Some n \<Longrightarrow> refcount n = Some c \<Longrightarrow> \<not> singleton (jbody n) \<and>
       c = inrefs (dom (jmem h)) C a + count_list ts (Decref a) + ext a"
    "\<And>a. a \<in> statics \<Longrightarrow> \<exists>n. jmem h a = Some n \<and> refcount n = None"
  shows "owned h ts C ext"
  unfolding owned_def using assms by blast

lemma inrefs_zero: "finite D \<Longrightarrow> inrefs D C a = 0 \<longleftrightarrow> (\<forall>b \<in> D. a \<notin> set (C b))"
  by (auto simp: inrefs_def count_list_0_iff)

lemma inrefs_remove: "finite D \<Longrightarrow> p \<in> D \<Longrightarrow> inrefs D C a = count_list (C p) a + inrefs (D - {p}) C a"
  by (simp add: inrefs_def sum.remove)

lemma inrefs_upd_out: "p \<notin> D \<Longrightarrow> inrefs D (C(p := xs)) a = inrefs D C a"
  unfolding inrefs_def by (rule sum.cong) auto

lemma inrefs_upd: "finite D \<Longrightarrow> p \<in> D \<Longrightarrow> inrefs D (C(p := xs)) a + count_list (C p) a = inrefs D C a + count_list xs a"
  using inrefs_remove [of D p C a] inrefs_remove [of D p "C(p := xs)" a] inrefs_upd_out [of p "D - {p}" C xs a] by simp

lemma owned_cong:
  assumes "owned h ts C ext" "\<And>b. b \<in> dom (jmem h) \<Longrightarrow> C' b = C b"
  shows "owned h ts C' ext"
proof -
  have "inrefs (dom (jmem h)) C' a = inrefs (dom (jmem h)) C a" for a
    unfolding inrefs_def by (rule sum.cong) (use assms(2) in auto)
  note r = this and D = ownedD [OF assms(1)]
  show ?thesis
  proof (rule ownedI)
    fix a assume "a \<in> dom (jmem h)"
    then show "set (C' a) \<subseteq> dom (jmem h)" using D(4) assms(2) by auto
  next
    fix a assume "Free a \<in> set ts"
    then show "a \<in> dom (jmem h) \<and> C' a = [] \<and> count_list ts (Free a) = 1" using D(7) [of a] assms(2) [of a] by auto
  next
    fix a n assume "jmem h a = Some n"
    then show "C' a = children (jbody n) \<or> 0 < ext a \<or> Free a \<in> set ts" using D(9) [of a n] assms(2) [OF domI] by metis
  next
    fix a n c assume "jmem h a = Some n" "refcount n = Some c"
    then show "\<not> singleton (jbody n) \<and> c = inrefs (dom (jmem h)) C' a + count_list ts (Decref a) + ext a"
      using D(11) [of a n c] r by simp
  qed (fact D(1) D(2) D(3) D(5) D(6) D(8) D(10) D(12))+
qed

text \<open>One step of the stack each.\<close>

lemma owned_free:
  assumes I: "owned h (Free p # ts) C ext"
  shows "owned (h\<lparr>jmem := (jmem h)(p := None)\<rparr>) ts C ext"
proof -
  note D = ownedD [OF I]
  let ?D = "dom (jmem h)"
  have p: "p \<in> ?D" "C p = []" "Free p \<notin> set ts" using D(7) [of p] by (auto simp: count_list_0_iff)
  then obtain n where n: "jmem h p = Some n" by auto
  have z: "refcount n = Some 0" using D(8) [OF n] by simp
  from D(11) [OF n z] have out: "inrefs ?D C p = 0" "Decref p \<notin> set ts" "ext p = 0" by (auto simp: count_list_0_iff)
  have r: "inrefs (?D - {p}) C a = inrefs ?D C a" for a using inrefs_remove [OF D(1) p(1), of C a] p(2) by simp
  show ?thesis
  proof (rule ownedI)
    fix a assume a: "a \<in> dom (jmem (h\<lparr>jmem := (jmem h)(p := None)\<rparr>))"
    then show "set (C a) \<subseteq> dom (jmem (h\<lparr>jmem := (jmem h)(p := None)\<rparr>))"
      using D(4) [of a] out(1) inrefs_zero [OF D(1), of C p] by auto
  next
    fix a m c assume "jmem (h\<lparr>jmem := (jmem h)(p := None)\<rparr>) a = Some m" "refcount m = Some c"
    then show "\<not> singleton (jbody m) \<and> c = inrefs (dom (jmem (h\<lparr>jmem := (jmem h)(p := None)\<rparr>))) C a + count_list ts (Decref a) + ext a"
      using D(11) [of a m c] r by (auto split: if_splits)
  next
    fix a assume "Decref a \<in> set ts"
    then show "a = 0 \<or> a \<in> dom (jmem (h\<lparr>jmem := (jmem h)(p := None)\<rparr>))" using D(6) [of a] out(2) by auto
  next
    fix a assume "Free a \<in> set ts"
    then show "a \<in> dom (jmem (h\<lparr>jmem := (jmem h)(p := None)\<rparr>)) \<and> C a = [] \<and> count_list ts (Free a) = 1"
      using D(7) [of a] p(3) by (auto split: if_splits)
  next
    fix a m assume "jmem (h\<lparr>jmem := (jmem h)(p := None)\<rparr>) a = Some m"
    then show "C a = children (jbody m) \<or> 0 < ext a \<or> Free a \<in> set ts" using D(9) [of a m] by (auto split: if_splits)
  next
    fix a m assume "jmem (h\<lparr>jmem := (jmem h)(p := None)\<rparr>) a = Some m"
    then show "refcount m = Some 0 \<longleftrightarrow> Free a \<in> set ts" using D(8) [of a m] p(3) by (auto split: if_splits)
  next
    fix a assume "0 < ext a"
    then show "a \<in> dom (jmem (h\<lparr>jmem := (jmem h)(p := None)\<rparr>))" using D(5) [of a] out(3) by auto
  next
    fix a assume "a \<in> statics"
    then show "\<exists>n. jmem (h\<lparr>jmem := (jmem h)(p := None)\<rparr>) a = Some n \<and> refcount n = None" using D(12) [of a] n z by auto
  qed (use D(1-3,10) in \<open>auto split: if_splits\<close>)
qed

text \<open>Only the count of \<open>p\<close> changes.\<close>

lemma owned_count:
  assumes I: "owned h (Decref p # ts) C ext" and n: "jmem h p = Some n" and c: "refcount n = Some c" and c1: "c \<noteq> 1"
  shows "owned (h\<lparr>jmem := (jmem h)(p \<mapsto> n\<lparr>refcount := Some (c - 1)\<rparr>)\<rparr>) ts C ext"
proof -
  note D = ownedD [OF I]
  let ?h = "h\<lparr>jmem := (jmem h)(p \<mapsto> n\<lparr>refcount := Some (c - 1)\<rparr>)\<rparr>"
  have dom: "dom (jmem ?h) = dom (jmem h)" using n by auto
  have c2: "c = inrefs (dom (jmem h)) C p + Suc (count_list ts (Decref p)) + ext p" "\<not> singleton (jbody n)"
    using D(11) [OF n c] by simp_all
  have nf: "Free p \<notin> set ts" using D(8) [OF n] c c2(1) by auto
  show ?thesis
  proof (rule ownedI, unfold dom)
    fix a m assume m: "jmem ?h a = Some m"
    show "refcount m = Some 0 \<longleftrightarrow> Free a \<in> set ts" using m D(8) [of a m] nf c1 c2(1) by (auto split: if_splits)
    show "C a = children (jbody m) \<or> 0 < ext a \<or> Free a \<in> set ts"
      using m D(9) [of a m] D(9) [OF n] by (auto split: if_splits)
    show "singleton (jbody m) \<and> a \<in> statics" if "refcount m = None" using m that D(10) [of a m] by (auto split: if_splits)
    show "\<not> singleton (jbody m) \<and> d = inrefs (dom (jmem h)) C a + count_list ts (Decref a) + ext a" if "refcount m = Some d" for d
      using m that D(11) [of a m d] c2 by (auto split: if_splits)
  next
    fix a assume "Free a \<in> set ts"
    then show "a \<in> dom (jmem h) \<and> C a = [] \<and> count_list ts (Free a) = 1" using D(7) [of a] by auto
  next
    fix a assume "Decref a \<in> set ts"
    then show "a = 0 \<or> a \<in> dom (jmem h)" using D(6) [of a] by auto
  next
    fix a assume "a \<in> statics"
    then show "\<exists>n. jmem ?h a = Some n \<and> refcount n = None" using D(12) [of a] n c by auto
  qed (use D(1-5) in auto)
qed

lemma owned_skip:
  assumes I: "owned h (Decref p # ts) C ext" and n: "p = 0 \<or> (\<exists>n. jmem h p = Some n \<and> refcount n = None)"
  shows "owned h ts C ext"
proof -
  note D = ownedD [OF I]
  show ?thesis
  proof (rule ownedI)
    fix a m c assume m: "jmem h a = Some m" "refcount m = Some c"
    then have "a \<noteq> p" using n D(2) by auto
    with D(11) [OF m] show "\<not> singleton (jbody m) \<and> c = inrefs (dom (jmem h)) C a + count_list ts (Decref a) + ext a" by simp
  next
    fix a assume "Free a \<in> set ts"
    then show "a \<in> dom (jmem h) \<and> C a = [] \<and> count_list ts (Free a) = 1" using D(7) [of a] by auto
  next
    fix a m assume "jmem h a = Some m"
    then show "refcount m = Some 0 \<longleftrightarrow> Free a \<in> set ts" "C a = children (jbody m) \<or> 0 < ext a \<or> Free a \<in> set ts"
      using D(8,9) [of a m] by auto
  qed (use D(1-6,10,12) in auto)
qed

text \<open>The last reference goes: the node is now dead, its references are pending.\<close>

lemma count_list_map_Decref [simp]: "count_list (map Decref xs) (Decref a) = count_list xs a" "count_list (map Decref xs) (Free a) = 0"
  by (induction xs) auto

lemma owned_dead:
  assumes I: "owned h (Decref p # ts) C ext" and n: "jmem h p = Some n" and c: "refcount n = Some 1"
  shows "owned (h\<lparr>jmem := (jmem h)(p \<mapsto> n\<lparr>refcount := Some 0\<rparr>)\<rparr>) (json_delete p (jbody n) @ ts) (C(p := [])) ext"
    "C p = children (jbody n)" "ext p = 0"
proof -
  note D = ownedD [OF I]
  let ?h = "h\<lparr>jmem := (jmem h)(p \<mapsto> n\<lparr>refcount := Some 0\<rparr>)\<rparr>" let ?D = "dom (jmem h)" let ?xs = "children (jbody n)"
  have dom: "dom (jmem ?h) = ?D" using n by auto
  have p: "p \<in> ?D" using n by auto
  have z: "inrefs ?D C p = 0" "Decref p \<notin> set ts" "ext p = 0" "\<not> singleton (jbody n)"
    using D(11) [OF n c] by (auto simp: count_list_0_iff)
  have nf: "Free p \<notin> set ts" using D(8) [OF n] c by auto
  show C: "C p = ?xs" using D(9) [OF n] z(3) nf by auto
  show "ext p = 0" by (rule z(3))
  have ts: "json_delete p (jbody n) @ ts = map Decref ?xs @ Free p # ts"
    using z(4) by (cases "jbody n") (auto simp: json_delete_def singleton_def)
  have r: "inrefs ?D (C(p := [])) a + count_list ?xs a = inrefs ?D C a" for a
    using inrefs_upd [OF D(1) p, of C "[]" a] C by simp
  have np: "p \<notin> set (C b)" if "b \<in> ?D" for b using z(1) inrefs_zero [OF D(1)] that by blast
  show "owned ?h (json_delete p (jbody n) @ ts) (C(p := [])) ext"
  proof (rule ownedI, unfold dom ts)
    fix a m assume m: "jmem ?h a = Some m"
    show "refcount m = Some 0 \<longleftrightarrow> Free a \<in> set (map Decref ?xs @ Free p # ts)"
      using m D(8) [of a m] by (auto split: if_splits)
    show "(C(p := [])) a = children (jbody m) \<or> 0 < ext a \<or> Free a \<in> set (map Decref ?xs @ Free p # ts)"
      using m D(9) [of a m] by (auto split: if_splits)
    show "singleton (jbody m) \<and> a \<in> statics" if "refcount m = None" using m that D(10) [of a m] by (auto split: if_splits)
    show "\<not> singleton (jbody m) \<and> d = inrefs ?D (C(p := [])) a + count_list (map Decref ?xs @ Free p # ts) (Decref a) + ext a"
      if "refcount m = Some d" for d
    proof (cases "a = p")
      case True
      have "count_list ?xs p = 0" using np [OF p] C by (simp add: count_list_0_iff)
      then show ?thesis using True m that z r [of p] by (auto simp: count_list_0_iff)
    next
      case False
      then show ?thesis using m that D(11) [of a m d] r [of a] by (auto split: if_splits)
    qed
  next
    fix a assume a: "Free a \<in> set (map Decref ?xs @ Free p # ts)"
    then have "a = p \<or> Free a \<in> set ts" by auto
    then show "a \<in> ?D \<and> (C(p := [])) a = [] \<and> count_list (map Decref ?xs @ Free p # ts) (Free a) = 1"
      using D(7) [of a] p nf by (auto simp: count_list_0_iff)
  next
    fix a assume "Decref a \<in> set (map Decref ?xs @ Free p # ts)"
    then show "a = 0 \<or> a \<in> ?D" using D(6) [of a] D(4) [OF p] C by auto
  next
    fix a assume "a \<in> statics"
    then show "\<exists>n. jmem ?h a = Some n \<and> refcount n = None" using D(12) [of a] n c by auto
  qed (use D(1-5) in auto)
qed

section \<open>Releasing references\<close>

definition live :: "'r jheap \<Rightarrow> nat" where
  "live h = card {a. \<exists>n. jmem h a = Some n \<and> refcount n \<noteq> Some 0}"

text \<open>What \<open>h'\<close> keeps of \<open>h\<close>.\<close>

definition remains :: "'r jheap \<Rightarrow> 'r jheap \<Rightarrow> bool" where
  "remains h h' \<longleftrightarrow> jnext h' = jnext h \<and>
     (\<forall>a n'. jmem h' a = Some n' \<longrightarrow> (\<exists>n. jmem h a = Some n \<and> jbody n' = jbody n \<and> (refcount n' = None \<longleftrightarrow> refcount n = None)))"

lemma remains_trans: "remains h1 h2 \<Longrightarrow> remains h2 h3 \<Longrightarrow> remains h1 h3"
  unfolding remains_def by metis

lemma remains_simps [simp]:
  "remains h h" "remains h (h\<lparr>jmem := (jmem h)(p := None)\<rparr>)"
  "jmem h p = Some n \<Longrightarrow> refcount n = Some c \<Longrightarrow> remains h (h\<lparr>jmem := (jmem h)(p \<mapsto> n\<lparr>refcount := Some d\<rparr>)\<rparr>)"
  by (auto simp: remains_def)

lemma finite_live: "owned h ts C ext \<Longrightarrow> finite {a. \<exists>n. jmem h a = Some n \<and> refcount n \<noteq> Some 0}"
  by (rule finite_subset [OF _ ownedD(1)]) auto

definition finished :: "task list \<Rightarrow> 'r jheap \<Rightarrow> (nat \<Rightarrow> nat list) \<Rightarrow> (nat \<Rightarrow> nat) \<Rightarrow> 'r jheap \<Rightarrow> bool" where
  "finished ts h C ext h' \<longleftrightarrow> run_tasks ts h = Some h' \<and> owned h' [] C ext \<and> remains h h' \<and> (\<forall>a. Free a \<in> set ts \<longrightarrow> a \<notin> dom (jmem h'))"

lemma remains_dom: "remains h h' \<Longrightarrow> a \<notin> dom (jmem h) \<Longrightarrow> a \<notin> dom (jmem h')"
  by (fastforce simp: remains_def)

lemma live_mono:
  assumes "owned h ts C ext" "\<And>a n'. jmem h' a = Some n' \<Longrightarrow> refcount n' \<noteq> Some 0 \<Longrightarrow> \<exists>n. jmem h a = Some n \<and> refcount n \<noteq> Some 0"
  shows "live h' \<le> live h"
  unfolding live_def by (rule card_mono [OF finite_live [OF assms(1)]]) (use assms(2) in blast)

lemma live_dead:
  assumes "owned h ts C ext" "jmem h p = Some n" "refcount n = Some 1"
  shows "live (h\<lparr>jmem := (jmem h)(p \<mapsto> n\<lparr>refcount := Some 0\<rparr>)\<rparr>) < live h"
  unfolding live_def
proof (rule psubset_card_mono [OF finite_live [OF assms(1)]], rule psubsetI)
  let ?h = "h\<lparr>jmem := (jmem h)(p \<mapsto> n\<lparr>refcount := Some 0\<rparr>)\<rparr>"
  show "{a. \<exists>n. jmem ?h a = Some n \<and> refcount n \<noteq> Some 0} \<subseteq> {a. \<exists>n. jmem h a = Some n \<and> refcount n \<noteq> Some 0}"
    by (auto split: if_splits)
  have "p \<in> {a. \<exists>n. jmem h a = Some n \<and> refcount n \<noteq> Some 0}" "p \<notin> {a. \<exists>n. jmem ?h a = Some n \<and> refcount n \<noteq> Some 0}"
    using assms(2,3) by auto
  then show "{a. \<exists>n. jmem ?h a = Some n \<and> refcount n \<noteq> Some 0} \<noteq> {a. \<exists>n. jmem h a = Some n \<and> refcount n \<noteq> Some 0}" by blast
qed

lemma finished_step:
  assumes "\<exists>h'. finished ts' h1 C ext h'" "run_tasks (t # ts) h = run_tasks ts' h1" "remains h h1" "set ts \<subseteq> set ts'"
    "\<And>a. t = Free a \<Longrightarrow> a \<notin> dom (jmem h1)"
  shows "\<exists>h'. finished (t # ts) h C ext h'"
proof -
  from assms(1) obtain h' where h': "run_tasks ts' h1 = Some h'" "owned h' [] C ext" "remains h1 h'" "\<forall>a. Free a \<in> set ts' \<longrightarrow> a \<notin> dom (jmem h')"
    by (auto simp: finished_def)
  have "a \<notin> dom (jmem h')" if "Free a \<in> set (t # ts)" for a
    using that h'(4) assms(4) remains_dom [OF h'(3) assms(5)] by auto
  then show ?thesis using h' assms(2) remains_trans [OF assms(3)] unfolding finished_def by auto
qed

lemma run_tasks_bounded:
  "owned h ts C ext \<Longrightarrow> live h \<le> k \<Longrightarrow> \<exists>h'. finished ts h C ext h'"
proof (induction k arbitrary: h ts C rule: less_induct)
  case (less k)
  from less.prems show ?case
  proof (induction ts arbitrary: h)
    case Nil
    then show ?case unfolding finished_def by (subst run_tasks.simps) simp
  next
    case (Cons t ts)
    note I = Cons.prems(1)
    show ?case
    proof (cases t)
      case (Free p)
      let ?h = "h\<lparr>jmem := (jmem h)(p := None)\<rparr>"
      have J: "owned ?h ts C ext" using owned_free I Free by simp
      have "p \<in> dom (jmem h)" using ownedD(7) [OF I, of p] Free by simp
      then have "run_tasks (t # ts) h = run_tasks ts ?h" using Free by (subst run_tasks.simps) auto
      moreover have "live ?h \<le> k"
        by (rule le_trans [OF live_mono [OF I] Cons.prems(2)]) (auto split: if_splits)
      ultimately show ?thesis using Cons.IH [OF J] Free by (intro finished_step [of ts ?h]) auto
    next
      case (Decref p)
      show ?thesis
      proof (cases "p = 0 \<or> (\<exists>n. jmem h p = Some n \<and> refcount n = None)")
        case True
        then have J: "owned h ts C ext" using owned_skip I Decref by blast
        have "run_tasks (t # ts) h = run_tasks ts h" using True Decref by (subst run_tasks.simps) auto
        then show ?thesis using Cons.IH [OF J Cons.prems(2)] Decref by (intro finished_step [of ts h]) auto
      next
        case False
        then obtain n c where n: "jmem h p = Some n" "refcount n = Some c" "p \<noteq> 0" using ownedD(6) [OF I, of p] Decref by auto
        let ?h = "h\<lparr>jmem := (jmem h)(p \<mapsto> n\<lparr>refcount := Some (c - 1)\<rparr>)\<rparr>"
        have I': "owned h (Decref p # ts) C ext" using I Decref by simp
        have "c \<noteq> 0" using ownedD(11) [OF I' n(1,2)] by simp
        have run: "run_tasks (t # ts) h = run_tasks (if c - 1 = 0 then json_delete p (jbody n) @ ts else ts) ?h"
          using n Decref by (subst run_tasks.simps) simp
        have rem: "remains h ?h" using remains_simps(3) [OF n(1,2)] .
        show ?thesis
        proof (cases "c = 1")
          case True
          have c1: "refcount n = Some 1" using n(2) True by simp
          note J = owned_dead [OF I' n(1) c1]
          have l: "live ?h < k" using live_dead [OF I n(1) c1] Cons.prems(2) True by simp
          have "\<exists>h'. finished (json_delete p (jbody n) @ ts) ?h (C(p := [])) ext h'"
            using less.IH [OF l, of ?h] J(1) True by simp
          then obtain h' where h': "finished (json_delete p (jbody n) @ ts) ?h (C(p := [])) ext h'" by blast
          have "Free p \<in> set (json_delete p (jbody n))"
            using ownedD(11) [OF I' n(1,2)] by (cases "jbody n") (auto simp: json_delete_def singleton_def)
          then have "p \<notin> dom (jmem h')" using h' by (simp add: finished_def)
          moreover have "owned h' [] (C(p := [])) ext" using h' by (simp add: finished_def)
          ultimately have "owned h' [] C ext" using owned_cong [of h' "[]" "C(p := [])" ext C] by (metis fun_upd_apply)
          with h' have "\<exists>h'. finished (json_delete p (jbody n) @ ts) ?h C ext h'" by (auto simp: finished_def)
          then show ?thesis using run True rem Decref by (intro finished_step [of "json_delete p (jbody n) @ ts" ?h]) auto
        next
          case False
          have J: "owned ?h ts C ext" by (rule owned_count [OF I' n(1,2) False])
          have "live ?h \<le> k"
            by (rule le_trans [OF live_mono [OF I] Cons.prems(2)]) (use n \<open>c \<noteq> 0\<close> in \<open>auto split: if_splits\<close>)
          then show ?thesis using Cons.IH [OF J] run False \<open>c \<noteq> 0\<close> rem Decref by (intro finished_step [of ts ?h]) auto
        qed
      qed
    qed
  qed
qed

lemma run_tasks_ok:
  assumes "owned h ts C ext"
  shows "\<exists>h'. run_tasks ts h = Some h' \<and> owned h' [] C ext \<and> remains h h'"
  using run_tasks_bounded [OF assms order_refl] by (auto simp: finished_def)

section \<open>Moving references\<close>

text \<open>References go from the outside or from pending calls into the node \<open>p\<close>, or back; the counts stay.\<close>

lemma owned_move:
  assumes I: "owned h (map Decref us) C ext" and p: "p \<in> dom (jmem h)"
    and bal: "\<And>a n c. jmem h a = Some n \<Longrightarrow> refcount n = Some c \<Longrightarrow> count_list xs a + count_list vs a + ext' a = count_list (C p) a + count_list us a + ext a"
    and xs: "set xs \<subseteq> dom (jmem h)" "set vs \<subseteq> dom (jmem h)" and ext': "\<And>a. 0 < ext' a \<Longrightarrow> a \<in> dom (jmem h)"
    and kids: "\<And>b n. b \<noteq> p \<Longrightarrow> jmem h b = Some n \<Longrightarrow> C b = children (jbody n) \<or> 0 < ext' b"
      "\<And>n. jmem h p = Some n \<Longrightarrow> xs = children (jbody n) \<or> 0 < ext' p"
  shows "owned h (map Decref vs) (C(p := xs)) ext'"
proof -
  note D = ownedD [OF I]
  show ?thesis
  proof (rule ownedI)
    fix a n c assume n: "jmem h a = Some n" "refcount n = Some c"
    then show "\<not> singleton (jbody n) \<and> c = inrefs (dom (jmem h)) (C(p := xs)) a + count_list (map Decref vs) (Decref a) + ext' a"
      using D(11) [OF n] inrefs_upd [OF D(1) p, of C xs a] bal [OF n] by simp
  next
    fix a n assume n: "jmem h a = Some n"
    then show "(C(p := xs)) a = children (jbody n) \<or> 0 < ext' a \<or> Free a \<in> set (map Decref vs)"
      using kids by auto
    show "refcount n = Some 0 \<longleftrightarrow> Free a \<in> set (map Decref vs)" using D(8) [OF n] by auto
  qed (use D(1-4,10,12) xs ext' in auto)
qed

lemma owned_set_body:
  assumes I: "owned h ts C ext" and p: "jmem h p = Some n" and c: "refcount n \<noteq> None" "\<not> singleton b" "C p = children b"
  shows "owned (h\<lparr>jmem := (jmem h)(p \<mapsto> n\<lparr>jbody := b\<rparr>)\<rparr>) ts C ext"
proof -
  note D = ownedD [OF I]
  let ?h = "h\<lparr>jmem := (jmem h)(p \<mapsto> n\<lparr>jbody := b\<rparr>)\<rparr>"
  have dom: "dom (jmem ?h) = dom (jmem h)" using p by auto
  show ?thesis
  proof (rule ownedI, unfold dom)
    fix a m assume m: "jmem ?h a = Some m"
    show "refcount m = Some 0 \<longleftrightarrow> Free a \<in> set ts" using m D(8) [of a m] D(8) [OF p] by (auto split: if_splits)
    show "C a = children (jbody m) \<or> 0 < ext a \<or> Free a \<in> set ts" using m c(3) D(9) [of a m] by (auto split: if_splits)
    show "singleton (jbody m) \<and> a \<in> statics" if "refcount m = None" using m that c(1) D(10) [of a m] by (auto split: if_splits)
    show "\<not> singleton (jbody m) \<and> d = inrefs (dom (jmem h)) C a + count_list ts (Decref a) + ext a" if "refcount m = Some d" for d
      using m that c(2) D(11) [of a m d] D(11) [OF p, of d] by (auto split: if_splits)
  next
    fix a assume "a \<in> statics"
    then show "\<exists>n. jmem ?h a = Some n \<and> refcount n = None" using D(12) [of a] p by auto
  qed (use D(1-7) in auto)
qed

lemma owned_init:
  assumes I: "owned h [] C ext" and b: "children b = []" "\<not> singleton b" and C: "C (jnext h) = []" and pos: "0 < jnext h"
  shows "owned (snd (json_init b h)) [] C (ext(jnext h := 1))"
proof -
  note D = ownedD [OF I]
  let ?p = "jnext h" let ?h = "snd (json_init b h)"
  have new: "?p \<notin> dom (jmem h)" using D(3) by fastforce
  have h: "jmem ?h = (jmem h)(?p \<mapsto> \<lparr>refcount = Some 1, jbody = b\<rparr>)" "jnext ?h = Suc ?p" by (simp_all add: json_init_def)
  have dom: "dom (jmem ?h) = insert ?p (dom (jmem h))" by (auto simp: h)
  have r: "inrefs (insert ?p (dom (jmem h))) C a = inrefs (dom (jmem h)) C a" for a
    using inrefs_remove [of "insert ?p (dom (jmem h))" ?p C a] D(1) C new by simp
  have z: "inrefs (dom (jmem h)) C ?p = 0" using inrefs_zero [OF D(1)] D(4) new by blast
  show ?thesis
  proof (rule ownedI, unfold dom)
    fix a m assume m: "jmem ?h a = Some m"
    show "refcount m = Some 0 \<longleftrightarrow> Free a \<in> set []" using m D(8) [of a m] by (auto simp: h split: if_splits)
    show "C a = children (jbody m) \<or> 0 < (ext(?p := 1)) a \<or> Free a \<in> set []" using m D(9) [of a m] by (auto simp: h split: if_splits)
    show "singleton (jbody m) \<and> a \<in> statics" if "refcount m = None" using m that D(10) [of a m] by (auto simp: h split: if_splits)
    show "\<not> singleton (jbody m) \<and> d = inrefs (insert ?p (dom (jmem h))) C a + count_list [] (Decref a) + (ext(?p := 1)) a" if "refcount m = Some d" for d
      using m that b z D(11) [of a m d] unfolding r by (auto simp: h split: if_splits)
  next
    fix a assume "a \<in> insert ?p (dom (jmem h))"
    then consider "a = ?p" | "a \<in> dom (jmem h)" by blast
    then show "set (C a) \<subseteq> insert ?p (dom (jmem h))" "a < jnext ?h" using D(4) [of a] D(3) [of a] C h(2) by (cases; auto)+
  next
    fix a assume "a \<in> statics"
    then show "\<exists>n. jmem ?h a = Some n \<and> refcount n = None" using D(12) [of a] new by (auto simp: h)
  qed (use D(1,2) D(5) pos in \<open>auto split: if_splits\<close>)
qed

lemma owned_incref:
  assumes I: "owned h [] C ext" and p: "p \<in> dom (jmem h)"
  shows "\<exists>h'. json_incref p h = Some (p, h') \<and> owned h' [] C (ext(p := ext p + 1)) \<and> remains h h' \<and> dom (jmem h') = dom (jmem h)"
proof -
  note D = ownedD [OF I]
  obtain n where n: "jmem h p = Some n" using p by auto
  have p0: "p \<noteq> 0" using p D(2) by auto
  show ?thesis
  proof (cases "refcount n")
    case None
    have "owned h [] C (ext(p := ext p + 1))"
    proof (rule ownedI)
      fix a m c assume m: "jmem h a = Some m" "refcount m = Some c"
      then show "\<not> singleton (jbody m) \<and> c = inrefs (dom (jmem h)) C a + count_list [] (Decref a) + (ext(p := ext p + 1)) a"
        using D(11) [OF m] n None by auto
    qed (use D p in \<open>auto split: if_splits\<close>)
    then show ?thesis using n None p0 by (auto simp: json_incref_def)
  next
    case (Some c)
    let ?h = "h\<lparr>jmem := (jmem h)(p \<mapsto> n\<lparr>refcount := Some (c + 1)\<rparr>)\<rparr>"
    have dom: "dom (jmem ?h) = dom (jmem h)" using n by auto
    have "owned ?h [] C (ext(p := ext p + 1))"
    proof (rule ownedI, unfold dom)
      fix a m assume m: "jmem ?h a = Some m"
      show "refcount m = Some 0 \<longleftrightarrow> Free a \<in> set []" using m D(8) [of a m] by (auto split: if_splits)
      show "C a = children (jbody m) \<or> 0 < (ext(p := ext p + 1)) a \<or> Free a \<in> set []" using m D(9) [of a m] by (auto split: if_splits)
      show "singleton (jbody m) \<and> a \<in> statics" if "refcount m = None" using m that D(10) [of a m] by (auto split: if_splits)
      show "\<not> singleton (jbody m) \<and> d = inrefs (dom (jmem h)) C a + count_list [] (Decref a) + (ext(p := ext p + 1)) a" if "refcount m = Some d" for d
        using m that D(11) [of a m d] D(11) [OF n Some] by (auto split: if_splits)
    next
      fix a assume "a \<in> statics"
      then show "\<exists>n. jmem ?h a = Some n \<and> refcount n = None" using D(12) [of a] n Some by auto
    qed (use D(1-5) p in \<open>auto split: if_splits\<close>)
    then show ?thesis using n Some p0 remains_simps(3) [OF n Some, of "c + 1"] dom by (auto simp: json_incref_def)
  qed
qed

section \<open>Sound stores\<close>

definition kids :: "'r jheap \<Rightarrow> nat \<Rightarrow> nat list" where
  "kids h b = (case jmem h b of None \<Rightarrow> [] | Some n \<Rightarrow> children (jbody n))"

fun body_ok :: "'r body \<Rightarrow> bool" where
  "body_ok (BArray s n t) \<longleftrightarrow> n \<le> s \<and> length t = s"
| "body_ok (BObject ms) \<longleftrightarrow> distinct (map fst ms)"
| "body_ok _ \<longleftrightarrow> True"

definition sound :: "'r jheap \<Rightarrow> (nat \<Rightarrow> nat) \<Rightarrow> bool" where
  "sound h ext \<longleftrightarrow> owned h [] (kids h) ext \<and> (\<forall>a n. jmem h a = Some n \<longrightarrow> body_ok (jbody n)) \<and> 0 < jnext h"

definition upd_body :: "'r jheap \<Rightarrow> nat \<Rightarrow> 'r jnode \<Rightarrow> 'r body \<Rightarrow> 'r jheap" where
  "upd_body h p n b = h\<lparr>jmem := (jmem h)(p \<mapsto> n\<lparr>jbody := b\<rparr>)\<rparr>"

lemma set_body_upd: "jmem h p = Some n \<Longrightarrow> set_body h p b = Some (upd_body h p n b)"
  by (simp add: set_body_def upd_body_def)

lemma sound_kids: "sound h ext \<Longrightarrow> jmem h b = Some n \<Longrightarrow> set (children (jbody n)) \<subseteq> dom (jmem h)"
  using ownedD(4) [of h "[]" "kids h" ext b] by (auto simp: sound_def kids_def)

lemma sound_ext: "sound h ext \<Longrightarrow> 0 < ext p \<Longrightarrow> \<exists>n. jmem h p = Some n \<and> p \<noteq> 0"
proof -
  assume a: "sound h ext" "0 < ext p"
  have o: "owned h [] (kids h) ext" using a(1) by (simp add: sound_def)
  have "p \<in> dom (jmem h)" by (rule ownedD(5) [OF o a(2)])
  then show ?thesis using ownedD(2) [OF o] by auto
qed

lemma sound_mortal: "sound h ext \<Longrightarrow> jmem h p = Some n \<Longrightarrow> \<not> singleton (jbody n) \<Longrightarrow> refcount n \<noteq> None"
  using ownedD(10) [of h "[]" "kids h" ext p n] by (auto simp: sound_def)

text \<open>An operation on a container: the references \<open>vs\<close> are released, the container \<open>p\<close> then has the body \<open>b\<close>. \<open>given\<close> are
  references of the program that the container takes over.\<close>

definition exchange :: "'r jheap \<Rightarrow> (nat \<Rightarrow> nat) \<Rightarrow> nat \<Rightarrow> 'r body \<Rightarrow> nat list \<Rightarrow> (nat \<Rightarrow> nat) \<Rightarrow> bool" where
  "exchange h ext p b vs ext' \<longleftrightarrow> 0 < ext p \<and> 0 < ext' p \<and> \<not> singleton b \<and> body_ok b \<and>
     (\<exists>n. jmem h p = Some n \<and> \<not> singleton (jbody n)) \<and> set (children b) \<subseteq> dom (jmem h) \<and> set vs \<subseteq> dom (jmem h) \<and>
     (\<forall>a. 0 < ext' a \<longrightarrow> a \<in> dom (jmem h)) \<and>
     (\<forall>a n c. jmem h a = Some n \<longrightarrow> refcount n = Some c \<longrightarrow>
        count_list (children b) a + count_list vs a + ext' a = count_list (kids h p) a + ext a)"

lemma exchange_owned:
  assumes "sound h ext" "exchange h ext p b vs ext'"
  shows "owned h (map Decref vs) ((kids h)(p := children b)) ext'"
proof (rule owned_move [where us = "[]" and ext = ext])
  show "owned h (map Decref []) (kids h) ext" using assms(1) by (simp add: sound_def)
qed (use assms(2) in \<open>auto simp: exchange_def kids_def\<close>)

lemma sound_upd:
  assumes o: "owned h1 [] ((kids h)(p := children b)) ext'" and r: "remains h h1" and s: "sound h ext" and n1: "jmem h1 p = Some n1"
    and e: "exchange h ext p b vs ext'"
  shows "sound (upd_body h1 p n1 b) ext'"
proof -
  obtain n where n: "jmem h p = Some n" "\<not> singleton (jbody n)" using e by (auto simp: exchange_def)
  have mo: "refcount n1 \<noteq> None" using r n n1 sound_mortal [OF s n] by (fastforce simp: remains_def)
  let ?h = "upd_body h1 p n1 b"
  have "owned ?h [] ((kids h)(p := children b)) ext'"
    unfolding upd_body_def using e mo by (intro owned_set_body [OF o n1]) (auto simp: exchange_def)
  then have "owned ?h [] (kids ?h) ext'"
  proof (rule owned_cong)
    fix a assume "a \<in> dom (jmem ?h)"
    then show "kids ?h a = ((kids h)(p := children b)) a"
      using r by (fastforce simp: kids_def upd_body_def remains_def split: if_splits option.splits)
  qed
  moreover have "body_ok (jbody m)" if "jmem ?h a = Some m" for a m
    using that r s e by (fastforce simp: upd_body_def remains_def sound_def exchange_def split: if_splits)
  ultimately show ?thesis using r s by (simp add: sound_def upd_body_def remains_def)
qed

lemma release_then_set:
  assumes s: "sound h ext" and e: "exchange h ext p b vs ext'" and n: "jmem h p = Some n"
  shows "\<exists>h1 n1. run_tasks (map Decref vs) h = Some h1 \<and> jmem h1 p = Some n1 \<and> jbody n1 = jbody n \<and> sound (upd_body h1 p n1 b) ext'"
proof -
  from run_tasks_ok [OF exchange_owned [OF s e]] obtain h1 where
    h1: "run_tasks (map Decref vs) h = Some h1" "owned h1 [] ((kids h)(p := children b)) ext'" "remains h h1" by blast
  have "0 < ext' p" using e by (simp add: exchange_def)
  then have "p \<in> dom (jmem h1)" by (rule ownedD(5) [OF h1(2)])
  then obtain n1 where n1: "jmem h1 p = Some n1" by auto
  then have "jbody n1 = jbody n" using h1(3) n by (fastforce simp: remains_def)
  with h1(1) n1 sound_upd [OF h1(2,3) s n1 e] show ?thesis by blast
qed

lemma set_then_release:
  assumes s: "sound h ext" and e: "exchange h ext p b vs ext'" and n: "jmem h p = Some n"
  shows "\<exists>h1. run_tasks (map Decref vs) (upd_body h p n b) = Some h1 \<and> sound h1 ext'"
proof -
  let ?h = "upd_body h p n b" let ?C = "(kids h)(p := children b)"
  have mo: "refcount n \<noteq> None" using e n sound_mortal [OF s n] by (auto simp: exchange_def)
  have "owned ?h (map Decref vs) ?C ext'"
    unfolding upd_body_def using e mo by (intro owned_set_body [OF exchange_owned [OF s e] n]) (auto simp: exchange_def)
  from run_tasks_ok [OF this] obtain h1 where h1: "run_tasks (map Decref vs) ?h = Some h1" "owned h1 [] ?C ext'" "remains ?h h1" by blast
  have "owned h1 [] (kids h1) ext'"
  proof (rule owned_cong [OF h1(2)])
    fix a assume "a \<in> dom (jmem h1)"
    then show "kids h1 a = ?C a" using h1(3) by (fastforce simp: kids_def upd_body_def remains_def split: if_splits option.splits)
  qed
  moreover have "body_ok (jbody m)" if "jmem h1 a = Some m" for a m
    using that h1(3) s e by (fastforce simp: upd_body_def remains_def sound_def exchange_def split: if_splits)
  ultimately show ?thesis using h1(1,3) s by (auto simp: sound_def upd_body_def remains_def)
qed

lemma owned_decref:
  assumes s: "sound h ext" and p: "0 < ext p"
  shows "owned h (map Decref [p]) (kids h) (ext(p := ext p - 1))"
proof -
  have o: "owned h (map Decref []) (kids h) ext" using s by (simp add: sound_def)
  have d: "p \<in> dom (jmem h)" by (rule ownedD(5) [OF o p])
  have "owned h (map Decref [p]) ((kids h)(p := kids h p)) (ext(p := ext p - 1))"
  proof (rule owned_move [OF o d])
    fix a assume "0 < (ext(p := ext p - 1)) a"
    then show "a \<in> dom (jmem h)" using ownedD(5) [OF o, of a] d by (auto split: if_splits)
  qed (use d ownedD(4) [OF o d] p in \<open>auto simp: kids_def\<close>)
  then show ?thesis by simp
qed

lemma decref_sound:
  assumes s: "sound h ext" and p: "0 < ext p"
  shows "\<exists>h'. json_decref p h = Some h' \<and> sound h' (ext(p := ext p - 1))"
proof -
  from run_tasks_ok [OF owned_decref [OF assms]] obtain h1 where
    h1: "run_tasks [Decref p] h = Some h1" "owned h1 [] (kids h) (ext(p := ext p - 1))" "remains h h1" by auto
  have "owned h1 [] (kids h1) (ext(p := ext p - 1))"
    by (rule owned_cong [OF h1(2)]) (use h1(3) in \<open>fastforce simp: kids_def remains_def\<close>)
  moreover have "body_ok (jbody m)" if "jmem h1 a = Some m" for a m
    using that h1(3) s by (fastforce simp: remains_def sound_def)
  ultimately show ?thesis using h1(1,3) s by (auto simp: sound_def json_decref_def remains_def)
qed

section \<open>Array operations\<close>

lemma json_is_at [simp]: "jmem h p = Some n \<Longrightarrow> p \<noteq> 0 \<Longrightarrow> json_is t h p = Some (t (jbody n))"
  by (simp add: json_is_def)

lemma at_simps [simp]:
  "jmem h p = Some n \<Longrightarrow> jbody n = BArray s m t \<Longrightarrow> array_at h p = Some (s, m, t)"
  "jmem h p = Some n \<Longrightarrow> jbody n = BObject ms \<Longrightarrow> members_at h p = Some ms"
  "jmem h p = Some n \<Longrightarrow> set_array h p (s, m, t) = Some (upd_body h p n (BArray s m t))"
  by (simp_all add: array_at_def members_at_def body_at_def set_array_def set_body_upd)

lemma grow_spec:
  assumes "n \<le> s" "length t = s"
  shows "\<exists>s' t'. json_array_grow k True (s, n, t) = Some (None, s', n, t') \<and> n + k \<le> s' \<and> length t' = s' \<and> take n t' = take n t"
  using assms by (auto simp: json_array_grow_def array_copy_def Let_def)

lemma json_array_append_new_ok:
  assumes "jmem h p = Some nd" "jbody nd = BArray s n t" "body_ok (jbody nd)" "p \<noteq> 0" "v \<noteq> 0" "v \<noteq> p"
  shows "\<exists>s' t'. json_array_append_new p v h = Some (0, upd_body h p nd (BArray s' (n + 1) t')) \<and>
    body_ok (BArray s' (n + 1) t' :: 'r body) \<and> take (n + 1) t' = take n t @ [v]"
proof -
  from grow_spec [of n s t 1] assms(2,3) obtain s' t' where
    g: "json_array_grow 1 True (s, n, t) = Some (None, s', n, t')" "n < s'" "length t' = s'" "take n t' = take n t" by auto
  show ?thesis
    using assms g by (intro exI [of _ s'] exI [of _ "t'[n := v]"])
      (simp add: json_array_append_new_def table_put_def take_Suc_conv_app_nth)
qed

lemma json_array_insert_new_ok:
  assumes "jmem h p = Some nd" "jbody nd = BArray s n t" "body_ok (jbody nd)" "p \<noteq> 0" "v \<noteq> 0" "v \<noteq> p" "i \<le> n"
  shows "\<exists>s' t'. json_array_insert_new p i v h = Some (0, upd_body h p nd (BArray s' (n + 1) t')) \<and>
    body_ok (BArray s' (n + 1) t' :: 'r body) \<and> take (n + 1) t' = take i t @ v # drop i (take n t)"
proof -
  have ok: "n \<le> s" "length t = s" using assms(2,3) by auto
  show ?thesis
  proof (cases "n + 1 \<le> s")
    case True
    then have "json_array_grow 1 False (s, n, t) = Some (None, s, n, t)" by (simp add: json_array_grow_def)
    moreover have "array_move t (i + 1) i (n - i) = Some (take (i + 1) t @ take (n - i) (drop i t) @ drop (n + 1) t)"
      using True ok assms(7) by (simp add: array_move_def array_copy_def)
    ultimately show ?thesis
      using assms True ok by (intro exI [of _ s] exI [of _ "(take (i + 1) t @ take (n - i) (drop i t) @ drop (n + 1) t)[i := v]"])
        (auto simp: json_array_insert_new_def table_put_def take_Suc_conv_app_nth list_update_append take_drop min_def Suc_diff_le)
  next
    case False
    define z where "z = max (s + 1) (s * 2)"
    have z: "n + 1 \<le> z" and ns: "n = s" using ok z_def False by auto
    have "json_array_grow 1 False (s, n, t) = Some (Some t, z, n, replicate z 0)"
      using False by (simp add: json_array_grow_def Let_def z_def)
    moreover have "array_copy (replicate z 0) 0 t 0 i = Some (take i t @ replicate (z - i) 0)"
      using z ok assms(7) by (simp add: array_copy_def)
    moreover have "array_copy (take i t @ replicate (z - i) 0) (i + 1) t i (n - i) =
        Some (take i t @ 0 # take (n - i) (drop i t) @ replicate (z - (n + 1)) 0)"
      using z ok assms(7) by (auto simp: array_copy_def take_Suc_conv_app_nth Suc_diff_le min_def)
    ultimately show ?thesis
      using assms False ok z ns by (intro exI [of _ z] exI [of _ "take i t @ v # take (n - i) (drop i t) @ replicate (z - (n + 1)) 0"])
        (auto simp: json_array_insert_new_def table_put_def list_update_append take_drop min_def Suc_diff_le)
  qed
qed

text \<open>Releasing an element first: the table is as before when it is written.\<close>

lemma json_array_set_new_ok:
  assumes "jmem h p = Some nd" "jbody nd = BArray s n t" "body_ok (jbody nd)" "p \<noteq> 0" "v \<noteq> 0" "v \<noteq> p" "i < n"
    and "run_tasks [Decref (t ! i)] h = Some h1" "jmem h1 p = Some n1" "jbody n1 = jbody nd"
  shows "json_array_set_new p i v h = Some (0, upd_body h1 p n1 (BArray s n (t[i := v])))"
  using assms by (simp add: json_array_set_new_def table_at_def table_put_def json_decref_def)

lemma json_array_remove_ok:
  assumes "jmem h p = Some nd" "jbody nd = BArray s n t" "body_ok (jbody nd)" "p \<noteq> 0" "i < n"
    and "run_tasks [Decref (t ! i)] h = Some h1" "jmem h1 p = Some n1" "jbody n1 = jbody nd"
  shows "\<exists>t'. json_array_remove p i h = Some (0, upd_body h1 p n1 (BArray s (n - 1) t')) \<and> length t' = s \<and>
    take (n - 1) t' = take i t @ drop (i + 1) (take n t)"
proof -
  have ok: "n \<le> s" "length t = s" using assms(2,3) by auto
  show ?thesis
  proof (cases "i < n - 1")
    case True
    then have "array_move t i (i + 1) (n - i - 1) = Some (take i t @ take (n - i - 1) (drop (i + 1) t) @ drop (n - 1) t)"
      using ok by (simp add: array_move_def array_copy_def)
    then show ?thesis
      using assms True ok by (intro exI [of _ "take i t @ take (n - i - 1) (drop (i + 1) t) @ drop (n - 1) t"])
        (auto simp: json_array_remove_def table_at_def json_decref_def take_drop min_def)
  next
    case False
    then have "i = n - 1" using assms(5) by simp
    then show ?thesis using assms ok by (intro exI [of _ t]) (auto simp: json_array_remove_def table_at_def json_decref_def)
  qed
qed

section \<open>Programs that use values\<close>

text \<open>\<open>gives ext v\<close>: a reference of the program to \<open>v\<close> is handed over.\<close>

definition gives :: "(nat \<Rightarrow> nat) \<Rightarrow> nat \<Rightarrow> nat \<Rightarrow> nat" where
  "gives ext v = ext(v := ext v - 1)"

lemma gives_zero [simp]: "ext v = 0 \<Longrightarrow> gives ext v = ext"
  by (simp add: gives_def fun_eq_iff)

lemma gives_other [simp]: "a \<noteq> v \<Longrightarrow> gives ext v a = ext a"
  by (simp add: gives_def)

lemma sound_null: "sound h ext \<Longrightarrow> ext 0 = 0"
  using sound_ext [of h ext 0] by auto

lemma drop_value_sound:
  assumes "sound h ext" "0 < ext v"
  shows "\<exists>h'. drop_value v h = Some (-1, h') \<and> sound h' (gives ext v)"
  using decref_sound [OF assms] by (auto simp: drop_value_def gives_def)

text \<open>What an operation on the container \<open>p\<close> has to satisfy when it takes over \<open>v\<close>.\<close>

lemma exchange_take:
  assumes s: "sound h ext" and p: "0 < ext p" "jmem h p = Some nd" "\<not> singleton (jbody nd)" and v: "0 < ext v" "v \<noteq> p"
    and b: "\<not> singleton b" "body_ok b"
    and bal: "\<And>a. count_list (children b) a + count_list vs a = count_list (children (jbody nd)) a + (if a = v then 1 else 0)"
  shows "exchange h ext p b vs (gives ext v)"
proof -
  have o: "owned h [] (kids h) ext" using s by (simp add: sound_def)
  have v': "v \<in> dom (jmem h)" by (rule ownedD(5) [OF o v(1)])
  have sub: "a \<in> dom (jmem h)" if "a \<in> set (children b) \<union> set vs" for a
  proof -
    have "count_list (children b) a + count_list vs a \<noteq> 0" using that by (auto simp: count_list_0_iff)
    then have "a = v \<or> a \<in> set (children (jbody nd))" using bal [of a] by (auto simp: count_list_0_iff split: if_splits)
    then show ?thesis using v' sound_kids [OF s p(2)] by auto
  qed
  have "0 < gives ext v a \<Longrightarrow> a \<in> dom (jmem h)" for a using ownedD(5) [OF o, of a] by (auto simp: gives_def split: if_splits)
  moreover have "count_list (children b) a + count_list vs a + gives ext v a = count_list (kids h p) a + ext a" for a
    using bal [of a] p(2) v(1) by (auto simp: gives_def kids_def split: if_splits)
  ultimately show ?thesis using assms(2-4) v(2) b sub unfolding exchange_def by auto
qed

lemma exchange_keep:
  assumes s: "sound h ext" and p: "0 < ext p" "jmem h p = Some nd" "\<not> singleton (jbody nd)" and b: "\<not> singleton b" "body_ok b"
    and bal: "\<And>a. count_list (children b) a + count_list vs a = count_list (children (jbody nd)) a"
  shows "exchange h ext p b vs ext"
proof -
  have o: "owned h [] (kids h) ext" using s by (simp add: sound_def)
  have sub: "a \<in> dom (jmem h)" if "a \<in> set (children b) \<union> set vs" for a
  proof -
    have "count_list (children b) a + count_list vs a \<noteq> 0" using that by (auto simp: count_list_0_iff)
    then have "a \<in> set (children (jbody nd))" using bal [of a] by (auto simp: count_list_0_iff)
    then show ?thesis using sound_kids [OF s p(2)] by auto
  qed
  show ?thesis using assms(2-6) sub bal ownedD(5) [OF o] unfolding exchange_def by (auto simp: kids_def)
qed

end
