(* ===== verification/JsonClient.thy ===== *)
theory JsonClient
  imports JsonOwn
begin

text \<open>
  Programs that use the values of \<^verbatim>\<open>value.c\<close>: every operation keeps the store sound, and any sequence of calls that
  gives away only references the program holds never touches a freed value.
\<close>

section \<open>The operations keep the store sound\<close>

text \<open>A call that returns with a sound store.\<close>

definition returns_sound :: "('b \<times> 'r jheap) option \<Rightarrow> (nat \<Rightarrow> nat) \<Rightarrow> bool" where
  "returns_sound x ext \<longleftrightarrow> (\<exists>r h'. x = Some (r, h') \<and> sound h' ext)"

lemma returns_soundI: "x = Some (r, h') \<Longrightarrow> sound h' ext \<Longrightarrow> returns_sound x ext"
  by (auto simp: returns_sound_def)

lemma returns_same [simp]: "sound h ext \<Longrightarrow> returns_sound (Some (r, h)) ext"
  by (rule returns_soundI) auto

lemma returns_drop [simp]:
  "sound h ext \<Longrightarrow> 0 < ext v \<Longrightarrow> returns_sound (drop_value v h) (gives ext v)"
  using drop_value_sound [of h ext v] by (auto intro: returns_soundI)

lemma run_nil [simp]: "run_tasks [] h = Some h"
  by (subst run_tasks.simps) simp

lemma set_body_sound:
  assumes "sound h ext" "exchange h ext p b [] ext'" "jmem h p = Some n"
  shows "sound (upd_body h p n b) ext'"
  using set_then_release [OF assms] by simp

lemma count_split: "i < length xs \<Longrightarrow> count_list xs a = count_list (take i xs) a + (if a = xs ! i then 1 else 0) + count_list (drop (Suc i) xs) a"
  using arg_cong [OF id_take_nth_drop [of i xs], of "\<lambda>ys. count_list ys a"] by simp

lemma count_take_set: "i < n \<Longrightarrow> n \<le> length t \<Longrightarrow>
  count_list (take n (t[i := v])) a + count_list [t ! i] a = count_list (take n t) a + (if a = v then 1 else 0)"
  using count_split [of i "take n t" a] count_split [of i "take n (t[i := v])" a]
  by (simp add: take_update_swap del: count_list.simps) (simp add: min_def list_update_beyond)

lemma count_take_remove: "i < n \<Longrightarrow> n \<le> length t \<Longrightarrow>
  count_list (take i t @ drop (i + 1) (take n t)) a + count_list [t ! i] a = count_list (take n t) a"
  using count_split [of i "take n t" a] by (simp add: min_def)

fun json_entries :: "'r body \<Rightarrow> nat" where
  "json_entries (BArray _ n _) = n"
| "json_entries _ = 0"

lemma append_new_sound:
  assumes s: "sound h ext" and p: "0 < ext p" and v: "0 < ext v \<or> v = 0"
  shows "returns_sound (json_array_append_new p v h) (gives ext v)"
proof (cases "v = 0")
  case True
  then show ?thesis using s sound_null [OF s] by (simp add: json_array_append_new_def)
next
  case False
  then have v: "0 < ext v" using v by simp
  from sound_ext [OF s p] obtain nd where nd: "jmem h p = Some nd" "p \<noteq> 0" by blast
  have b: "body_ok (jbody nd)" using s nd(1) by (simp add: sound_def)
  show ?thesis
  proof (cases "is_array (jbody nd) \<and> p \<noteq> v")
    case True
    then obtain c n t where a: "jbody nd = BArray c n t" by (cases "jbody nd") auto
    from json_array_append_new_ok [OF nd(1) a b nd(2) False] True obtain c' t' where
      r: "json_array_append_new p v h = Some (0, upd_body h p nd (BArray c' (n + 1) t'))" "body_ok (BArray c' (n + 1) t' :: 'a body)"
        "take (n + 1) t' = take n t @ [v]" by metis
    have "exchange h ext p (BArray c' (n + 1) t') [] (gives ext v)"
      by (rule exchange_take [OF s p nd(1)]) (use a v True r(2,3) in \<open>auto simp: singleton_def\<close>)
    then show ?thesis using r(1) set_body_sound [OF s _ nd(1)] by (auto intro: returns_soundI)
  next
    case False
    then show ?thesis using nd v s \<open>v \<noteq> 0\<close> by (auto simp: json_array_append_new_def)
  qed
qed

lemma insert_new_sound:
  assumes s: "sound h ext" and p: "0 < ext p" and v: "0 < ext v \<or> v = 0"
  shows "returns_sound (json_array_insert_new p i v h) (gives ext v)"
proof (cases "v = 0")
  case True
  then show ?thesis using s sound_null [OF s] by (simp add: json_array_insert_new_def)
next
  case False
  then have v: "0 < ext v" using v by simp
  from sound_ext [OF s p] obtain nd where nd: "jmem h p = Some nd" "p \<noteq> 0" by blast
  have b: "body_ok (jbody nd)" using s nd(1) by (simp add: sound_def)
  show ?thesis
  proof (cases "is_array (jbody nd) \<and> p \<noteq> v \<and> i \<le> json_entries (jbody nd)")
    case True
    then obtain c n t where a: "jbody nd = BArray c n t" by (cases "jbody nd") auto
    have n: "n \<le> length t" using a b by simp
    from json_array_insert_new_ok [OF nd(1) a b nd(2) False] True a obtain c' t' where
      r: "json_array_insert_new p i v h = Some (0, upd_body h p nd (BArray c' (n + 1) t'))" "body_ok (BArray c' (n + 1) t' :: 'a body)"
        "take (n + 1) t' = take i t @ v # drop i (take n t)" by auto
    have c: "count_list (take i t) x + count_list (drop i (take n t)) x = count_list (take n t) x" for x
      using append_take_drop_id [of i "take n t"] True a by (metis count_list_append min.absorb1 take_take json_entries.simps(1))
    have "exchange h ext p (BArray c' (n + 1) t') [] (gives ext v)"
      by (rule exchange_take [OF s p nd(1)]) (use a v True r(2,3) c in \<open>auto simp: singleton_def\<close>)
    then show ?thesis using r(1) set_body_sound [OF s _ nd(1)] by (auto intro: returns_soundI)
  next
    case False
    then show ?thesis using nd v s \<open>v \<noteq> 0\<close> by (cases "jbody nd") (auto simp: json_array_insert_new_def)
  qed
qed

lemma sound_body: "sound h ext \<Longrightarrow> jmem h p = Some nd \<Longrightarrow> body_ok (jbody nd)"
  by (simp add: sound_def)

lemma set_new_sound:
  assumes s: "sound h ext" and p: "0 < ext p" and v: "0 < ext v \<or> v = 0"
  shows "returns_sound (json_array_set_new p i v h) (gives ext v)"
proof (cases "v = 0")
  case True
  then show ?thesis using s sound_null [OF s] by (simp add: json_array_set_new_def)
next
  case False
  then have v: "0 < ext v" using v by simp
  from sound_ext [OF s p] obtain nd where nd: "jmem h p = Some nd" "p \<noteq> 0" by blast
  show ?thesis
  proof (cases "is_array (jbody nd) \<and> p \<noteq> v \<and> i < json_entries (jbody nd)")
    case True
    then obtain c n t where a: "jbody nd = BArray c n t" by (cases "jbody nd") auto
    have n: "n \<le> c" "length t = c" "i < n" using a sound_body [OF s nd(1)] True by auto
    have "exchange h ext p (BArray c n (t[i := v])) [t ! i] (gives ext v)"
      by (rule exchange_take [OF s p nd(1)])
        (use a v True n count_take_set [of i n t v] in \<open>auto simp: singleton_def\<close>)
    from release_then_set [OF s this nd(1)] obtain h1 n1 where
      h1: "run_tasks [Decref (t ! i)] h = Some h1" "jmem h1 p = Some n1" "jbody n1 = jbody nd"
        "sound (upd_body h1 p n1 (BArray c n (t[i := v]))) (gives ext v)" by auto
    show ?thesis
      using json_array_set_new_ok [OF nd(1) a sound_body [OF s nd(1)] nd(2) False _ n(3) h1(1-3)] True h1(4) by (auto intro: returns_soundI)
  next
    case False
    then show ?thesis using nd v s \<open>v \<noteq> 0\<close> by (cases "jbody nd") (auto simp: json_array_set_new_def)
  qed
qed

lemma remove_sound:
  assumes s: "sound h ext" and p: "0 < ext p"
  shows "returns_sound (json_array_remove p i h) ext"
proof -
  from sound_ext [OF s p] obtain nd where nd: "jmem h p = Some nd" "p \<noteq> 0" by blast
  show ?thesis
  proof (cases "is_array (jbody nd) \<and> i < json_entries (jbody nd)")
    case True
    then obtain c n t where a: "jbody nd = BArray c n t" by (cases "jbody nd") auto
    have n: "n \<le> c" "length t = c" "i < n" using a sound_body [OF s nd(1)] True by auto
    have e: "exchange h ext p (BArray c (n - 1) t') [t ! i] ext" if "length t' = c" "take (n - 1) t' = take i t @ drop (i + 1) (take n t)" for t'
      by (rule exchange_keep [OF s p nd(1)])
        (use a that n count_take_remove [of i n t] in \<open>auto simp: singleton_def\<close>)
    let ?t = "take i t @ drop (i + 1) (take n t) @ drop (n - 1) t"
    have "length ?t = c" "take (n - 1) ?t = take i t @ drop (i + 1) (take n t)" using n by auto
    from release_then_set [OF s e [OF this] nd(1)] obtain h1 n1 where
      h1: "run_tasks [Decref (t ! i)] h = Some h1" "jmem h1 p = Some n1" "jbody n1 = jbody nd" by auto
    from json_array_remove_ok [OF nd(1) a sound_body [OF s nd(1)] nd(2) n(3) h1] obtain t' where
      t': "json_array_remove p i h = Some (0, upd_body h1 p n1 (BArray c (n - 1) t'))" "length t' = c"
        "take (n - 1) t' = take i t @ drop (i + 1) (take n t)" by blast
    from release_then_set [OF s e [OF t'(2,3)] nd(1)] h1 have "sound (upd_body h1 p n1 (BArray c (n - 1) t')) ext" by auto
    then show ?thesis using t'(1) by (auto intro: returns_soundI)
  next
    case False
    then show ?thesis using nd s by (cases "jbody nd") (auto simp: json_array_remove_def)
  qed
qed

lemma array_clear_sound:
  assumes s: "sound h ext" and p: "0 < ext p"
  shows "returns_sound (json_array_clear p h) ext"
proof -
  from sound_ext [OF s p] obtain nd where nd: "jmem h p = Some nd" "p \<noteq> 0" by blast
  show ?thesis
  proof (cases "is_array (jbody nd)")
    case True
    then obtain c n t where a: "jbody nd = BArray c n t" by (cases "jbody nd") auto
    have "exchange h ext p (BArray c 0 t) (take n t) ext"
      by (rule exchange_keep [OF s p nd(1)]) (use a sound_body [OF s nd(1)] in \<open>auto simp: singleton_def\<close>)
    from release_then_set [OF s this nd(1)] nd a show ?thesis by (auto simp: json_array_clear_def intro!: returns_soundI)
  next
    case False
    then show ?thesis using nd s by (auto simp: json_array_clear_def)
  qed
qed

lemma object_clear_sound:
  assumes s: "sound h ext" and p: "0 < ext p"
  shows "returns_sound (json_object_clear p h) ext"
proof -
  from sound_ext [OF s p] obtain nd where nd: "jmem h p = Some nd" "p \<noteq> 0" by blast
  show ?thesis
  proof (cases "is_object (jbody nd)")
    case True
    then obtain ms where a: "jbody nd = BObject ms" by (cases "jbody nd") auto
    have "exchange h ext p (BObject []) (map snd ms) ext"
      by (rule exchange_keep [OF s p nd(1)]) (use a in \<open>auto simp: singleton_def\<close>)
    from release_then_set [OF s this nd(1)] nd a show ?thesis
      by (auto simp: json_object_clear_def comp_def set_body_upd intro!: returns_soundI)
  next
    case False
    then show ?thesis using nd s by (auto simp: json_object_clear_def)
  qed
qed

lemma count_set_member:
  "distinct (map fst ms) \<Longrightarrow> count_list (map snd (set_member k v ms)) a + count_list (case map_of ms k of None \<Rightarrow> [] | Some w \<Rightarrow> [w]) a =
   count_list (map snd ms) a + (if a = v then 1 else 0)"
proof (induction ms)
  case (Cons m ms)
  then show ?case by (cases m; cases "map_of ms k") (simp_all split: if_splits)
qed simp

lemma set_member_keys: "map fst (set_member k v ms) = (if k \<in> fst ` set ms then map fst ms else map fst ms @ [k])"
proof (induction ms)
  case (Cons m ms)
  then show ?case by (cases m) simp
qed simp

lemma count_del_member:
  "distinct (map fst ms) \<Longrightarrow> map_of ms k = Some w \<Longrightarrow>
   count_list (map snd (filter (\<lambda>m. fst m \<noteq> k) ms)) a + count_list [w] a = count_list (map snd ms) a"
proof (induction ms)
  case (Cons m ms)
  have "filter (\<lambda>m. fst m \<noteq> k) ms = ms" if "k \<notin> fst ` set ms" using that by (auto simp: filter_id_conv)
  then show ?case using Cons by (cases m) auto
qed simp

text \<open>Writing a member, shared by \<^verbatim>\<open>hashtable_set\<close> and \<^verbatim>\<open>hashtable_iter_set\<close>.\<close>

lemma member_set_sound:
  assumes s: "sound h ext" and p: "0 < ext p" "jmem h p = Some nd" "jbody nd = BObject ms" and v: "0 < ext v" "v \<noteq> p"
  shows "\<exists>h1 n1. run_tasks (map Decref (case map_of ms k of None \<Rightarrow> [] | Some w \<Rightarrow> [w])) h = Some h1 \<and> jmem h1 p = Some n1 \<and>
    jbody n1 = jbody nd \<and> sound (upd_body h1 p n1 (BObject (set_member k v ms))) (gives ext v)"
proof -
  have d: "distinct (map fst ms)" using sound_body [OF s p(2)] p(3) by simp
  have "exchange h ext p (BObject (set_member k v ms)) (case map_of ms k of None \<Rightarrow> [] | Some w \<Rightarrow> [w]) (gives ext v)"
  proof (rule exchange_take [OF s p(1,2)])
    show "body_ok (BObject (set_member k v ms) :: 'a body)" using d by (auto simp: set_member_keys)
  qed (use p v count_set_member [OF d, of k v] in \<open>auto simp: singleton_def\<close>)
  from release_then_set [OF s this p(2)] show ?thesis .
qed

lemma object_set_sound:
  assumes s: "sound h ext" and p: "0 < ext p" and v: "0 < ext v \<or> v = 0"
  shows "returns_sound (json_object_setn_new_nocheck p key v h) (gives ext v)"
proof (cases "v = 0")
  case True
  then show ?thesis using s sound_null [OF s] by (simp add: json_object_setn_new_nocheck_def)
next
  case False
  then have v: "0 < ext v" using v by simp
  from sound_ext [OF s p] obtain nd where nd: "jmem h p = Some nd" "p \<noteq> 0" by blast
  show ?thesis
  proof (cases "is_object (jbody nd) \<and> p \<noteq> v \<and> key \<noteq> None")
    case True
    then obtain ms k where a: "jbody nd = BObject ms" "key = Some k" by (cases "jbody nd") auto
    from member_set_sound [OF s p nd(1) a(1) v, of k] True obtain h1 n1 where
      h1: "run_tasks (map Decref (case map_of ms k of None \<Rightarrow> [] | Some w \<Rightarrow> [w])) h = Some h1" "jmem h1 p = Some n1"
        "jbody n1 = jbody nd" "sound (upd_body h1 p n1 (BObject (set_member k v ms))) (gives ext v)" by auto
    have "json_object_setn_new_nocheck p key v h = Some (0, upd_body h1 p n1 (BObject (set_member k v ms)))"
      using nd a True h1 \<open>v \<noteq> 0\<close> by (cases "map_of ms k") (simp_all add: json_object_setn_new_nocheck_def table_set_def json_decref_def set_body_upd)
    then show ?thesis using h1(4) by (auto intro: returns_soundI)
  next
    case False
    then show ?thesis using nd decref_sound [OF s v] \<open>v \<noteq> 0\<close>
      by (auto simp: json_object_setn_new_nocheck_def gives_def intro: returns_soundI)
  qed
qed

lemma object_iter_set_sound:
  assumes s: "sound h ext" and p: "0 < ext p" and v: "0 < ext v \<or> v = 0" and vp: "v \<noteq> p" and i: "\<And>ms k. members_at h p = Some ms \<Longrightarrow> iter = Some k \<Longrightarrow> k \<in> fst ` set ms"
  shows "returns_sound (json_object_iter_set_new p iter v h) (gives ext v)"
proof -
  from sound_ext [OF s p] obtain nd where nd: "jmem h p = Some nd" "p \<noteq> 0" by blast
  show ?thesis
  proof (cases "is_object (jbody nd) \<and> v \<noteq> 0 \<and> iter \<noteq> None")
    case True
    then obtain ms k where a: "jbody nd = BObject ms" "iter = Some k" by (cases "jbody nd") auto
    obtain w where w: "map_of ms k = Some w" using i [of ms k] nd a by (metis at_simps(2) domD dom_map_of_conv_image_fst)
    have "0 < ext v" using v True by simp
    from member_set_sound [OF s p nd(1) a(1) this vp, of k] w obtain h1 n1 where
      h1: "run_tasks [Decref w] h = Some h1" "jmem h1 p = Some n1"
        "jbody n1 = jbody nd" "sound (upd_body h1 p n1 (BObject (set_member k v ms))) (gives ext v)" by auto
    have "json_object_iter_set_new p iter v h = Some (0, upd_body h1 p n1 (BObject (set_member k v ms)))"
      using nd a True h1 w by (simp add: json_object_iter_set_new_def json_decref_def set_body_upd)
    then show ?thesis using h1(4) by (auto intro: returns_soundI)
  next
    case False
    have "json_decref 0 h = Some h" unfolding json_decref_def by (subst run_tasks.simps) simp
    then have "\<exists>h'. json_decref v h = Some h' \<and> sound h' (gives ext v)"
      using v decref_sound [OF s, of v] s sound_null [OF s] by (auto simp: gives_def [of ext v] fun_upd_idem)
    then show ?thesis using False nd by (auto simp: json_object_iter_set_new_def intro: returns_soundI)
  qed
qed

lemma object_del_sound:
  assumes s: "sound h ext" and p: "0 < ext p"
  shows "returns_sound (json_object_deln p key h) ext"
proof -
  from sound_ext [OF s p] obtain nd where nd: "jmem h p = Some nd" "p \<noteq> 0" by blast
  show ?thesis
  proof (cases "\<exists>ms k w. jbody nd = BObject ms \<and> key = Some k \<and> map_of ms k = Some w")
    case True
    then obtain ms k w where a: "jbody nd = BObject ms" "key = Some k" "map_of ms k = Some w" by blast
    have d: "distinct (map fst ms)" using sound_body [OF s nd(1)] a(1) by simp
    have "exchange h ext p (BObject (filter (\<lambda>m. fst m \<noteq> k) ms)) [w] ext"
      by (rule exchange_keep [OF s p nd(1)])
        (use a d count_del_member [OF d a(3)] in \<open>auto simp: singleton_def distinct_map_filter\<close>)
    from set_then_release [OF s this nd(1)] nd a show ?thesis
      by (auto simp: json_object_deln_def json_decref_def set_body_upd intro!: returns_soundI)
  next
    case False
    then show ?thesis using nd s by (cases "jbody nd") (auto simp: json_object_deln_def split: option.splits)
  qed
qed

lemma incref_sound:
  assumes s: "sound h ext" and p: "p \<in> dom (jmem h)"
  shows "\<exists>h'. json_incref p h = Some (p, h') \<and> sound h' (ext(p := ext p + 1)) \<and> remains h h' \<and> dom (jmem h') = dom (jmem h)"
proof -
  have o: "owned h [] (kids h) ext" using s by (simp add: sound_def)
  from owned_incref [OF o p] obtain h' where h': "json_incref p h = Some (p, h')" "owned h' [] (kids h) (ext(p := ext p + 1))"
    "remains h h'" "dom (jmem h') = dom (jmem h)" by blast
  have "owned h' [] (kids h') (ext(p := ext p + 1))"
    by (rule owned_cong [OF h'(2)]) (use h'(3) in \<open>fastforce simp: kids_def remains_def\<close>)
  moreover have "body_ok (jbody m)" if "jmem h' a = Some m" for a m
    using that h'(3) s by (fastforce simp: remains_def sound_def)
  ultimately show ?thesis using h' s by (auto simp: sound_def remains_def)
qed

lemma incref_all_sound:
  "sound h ext \<Longrightarrow> set xs \<subseteq> dom (jmem h) \<Longrightarrow>
   \<exists>h'. incref_all xs h = Some h' \<and> sound h' (\<lambda>a. ext a + count_list xs a) \<and> remains h h' \<and> dom (jmem h') = dom (jmem h)"
proof (induction xs arbitrary: h ext)
  case (Cons x xs)
  from incref_sound [OF Cons.prems(1), of x] Cons.prems(2) obtain h1 where
    h1: "json_incref x h = Some (x, h1)" "sound h1 (ext(x := ext x + 1))" "remains h h1" "dom (jmem h1) = dom (jmem h)" by auto
  have "(\<lambda>a. (ext(x := ext x + 1)) a + count_list xs a) = (\<lambda>a. ext a + count_list (x # xs) a)" by auto
  moreover from Cons.IH [OF h1(2)] Cons.prems(2) h1(4) obtain h2 where h2: "incref_all xs h1 = Some h2"
    "sound h2 (\<lambda>a. (ext(x := ext x + 1)) a + count_list xs a)" "remains h1 h2" "dom (jmem h2) = dom (jmem h1)" by auto
  ultimately have "sound h2 (\<lambda>a. ext a + count_list (x # xs) a)" by simp
  then show ?case using h1(1,4) h2(1,4) remains_trans [OF h1(3) h2(3)] by simp
qed simp

lemma remains_at:
  assumes "remains h h'" "jmem h p = Some nd" "p \<in> dom (jmem h')"
  shows "\<exists>n'. jmem h' p = Some n' \<and> jbody n' = jbody nd"
  using assms unfolding remains_def by fastforce

lemma array_extend_ok:
  assumes s: "sound h ext" and p: "0 < ext p" "jmem h p = Some nd" "jbody nd = BArray c n t"
    and q: "jmem h q = Some nq" "jbody nq = BArray c2 m u"
  shows "\<exists>h' n' s' t'. json_array_extend p q h = Some (0, h') \<and> sound h' ext \<and> jmem h' p = Some n' \<and> jbody n' = BArray s' (n + m) t' \<and>
    take (n + m) t' = take n t @ take m u"
proof -
  have p0: "p \<noteq> 0" "q \<noteq> 0" using sound_ext [OF s p(1)] s q(1) ownedD(2) [of h "[]" "kids h" ext] by (auto simp: sound_def)
  have ok: "n \<le> c" "length t = c" using sound_body [OF s p(2)] p(3) by auto
  from grow_spec [OF ok] obtain c' t' where
    g: "json_array_grow m True (c, n, t) = Some (None, c', n, t')" "n + m \<le> c'" "length t' = c'" "take n t' = take n t" by blast
  let ?h1 = "upd_body h p nd (BArray c' n t')"
  have s1: "sound ?h1 ext"
    by (rule set_body_sound [OF s exchange_keep [OF s p(1,2)] p(2)]) (use p g in \<open>auto simp: singleton_def\<close>)
  obtain nq1 c3 u1 where q1: "jmem ?h1 q = Some nq1" "jbody nq1 = BArray c3 m u1" "take m u1 = take m u"
    using p q g by (cases "q = p") (auto simp: upd_body_def)
  have "m \<le> length u1" using sound_body [OF s1 q1(1)] q1(2) by simp
  from incref_all_sound [OF s1, of "take m u1"] sound_kids [OF s1 q1(1)] q1(2) obtain h2 where
    h2: "incref_all (take m u1) ?h1 = Some h2" "sound h2 (\<lambda>a. ext a + count_list (take m u1) a)" "remains ?h1 h2" "dom (jmem h2) = dom (jmem ?h1)" by auto
  obtain n2 where n2: "jmem h2 p = Some n2" "jbody n2 = BArray c' n t'"
    using remains_at [OF h2(3), of p] h2(4) by (auto simp: upd_body_def)
  define b where "b = (BArray c' (n + m) (take n t' @ take m u1 @ drop (n + m) t') :: 'a body)"
  have e: "exchange h2 (\<lambda>a. ext a + count_list (take m u1) a) p b [] ext"
    unfolding exchange_def
  proof (intro conjI allI impI)
    have l: "children b = take n t' @ take m u1" using g ok \<open>m \<le> length u1\<close> by (simp add: b_def)
    show "set (children b) \<subseteq> dom (jmem h2)"
      using l n2 sound_kids [OF h2(2) n2(1)] sound_kids [OF s1 q1(1)] q1(2) h2(4) by auto
    show "a \<in> dom (jmem h2)" if "0 < ext a" for a using sound_ext [OF s1 that] h2(4) by auto
    show "count_list (children b) a + count_list [] a + ext a = count_list (kids h2 p) a + (ext a + count_list (take m u1) a)" for a
      using l n2 by (simp add: kids_def)
  qed (use p(1) n2 g ok \<open>m \<le> length u1\<close> in \<open>auto simp: b_def singleton_def\<close>)
  have "json_array_extend p q h = Some (0, upd_body h2 p n2 b)"
    using p q p0 g q1 h2(1) n2 \<open>m \<le> length u1\<close> ok by (simp add: json_array_extend_def array_copy_def b_def)
  moreover have "take (n + m) (take n t' @ take m u1 @ drop (n + m) t') = take n t @ take m u"
    using g ok q1(3) \<open>m \<le> length u1\<close> sound_body [OF s q(1)] q(2) by simp
  moreover have "jmem (upd_body h2 p n2 b) p = Some (n2\<lparr>jbody := b\<rparr>)" by (simp add: upd_body_def)
  ultimately show ?thesis using set_body_sound [OF h2(2) e n2(1)] unfolding b_def
    by (metis (no_types, lifting) jnode.select_convs(2) jnode.surjective jnode.update_convs(2))
qed

lemma init_sound:
  assumes s: "sound h ext" and b: "children b = []" "\<not> singleton b" "body_ok b"
  shows "sound (snd (json_init b h)) (ext(jnext h := ext (jnext h) + 1))"
proof -
  have o: "owned h [] (kids h) ext" and pos: "0 < jnext h" using s by (auto simp: sound_def)
  have new: "jmem h (jnext h) = None" using ownedD(3) [OF o, of "jnext h"] by fastforce
  then have k: "kids h (jnext h) = []" and e: "ext (jnext h) = 0" using sound_ext [OF s, of "jnext h"] by (auto simp: kids_def)
  have "owned (snd (json_init b h)) [] (kids (snd (json_init b h))) (ext(jnext h := 1))"
    by (rule owned_cong [OF owned_init [OF o b(1,2) k pos]]) (auto simp: kids_def json_init_def new b split: if_splits)
  then show ?thesis using s b e by (auto simp: sound_def json_init_def)
qed

lemma scalar_set_sound:
  assumes s: "sound h ext" and p: "0 < ext p" "jmem h p = Some nd" "\<not> singleton (jbody nd)" "children (jbody nd) = []"
    and b: "children b = []" "\<not> singleton b" "body_ok b"
  shows "sound (upd_body h p nd b) ext"
  by (rule set_body_sound [OF s exchange_keep [OF s p(1-3)] p(2)]) (use p b in auto)

section \<open>Programs\<close>

text \<open>The calls of a program; \<open>Borrow p\<close> is \<^verbatim>\<open>json_incref\<close> of a value that is alive, e.g. of the result of \<^verbatim>\<open>json_array_get\<close>.\<close>

datatype 'r call =
    NewObject | NewArray | NewString "int list option" | NewInteger int | NewReal 'r | GetTrue | GetFalse | GetNull
  | Borrow nat | Release nat
  | ArrayAppend nat nat | ArrayInsert nat nat nat | ArraySet nat nat nat | ArrayRemove nat nat | ArrayClear nat | ArrayExtend nat nat
  | ObjectSet nat "int list option" nat | ObjectDel nat "int list option" | ObjectClear nat
  | StringSet nat "int list option" | IntegerSet nat int | RealSet nat 'r

datatype answer = Value nat | Status int

definition value_answer :: "(nat \<times> 'r jheap) option \<Rightarrow> (answer \<times> 'r jheap) option" where
  "value_answer x = map_option (\<lambda>(p, h). (Value p, h)) x"

definition status_answer :: "(int \<times> 'r jheap) option \<Rightarrow> (answer \<times> 'r jheap) option" where
  "status_answer x = map_option (\<lambda>(r, h). (Status r, h)) x"

fun exec :: "('r \<Rightarrow> bool) \<Rightarrow> 'r call \<Rightarrow> 'r jheap \<Rightarrow> (answer \<times> 'r jheap) option" where
  "exec fin NewObject h = value_answer (Some (json_object h))"
| "exec fin NewArray h = value_answer (Some (json_array h))"
| "exec fin (NewString s) h = value_answer (Some (json_string s h))"
| "exec fin (NewInteger i) h = value_answer (Some (json_integer i h))"
| "exec fin (NewReal r) h = value_answer (Some (json_real fin r h))"
| "exec fin GetTrue h = Some (Value json_true, h)"
| "exec fin GetFalse h = Some (Value json_false, h)"
| "exec fin GetNull h = Some (Value json_null, h)"
| "exec fin (Borrow p) h = value_answer (json_incref p h)"
| "exec fin (Release p) h = map_option (\<lambda>h'. (Status 0, h')) (json_decref p h)"
| "exec fin (ArrayAppend p v) h = status_answer (json_array_append_new p v h)"
| "exec fin (ArrayInsert p i v) h = status_answer (json_array_insert_new p i v h)"
| "exec fin (ArraySet p i v) h = status_answer (json_array_set_new p i v h)"
| "exec fin (ArrayRemove p i) h = status_answer (json_array_remove p i h)"
| "exec fin (ArrayClear p) h = status_answer (json_array_clear p h)"
| "exec fin (ArrayExtend p q) h = status_answer (json_array_extend p q h)"
| "exec fin (ObjectSet p k v) h = status_answer (json_object_set_new p k v h)"
| "exec fin (ObjectDel p k) h = status_answer (json_object_del p k h)"
| "exec fin (ObjectClear p) h = status_answer (json_object_clear p h)"
| "exec fin (StringSet p s) h = status_answer (json_string_set p s h)"
| "exec fin (IntegerSet p i) h = status_answer (json_integer_set p i h)"
| "exec fin (RealSet p r) h = status_answer (json_real_set fin p r h)"

text \<open>What a call steals, and the containers and values it may name.\<close>

fun stolen :: "'r call \<Rightarrow> nat option" where
  "stolen (Release p) = Some p"
| "stolen (ArrayAppend p v) = Some v"
| "stolen (ArrayInsert p i v) = Some v"
| "stolen (ArraySet p i v) = Some v"
| "stolen (ObjectSet p k v) = Some v"
| "stolen _ = None"

fun held :: "'r call \<Rightarrow> nat list" where
  "held (ArrayAppend p v) = [p]"
| "held (ArrayInsert p i v) = [p]"
| "held (ArraySet p i v) = [p]"
| "held (ArrayRemove p i) = [p]"
| "held (ArrayClear p) = [p]"
| "held (ArrayExtend p q) = [p]"
| "held (ObjectSet p k v) = [p]"
| "held (ObjectDel p k) = [p]"
| "held (ObjectClear p) = [p]"
| "held (StringSet p s) = [p]"
| "held (IntegerSet p i) = [p]"
| "held (RealSet p r) = [p]"
| "held _ = []"

fun borrowed :: "'r call \<Rightarrow> nat list" where
  "borrowed (Borrow p) = [p]"
| "borrowed (ArrayExtend p q) = [q]"
| "borrowed _ = []"

definition allowed :: "'r jheap \<Rightarrow> (nat \<Rightarrow> nat) \<Rightarrow> 'r call \<Rightarrow> bool" where
  "allowed h ext c \<longleftrightarrow> (\<forall>p \<in> set (held c). 0 < ext p) \<and> (case stolen c of None \<Rightarrow> True | Some v \<Rightarrow> v = 0 \<or> 0 < ext v) \<and>
     (\<forall>q \<in> set (borrowed c). q = 0 \<or> jmem h q \<noteq> None)"

text \<open>The references of the program after a call: what was stolen is gone, also when the call failed; a new value
  comes with one reference.\<close>

definition after :: "(nat \<Rightarrow> nat) \<Rightarrow> 'r call \<Rightarrow> answer \<Rightarrow> nat \<Rightarrow> nat" where
  "after ext c r =
     (let ext1 = (case stolen c of None \<Rightarrow> ext | Some v \<Rightarrow> gives ext v)
      in case r of Value p \<Rightarrow> (if p = 0 then ext1 else ext1(p := ext1 p + 1)) | Status _ \<Rightarrow> ext1)"

inductive client :: "('r \<Rightarrow> bool) \<Rightarrow> 'r jheap \<Rightarrow> (nat \<Rightarrow> nat) \<Rightarrow> bool" for fin where
  start: "client fin jheap0 (\<lambda>_. 0)"
| step: "client fin h ext \<Longrightarrow> allowed h ext c \<Longrightarrow> exec fin c h = Some (r, h') \<Longrightarrow> client fin h' (after ext c r)"

inductive_cases client_cases: "client fin h ext"

lemma decref_stolen:
  assumes "sound h ext" "v = 0 \<or> 0 < ext v"
  shows "\<exists>h'. json_decref v h = Some h' \<and> sound h' (gives ext v)"
proof (cases "v = 0")
  case True
  have "json_decref 0 h = Some h" unfolding json_decref_def by (subst run_tasks.simps) simp
  then show ?thesis using True assms sound_null [OF assms(1)] by simp
next
  case False
  then show ?thesis using decref_sound [OF assms(1)] assms(2) by (simp add: gives_def)
qed

lemma static_sound:
  assumes s: "sound h ext" and a: "a \<in> statics"
  shows "sound h (ext(a := ext a + 1))" "a \<noteq> 0"
proof -
  have o: "owned h [] (kids h) ext" using s by (simp add: sound_def)
  from ownedD(12) [OF o a] obtain n where n: "jmem h a = Some n" "refcount n = None" by blast
  then show "a \<noteq> 0" using ownedD(2) [OF o] by auto
  have "a \<in> dom (jmem h)" using n by auto
  from incref_sound [OF s this] obtain h' where "json_incref a h = Some (a, h')" "sound h' (ext(a := ext a + 1))" by blast
  then show "sound h (ext(a := ext a + 1))" using n by (simp add: json_incref_def split: if_splits)
qed

lemma object_set_new_sound:
  assumes s: "sound h ext" and p: "0 < ext p" and v: "v = 0 \<or> 0 < ext v"
  shows "returns_sound (json_object_set_new p k v h) (gives ext v)"
  using decref_stolen [OF s v] object_set_sound [OF s p, of v] v
  by (auto simp: json_object_set_new_def json_object_setn_new_def intro: returns_soundI split: option.splits)

lemma object_del_cstr_sound:
  "sound h ext \<Longrightarrow> 0 < ext p \<Longrightarrow> returns_sound (json_object_del p k h) ext"
  using object_del_sound [of h ext p] by (auto simp: json_object_del_def split: option.splits)

lemma extend_sound:
  assumes s: "sound h ext" and p: "0 < ext p" and q: "q = 0 \<or> jmem h q \<noteq> None"
  shows "returns_sound (json_array_extend p q h) ext"
proof -
  from sound_ext [OF s p] obtain nd where nd: "jmem h p = Some nd" "p \<noteq> 0" by blast
  show ?thesis
  proof (cases "\<exists>nq. is_array (jbody nd) \<and> jmem h q = Some nq \<and> is_array (jbody nq) \<and> q \<noteq> 0")
    case True
    then obtain nq c n t c2 m u where "jmem h q = Some nq" "jbody nd = BArray c n t" "jbody nq = BArray c2 m u"
      by (metis is_array.elims(2))
    from array_extend_ok [OF s p nd(1) this(2,1,3)] show ?thesis by (auto intro: returns_soundI)
  next
    case False
    then have "json_array_extend p q h = Some (-1, h)" using nd q by (auto simp: json_array_extend_def json_is_def)
    then show ?thesis using s by simp
  qed
qed

lemma scalars_sound:
  assumes s: "sound h ext" and p: "0 < ext p"
  shows "returns_sound (json_string_set p x h) ext" "returns_sound (json_integer_set p i h) ext"
    "returns_sound (json_real_set fin p r h) ext"
proof -
  from sound_ext [OF s p] obtain nd where nd: "jmem h p = Some nd" "p \<noteq> 0" by blast
  note sc = scalar_set_sound [OF s p nd(1)]
  show "returns_sound (json_string_set p x h) ext"
    using nd s sc by (cases "jbody nd") (auto simp: json_string_set_def json_string_setn_def json_string_setn_nocheck_def set_body_upd
      singleton_def split: option.splits intro!: returns_soundI)
  show "returns_sound (json_integer_set p i h) ext"
    using nd s sc by (cases "jbody nd") (auto simp: json_integer_set_def set_body_upd singleton_def intro!: returns_soundI)
  show "returns_sound (json_real_set fin p r h) ext"
    using nd s sc by (cases "jbody nd") (auto simp: json_real_set_def set_body_upd singleton_def intro!: returns_soundI)
qed

definition fine :: "'r call \<Rightarrow> (nat \<Rightarrow> nat) \<Rightarrow> (answer \<times> 'r jheap) option \<Rightarrow> bool" where
  "fine c ext x \<longleftrightarrow> (\<exists>r h'. x = Some (r, h') \<and> sound h' (after ext c r))"

lemma fine_status:
  "returns_sound x (case stolen c of None \<Rightarrow> ext | Some v \<Rightarrow> gives ext v) \<Longrightarrow> fine c ext (status_answer x)"
  by (auto simp: returns_sound_def fine_def status_answer_def after_def Let_def)

lemma fine_value:
  assumes "stolen c = None" "sound h' (if p = 0 then ext else ext(p := ext p + 1))"
  shows "fine c ext (value_answer (Some (p, h')))"
  using assms by (auto simp: fine_def value_answer_def after_def)

lemma fine_init:
  assumes "sound h ext" "stolen c = None" "children b = []" "\<not> singleton b" "body_ok b"
  shows "fine c ext (value_answer (Some (json_init b h)))"
proof -
  have "0 < jnext h" using assms(1) by (simp add: sound_def)
  then show ?thesis using init_sound [OF assms(1,3-5)] assms(2) fine_value [of c "snd (json_init b h)" "jnext h" ext]
    by (simp add: json_init_def)
qed

lemma exec_fine:
  assumes s: "sound h ext" and a: "allowed h ext c"
  shows "fine c ext (exec fin c h)"
proof (cases c)
  case NewObject
  then show ?thesis using fine_init [OF s, of c "BObject []"] by (simp add: json_object_def singleton_def)
next
  case NewArray
  then show ?thesis using fine_init [OF s, of c "BArray 8 0 (replicate 8 0)"] by (simp add: json_array_def singleton_def)
next
  case (NewString x)
  have b: "fine c ext (value_answer (Some (json_init (BString v) h)))" for v
    using fine_init [OF s, of c "BString v"] NewString by (simp add: singleton_def)
  then show ?thesis using NewString fine_value [of c h 0 ext] s
    by (cases x) (auto simp: json_string_def json_stringn_def json_stringn_nocheck_def string_create_def)
next
  case (NewInteger x)
  then show ?thesis using fine_init [OF s, of c "BInteger x"] by (simp add: json_integer_def singleton_def)
next
  case (NewReal x)
  then show ?thesis using fine_init [OF s, of c "BReal x"] fine_value [of c h 0 ext] s by (simp add: json_real_def singleton_def)
next
  case GetTrue
  then show ?thesis using static_sound [OF s, of json_true] fine_value [of c h json_true ext]
    by (simp add: value_answer_def json_true_def statics_def)
next
  case GetFalse
  then show ?thesis using static_sound [OF s, of json_false] fine_value [of c h json_false ext]
    by (simp add: value_answer_def json_false_def statics_def)
next
  case GetNull
  then show ?thesis using static_sound [OF s, of json_null] fine_value [of c h json_null ext]
    by (simp add: value_answer_def json_null_def statics_def)
next
  case (Borrow p)
  show ?thesis
  proof (cases "p = 0")
    case True
    then show ?thesis using Borrow fine_value [of c h 0 ext] s by (simp add: json_incref_def)
  next
    case False
    then have "p \<in> dom (jmem h)" using a Borrow by (auto simp: allowed_def)
    from incref_sound [OF s this] False Borrow show ?thesis using fine_value [of c _ p ext] by auto
  qed
next
  case (Release p)
  then show ?thesis using decref_stolen [OF s, of p] a by (auto simp: allowed_def fine_def after_def Let_def)
qed (use s a in \<open>auto simp: allowed_def intro!: fine_status append_new_sound insert_new_sound set_new_sound remove_sound
      array_clear_sound extend_sound object_set_new_sound object_del_cstr_sound object_clear_sound scalars_sound\<close>)

lemma start_sound: "sound (jheap0 :: 'r jheap) (\<lambda>_. 0)"
proof -
  have d: "dom (jmem (jheap0 :: 'r jheap)) = {1, 2, 3}" by (auto simp: jheap0_def the_true_def the_false_def the_null_def)
  have n: "\<exists>b. n = \<lparr>refcount = None, jbody = b\<rparr> \<and> singleton b" if "jmem (jheap0 :: 'r jheap) a = Some n" for a n
    using that by (auto simp: jheap0_def singleton_def split: if_splits)
  have k: "kids (jheap0 :: 'r jheap) a = []" for a
    using n [of a] by (auto simp: kids_def singleton_def split: option.splits)
  have "owned (jheap0 :: 'r jheap) [] (kids (jheap0 :: 'r jheap)) (\<lambda>_. 0)"
  proof (rule ownedI)
    fix a assume "a \<in> statics"
    then show "\<exists>n. jmem (jheap0 :: 'r jheap) a = Some n \<and> refcount n = None"
      by (auto simp: statics_def jheap0_def the_true_def the_false_def the_null_def)
  next
    fix a n assume m: "jmem (jheap0 :: 'r jheap) a = Some n"
    obtain b where b: "n = \<lparr>refcount = None, jbody = b\<rparr>" "singleton b" using n [OF m] by blast
    show "kids (jheap0 :: 'r jheap) a = children (jbody n) \<or> 0 < (0::nat) \<or> Free a \<in> set []" using m by (simp add: kids_def)
    show "refcount n = Some 0 \<longleftrightarrow> Free a \<in> set []" "singleton (jbody n) \<and> a \<in> statics"
      using b m by (auto simp: statics_def jheap0_def split: if_splits)
    show "\<not> singleton (jbody n) \<and> c = inrefs (dom (jmem (jheap0 :: 'r jheap))) (kids (jheap0 :: 'r jheap)) a + count_list [] (Decref a) + 0"
      if "refcount n = Some c" for c using that b by simp
  next
    fix a assume "a \<in> dom (jmem (jheap0 :: 'r jheap))"
    then show "a < jnext (jheap0 :: 'r jheap)" "set (kids (jheap0 :: 'r jheap) a) \<subseteq> dom (jmem (jheap0 :: 'r jheap))"
      using k [of a] unfolding d by (auto simp: jheap0_def)
  qed (auto simp: d)
  then show ?thesis using n by (auto simp: sound_def jheap0_def singleton_def)
qed

lemma client_sound: "client fin h ext \<Longrightarrow> sound h ext"
proof (induction rule: client.induct)
  case start
  show ?case by (rule start_sound)
next
  case (step h ext c r h')
  then show ?case using exec_fine [OF step.IH step.hyps(2), of fin] by (auto simp: fine_def)
qed

text \<open>A program that has made an array and taken \<^verbatim>\<open>json_true\<close>.\<close>

lemma small_client:
  "client (\<lambda>_. True) (snd (json_array (jheap0 :: int jheap))) (\<lambda>a. if a = 4 \<or> a = 1 then 1 else 0)"
proof -
  let ?h = "snd (json_array (jheap0 :: int jheap))" let ?e = "after (\<lambda>_. 0) (NewArray :: int call) (Value 4)"
  have "client (\<lambda>_. True) ?h ?e"
    by (rule client.step [OF client.start]) (simp_all add: allowed_def value_answer_def json_array_def json_init_def jheap0_def)
  from client.step [OF this, of GetTrue "Value json_true"]
  have "client (\<lambda>_. True) ?h (after ?e (GetTrue :: int call) (Value json_true))" by (simp add: allowed_def)
  moreover have "after ?e (GetTrue :: int call) (Value json_true) = (\<lambda>a. if a = 4 \<or> a = 1 then 1 else 0)"
    by (auto simp: after_def json_true_def the_true_def)
  ultimately show ?thesis by simp
qed

section \<open>Properties\<close>

text \<open>
  C9. No call of a program that respects ownership touches a freed value, frees one twice or runs without end: in every
  reachable store each allowed call returns, whatever its arguments, and leads to a reachable store again.\<close>

theorem client_calls_return:
  assumes "client fin h ext" "allowed h ext c"
  shows "\<exists>r h'. exec fin c h = Some (r, h') \<and> client fin h' (after ext c r)"
proof -
  from exec_fine [OF client_sound [OF assms(1)] assms(2), of fin] obtain r h' where "exec fin c h = Some (r, h')"
    by (auto simp: fine_def)
  with assms show ?thesis using client.step by blast
qed

theorem client_calls_return_witness:
  "\<exists>r h'. exec (\<lambda>_. True) (ArrayAppend 4 1) (snd (json_array (jheap0 :: int jheap))) = Some (r, h') \<and>
     client (\<lambda>_. True) h' (after (\<lambda>a. if a = 4 \<or> a = 1 then 1 else 0) (ArrayAppend 4 1 :: int call) r)"
  by (rule client_calls_return [OF small_client]) (simp add: allowed_def)






section \<open>Arrays as lists\<close>

definition elements :: "'r jheap \<Rightarrow> nat \<Rightarrow> nat list option" where
  "elements h p = map_option (\<lambda>(s, n, t). take n t) (array_at h p)"

lemma elements_upd [simp]: "elements (upd_body h p n (BArray s k t)) p = Some (take k t)"
  by (simp add: elements_def array_at_def body_at_def upd_body_def)

lemma elementsE:
  assumes "sound h ext" "0 < ext p" "elements h p = Some xs"
  obtains nd s n t where "jmem h p = Some nd" "jbody nd = BArray s n t" "xs = take n t" "n \<le> s" "length t = s" "p \<noteq> 0" "length xs = n"
proof -
  from assms(3) obtain nd s n t where a: "jmem h p = Some nd" "jbody nd = BArray s n t" "xs = take n t"
    by (auto simp: elements_def array_at_def body_at_def split: option.splits body.splits)
  then show thesis using that sound_body [OF assms(1) a(1)] sound_ext [OF assms(1,2)] by simp
qed

lemma elements_drop:
  assumes "sound h ext" "0 < ext p" "elements h p = Some xs" "0 < ext v" "v \<noteq> p"
  shows "\<exists>h'. drop_value v h = Some (-1, h') \<and> elements h' p = Some xs"
proof -
  from elementsE [OF assms(1-3)] obtain nd s n t where nd: "jmem h p = Some nd" "jbody nd = BArray s n t" "xs = take n t" by metis
  have o: "owned h (map Decref []) (kids h) ext" using assms(1) by (simp add: sound_def)
  have d: "v \<in> dom (jmem h)" by (rule ownedD(5) [OF o assms(4)])
  have o1: "owned h (map Decref [v]) (kids h) (gives ext v)" using owned_decref [OF assms(1,4)] by (simp add: gives_def)
  from run_tasks_ok [OF o1] obtain h1 where h1: "run_tasks [Decref v] h = Some h1" "owned h1 [] (kids h) (gives ext v)" "remains h h1" by auto
  have "p \<in> dom (jmem h1)" by (rule ownedD(5) [OF h1(2)]) (use assms(2,5) in simp)
  from remains_at [OF h1(3) nd(1) this] nd(2,3) h1(1) show ?thesis
    by (auto simp: drop_value_def json_decref_def elements_def array_at_def body_at_def)
qed

lemma elements_size: "elements h p = Some xs \<Longrightarrow> p \<noteq> 0 \<Longrightarrow> sound h ext \<Longrightarrow> json_array_size h p = Some (length xs)"
  "elements h p = Some xs \<Longrightarrow> p \<noteq> 0 \<Longrightarrow> sound h ext \<Longrightarrow> i < length xs \<Longrightarrow> json_array_get h p i = Some (xs ! i)"
  using sound_body [of h ext p] by (auto simp: elements_def json_array_size_def json_array_get_def table_at_def array_at_def body_at_def json_is_def
    split: option.splits body.splits)

lemma array_append_view:
  assumes "sound h ext" "0 < ext p" "elements h p = Some xs" "v \<noteq> 0" "v \<noteq> p"
  shows "\<exists>nd s t. jmem h p = Some nd \<and> json_array_append_new p v h = Some (0, upd_body h p nd (BArray s (length xs + 1) t)) \<and>
    take (length xs + 1) t = xs @ [v]"
proof -
  from elementsE [OF assms(1-3)] obtain nd s n t where nd: "jmem h p = Some nd" "jbody nd = BArray s n t" "xs = take n t" "p \<noteq> 0" "length xs = n" by metis
  from json_array_append_new_ok [OF nd(1,2) sound_body [OF assms(1) nd(1)] nd(4) assms(4,5)] nd show ?thesis by auto
qed

lemma array_insert_view:
  assumes "sound h ext" "0 < ext p" "elements h p = Some xs" "0 < ext v" "v \<noteq> p"
  shows "\<exists>h'. json_array_insert_new p i v h = Some (if i \<le> length xs then 0 else -1, h') \<and>
    elements h' p = Some (if i \<le> length xs then take i xs @ v # drop i xs else xs)"
proof -
  from elementsE [OF assms(1-3)] obtain nd s n t where nd: "jmem h p = Some nd" "jbody nd = BArray s n t" "xs = take n t" "p \<noteq> 0" "length xs = n" by metis
  have v: "v \<noteq> 0" using sound_ext [OF assms(1,4)] by blast
  show ?thesis
  proof (cases "i \<le> n")
    case True
    from json_array_insert_new_ok [OF nd(1,2) sound_body [OF assms(1) nd(1)] nd(4) v assms(5) True] nd True show ?thesis
      by (auto simp: min_def)
  next
    case False
    then show ?thesis using elements_drop [OF assms] nd v assms(5) by (auto simp: json_array_insert_new_def)
  qed
qed

lemma array_set_view:
  assumes s: "sound h ext" "0 < ext p" "elements h p = Some xs" "0 < ext v" "v \<noteq> p"
  shows "\<exists>h'. json_array_set_new p i v h = Some (if i < length xs then 0 else -1, h') \<and>
    elements h' p = Some (if i < length xs then xs[i := v] else xs)"
proof -
  from elementsE [OF assms(1-3)] obtain nd s n t where
    nd: "jmem h p = Some nd" "jbody nd = BArray s n t" "xs = take n t" "n \<le> s" "length t = s" "p \<noteq> 0" "length xs = n" by metis
  have v: "v \<noteq> 0" using sound_ext [OF assms(1,4)] by blast
  show ?thesis
  proof (cases "i < n")
    case True
    have "exchange h ext p (BArray s n (t[i := v])) [t ! i] (gives ext v)"
      by (rule exchange_take [OF assms(1,2) nd(1)])
        (use nd assms True count_take_set [of i n t v] in \<open>auto simp: singleton_def\<close>)
    from release_then_set [OF assms(1) this nd(1)] obtain h1 n1 where
      h1: "run_tasks [Decref (t ! i)] h = Some h1" "jmem h1 p = Some n1" "jbody n1 = jbody nd" by auto
    from json_array_set_new_ok [OF nd(1,2) sound_body [OF assms(1) nd(1)] nd(6) v assms(5) True h1] True nd
    show ?thesis by (simp add: take_update_swap)
  next
    case False
    then show ?thesis using elements_drop [OF assms] nd v assms(5) by (auto simp: json_array_set_new_def)
  qed
qed

lemma array_remove_view:
  assumes "sound h ext" "0 < ext p" "elements h p = Some xs"
  shows "\<exists>h'. json_array_remove p i h = Some (if i < length xs then 0 else -1, h') \<and>
    elements h' p = Some (take i xs @ drop (i + 1) xs)"
proof -
  from elementsE [OF assms(1-3)] obtain nd s n t where
    nd: "jmem h p = Some nd" "jbody nd = BArray s n t" "xs = take n t" "n \<le> s" "length t = s" "p \<noteq> 0" "length xs = n" by metis
  show ?thesis
  proof (cases "i < n")
    case True
    let ?t = "take i t @ drop (i + 1) (take n t) @ drop (n - 1) t"
    have "exchange h ext p (BArray s (n - 1) ?t) [t ! i] ext"
      by (rule exchange_keep [OF assms(1,2) nd(1)])
        (use nd True count_take_remove [of i n t] in \<open>auto simp: singleton_def\<close>)
    from release_then_set [OF assms(1) this nd(1)] obtain h1 n1 where
      h1: "run_tasks [Decref (t ! i)] h = Some h1" "jmem h1 p = Some n1" "jbody n1 = jbody nd" by auto
    from json_array_remove_ok [OF nd(1,2) sound_body [OF assms(1) nd(1)] nd(6) True h1] True nd
    show ?thesis by (auto simp: min_def)
  next
    case False
    then show ?thesis using assms(3) nd by (auto simp: json_array_remove_def)
  qed
qed



section \<open>Copies of arrays\<close>

lemma array_append_step:
  assumes s: "sound h ext" and q: "0 < ext q" "elements h q = Some ys" and p: "elements h p = Some xs" "p \<noteq> q" and i: "i < length xs" "xs ! i \<noteq> q"
  shows "\<exists>h'. json_array_append q (xs ! i) h = Some (0, h') \<and> sound h' ext \<and> elements h' q = Some (ys @ [xs ! i]) \<and> elements h' p = Some xs"
proof -
  from p(1) obtain nd c n t where nd: "jmem h p = Some nd" "jbody nd = BArray c n t" "xs = take n t"
    by (auto simp: elements_def array_at_def body_at_def split: option.splits body.splits)
  let ?v = "xs ! i"
  have d: "?v \<in> dom (jmem h)" using sound_kids [OF s nd(1)] nd i by (metis children.simps(2) nth_mem subsetD)
  from incref_sound [OF s d] obtain h1 where
    h1: "json_incref ?v h = Some (?v, h1)" "sound h1 (ext(?v := ext ?v + 1))" "remains h h1" "dom (jmem h1) = dom (jmem h)" by blast
  have same: "elements h1 a = elements h a" for a
  proof (cases "jmem h a")
    case None
    then have "jmem h1 a = None" using h1(4) by auto
    with None show ?thesis by (simp add: elements_def array_at_def body_at_def)
  next
    case (Some m)
    then have "a \<in> dom (jmem h1)" using h1(4) by auto
    from remains_at [OF h1(3) Some this] Some show ?thesis by (auto simp: elements_def array_at_def body_at_def)
  qed
  let ?e = "ext(?v := ext ?v + 1)"
  have q1: "0 < ?e q" "elements h1 q = Some ys" using q same by auto
  have v0: "?v \<noteq> 0" using d ownedD(2) [of h "[]" "kids h" ext] s by (auto simp: sound_def)
  from array_append_view [OF h1(2) q1 v0 i(2)] obtain n1 c1 t1 where
    r: "jmem h1 q = Some n1" "json_array_append_new q ?v h1 = Some (0, upd_body h1 q n1 (BArray c1 (length ys + 1) t1))"
      "take (length ys + 1) t1 = ys @ [?v]" by blast
  have g: "gives ?e ?v = ext" by (auto simp: gives_def)
  have "returns_sound (json_array_append_new q ?v h1) (gives ?e ?v)" by (rule append_new_sound [OF h1(2) q1(1)]) simp
  then have "returns_sound (json_array_append_new q ?v h1) ext" unfolding g .
  then have "sound (upd_body h1 q n1 (BArray c1 (length ys + 1) t1)) ext" using r(2) by (simp add: returns_sound_def)
  moreover have "elements (upd_body h1 q n1 (BArray c1 (length ys + 1) t1)) p = Some xs"
    using p same [of p] by (simp add: elements_def array_at_def body_at_def upd_body_def)
  ultimately show ?thesis using h1(1) r by (simp add: json_array_append_def)
qed

lemma array_copy_loop_ok:
  assumes "sound h ext" "0 < ext q" "elements h q = Some (take i xs)" "elements h p = Some xs" "p \<noteq> q" "q \<notin> set xs" "i \<le> length xs" "p \<noteq> 0"
  shows "\<exists>h'. array_copy_loop q p i h = Some h' \<and> sound h' ext \<and> elements h' q = Some xs \<and> elements h' p = Some xs"
  using assms
proof (induction "length xs - i" arbitrary: i h)
  case 0
  then show ?case by (subst array_copy_loop.simps) (use elements_size(1) [of h p xs ext] in auto)
next
  case (Suc k)
  then have i: "i < length xs" by simp
  have "xs ! i \<noteq> q" using Suc.prems(6) i by auto
  from array_append_step [OF Suc.prems(1-5) i this] i obtain h' where
    h': "json_array_append q (xs ! i) h = Some (0, h')" "sound h' ext" "elements h' q = Some (take (i + 1) xs)" "elements h' p = Some xs"
    by (auto simp: take_Suc_conv_app_nth)
  have "array_copy_loop q p i h = array_copy_loop q p (i + 1) h'"
    using i h'(1) elements_size [OF Suc.prems(4,8,1)] by (subst array_copy_loop.simps) simp
  moreover have "\<exists>h''. array_copy_loop q p (i + 1) h' = Some h'' \<and> sound h'' ext \<and> elements h'' q = Some xs \<and> elements h'' p = Some xs"
    by (rule Suc.hyps(1)) (use Suc h' i in auto)
  ultimately show ?case by simp
qed

text \<open>
  \<^verbatim>\<open>json_array_copy\<close> of an array that is alive returns a new array with the same elements, shared with the
  source, and one reference to it for the caller; the source keeps its elements.\<close>

theorem json_array_copy_shares:
  assumes s: "sound h ext" and p: "elements h p = Some xs"
  shows "\<exists>q h'. json_array_copy p h = Some (q, h') \<and> jmem h q = None \<and> sound h' (ext(q := 1)) \<and>
    elements h' q = Some xs \<and> elements h' p = Some xs"
proof -
  let ?q = "jnext h" let ?h = "snd (json_array h)"
  have o: "owned h [] (kids h) ext" using s by (simp add: sound_def)
  from p obtain nd c n t where nd: "jmem h p = Some nd" "jbody nd = BArray c n t" "xs = take n t"
    by (auto simp: elements_def array_at_def body_at_def split: option.splits body.splits)
  have new: "jmem h ?q = None" using ownedD(3) [OF o, of ?q] by fastforce
  then have pq: "p \<noteq> ?q" "p \<noteq> 0" using nd(1) ownedD(2) [OF o] by auto
  have "ext ?q = 0" using sound_ext [OF s, of ?q] new by auto
  then have s1: "sound ?h (ext(?q := 1))" using init_sound [OF s, of "BArray 8 0 (replicate 8 0)"] by (simp add: json_array_def singleton_def)
  have "?q \<notin> set xs" using sound_kids [OF s nd(1)] nd new by auto
  moreover have "elements ?h ?q = Some (take 0 xs)" "elements ?h p = Some xs"
    using p pq by (auto simp: elements_def array_at_def body_at_def json_array_def json_init_def)
  ultimately obtain h' where "array_copy_loop ?q p 0 ?h = Some h'" "sound h' (ext(?q := 1))" "elements h' ?q = Some xs" "elements h' p = Some xs"
    using array_copy_loop_ok [OF s1, of ?q 0 xs p] pq by auto
  then show ?thesis using new by (auto simp: json_array_copy_def json_array_def json_init_def)
qed

theorem json_array_copy_shares_witness:
  "\<exists>q h'. json_array_copy 4 (snd (json_array (jheap0 :: int jheap))) = Some (q, h') \<and> elements h' q = Some []"
proof -
  have "elements (snd (json_array (jheap0 :: int jheap))) 4 = Some []"
    by (simp add: elements_def array_at_def body_at_def json_array_def json_init_def jheap0_def)
  from json_array_copy_shares [OF client_sound [OF small_client] this] show ?thesis by auto
qed

text \<open>
  Keys with an embedded NUL byte, which \<^verbatim>\<open>json_object_setn_new_nocheck\<close> stores, are cut short by the copy, because
  it passes them on as C strings: the copy of an object with the key \<^verbatim>\<open>a\0b\<close> has the key \<^verbatim>\<open>a\<close> instead, and
  \<^verbatim>\<open>json_equal\<close>, which looks the keys up in the same way, says that the two objects are equal.\<close>

theorem json_copy_truncates_keys:
  "(let (p, h1) = json_object (jheap0 :: int jheap) in
    case json_object_setn_new_nocheck p (Some [97, 0, 98]) json_true h1 of
      None \<Rightarrow> False
    | Some (r, h2) \<Rightarrow> (case json_copy (\<lambda>_. True) 0 p h2 of
        None \<Rightarrow> False
      | Some (q, h3) \<Rightarrow> members_at h3 p = Some [([97, 0, 98], json_true)] \<and> members_at h3 q = Some [([97], json_true)] \<and>
          json_equal 2 0 h3 p q = Some True))"
  by code_simp

end
