(* ===== verification/JsonDump.thy ===== *)
theory JsonDump
  imports JsonLoadSafe JsonClient StrBuffer
begin

text \<open>
  The encoder of jansson: \<^verbatim>\<open>dump.c\<close> and \<^verbatim>\<open>jsonp_dtostr\<close> of \<^verbatim>\<open>strconv.c\<close>, on the store of values.

  A callback takes the bytes of one call and its own state and returns its result; \<^term>\<open>None\<close> is undefined behaviour. Values and
  parents are those of theory \<open>JsonValue\<close>; the members of an object are visited in their order. \<^verbatim>\<open>snprintf("%.*g")\<close>, \<^verbatim>\<open>fwrite\<close>,
  \<^verbatim>\<open>write\<close>, \<^verbatim>\<open>fopen\<close> and \<^verbatim>\<open>fclose\<close> are parameters; \<^verbatim>\<open>qsort\<close> is a sort by its comparison. The locale's decimal point is a dot.
  The allocations of the set of parents and of the sorted keys succeed, and a key is shorter than 2 ^ 31 bytes.
\<close>

section \<open>Flags and sinks\<close>

definition JSON_COMPACT :: u32 where "JSON_COMPACT = 0x20"
definition JSON_ENSURE_ASCII :: u32 where "JSON_ENSURE_ASCII = 0x40"
definition JSON_SORT_KEYS :: u32 where "JSON_SORT_KEYS = 0x80"
definition JSON_ENCODE_ANY :: u32 where "JSON_ENCODE_ANY = 0x200"
definition JSON_ESCAPE_SLASH :: u32 where "JSON_ESCAPE_SLASH = 0x400"
definition JSON_EMBED :: u32 where "JSON_EMBED = 0x10000"

definition FLAGS_TO_INDENT :: "u32 \<Rightarrow> nat" where "FLAGS_TO_INDENT f = unat (f AND 0x1F)"
definition FLAGS_TO_PRECISION :: "u32 \<Rightarrow> nat" where "FLAGS_TO_PRECISION f = unat (drop_bit 11 f AND 0x1F)"

definition MAX_INTEGER_STR_LENGTH :: nat where "MAX_INTEGER_STR_LENGTH = 100"
definition MAX_REAL_STR_LENGTH :: nat where "MAX_REAL_STR_LENGTH = 100"

definition fset :: "u32 \<Rightarrow> u32 \<Rightarrow> bool" where "fset f b \<longleftrightarrow> f AND b \<noteq> 0"

type_synonym 's sink = "int list \<Rightarrow> 's \<Rightarrow> (int \<times> 's) option"

record buffer =
  b_size :: nat
  b_used :: nat
  b_data :: "int list"

definition dump_to_strbuffer :: "mallocf \<Rightarrow> strbuffer_t sink" where
  "dump_to_strbuffer malloc bs sb = strbuffer_append_bytes malloc sb bs (length bs)"

definition dump_to_buffer :: "buffer sink" where
  "dump_to_buffer bs buf = do {
     data \<leftarrow> (if add32 (b_used buf) (length bs) \<le> b_size buf then mem_copy (b_data buf) (b_used buf) bs (length bs) else Some (b_data buf));
     Some (0, buf\<lparr>b_data := data, b_used := add32 (b_used buf) (length bs)\<rparr>) }"

definition dump_to_file :: "(int list \<Rightarrow> 'f \<Rightarrow> nat \<times> 'f) \<Rightarrow> 'f sink" where
  "dump_to_file fwrite bs dest = (let (n, dest') = fwrite bs dest in Some (if n \<noteq> 1 then -1 else 0, dest'))"

definition dump_to_fd :: "(int list \<Rightarrow> 'f \<Rightarrow> int \<times> 'f) \<Rightarrow> 'f sink" where
  "dump_to_fd write_fd bs dest = (let (n, dest') = write_fd bs dest in Some (if n = int (length bs) then 0 else -1, dest'))"

text \<open>\<^verbatim>\<open>if (x) return -1;\<close> and what follows.\<close>

definition unless :: "(int \<times> 's) option \<Rightarrow> ('s \<Rightarrow> (int \<times> 's) option) \<Rightarrow> (int \<times> 's) option" where
  "unless x f = do { (r, s) \<leftarrow> x; if r \<noteq> 0 then Some (-1, s) else f s }"

section \<open>Indentation and strings\<close>

function spaces_loop :: "'s sink \<Rightarrow> nat \<Rightarrow> 's \<Rightarrow> (int \<times> 's) option" where
  "spaces_loop dump n_spaces s =
     (if n_spaces > 0
      then let cur_n = (if n_spaces < 32 then n_spaces else 32)
        in unless (dump (replicate cur_n 32) s) (spaces_loop dump (n_spaces - cur_n))
      else Some (0, s))"
  by pat_completeness auto
termination by (relation "measure (\<lambda>(dump, n, s). n)") auto

definition dump_indent :: "u32 \<Rightarrow> nat \<Rightarrow> bool \<Rightarrow> 's sink \<Rightarrow> 's \<Rightarrow> (int \<times> 's) option" where
  "dump_indent flags dep space dump s =
     (if FLAGS_TO_INDENT flags > 0
      then unless (dump [10] s) (spaces_loop dump (dep * FLAGS_TO_INDENT flags mod 2 ^ 32))
      else if space \<and> \<not> fset flags JSON_COMPACT then dump [32] s
      else Some (0, s))"

definition needs_escape :: "u32 \<Rightarrow> int \<Rightarrow> bool" where
  "needs_escape flags codepoint \<longleftrightarrow> codepoint = 92 \<or> codepoint = 34 \<or> codepoint < 0x20 \<or>
     fset flags JSON_ESCAPE_SLASH \<and> codepoint = 47 \<or> fset flags JSON_ENSURE_ASCII \<and> codepoint > 0x7F"

text \<open>The inner loop: the bytes from \<^verbatim>\<open>str\<close> to \<^verbatim>\<open>pos\<close>, and the code point to escape with the bytes behind it.\<close>

function scan_plain :: "u32 \<Rightarrow> int list \<Rightarrow> int list \<Rightarrow> (int list \<times> (int \<times> int list) option) option" where
  "scan_plain flags chunk rest =
     (if rest = [] then Some (chunk, None)
      else case utf8_iterate rest 0 of
        None \<Rightarrow> None
      | Some (n, codepoint) \<Rightarrow>
          if needs_escape flags codepoint then Some (chunk, Some (codepoint, drop n rest))
          else if n = 0 then None
          else scan_plain flags (chunk @ take n rest) (drop n rest))"
  by pat_completeness auto
termination by (relation "measure (\<lambda>(f, c, r). length r)") auto

definition escape_text :: "int \<Rightarrow> int list" where
  "escape_text codepoint =
     (if codepoint = 92 then [92, 92]
      else if codepoint = 34 then [92, 34]
      else if codepoint = 8 then [92, 98]
      else if codepoint = 12 then [92, 102]
      else if codepoint = 10 then [92, 110]
      else if codepoint = 13 then [92, 114]
      else if codepoint = 9 then [92, 116]
      else if codepoint = 47 then [92, 47]
      else if codepoint < 0x10000 then [92, 117] @ fmt_04X codepoint
      else let c = codepoint - 0x10000;
               first = 0xD800 OR drop_bit 10 (c AND 0xFFC00);
               last = 0xDC00 OR (c AND 0x3FF)
        in [92, 117] @ fmt_04X first @ [92, 117] @ fmt_04X last)"

lemma scan_plain_shorter:
  "scan_plain flags chunk rest = Some (c, Some (cp, rest')) \<Longrightarrow> length rest' < length rest"
proof (induction flags chunk rest rule: scan_plain.induct)
  case (1 flags chunk rest)
  from 1(2) obtain n cq where it: "rest \<noteq> []" "utf8_iterate rest 0 = Some (n, cq)"
    by (auto split: if_splits option.splits prod.splits simp: scan_plain.simps [of flags chunk rest])
  have "0 < n" using it by (auto simp: utf8_iterate_def Let_def split: if_splits)
  show ?case
  proof (cases "needs_escape flags cq")
    case True
    then show ?thesis using 1(2) it \<open>0 < n\<close> by (auto simp: scan_plain.simps [of flags chunk rest])
  next
    case False
    then have "scan_plain flags (chunk @ take n rest) (drop n rest) = Some (c, Some (cp, rest'))"
      using 1(2) it \<open>0 < n\<close> by (simp add: scan_plain.simps [of flags chunk rest])
    then have "length rest' < length (drop n rest)" using 1(1) it False \<open>0 < n\<close> by auto
    then show ?thesis by simp
  qed
qed

declare scan_plain.simps [simp del]

function string_loop :: "u32 \<Rightarrow> 's sink \<Rightarrow> int list \<Rightarrow> 's \<Rightarrow> (int \<times> 's) option" where
  "string_loop flags dump rest s =
     (case scan_plain flags [] rest of
        None \<Rightarrow> Some (-1, s)
      | Some (chunk, esc) \<Rightarrow>
          unless (if chunk \<noteq> [] then dump chunk s else Some (0, s))
            (\<lambda>s1. case esc of
               None \<Rightarrow> dump [34] s1
             | Some (codepoint, rest') \<Rightarrow> unless (dump (escape_text codepoint) s1) (string_loop flags dump rest')))"
  by pat_completeness auto
termination by (relation "measure (\<lambda>(f, d, r, s). length r)") (auto dest: scan_plain_shorter)

declare string_loop.simps [simp del] spaces_loop.simps [simp del]

definition dump_string :: "u32 \<Rightarrow> 's sink \<Rightarrow> int list \<Rightarrow> 's \<Rightarrow> (int \<times> 's) option" where
  "dump_string flags dump t s = unless (dump [34] s) (string_loop flags dump t)"

section \<open>Numbers\<close>

function dec_digits :: "nat \<Rightarrow> int list" where
  "dec_digits n = (if n < 10 then [48 + int n] else dec_digits (n div 10) @ [48 + int (n mod 10)])"
  by pat_completeness auto
termination by (relation "measure id") auto

declare dec_digits.simps [simp del]

text \<open>The format \<^verbatim>\<open>%lld\<close>.\<close>

definition fmt_d :: "int \<Rightarrow> int list" where
  "fmt_d i = (if i < 0 then 45 # dec_digits (nat (- i)) else dec_digits (nat i))"

text \<open>\<open>fmt_g precision value\<close> is the text of \<^verbatim>\<open>%.*g\<close>, None for a negative result of \<^verbatim>\<open>snprintf\<close>.\<close>

definition strip_exponent :: "int list \<Rightarrow> int list" where
  "strip_exponent t =
     (if 101 \<notin> set t then t
      else let pre = takeWhile (\<lambda>c. c \<noteq> 101) t @ [101];
               ex = tl (dropWhile (\<lambda>c. c \<noteq> 101) t);
               keep = (if ex \<noteq> [] \<and> hd ex = 45 then [45] else [])
        in pre @ keep @ dropWhile (\<lambda>c. c = 48) (tl ex))"

definition jsonp_dtostr :: "(nat \<Rightarrow> 'r \<Rightarrow> int list option) \<Rightarrow> nat \<Rightarrow> 'r \<Rightarrow> nat \<Rightarrow> int list option" where
  "jsonp_dtostr fmt_g sz v precision =
     (case fmt_g (if precision = 0 then 17 else precision) v of
        None \<Rightarrow> None
      | Some t \<Rightarrow>
          if length t \<ge> sz then None
          else if 46 \<notin> set t \<and> 101 \<notin> set t
          then (if length t + 3 \<ge> sz then None else Some (strip_exponent (t @ [46, 48])))
          else Some (strip_exponent t))"

section \<open>Values\<close>

fun memcmp :: "int list \<Rightarrow> int list \<Rightarrow> nat \<Rightarrow> int" where
  "memcmp (a # as) (b # bs) (Suc n) = (if a \<noteq> b then a - b else memcmp as bs n)"
| "memcmp _ _ _ = 0"

definition compare_keys :: "int list \<Rightarrow> int list \<Rightarrow> int" where
  "compare_keys k1 k2 =
     (let res = memcmp k1 k2 (min (length k1) (length k2))
      in if res \<noteq> 0 then res else int (length k1) - int (length k2))"

fun insert_key :: "int list \<Rightarrow> int list list \<Rightarrow> int list list" where
  "insert_key k [] = [k]"
| "insert_key k (x # xs) = (if compare_keys k x \<le> 0 then k # x # xs else x # insert_key k xs)"

definition qsort_keys :: "int list list \<Rightarrow> int list list" where
  "qsort_keys ks = foldr insert_key ks []"

text \<open>The loops; \<open>dump_value\<close> dumps one value. What \<^verbatim>\<open>dump_string\<close> returns for a key is not used.\<close>

fun array_dump_loop ::
  "(nat \<Rightarrow> 's \<Rightarrow> (int \<times> 's) option) \<Rightarrow> u32 \<Rightarrow> nat \<Rightarrow> 's sink \<Rightarrow> 'r jheap \<Rightarrow> nat \<Rightarrow> nat \<Rightarrow> nat \<Rightarrow> 's \<Rightarrow> (int \<times> 's) option" where
  "array_dump_loop dump_value flags dep dump h p i 0 s = Some (0, s)"
| "array_dump_loop dump_value flags dep dump h p i (Suc k) s = do {
     v \<leftarrow> json_array_get h p i;
     unless (dump_value v s)
       (\<lambda>s1. if k \<noteq> 0
             then unless (dump [44] s1) (\<lambda>s2. unless (dump_indent flags (dep + 1) True dump s2)
                    (array_dump_loop dump_value flags dep dump h p (i + 1) k))
             else unless (dump_indent flags dep False dump s1) (array_dump_loop dump_value flags dep dump h p (i + 1) k)) }"

fun keys_dump_loop ::
  "(int list \<Rightarrow> nat option) \<Rightarrow> (nat \<Rightarrow> 's \<Rightarrow> (int \<times> 's) option) \<Rightarrow> u32 \<Rightarrow> nat \<Rightarrow> 's sink \<Rightarrow> int list list \<Rightarrow> 's \<Rightarrow> (int \<times> 's) option" where
  "keys_dump_loop lookup dump_value flags dep dump [] s = Some (0, s)"
| "keys_dump_loop lookup dump_value flags dep dump (key # keys) s = do {
     v \<leftarrow> lookup key;
     (_, s1) \<leftarrow> dump_string flags dump key s;
     unless (dump (if fset flags JSON_COMPACT then [58] else [58, 32]) s1)
       (\<lambda>s2. unless (dump_value v s2)
         (\<lambda>s3. if keys \<noteq> []
               then unless (dump [44] s3) (\<lambda>s4. unless (dump_indent flags (dep + 1) True dump s4)
                      (keys_dump_loop lookup dump_value flags dep dump keys))
               else unless (dump_indent flags dep False dump s3) (keys_dump_loop lookup dump_value flags dep dump keys))) }"

definition getn_value :: "'r jheap \<Rightarrow> nat \<Rightarrow> int list \<Rightarrow> nat option" where
  "getn_value h p key = do { v \<leftarrow> json_object_getn h p (Some key); assert_c (v \<noteq> 0); Some v }"

definition dump_array ::
  "(nat list \<Rightarrow> nat \<Rightarrow> 's \<Rightarrow> (int \<times> 's) option) \<Rightarrow> bool \<Rightarrow> u32 \<Rightarrow> nat \<Rightarrow> nat list \<Rightarrow> 's sink \<Rightarrow> 'r jheap \<Rightarrow> nat \<Rightarrow> 's \<Rightarrow> (int \<times> 's) option" where
  "dump_array dump_value emb flags dep parents dump h p s =
     (let (c, parents1) = jsonp_loop_check parents p;
          close = (\<lambda>s. if emb then Some (0, s) else dump [93] s)
      in if c \<noteq> 0 then Some (-1, s)
         else do {
           n \<leftarrow> json_array_size h p;
           unless (if emb then Some (0, s) else dump [91] s)
             (\<lambda>s1. if n = 0 then close s1
               else unless (dump_indent flags (dep + 1) False dump s1)
                 (\<lambda>s2. unless (array_dump_loop (dump_value parents1) flags dep dump h p 0 n s2) close)) })"

definition dump_object ::
  "(nat list \<Rightarrow> nat \<Rightarrow> 's \<Rightarrow> (int \<times> 's) option) \<Rightarrow> bool \<Rightarrow> u32 \<Rightarrow> nat \<Rightarrow> nat list \<Rightarrow> 's sink \<Rightarrow> 'r jheap \<Rightarrow> nat \<Rightarrow> 's \<Rightarrow> (int \<times> 's) option" where
  "dump_object dump_value emb flags dep parents dump h p s =
     (let (c, parents1) = jsonp_loop_check parents p;
          close = (\<lambda>s. if emb then Some (0, s) else dump [125] s)
      in if c \<noteq> 0 then Some (-1, s)
         else do {
           ms \<leftarrow> members_at h p;
           unless (if emb then Some (0, s) else dump [123] s)
             (\<lambda>s1. if ms = [] then close s1
               else unless (dump_indent flags (dep + 1) False dump s1)
                 (\<lambda>s2. unless
                   (if fset flags JSON_SORT_KEYS
                    then keys_dump_loop (getn_value h p) (dump_value parents1) flags dep dump (qsort_keys (map fst ms)) s2
                    else keys_dump_loop (\<lambda>k. json_object_iter_value h p (Some k)) (dump_value parents1) flags dep dump (map fst ms) s2)
                   close)) })"

text \<open>The first argument bounds the depth, which the check for circular references ends.\<close>

fun do_dump ::
  "nat \<Rightarrow> (nat \<Rightarrow> 'r \<Rightarrow> int list option) \<Rightarrow> 'r \<Rightarrow> 's sink \<Rightarrow> 'r jheap \<Rightarrow> u32 \<Rightarrow> nat \<Rightarrow> nat list \<Rightarrow> nat \<Rightarrow> 's \<Rightarrow> (int \<times> 's) option" where
  "do_dump 0 fmt_g zero dump h flags0 dep parents p s = None"
| "do_dump (Suc n) fmt_g zero dump h flags0 dep parents p s =
     (let emb = fset flags0 JSON_EMBED; flags = flags0 AND NOT JSON_EMBED;
          dump_value = (\<lambda>parents1 v. do_dump n fmt_g zero dump h flags (dep + 1) parents1 v)
      in if p = 0 then Some (-1, s)
         else do {
           b \<leftarrow> body_at h p;
           (case b of
              BNull \<Rightarrow> dump (str ''null'') s
            | BTrue \<Rightarrow> dump (str ''true'') s
            | BFalse \<Rightarrow> dump (str ''false'') s
            | BInteger _ \<Rightarrow> do {
                v \<leftarrow> json_integer_value h p;
                if length (fmt_d v) \<ge> MAX_INTEGER_STR_LENGTH then Some (-1, s) else dump (fmt_d v) s }
            | BReal _ \<Rightarrow> do {
                v \<leftarrow> json_real_value zero h p;
                (case jsonp_dtostr fmt_g MAX_REAL_STR_LENGTH v (FLAGS_TO_PRECISION flags) of
                   None \<Rightarrow> Some (-1, s) | Some t \<Rightarrow> dump t s) }
            | BString _ \<Rightarrow> do {
                v \<leftarrow> json_string_value h p;
                (case v of None \<Rightarrow> None | Some t \<Rightarrow> dump_string flags dump t s) }
            | BArray _ _ _ \<Rightarrow> dump_array dump_value emb flags dep parents dump h p s
            | BObject _ \<Rightarrow> dump_object dump_value emb flags dep parents dump h p s) })"

definition json_dump_callback ::
  "(nat \<Rightarrow> 'r \<Rightarrow> int list option) \<Rightarrow> 'r \<Rightarrow> 'r jheap \<Rightarrow> nat \<Rightarrow> 's sink \<Rightarrow> 's \<Rightarrow> u32 \<Rightarrow> (int \<times> 's) option" where
  "json_dump_callback fmt_g zero h p callback s flags = do {
     a \<leftarrow> json_is is_array h p;
     b \<leftarrow> json_is is_object h p;
     if \<not> fset flags JSON_ENCODE_ANY \<and> \<not> a \<and> \<not> b then Some (-1, s)
     else do_dump (jnext h + 1) fmt_g zero callback h flags 0 [] p s }"

definition jsonp_strdup :: "mallocf \<Rightarrow> int list \<Rightarrow> int list option option" where
  "jsonp_strdup malloc s = jsonp_strndup malloc s (length (cstr s))"

definition json_dumps :: "mallocf \<Rightarrow> (nat \<Rightarrow> 'r \<Rightarrow> int list option) \<Rightarrow> 'r \<Rightarrow> 'r jheap \<Rightarrow> nat \<Rightarrow> u32 \<Rightarrow> int list option option" where
  "json_dumps malloc fmt_g zero h p flags = do {
     (r, sb) \<leftarrow> strbuffer_init malloc;
     if r \<noteq> 0 then Some None
     else do {
       (r1, sb1) \<leftarrow> json_dump_callback fmt_g zero h p (dump_to_strbuffer malloc) sb flags;
       if r1 \<noteq> 0 then Some None else do { v \<leftarrow> strbuffer_value sb1; jsonp_strdup malloc v } } }"

definition json_dumpb :: "(nat \<Rightarrow> 'r \<Rightarrow> int list option) \<Rightarrow> 'r \<Rightarrow> 'r jheap \<Rightarrow> nat \<Rightarrow> int list \<Rightarrow> nat \<Rightarrow> u32 \<Rightarrow> (nat \<times> int list) option" where
  "json_dumpb fmt_g zero h p data sz flags = do {
     (r, buf) \<leftarrow> json_dump_callback fmt_g zero h p dump_to_buffer \<lparr>b_size = sz, b_used = 0, b_data = data\<rparr> flags;
     Some (if r \<noteq> 0 then 0 else b_used buf, b_data buf) }"

definition json_dumpf ::
  "(int list \<Rightarrow> 'f \<Rightarrow> nat \<times> 'f) \<Rightarrow> (nat \<Rightarrow> 'r \<Rightarrow> int list option) \<Rightarrow> 'r \<Rightarrow> 'r jheap \<Rightarrow> nat \<Rightarrow> 'f \<Rightarrow> u32 \<Rightarrow> (int \<times> 'f) option" where
  "json_dumpf fwrite fmt_g zero h p out flags = json_dump_callback fmt_g zero h p (dump_to_file fwrite) out flags"

definition json_dumpfd ::
  "(int list \<Rightarrow> 'f \<Rightarrow> int \<times> 'f) \<Rightarrow> (nat \<Rightarrow> 'r \<Rightarrow> int list option) \<Rightarrow> 'r \<Rightarrow> 'r jheap \<Rightarrow> nat \<Rightarrow> 'f \<Rightarrow> u32 \<Rightarrow> (int \<times> 'f) option" where
  "json_dumpfd write_fd fmt_g zero h p out flags = json_dump_callback fmt_g zero h p (dump_to_fd write_fd) out flags"

definition json_dump_file ::
  "'f option \<Rightarrow> ('f \<Rightarrow> int) \<Rightarrow> (int list \<Rightarrow> 'f \<Rightarrow> nat \<times> 'f) \<Rightarrow> (nat \<Rightarrow> 'r \<Rightarrow> int list option) \<Rightarrow> 'r \<Rightarrow> 'r jheap \<Rightarrow> nat \<Rightarrow> u32 \<Rightarrow> int option" where
  "json_dump_file opened fclose fwrite fmt_g zero h p flags =
     (case opened of
        None \<Rightarrow> Some (-1)
      | Some out \<Rightarrow> do {
          (result, out') \<leftarrow> json_dumpf fwrite fmt_g zero h p out flags;
          Some (if fclose out' \<noteq> 0 then -1 else result) })"

section \<open>The text of a value\<close>

definition indent_text :: "u32 \<Rightarrow> nat \<Rightarrow> bool \<Rightarrow> int list" where
  "indent_text flags dep space =
     (if FLAGS_TO_INDENT flags > 0 then 10 # replicate (dep * FLAGS_TO_INDENT flags mod 2 ^ 32) 32
      else if space \<and> \<not> fset flags JSON_COMPACT then [32] else [])"

definition cp_text :: "u32 \<Rightarrow> int \<Rightarrow> int list" where
  "cp_text flags cp = (if needs_escape flags cp then escape_text cp else enc cp)"

function codepoints :: "int list \<Rightarrow> int list" where
  "codepoints s =
     (if s = [] then [] else case utf8_iterate s 0 of
        None \<Rightarrow> []
      | Some (n, cp) \<Rightarrow> if n = 0 then [] else cp # codepoints (drop n s))"
  by pat_completeness auto
termination by (relation "measure length") auto

declare codepoints.simps [simp del]

definition string_text :: "u32 \<Rightarrow> int list \<Rightarrow> int list" where
  "string_text flags s = [34] @ concat (map (cp_text flags) (codepoints s)) @ [34]"

fun separated :: "int list \<Rightarrow> int list list \<Rightarrow> int list" where
  "separated sep [] = []"
| "separated sep [x] = x"
| "separated sep (x # y # xs) = x @ sep @ separated sep (y # xs)"

definition frame_text :: "u32 \<Rightarrow> nat \<Rightarrow> int list list \<Rightarrow> int list" where
  "frame_text flags dep xs =
     (if xs = [] then []
      else indent_text flags (dep + 1) False @ separated ([44] @ indent_text flags (dep + 1) True) xs @ indent_text flags dep False)"

definition member_text :: "u32 \<Rightarrow> int list \<Rightarrow> int list \<Rightarrow> int list" where
  "member_text flags key t = string_text flags key @ (if fset flags JSON_COMPACT then [58] else [58, 32]) @ t"

definition in_order :: "u32 \<Rightarrow> (int list \<times> 'a) list \<Rightarrow> (int list \<times> 'a) list" where
  "in_order flags ms = (if fset flags JSON_SORT_KEYS then map (\<lambda>k. (k, the (map_of ms k))) (qsort_keys (map fst ms)) else ms)"

fun json_text :: "(nat \<Rightarrow> 'r \<Rightarrow> int list option) \<Rightarrow> u32 \<Rightarrow> nat \<Rightarrow> 'r json \<Rightarrow> int list" where
  "json_text fmt_g flags dep JNull = str ''null''"
| "json_text fmt_g flags dep JTrue = str ''true''"
| "json_text fmt_g flags dep JFalse = str ''false''"
| "json_text fmt_g flags dep (JInteger i) = fmt_d i"
| "json_text fmt_g flags dep (JReal r) = the (jsonp_dtostr fmt_g MAX_REAL_STR_LENGTH r (FLAGS_TO_PRECISION flags))"
| "json_text fmt_g flags dep (JString s) = string_text flags s"
| "json_text fmt_g flags dep (JArray vs) = [91] @ frame_text flags dep (map (json_text fmt_g flags (dep + 1)) vs) @ [93]"
| "json_text fmt_g flags dep (JObject ms) = [123] @
     frame_text flags dep (map (\<lambda>(k, t). member_text flags k t) (in_order flags (map (\<lambda>(k, v). (k, json_text fmt_g flags (dep + 1) v)) ms))) @ [125]"

text \<open>Values whose strings are UTF-8, whose integers fit \<^verbatim>\<open>json_int_t\<close> and whose reals can be printed.\<close>

definition utf8_text :: "int list \<Rightarrow> bool" where
  "utf8_text s \<longleftrightarrow> bytes s \<and> utf8_check_string s"

fun dumpable :: "(nat \<Rightarrow> 'r \<Rightarrow> int list option) \<Rightarrow> u32 \<Rightarrow> 'r json \<Rightarrow> bool" where
  "dumpable fmt_g flags (JString s) \<longleftrightarrow> utf8_text s"
| "dumpable fmt_g flags (JInteger i) \<longleftrightarrow> - (2 ^ 63) \<le> i \<and> i < 2 ^ 63"
| "dumpable fmt_g flags (JReal r) \<longleftrightarrow>
     (case jsonp_dtostr fmt_g MAX_REAL_STR_LENGTH r (FLAGS_TO_PRECISION flags) of None \<Rightarrow> False | Some t \<Rightarrow> 0 \<notin> set t)"
| "dumpable fmt_g flags (JArray vs) \<longleftrightarrow> (\<forall>v \<in> set vs. dumpable fmt_g flags v)"
| "dumpable fmt_g flags (JObject ms) \<longleftrightarrow> (\<forall>(k, v) \<in> set ms. utf8_text k \<and> dumpable fmt_g flags v)"
| "dumpable fmt_g flags _ \<longleftrightarrow> True"

text \<open>The tree that the store holds at an address.\<close>

fun tree_node :: "(nat \<Rightarrow> 'r json option) \<Rightarrow> 'r body \<Rightarrow> 'r json option" where
  "tree_node f BNull = Some JNull"
| "tree_node f BTrue = Some JTrue"
| "tree_node f BFalse = Some JFalse"
| "tree_node f (BInteger i) = Some (JInteger i)"
| "tree_node f (BReal r) = Some (JReal r)"
| "tree_node f (BString s) = Some (JString s)"
| "tree_node f (BArray c k t) = map_option JArray (those (map f (take k t)))"
| "tree_node f (BObject ms) = map_option (\<lambda>vs. JObject (zip (map fst ms) vs)) (those (map (\<lambda>m. f (snd m)) ms))"

fun tree_of :: "nat \<Rightarrow> 'r jheap \<Rightarrow> nat \<Rightarrow> 'r json option" where
  "tree_of 0 h p = None"
| "tree_of (Suc n) h p = Option.bind (body_at h p) (tree_node (tree_of n h))"

section \<open>Sinks\<close>

text \<open>A sink that takes all that is written, as long as it is not more than \<open>lim\<close> bytes. \<open>rel s t\<close>: the state \<open>s\<close> has received \<open>t\<close>.\<close>

locale dump_sink =
  fixes dump :: "'s sink" and rel :: "'s \<Rightarrow> int list \<Rightarrow> bool" and lim :: nat
  assumes dump_ok: "rel s t \<Longrightarrow> length t + length bs \<le> lim \<Longrightarrow> \<exists>s'. dump bs s = Some (0, s') \<and> rel s' (t @ bs)"
begin

definition emits :: "(int \<times> 's) option \<Rightarrow> int list \<Rightarrow> bool" where
  "emits x u \<longleftrightarrow> (\<exists>s'. x = Some (0, s') \<and> rel s' u)"

lemma emits_dump: "rel s t \<Longrightarrow> length t + length bs \<le> lim \<Longrightarrow> emits (dump bs s) (t @ bs)"
  using dump_ok [of s t bs] by (simp add: emits_def)

lemma emits_done: "rel s t \<Longrightarrow> emits (Some (0, s)) t"
  by (simp add: emits_def)

lemma emits_unless: "emits x u \<Longrightarrow> (\<And>s'. rel s' u \<Longrightarrow> emits (f s') v) \<Longrightarrow> emits (unless x f) v"
  by (auto simp: emits_def unless_def)

lemma emits_spaces: "rel s t \<Longrightarrow> length t + n \<le> lim \<Longrightarrow> emits (spaces_loop dump n s) (t @ replicate n 32)"
proof (induction n arbitrary: s t rule: less_induct)
  case (less n)
  show ?case
  proof (cases "n > 0")
    case False
    then show ?thesis using less.prems by (simp add: spaces_loop.simps [of dump 0] emits_done)
  next
    case True
    let ?c = "if n < 32 then n else 32"
    have "emits (unless (dump (replicate ?c 32) s) (spaces_loop dump (n - ?c))) (t @ replicate n 32)"
    proof (rule emits_unless [OF emits_dump [OF less.prems(1)]])
      show "length t + length (replicate ?c (32 :: int)) \<le> lim" using less.prems(2) True by simp
      fix s' assume s': "rel s' (t @ replicate ?c 32)"
      have "emits (spaces_loop dump (n - ?c) s') ((t @ replicate ?c 32) @ replicate (n - ?c) 32)"
        by (rule less.IH [OF _ s']) (use True less.prems(2) in auto)
      moreover have "replicate ?c (32 :: int) @ replicate (n - ?c) 32 = replicate n 32" by (simp flip: replicate_add)
      ultimately show "emits (spaces_loop dump (n - ?c) s') (t @ replicate n 32)" by simp
    qed
    then show ?thesis using True by (simp add: spaces_loop.simps [of dump n s] Let_def)
  qed
qed

lemma emits_indent:
  assumes "rel s t" "length t + length (indent_text flags dep space) \<le> lim"
  shows "emits (dump_indent flags dep space dump s) (t @ indent_text flags dep space)"
proof (cases "FLAGS_TO_INDENT flags > 0")
  case True
  let ?n = "dep * FLAGS_TO_INDENT flags mod 2 ^ 32"
  have "emits (unless (dump [10] s) (spaces_loop dump ?n)) ((t @ [10]) @ replicate ?n 32)"
    by (rule emits_unless [OF emits_dump [OF assms(1)] emits_spaces]) (use assms(2) True in \<open>auto simp: indent_text_def\<close>)
  then show ?thesis using True by (simp add: dump_indent_def indent_text_def)
next
  case False
  then show ?thesis using assms emits_dump [OF assms(1), of "[32]"] by (auto simp: dump_indent_def indent_text_def intro: emits_done)
qed

end

section \<open>Strings\<close>

lemma enc_all_simps [simp]: "enc_all [] = []" "enc_all (cp # cps) = enc cp @ enc_all cps"
  by (simp_all add: enc_all_def)

lemma scan_plain_enc_all:
  assumes "\<forall>cp \<in> set cps. scalar cp"
  shows "scan_plain flags chunk (enc_all cps) =
    Some (chunk @ enc_all (takeWhile (\<lambda>cp. \<not> needs_escape flags cp) cps),
      case dropWhile (\<lambda>cp. \<not> needs_escape flags cp) cps of [] \<Rightarrow> None | cp # r \<Rightarrow> Some (cp, enc_all r))"
  using assms
proof (induction cps arbitrary: chunk)
  case Nil
  then show ?case by (simp add: scan_plain.simps)
next
  case (Cons cp cps)
  have ne: "enc cp \<noteq> []" using Cons.prems check_enc(3) [of cp] by auto
  have "utf8_iterate (enc_all (cp # cps)) 0 = Some (length (enc cp), cp)" using Cons.prems by (simp add: utf8_iterate_enc)
  then show ?case using Cons ne by (subst scan_plain.simps) simp
qed

lemma cp_text_esc:
  "needs_escape flags cp \<Longrightarrow> cp_text flags cp = escape_text cp" "\<not> needs_escape flags cp \<Longrightarrow> cp_text flags cp = enc cp"
  by (simp_all add: cp_text_def)

lemma cp_text_split:
  "concat (map (cp_text flags) cps) = enc_all (takeWhile (\<lambda>cp. \<not> needs_escape flags cp) cps) @
     (case dropWhile (\<lambda>cp. \<not> needs_escape flags cp) cps of [] \<Rightarrow> [] | cp # r \<Rightarrow> escape_text cp @ concat (map (cp_text flags) r))"
  by (induction cps) (simp_all add: cp_text_esc)

lemma codepoints_enc_all: "\<forall>cp \<in> set cps. scalar cp \<Longrightarrow> codepoints (enc_all cps) = cps"
proof (induction cps)
  case Nil
  then show ?case by (simp add: codepoints.simps)
next
  case (Cons cp cps)
  have ne: "enc cp \<noteq> []" using Cons.prems check_enc(3) [of cp] by auto
  have "utf8_iterate (enc_all (cp # cps)) 0 = Some (length (enc cp), cp)" using Cons.prems by (simp add: utf8_iterate_enc)
  then show ?case using Cons ne by (subst codepoints.simps) simp
qed

lemma utf8_textE:
  assumes "utf8_text s"
  obtains cps where "\<forall>cp \<in> set cps. scalar cp" "s = enc_all cps" "codepoints s = cps"
proof -
  from assms obtain cps where "\<forall>cp \<in> set cps. scalar cp" "s = enc_all cps"
    using utf8_check_string_decode [of s] by (auto simp: utf8_text_def)
  with codepoints_enc_all [of cps] that [of cps] show ?thesis by simp
qed

context dump_sink
begin

lemma emits_string_loop:
  assumes "\<forall>cp \<in> set cps. scalar cp" "rel s t" "length t + length (concat (map (cp_text flags) cps) @ [34]) \<le> lim"
  shows "emits (string_loop flags dump (enc_all cps) s) (t @ concat (map (cp_text flags) cps) @ [34])"
  using assms
proof (induction "length cps" arbitrary: cps s t rule: less_induct)
  case less
  let ?P = "\<lambda>cp. \<not> needs_escape flags cp"
  let ?pre = "enc_all (takeWhile ?P cps)" let ?post = "dropWhile ?P cps"
  note split = cp_text_split [of flags cps]
  have pre: "emits (if ?pre \<noteq> [] then dump ?pre s else Some (0, s)) (t @ ?pre)"
    using emits_dump [OF less.prems(2), of ?pre] emits_done [OF less.prems(2)] less.prems(3) split by auto
  have loop: "string_loop flags dump (enc_all cps) s =
      unless (if ?pre \<noteq> [] then dump ?pre s else Some (0, s))
        (\<lambda>s1. case ?post of [] \<Rightarrow> dump [34] s1
           | cp # r \<Rightarrow> unless (dump (escape_text cp) s1) (string_loop flags dump (enc_all r)))"
    by (subst string_loop.simps) (cases ?post; simp add: scan_plain_enc_all [OF less.prems(1)] del: dropWhile_eq_Nil_conv)
  show ?case
  proof (unfold loop, rule emits_unless [OF pre])
    fix s1 assume s1: "rel s1 (t @ ?pre)"
    show "emits (case ?post of [] \<Rightarrow> dump [34] s1
        | cp # r \<Rightarrow> unless (dump (escape_text cp) s1) (string_loop flags dump (enc_all r))) (t @ concat (map (cp_text flags) cps) @ [34])"
    proof (cases ?post)
      case Nil
      then show ?thesis using emits_dump [OF s1, of "[34]"] less.prems(3) split by (simp del: dropWhile_eq_Nil_conv)
    next
      case (Cons cp r)
      have "length ?post \<le> length cps" by (rule length_dropWhile_le)
      then have r: "length r < length cps" using Cons by simp
      have "set ?post \<subseteq> set cps" using set_dropWhileD by fastforce
      then have sr: "\<forall>cp \<in> set r. scalar cp" using Cons less.prems(1) by auto
      have len: "length t + length ?pre + length (escape_text cp) + length (concat (map (cp_text flags) r) @ [34]) \<le> lim"
        using less.prems(3) split Cons by simp
      have "emits (unless (dump (escape_text cp) s1) (string_loop flags dump (enc_all r)))
          (((t @ ?pre) @ escape_text cp) @ concat (map (cp_text flags) r) @ [34])"
        by (rule emits_unless [OF emits_dump [OF s1] less.hyps [OF r sr]]) (use len in auto)
      then show ?thesis using Cons split by simp
    qed
  qed
qed

lemma emits_string:
  assumes "utf8_text u" "rel s t" "length t + length (string_text flags u) \<le> lim"
  shows "emits (dump_string flags dump u s) (t @ string_text flags u)"
proof -
  obtain cps where cps: "\<forall>cp \<in> set cps. scalar cp" "u = enc_all cps" "codepoints u = cps" using assms(1) by (rule utf8_textE)
  have "emits (unless (dump [34] s) (string_loop flags dump u)) ((t @ [34]) @ concat (map (cp_text flags) cps) @ [34])"
    unfolding cps(2) by (rule emits_unless [OF emits_dump [OF assms(2)] emits_string_loop [OF cps(1)]]) (use assms(3) cps(3) in \<open>auto simp: string_text_def\<close>)
  then show ?thesis using cps(3) by (simp add: dump_string_def string_text_def)
qed

end

section \<open>Values\<close>

lemma separated_Cons: "separated sep (x # xs) = x @ (if xs = [] then [] else sep @ separated sep xs)"
  by (cases xs) simp_all

lemma loops_done:
  "array_dump_loop dump_value flags dep dump h p i 0 = (\<lambda>s. Some (0, s))"
  "keys_dump_loop lookup dump_value flags dep dump [] = (\<lambda>s. Some (0, s))"
  by (simp_all add: fun_eq_iff)

context dump_sink
begin

text \<open>\<open>writes f u\<close>: the call \<open>f\<close> writes the text \<open>u\<close>, where there is room for it.\<close>

definition writes :: "('s \<Rightarrow> (int \<times> 's) option) \<Rightarrow> int list \<Rightarrow> bool" where
  "writes f u \<longleftrightarrow> (\<forall>s t. rel s t \<longrightarrow> length t + length u \<le> lim \<longrightarrow> emits (f s) (t @ u))"

lemma writes_emits: "writes f u \<Longrightarrow> rel s t \<Longrightarrow> length t + length u \<le> lim \<Longrightarrow> emits (f s) (t @ u)"
  by (simp add: writes_def)

lemma writes_dump: "writes (dump bs) bs" and writes_done: "writes (\<lambda>s. Some (0, s)) []"
  by (simp_all add: writes_def emits_dump emits_done)

lemma writes_indent: "writes (dump_indent flags dep sp dump) (indent_text flags dep sp)"
  by (simp add: writes_def emits_indent)

lemma writes_string: "utf8_text u \<Longrightarrow> writes (dump_string flags dump u) (string_text flags u)"
  by (simp add: writes_def emits_string)

lemma writes_seq: "writes f u \<Longrightarrow> writes g v \<Longrightarrow> writes (\<lambda>s. unless (f s) g) (u @ v)"
  unfolding writes_def
proof (intro allI impI)
  fix s t assume f: "\<forall>s t. rel s t \<longrightarrow> length t + length u \<le> lim \<longrightarrow> emits (f s) (t @ u)"
    and g: "\<forall>s t. rel s t \<longrightarrow> length t + length v \<le> lim \<longrightarrow> emits (g s) (t @ v)"
    and s: "rel s t" "length t + length (u @ v) \<le> lim"
  have "emits (g s') ((t @ u) @ v)" if "rel s' (t @ u)" for s' using g [rule_format, OF that] s(2) by simp
  with f s have "emits (unless (f s) g) ((t @ u) @ v)" by (intro emits_unless [of _ "t @ u"]) auto
  then show "emits (unless (f s) g) (t @ u @ v)" by simp
qed

lemma writes_last: "writes f u \<Longrightarrow> writes g [] \<Longrightarrow> writes (\<lambda>s. unless (f s) g) u"
  using writes_seq [of f u g "[]"] by simp

text \<open>The result of a call that writes its text may be ignored.\<close>

lemma writes_ignore: "writes f u \<Longrightarrow> writes g v \<Longrightarrow> writes (\<lambda>s. do { (_, s1) \<leftarrow> f s; g s1 }) (u @ v)"
  unfolding writes_def emits_def by (fastforce simp: add.assoc)

lemma writes_array_loop:
  assumes "i + k = length ks" "\<And>j. j < length ks \<Longrightarrow> json_array_get h p j = Some (ks ! j)"
    "length xs = length ks" "\<And>j. j < length ks \<Longrightarrow> writes (dump_value (ks ! j)) (xs ! j)"
  shows "writes (array_dump_loop dump_value flags dep dump h p i k)
    (separated ([44] @ indent_text flags (dep + 1) True) (drop i xs) @ (if k = 0 then [] else indent_text flags dep False))"
  using assms(1)
proof (induction k arbitrary: i)
  case 0
  then show ?case using assms(3) writes_done by simp
next
  case (Suc k)
  let ?sep = "[44] @ indent_text flags (dep + 1) True"
  let ?loop = "array_dump_loop dump_value flags dep dump h p (i + 1) k"
  have i: "i < length ks" using Suc.prems by simp
  have d: "drop i xs = xs ! i # drop (i + 1) xs" using i assms(3) by (simp add: Cons_nth_drop_Suc)
  have e: "drop (i + 1) xs = [] \<longleftrightarrow> k = 0" using Suc.prems assms(3) by auto
  note IH = Suc.IH [of "i + 1"]
  have L: "writes (\<lambda>s. unless (dump_indent flags dep False dump s) ?loop) (indent_text flags dep False)" if "k = 0"
    using that by (intro writes_last writes_indent) (simp add: loops_done writes_done)
  have "writes (\<lambda>s. unless (dump_value (ks ! i) s) (\<lambda>s1. if k \<noteq> 0
        then unless (dump [44] s1) (\<lambda>s2. unless (dump_indent flags (dep + 1) True dump s2) ?loop)
        else unless (dump_indent flags dep False dump s1) ?loop))
      (xs ! i @ (if k = 0 then indent_text flags dep False else [44] @ indent_text flags (dep + 1) True @
         separated ?sep (drop (i + 1) xs) @ indent_text flags dep False))"
  proof (cases "k = 0")
    case True
    then show ?thesis using writes_seq [OF assms(4) [OF i] L] by simp
  next
    case False
    then have "writes ?loop (separated ?sep (drop (i + 1) xs) @ indent_text flags dep False)" using IH Suc.prems by simp
    from writes_seq [OF assms(4) [OF i] writes_seq [OF writes_dump [of "[44]"] writes_seq [OF writes_indent this]]]
    show ?thesis using False by simp
  qed
  then show ?case by (cases "k = 0"; simp add: assms(2) [OF i] d separated_Cons e [simplified])
qed

lemma writes_keys_loop:
  assumes "\<And>k x. (k, x) \<in> set ks \<Longrightarrow> utf8_text k \<and> (\<exists>v. lookup k = Some v \<and> writes (dump_value v) x)"
  shows "writes (keys_dump_loop lookup dump_value flags dep dump (map fst ks))
    (separated ([44] @ indent_text flags (dep + 1) True) (map (\<lambda>(k, x). member_text flags k x) ks) @
      (if ks = [] then [] else indent_text flags dep False))"
  using assms
proof (induction ks)
  case Nil
  then show ?case using writes_done by simp
next
  case (Cons m ks)
  obtain k x where m: "m = (k, x)" by (cases m)
  obtain v where v: "utf8_text k" "lookup k = Some v" "writes (dump_value v) x" using Cons.prems [of k x] m by auto
  let ?sep = "[44] @ indent_text flags (dep + 1) True"
  let ?colon = "if fset flags JSON_COMPACT then [58] else [58, 32] :: int list"
  let ?loop = "keys_dump_loop lookup dump_value flags dep dump (map fst ks)"
  have IH: "writes ?loop (separated ?sep (map (\<lambda>(k, x). member_text flags k x) ks) @ (if ks = [] then [] else indent_text flags dep False))"
    by (rule Cons.IH) (use Cons.prems in auto)
  have "writes (\<lambda>s. do { (_, s1) \<leftarrow> dump_string flags dump k s;
       unless (dump ?colon s1) (\<lambda>s2. unless (dump_value v s2)
         (\<lambda>s3. if map fst ks \<noteq> []
               then unless (dump [44] s3) (\<lambda>s4. unless (dump_indent flags (dep + 1) True dump s4) ?loop)
               else unless (dump_indent flags dep False dump s3) ?loop)) })
     (string_text flags k @ ?colon @ x @ (if ks = [] then indent_text flags dep False else [44] @ indent_text flags (dep + 1) True @
         separated ?sep (map (\<lambda>(k, x). member_text flags k x) ks) @ indent_text flags dep False))"
  proof (cases "ks = []")
    case True
    then have "writes ?loop []" using IH by simp
    from writes_ignore [OF writes_string [OF v(1)] writes_seq [OF writes_dump writes_seq [OF v(3) writes_last [OF writes_indent this]]]]
    show ?thesis using True by simp
  next
    case False
    then have "writes ?loop (separated ?sep (map (\<lambda>(k, x). member_text flags k x) ks) @ indent_text flags dep False)" using IH by simp
    from writes_ignore [OF writes_string [OF v(1)] writes_seq [OF writes_dump [of ?colon] writes_seq [OF v(3)
      writes_seq [OF writes_dump [of "[44]"] writes_seq [OF writes_indent this]]]]]
    show ?thesis using False by simp
  qed
  then show ?case by (cases "fset flags JSON_COMPACT"; cases "ks = []"; simp add: v(2) m separated_Cons member_text_def [of flags k x])
qed

end

lemma those_map: "those (map f xs) = Some ys \<Longrightarrow> length ys = length xs \<and> (\<forall>i < length xs. f (xs ! i) = Some (ys ! i))"
proof (induction xs arbitrary: ys)
  case (Cons x xs)
  then obtain y zs where "f x = Some y" "those (map f xs) = Some zs" "ys = y # zs" by (auto split: option.splits)
  then show ?case using Cons.IH [of zs] by (auto simp: nth_Cons split: nat.split)
qed simp

lemma size_array: "v \<in> set vs \<Longrightarrow> size v < size (JArray vs)"
  by (induction vs) auto

lemma size_object: "(k, v) \<in> set ms \<Longrightarrow> size v < size (JObject ms)"
  by (induction ms) auto

text \<open>More depth gives the same tree.\<close>

lemma those_mono: "those (map f xs) = Some ys \<Longrightarrow> (\<And>x y. x \<in> set xs \<Longrightarrow> f x = Some y \<Longrightarrow> g x = Some y) \<Longrightarrow> those (map g xs) = Some ys"
proof (induction xs arbitrary: ys)
  case (Cons x xs)
  then obtain y zs where "f x = Some y" "those (map f xs) = Some zs" "ys = y # zs" by (auto split: option.splits)
  moreover from this Cons have "those (map g xs) = Some zs" "g x = Some y" by auto
  ultimately show ?case by simp
qed simp

lemma tree_node_mono:
  assumes "tree_node f b = Some v" "\<And>x y. f x = Some y \<Longrightarrow> g x = Some y"
  shows "tree_node g b = Some v"
proof (cases b)
  case (BObject ms)
  with assms(1) obtain vs where "those (map (\<lambda>m. f (snd m)) ms) = Some vs" "v = JObject (zip (map fst ms) vs)" by auto
  with those_mono [OF this(1), of "\<lambda>m. g (snd m)"] assms(2) BObject show ?thesis by simp
next
  case (BArray c k t)
  with assms(1) obtain vs where "those (map f (take k t)) = Some vs" "v = JArray vs" by auto
  with those_mono [OF this(1), of g] assms(2) BArray show ?thesis by simp
qed (use assms in auto)

lemma tree_of_Suc: "tree_of n h p = Some v \<Longrightarrow> tree_of (Suc n) h p = Some v"
proof (induction n arbitrary: p v)
  case (Suc n)
  then obtain b where b: "body_at h p = Some b" "tree_node (tree_of n h) b = Some v" by (auto simp: bind_eq_Some_conv)
  have "tree_node (tree_of (Suc n) h) b = Some v" using b(2) by (rule tree_node_mono) (rule Suc.IH)
  then show ?case using b(1) by (simp add: tree_of.simps(2) [of "Suc n"] del: tree_of.simps)
qed simp

lemma tree_of_mono: "tree_of n h p = Some v \<Longrightarrow> n \<le> m \<Longrightarrow> tree_of m h p = Some v"
  by (induction m) (auto simp: le_Suc_eq tree_of_Suc simp del: tree_of.simps(2))

lemma tree_of_fun: "tree_of n h p = Some v \<Longrightarrow> tree_of m h p = Some w \<Longrightarrow> v = w"
  using tree_of_mono [of n h p v "max n m"] tree_of_mono [of m h p w "max n m"] by simp

definition above :: "'r jheap \<Rightarrow> nat list \<Rightarrow> nat \<Rightarrow> bool" where
  "above h parents k \<longleftrightarrow> (\<forall>q \<in> set parents. \<exists>m w. tree_of m h q = Some w \<and> k < size w)"

lemma above_loop_check: "above h parents (size v) \<Longrightarrow> tree_of n h p = Some v \<Longrightarrow> jsonp_loop_check parents p = (0, p # parents)"
  by (fastforce simp: above_def jsonp_loop_check_def dest: tree_of_fun)

lemma above_step: "above h parents (size v) \<Longrightarrow> tree_of n h p = Some v \<Longrightarrow> k < size v \<Longrightarrow> above h (p # parents) k"
  unfolding above_def by (metis less_trans set_ConsD)

lemma insert_key_set [simp]: "set (insert_key k ks) = insert k (set ks)"
  by (induction ks) auto

lemma qsort_keys_set [simp]: "set (qsort_keys ks) = set ks"
  unfolding qsort_keys_def by (induction ks) auto

lemma in_order_fst: "map fst (in_order flags ms) = (if fset flags JSON_SORT_KEYS then qsort_keys (map fst ms) else map fst ms)"
  by (simp add: in_order_def comp_def)

lemma in_order_set:
  assumes "distinct (map fst ms)"
  shows "set (in_order flags ms) = set ms"
proof -
  have "(\<lambda>k. (k, the (map_of ms k))) ` fst ` set ms = set ms"
    using assms by (force simp: image_iff)
  then show ?thesis by (simp add: in_order_def)
qed

lemma dec_digits_len: "n < 10 ^ Suc k \<Longrightarrow> length (dec_digits n) \<le> Suc k"
proof (induction k arbitrary: n)
  case 0
  then show ?case by (simp add: dec_digits.simps)
next
  case (Suc k)
  then have "n div 10 < 10 ^ Suc k" by (simp add: div_less_iff_less_mult)
  then have "length (dec_digits (n div 10)) \<le> Suc k" by (rule Suc.IH)
  then show ?case by (subst dec_digits.simps) simp
qed

lemma fmt_d_len: "- (2 ^ 63) \<le> i \<Longrightarrow> i < 2 ^ 63 \<Longrightarrow> length (fmt_d i) < MAX_INTEGER_STR_LENGTH"
  using dec_digits_len [of "nat (- i)" 18] dec_digits_len [of "nat i" 18]
  by (auto simp: fmt_d_def MAX_INTEGER_STR_LENGTH_def nat_less_iff)

definition no_embed :: "u32 \<Rightarrow> u32" where
  "no_embed flags = flags AND NOT JSON_EMBED"

lemma no_embed: "no_embed (no_embed flags) = no_embed flags" "\<not> fset (no_embed flags) JSON_EMBED"
  by (auto simp: no_embed_def fset_def bit_eq_iff bit_simps)

text \<open>With \<^verbatim>\<open>JSON_EMBED\<close> the outermost brackets are left out.\<close>

fun embed_text :: "u32 \<Rightarrow> 'r json \<Rightarrow> int list \<Rightarrow> int list" where
  "embed_text flags (JArray vs) t = (if fset flags JSON_EMBED then butlast (tl t) else t)"
| "embed_text flags (JObject ms) t = (if fset flags JSON_EMBED then butlast (tl t) else t)"
| "embed_text flags v t = t"

lemma embed_text_off: "\<not> fset flags JSON_EMBED \<Longrightarrow> embed_text flags v t = t"
  by (cases v) auto

definition stored :: "'r jheap \<Rightarrow> bool" where
  "stored h \<longleftrightarrow> jmem h 0 = None \<and> (\<forall>a n. jmem h a = Some n \<longrightarrow> body_ok (jbody n))"

lemma stored_body: "stored h \<Longrightarrow> body_at h p = Some b \<Longrightarrow> p \<noteq> 0 \<and> body_ok b"
  unfolding stored_def body_at_def by (cases "p = 0") auto

lemma array_reads:
  assumes "stored h" "body_at h p = Some (BArray c k t)"
  shows "json_array_size h p = Some k" "j < k \<Longrightarrow> json_array_get h p j = Some (take k t ! j)" "length (take k t) = k"
  using assms stored_body [OF assms]
  by (auto simp: json_array_size_def json_array_get_def json_is_def body_at_def array_at_def table_at_def)

lemma object_reads:
  assumes "stored h" "body_at h p = Some (BObject ms)" "(k, v) \<in> set ms" "stored h \<Longrightarrow> v \<noteq> 0"
  shows "json_object_iter_value h p (Some k) = Some v" "getn_value h p k = Some v"
  using assms stored_body [OF assms(1,2)]
  by (auto simp: json_object_iter_value_def getn_value_def json_object_getn_def json_is_def body_at_def members_at_def assert_c_def)

context dump_sink
begin

lemma writes_frame:
  assumes "\<And>s. f s = unless (if e then Some (0, s) else dump [a] s)
      (\<lambda>s1. if z then close s1 else unless (dump_indent flags (dep + 1) False dump s1) (\<lambda>s2. unless (loop s2) close))"
    "z \<longleftrightarrow> xs = []" "\<And>s. close s = (if e then Some (0, s) else dump [b] s)"
    "writes loop (separated ([44] @ indent_text flags (dep + 1) True) xs @ (if z then [] else indent_text flags dep False))"
  shows "writes f (if e then butlast (tl ([a] @ frame_text flags dep xs @ [b])) else [a] @ frame_text flags dep xs @ [b])"
proof -
  let ?o = "if e then [] else [a]" let ?c = "if e then [] else [b]"
  have op: "writes (\<lambda>s. if e then Some (0, s) else dump [a] s) ?o" by (simp add: writes_dump writes_done)
  have "close = (\<lambda>s. if e then Some (0, s) else dump [b] s)" using assms(3) by (simp add: fun_eq_iff)
  then have cl: "writes close ?c" by (simp add: writes_dump writes_done)
  have f: "f = (\<lambda>s. unless (if e then Some (0, s) else dump [a] s)
      (\<lambda>s1. if z then close s1 else unless (dump_indent flags (dep + 1) False dump s1) (\<lambda>s2. unless (loop s2) close)))"
    using assms(1) by (simp add: fun_eq_iff)
  have "writes f (?o @ frame_text flags dep xs @ ?c)"
  proof (cases z)
    case True
    then show ?thesis using writes_seq [OF op cl] assms(2) by (simp add: f frame_text_def)
  next
    case False
    then show ?thesis using writes_seq [OF op writes_seq [OF writes_indent writes_seq [OF assms(4) cl]]] assms(2)
      by (simp add: f frame_text_def)
  qed
  then show ?thesis by (cases e) (simp_all add: butlast_append)
qed

lemma writes_dump_array:
  assumes st: "stored h" and b: "body_at h p = Some (BArray c k t)" and lc: "jsonp_loop_check parents p = (0, p # parents)"
    and xs: "length xs = k" "\<And>j. j < k \<Longrightarrow> writes (dump_value (p # parents) (take k t ! j)) (xs ! j)"
  shows "writes (dump_array dump_value e flags dep parents dump h p)
    (if e then butlast (tl ([91] @ frame_text flags dep xs @ [93])) else [91] @ frame_text flags dep xs @ [93])"
proof (rule writes_frame)
  note R = array_reads [OF st b]
  show "writes (array_dump_loop (dump_value (p # parents)) flags dep dump h p 0 k)
      (separated ([44] @ indent_text flags (dep + 1) True) xs @ (if k = 0 then [] else indent_text flags dep False))"
    using writes_array_loop [of 0 k "take k t" h p xs "dump_value (p # parents)" flags dep] R xs by simp
  show "k = 0 \<longleftrightarrow> xs = []" using xs(1) by auto
  show "dump_array dump_value e flags dep parents dump h p s = unless (if e then Some (0, s) else dump [91] s)
      (\<lambda>s1. if k = 0 then (\<lambda>s. if e then Some (0, s) else dump [93] s) s1 else unless (dump_indent flags (dep + 1) False dump s1)
        (\<lambda>s2. unless (array_dump_loop (dump_value (p # parents)) flags dep dump h p 0 k s2) (\<lambda>s. if e then Some (0, s) else dump [93] s)))" for s
    by (simp add: dump_array_def lc R(1))
qed (rule refl)

lemma writes_dump_object:
  assumes st: "stored h" and b: "body_at h p = Some (BObject ms)" and lc: "jsonp_loop_check parents p = (0, p # parents)"
    and xs: "length xs = length ms" "\<And>j. j < length ms \<Longrightarrow> utf8_text (fst (ms ! j)) \<and> snd (ms ! j) \<noteq> 0 \<and> writes (dump_value (p # parents) (snd (ms ! j))) (xs ! j)"
  shows "writes (dump_object dump_value e flags dep parents dump h p)
    (let ts = map (\<lambda>(k, t). member_text flags k t) (in_order flags (zip (map fst ms) xs))
     in if e then butlast (tl ([123] @ frame_text flags dep ts @ [125])) else [123] @ frame_text flags dep ts @ [125])"
  unfolding Let_def
proof (rule writes_frame)
  let ?ks = "in_order flags (zip (map fst ms) xs)"
  let ?lookup = "if fset flags JSON_SORT_KEYS then getn_value h p else (\<lambda>k. json_object_iter_value h p (Some k))"
  let ?loop = "keys_dump_loop ?lookup (dump_value (p # parents)) flags dep dump (map fst ?ks)"
  let ?close = "\<lambda>s. if e then Some (0, s) else dump [125] s"
  have d: "distinct (map fst ms)" using stored_body [OF st b] by simp
  have f: "map fst (zip (map fst ms) xs) = map fst ms" using xs(1) by simp
  have z: "?ks = [] \<longleftrightarrow> ms = []" using in_order_set [of "zip (map fst ms) xs" flags] d f xs(1) by auto
  have m: "utf8_text k \<and> (\<exists>v. ?lookup k = Some v \<and> writes (dump_value (p # parents) v) x)" if kx: "(k, x) \<in> set ?ks" for k x
  proof -
    from kx obtain j where j: "j < length ms" "k = fst (ms ! j)" "x = xs ! j"
      using in_order_set [of "zip (map fst ms) xs" flags] d f xs(1) by (auto simp: in_set_zip)
    then have "(k, snd (ms ! j)) \<in> set ms" by (metis nth_mem prod.collapse)
    with object_reads [OF st b this] xs(2) [OF j(1)] j show ?thesis by auto
  qed
  show "writes ?loop (separated ([44] @ indent_text flags (dep + 1) True) (map (\<lambda>(k, t). member_text flags k t) ?ks) @
      (if ms = [] then [] else indent_text flags dep False))"
    unfolding z [symmetric] by (rule writes_keys_loop [OF m])
  show "ms = [] \<longleftrightarrow> map (\<lambda>(k, t). member_text flags k t) ?ks = []" using z by simp
  show "dump_object dump_value e flags dep parents dump h p s = unless (if e then Some (0, s) else dump [123] s)
      (\<lambda>s1. if ms = [] then ?close s1 else unless (dump_indent flags (dep + 1) False dump s1) (\<lambda>s2. unless (?loop s2) ?close))" for s
    using b by (cases "fset flags JSON_SORT_KEYS") (simp_all add: dump_object_def lc members_at_def in_order_fst f cong: if_cong)
qed (rule refl)

lemma writes_do_dump:
  assumes "stored h" "tree_of n h p = Some v" "dumpable fmt_g (no_embed flags0) v" "above h parents (size v)"
  shows "writes (do_dump n fmt_g zero dump h flags0 dep parents p) (embed_text flags0 v (json_text fmt_g (no_embed flags0) dep v))"
  using assms
proof (induction n arbitrary: p v flags0 dep parents)
  case (Suc n)
  let ?fl = "no_embed flags0" let ?e = "fset flags0 JSON_EMBED"
  let ?rec = "\<lambda>parents1. do_dump n fmt_g zero dump h ?fl (dep + 1) parents1"
  obtain b where b: "body_at h p = Some b" "tree_node (tree_of n h) b = Some v" using Suc.prems(2) by (auto simp: bind_eq_Some_conv)
  have p: "p \<noteq> 0" "body_ok b" using stored_body [OF Suc.prems(1) b(1)] by auto
  note lc = above_loop_check [OF Suc.prems(4,2)]
  have IH: "writes (?rec (p # parents) q) (json_text fmt_g ?fl (dep + 1) w)"
    if "tree_of n h q = Some w" "dumpable fmt_g ?fl w" "size w < size v" for q w
    using Suc.IH [of q w ?fl "p # parents" "dep + 1"] above_step [OF Suc.prems(4,2) that(3)] that Suc.prems(1)
    by (simp add: no_embed embed_text_off)
  have nz: "q \<noteq> 0" if "tree_of n h q = Some w" for q w
    using that stored_body [OF Suc.prems(1), of q] by (cases n) (auto simp: bind_eq_Some_conv)
  note simps = b(1) p(1) no_embed_def [of flags0, symmetric] Let_def
  show ?case
  proof (cases b)
    case (BObject ms)
    with b obtain vs where vs: "those (map (\<lambda>m. tree_of n h (snd m)) ms) = Some vs" "v = JObject (zip (map fst ms) vs)" by auto
    note V = those_map [OF vs(1)]
    let ?xs = "map (json_text fmt_g ?fl (dep + 1)) vs"
    have K: "utf8_text (fst (ms ! j)) \<and> snd (ms ! j) \<noteq> 0 \<and> writes (?rec (p # parents) (snd (ms ! j))) (?xs ! j)" if "j < length ms" for j
    proof -
      have "(fst (ms ! j), vs ! j) \<in> set (zip (map fst ms) vs)" using that V by (auto simp: in_set_zip intro!: exI [of _ j])
      with Suc.prems(3) vs(2) size_object [OF this] have "utf8_text (fst (ms ! j))" "dumpable fmt_g ?fl (vs ! j)" "size (vs ! j) < size v" by auto
      with V that IH [of "snd (ms ! j)" "vs ! j"] nz [of "snd (ms ! j)"] show ?thesis by auto
    qed
    have z: "map (\<lambda>(k, v). (k, json_text fmt_g ?fl (dep + 1) v)) (zip (map fst ms) vs) = zip (map fst ms) ?xs"
      by (simp add: zip_map2)
    have D: "do_dump (Suc n) fmt_g zero dump h flags0 dep parents p = dump_object ?rec ?e ?fl dep parents dump h p"
      using BObject by (simp add: simps fun_eq_iff)
    show ?thesis using writes_dump_object [where dump_value = ?rec and xs = ?xs, OF Suc.prems(1) b(1) [unfolded BObject] lc _ K, of ?e ?fl dep] V vs(2) z
      unfolding D by (cases ?e) (simp_all add: Let_def)
  next
    case (BArray c k t)
    with b obtain vs where vs: "those (map (tree_of n h) (take k t)) = Some vs" "v = JArray vs" by auto
    note V = those_map [OF vs(1)]
    have k: "length (take k t) = k" using p BArray by simp
    let ?xs = "map (json_text fmt_g ?fl (dep + 1)) vs"
    have K: "writes (?rec (p # parents) (take k t ! j)) (?xs ! j)" if "j < k" for j
    proof -
      have "vs ! j \<in> set vs" using V k that by simp
      with Suc.prems(3) vs(2) size_array [OF this] have "dumpable fmt_g ?fl (vs ! j)" "size (vs ! j) < size v" by auto
      with V k that IH [of "take k t ! j" "vs ! j"] show ?thesis by simp
    qed
    have D: "do_dump (Suc n) fmt_g zero dump h flags0 dep parents p = dump_array ?rec ?e ?fl dep parents dump h p"
      using BArray by (simp add: simps fun_eq_iff)
    show ?thesis using writes_dump_array [where dump_value = ?rec and xs = ?xs, OF Suc.prems(1) b(1) [unfolded BArray] lc _ K, of ?e ?fl dep] V k vs(2)
      unfolding D by (cases ?e) simp_all
  next
    case (BString u)
    then have D: "do_dump (Suc n) fmt_g zero dump h flags0 dep parents p = dump_string ?fl dump u"
      using b by (auto simp: simps fun_eq_iff json_string_value_def json_is_def body_at_def)
    show ?thesis using BString b(2) Suc.prems(3) unfolding D by (auto intro: writes_string)
  next
    case (BInteger i)
    then have "length (fmt_d i) < MAX_INTEGER_STR_LENGTH" using b(2) Suc.prems(3) fmt_d_len by auto
    then have D: "do_dump (Suc n) fmt_g zero dump h flags0 dep parents p = dump (fmt_d i)"
      using b BInteger by (auto simp: simps fun_eq_iff json_integer_value_def json_is_def body_at_def)
    show ?thesis using BInteger b(2) unfolding D by (auto intro: writes_dump)
  next
    case (BReal r)
    with b(2) Suc.prems(3) obtain t where t: "jsonp_dtostr fmt_g MAX_REAL_STR_LENGTH r (FLAGS_TO_PRECISION ?fl) = Some t"
      by (auto split: option.splits)
    then have D: "do_dump (Suc n) fmt_g zero dump h flags0 dep parents p = dump t"
      using b BReal by (auto simp: simps fun_eq_iff json_real_value_def json_is_def body_at_def)
    show ?thesis using BReal b(2) t unfolding D by (auto intro: writes_dump)
  qed (use b p in \<open>auto simp: Let_def intro!: writes_dump\<close>)
qed simp

end

end
