(* ===== verification/JsonDumpLaws.thy ===== *)
theory JsonDumpLaws
  imports JsonDump
begin

text \<open>
  What the encoder of theory \<open>JsonDump\<close> promises. The string buffer and the caller's buffer are sinks that take every text they have
  room for, so \<^verbatim>\<open>json_dumps\<close> and \<^verbatim>\<open>json_dumpb\<close> write the text of the value. The encoder returns on every store, circular values included,
  and the lexer's second pass inverts \<^verbatim>\<open>dump_string\<close>.
\<close>

section \<open>The string buffer and the caller's buffer as sinks\<close>

text \<open>The allocator serves every request that a text of at most \<open>lim\<close> bytes needs.\<close>

definition serves :: "mallocf \<Rightarrow> nat \<Rightarrow> bool" where
  "serves malloc lim \<longleftrightarrow> malloc_ok malloc \<and> lim < 2 ^ 31 \<and> (\<forall>n. 0 < n \<and> n \<le> 2 * lim + 16 \<longrightarrow> malloc n \<noteq> None)"

definition sb_holds :: "mallocf \<Rightarrow> nat \<Rightarrow> strbuffer_t \<Rightarrow> int list \<Rightarrow> bool" where
  "sb_holds malloc lim sb t \<longleftrightarrow> serves malloc lim \<and> sb_wf sb \<and> sb_contents sb = t"

interpretation ss: dump_sink "dump_to_strbuffer malloc" "sb_holds malloc lim" lim for malloc lim
proof
  fix sb t and bs :: "int list"
  assume h: "sb_holds malloc lim sb t" "length t + length bs \<le> lim"
  then have s: "serves malloc lim" "sb_wf sb" "sb_contents sb = t" by (simp_all add: sb_holds_def)
  obtain v where v: "sb_value sb = Some v" "length v = sb_size sb" "sb_length sb < sb_size sb" using s(2) by (rule sb_wfE)
  then have l: "sb_length sb = length t" using s(3) by (auto simp: sb_contents_def)
  let ?M = "max (2 * sb_size sb) (sb_length sb + length bs + 1)"
  have A: "\<forall>n. 0 < n \<and> n \<le> 2 * lim + 16 \<longrightarrow> malloc n \<noteq> None" using s(1) by (simp add: serves_def)
  have room: "sb_room malloc sb (length bs)"
  proof (cases "length bs < sb_size sb - sb_length sb")
    case False
    then have "sb_size sb \<le> lim" "sb_size sb < 2 ^ 31" "length t + length bs + 1 < 2 ^ 32" using h(2) s(1) v(3) l by (auto simp: serves_def)
    moreover have "malloc ?M \<noteq> None"
    proof (rule A [rule_format], intro conjI)
      show "0 < ?M" by simp
      show "?M \<le> 2 * lim + 16" using \<open>sb_size sb \<le> lim\<close> h(2) l by simp
    qed
    ultimately show ?thesis using l unfolding sb_room_def by simp
  qed (simp add: sb_room_def)
  have "length bs < 2 ^ 32" using h(2) s(1) by (simp add: serves_def)
  with append_bytes_cases [of malloc sb bs "length bs"] s room
  show "\<exists>s'. dump_to_strbuffer malloc bs sb = Some (0, s') \<and> sb_holds malloc lim s' (t @ bs)"
    by (auto simp: serves_def dump_to_strbuffer_def sb_holds_def)
qed

text \<open>The caller's buffer has a prefix of the text, all of it when it fits.\<close>

definition buf_holds :: "nat \<Rightarrow> int list \<Rightarrow> buffer \<Rightarrow> int list \<Rightarrow> bool" where
  "buf_holds sz data buf t \<longleftrightarrow> b_size buf = sz \<and> sz \<le> length data \<and> b_used buf = length t \<and>
     (\<exists>j \<le> length t. j \<le> sz \<and> b_data buf = take j t @ drop j data \<and> (length t \<le> sz \<longrightarrow> j = length t))"

interpretation bs: dump_sink dump_to_buffer "buf_holds sz data" "2 ^ 32 - 1" for sz data
proof
  fix buf t and bs :: "int list"
  assume h: "buf_holds sz data buf t" "length t + length bs \<le> 2 ^ 32 - 1"
  then obtain j where j: "b_size buf = sz" "sz \<le> length data" "b_used buf = length t" "j \<le> length t" "j \<le> sz"
    "b_data buf = take j t @ drop j data" "length t \<le> sz \<longrightarrow> j = length t" by (auto simp: buf_holds_def)
  have u: "add32 (b_used buf) (length bs) = length t + length bs" using j(3) h(2) by (simp add: add32_small)
  show "\<exists>s'. dump_to_buffer bs buf = Some (0, s') \<and> buf_holds sz data s' (t @ bs)"
  proof (cases "length t + length bs \<le> sz")
    case True
    then have "mem_copy (b_data buf) (b_used buf) bs (length bs) = Some (t @ bs @ drop (length t + length bs) data)"
      using j by (auto simp: mem_copy_def add.commute)
    then show ?thesis using True u j by (auto simp: dump_to_buffer_def buf_holds_def)
  next
    case False
    then show ?thesis using u j by (auto simp: dump_to_buffer_def buf_holds_def intro!: exI [of _ j])
  qed
qed

section \<open>The text has no NUL\<close>

lemma hex_digits_nz: "0 \<le> v \<Longrightarrow> 0 \<notin> set (hex_digits n 65 v)"
  by (induction n arbitrary: v) (auto simp: Let_def)

lemma enc_nz:
  assumes "scalar cp" "32 \<le> cp"
  shows "0 \<notin> set (enc cp)"
proof -
  have N: "0 \<le> cp div 64" "0 \<le> cp div 4096" "0 \<le> cp div 262144" "0 \<le> cp div 64 mod 64" "0 \<le> cp div 4096 mod 64" "0 \<le> cp mod 64"
    using assms(2) by (simp_all add: pos_imp_zdiv_nonneg_iff)
  have P: "(0 :: int) < a \<Longrightarrow> 0 \<le> x \<Longrightarrow> a + x \<noteq> 0" for a x by linarith
  from assms(1) show ?thesis
  proof (cases rule: scalar_cases)
    case 1
    then show ?thesis using assms(2) by (simp add: enc_simps(1))
  next
    case 2
    then show ?thesis using P [OF _ N(1)] P [OF _ N(6)] by (simp add: enc_simps(2))
  next
    case 3
    then show ?thesis using P [OF _ N(2)] P [OF _ N(4)] P [OF _ N(6)] by (simp add: enc_simps(3))
  next
    case 4
    then show ?thesis using P [OF _ N(3)] P [OF _ N(4)] P [OF _ N(5)] P [OF _ N(6)] by (simp add: enc_simps(4))
  qed
qed

lemma escape_text_nz: "scalar cp \<Longrightarrow> 0 \<notin> set (escape_text cp)"
proof -
  assume cp: "scalar cp"
  have "0 \<notin> set (fmt_04X v)" if "0 \<le> v" for v using that by (simp add: fmt_04X_def hex_digits_nz)
  moreover have "0 \<le> cp" using cp by (simp add: scalar_def)
  ultimately show ?thesis by (auto simp: escape_text_def Let_def)
qed

lemma string_text_nz: "utf8_text s \<Longrightarrow> 0 \<notin> set (string_text flags s)"
  by (erule utf8_textE) (auto simp: string_text_def cp_text_def escape_text_nz enc_nz needs_escape_def)

lemma separated_set: "set (separated sep xs) \<subseteq> set sep \<union> \<Union> (set ` set xs)"
  by (induction sep xs rule: separated.induct) auto

lemma frame_text_nz: "\<forall>x \<in> set xs. 0 \<notin> set x \<Longrightarrow> 0 \<notin> set (frame_text flags dep xs)"
  using separated_set [of "[44] @ indent_text flags (dep + 1) True" xs]
  by (auto simp: frame_text_def indent_text_def split: if_splits)

lemma dec_digits_nz: "0 \<notin> set (dec_digits n)"
  by (induction n rule: dec_digits.induct) (subst dec_digits.simps, auto)

text \<open>The keys of an object in a tree of a stored value are distinct.\<close>

fun keyed :: "'r json \<Rightarrow> bool" where
  "keyed (JArray vs) \<longleftrightarrow> (\<forall>v \<in> set vs. keyed v)"
| "keyed (JObject ms) \<longleftrightarrow> distinct (map fst ms) \<and> (\<forall>(k, v) \<in> set ms. keyed v)"
| "keyed _ \<longleftrightarrow> True"

lemma json_text_nz: "dumpable fmt_g flags v \<Longrightarrow> keyed v \<Longrightarrow> 0 \<notin> set (json_text fmt_g flags dep v)"
proof (induction v arbitrary: dep)
  case (JObject ms)
  let ?ts = "map (\<lambda>(k, v). (k, json_text fmt_g flags (dep + 1) v)) ms"
  have "0 \<notin> set x" if "x \<in> set (map (\<lambda>(k, t). member_text flags k t) (in_order flags ?ts))" for x
  proof -
    have "distinct (map fst ?ts)" using JObject.prems(2) by (simp add: comp_def case_prod_unfold)
    then have "set (in_order flags ?ts) = set ?ts" by (rule in_order_set)
    with that have "x \<in> (\<lambda>(k, t). member_text flags k t) ` set ?ts" by (simp only: set_map)
    then obtain k v where "(k, v) \<in> set ms" "x = member_text flags k (json_text fmt_g flags (dep + 1) v)" by auto
    moreover from this JObject.prems have "utf8_text k" "dumpable fmt_g flags v" "keyed v" by auto
    moreover from this calculation(1) have "0 \<notin> set (json_text fmt_g flags (dep + 1) v)" using JObject.IH [of "(k, v)" v "dep + 1"] by simp
    ultimately show ?thesis using string_text_nz [of k flags] by (simp add: member_text_def)
  qed
  then have "0 \<notin> set (frame_text flags dep (map (\<lambda>(k, t). member_text flags k t) (in_order flags ?ts)))" by (intro frame_text_nz) blast
  then show ?case by simp
next
  case (JArray vs)
  then show ?case using frame_text_nz [of "map (json_text fmt_g flags (dep + 1)) vs" flags dep] by auto
next
  case (JInteger i)
  then show ?case by (simp add: fmt_d_def dec_digits_nz)
qed (auto simp: string_text_nz str_def split: option.splits)

lemma keyed_tree: "stored h \<Longrightarrow> tree_of n h p = Some v \<Longrightarrow> keyed v"
proof (induction n arbitrary: p v)
  case (Suc n)
  then obtain b where b: "body_at h p = Some b" "tree_node (tree_of n h) b = Some v" by (auto simp: bind_eq_Some_conv)
  have ok: "body_ok b" using stored_body [OF Suc.prems(1) b(1)] by simp
  show ?case
  proof (cases b)
    case (BObject ms)
    with b obtain vs where vs: "those (map (\<lambda>m. tree_of n h (snd m)) ms) = Some vs" "v = JObject (zip (map fst ms) vs)" by auto
    have "keyed (vs ! i)" if "i < length ms" for i using those_map [OF vs(1)] that Suc.IH [OF Suc.prems(1)] by blast
    with those_map [OF vs(1)] vs(2) ok BObject show ?thesis by (auto simp: in_set_zip)
  next
    case (BArray c k t)
    with b obtain vs where vs: "those (map (tree_of n h) (take k t)) = Some vs" "v = JArray vs" by auto
    have "keyed (vs ! i)" if "i < length (take k t)" for i using those_map [OF vs(1)] that Suc.IH [OF Suc.prems(1)] by blast
    with those_map [OF vs(1)] vs(2) show ?thesis by (auto simp: in_set_conv_nth)
  qed (use b in auto)
qed simp

section \<open>What the encoder writes\<close>

fun container :: "'r json \<Rightarrow> bool" where
  "container (JObject _) = True" | "container (JArray _) = True" | "container _ = False"

definition dump_text :: "(nat \<Rightarrow> 'r \<Rightarrow> int list option) \<Rightarrow> u32 \<Rightarrow> 'r json \<Rightarrow> int list" where
  "dump_text fmt_g flags v = embed_text flags v (json_text fmt_g (no_embed flags) 0 v)"

text \<open>The store holds at \<open>p\<close> a value that can be dumped with \<open>flags\<close>.\<close>

definition dumps_at :: "(nat \<Rightarrow> 'r \<Rightarrow> int list option) \<Rightarrow> 'r jheap \<Rightarrow> nat \<Rightarrow> u32 \<Rightarrow> 'r json \<Rightarrow> bool" where
  "dumps_at fmt_g h p flags v \<longleftrightarrow> tree_of (jnext h + 1) h p = Some v \<and> dumpable fmt_g (no_embed flags) v \<and>
     (fset flags JSON_ENCODE_ANY \<or> container v)"

lemma sound_stored: "sound h ext \<Longrightarrow> stored h"
  using ownedD(2) [of h "[]" "kids h" ext] by (auto simp: sound_def stored_def dom_def)

lemma tree_kind:
  assumes "stored h" "tree_of n h p = Some v"
  shows "json_is is_array h p = Some (case v of JArray _ \<Rightarrow> True | _ \<Rightarrow> False)"
    "json_is is_object h p = Some (case v of JObject _ \<Rightarrow> True | _ \<Rightarrow> False)"
proof -
  obtain m where n: "n = Suc m" using assms(2) by (cases n) auto
  then obtain b where b: "body_at h p = Some b" "tree_node (tree_of m h) b = Some v" using assms(2) by (auto simp: bind_eq_Some_conv)
  have "p \<noteq> 0" using stored_body [OF assms(1) b(1)] by simp
  then have k: "json_is t h p = Some (t b)" for t using b(1) by (auto simp: json_is_def body_at_def)
  show "json_is is_array h p = Some (case v of JArray _ \<Rightarrow> True | _ \<Rightarrow> False)"
    "json_is is_object h p = Some (case v of JObject _ \<Rightarrow> True | _ \<Rightarrow> False)"
    unfolding k using b(2) by (cases b; auto)+
qed

context dump_sink
begin

lemma callback_writes:
  assumes "stored h" "dumps_at fmt_g h p flags v"
  shows "writes (\<lambda>s. json_dump_callback fmt_g zero h p dump s flags) (dump_text fmt_g flags v)"
proof -
  have t: "tree_of (jnext h + 1) h p = Some v" and d: "dumpable fmt_g (no_embed flags) v" "fset flags JSON_ENCODE_ANY \<or> container v"
    using assms(2) by (auto simp: dumps_at_def)
  have "json_dump_callback fmt_g zero h p dump s flags = do_dump (jnext h + 1) fmt_g zero dump h flags 0 [] p s" for s
    using d(2) by (auto simp: json_dump_callback_def tree_kind [OF assms(1) t] simp del: do_dump.simps split: json.splits)
  moreover have "above h [] (size v)" by (simp add: above_def)
  ultimately show ?thesis using writes_do_dump [OF assms(1) t d(1)] by (simp add: dump_text_def del: do_dump.simps)
qed

end

lemma dump_text_nz:
  assumes "stored h" "dumps_at fmt_g h p flags v"
  shows "0 \<notin> set (dump_text fmt_g flags v)"
proof -
  have "0 \<notin> set (json_text fmt_g (no_embed flags) 0 v)"
    using assms keyed_tree json_text_nz unfolding dumps_at_def by blast
  then have "0 \<notin> set (embed_text flags v (json_text fmt_g (no_embed flags) 0 v))"
    using in_set_butlastD [of 0 "tl (json_text fmt_g (no_embed flags) 0 v)"] list.set_sel(2) [of "json_text fmt_g (no_embed flags) 0 v" 0]
    by (cases v) (auto simp del: json_text.simps, (metis list.set_sel(2) tl_Nil)+)
  then show ?thesis by (simp add: dump_text_def)
qed

lemma serves_some: "serves malloc lim \<Longrightarrow> 0 < n \<Longrightarrow> n \<le> 2 * lim + 16 \<Longrightarrow> malloc n \<noteq> None"
  by (simp add: serves_def)

lemma strndup_ok:
  assumes "serves malloc lim" "n \<le> lim" "n < length v"
  shows "jsonp_strndup malloc v n = Some (Some (take n v @ [0]))"
proof -
  have "malloc (n + 1) \<noteq> None" using assms(2) by (intro serves_some [OF assms(1)]) auto
  then obtain b where b: "malloc (n + 1) = Some b" "length b = n + 1" using assms(1) by (auto simp: serves_def malloc_ok_def)
  have a: "add32 n 1 = n + 1" using assms by (simp add: add32_small serves_def)
  have "mem_copy b 0 v n = Some (take n v @ drop n b)" using b assms(3) by (simp add: mem_copy_def)
  moreover have "(take n v @ drop n b)[n := 0] = take n v @ [0]" using b assms(3) Cons_nth_drop_Suc [of n b, symmetric] by (simp add: list_update_append)
  ultimately show ?thesis using b a assms(3) by (simp add: jsonp_strndup_def jsonp_malloc_def mem_set_def)
qed

text \<open>
  C13. \<^verbatim>\<open>json_dumps\<close> on a finite value whose strings and keys are UTF-8 and whose reals can be printed returns a NUL-terminated copy
  of the JSON text of the value for the given flags (indentation, separators, sorted keys, escapes, precision, embedding), if it is
  an array or object or \<^verbatim>\<open>JSON_ENCODE_ANY\<close> is set and the allocator serves the buffers of a text of that length. The buffer grows in
  between without the text being cut.
\<close>

theorem json_dumps_text:
  assumes "stored h" "dumps_at fmt_g h p flags v" "serves malloc (length (dump_text fmt_g flags v))"
  shows "json_dumps malloc fmt_g zero h p flags = Some (Some (dump_text fmt_g flags v @ [0]))"
proof -
  let ?t = "dump_text fmt_g flags v" let ?lim = "length ?t"
  note st = assms(1)
  obtain sb where sb: "strbuffer_init malloc = Some (0, sb)" "sb_holds malloc ?lim sb []"
    using strbuffer_init_cases [of malloc] serves_some [OF assms(3), of 16] assms(3) by (auto simp: serves_def [of malloc] sb_holds_def)
  obtain sb1 where sb1: "json_dump_callback fmt_g zero h p (dump_to_strbuffer malloc) sb flags = Some (0, sb1)" "sb_holds malloc ?lim sb1 ?t"
    using ss.writes_emits [OF ss.callback_writes [OF st assms(2)] sb(2)] by (auto simp: ss.emits_def)
  then have w: "sb_wf sb1" "sb_contents sb1 = ?t" by (simp_all add: sb_holds_def)
  obtain u where u: "sb_value sb1 = Some u" "length u = sb_size sb1" "sb_length sb1 < sb_size sb1" "u ! sb_length sb1 = 0"
    using w(1) by (rule sb_wfE)
  then have l: "take (sb_length sb1) u = ?t" "sb_length sb1 = ?lim" using w(2) by (simp_all add: sb_contents_def, metis length_take less_imp_le min.absorb2)
  have "u = ?t @ 0 # drop (Suc ?lim) u" using u l by (metis append_take_drop_id Cons_nth_drop_Suc)
  then have "cstr u = ?t" using dump_text_nz [OF st assms(2)] unfolding cstr_def by (metis (mono_tags, lifting) takeWhile_eq_all_conv takeWhile_tail append_Nil2)
  with u l strndup_ok [OF assms(3), of ?lim u] have "jsonp_strdup malloc u = Some (Some (?t @ [0]))" by (simp add: jsonp_strdup_def)
  with sb sb1 u show ?thesis by (simp add: json_dumps_def strbuffer_value_def)
qed

definition demo_store :: "int jheap" where
  "demo_store = \<lparr>jmem = (jmem jheap0)(4 \<mapsto> \<lparr>refcount = Some 1, jbody = BObject [([98], 5), ([97], 1)]\<rparr>,
     5 \<mapsto> \<lparr>refcount = Some 1, jbody = BArray 3 2 [6, 3, 0]\<rparr>, 6 \<mapsto> \<lparr>refcount = Some 1, jbody = BString [34, 0xE2, 0x82, 0xAC]\<rparr>), jnext = 7\<rparr>"

definition demo_alloc :: mallocf where
  "demo_alloc n = (if n \<le> 2000 then Some (replicate n 7) else None)"

definition demo_flags :: u32 where
  "demo_flags = JSON_SORT_KEYS OR JSON_ENSURE_ASCII"

lemma demo_stored: "stored demo_store"
  by (auto simp: stored_def demo_store_def jheap0_def the_true_def the_false_def the_null_def split: if_splits)

lemma demo_dumps_at:
  "dumps_at (\<lambda>_ _. None) demo_store 4 demo_flags (JObject [([98], JArray [JString [34, 0xE2, 0x82, 0xAC], JNull]), ([97], JTrue)])"
  by code_simp

lemma demo_text:
  "dump_text (\<lambda>_ _. None) demo_flags (JObject [([98], JArray [JString [34, 0xE2, 0x82, 0xAC], JNull]), ([97], JTrue)] :: int json) =
     str ''{\"a\": true, \"b\": [\"'' @ [92, 34, 92] @ str ''u20AC\", null]}''"
  by code_simp

lemma demo_serves: "serves demo_alloc 500"
  by (auto simp: serves_def malloc_ok_def demo_alloc_def)

theorem json_dumps_text_witness:
  "json_dumps demo_alloc (\<lambda>_ _. None) 0 demo_store 4 demo_flags =
     Some (Some ((str ''{\"a\": true, \"b\": [\"'' @ [92, 34, 92] @ str ''u20AC\", null]}'') @ [0]))"
proof -
  have "serves demo_alloc (length (str ''{\"a\": true, \"b\": [\"'' @ [92, 34, 92] @ str ''u20AC\", null]}''))"
    using demo_serves by (auto simp: serves_def str_def)
  then show ?thesis using json_dumps_text [OF demo_stored demo_dumps_at, of demo_alloc 0] by (simp only: demo_text)
qed

text \<open>
  \<^verbatim>\<open>json_dumpb\<close> returns the length of the text, which may exceed the size of the caller's buffer (the text has less than 2 ^ 32 bytes).
  If the text fits, the buffer starts with it and the rest is as before; if not, the buffer holds a prefix of the text followed by what it
  held before; nothing is written past its size.
\<close>

theorem json_dumpb_text:
  assumes "stored h" "dumps_at fmt_g h p flags v" "length (dump_text fmt_g flags v) < 2 ^ 32" "sz \<le> length data"
  shows "\<exists>j \<le> sz. json_dumpb fmt_g zero h p data sz flags =
      Some (length (dump_text fmt_g flags v), take j (dump_text fmt_g flags v) @ drop j data) \<and>
    (length (dump_text fmt_g flags v) \<le> sz \<longrightarrow> j = length (dump_text fmt_g flags v))"
proof -
  let ?buf = "\<lparr>b_size = sz, b_used = 0, b_data = data\<rparr>"
  have "buf_holds sz data ?buf []" using assms(4) by (simp add: buf_holds_def)
  from bs.writes_emits [OF bs.callback_writes [OF assms(1,2)] this] assms(3) obtain buf where
    "json_dump_callback fmt_g zero h p dump_to_buffer ?buf flags = Some (0, buf)" "buf_holds sz data buf (dump_text fmt_g flags v)"
    by (auto simp: bs.emits_def)
  then show ?thesis by (auto simp: json_dumpb_def buf_holds_def)
qed

theorem json_dumpb_text_witness:
  "\<exists>j \<le> 10. json_dumpb (\<lambda>_ _. None) 0 demo_store 4 (replicate 12 7) 10 demo_flags =
     Some (36, take j (str ''{\"a\": true, \"b\": [\"'' @ [92, 34, 92] @ str ''u20AC\", null]}'') @ drop j (replicate 12 7))"
  using json_dumpb_text [OF demo_stored demo_dumps_at, of 10 "replicate 12 7" 0] unfolding demo_text by (auto simp: str_def)

section \<open>The encoder returns\<close>

text \<open>A callback that returns; the loops over it return.\<close>

definition returns :: "'s sink \<Rightarrow> bool" where
  "returns dump \<longleftrightarrow> (\<forall>bs s. dump bs s \<noteq> None)"

definition ret :: "'a option \<Rightarrow> bool" where
  "ret x \<longleftrightarrow> x \<noteq> None"

lemma ret_Some [simp]: "ret (Some x)" "\<not> ret None"
  by (simp_all add: ret_def)

lemma ret_unless [intro!]: "ret x \<Longrightarrow> (\<And>s. ret (f s)) \<Longrightarrow> ret (unless x f)"
  by (cases x) (auto simp: unless_def ret_def)

lemma ret_dump: "returns dump \<Longrightarrow> ret (dump bs s)"
  by (simp add: returns_def ret_def)

lemma ret_spaces: "returns dump \<Longrightarrow> ret (spaces_loop dump n s)"
proof (induction n arbitrary: s rule: less_induct)
  case (less n)
  show ?case by (subst spaces_loop.simps) (auto simp: Let_def intro!: ret_dump [OF less.prems] less.IH [OF _ less.prems])
qed

lemma ret_indent: "returns dump \<Longrightarrow> ret (dump_indent flags dep sp dump s)"
  by (auto simp: dump_indent_def ret_spaces ret_dump)

lemma ret_string: "returns dump \<Longrightarrow> ret (dump_string flags dump t s)"
proof -
  assume r: "returns dump"
  have "ret (string_loop flags dump u s')" for u s'
  proof (induction "length u" arbitrary: u s' rule: less_induct)
    case less
    show ?case by (subst string_loop.simps) (auto simp: ret_dump [OF r] dest: scan_plain_shorter intro!: less.hyps split: option.split)
  qed
  with r show ?thesis by (auto simp: dump_string_def ret_dump)
qed

lemmas rets = ret_dump ret_indent ret_string

lemma ret_array_loop:
  assumes "returns dump" "\<And>j. j < n \<Longrightarrow> \<exists>v. json_array_get h p j = Some v \<and> (\<forall>s. ret (dump_value v s))"
  shows "i + k = n \<Longrightarrow> ret (array_dump_loop dump_value flags dep dump h p i k s)"
proof (induction k arbitrary: i s)
  case (Suc k)
  then obtain v where v: "json_array_get h p i = Some v" "\<forall>s. ret (dump_value v s)" using assms(2) [of i] by auto
  have IH: "ret (array_dump_loop dump_value flags dep dump h p (i + 1) k s')" for s' using Suc by simp
  show ?case unfolding array_dump_loop.simps using v IH by (auto intro: rets [OF assms(1)])
qed simp

lemma ret_keys_loop:
  assumes "returns dump"
  shows "(\<And>k. k \<in> set ks \<Longrightarrow> \<exists>v. lookup k = Some v \<and> (\<forall>s. ret (dump_value v s))) \<Longrightarrow>
    ret (keys_dump_loop lookup dump_value flags dep dump ks s)"
proof (induction ks arbitrary: s)
  case (Cons k ks)
  then obtain v where v: "lookup k = Some v" "\<forall>s. ret (dump_value v s)" using Cons.prems [OF list.set_intros(1)] by blast
  obtain r s1 where d: "dump_string flags dump k s = Some (r, s1)" using ret_string [OF assms, of flags k s] by (auto simp: ret_def)
  have IH: "ret (keys_dump_loop lookup dump_value flags dep dump ks s')" for s' using Cons by simp
  show ?case using v IH unfolding keys_dump_loop.simps by (auto simp: d intro: rets [OF assms(1)])
qed simp

text \<open>Every member is a value that exists; addresses are below \<^verbatim>\<open>jnext\<close>.\<close>

definition closed_store :: "'r jheap \<Rightarrow> bool" where
  "closed_store h \<longleftrightarrow> stored h \<and> (\<forall>a n. jmem h a = Some n \<longrightarrow> a < jnext h \<and> set (children (jbody n)) \<subseteq> dom (jmem h))"

lemma sound_closed: "sound h ext \<Longrightarrow> closed_store h"
  using sound_stored [of h ext] sound_kids [of h ext] ownedD(3) [of h "[]" "kids h" ext] by (auto simp: closed_store_def sound_def domIff dest!: domI)

lemma parents_short:
  assumes "closed_store h" "distinct parents" "set parents \<subseteq> dom (jmem h)"
  shows "length parents < jnext h + 1"
proof -
  have "set parents \<subseteq> {..< jnext h}" using assms(1,3) by (force simp: closed_store_def)
  then show ?thesis using card_mono [of "{..< jnext h}" "set parents"] distinct_card [OF assms(2)] by simp
qed

lemma ret_do_dump:
  assumes "closed_store h" "returns dump" "p = 0 \<or> p \<in> dom (jmem h)" "distinct parents" "set parents \<subseteq> dom (jmem h)" "jnext h < n + length parents"
  shows "ret (do_dump n fmt_g zero dump h flags0 dep parents p s)"
  using assms(3-)
proof (induction n arbitrary: p parents flags0 dep s)
  case 0
  then show ?case using parents_short [OF assms(1), of parents] by simp
next
  case (Suc n)
  let ?fl = "flags0 AND NOT JSON_EMBED"
  let ?rec = "\<lambda>parents1. do_dump n fmt_g zero dump h ?fl (dep + 1) parents1"
  have st: "stored h" using assms(1) by (simp add: closed_store_def)
  show ?case
  proof (cases "p = 0")
    case False
    then obtain nd where nd: "jmem h p = Some nd" using Suc.prems(1) by auto
    let ?b = "jbody nd"
    have b: "body_at h p = Some ?b" using nd by (simp add: body_at_def)
    have kid: "ret (?rec (p # parents) q s')" if "p \<notin> set parents" "q \<in> set (children ?b)" for q s'
    proof (rule Suc.IH)
      have "set (children ?b) \<subseteq> dom (jmem h)" using nd assms(1) by (auto simp: closed_store_def)
      then show "q = 0 \<or> q \<in> dom (jmem h)" using that(2) by blast
    qed (use that(1) Suc.prems nd in auto)
    note rets = rets [OF assms(2)]
    show ?thesis
    proof (cases ?b)
      case (BObject ms)
      have D: "ret (dump_object ?rec e ?fl dep parents dump h p s)" for e
      proof (cases "p \<in> set parents")
        case out: False
        have nz: "v \<noteq> 0" if "(k, v) \<in> set ms" for k v
          using that BObject nd assms(1) st by (force simp: closed_store_def stored_def)
        have look: "\<exists>v. json_object_iter_value h p (Some k) = Some v \<and> getn_value h p k = Some v \<and> (\<forall>s. ret (?rec (p # parents) v s))"
          if km: "k \<in> set (map fst ms)" for k
        proof -
          obtain v where v: "(k, v) \<in> set ms" using km by auto
          from object_reads [OF st b [unfolded BObject] v nz [OF v]] kid [OF out, of v] BObject v show ?thesis by force
        qed
        have L1: "ret (keys_dump_loop (getn_value h p) (?rec (p # parents)) ?fl dep dump (qsort_keys (map fst ms)) s')" for s'
          by (rule ret_keys_loop [OF assms(2)]) (use look in fastforce)
        have L2: "ret (keys_dump_loop (\<lambda>k. json_object_iter_value h p (Some k)) (?rec (p # parents)) ?fl dep dump (map fst ms) s')" for s'
          by (rule ret_keys_loop [OF assms(2)]) (use look in fastforce)
        show ?thesis using out b BObject L1 L2
          by (auto simp: dump_object_def jsonp_loop_check_def members_at_def rets)
      qed (simp add: dump_object_def jsonp_loop_check_def)
      then show ?thesis using False b BObject by (simp add: Let_def)
    next
      case (BArray c k t)
      have D: "ret (dump_array ?rec e ?fl dep parents dump h p s)" for e
      proof (cases "p \<in> set parents")
        case out: False
        note R = array_reads [OF st b [unfolded BArray]]
        have L: "ret (array_dump_loop (?rec (p # parents)) ?fl dep dump h p 0 k s')" for s'
        proof (rule ret_array_loop [OF assms(2), where n = k])
          fix j assume "j < k"
          moreover from this R(3) have "take k t ! j \<in> set (take k t)" by (simp del: nth_take)
          ultimately show "\<exists>v. json_array_get h p j = Some v \<and> (\<forall>s. ret (?rec (p # parents) v s))"
            using R(2) kid [OF out] BArray by auto
        qed simp
        show ?thesis using out R(1) L by (auto simp: dump_array_def jsonp_loop_check_def rets)
      qed (simp add: dump_array_def jsonp_loop_check_def)
      then show ?thesis using False b BArray by (simp add: Let_def)
    next
      case (BString u)
      then show ?thesis using False b nd by (simp add: rets Let_def json_string_value_def json_is_def)
    next
      case (BInteger i)
      then show ?thesis using False b nd by (simp add: rets Let_def json_integer_value_def json_is_def)
    next
      case (BReal r)
      then show ?thesis using False b nd by (simp add: rets Let_def json_real_value_def json_is_def split: option.split)
    qed (use False b in \<open>auto simp: Let_def rets\<close>)
  qed simp
qed

text \<open>Result 0 means that every part was written.\<close>

lemma unless_zero: "unless x f = Some (0, s') \<longleftrightarrow> (\<exists>s. x = Some (0, s) \<and> f s = Some (0, s'))"
  by (cases x) (auto simp: unless_def split: if_splits)

definition dumped :: "(nat \<Rightarrow> 's \<Rightarrow> (int \<times> 's) option) \<Rightarrow> nat \<Rightarrow> bool" where
  "dumped dump_value v \<longleftrightarrow> (\<exists>s s'. dump_value v s = Some (0, s'))"

lemma array_loop_zero:
  "array_dump_loop dump_value flags dep dump h p i k s = Some (0, s') \<Longrightarrow> i \<le> j \<Longrightarrow> j < i + k \<Longrightarrow>
    \<exists>v. json_array_get h p j = Some v \<and> dumped dump_value v"
proof (induction k arbitrary: i s)
  case (Suc k)
  from Suc.prems(1) obtain v s1 s2 where v: "json_array_get h p i = Some v" "dump_value v s = Some (0, s1)"
    "array_dump_loop dump_value flags dep dump h p (i + 1) k s2 = Some (0, s')"
    by (auto simp: unless_zero bind_eq_Some_conv split: if_splits)
  show ?case
  proof (cases "j = i")
    case False
    then show ?thesis using Suc.IH [OF v(3)] Suc.prems(2,3) by simp
  qed (use v in \<open>auto simp: dumped_def\<close>)
qed simp

lemma keys_loop_zero:
  "keys_dump_loop lookup dump_value flags dep dump ks s = Some (0, s') \<Longrightarrow> k \<in> set ks \<Longrightarrow>
    \<exists>v. lookup k = Some v \<and> dumped dump_value v"
proof (induction ks arbitrary: s)
  case (Cons x ks)
  from Cons.prems(1) obtain v s1 s2 s3 where v: "lookup x = Some v" "dump_value v s1 = Some (0, s2)"
    "keys_dump_loop lookup dump_value flags dep dump ks s3 = Some (0, s')"
    by (auto simp: unless_zero bind_eq_Some_conv split: if_splits)
  show ?case
  proof (cases "k = x")
    case False
    then show ?thesis using Cons.IH [OF v(3)] Cons.prems(2) by simp
  qed (use v in \<open>auto simp: dumped_def\<close>)
qed simp

lemma those_all: "(\<And>x. x \<in> set xs \<Longrightarrow> f x \<noteq> None) \<Longrightarrow> those (map f xs) \<noteq> None"
proof (induction xs)
  case (Cons x xs)
  then have "f x \<noteq> None" "those (map f xs) \<noteq> None" by simp_all
  then show ?case by auto
qed simp

lemma do_dump_zero:
  assumes "stored h" "do_dump n fmt_g zero dump h flags0 dep parents p s = Some (0, s')"
  shows "tree_of n h p \<noteq> None"
  using assms(2)
proof (induction n arbitrary: p parents flags0 dep s s')
  case (Suc n)
  let ?fl = "flags0 AND NOT JSON_EMBED"
  let ?rec = "\<lambda>parents1. do_dump n fmt_g zero dump h ?fl (dep + 1) parents1"
  from Suc.prems obtain b where b: "body_at h p = Some b" by (auto simp: Let_def bind_eq_Some_conv split: if_splits)
  have IH: "tree_of n h v \<noteq> None" if "dumped (?rec parents1) v" for parents1 v
    using that Suc.IH unfolding dumped_def by blast
  have p: "p \<noteq> 0" using stored_body [OF assms(1) b] by simp
  show ?case
  proof (cases b)
    case (BObject ms)
    let ?P = "p # parents"
    from Suc.prems b p BObject have "dump_object ?rec (fset flags0 JSON_EMBED) ?fl dep parents dump h p s = Some (0, s')" by (simp add: Let_def)
    then obtain s1 s2 where K: "ms = [] \<or>
        keys_dump_loop (getn_value h p) (?rec ?P) ?fl dep dump (qsort_keys (map fst ms)) s1 = Some (0, s2) \<or>
        keys_dump_loop (\<lambda>k. json_object_iter_value h p (Some k)) (?rec ?P) ?fl dep dump (map fst ms) s1 = Some (0, s2)"
      using b BObject by (auto simp: dump_object_def jsonp_loop_check_def members_at_def unless_zero split: if_splits)
    have "tree_of n h (snd m) \<noteq> None" if m: "m \<in> set ms" for m
    proof -
      obtain k v where kv: "m = (k, v)" by (cases m)
      have mo: "map_of ms k = Some v" using m kv stored_body [OF assms(1) b] BObject by auto
      have "\<exists>w. (getn_value h p k = Some w \<or> json_object_iter_value h p (Some k) = Some w) \<and> dumped (?rec ?P) w"
        using K m kv keys_loop_zero [of "getn_value h p" "?rec ?P" ?fl dep dump "qsort_keys (map fst ms)" s1 s2 k]
          keys_loop_zero [of "\<lambda>k. json_object_iter_value h p (Some k)" "?rec ?P" ?fl dep dump "map fst ms" s1 s2 k] by force
      moreover have "w = v" if "getn_value h p k = Some w \<or> json_object_iter_value h p (Some k) = Some w" for w
        using that mo b BObject p
        by (auto simp: getn_value_def json_object_getn_def json_object_iter_value_def members_at_def json_is_def body_at_def bind_eq_Some_conv assert_c_def split: if_splits)
      ultimately show ?thesis using IH kv by auto
    qed
    then have "those (map (\<lambda>m. tree_of n h (snd m)) ms) \<noteq> None" by (rule those_all)
    then show ?thesis using b BObject by auto
  next
    case (BArray c k t)
    note R = array_reads [OF assms(1) b [unfolded BArray]]
    from Suc.prems b p BArray have "dump_array ?rec (fset flags0 JSON_EMBED) ?fl dep parents dump h p s = Some (0, s')" by (simp add: Let_def)
    then obtain s1 s2 where L: "k = 0 \<or> array_dump_loop (?rec (p # parents)) ?fl dep dump h p 0 k s1 = Some (0, s2)"
      using R(1) by (auto simp: dump_array_def jsonp_loop_check_def unless_zero split: if_splits)
    have "tree_of n h q \<noteq> None" if q: "q \<in> set (take k t)" for q
    proof -
      obtain j where j: "j < k" "q = take k t ! j" using q R(3) by (metis in_set_conv_nth)
      with L array_loop_zero [of "?rec (p # parents)" ?fl dep dump h p 0 k s1 s2 j] R(2) [OF j(1)] have "dumped (?rec (p # parents)) q" by auto
      then show ?thesis by (rule IH)
    qed
    then have "those (map (tree_of n h) (take k t)) \<noteq> None" by (rule those_all)
    then show ?thesis using b BArray by auto
  qed (use b in auto)
qed simp

text \<open>
  C14. The encoder always returns. For every store that a client can build, every value of it, circular ones too, all flags and every
  callback that returns, \<^verbatim>\<open>json_dump_callback\<close> returns, without undefined behaviour; its depth is bounded by the number of values, because the
  set of parents stops at a value that contains itself. If it returns 0, the value is a finite tree: circular values are reported as errors.
\<close>

theorem json_dump_returns:
  assumes "sound h ext" "p = 0 \<or> p \<in> dom (jmem h)" "returns callback"
  shows "\<exists>r s'. json_dump_callback fmt_g zero h p callback s flags = Some (r, s') \<and> (r = 0 \<longrightarrow> tree_of (jnext h + 1) h p \<noteq> None)"
proof -
  have k: "\<exists>b. json_is t h p = Some b" for t using assms(2) by (auto simp: json_is_def)
  obtain a b where ab: "json_is is_array h p = Some a" "json_is is_object h p = Some b" using k by meson
  have "ret (do_dump (jnext h + 1) fmt_g zero callback h flags 0 [] p s)"
    by (rule ret_do_dump [OF sound_closed [OF assms(1)] assms(3,2)]) simp_all
  then obtain r s' where d: "do_dump (jnext h + 1) fmt_g zero callback h flags 0 [] p s = Some (r, s')" by (auto simp: ret_def simp del: do_dump.simps)
  with ab have c: "json_dump_callback fmt_g zero h p callback s flags = Some (if \<not> fset flags JSON_ENCODE_ANY \<and> \<not> a \<and> \<not> b then (-1, s) else (r, s'))"
    by (simp add: json_dump_callback_def del: do_dump.simps)
  show ?thesis
  proof (cases "\<not> fset flags JSON_ENCODE_ANY \<and> \<not> a \<and> \<not> b")
    case False
    then show ?thesis using c do_dump_zero [OF sound_stored [OF assms(1)], where s' = s'] d by (auto simp del: do_dump.simps tree_of.simps)
  qed (use c in auto)
qed

theorem json_dump_returns_witness:
  "\<exists>r s'. json_dump_callback (\<lambda>_ _. None) 0 (snd (json_array (jheap0 :: int jheap))) 4 (\<lambda>bs s. Some (0, s @ bs)) [] 0 = Some (r, s') \<and>
     (r = 0 \<longrightarrow> tree_of (jnext (snd (json_array (jheap0 :: int jheap))) + 1) (snd (json_array (jheap0 :: int jheap))) 4 \<noteq> None)"
  by (rule json_dump_returns [OF client_sound [OF small_client]])
    (simp_all add: returns_def json_array_def json_init_def jheap0_def)

section \<open>What the encoder writes, the decoder reads\<close>

definition hex_char :: "int \<Rightarrow> int" where
  "hex_char d = (if d < 10 then 48 + d else 65 + (d - 10))"

lemma fmt_04X_digits:
  "fmt_04X v = [hex_char (v div 4096 mod 16), hex_char (v div 256 mod 16), hex_char (v div 16 mod 16), hex_char (v mod 16)]"
  by (simp add: fmt_04X_def hex_char_def numeral_eq_Suc zdiv_zmult2_eq [symmetric])

lemma unicode_loop_digit: "0 \<le> d \<Longrightarrow> d < 16 \<Longrightarrow> unicode_loop (hex_char d # r) (Suc k) v = unicode_loop r k (push_bit 4 v + d)"
  by (auto simp: hex_char_def l_isdigit_def l_islower_def l_isupper_def Let_def)

lemma unicode_loop_digits:
  assumes "0 \<le> a" "a < 16" "0 \<le> b" "b < 16" "0 \<le> c" "c < 16" "0 \<le> d" "d < 16"
  shows "unicode_loop ([hex_char a, hex_char b, hex_char c, hex_char d] @ r) 4 0 = Some (((a * 16 + b) * 16 + c) * 16 + d)"
  using assms by (simp add: eval_nat_numeral unicode_loop_digit push_bit_eq_mult del: unicode_loop.simps(3))

lemma escape_value: "0 \<le> v \<Longrightarrow> v < 0x10000 \<Longrightarrow> decode_unicode_escape (117 # fmt_04X v @ r) = Some v"
proof -
  assume v: "0 \<le> v" "v < 0x10000"
  have d: "v div 4096 mod 16 = v div 4096" using v div_small [of v 4096 16] by simp
  have "v div 16 div 16 = v div 256" "v div 256 div 16 = v div 4096" by (simp_all add: zdiv_zmult2_eq [symmetric])
  then have 2: "v div 256 * 16 + v div 16 mod 16 = v div 16" and 3: "v div 4096 * 16 + v div 256 mod 16 = v div 256"
    using div_mult_mod_eq [of "v div 16" 16] div_mult_mod_eq [of "v div 256" 16] by simp_all
  have "((v div 4096 mod 16 * 16 + v div 256 mod 16) * 16 + v div 16 mod 16) * 16 + v mod 16 = v" by (simp only: d 2 3 div_mult_mod_eq)
  moreover have "unicode_loop (fmt_04X v @ r) 4 0 =
      Some (((v div 4096 mod 16 * 16 + v div 256 mod 16) * 16 + v div 16 mod 16) * 16 + v mod 16)"
    unfolding fmt_04X_digits by (rule unicode_loop_digits) simp_all
  ultimately have "unicode_loop (fmt_04X v @ r) 4 0 = Some v" by (simp only:)
  then show ?thesis by (simp add: decode_unicode_escape_def assert_c_def)
qed

lemma or_field: "push_bit k a OR take_bit k b = push_bit k a + take_bit k (b :: int)"
  by (rule disjunctive_add [symmetric]) (auto simp: bit_simps)

lemma surrogates:
  fixes cp :: int
  assumes "0x10000 \<le> cp" "cp \<le> 0x10FFFF"
  defines "c \<equiv> cp - 0x10000"
  shows "0xD800 OR drop_bit 10 (c AND 0xFFC00) = 0xD800 + c div 1024" "0xDC00 OR (c AND 0x3FF) = 0xDC00 + c mod 1024"
    "0 \<le> c div 1024" "c div 1024 < 1024" "0 \<le> c mod 1024" "c mod 1024 < 1024"
    "push_bit 10 (c div 1024) + c mod 1024 + 0x10000 = cp"
proof -
  have c: "0 \<le> c" "c < 1024 * 1024" using assms by simp_all
  show q: "0 \<le> c div 1024" "c div 1024 < 1024" "0 \<le> c mod 1024" "c mod 1024 < 1024" using c by simp_all
  have m: "0xFFC00 = push_bit 10 (mask 10 :: int)" "0x3FF = (mask 10 :: int)" by (simp_all add: mask_eq_exp_minus_1 push_bit_eq_mult)
  have "drop_bit 10 (c AND 0xFFC00) = drop_bit 10 c AND mask 10" unfolding m(1) by (rule bit_eqI) (auto simp: bit_simps)
  then have "drop_bit 10 (c AND 0xFFC00) = take_bit 10 (c div 1024)" by (simp add: drop_bit_eq_div take_bit_eq_mask)
  moreover have "take_bit 10 (c div 1024) = c div 1024" using q by (simp add: take_bit_eq_mod)
  moreover have "(0xD800 :: int) = push_bit 10 54" "(0xDC00 :: int) = push_bit 10 55" by (simp_all add: push_bit_eq_mult)
  moreover have "c AND 0x3FF = take_bit 10 c" unfolding m(2) by (rule take_bit_eq_mask [symmetric])
  moreover have "take_bit 10 c = c mod 1024" by (simp add: take_bit_eq_mod)
  ultimately show "0xD800 OR drop_bit 10 (c AND 0xFFC00) = 0xD800 + c div 1024" "0xDC00 OR (c AND 0x3FF) = 0xDC00 + c mod 1024"
    using or_field [of 10 54 "c div 1024"] or_field [of 10 55 c] by simp_all
  show "push_bit 10 (c div 1024) + c mod 1024 + 0x10000 = cp" using div_mult_mod_eq [of c 1024] by (simp add: push_bit_eq_mult c_def)
qed

lemma fmt_04X_length [simp]: "length (fmt_04X v) = 4"
  by (simp add: fmt_04X_digits)

lemma decode_u_bmp:
  assumes "scalar cp" "cp < 0x10000"
  shows "decode_u ([92, 117] @ fmt_04X cp @ r) = Some (Inr (enc cp, r))"
proof -
  have "utf8_encode cp = Some (enc cp)" using utf8_encode_scalar [OF assms(1)] by simp
  moreover have "0 \<le> cp" "\<not> (0xD800 \<le> cp \<and> cp \<le> 0xDFFF)" using assms(1) by (auto simp: scalar_def)
  moreover from this have "\<not> (0xD800 \<le> cp \<and> cp \<le> 0xDBFF)" "\<not> (0xDC00 \<le> cp \<and> cp \<le> 0xDFFF)" by linarith+
  ultimately show ?thesis using escape_value [of cp r] assms(2) by (cases "0xD800 \<le> cp") (simp_all add: decode_u_def Let_def)
qed

lemma decode_u_pair:
  assumes "scalar cp" "0 \<le> hi" "hi < 1024" "0 \<le> lo" "lo < 1024" "push_bit 10 hi + lo + 0x10000 = cp"
  shows "decode_u ([92, 117] @ fmt_04X (0xD800 + hi) @ [92, 117] @ fmt_04X (0xDC00 + lo) @ r) = Some (Inr (enc cp, r))"
proof -
  have e: "utf8_encode cp = Some (enc cp)" using utf8_encode_scalar [OF assms(1)] by simp
  have v: "decode_unicode_escape (117 # fmt_04X (0xD800 + hi) @ [92, 117] @ fmt_04X (0xDC00 + lo) @ r) = Some (0xD800 + hi)"
    "decode_unicode_escape (117 # fmt_04X (0xDC00 + lo) @ r) = Some (0xDC00 + lo)"
    using escape_value assms(2-5) by simp_all
  then show ?thesis using e assms(2-6) by (simp add: decode_u_def Let_def)
qed

lemma decode_plain: "\<forall>b \<in> set bs. b \<noteq> 34 \<and> b \<noteq> 92 \<Longrightarrow> decode_string (bs @ r) t = decode_string r (t @ bs)"
proof (induction bs arbitrary: t)
  case (Cons b bs)
  then show ?case by (simp add: decode_string.simps [of "b # bs @ r"])
qed simp

lemma enc_plain:
  assumes "scalar cp" "cp \<noteq> 34" "cp \<noteq> 92" "b \<in> set (enc cp)"
  shows "b \<noteq> 34 \<and> b \<noteq> 92"
proof (cases "cp < 0x80")
  case True
  then show ?thesis using assms by (auto simp: enc_simps scalar_def)
next
  case False
  have "0x80 \<le> b"
    using assms(1)
  proof (cases rule: scalar_cases)
    case 2
    then show ?thesis using assms(4) by (auto simp: enc_simps pos_imp_zdiv_nonneg_iff)
  next
    case 3
    then show ?thesis using assms(4) by (auto simp: enc_simps pos_imp_zdiv_nonneg_iff)
  next
    case 4
    then show ?thesis using assms(4) by (auto simp: enc_simps pos_imp_zdiv_nonneg_iff)
  qed (use False in simp)
  then show ?thesis by simp
qed

lemma decode_escape:
  assumes "scalar cp"
  shows "decode_string (escape_text cp @ r) t = decode_string r (t @ enc cp)"
proof -
  have short: "decode_string ([92, d] @ r) t = decode_string r (t @ [b])" if "d \<noteq> 117" "decode_short d = Some b" for d b
    using that by (simp add: decode_string.simps [of "92 # d # r"])
  have long: "decode_string ([92, 117] @ q) t = decode_string r (t @ enc cp)" if "decode_u ([92, 117] @ q) = Some (Inr (enc cp, r))" for q
    using that by (simp add: decode_string.simps [of "92 # 117 # q"])
  consider "cp \<in> {92, 34, 8, 12, 10, 13, 9, 47}" | "cp \<notin> {92, 34, 8, 12, 10, 13, 9, 47}" "cp < 0x10000" | "0x10000 \<le> cp" by fastforce
  then show ?thesis
  proof cases
    case 1
    then show ?thesis by (auto simp: escape_text_def enc_simps decode_short_def intro!: short [simplified])
  next
    case 2
    then have "escape_text cp @ r = [92, 117] @ fmt_04X cp @ r" by (simp add: escape_text_def)
    then show ?thesis using long [OF decode_u_bmp [OF assms 2(2)]] by (simp only:)
  next
    case 3
    then have b: "cp \<le> 0x10FFFF" using assms by (simp add: scalar_def)
    note S = surrogates [OF 3 b]
    let ?c = "cp - 0x10000"
    have "escape_text cp @ r = [92, 117] @ fmt_04X (0xD800 + ?c div 1024) @ [92, 117] @ fmt_04X (0xDC00 + ?c mod 1024) @ r"
      using 3 S(1,2) by (simp add: escape_text_def Let_def)
    then show ?thesis using long [OF decode_u_pair [OF assms S(3-7)]] by (simp only:)
  qed
qed

lemma decode_codepoints:
  "\<forall>cp \<in> set cps. scalar cp \<Longrightarrow> decode_string (concat (map (cp_text flags) cps) @ 34 # r) t = Some (Inr (t @ enc_all cps))"
proof (induction cps arbitrary: t)
  case Nil
  then show ?case by (simp add: decode_string.simps)
next
  case (Cons cp cps)
  let ?rest = "concat (map (cp_text flags) cps) @ 34 # r"
  have "decode_string (cp_text flags cp @ ?rest) t = decode_string ?rest (t @ enc cp)"
  proof (cases "needs_escape flags cp")
    case True
    then show ?thesis using decode_escape Cons.prems by (simp add: cp_text_esc)
  next
    case False
    then have "\<forall>b \<in> set (enc cp). b \<noteq> 34 \<and> b \<noteq> 92" using Cons.prems enc_plain [of cp] by (auto simp: needs_escape_def)
    then show ?thesis using False decode_plain by (simp add: cp_text_esc)
  qed
  then show ?case using Cons by simp
qed

text \<open>
  C15. Strings survive the way out and back. What \<^verbatim>\<open>dump_string\<close> writes for a UTF-8 string, with any flags (escapes, surrogate pairs of
  \<^verbatim>\<open>JSON_ENSURE_ASCII\<close>, \<^verbatim>\<open>JSON_ESCAPE_SLASH\<close>), \<^verbatim>\<open>lex_scan_string\<close> decodes to the same bytes: here \<^verbatim>\<open>dump_string\<close> writes
  into the caller's buffer of \<^verbatim>\<open>json_dumpb\<close>, which has room for it, and the decoder's second pass runs over the buffer after the opening quote.
\<close>

theorem string_roundtrip:
  assumes "utf8_text s" "length (string_text flags s) \<le> sz" "sz \<le> length data" "sz < 2 ^ 32"
  shows "\<exists>buf. dump_string flags dump_to_buffer s \<lparr>b_size = sz, b_used = 0, b_data = data\<rparr> = Some (0, buf) \<and>
    decode_string (drop 1 (b_data buf)) [] = Some (Inr s)"
proof -
  let ?buf = "\<lparr>b_size = sz, b_used = 0, b_data = data\<rparr>" let ?t = "string_text flags s"
  obtain cps where cps: "\<forall>cp \<in> set cps. scalar cp" "s = enc_all cps" "codepoints s = cps" using assms(1) by (rule utf8_textE)
  have "buf_holds sz data ?buf []" using assms(3) by (simp add: buf_holds_def)
  from bs.writes_emits [OF bs.writes_string [OF assms(1), where flags = flags] this] assms(2,4) obtain buf where
    b: "dump_string flags dump_to_buffer s ?buf = Some (0, buf)" "buf_holds sz data buf ?t" by (auto simp: bs.emits_def)
  then have "b_data buf = ?t @ drop (length ?t) data" using assms(2) by (auto simp: buf_holds_def)
  then have "drop 1 (b_data buf) = concat (map (cp_text flags) cps) @ 34 # drop (length ?t) data" by (simp add: string_text_def cps(3))
  with b(1) decode_codepoints [OF cps(1)] cps(2) show ?thesis by simp
qed

theorem string_roundtrip_witness:
  "\<exists>buf. dump_string JSON_ENSURE_ASCII dump_to_buffer [47, 10, 0xF0, 0x9D, 0x84, 0x9E] \<lparr>b_size = 40, b_used = 0, b_data = replicate 40 0\<rparr> = Some (0, buf) \<and>
     decode_string (drop 1 (b_data buf)) [] = Some (Inr [47, 10, 0xF0, 0x9D, 0x84, 0x9E])"
proof (rule string_roundtrip)
  show "utf8_text [47, 10, 0xF0, 0x9D, 0x84, 0x9E]" by code_simp
  have "length (string_text JSON_ENSURE_ASCII [47, 10, 0xF0, 0x9D, 0x84, 0x9E]) = 17" by code_simp
  then show "length (string_text JSON_ENSURE_ASCII [47, 10, 0xF0, 0x9D, 0x84, 0x9E]) \<le> 40" by simp
qed simp_all

text \<open>
  The result of \<^verbatim>\<open>dump_string\<close> for a key is not looked at. An object with a key that is not UTF-8, which
  \<^verbatim>\<open>json_object_set_new_nocheck\<close> stores, is dumped with result 0 and a text that is not JSON: the key is the opening quote alone. As the
  value of a member the same bytes are refused.
\<close>

theorem bad_key_is_written:
  "let (p, h1) = json_object (jheap0 :: int jheap) in
   (case json_object_set_new_nocheck p (Some [255]) json_true h1 of
      None \<Rightarrow> False
    | Some (r, h2) \<Rightarrow> r = 0 \<and>
        json_dump_callback (\<lambda>_ _. None) 0 h2 p (\<lambda>bs s. Some (0, s @ bs)) [] 0 = Some (0, str ''{\": true}'')) \<and>
   dump_string 0 (\<lambda>bs s. Some (0, s @ bs)) [255] [] = Some (-1, [34])"
  by code_simp

end
