(* ===== verification/PppFsm.thy ===== *)
theory PppFsm
  imports Prelude
begin

text \<open>
  The state machine of the PPP control protocols, \<^verbatim>\<open>lwip-2.1.3/src/netif/ppp/fsm.c\<close>.

  The world of one machine is its \<^verbatim>\<open>fsm\<close> structure, the number of its entries in the list of timeouts, the state of the
  protocol it serves, the packets handed to \<^verbatim>\<open>ppp_write\<close> (oldest first) and a log of the notifications of the upper layer
  with the state at that moment. The callbacks are those of the protocol (LCP, IPCP, ...); they get the whole
  world, because they may call the machine again. \<open>pbuf_ok n\<close> says whether the allocation number \<open>n\<close>
  gives one contiguous buffer. \<open>fault\<close> marks a write outside a buffer or a failed assertion.
\<close>

section \<open>Data\<close>

datatype fsm_state = PPP_FSM_INITIAL | PPP_FSM_STARTING | PPP_FSM_CLOSED | PPP_FSM_STOPPED | PPP_FSM_CLOSING
  | PPP_FSM_STOPPING | PPP_FSM_REQSENT | PPP_FSM_ACKRCVD | PPP_FSM_ACKSENT | PPP_FSM_OPENED

definition HEADERLEN :: int where "HEADERLEN = 4"
definition PPP_HDRLEN :: int where "PPP_HDRLEN = 4"
definition CONFREQ :: int where "CONFREQ = 1"
definition CONFACK :: int where "CONFACK = 2"
definition CONFNAK :: int where "CONFNAK = 3"
definition CONFREJ :: int where "CONFREJ = 4"
definition TERMREQ :: int where "TERMREQ = 5"
definition TERMACK :: int where "TERMACK = 6"
definition CODEREJ :: int where "CODEREJ = 7"

definition OPT_PASSIVE :: u8 where "OPT_PASSIVE = 1"
definition OPT_RESTART :: u8 where "OPT_RESTART = 2"
definition OPT_SILENT :: u8 where "OPT_SILENT = 4"

record fsm_t =
  term_reason :: "int list option"
  seen_ack :: bool
  protocol :: u16
  state :: fsm_state
  flags :: u8
  fsm_id :: u8
  reqid :: u8
  retransmits :: u8
  nakloops :: u8
  rnakloops :: u8
  maxnakloops :: u8
  term_reason_len :: u8

datatype notice = Up | Down | Starting | Finished

record 'p world =
  w_fsm :: fsm_t
  timers :: nat
  proto :: 'p
  sent :: "int list list"
  calls :: "(notice \<times> fsm_state) list"
  nalloc :: nat
  fault :: bool

text \<open>A callback is None for NULL. \<open>cb_addci\<close> is given the room and returns the bytes it wrote and the length it
  reports; \<open>cb_reqci\<close> returns its code and the options it left in the packet.\<close>

record 'p callbacks =
  cb_resetci :: "('p world \<Rightarrow> 'p world) option"
  cb_cilen :: "('p world \<Rightarrow> int \<times> 'p world) option"
  cb_addci :: "('p world \<Rightarrow> int \<Rightarrow> int list \<times> int \<times> 'p world) option"
  cb_ackci :: "('p world \<Rightarrow> int list \<Rightarrow> bool \<times> 'p world) option"
  cb_nakci :: "('p world \<Rightarrow> int list \<Rightarrow> bool \<Rightarrow> int \<times> 'p world) option"
  cb_rejci :: "('p world \<Rightarrow> int list \<Rightarrow> int \<times> 'p world) option"
  cb_reqci :: "('p world \<Rightarrow> int list \<Rightarrow> bool \<Rightarrow> int \<times> int list \<times> 'p world) option"
  cb_up :: "('p world \<Rightarrow> 'p world) option"
  cb_down :: "('p world \<Rightarrow> 'p world) option"
  cb_starting :: "('p world \<Rightarrow> 'p world) option"
  cb_finished :: "('p world \<Rightarrow> 'p world) option"
  cb_retransmit :: "('p world \<Rightarrow> 'p world) option"
  cb_extcode :: "('p world \<Rightarrow> int \<Rightarrow> int \<Rightarrow> int list \<Rightarrow> bool \<times> 'p world) option"

record 'p env =
  cbs :: "'p callbacks"
  fsm_max_conf_req_transmits :: u8
  fsm_max_term_transmits :: u8
  fsm_max_nak_loops :: u8
  peer_mru :: u16
  pbuf_ok :: "nat \<Rightarrow> bool"

section \<open>Helpers\<close>

definition upd :: "(fsm_t \<Rightarrow> fsm_t) \<Rightarrow> 'p world \<Rightarrow> 'p world" where
  "upd g w = w\<lparr>w_fsm := g (w_fsm w)\<rparr>"

abbreviation st :: "'p world \<Rightarrow> fsm_state" where
  "st w \<equiv> state (w_fsm w)"

definition goto :: "fsm_state \<Rightarrow> 'p world \<Rightarrow> 'p world" where
  "goto s w = upd (\<lambda>f. f\<lparr>state := s\<rparr>) w"

definition has_flag :: "u8 \<Rightarrow> 'p world \<Rightarrow> bool" where
  "has_flag b w \<longleftrightarrow> flags (w_fsm w) AND b \<noteq> 0"

definition run_cb :: "('p world \<Rightarrow> 'p world) option \<Rightarrow> 'p world \<Rightarrow> 'p world" where
  "run_cb c w = (case c of None \<Rightarrow> w | Some g \<Rightarrow> g w)"

definition notify :: "notice \<Rightarrow> ('p world \<Rightarrow> 'p world) option \<Rightarrow> 'p world \<Rightarrow> 'p world" where
  "notify n c w = (case c of None \<Rightarrow> w | Some g \<Rightarrow> g (w\<lparr>calls := calls w @ [(n, st w)]\<rparr>))"

text \<open>\<^verbatim>\<open>sys_untimeout\<close> removes the first matching entry.\<close>

definition UNTIMEOUT :: "'p world \<Rightarrow> 'p world" where
  "UNTIMEOUT w = w\<lparr>timers := timers w - 1\<rparr>"

definition TIMEOUT :: "'p world \<Rightarrow> 'p world" where
  "TIMEOUT w = (let w1 = UNTIMEOUT w in w1\<lparr>timers := timers w1 + 1\<rparr>)"

definition putshort :: "int \<Rightarrow> int list" where
  "putshort s = [drop_bit 8 s AND 255, s AND 255]"

definition MAKEHEADER :: "u16 \<Rightarrow> int list" where
  "MAKEHEADER t = [0xFF, 0x03] @ putshort (uint t)"

text \<open>\<^verbatim>\<open>pbuf_alloc\<close> of \<open>size\<close> bytes, cut to 16 bits; writing \<open>bytes\<close> into it and \<^verbatim>\<open>ppp_write\<close>.\<close>

definition write_packet :: "int \<Rightarrow> int list \<Rightarrow> 'p world \<Rightarrow> 'p world" where
  "write_packet sz bytes w =
     (if int (length bytes) \<le> sz mod 65536 then w\<lparr>sent := sent w @ [bytes]\<rparr> else w\<lparr>fault := True\<rparr>)"

section \<open>Sending\<close>

definition fsm_sdata :: "'p env \<Rightarrow> int \<Rightarrow> u8 \<Rightarrow> int list \<Rightarrow> 'p world \<Rightarrow> 'p world" where
  "fsm_sdata E code idn data w =
     (let room = uint (peer_mru E) - HEADERLEN;
          datalen = (if int (length data) > room then room else int (length data));
          outlen = datalen + HEADERLEN;
          w1 = w\<lparr>nalloc := nalloc w + 1\<rparr>
      in if \<not> pbuf_ok E (nalloc w) then w1
         else if datalen < 0 then w1\<lparr>fault := True\<rparr>
         else write_packet (outlen + PPP_HDRLEN)
                (MAKEHEADER (protocol (w_fsm w)) @ [code AND 255, uint idn] @ putshort outlen @ take (nat datalen) data) w1)"

definition negotiating :: "fsm_state \<Rightarrow> bool" where
  "negotiating s \<longleftrightarrow> s = PPP_FSM_REQSENT \<or> s = PPP_FSM_ACKRCVD \<or> s = PPP_FSM_ACKSENT"

definition sconfreq_cilen :: "'p env \<Rightarrow> 'p world \<Rightarrow> int \<times> 'p world" where
  "sconfreq_cilen E w =
     (case (cb_cilen (cbs E), cb_addci (cbs E)) of
        (Some cilen, Some _) \<Rightarrow>
          (let (n, w1) = cilen w; room = uint (peer_mru E) - HEADERLEN in (if n > room then room else n, w1))
      | _ \<Rightarrow> (0, w))"

definition sconfreq_addci :: "'p env \<Rightarrow> int \<Rightarrow> 'p world \<Rightarrow> int list \<times> 'p world" where
  "sconfreq_addci E cilen w =
     (if cilen = 0 then ([], w)
      else case cb_addci (cbs E) of
        None \<Rightarrow> ([], w\<lparr>fault := True\<rparr>)
      | Some addci \<Rightarrow> (let (bs, n, w1) = addci w cilen in (bs, if n = cilen then w1 else w1\<lparr>fault := True\<rparr>)))"

definition fsm_sconfreq :: "'p env \<Rightarrow> bool \<Rightarrow> 'p world \<Rightarrow> 'p world" where
  "fsm_sconfreq E retransmit w =
     (let w1 = (if \<not> negotiating (st w)
                then upd (\<lambda>f. f\<lparr>nakloops := 0, rnakloops := 0\<rparr>) (run_cb (cb_resetci (cbs E)) w) else w);
          w2 = (if \<not> retransmit
                then upd (\<lambda>f. f\<lparr>retransmits := fsm_max_conf_req_transmits E, fsm_id := fsm_id f + 1, reqid := fsm_id f + 1\<rparr>) w1
                else w1);
          w3 = upd (\<lambda>f. f\<lparr>seen_ack := False\<rparr>) w2;
          (cilen, w4) = sconfreq_cilen E w3;
          w5 = w4\<lparr>nalloc := nalloc w4 + 1\<rparr>
      in if \<not> pbuf_ok E (nalloc w4) then w5
         else let header = MAKEHEADER (protocol (w_fsm w5)) @ [CONFREQ, uint (reqid (w_fsm w5))] @ putshort (cilen + HEADERLEN);
                  (bs, w6) = sconfreq_addci E cilen w5;
                  w7 = write_packet (cilen + HEADERLEN + PPP_HDRLEN) (header @ bs) w6;
                  w8 = upd (\<lambda>f. f\<lparr>retransmits := retransmits f - 1\<rparr>) w7
              in TIMEOUT w8)"

section \<open>Events of the layers\<close>

definition fsm_init :: "'p env \<Rightarrow> 'p world \<Rightarrow> 'p world" where
  "fsm_init E w = upd (\<lambda>f. f\<lparr>state := PPP_FSM_INITIAL, flags := 0, fsm_id := 0, maxnakloops := fsm_max_nak_loops E,
     term_reason_len := 0\<rparr>) w"

definition start_negotiation :: "'p env \<Rightarrow> 'p world \<Rightarrow> 'p world" where
  "start_negotiation E w =
     (if has_flag OPT_SILENT w then goto PPP_FSM_STOPPED w else goto PPP_FSM_REQSENT (fsm_sconfreq E False w))"

definition fsm_lowerup :: "'p env \<Rightarrow> 'p world \<Rightarrow> 'p world" where
  "fsm_lowerup E w =
     (case st w of
        PPP_FSM_INITIAL \<Rightarrow> goto PPP_FSM_CLOSED w
      | PPP_FSM_STARTING \<Rightarrow> start_negotiation E w
      | _ \<Rightarrow> w)"

definition fsm_lowerdown :: "'p env \<Rightarrow> 'p world \<Rightarrow> 'p world" where
  "fsm_lowerdown E w =
     (case st w of
        PPP_FSM_CLOSED \<Rightarrow> goto PPP_FSM_INITIAL w
      | PPP_FSM_STOPPED \<Rightarrow> notify Starting (cb_starting (cbs E)) (goto PPP_FSM_STARTING w)
      | PPP_FSM_CLOSING \<Rightarrow> UNTIMEOUT (goto PPP_FSM_INITIAL w)
      | PPP_FSM_STOPPING \<Rightarrow> UNTIMEOUT (goto PPP_FSM_STARTING w)
      | PPP_FSM_REQSENT \<Rightarrow> UNTIMEOUT (goto PPP_FSM_STARTING w)
      | PPP_FSM_ACKRCVD \<Rightarrow> UNTIMEOUT (goto PPP_FSM_STARTING w)
      | PPP_FSM_ACKSENT \<Rightarrow> UNTIMEOUT (goto PPP_FSM_STARTING w)
      | PPP_FSM_OPENED \<Rightarrow> goto PPP_FSM_STARTING (notify Down (cb_down (cbs E)) w)
      | _ \<Rightarrow> w)"

definition restart :: "'p env \<Rightarrow> 'p world \<Rightarrow> 'p world" where
  "restart E w = (if has_flag OPT_RESTART w then fsm_lowerup E (fsm_lowerdown E w) else w)"

definition fsm_open :: "'p env \<Rightarrow> 'p world \<Rightarrow> 'p world" where
  "fsm_open E w =
     (case st w of
        PPP_FSM_INITIAL \<Rightarrow> notify Starting (cb_starting (cbs E)) (goto PPP_FSM_STARTING w)
      | PPP_FSM_CLOSED \<Rightarrow> start_negotiation E w
      | PPP_FSM_CLOSING \<Rightarrow> restart E (goto PPP_FSM_STOPPING w)
      | PPP_FSM_STOPPED \<Rightarrow> restart E w
      | PPP_FSM_OPENED \<Rightarrow> restart E w
      | _ \<Rightarrow> w)"

definition send_termreq :: "'p env \<Rightarrow> 'p world \<Rightarrow> 'p world" where
  "send_termreq E w =
     (let w1 = upd (\<lambda>f. f\<lparr>fsm_id := fsm_id f + 1, reqid := fsm_id f + 1\<rparr>) w;
          f = w_fsm w1
      in fsm_sdata E TERMREQ (reqid f) (case term_reason f of None \<Rightarrow> [] | Some s \<Rightarrow> take (unat (term_reason_len f)) s) w1)"

definition terminate_layer :: "'p env \<Rightarrow> fsm_state \<Rightarrow> 'p world \<Rightarrow> 'p world" where
  "terminate_layer E nextstate w =
     (let w1 = (if st w \<noteq> PPP_FSM_OPENED then UNTIMEOUT w else notify Down (cb_down (cbs E)) w);
          w2 = upd (\<lambda>f. f\<lparr>retransmits := fsm_max_term_transmits E\<rparr>) w1;
          w3 = send_termreq E w2
      in if retransmits (w_fsm w3) = 0
         then notify Finished (cb_finished (cbs E))
                (goto (if nextstate = PPP_FSM_CLOSING then PPP_FSM_CLOSED else PPP_FSM_STOPPED) w3)
         else goto nextstate (upd (\<lambda>f. f\<lparr>retransmits := retransmits f - 1\<rparr>) (TIMEOUT w3)))"

definition fsm_close :: "'p env \<Rightarrow> int list option \<Rightarrow> 'p world \<Rightarrow> 'p world" where
  "fsm_close E reason w0 =
     (let w = upd (\<lambda>f. f\<lparr>term_reason := reason,
            term_reason_len := (case reason of None \<Rightarrow> 0 | Some s \<Rightarrow> of_nat (min (length s) 0xFF))\<rparr>) w0
      in case st w of
           PPP_FSM_STARTING \<Rightarrow> goto PPP_FSM_INITIAL w
         | PPP_FSM_STOPPED \<Rightarrow> goto PPP_FSM_CLOSED w
         | PPP_FSM_STOPPING \<Rightarrow> goto PPP_FSM_CLOSING w
         | PPP_FSM_REQSENT \<Rightarrow> terminate_layer E PPP_FSM_CLOSING w
         | PPP_FSM_ACKRCVD \<Rightarrow> terminate_layer E PPP_FSM_CLOSING w
         | PPP_FSM_ACKSENT \<Rightarrow> terminate_layer E PPP_FSM_CLOSING w
         | PPP_FSM_OPENED \<Rightarrow> terminate_layer E PPP_FSM_CLOSING w
         | _ \<Rightarrow> w)"

definition fsm_timeout :: "'p env \<Rightarrow> 'p world \<Rightarrow> 'p world" where
  "fsm_timeout E w =
     (if st w = PPP_FSM_CLOSING \<or> st w = PPP_FSM_STOPPING
      then (if retransmits (w_fsm w) = 0
            then notify Finished (cb_finished (cbs E)) (goto (if st w = PPP_FSM_CLOSING then PPP_FSM_CLOSED else PPP_FSM_STOPPED) w)
            else upd (\<lambda>f. f\<lparr>retransmits := retransmits f - 1\<rparr>) (TIMEOUT (send_termreq E w)))
      else if negotiating (st w)
      then (if retransmits (w_fsm w) = 0
            then (let w1 = goto PPP_FSM_STOPPED w
                  in if \<not> has_flag OPT_PASSIVE w1 then notify Finished (cb_finished (cbs E)) w1 else w1)
            else (let w1 = fsm_sconfreq E True (run_cb (cb_retransmit (cbs E)) w)
                  in if st w1 = PPP_FSM_ACKRCVD then goto PPP_FSM_REQSENT w1 else w1))
      else w)"

section \<open>Received packets\<close>

definition rconfreq_answer :: "'p env \<Rightarrow> u8 \<Rightarrow> int list \<Rightarrow> 'p world \<Rightarrow> 'p world" where
  "rconfreq_answer E idn inp w =
     (let (code, opts, w1) = (case cb_reqci (cbs E) of
            Some reqci \<Rightarrow> reqci w inp (nakloops (w_fsm w) \<ge> maxnakloops (w_fsm w))
          | None \<Rightarrow> (if inp \<noteq> [] then CONFREJ else CONFACK, inp, w));
          w2 = fsm_sdata E code idn opts w1
      in if code = CONFACK
         then upd (\<lambda>f. f\<lparr>nakloops := 0\<rparr>)
           (if st w2 = PPP_FSM_ACKRCVD then notify Up (cb_up (cbs E)) (goto PPP_FSM_OPENED (UNTIMEOUT w2))
            else goto PPP_FSM_ACKSENT w2)
         else (let w3 = (if st w2 \<noteq> PPP_FSM_ACKRCVD then goto PPP_FSM_REQSENT w2 else w2)
               in if code = CONFNAK then upd (\<lambda>f. f\<lparr>nakloops := nakloops f + 1\<rparr>) w3 else w3))"

definition fsm_rconfreq :: "'p env \<Rightarrow> u8 \<Rightarrow> int list \<Rightarrow> 'p world \<Rightarrow> 'p world" where
  "fsm_rconfreq E idn inp w =
     (case st w of
        PPP_FSM_CLOSED \<Rightarrow> fsm_sdata E TERMACK idn [] w
      | PPP_FSM_CLOSING \<Rightarrow> w
      | PPP_FSM_STOPPING \<Rightarrow> w
      | PPP_FSM_OPENED \<Rightarrow> rconfreq_answer E idn inp (goto PPP_FSM_REQSENT (fsm_sconfreq E False (notify Down (cb_down (cbs E)) w)))
      | PPP_FSM_STOPPED \<Rightarrow> rconfreq_answer E idn inp (goto PPP_FSM_REQSENT (fsm_sconfreq E False w))
      | _ \<Rightarrow> rconfreq_answer E idn inp w)"

definition fsm_rconfack :: "'p env \<Rightarrow> u8 \<Rightarrow> int list \<Rightarrow> 'p world \<Rightarrow> 'p world" where
  "fsm_rconfack E idn inp w =
     (if idn \<noteq> reqid (w_fsm w) \<or> seen_ack (w_fsm w) then w
      else let (ok, w1) = (case cb_ackci (cbs E) of Some ackci \<Rightarrow> ackci w inp | None \<Rightarrow> (inp = [], w))
        in if \<not> ok then w1
           else let w2 = upd (\<lambda>f. f\<lparr>seen_ack := True, rnakloops := 0\<rparr>) w1
             in case st w2 of
                  PPP_FSM_CLOSED \<Rightarrow> fsm_sdata E TERMACK idn [] w2
                | PPP_FSM_STOPPED \<Rightarrow> fsm_sdata E TERMACK idn [] w2
                | PPP_FSM_REQSENT \<Rightarrow> upd (\<lambda>f. f\<lparr>retransmits := fsm_max_conf_req_transmits E\<rparr>) (goto PPP_FSM_ACKRCVD w2)
                | PPP_FSM_ACKRCVD \<Rightarrow> goto PPP_FSM_REQSENT (fsm_sconfreq E False (UNTIMEOUT w2))
                | PPP_FSM_ACKSENT \<Rightarrow> notify Up (cb_up (cbs E))
                    (upd (\<lambda>f. f\<lparr>retransmits := fsm_max_conf_req_transmits E\<rparr>) (goto PPP_FSM_OPENED (UNTIMEOUT w2)))
                | PPP_FSM_OPENED \<Rightarrow> goto PPP_FSM_REQSENT (fsm_sconfreq E False (notify Down (cb_down (cbs E)) w2))
                | _ \<Rightarrow> w2)"

text \<open>The answer of the protocol to a Nak or Reject: 0 (or no callback) for a bad packet.\<close>

definition nakrej_ret :: "'p env \<Rightarrow> int \<Rightarrow> int list \<Rightarrow> 'p world \<Rightarrow> int \<times> 'p world" where
  "nakrej_ret E code inp w =
     (if code = CONFNAK
      then (let w1 = upd (\<lambda>f. f\<lparr>rnakloops := rnakloops f + 1\<rparr>) w
            in case cb_nakci (cbs E) of
                 None \<Rightarrow> (0, w1)
               | Some nakci \<Rightarrow> nakci w1 inp (rnakloops (w_fsm w1) \<ge> maxnakloops (w_fsm w1)))
      else (let w1 = upd (\<lambda>f. f\<lparr>rnakloops := 0\<rparr>) w
            in case cb_rejci (cbs E) of None \<Rightarrow> (0, w1) | Some rejci \<Rightarrow> rejci w1 inp))"

definition fsm_rconfnakrej :: "'p env \<Rightarrow> int \<Rightarrow> u8 \<Rightarrow> int list \<Rightarrow> 'p world \<Rightarrow> 'p world" where
  "fsm_rconfnakrej E code idn inp w =
     (if idn \<noteq> reqid (w_fsm w) \<or> seen_ack (w_fsm w) then w
      else let (ret, w1) = nakrej_ret E code inp w
        in if ret = 0 then w1
           else let w2 = upd (\<lambda>f. f\<lparr>seen_ack := True\<rparr>) w1;
                    again = (\<lambda>w. if ret < 0 then goto PPP_FSM_STOPPED w else fsm_sconfreq E False w)
             in case st w2 of
                  PPP_FSM_CLOSED \<Rightarrow> fsm_sdata E TERMACK idn [] w2
                | PPP_FSM_STOPPED \<Rightarrow> fsm_sdata E TERMACK idn [] w2
                | PPP_FSM_REQSENT \<Rightarrow> again (UNTIMEOUT w2)
                | PPP_FSM_ACKSENT \<Rightarrow> again (UNTIMEOUT w2)
                | PPP_FSM_ACKRCVD \<Rightarrow> goto PPP_FSM_REQSENT (fsm_sconfreq E False (UNTIMEOUT w2))
                | PPP_FSM_OPENED \<Rightarrow> goto PPP_FSM_REQSENT (fsm_sconfreq E False (notify Down (cb_down (cbs E)) w2))
                | _ \<Rightarrow> w2)"

definition fsm_rtermreq :: "'p env \<Rightarrow> u8 \<Rightarrow> int list \<Rightarrow> 'p world \<Rightarrow> 'p world" where
  "fsm_rtermreq E idn inp w =
     fsm_sdata E TERMACK idn []
       (case st w of
          PPP_FSM_ACKRCVD \<Rightarrow> goto PPP_FSM_REQSENT w
        | PPP_FSM_ACKSENT \<Rightarrow> goto PPP_FSM_REQSENT w
        | PPP_FSM_OPENED \<Rightarrow> TIMEOUT (notify Down (cb_down (cbs E)) (goto PPP_FSM_STOPPING (upd (\<lambda>f. f\<lparr>retransmits := 0\<rparr>) w)))
        | _ \<Rightarrow> w)"

definition fsm_rtermack :: "'p env \<Rightarrow> 'p world \<Rightarrow> 'p world" where
  "fsm_rtermack E w =
     (case st w of
        PPP_FSM_CLOSING \<Rightarrow> notify Finished (cb_finished (cbs E)) (goto PPP_FSM_CLOSED (UNTIMEOUT w))
      | PPP_FSM_STOPPING \<Rightarrow> notify Finished (cb_finished (cbs E)) (goto PPP_FSM_STOPPED (UNTIMEOUT w))
      | PPP_FSM_ACKRCVD \<Rightarrow> goto PPP_FSM_REQSENT w
      | PPP_FSM_OPENED \<Rightarrow> goto PPP_FSM_REQSENT (fsm_sconfreq E False (notify Down (cb_down (cbs E)) w))
      | _ \<Rightarrow> w)"

definition fsm_rcoderej :: "int list \<Rightarrow> 'p world \<Rightarrow> 'p world" where
  "fsm_rcoderej inp w =
     (if int (length inp) < HEADERLEN then w
      else if st w = PPP_FSM_ACKRCVD then goto PPP_FSM_REQSENT w else w)"

definition fsm_protreject :: "'p env \<Rightarrow> 'p world \<Rightarrow> 'p world" where
  "fsm_protreject E w =
     (let closed = (\<lambda>w. notify Finished (cb_finished (cbs E)) (goto PPP_FSM_CLOSED w));
          stopped = (\<lambda>w. notify Finished (cb_finished (cbs E)) (goto PPP_FSM_STOPPED w))
      in case st w of
           PPP_FSM_CLOSING \<Rightarrow> closed (UNTIMEOUT w)
         | PPP_FSM_CLOSED \<Rightarrow> closed w
         | PPP_FSM_STOPPING \<Rightarrow> stopped (UNTIMEOUT w)
         | PPP_FSM_REQSENT \<Rightarrow> stopped (UNTIMEOUT w)
         | PPP_FSM_ACKRCVD \<Rightarrow> stopped (UNTIMEOUT w)
         | PPP_FSM_ACKSENT \<Rightarrow> stopped (UNTIMEOUT w)
         | PPP_FSM_STOPPED \<Rightarrow> stopped w
         | PPP_FSM_OPENED \<Rightarrow> terminate_layer E PPP_FSM_STOPPING w
         | _ \<Rightarrow> w)"

text \<open>A packet of \<open>l = length pkt\<close> bytes.\<close>

definition fsm_input :: "'p env \<Rightarrow> int list \<Rightarrow> 'p world \<Rightarrow> 'p world" where
  "fsm_input E pkt w =
     (if int (length pkt) < HEADERLEN then w
      else let code = pkt ! 0; idn = word_of_int (pkt ! 1) :: u8; len = push_bit 8 (pkt ! 2) OR (pkt ! 3);
               inp = take (nat (len - HEADERLEN)) (drop (nat HEADERLEN) pkt)
        in if len < HEADERLEN then w
           else if len > int (length pkt) then w
           else if st w = PPP_FSM_INITIAL \<or> st w = PPP_FSM_STARTING then w
           else if code = CONFREQ then fsm_rconfreq E idn inp w
           else if code = CONFACK then fsm_rconfack E idn inp w
           else if code = CONFNAK \<or> code = CONFREJ then fsm_rconfnakrej E code idn inp w
           else if code = TERMREQ then fsm_rtermreq E idn inp w
           else if code = TERMACK then fsm_rtermack E w
           else if code = CODEREJ then fsm_rcoderej inp w
           else let (known, w1) = (case cb_extcode (cbs E) of
                      None \<Rightarrow> (False, w)
                    | Some extcode \<Rightarrow> extcode w code (uint idn) inp)
             in if known then w1
                else let w2 = upd (\<lambda>f. f\<lparr>fsm_id := fsm_id f + 1\<rparr>) w1
                  in fsm_sdata E CODEREJ (fsm_id (w_fsm w2)) (take (nat len) pkt) w2)"

section \<open>The machine as a transition system\<close>

text \<open>What may happen to a machine: \<open>Expire\<close> is the end of a pending timeout, whose entry is taken out first.\<close>

datatype event = LowerUp | LowerDown | OpenEv | CloseEv "int list option" | Expire | Input "int list" | ProtReject

definition expire :: "'p env \<Rightarrow> 'p world \<Rightarrow> 'p world" where
  "expire E w = fsm_timeout E (w\<lparr>timers := timers w - 1\<rparr>)"

fun handle :: "'p env \<Rightarrow> event \<Rightarrow> 'p world \<Rightarrow> 'p world" where
  "handle E LowerUp w = fsm_lowerup E w"
| "handle E LowerDown w = fsm_lowerdown E w"
| "handle E OpenEv w = fsm_open E w"
| "handle E (CloseEv reason) w = fsm_close E reason w"
| "handle E Expire w = expire E w"
| "handle E (Input pkt) w = fsm_input E pkt w"
| "handle E ProtReject w = fsm_protreject E w"

inductive reachable :: "'p env \<Rightarrow> 'p world \<Rightarrow> bool" for E where
  init: "timers w = 0 \<Longrightarrow> reachable E (fsm_init E w)"
| step: "reachable E w \<Longrightarrow> ev = Expire \<longrightarrow> 0 < timers w \<Longrightarrow> reachable E (handle E ev w)"
| configure: "reachable E w \<Longrightarrow> reachable E (upd (\<lambda>f. f\<lparr>flags := b\<rparr>) w)"

section \<open>Timers\<close>

definition timed :: "fsm_state \<Rightarrow> bool" where
  "timed s \<longleftrightarrow> s = PPP_FSM_CLOSING \<or> s = PPP_FSM_STOPPING \<or> negotiating s"

text \<open>At most one timeout is pending, only in the states that wait for the peer; in these one is pending unless an allocation
  has failed.\<close>

definition timer_count_ok :: "'p env \<Rightarrow> nat \<Rightarrow> fsm_state \<Rightarrow> bool" where
  "timer_count_ok E n s \<longleftrightarrow> n \<le> 1 \<and> (n = 1 \<longrightarrow> timed s) \<and> ((\<forall>k. pbuf_ok E k) \<longrightarrow> timed s \<longrightarrow> n = 1)"

definition timers_ok :: "'p env \<Rightarrow> 'p world \<Rightarrow> bool" where
  "timers_ok E w \<longleftrightarrow> timer_count_ok E (timers w) (st w)"

definition unmoved :: "'p world \<Rightarrow> 'p world \<Rightarrow> bool" where
  "unmoved w w' \<longleftrightarrow> st w' = st w \<and> timers w' = timers w \<and> retransmits (w_fsm w') = retransmits (w_fsm w) \<and> flags (w_fsm w') = flags (w_fsm w)"

text \<open>What the machine relies on: the callbacks that work on options, and \<^verbatim>\<open>down\<close> and \<^verbatim>\<open>retransmit\<close>, leave the machine alone; the
  notifications and \<^verbatim>\<open>extcode\<close> may use its entry points, which keep the timers right.\<close>

definition polite :: "'p env \<Rightarrow> bool" where
  "polite E \<longleftrightarrow>
     (\<forall>g w. cb_resetci (cbs E) = Some g \<longrightarrow> unmoved w (g w)) \<and>
     (\<forall>g w. cb_cilen (cbs E) = Some g \<longrightarrow> unmoved w (snd (g w))) \<and>
     (\<forall>g w n. cb_addci (cbs E) = Some g \<longrightarrow> unmoved w (snd (snd (g w n)))) \<and>
     (\<forall>g w xs. cb_ackci (cbs E) = Some g \<longrightarrow> unmoved w (snd (g w xs))) \<and>
     (\<forall>g w xs b. cb_nakci (cbs E) = Some g \<longrightarrow> unmoved w (snd (g w xs b))) \<and>
     (\<forall>g w xs. cb_rejci (cbs E) = Some g \<longrightarrow> unmoved w (snd (g w xs))) \<and>
     (\<forall>g w xs b. cb_reqci (cbs E) = Some g \<longrightarrow> unmoved w (snd (snd (g w xs b)))) \<and>
     (\<forall>g w. cb_down (cbs E) = Some g \<longrightarrow> unmoved w (g w)) \<and>
     (\<forall>g w. cb_retransmit (cbs E) = Some g \<longrightarrow> unmoved w (g w)) \<and>
     (\<forall>g w. cb_up (cbs E) = Some g \<longrightarrow> timers_ok E w \<longrightarrow> timers_ok E (g w)) \<and>
     (\<forall>g w. cb_starting (cbs E) = Some g \<longrightarrow> timers_ok E w \<longrightarrow> timers_ok E (g w)) \<and>
     (\<forall>g w. cb_finished (cbs E) = Some g \<longrightarrow> timers_ok E w \<longrightarrow> timers_ok E (g w)) \<and>
     (\<forall>g w c i xs. cb_extcode (cbs E) = Some g \<longrightarrow> timers_ok E w \<longrightarrow> timers_ok E (snd (g w c i xs)))"

lemma politeD:
  assumes "polite E"
  shows "cb_resetci (cbs E) = Some g1 \<Longrightarrow> unmoved w (g1 w)" "cb_cilen (cbs E) = Some g2 \<Longrightarrow> unmoved w (snd (g2 w))"
    "cb_addci (cbs E) = Some g3 \<Longrightarrow> unmoved w (snd (snd (g3 w n)))" "cb_ackci (cbs E) = Some g4 \<Longrightarrow> unmoved w (snd (g4 w xs))"
    "cb_nakci (cbs E) = Some g5 \<Longrightarrow> unmoved w (snd (g5 w xs b))" "cb_rejci (cbs E) = Some g6 \<Longrightarrow> unmoved w (snd (g6 w xs))"
    "cb_reqci (cbs E) = Some g7 \<Longrightarrow> unmoved w (snd (snd (g7 w xs b)))" "cb_down (cbs E) = Some g8 \<Longrightarrow> unmoved w (g8 w)"
    "cb_retransmit (cbs E) = Some g9 \<Longrightarrow> unmoved w (g9 w)"
    "cb_up (cbs E) = Some ga \<Longrightarrow> timers_ok E w \<Longrightarrow> timers_ok E (ga w)"
    "cb_starting (cbs E) = Some gb \<Longrightarrow> timers_ok E w \<Longrightarrow> timers_ok E (gb w)"
    "cb_finished (cbs E) = Some gc \<Longrightarrow> timers_ok E w \<Longrightarrow> timers_ok E (gc w)"
    "cb_extcode (cbs E) = Some gd \<Longrightarrow> timers_ok E w \<Longrightarrow> timers_ok E (snd (gd w c i xs))"
  using assms unfolding polite_def by simp_all

lemma unmoved_refl [simp]: "unmoved w w"
  by (simp add: unmoved_def)

lemma unmoved_trans: "unmoved w w1 \<Longrightarrow> unmoved w1 w2 \<Longrightarrow> unmoved w w2"
  by (simp add: unmoved_def)

lemma unmovedD:
  assumes "unmoved w w'"
  shows "st w' = st w" "timers w' = timers w" "retransmits (w_fsm w') = retransmits (w_fsm w)" "flags (w_fsm w') = flags (w_fsm w)"
  using assms by (simp_all add: unmoved_def)

lemma unmoved_upd [simp]:
  "unmoved w (upd (\<lambda>f. f\<lparr>nakloops := a f, rnakloops := b f\<rparr>) w)" "unmoved w (upd (\<lambda>f. f\<lparr>nakloops := a f\<rparr>) w)"
  "unmoved w (upd (\<lambda>f. f\<lparr>rnakloops := b f\<rparr>) w)" "unmoved w (upd (\<lambda>f. f\<lparr>seen_ack := s f\<rparr>) w)" "unmoved w (upd (\<lambda>f. f\<lparr>seen_ack := s f, rnakloops := b f\<rparr>) w)"
  "unmoved w (upd (\<lambda>f. f\<lparr>fsm_id := c f, reqid := d f\<rparr>) w)" "unmoved w (upd (\<lambda>f. f\<lparr>fsm_id := c f\<rparr>) w)"
  "unmoved w (upd (\<lambda>f. f\<lparr>term_reason := e f, term_reason_len := l f\<rparr>) w)"
  "unmoved w (w\<lparr>nalloc := k\<rparr>)" "unmoved w (w\<lparr>fault := x\<rparr>)" "unmoved w (w\<lparr>sent := y\<rparr>)" "unmoved w (w\<lparr>calls := z\<rparr>)"
  by (simp_all add: unmoved_def upd_def)

text \<open>How the primitive steps change what matters.\<close>

lemma fsm_effects [simp]:
  "st (goto s w) = s" "timers (goto s w) = timers w" "retransmits (w_fsm (goto s w)) = retransmits (w_fsm w)" "flags (w_fsm (goto s w)) = flags (w_fsm w)"
  "st (UNTIMEOUT w) = st w" "timers (UNTIMEOUT w) = timers w - 1" "w_fsm (UNTIMEOUT w) = w_fsm w"
  "st (TIMEOUT w) = st w" "timers (TIMEOUT w) = timers w - 1 + 1" "w_fsm (TIMEOUT w) = w_fsm w"
  "timers (upd g w) = timers w" "w_fsm (upd g w) = g (w_fsm w)"
  by (simp_all add: goto_def upd_def UNTIMEOUT_def TIMEOUT_def Let_def)

lemma has_flag_unmoved: "unmoved w w' \<Longrightarrow> has_flag b w' = has_flag b w"
  by (simp add: has_flag_def unmoved_def)

lemma write_packet_unmoved [simp]: "unmoved w (write_packet n bs w)"
  by (simp add: write_packet_def)

lemma fsm_sdata_unmoved [simp]: "unmoved w (fsm_sdata E c i d w)"
  unfolding fsm_sdata_def Let_def by (auto intro: unmoved_trans [OF _ write_packet_unmoved] simp: unmoved_def [of w "w\<lparr>nalloc := k, fault := True\<rparr>" for k])

lemma send_termreq_unmoved [simp]: "unmoved w (send_termreq E w)"
  unfolding send_termreq_def Let_def by (rule unmoved_trans [OF _ fsm_sdata_unmoved]) simp

lemma notify_down_unmoved [simp]: "polite E \<Longrightarrow> unmoved w (notify n (cb_down (cbs E)) w)"
  using unmoved_trans [OF unmoved_upd(12) politeD(8)] by (auto simp: notify_def split: option.splits)

lemma run_cb_unmoved [simp]:
  "polite E \<Longrightarrow> unmoved w (run_cb (cb_resetci (cbs E)) w)" "polite E \<Longrightarrow> unmoved w (run_cb (cb_retransmit (cbs E)) w)"
  by (auto simp: run_cb_def split: option.splits intro: politeD)

lemma sconfreq_cilen_unmoved:
  assumes "polite E" "sconfreq_cilen E w = (n, w')"
  shows "unmoved w w'"
proof (cases "cb_cilen (cbs E)")
  case None
  then show ?thesis using assms(2) by (simp add: sconfreq_cilen_def)
next
  case (Some g)
  have "unmoved w (snd (g w))" by (rule politeD(2) [OF assms(1) Some])
  then show ?thesis using assms(2) Some by (auto simp: sconfreq_cilen_def Let_def split: option.splits prod.splits)
qed

lemma sconfreq_addci_unmoved:
  assumes "polite E" "sconfreq_addci E n w = (bs, w')"
  shows "unmoved w w'"
proof (cases "cb_addci (cbs E)")
  case None
  then show ?thesis using assms(2) by (auto simp: sconfreq_addci_def split: if_splits)
next
  case (Some g)
  have "unmoved w (snd (snd (g w n)))" by (rule politeD(3) [OF assms(1) Some])
  then show ?thesis using assms(2) Some unmoved_trans [OF _ unmoved_upd(10)]
    by (auto simp: sconfreq_addci_def Let_def split: prod.splits if_splits)
qed

lemma sconfreq_effect:
  assumes P: "polite E"
  shows "\<exists>ok. ((\<forall>k. pbuf_ok E k) \<longrightarrow> ok) \<and> ((\<forall>k. \<not> pbuf_ok E k) \<longrightarrow> \<not> ok) \<and> st (fsm_sconfreq E r w) = st w \<and> flags (w_fsm (fsm_sconfreq E r w)) = flags (w_fsm w) \<and>
    timers (fsm_sconfreq E r w) = (if ok then timers w - 1 + 1 else timers w) \<and>
    retransmits (w_fsm (fsm_sconfreq E r w)) =
      (if r then retransmits (w_fsm w) else fsm_max_conf_req_transmits E) - (if ok then 1 else 0)"
proof -
  define w1 where "w1 = (if \<not> negotiating (st w) then upd (\<lambda>f. f\<lparr>nakloops := 0, rnakloops := 0\<rparr>) (run_cb (cb_resetci (cbs E)) w) else w)"
  define w2 where "w2 = (if \<not> r then upd (\<lambda>f. f\<lparr>retransmits := fsm_max_conf_req_transmits E, fsm_id := fsm_id f + 1, reqid := fsm_id f + 1\<rparr>) w1 else w1)"
  define w3 where "w3 = upd (\<lambda>f. f\<lparr>seen_ack := False\<rparr>) w2"
  obtain cilen w4 where w4: "sconfreq_cilen E w3 = (cilen, w4)" by (cases "sconfreq_cilen E w3")
  define w5 where "w5 = w4\<lparr>nalloc := nalloc w4 + 1\<rparr>"
  obtain bs w6 where w6: "sconfreq_addci E cilen w5 = (bs, w6)" by (cases "sconfreq_addci E cilen w5")
  have k1: "unmoved w w1" unfolding w1_def using unmoved_trans [OF run_cb_unmoved(1) [OF P] unmoved_upd(1)] by auto
  have k2: "st w2 = st w" "timers w2 = timers w" "flags (w_fsm w2) = flags (w_fsm w)"
    "retransmits (w_fsm w2) = (if r then retransmits (w_fsm w) else fsm_max_conf_req_transmits E)"
    using unmovedD [OF k1] by (simp_all add: w2_def)
  have "unmoved w2 w3" by (simp add: w3_def)
  moreover have "unmoved w3 w4" by (rule sconfreq_cilen_unmoved [OF P w4])
  moreover have "unmoved w4 w5" by (simp add: w5_def)
  ultimately have k5: "unmoved w2 w5" by (meson unmoved_trans)
  have k6: "unmoved w5 w6" by (rule sconfreq_addci_unmoved [OF P w6])
  show ?thesis
  proof (cases "pbuf_ok E (nalloc w4)")
    case False
    then have "fsm_sconfreq E r w = w5"
      unfolding fsm_sconfreq_def Let_def w1_def [symmetric] w2_def [symmetric] w3_def [symmetric] by (simp add: w4 w5_def)
    then show ?thesis using False unmovedD [OF k5] k2 by (intro exI [of _ False]) auto
  next
    case True
    have w6': "sconfreq_addci E cilen (w4\<lparr>nalloc := Suc (nalloc w4)\<rparr>) = (bs, w6)" using w6 by (simp add: w5_def)
    let ?h = "MAKEHEADER (protocol (w_fsm w4)) @ [CONFREQ, uint (reqid (w_fsm w4))] @ putshort (cilen + HEADERLEN)"
    have "fsm_sconfreq E r w =
        TIMEOUT (upd (\<lambda>f. f\<lparr>retransmits := retransmits f - 1\<rparr>) (write_packet (cilen + HEADERLEN + PPP_HDRLEN) (?h @ bs) w6))"
      unfolding fsm_sconfreq_def Let_def w1_def [symmetric] w2_def [symmetric] w3_def [symmetric] using True by (simp add: w4 w6')
    moreover have "unmoved w2 (write_packet (cilen + HEADERLEN + PPP_HDRLEN) (?h @ bs) w6)"
      using unmoved_trans [OF unmoved_trans [OF k5 k6] write_packet_unmoved] .
    ultimately show ?thesis using k2 True by (intro exI [of _ True]) (auto simp: unmovedD)
  qed
qed

lemma sconfreq_st [simp]: "polite E \<Longrightarrow> st (fsm_sconfreq E r w) = st w"
  using sconfreq_effect [of E r w] by blast

lemma sconfreq_flags [simp]: "polite E \<Longrightarrow> flags (w_fsm (fsm_sconfreq E r w)) = flags (w_fsm w)"
  using sconfreq_effect [of E r w] by blast

section \<open>The timer invariant\<close>

lemma timers_ok_unmoved: "unmoved w w' \<Longrightarrow> timers_ok E w' = timers_ok E w"
  by (simp add: timers_ok_def unmoved_def)

lemma notify_ok:
  assumes "polite E" "timers_ok E w"
  shows "timers_ok E (notify n (cb_up (cbs E)) w)" "timers_ok E (notify n (cb_starting (cbs E)) w)" "timers_ok E (notify n (cb_finished (cbs E)) w)"
proof -
  have "timers_ok E (w\<lparr>calls := x\<rparr>)" for x using assms(2) timers_ok_unmoved [OF unmoved_upd(12)] by blast
  with politeD(10-12) [OF assms(1)] assms(2)
  show "timers_ok E (notify n (cb_up (cbs E)) w)" "timers_ok E (notify n (cb_starting (cbs E)) w)" "timers_ok E (notify n (cb_finished (cbs E)) w)"
    by (auto simp: notify_def split: option.splits)
qed

text \<open>A fresh request, or a repeated one, with no timeout pending.\<close>

lemma sconfreq_ok:
  assumes "polite E" "timers w = 0" "negotiating s"
  shows "timers_ok E (goto s (fsm_sconfreq E r w))" "st w = s \<Longrightarrow> timers_ok E (fsm_sconfreq E r w)"
  using sconfreq_effect [OF assms(1), of r w] assms(2,3) by (auto simp: timers_ok_def timer_count_ok_def timed_def split: if_splits)

lemma timers_quiet: "timers_ok E w \<Longrightarrow> \<not> timed (st w) \<Longrightarrow> timers w = 0"
  by (auto simp: timers_ok_def timer_count_ok_def)

lemma timers_goto:
  "timers w = 0 \<Longrightarrow> \<not> timed s \<Longrightarrow> timers_ok E (goto s w)"
  "timers_ok E w \<Longrightarrow> \<not> timed s \<Longrightarrow> timers_ok E (goto s (UNTIMEOUT w))"
  "timers_ok E w \<Longrightarrow> timed (st w) \<Longrightarrow> timed s \<Longrightarrow> timers_ok E (goto s w)"
  by (auto simp: timers_ok_def timer_count_ok_def)

lemma timed_simps [simp]:
  "negotiating PPP_FSM_REQSENT" "negotiating PPP_FSM_ACKRCVD" "negotiating PPP_FSM_ACKSENT"
  "\<not> negotiating PPP_FSM_CLOSING" "\<not> negotiating PPP_FSM_STOPPING"
  "timed PPP_FSM_REQSENT" "timed PPP_FSM_ACKRCVD" "timed PPP_FSM_ACKSENT" "timed PPP_FSM_CLOSING" "timed PPP_FSM_STOPPING"
  "\<not> timed PPP_FSM_INITIAL" "\<not> timed PPP_FSM_STARTING" "\<not> timed PPP_FSM_CLOSED" "\<not> timed PPP_FSM_STOPPED" "\<not> timed PPP_FSM_OPENED"
  by (simp_all add: timed_def negotiating_def)

lemmas quiet_rules = timers_goto sconfreq_ok notify_ok

lemma start_negotiation_ok: "polite E \<Longrightarrow> timers w = 0 \<Longrightarrow> timers_ok E (start_negotiation E w)"
  by (auto simp: start_negotiation_def intro: quiet_rules)

lemma lowerup_ok: "polite E \<Longrightarrow> timers_ok E w \<Longrightarrow> timers_ok E (fsm_lowerup E w)"
  using timers_quiet [of E w] by (auto simp: fsm_lowerup_def intro: start_negotiation_ok quiet_rules split: fsm_state.splits)

lemma untimeout_goto: "UNTIMEOUT (goto s w) = goto s (UNTIMEOUT w)"
  by (simp add: UNTIMEOUT_def goto_def upd_def)

lemma lowerdown_ok:
  assumes "polite E" "timers_ok E w"
  shows "timers_ok E (fsm_lowerdown E w)"
proof -
  have d: "timers (notify Down (cb_down (cbs E)) w) = timers w" using unmovedD(2) [OF notify_down_unmoved [OF assms(1)]] .
  show ?thesis using assms timers_quiet [OF assms(2)]
    by (cases "st w") (auto simp: fsm_lowerdown_def untimeout_goto d intro!: quiet_rules)
qed

lemma restart_ok: "polite E \<Longrightarrow> timers_ok E w \<Longrightarrow> timers_ok E (restart E w)"
  by (simp add: restart_def lowerup_ok lowerdown_ok)

lemma open_ok: "polite E \<Longrightarrow> timers_ok E w \<Longrightarrow> timers_ok E (fsm_open E w)"
  using timers_quiet [of E w]
  by (cases "st w") (auto simp: fsm_open_def intro!: restart_ok start_negotiation_ok notify_ok intro: timers_goto)

lemma terminate_layer_ok:
  assumes P: "polite E" and w: "timers_ok E w" "st w = PPP_FSM_OPENED \<or> timed (st w)" and n: "n = PPP_FSM_CLOSING \<or> n = PPP_FSM_STOPPING"
  shows "timers_ok E (terminate_layer E n w)"
proof -
  define w1 where "w1 = (if st w \<noteq> PPP_FSM_OPENED then UNTIMEOUT w else notify Down (cb_down (cbs E)) w)"
  have t1: "timers w1 = 0"
    using w timers_quiet [OF w(1)] unmovedD(2) [OF notify_down_unmoved [OF P]] by (auto simp: w1_def timers_ok_def timer_count_ok_def)
  define w3 where "w3 = send_termreq E (upd (\<lambda>f. f\<lparr>retransmits := fsm_max_term_transmits E\<rparr>) w1)"
  have t3: "timers w3 = 0" using unmovedD(2) [OF send_termreq_unmoved, of E "upd (\<lambda>f. f\<lparr>retransmits := fsm_max_term_transmits E\<rparr>) w1"] t1 by (simp add: w3_def)
  have e: "terminate_layer E n w = (if retransmits (w_fsm w3) = 0
      then notify Finished (cb_finished (cbs E)) (goto (if n = PPP_FSM_CLOSING then PPP_FSM_CLOSED else PPP_FSM_STOPPED) w3)
      else goto n (upd (\<lambda>f. f\<lparr>retransmits := retransmits f - 1\<rparr>) (TIMEOUT w3)))"
    by (simp add: terminate_layer_def Let_def w1_def w3_def)
  have "timers_ok E (goto (if n = PPP_FSM_CLOSING then PPP_FSM_CLOSED else PPP_FSM_STOPPED) w3)"
    using t3 by (auto intro: timers_goto)
  moreover have "timers_ok E (goto n (upd (\<lambda>f. f\<lparr>retransmits := retransmits f - 1\<rparr>) (TIMEOUT w3)))"
    using t3 n by (auto simp: timers_ok_def timer_count_ok_def)
  ultimately show ?thesis unfolding e by (simp add: notify_ok [OF P])
qed

lemma close_ok:
  assumes "polite E" "timers_ok E w"
  shows "timers_ok E (fsm_close E reason w)"
proof -
  define w1 where "w1 = upd (\<lambda>f. f\<lparr>term_reason := reason,
            term_reason_len := (case reason of None \<Rightarrow> 0 | Some s \<Rightarrow> of_nat (min (length s) 0xFF))\<rparr>) w"
  have "unmoved w w1" by (simp add: w1_def)
  then have "timers_ok E w1" using assms(2) by (simp add: timers_ok_unmoved)
  then show ?thesis using assms(1) timers_quiet [of E w1] unfolding fsm_close_def w1_def [symmetric] Let_def
    by (cases "st w1") (auto intro!: terminate_layer_ok intro: quiet_rules)
qed

lemma expire_ok:
  assumes P: "polite E" and w: "timers_ok E w" "0 < timers w"
  shows "timers_ok E (expire E w)"
proof -
  let ?w = "w\<lparr>timers := timers w - 1\<rparr>"
  have t: "timers ?w = 0" "timed (st w)" using w by (auto simp: timers_ok_def timer_count_ok_def)
  have s: "timers (send_termreq E ?w) = 0" "st (send_termreq E ?w) = st w"
    using unmovedD(1,2) [OF send_termreq_unmoved, of E ?w] t(1) by simp_all
  have r: "timers (run_cb (cb_retransmit (cbs E)) ?w) = 0" "st (run_cb (cb_retransmit (cbs E)) ?w) = st w"
    using unmovedD(1,2) [OF run_cb_unmoved(2) [OF P], of ?w] t(1) by simp_all
  consider "st w = PPP_FSM_CLOSING" | "st w = PPP_FSM_STOPPING" | "negotiating (st w)" using t(2) by (auto simp: timed_def)
  then show ?thesis
  proof cases
    case 3
    then have n: "st w \<noteq> PPP_FSM_CLOSING" "st w \<noteq> PPP_FSM_STOPPING" by (auto simp: negotiating_def)
    let ?c = "fsm_sconfreq E True (run_cb (cb_retransmit (cbs E)) ?w)"
    have "timers_ok E ?c" "timers_ok E (goto PPP_FSM_REQSENT ?c)"
      using sconfreq_ok [OF P r(1), of "st w" True] sconfreq_ok(1) [OF P r(1), of PPP_FSM_REQSENT True] r(2) 3 by auto
    moreover have "timers_ok E (goto PPP_FSM_STOPPED ?w)" using t(1) by (auto intro: timers_goto)
    ultimately show ?thesis using 3 n by (simp add: expire_def fsm_timeout_def Let_def notify_ok [OF P])
  qed (use t s in \<open>auto simp: expire_def fsm_timeout_def timers_ok_def [of E "upd g (TIMEOUT v)" for g v] timer_count_ok_def
      intro!: notify_ok [OF P] timers_goto\<close>)
qed

lemma rconfreq_answer_ok:
  assumes P: "polite E" and w: "timers_ok E w" "negotiating (st w)"
  shows "timers_ok E (rconfreq_answer E i inp w)"
proof -
  obtain code opts w1 where r: "(case cb_reqci (cbs E) of
            Some reqci \<Rightarrow> reqci w inp (nakloops (w_fsm w) \<ge> maxnakloops (w_fsm w))
          | None \<Rightarrow> (if inp \<noteq> [] then CONFREJ else CONFACK, inp, w)) = (code, opts, w1)" by (metis prod_cases3)
  have "unmoved w w1" using r politeD(7) [OF P, of _ w inp "nakloops (w_fsm w) \<ge> maxnakloops (w_fsm w)"]
    by (auto split: option.splits)
  define w2 where "w2 = fsm_sdata E code i opts w1"
  have k: "unmoved w w2" using unmoved_trans [OF \<open>unmoved w w1\<close> fsm_sdata_unmoved] by (simp add: w2_def)
  have ok: "timers_ok E w2" "st w2 = st w" "timed (st w2)" using timers_ok_unmoved [OF k] w unmovedD(1) [OF k] by (auto simp: timed_def)
  have u: "timers_ok E (upd (\<lambda>f. f\<lparr>nakloops := a f\<rparr>) v) = timers_ok E v" for a v by (rule timers_ok_unmoved) simp
  have e: "rconfreq_answer E i inp w = (if code = CONFACK
         then upd (\<lambda>f. f\<lparr>nakloops := 0\<rparr>)
           (if st w2 = PPP_FSM_ACKRCVD then notify Up (cb_up (cbs E)) (goto PPP_FSM_OPENED (UNTIMEOUT w2))
            else goto PPP_FSM_ACKSENT w2)
         else (let w3 = (if st w2 \<noteq> PPP_FSM_ACKRCVD then goto PPP_FSM_REQSENT w2 else w2)
               in if code = CONFNAK then upd (\<lambda>f. f\<lparr>nakloops := nakloops f + 1\<rparr>) w3 else w3))"
    unfolding rconfreq_answer_def r by (simp add: w2_def Let_def)
  show ?thesis unfolding e Let_def using ok by (auto simp: u intro!: notify_ok [OF P] intro: timers_goto)
qed

lemma rconfreq_ok:
  assumes P: "polite E" and w: "timers_ok E w" "st w \<noteq> PPP_FSM_INITIAL" "st w \<noteq> PPP_FSM_STARTING"
  shows "timers_ok E (fsm_rconfreq E i inp w)"
proof -
  have d: "timers (notify Down (cb_down (cbs E)) w) = timers w" using unmovedD(2) [OF notify_down_unmoved [OF P]] .
  have s: "timers_ok E (fsm_sdata E c i x w)" for c x using timers_ok_unmoved [OF fsm_sdata_unmoved] w(1) by blast
  show ?thesis using w P timers_quiet [OF w(1)]
    by (cases "st w") (auto simp: fsm_rconfreq_def d s intro!: rconfreq_answer_ok sconfreq_ok)
qed

lemma rconfack_ok:
  assumes P: "polite E" and w: "timers_ok E w" "st w \<noteq> PPP_FSM_INITIAL" "st w \<noteq> PPP_FSM_STARTING"
  shows "timers_ok E (fsm_rconfack E i inp w)"
proof (cases "i \<noteq> reqid (w_fsm w) \<or> seen_ack (w_fsm w)")
  case True
  then show ?thesis using w by (simp add: fsm_rconfack_def)
next
  case False
  obtain ok w1 where r: "(case cb_ackci (cbs E) of Some ackci \<Rightarrow> ackci w inp | None \<Rightarrow> (inp = [], w)) = (ok, w1)" by (metis surj_pair)
  have k1: "unmoved w w1" using r politeD(4) [OF P, of _ w inp] by (auto split: option.splits)
  define w2 where "w2 = upd (\<lambda>f. f\<lparr>seen_ack := True, rnakloops := 0\<rparr>) w1"
  have k2: "unmoved w w2" by (rule unmoved_trans [OF k1]) (simp add: w2_def)
  have t: "timers_ok E w1" "timers_ok E w2" using timers_ok_unmoved [OF k1, of E] timers_ok_unmoved [OF k2, of E] w(1) by simp_all
  have d: "timers (notify Down (cb_down (cbs E)) w2) = timers w2" using unmovedD(2) [OF notify_down_unmoved [OF P]] .
  have s: "timers_ok E (fsm_sdata E c i x w2)" for c x using timers_ok_unmoved [OF fsm_sdata_unmoved] t(2) by blast
  have m: "timers_ok E (upd (\<lambda>f. f\<lparr>retransmits := x\<rparr>) v) = timers_ok E v" for x v by (simp add: timers_ok_def)
  have e: "fsm_rconfack E i inp w = (if \<not> ok then w1 else case st w2 of
                  PPP_FSM_CLOSED \<Rightarrow> fsm_sdata E TERMACK i [] w2
                | PPP_FSM_STOPPED \<Rightarrow> fsm_sdata E TERMACK i [] w2
                | PPP_FSM_REQSENT \<Rightarrow> upd (\<lambda>f. f\<lparr>retransmits := fsm_max_conf_req_transmits E\<rparr>) (goto PPP_FSM_ACKRCVD w2)
                | PPP_FSM_ACKRCVD \<Rightarrow> goto PPP_FSM_REQSENT (fsm_sconfreq E False (UNTIMEOUT w2))
                | PPP_FSM_ACKSENT \<Rightarrow> notify Up (cb_up (cbs E))
                    (upd (\<lambda>f. f\<lparr>retransmits := fsm_max_conf_req_transmits E\<rparr>) (goto PPP_FSM_OPENED (UNTIMEOUT w2)))
                | PPP_FSM_OPENED \<Rightarrow> goto PPP_FSM_REQSENT (fsm_sconfreq E False (notify Down (cb_down (cbs E)) w2))
                | _ \<Rightarrow> w2)"
    unfolding fsm_rconfack_def r w2_def using False by (simp add: Let_def)
  have t1: "timers w2 - 1 = 0" using t(2) by (simp add: timers_ok_def timer_count_ok_def)
  have o: "timers_ok E (goto PPP_FSM_OPENED (UNTIMEOUT w2))" by (rule timers_goto(2) [OF t(2)]) simp
  show ?thesis unfolding e using t P timers_quiet [OF t(2)] t1
    by (cases "st w2") (auto simp: d s m o intro!: notify_ok [OF P] sconfreq_ok intro: timers_goto)
qed

lemma nakrej_unmoved:
  assumes P: "polite E" and r: "nakrej_ret E c inp w = (ret, w1)"
  shows "unmoved w w1"
proof (cases "c = CONFNAK")
  case True
  let ?w = "upd (\<lambda>f. f\<lparr>rnakloops := rnakloops f + 1\<rparr>) w"
  show ?thesis
  proof (cases "cb_nakci (cbs E)")
    case None
    then show ?thesis using r True by (auto simp: nakrej_ret_def)
  next
    case (Some g)
    have "unmoved w (snd (g ?w inp b))" for b by (rule unmoved_trans [OF unmoved_upd(3) politeD(5) [OF P Some]])
    moreover have "w1 = snd (g ?w inp (rnakloops (w_fsm ?w) \<ge> maxnakloops (w_fsm ?w)))"
      using r True Some by (simp add: nakrej_ret_def Let_def)
    ultimately show ?thesis by simp
  qed
next
  case False
  let ?w = "upd (\<lambda>f. f\<lparr>rnakloops := 0\<rparr>) w"
  show ?thesis
  proof (cases "cb_rejci (cbs E)")
    case None
    then show ?thesis using r False by (auto simp: nakrej_ret_def)
  next
    case (Some g)
    have "unmoved w (snd (g ?w inp))" by (rule unmoved_trans [OF unmoved_upd(3) politeD(6) [OF P Some]])
    then show ?thesis using r False Some by (auto simp: nakrej_ret_def Let_def)
  qed
qed

lemma rconfnakrej_ok:
  assumes P: "polite E" and w: "timers_ok E w" "st w \<noteq> PPP_FSM_INITIAL" "st w \<noteq> PPP_FSM_STARTING"
  shows "timers_ok E (fsm_rconfnakrej E c i inp w)"
proof (cases "i \<noteq> reqid (w_fsm w) \<or> seen_ack (w_fsm w)")
  case True
  then show ?thesis using w by (simp add: fsm_rconfnakrej_def)
next
  case False
  obtain ret w1 where r: "nakrej_ret E c inp w = (ret, w1)" by (metis surj_pair)
  have k1: "unmoved w w1" by (rule nakrej_unmoved [OF P r])
  define w2 where "w2 = upd (\<lambda>f. f\<lparr>seen_ack := True\<rparr>) w1"
  have k2: "unmoved w w2" by (rule unmoved_trans [OF k1]) (simp add: w2_def)
  have t: "timers_ok E w1" "timers_ok E w2" using timers_ok_unmoved [OF k1, of E] timers_ok_unmoved [OF k2, of E] w(1) by simp_all
  have d: "timers (notify Down (cb_down (cbs E)) w2) = timers w2" using unmovedD(2) [OF notify_down_unmoved [OF P]] .
  have s: "timers_ok E (fsm_sdata E c i x w2)" for c x using timers_ok_unmoved [OF fsm_sdata_unmoved] t(2) by blast
  have t1: "timers w2 - 1 = 0" using t(2) by (simp add: timers_ok_def timer_count_ok_def)
  have a: "timers_ok E (fsm_sconfreq E False (UNTIMEOUT w2))" if "negotiating (st w2)"
    by (rule sconfreq_ok(2) [OF P _ that]) (use t1 in simp_all)
  have e: "fsm_rconfnakrej E c i inp w = (if ret = 0 then w1
           else let again = (\<lambda>w. if ret < 0 then goto PPP_FSM_STOPPED w else fsm_sconfreq E False w)
             in case st w2 of
                  PPP_FSM_CLOSED \<Rightarrow> fsm_sdata E TERMACK i [] w2
                | PPP_FSM_STOPPED \<Rightarrow> fsm_sdata E TERMACK i [] w2
                | PPP_FSM_REQSENT \<Rightarrow> again (UNTIMEOUT w2)
                | PPP_FSM_ACKSENT \<Rightarrow> again (UNTIMEOUT w2)
                | PPP_FSM_ACKRCVD \<Rightarrow> goto PPP_FSM_REQSENT (fsm_sconfreq E False (UNTIMEOUT w2))
                | PPP_FSM_OPENED \<Rightarrow> goto PPP_FSM_REQSENT (fsm_sconfreq E False (notify Down (cb_down (cbs E)) w2))
                | _ \<Rightarrow> w2)"
    unfolding fsm_rconfnakrej_def r w2_def using False by (simp add: Let_def)
  show ?thesis unfolding e Let_def using t P timers_quiet [OF t(2)] t1
    by (cases "st w2") (auto simp: d s a intro!: sconfreq_ok intro: timers_goto)
qed

lemma rterm_ok:
  assumes P: "polite E" and w: "timers_ok E w"
  shows "timers_ok E (fsm_rtermreq E i inp w)" "timers_ok E (fsm_rtermack E w)" "timers_ok E (fsm_rcoderej inp w)"
proof -
  have s: "timers_ok E (fsm_sdata E c i x v) = timers_ok E v" for c x v by (rule timers_ok_unmoved) simp
  let ?v = "goto PPP_FSM_STOPPING (upd (\<lambda>f. f\<lparr>retransmits := 0\<rparr>) w)"
  have d: "timers (notify Down (cb_down (cbs E)) v) = timers v" "st (notify Down (cb_down (cbs E)) v) = st v" for v
    using unmovedD [OF notify_down_unmoved [OF P]] by blast+
  show "timers_ok E (fsm_rtermreq E i inp w)" using w timers_quiet [OF w]
    by (cases "st w") (auto simp: fsm_rtermreq_def s d timers_ok_def [of E "TIMEOUT v" for v] timer_count_ok_def intro: timers_goto)
  show "timers_ok E (fsm_rtermack E w)" using w P timers_quiet [OF w]
    by (cases "st w") (auto simp: fsm_rtermack_def d intro!: notify_ok [OF P] sconfreq_ok intro: timers_goto)
  show "timers_ok E (fsm_rcoderej inp w)" using w by (auto simp: fsm_rcoderej_def intro: timers_goto)
qed

lemma protreject_ok: "polite E \<Longrightarrow> timers_ok E w \<Longrightarrow> timers_ok E (fsm_protreject E w)"
  using timers_quiet [of E w]
  by (cases "st w") (auto simp: fsm_protreject_def Let_def intro!: terminate_layer_ok notify_ok intro: timers_goto)

lemma input_ok:
  assumes P: "polite E" and w: "timers_ok E w"
  shows "timers_ok E (fsm_input E pkt w)"
proof -
  have x: "timers_ok E (snd (case cb_extcode (cbs E) of None \<Rightarrow> (False, w) | Some extcode \<Rightarrow> extcode w c i inp))" for c i inp
    using w politeD(13) [OF P _ w] by (auto split: option.splits)
  have s: "timers_ok E (fsm_sdata E c j d (upd (\<lambda>f. f\<lparr>fsm_id := g f\<rparr>) v)) = timers_ok E v" for c j d g v
    by (rule timers_ok_unmoved) (rule unmoved_trans [OF _ fsm_sdata_unmoved], simp)
  have y: "timers_ok E v" if "(case cb_extcode (cbs E) of None \<Rightarrow> (False, w) | Some extcode \<Rightarrow> extcode w c i inp) = (b, v)" for c i inp b v
    using x [of c i inp] that by simp
  show ?thesis
    unfolding fsm_input_def Let_def
    using w rconfreq_ok [OF P w] rconfack_ok [OF P w] rconfnakrej_ok [OF P w] rterm_ok [OF P w]
    by (auto simp: s split: prod.splits dest: y simp del: split_paired_All)
qed

lemma handle_ok:
  "polite E \<Longrightarrow> timers_ok E w \<Longrightarrow> ev = Expire \<longrightarrow> 0 < timers w \<Longrightarrow> timers_ok E (handle E ev w)"
  by (cases ev) (auto intro: lowerup_ok lowerdown_ok open_ok close_ok expire_ok input_ok protreject_ok)

lemma reachable_timers: "reachable E w \<Longrightarrow> polite E \<Longrightarrow> timers_ok E w"
proof (induction rule: reachable.induct)
  case (init w)
  then show ?case by (simp add: fsm_init_def timers_ok_def timer_count_ok_def)
next
  case (step w ev)
  then show ?case by (auto intro: handle_ok)
next
  case (configure w b)
  then show ?case by (simp add: timers_ok_def)
qed

end
