(* ===== verification/PppFsmLaws.thy ===== *)
theory PppFsmLaws
  imports PppFsm
begin

text \<open>
  What the PPP state machine does: its timer, a peer that never answers, and the automaton of RFC 1661 it implements.
\<close>

section \<open>A silent peer\<close>

text \<open>Callbacks that never use the machine's entry points.\<close>

definition reserved :: "'p env \<Rightarrow> bool" where
  "reserved E \<longleftrightarrow> polite E \<and>
     (\<forall>g w. cb_up (cbs E) = Some g \<longrightarrow> unmoved w (g w)) \<and>
     (\<forall>g w. cb_starting (cbs E) = Some g \<longrightarrow> unmoved w (g w)) \<and>
     (\<forall>g w. cb_finished (cbs E) = Some g \<longrightarrow> unmoved w (g w))"

lemma reservedD:
  assumes "reserved E"
  shows "polite E" "unmoved w (notify n (cb_up (cbs E)) w)" "unmoved w (notify n (cb_starting (cbs E)) w)" "unmoved w (notify n (cb_finished (cbs E)) w)"
proof -
  have p: "polite E" "\<And>g w. cb_up (cbs E) = Some g \<Longrightarrow> unmoved w (g w)" "\<And>g w. cb_starting (cbs E) = Some g \<Longrightarrow> unmoved w (g w)"
    "\<And>g w. cb_finished (cbs E) = Some g \<Longrightarrow> unmoved w (g w)"
    using assms by (auto simp: reserved_def)
  show "polite E" by (rule p(1))
  show "unmoved w (notify n (cb_up (cbs E)) w)" "unmoved w (notify n (cb_starting (cbs E)) w)" "unmoved w (notify n (cb_finished (cbs E)) w)"
    using p(2-4) [of _ "w\<lparr>calls := calls w @ [(n, st w)]\<rparr>"] unmoved_trans [OF unmoved_upd(12)] by (auto simp: notify_def split: option.splits)
qed

lemma finished_effect [simp]:
  assumes "reserved E"
  shows "st (notify n (cb_finished (cbs E)) w) = st w" "timers (notify n (cb_finished (cbs E)) w) = timers w"
  using unmovedD [OF reservedD(4) [OF assms]] by blast+

lemma expire_step:
  assumes A: "reserved E" "\<And>k. pbuf_ok E k" and w: "timers_ok E w" "timed (st w)"
  shows "retransmits (w_fsm w) = 0 \<Longrightarrow>
      st (expire E w) = (if st w = PPP_FSM_CLOSING then PPP_FSM_CLOSED else PPP_FSM_STOPPED) \<and> timers (expire E w) = 0"
    "retransmits (w_fsm w) \<noteq> 0 \<Longrightarrow> retransmits (w_fsm (expire E w)) = retransmits (w_fsm w) - 1 \<and> timed (st (expire E w)) \<and>
      (st (expire E w) = PPP_FSM_CLOSING \<longleftrightarrow> st w = PPP_FSM_CLOSING)"
proof -
  let ?w = "w\<lparr>timers := timers w - 1\<rparr>"
  note P = reservedD(1) [OF A(1)]
  have t: "timers ?w = 0" using w by (simp add: timers_ok_def timer_count_ok_def)
  consider "st w = PPP_FSM_CLOSING" | "st w = PPP_FSM_STOPPING" | "negotiating (st w)" "st w \<noteq> PPP_FSM_CLOSING" "st w \<noteq> PPP_FSM_STOPPING"
    using w(2) by (auto simp: timed_def)
  note c = this
  show "st (expire E w) = (if st w = PPP_FSM_CLOSING then PPP_FSM_CLOSED else PPP_FSM_STOPPED) \<and> timers (expire E w) = 0"
    if "retransmits (w_fsm w) = 0"
    using c by cases (use that t A(1) in \<open>simp_all add: expire_def fsm_timeout_def Let_def\<close>)
  assume r: "retransmits (w_fsm w) \<noteq> 0"
  have s: "st (send_termreq E ?w) = st w" "retransmits (w_fsm (send_termreq E ?w)) = retransmits (w_fsm w)"
    using unmovedD [OF send_termreq_unmoved, of E ?w] by simp_all
  let ?c = "fsm_sconfreq E True (run_cb (cb_retransmit (cbs E)) ?w)"
  have q: "st ?c = st w" "retransmits (w_fsm ?c) = retransmits (w_fsm w) - 1"
    using sconfreq_effect [OF P, of True "run_cb (cb_retransmit (cbs E)) ?w"] unmovedD [OF run_cb_unmoved(2) [OF P], of ?w] A(2) by auto
  show "retransmits (w_fsm (expire E w)) = retransmits (w_fsm w) - 1 \<and> timed (st (expire E w)) \<and>
      (st (expire E w) = PPP_FSM_CLOSING \<longleftrightarrow> st w = PPP_FSM_CLOSING)"
    using c by cases (use r s q in \<open>auto simp: expire_def fsm_timeout_def Let_def timed_def\<close>)
qed

lemma expire_ok_timed:
  assumes "reserved E" "\<And>k. pbuf_ok E k" "timers_ok E w" "timed (st w)"
  shows "timers_ok E (expire E w)" "timers w = 1"
proof -
  show t: "timers w = 1" using assms(2-4) by (simp add: timers_ok_def timer_count_ok_def)
  show "timers_ok E (expire E w)" by (rule expire_ok [OF reservedD(1) [OF assms(1)] assms(3)]) (simp add: t)
qed

lemma silent_peer:
  assumes A: "reserved E" "\<And>k. pbuf_ok E k"
  shows "timers_ok E w \<Longrightarrow> timed (st w) \<Longrightarrow> unat (retransmits (w_fsm w)) = n \<Longrightarrow>
    (\<forall>i \<le> n. timed (st ((expire E ^^ i) w)) \<and> timers ((expire E ^^ i) w) = 1) \<and>
    st ((expire E ^^ (n + 1)) w) = (if st w = PPP_FSM_CLOSING then PPP_FSM_CLOSED else PPP_FSM_STOPPED) \<and>
    timers ((expire E ^^ (n + 1)) w) = 0"
proof (induction n arbitrary: w)
  case 0
  then have "retransmits (w_fsm w) = 0" by (simp add: unat_eq_0)
  then show ?case using expire_step(1) [OF A 0(1,2)] expire_ok_timed [OF A 0(1,2)] 0 by simp
next
  case (Suc n)
  have nz: "retransmits (w_fsm w) \<noteq> 0" using Suc.prems(3) by auto
  note e = expire_step(2) [OF A Suc.prems(1,2) nz] and t = expire_ok_timed [OF A Suc.prems(1,2)]
  have "unat (retransmits (w_fsm (expire E w))) = n" using e nz Suc.prems(3) by (simp add: unat_minus_one)
  from Suc.IH [OF t(1) _ this] e have ih:
    "\<forall>i \<le> n. timed (st ((expire E ^^ i) (expire E w))) \<and> timers ((expire E ^^ i) (expire E w)) = 1"
    "st ((expire E ^^ (n + 1)) (expire E w)) = (if st w = PPP_FSM_CLOSING then PPP_FSM_CLOSED else PPP_FSM_STOPPED)"
    "timers ((expire E ^^ (n + 1)) (expire E w)) = 0" by auto
  have f: "(expire E ^^ Suc i) w = (expire E ^^ i) (expire E w)" for i by (simp add: funpow_swap1)
  have "timed (st ((expire E ^^ i) w)) \<and> timers ((expire E ^^ i) w) = 1" if "i \<le> Suc n" for i
    using that ih(1) t(2) Suc.prems(2) f by (cases i) auto
  then show ?case using ih(2,3) f [of "n + 1"] by simp
qed

section \<open>The automaton of RFC 1661\<close>

text \<open>The transition table of RFC 1661, section 4.1, without the actions: what may happen to a link and the state it leads
  to, None where the table has no entry.\<close>

datatype rfc_event = RUp | RDown | ROpen | RClose | TO_plus | TO_minus | RCR_plus | RCR_minus | RCA | RCN | RTR | RTA | RUC | RXJ_plus | RXJ_minus

definition rfc_row :: "rfc_event \<Rightarrow> fsm_state option list" where
  "rfc_row ev =
     (let I = Some PPP_FSM_INITIAL; S = Some PPP_FSM_STARTING; C = Some PPP_FSM_CLOSED; T = Some PPP_FSM_STOPPED;
          Cg = Some PPP_FSM_CLOSING; Tg = Some PPP_FSM_STOPPING; Q = Some PPP_FSM_REQSENT; R = Some PPP_FSM_ACKRCVD;
          A = Some PPP_FSM_ACKSENT; N = Some PPP_FSM_OPENED; X = None
      in case ev of
           RUp \<Rightarrow>       [C, Q, X, X, X, X, X, X, X, X]
         | RDown \<Rightarrow>     [X, X, I, S, I, S, S, S, S, S]
         | ROpen \<Rightarrow>     [S, S, Q, T, Tg, Tg, Q, R, A, N]
         | RClose \<Rightarrow>    [I, I, C, C, Cg, Cg, Cg, Cg, Cg, Cg]
         | TO_plus \<Rightarrow>   [X, X, X, X, Cg, Tg, Q, Q, A, X]
         | TO_minus \<Rightarrow>  [X, X, X, X, C, T, T, T, T, X]
         | RCR_plus \<Rightarrow>  [X, X, C, A, Cg, Tg, A, N, A, A]
         | RCR_minus \<Rightarrow> [X, X, C, Q, Cg, Tg, Q, R, Q, Q]
         | RCA \<Rightarrow>       [X, X, C, T, Cg, Tg, R, Q, N, Q]
         | RCN \<Rightarrow>       [X, X, C, T, Cg, Tg, Q, Q, A, Q]
         | RTR \<Rightarrow>       [X, X, C, T, Cg, Tg, Q, Q, Q, Tg]
         | RTA \<Rightarrow>       [X, X, C, T, C, T, Q, Q, A, Q]
         | RUC \<Rightarrow>       [X, X, C, T, Cg, Tg, Q, R, A, N]
         | RXJ_plus \<Rightarrow>  [X, X, C, T, Cg, Tg, Q, Q, A, N]
         | RXJ_minus \<Rightarrow> [X, X, C, T, C, T, T, T, T, Tg])"

fun state_number :: "fsm_state \<Rightarrow> nat" where
  "state_number PPP_FSM_INITIAL = 0" | "state_number PPP_FSM_STARTING = 1" | "state_number PPP_FSM_CLOSED = 2"
| "state_number PPP_FSM_STOPPED = 3" | "state_number PPP_FSM_CLOSING = 4" | "state_number PPP_FSM_STOPPING = 5"
| "state_number PPP_FSM_REQSENT = 6" | "state_number PPP_FSM_ACKRCVD = 7" | "state_number PPP_FSM_ACKSENT = 8"
| "state_number PPP_FSM_OPENED = 9"

definition follows :: "rfc_event \<Rightarrow> 'p world \<Rightarrow> 'p world \<Rightarrow> bool" where
  "follows ev w w' \<longleftrightarrow> (\<forall>s. rfc_row ev ! state_number (st w) = Some s \<longrightarrow> st w' = s)"

lemma cb_states [simp]:
  assumes "reserved E"
  shows "st (notify n (cb_up (cbs E)) w) = st w" "st (notify n (cb_starting (cbs E)) w) = st w" "st (notify n (cb_down (cbs E)) w) = st w"
    "flags (w_fsm (notify n (cb_down (cbs E)) w)) = flags (w_fsm w)"
  by (rule unmovedD(1) [OF reservedD(2) [OF assms]] unmovedD(1) [OF reservedD(3) [OF assms]]
      unmovedD(1,4) [OF notify_down_unmoved [OF reservedD(1) [OF assms]]])+

lemma sdata_st [simp]: "st (fsm_sdata E c i d w) = st w"
  using unmovedD(1) [OF fsm_sdata_unmoved] .

lemma layers_follow:
  assumes A: "reserved E" "\<not> has_flag OPT_SILENT w" "\<not> has_flag OPT_RESTART w"
  shows "follows RUp w (fsm_lowerup E w)" "follows RDown w (fsm_lowerdown E w)" "follows ROpen w (fsm_open E w)"
proof -
  note P = reservedD(1) [OF A(1)]
  have r: "restart E v = v" if "flags (w_fsm v) = flags (w_fsm w)" for v using A(3) that by (simp add: restart_def has_flag_def)
  have n: "st (start_negotiation E w) = PPP_FSM_REQSENT" using A(2) by (simp add: start_negotiation_def)
  show "follows RUp w (fsm_lowerup E w)" "follows RDown w (fsm_lowerdown E w)" "follows ROpen w (fsm_open E w)"
    by (cases "st w"; simp add: follows_def rfc_row_def Let_def fsm_lowerup_def fsm_lowerdown_def fsm_open_def n r A(1))+
qed

lemma terminate_st:
  assumes "reserved E" "fsm_max_term_transmits E \<noteq> 0"
  shows "st (terminate_layer E n w) = n"
proof -
  have "retransmits (w_fsm (send_termreq E (upd (\<lambda>f. f\<lparr>retransmits := fsm_max_term_transmits E\<rparr>) v))) = fsm_max_term_transmits E" for v
    using unmovedD(3) [OF send_termreq_unmoved, of E "upd (\<lambda>f. f\<lparr>retransmits := fsm_max_term_transmits E\<rparr>) v"] by simp
  then show ?thesis using assms(2) by (simp add: terminate_layer_def Let_def)
qed

lemma ends_follow:
  assumes A: "reserved E" "fsm_max_term_transmits E \<noteq> 0"
  shows "follows RClose w (fsm_close E reason w)" "follows RXJ_minus w (fsm_protreject E w)" "follows RTR w (fsm_rtermreq E i inp w)"
    "follows RTA w (fsm_rtermack E w)" "int (length inp) \<ge> HEADERLEN \<Longrightarrow> follows RXJ_plus w (fsm_rcoderej inp w)"
proof -
  note P = reservedD(1) [OF A(1)]
  let ?u = "upd (\<lambda>f. f\<lparr>term_reason := reason, term_reason_len := (case reason of None \<Rightarrow> 0 | Some s \<Rightarrow> of_nat (min (length s) 0xFF))\<rparr>) w"
  have "st ?u = st w" by simp
  then show "follows RClose w (fsm_close E reason w)"
    unfolding fsm_close_def Let_def by (cases "st w") (simp_all add: follows_def rfc_row_def Let_def terminate_st [OF A])
  show "follows RXJ_minus w (fsm_protreject E w)" "follows RTR w (fsm_rtermreq E i inp w)"
    "follows RTA w (fsm_rtermack E w)"
    by (cases "st w"; simp add: follows_def rfc_row_def Let_def terminate_st [OF A] fsm_protreject_def fsm_rtermreq_def fsm_rtermack_def A(1) P)+
  show "follows RXJ_plus w (fsm_rcoderej inp w)" if "int (length inp) \<ge> HEADERLEN"
    using that by (cases "st w") (simp_all add: follows_def rfc_row_def Let_def fsm_rcoderej_def)
qed

lemma timeouts_follow:
  assumes A: "reserved E"
  shows "follows (if retransmits (w_fsm w) = 0 then TO_minus else TO_plus) w (expire E w)"
proof -
  note P = reservedD(1) [OF A]
  have s: "st (send_termreq E v) = st v" for v by (rule unmovedD(1) [OF send_termreq_unmoved])
  have r: "st (run_cb (cb_retransmit (cbs E)) v) = st v" for v by (rule unmovedD(1) [OF run_cb_unmoved(2) [OF P]])
  show ?thesis
    by (cases "st w") (simp_all add: follows_def rfc_row_def Let_def expire_def fsm_timeout_def negotiating_def s r A P)
qed

lemma answer_st:
  assumes A: "reserved E" and g: "cb_reqci (cbs E) = Some g" "\<And>v b. fst (g v inp b) = code"
  shows "st (rconfreq_answer E i inp w) =
    (if code = CONFACK then (if st w = PPP_FSM_ACKRCVD then PPP_FSM_OPENED else PPP_FSM_ACKSENT)
     else if st w = PPP_FSM_ACKRCVD then PPP_FSM_ACKRCVD else PPP_FSM_REQSENT)"
proof -
  let ?b = "nakloops (w_fsm w) \<ge> maxnakloops (w_fsm w)"
  obtain opts w1 where r: "g w inp ?b = (code, opts, w1)" using g(2) [of w ?b] by (metis fst_conv prod_cases3)
  have "st w1 = st w" using unmovedD(1) [OF politeD(7) [OF reservedD(1) [OF A] g(1)], of w inp ?b] r by simp
  then show ?thesis using A by (simp add: rconfreq_answer_def g(1) r Let_def)
qed

lemma requests_follow:
  assumes A: "reserved E" and g: "cb_reqci (cbs E) = Some g" "\<And>v b. fst (g v inp b) = code"
  shows "follows (if code = CONFACK then RCR_plus else RCR_minus) w (fsm_rconfreq E i inp w)"
  by (cases "st w") (simp_all add: follows_def rfc_row_def Let_def fsm_rconfreq_def answer_st [OF A g] A)

lemma acks_follow:
  assumes A: "reserved E" and g: "cb_ackci (cbs E) = Some g" "fst (g w inp)" and i: "i = reqid (w_fsm w)" "\<not> seen_ack (w_fsm w)"
  shows "follows RCA w (fsm_rconfack E i inp w)"
proof -
  obtain w1 where r: "g w inp = (True, w1)" using g(2) by (metis (full_types) prod.collapse)
  have s: "st w1 = st w" using unmovedD(1) [OF politeD(4) [OF reservedD(1) [OF A] g(1)], of w inp] r by simp
  show ?thesis using s A i by (cases "st w") (simp_all add: follows_def rfc_row_def Let_def fsm_rconfack_def g(1) r reservedD(1))
qed

lemma naks_follow:
  assumes A: "reserved E" and r: "fst (nakrej_ret E c inp w) > 0" and i: "i = reqid (w_fsm w)" "\<not> seen_ack (w_fsm w)"
  shows "follows RCN w (fsm_rconfnakrej E c i inp w)"
proof -
  note P = reservedD(1) [OF A]
  obtain ret w1 where r: "nakrej_ret E c inp w = (ret, w1)" "ret > 0" using r by (cases "nakrej_ret E c inp w") auto
  have s: "st w1 = st w" using unmovedD(1) [OF nakrej_unmoved [OF P r(1)]] .
  show ?thesis using s A P i r(2) by (cases "st w") (simp_all add: follows_def rfc_row_def Let_def fsm_rconfnakrej_def r(1))
qed

section \<open>Properties\<close>

text \<open>
  C16. The timer of a machine: in every reachable state at most one timeout is pending, and only while the machine waits for
  an answer of the peer. Unless an allocation fails, it is pending exactly then, so that the machine never waits without a
  timer and no timeout strikes a machine that is closed, stopped or opened. Notifications may call the machine again.\<close>

theorem fsm_timer_invariant:
  assumes "polite E" "reachable E w"
  shows "timers w \<le> 1 \<and> (timers w = 1 \<longrightarrow> timed (st w)) \<and> ((\<forall>k. pbuf_ok E k) \<longrightarrow> (timed (st w) \<longleftrightarrow> timers w = 1))"
  using reachable_timers [OF assms(2,1)] by (auto simp: timers_ok_def timer_count_ok_def)

definition plain_env :: "unit env" where
  "plain_env = \<lparr>cbs = \<lparr>cb_resetci = Some id, cb_cilen = Some (\<lambda>w. (4, w)), cb_addci = Some (\<lambda>w n. ([1, 4, 5, 220], 4, w)),
       cb_ackci = Some (\<lambda>w xs. (xs = [1, 4, 5, 220], w)), cb_nakci = None, cb_rejci = None,
       cb_reqci = Some (\<lambda>w xs b. (if b then CONFREJ else CONFACK, xs, w)), cb_up = Some id, cb_down = Some id, cb_starting = Some id, cb_finished = Some id,
       cb_retransmit = None, cb_extcode = None\<rparr>,
     fsm_max_conf_req_transmits = 10, fsm_max_term_transmits = 2, fsm_max_nak_loops = 5, peer_mru = 1500, pbuf_ok = (\<lambda>_. True)\<rparr>"

definition plain_world :: "unit world" where
  "plain_world = \<lparr>w_fsm = \<lparr>term_reason = None, seen_ack = False, protocol = 0xC021, state = PPP_FSM_INITIAL, flags = 0, fsm_id = 0, reqid = 0,
       retransmits = 0, nakloops = 0, rnakloops = 0, maxnakloops = 5, term_reason_len = 0\<rparr>,
     timers = 0, proto = (), sent = [], calls = [], nalloc = 0, fault = False\<rparr>"

lemma plain_polite: "reserved plain_env"
  by (auto simp: reserved_def polite_def plain_env_def unmoved_def)

lemma plain_started: "reachable plain_env (handle plain_env LowerUp (handle plain_env OpenEv plain_world))"
proof -
  have "fsm_init plain_env plain_world = plain_world" by (simp add: fsm_init_def upd_def plain_env_def plain_world_def)
  then have "reachable plain_env plain_world" using reachable.init [of plain_world plain_env] by (simp add: plain_world_def)
  then show ?thesis by (intro reachable.step) auto
qed

theorem fsm_timer_invariant_witness:
  "timers (handle plain_env LowerUp (handle plain_env OpenEv plain_world)) = 1"
proof -
  have "st (handle plain_env LowerUp (handle plain_env OpenEv plain_world)) = PPP_FSM_REQSENT" by code_simp
  then show ?thesis
    using fsm_timer_invariant [OF reservedD(1) [OF plain_polite] plain_started] by (simp add: plain_env_def)
qed

text \<open>
  C17. A peer that never answers: when allocations succeed, a machine that waits for the peer repeats its request as often as its
  counter says and then gives up. With \<open>n\<close> repetitions left the timer strikes \<open>n + 1\<close> times; up to the last strike the
  machine still waits with its timer running, after it the machine is closed or stopped and has no timer.\<close>

theorem fsm_silent_peer:
  assumes "reserved E" "\<And>k. pbuf_ok E k" "reachable E w" "timed (st w)"
  shows "(\<forall>i \<le> unat (retransmits (w_fsm w)). timed (st ((expire E ^^ i) w)) \<and> timers ((expire E ^^ i) w) = 1) \<and>
    st ((expire E ^^ (unat (retransmits (w_fsm w)) + 1)) w) = (if st w = PPP_FSM_CLOSING then PPP_FSM_CLOSED else PPP_FSM_STOPPED) \<and>
    timers ((expire E ^^ (unat (retransmits (w_fsm w)) + 1)) w) = 0"
  by (rule silent_peer [OF assms(1,2) reachable_timers [OF assms(3) reservedD(1) [OF assms(1)]] assms(4) refl])

theorem fsm_silent_peer_witness:
  "st ((expire plain_env ^^ 10) (handle plain_env LowerUp (handle plain_env OpenEv plain_world))) = PPP_FSM_STOPPED"
proof -
  let ?w = "handle plain_env LowerUp (handle plain_env OpenEv plain_world)"
  have s: "st ?w = PPP_FSM_REQSENT" "retransmits (w_fsm ?w) = 9" by code_simp+
  have n: "unat (retransmits (w_fsm ?w)) + 1 = 10" unfolding s(2) by simp
  have b: "pbuf_ok plain_env k" for k by (simp add: plain_env_def)
  have "timed (st ?w)" unfolding s(1) by simp
  from fsm_silent_peer [OF plain_polite b plain_started this]
  have "st ((expire plain_env ^^ (unat (retransmits (w_fsm ?w)) + 1)) ?w) = (if st ?w = PPP_FSM_CLOSING then PPP_FSM_CLOSED else PPP_FSM_STOPPED)"
    by blast
  then show ?thesis unfolding n s(1) by simp
qed



text \<open>
  A failed allocation stops the machine: when \<^verbatim>\<open>fsm_sconfreq\<close> gets no buffer it returns before it starts the timer, but its
  callers still enter the state that waits for the answer. After such a failure at start the machine is in
  \<^verbatim>\<open>PPP_FSM_REQSENT\<close>, has sent nothing and has no timer, so that no timeout will ever repeat the request.\<close>

theorem fsm_lost_timer:
  assumes "polite E" "\<And>k. \<not> pbuf_ok E k" "st w = PPP_FSM_STARTING" "timers w = 0" "\<not> has_flag OPT_SILENT w"
  shows "st (fsm_lowerup E w) = PPP_FSM_REQSENT \<and> timers (fsm_lowerup E w) = 0"
proof -
  have "timers (fsm_sconfreq E r v) = timers v" for r v
    using sconfreq_effect [OF assms(1), of r v] assms(2) by auto
  then show ?thesis using assms by (simp add: fsm_lowerup_def start_negotiation_def)
qed

theorem fsm_lost_timer_witness:
  "st (fsm_lowerup (plain_env\<lparr>pbuf_ok := \<lambda>_. False\<rparr>) (goto PPP_FSM_STARTING plain_world)) = PPP_FSM_REQSENT \<and>
   timers (fsm_lowerup (plain_env\<lparr>pbuf_ok := \<lambda>_. False\<rparr>) (goto PPP_FSM_STARTING plain_world)) = 0"
  by (rule fsm_lost_timer) (auto simp: polite_def plain_env_def unmoved_def plain_world_def has_flag_def)

text \<open>
  A limit of no transmissions is not respected: \<^verbatim>\<open>fsm_sconfreq\<close> decrements the counter it has just set from
  \<^verbatim>\<open>fsm_max_conf_req_transmits\<close>, and 0 wraps around to 255. The machine then repeats its request until the 256th timeout.\<close>

theorem fsm_zero_transmits:
  assumes "reserved E" "\<And>k. pbuf_ok E k" "fsm_max_conf_req_transmits E = 0" "st w = PPP_FSM_STARTING" "timers w = 0" "\<not> has_flag OPT_SILENT w"
  shows "timed (st ((expire E ^^ 255) (fsm_lowerup E w))) \<and> st ((expire E ^^ 256) (fsm_lowerup E w)) = PPP_FSM_STOPPED"
proof -
  let ?w = "fsm_lowerup E w"
  note P = reservedD(1) [OF assms(1)]
  have t: "timers_ok E ?w" by (rule lowerup_ok [OF P]) (use assms(4,5) in \<open>simp add: timers_ok_def timer_count_ok_def\<close>)
  have s: "st ?w = PPP_FSM_REQSENT" using assms(4,6) P by (simp add: fsm_lowerup_def start_negotiation_def)
  have "retransmits (w_fsm ?w) = -1"
    using sconfreq_effect [OF P, of False w] assms(2,3,4,6) by (auto simp: fsm_lowerup_def start_negotiation_def)
  moreover have "unat (-1 :: u8) = 255" by code_simp
  ultimately have "unat (retransmits (w_fsm ?w)) = 255" by simp
  from silent_peer [OF assms(1,2) t _ this] s show ?thesis by simp
qed

theorem fsm_zero_transmits_witness:
  "st ((expire (plain_env\<lparr>fsm_max_conf_req_transmits := 0\<rparr>) ^^ 256)
     (fsm_lowerup (plain_env\<lparr>fsm_max_conf_req_transmits := 0\<rparr>) (goto PPP_FSM_STARTING plain_world))) = PPP_FSM_STOPPED"
proof -
  let ?E = "plain_env\<lparr>fsm_max_conf_req_transmits := 0\<rparr>"
  have "reserved ?E" by (auto simp: reserved_def polite_def plain_env_def unmoved_def)
  then show ?thesis
    using fsm_zero_transmits [of ?E "goto PPP_FSM_STARTING plain_world"] by (simp add: plain_env_def plain_world_def has_flag_def)
qed

end
