(* ===== verification/PppOs.thy ===== *)
theory PppOs
  imports Prelude
begin

text \<open>
  PPP over a serial line: \<^verbatim>\<open>netif/ppp/pppos.c\<close> of lwIP with the parts of \<^verbatim>\<open>core/pbuf.c\<close> that it uses. Configuration of the port:
  \<^verbatim>\<open>PPP_INPROC_IRQ_SAFE\<close>, \<^verbatim>\<open>PPP_SERVER\<close> and \<^verbatim>\<open>IP_FORWARD\<close> are 0, \<^verbatim>\<open>PPP_FCS_TABLE\<close> is 1; the size of a pool buffer is the argument \<open>B\<close>.

  A pbuf has its bytes (their number is \<^verbatim>\<open>len\<close>) and \<^verbatim>\<open>tot_len\<close>; a chain is a list, NULL is the empty list. The pool is the number of its free
  buffers, \<open>lent\<close> the number that the layers above have. The serial device is a function that takes bytes and answers how many it sent. The
  layers above, \<^verbatim>\<open>ppp_input\<close>, are a function that takes a packet and answers with the calls that it makes on the link before it returns.
  \<^term>\<open>None\<close> is undefined behaviour: a null dereference, a store behind a buffer, a failed assertion.
  The bytes given to \<^verbatim>\<open>pppos_input_tcpip\<close> in one call are fewer than 65536, as lengths of packet buffers have 16 bits.
\<close>

section \<open>Constants and state\<close>

definition PPP_ALLSTATIONS :: u8 where "PPP_ALLSTATIONS = 0xFF"
definition PPP_UI :: u8 where "PPP_UI = 0x03"
definition PPP_FLAG :: u8 where "PPP_FLAG = 0x7E"
definition PPP_ESCAPE :: u8 where "PPP_ESCAPE = 0x7D"
definition PPP_TRANS :: u8 where "PPP_TRANS = 0x20"
definition PPP_INITFCS :: u16 where "PPP_INITFCS = 0xFFFF"
definition PPP_GOODFCS :: u16 where "PPP_GOODFCS = 0xF0B8"
definition PPP_FCS_POLYNOMIAL :: u32 where "PPP_FCS_POLYNOMIAL = 0x8408"
definition PPP_MAXIDLEFLAG :: u32 where "PPP_MAXIDLEFLAG = 100"

datatype err_t = ERR_OK | ERR_MEM | ERR_IF

datatype pd_state = PDIDLE | PDSTART | PDADDRESS | PDCONTROL | PDPROTOCOL1 | PDPROTOCOL2 | PDDATA

record pbuf =
  payload :: "u8 list"
  tot_len :: u16

text \<open>\<^verbatim>\<open>in_tail\<close> is NULL, the same buffer as \<^verbatim>\<open>in_head\<close>, or a buffer that is not yet in the chain.\<close>

datatype in_tail = Tail_null | Tail_head | Tail_own pbuf

record pppos_pcb =
  last_xmit :: u32
  out_accm :: "u8 list"
  popen :: bool
  pcomp :: bool
  accomp :: bool
  in_accm :: "u8 list"
  in_head :: "pbuf list"
  in_tail :: in_tail
  in_protocol :: u16
  in_fcs :: u16
  in_state :: pd_state
  in_escaped :: bool

record link_stats =
  st_xmit :: u16
  st_drop :: u16
  st_chkerr :: u16
  st_lenerr :: u16
  st_memerr :: u16
  st_err :: u16

record ('u, 'o) link =
  pcb :: pppos_pcb
  pool :: nat
  lent :: nat
  stats :: link_stats
  vj_toss :: bool
  upper :: 'u
  line :: 'o

text \<open>The calls that the layers above make on the link, with the readings of the clock; \<open>Release n\<close> gives back buffers of received packets.\<close>

datatype lcall =
    Connect
  | Disconnect
  | Send_config u32 bool bool
  | Recv_config u32 bool bool
  | Write u32 u32 "u8 list"
  | Netif_output u32 u32 "u8 list list" u16
  | Release nat

type_synonym 'o device = "u8 list \<Rightarrow> 'o \<Rightarrow> u32 \<times> 'o"
type_synonym 'u handler = "pbuf list \<Rightarrow> 'u \<Rightarrow> 'u \<times> lcall list"

section \<open>Frame check sequence and control character map\<close>

definition fcstab :: "u16 list" where
  "fcstab = [
   0x0000, 0x1189, 0x2312, 0x329b, 0x4624, 0x57ad, 0x6536, 0x74bf,
   0x8c48, 0x9dc1, 0xaf5a, 0xbed3, 0xca6c, 0xdbe5, 0xe97e, 0xf8f7,
   0x1081, 0x0108, 0x3393, 0x221a, 0x56a5, 0x472c, 0x75b7, 0x643e,
   0x9cc9, 0x8d40, 0xbfdb, 0xae52, 0xdaed, 0xcb64, 0xf9ff, 0xe876,
   0x2102, 0x308b, 0x0210, 0x1399, 0x6726, 0x76af, 0x4434, 0x55bd,
   0xad4a, 0xbcc3, 0x8e58, 0x9fd1, 0xeb6e, 0xfae7, 0xc87c, 0xd9f5,
   0x3183, 0x200a, 0x1291, 0x0318, 0x77a7, 0x662e, 0x54b5, 0x453c,
   0xbdcb, 0xac42, 0x9ed9, 0x8f50, 0xfbef, 0xea66, 0xd8fd, 0xc974,
   0x4204, 0x538d, 0x6116, 0x709f, 0x0420, 0x15a9, 0x2732, 0x36bb,
   0xce4c, 0xdfc5, 0xed5e, 0xfcd7, 0x8868, 0x99e1, 0xab7a, 0xbaf3,
   0x5285, 0x430c, 0x7197, 0x601e, 0x14a1, 0x0528, 0x37b3, 0x263a,
   0xdecd, 0xcf44, 0xfddf, 0xec56, 0x98e9, 0x8960, 0xbbfb, 0xaa72,
   0x6306, 0x728f, 0x4014, 0x519d, 0x2522, 0x34ab, 0x0630, 0x17b9,
   0xef4e, 0xfec7, 0xcc5c, 0xddd5, 0xa96a, 0xb8e3, 0x8a78, 0x9bf1,
   0x7387, 0x620e, 0x5095, 0x411c, 0x35a3, 0x242a, 0x16b1, 0x0738,
   0xffcf, 0xee46, 0xdcdd, 0xcd54, 0xb9eb, 0xa862, 0x9af9, 0x8b70,
   0x8408, 0x9581, 0xa71a, 0xb693, 0xc22c, 0xd3a5, 0xe13e, 0xf0b7,
   0x0840, 0x19c9, 0x2b52, 0x3adb, 0x4e64, 0x5fed, 0x6d76, 0x7cff,
   0x9489, 0x8500, 0xb79b, 0xa612, 0xd2ad, 0xc324, 0xf1bf, 0xe036,
   0x18c1, 0x0948, 0x3bd3, 0x2a5a, 0x5ee5, 0x4f6c, 0x7df7, 0x6c7e,
   0xa50a, 0xb483, 0x8618, 0x9791, 0xe32e, 0xf2a7, 0xc03c, 0xd1b5,
   0x2942, 0x38cb, 0x0a50, 0x1bd9, 0x6f66, 0x7eef, 0x4c74, 0x5dfd,
   0xb58b, 0xa402, 0x9699, 0x8710, 0xf3af, 0xe226, 0xd0bd, 0xc134,
   0x39c3, 0x284a, 0x1ad1, 0x0b58, 0x7fe7, 0x6e6e, 0x5cf5, 0x4d7c,
   0xc60c, 0xd785, 0xe51e, 0xf497, 0x8028, 0x91a1, 0xa33a, 0xb2b3,
   0x4a44, 0x5bcd, 0x6956, 0x78df, 0x0c60, 0x1de9, 0x2f72, 0x3efb,
   0xd68d, 0xc704, 0xf59f, 0xe416, 0x90a9, 0x8120, 0xb3bb, 0xa232,
   0x5ac5, 0x4b4c, 0x79d7, 0x685e, 0x1ce1, 0x0d68, 0x3ff3, 0x2e7a,
   0xe70e, 0xf687, 0xc41c, 0xd595, 0xa12a, 0xb0a3, 0x8238, 0x93b1,
   0x6b46, 0x7acf, 0x4854, 0x59dd, 0x2d62, 0x3ceb, 0x0e70, 0x1ff9,
   0xf78f, 0xe606, 0xd49d, 0xc514, 0xb1ab, 0xa022, 0x92b9, 0x8330,
   0x7bc7, 0x6a4e, 0x58d5, 0x495c, 0x3de3, 0x2c6a, 0x1ef1, 0x0f78]"

definition PPP_FCS :: "u16 \<Rightarrow> u8 \<Rightarrow> u16" where
  "PPP_FCS fcs c = drop_bit 8 fcs XOR fcstab ! unat ((fcs XOR ucast c) AND 0xFF)"

text \<open>The version without the table.\<close>

definition fcs_bit :: "u32 \<Rightarrow> u32" where
  "fcs_bit octet = (if octet AND 1 \<noteq> 0 then drop_bit 1 octet XOR PPP_FCS_POLYNOMIAL else drop_bit 1 octet)"

definition ppp_get_fcs :: "u8 \<Rightarrow> u16" where
  "ppp_get_fcs b = ucast ((fcs_bit ^^ 8) (ucast b) AND 0xFFFF)"

definition ESCAPE_P :: "u8 list \<Rightarrow> u8 \<Rightarrow> bool" where
  "ESCAPE_P accm c \<longleftrightarrow> accm ! unat (drop_bit 3 c) AND push_bit (unat (c AND 0x07)) 1 \<noteq> 0"

section \<open>Packet buffers\<close>

definition plen :: "pbuf \<Rightarrow> u16" where
  "plen p = of_nat (length (payload p))"

text \<open>\<^verbatim>\<open>pbuf_alloc(PBUF_RAW, length, PBUF_POOL)\<close>: the chain and what is left of the pool, or NULL with the pool as it was.\<close>

function pool_chain :: "nat \<Rightarrow> nat \<Rightarrow> nat \<Rightarrow> (pbuf list \<times> nat) option" where
  "pool_chain B free rem =
     (if free = 0 then None
      else let q = \<lparr>payload = replicate (min rem B) 0, tot_len = of_nat rem\<rparr>
        in if rem - min rem B > 0 \<and> 0 < B
           then map_option (\<lambda>(ps, f). (q # ps, f)) (pool_chain B (free - 1) (rem - min rem B))
           else Some ([q], free - 1))"
  by pat_completeness auto
termination by (relation "measure (\<lambda>(B, free, rem). free)") auto

definition pbuf_alloc :: "nat \<Rightarrow> nat \<Rightarrow> nat \<Rightarrow> pbuf list \<times> nat" where
  "pbuf_alloc B len free = (case pool_chain B free len of None \<Rightarrow> ([], free) | Some r \<Rightarrow> r)"

definition pbuf_cat :: "pbuf list \<Rightarrow> pbuf \<Rightarrow> pbuf list option" where
  "pbuf_cat h t =
     (if h = [] then Some []
      else do {
        assert_c (tot_len (last h) = plen (last h));
        Some (map (\<lambda>p. p\<lparr>tot_len := tot_len p + tot_len t\<rparr>) h @ [t]) })"

text \<open>The chain and the number of buffers that were freed.\<close>

fun realloc_loop :: "u16 \<Rightarrow> u16 \<Rightarrow> pbuf list \<Rightarrow> (pbuf list \<times> nat) option" where
  "realloc_loop shrink rem_len [] = None"
| "realloc_loop shrink rem_len (q # qs) =
     (if rem_len > plen q
      then map_option (\<lambda>(ps, k). (q\<lparr>tot_len := tot_len q - shrink\<rparr> # ps, k)) (realloc_loop shrink (rem_len - plen q) qs)
      else Some ([q\<lparr>payload := take (unat rem_len) (payload q), tot_len := rem_len\<rparr>], length qs))"

definition pbuf_realloc :: "pbuf list \<Rightarrow> u16 \<Rightarrow> (pbuf list \<times> nat) option" where
  "pbuf_realloc ps new_len =
     (case ps of
        [] \<Rightarrow> None
      | p # _ \<Rightarrow> if new_len \<ge> tot_len p then Some (ps, 0) else realloc_loop (tot_len p - new_len) new_len ps)"

definition pbuf_free :: "pbuf list \<Rightarrow> nat \<Rightarrow> nat" where
  "pbuf_free ps free = free + length ps"

section \<open>Output\<close>

text \<open>The result of an output step: the error, the buffer \<^verbatim>\<open>nb\<close>, the frame check sequence and the line.\<close>

definition send_nb :: "'o device \<Rightarrow> u8 list \<Rightarrow> 'o \<Rightarrow> bool \<times> 'o" where
  "send_nb output_cb nb o' = (let (l, o1) = output_cb nb o' in (l = of_nat (length nb), o1))"

definition nb_put :: "nat \<Rightarrow> u8 list \<Rightarrow> u8 list \<Rightarrow> u8 list option" where
  "nb_put B nb cs = (if length nb + length cs \<le> B then Some (nb @ cs) else None)"

definition pppos_output_append ::
  "'o device \<Rightarrow> nat \<Rightarrow> u8 list \<Rightarrow> u8 \<Rightarrow> bool \<Rightarrow> u16 option \<Rightarrow> err_t \<times> u8 list \<times> 'o \<Rightarrow> ((err_t \<times> u8 list \<times> 'o) \<times> u16 option) option" where
  "pppos_output_append output_cb B accm_out c accm fcs st =
     (case st of (err, nb, o') \<Rightarrow>
       if err \<noteq> ERR_OK then Some (st, fcs)
       else
         let (sent, nb1, o1) = (if int B - int (length nb) < 2
               then (let (ok, o1) = send_nb output_cb nb o' in (ok, if ok then [] else nb, o1)) else (True, nb, o'))
         in if \<not> sent then Some ((ERR_IF, nb1, o1), fcs)
            else do {
              nb2 \<leftarrow> nb_put B nb1 (if accm \<and> ESCAPE_P accm_out c then [PPP_ESCAPE, c XOR PPP_TRANS] else [c]);
              Some ((ERR_OK, nb2, o1), map_option (\<lambda>f. PPP_FCS f c) fcs) })"

text \<open>The loops over the bytes of a buffer.\<close>

fun append_all ::
  "'o device \<Rightarrow> nat \<Rightarrow> u8 list \<Rightarrow> u8 list \<Rightarrow> u16 option \<Rightarrow> err_t \<times> u8 list \<times> 'o \<Rightarrow> ((err_t \<times> u8 list \<times> 'o) \<times> u16 option) option" where
  "append_all output_cb B accm_out [] fcs st = Some (st, fcs)"
| "append_all output_cb B accm_out (c # cs) fcs st = do {
     (st1, fcs1) \<leftarrow> pppos_output_append output_cb B accm_out c True fcs st;
     append_all output_cb B accm_out cs fcs1 st1 }"

definition pppos_output_last :: "'o device \<Rightarrow> nat \<Rightarrow> u32 \<Rightarrow> u16 \<Rightarrow> err_t \<times> u8 list \<times> 'o \<Rightarrow> ('u, 'o) link \<Rightarrow> (err_t \<times> ('u, 'o) link) option" where
  "pppos_output_last output_cb B now fcs st l = do {
     let accm = out_accm (pcb l);
     (st1, _) \<leftarrow> pppos_output_append output_cb B accm (ucast (NOT fcs AND 0xFF)) True None st;
     (st2, _) \<leftarrow> pppos_output_append output_cb B accm (ucast (drop_bit 8 (NOT fcs) AND 0xFF)) True None st1;
     ((err, nb, o1), _) \<leftarrow> pppos_output_append output_cb B accm PPP_FLAG False None st2;
     let (ok, o2) = (if err = ERR_OK \<and> length nb > 0 then send_nb output_cb nb o1 else (True, o1));
     let err2 = (if ok then err else ERR_IF);
     if err2 = ERR_OK
     then Some (ERR_OK, l\<lparr>pcb := (pcb l)\<lparr>last_xmit := now\<rparr>, line := o2, stats := (stats l)\<lparr>st_xmit := st_xmit (stats l) + 1\<rparr>,
       pool := pool l + 1\<rparr>)
     else Some (err2, l\<lparr>pcb := (pcb l)\<lparr>last_xmit := 0\<rparr>, line := o2,
       stats := (stats l)\<lparr>st_err := st_err (stats l) + 1, st_drop := st_drop (stats l) + 1\<rparr>, pool := pool l + 1\<rparr>) }"

definition no_buffer :: "('u, 'o) link \<Rightarrow> err_t \<times> ('u, 'o) link" where
  "no_buffer l = (ERR_MEM, l\<lparr>stats := (stats l)\<lparr>st_memerr := st_memerr (stats l) + 1, st_drop := st_drop (stats l) + 1\<rparr>\<rparr>)"

text \<open>A flag first, after a pause.\<close>

definition idle_flag :: "'o device \<Rightarrow> nat \<Rightarrow> u32 \<Rightarrow> ('u, 'o) link \<Rightarrow> ((err_t \<times> u8 list \<times> 'o) \<times> u16 option) option" where
  "idle_flag output_cb B now l =
     (if now - last_xmit (pcb l) \<ge> PPP_MAXIDLEFLAG
      then pppos_output_append output_cb B (out_accm (pcb l)) PPP_FLAG False None (ERR_OK, [], line l)
      else Some ((ERR_OK, [], line l), None))"

definition pppos_write :: "'o device \<Rightarrow> nat \<Rightarrow> u32 \<Rightarrow> u32 \<Rightarrow> u8 list \<Rightarrow> ('u, 'o) link \<Rightarrow> (err_t \<times> ('u, 'o) link) option" where
  "pppos_write output_cb B now now' p l =
     (let (nb, free) = pbuf_alloc B 0 (pool l)
      in if nb = [] then Some (no_buffer l)
         else do {
           (st0, _) \<leftarrow> idle_flag output_cb B now l;
           (st1, fcs) \<leftarrow> append_all output_cb B (out_accm (pcb l)) p (Some PPP_INITFCS) st0;
           pppos_output_last output_cb B now' (the fcs) st1 (l\<lparr>pool := free\<rparr>) })"

definition pppos_netif_output ::
  "'o device \<Rightarrow> nat \<Rightarrow> u32 \<Rightarrow> u32 \<Rightarrow> u8 list list \<Rightarrow> u16 \<Rightarrow> ('u, 'o) link \<Rightarrow> (err_t \<times> ('u, 'o) link) option" where
  "pppos_netif_output output_cb B now now' pb protocol l =
     (let (nb, free) = pbuf_alloc B 0 (pool l); accm = out_accm (pcb l)
      in if nb = [] then Some (no_buffer l)
         else do {
           (st0, _) \<leftarrow> idle_flag output_cb B now l;
           (st1, f1) \<leftarrow> append_all output_cb B accm (if accomp (pcb l) then [] else [PPP_ALLSTATIONS, PPP_UI]) (Some PPP_INITFCS) st0;
           (st2, f2) \<leftarrow> append_all output_cb B accm
             (if \<not> pcomp (pcb l) \<or> protocol > 0xFF then [ucast (drop_bit 8 protocol AND 0xFF)] else []) f1 st1;
           (st3, f3) \<leftarrow> append_all output_cb B accm [ucast (protocol AND 0xFF)] f2 st2;
           (st4, f4) \<leftarrow> append_all output_cb B accm (concat pb) f3 st3;
           pppos_output_last output_cb B now' (the f4) st4 (l\<lparr>pool := free\<rparr>) })"

section \<open>Control\<close>

definition pcb0 :: pppos_pcb where
  "pcb0 = \<lparr>last_xmit = 0, out_accm = replicate 32 0, popen = False, pcomp = False, accomp = False, in_accm = replicate 32 0,
     in_head = [], in_tail = Tail_null, in_protocol = 0, in_fcs = 0, in_state = PDIDLE, in_escaped = False\<rparr>"

text \<open>The control blocks come from a pool of their own; \<open>new_ok\<close>: \<^verbatim>\<open>ppp_new\<close> has succeeded.\<close>

definition pppos_create :: "bool \<Rightarrow> nat \<Rightarrow> pppos_pcb option \<times> nat" where
  "pppos_create new_ok pcbs = (if pcbs = 0 then (None, pcbs) else if \<not> new_ok then (None, pcbs) else (Some pcb0, pcbs - 1))"

definition pppos_destroy :: "nat \<Rightarrow> err_t \<times> nat" where
  "pppos_destroy pcbs = (ERR_OK, pcbs + 1)"

definition pppos_input_free_current_packet :: "('u, 'o) link \<Rightarrow> ('u, 'o) link" where
  "pppos_input_free_current_packet l =
     (let p = pcb l; own = (case in_tail p of Tail_own t \<Rightarrow> [t] | _ \<Rightarrow> [])
      in l\<lparr>pool := (if in_head p \<noteq> [] then pbuf_free (in_head p) (pbuf_free own (pool l)) else pool l),
           pcb := p\<lparr>in_head := [], in_tail := Tail_null\<rparr>\<rparr>)"

definition pppos_input_drop :: "('u, 'o) link \<Rightarrow> ('u, 'o) link" where
  "pppos_input_drop l = (pppos_input_free_current_packet l)\<lparr>vj_toss := True, stats := (stats l)\<lparr>st_drop := st_drop (stats l) + 1\<rparr>\<rparr>"

definition pppos_connect :: "('u, 'o) link \<Rightarrow> ('u, 'o) link" where
  "pppos_connect l = l\<lparr>pcb := pcb0\<lparr>in_accm := (in_accm pcb0)[15 := 0x60], out_accm := (out_accm pcb0)[15 := 0x60], popen := True\<rparr>\<rparr>"

definition pppos_disconnect :: "('u, 'o) link \<Rightarrow> ('u, 'o) link" where
  "pppos_disconnect l = pppos_input_free_current_packet (l\<lparr>pcb := (pcb l)\<lparr>popen := False\<rparr>\<rparr>)"

text \<open>The four bytes of the map for the control characters.\<close>

definition load_accm :: "u32 \<Rightarrow> u8 list \<Rightarrow> u8 list" where
  "load_accm accm m = fold (\<lambda>i m. m[i := ucast (drop_bit (8 * i) accm AND 0xFF)]) [0..<4] m"

definition pppos_send_config :: "u32 \<Rightarrow> bool \<Rightarrow> bool \<Rightarrow> ('u, 'o) link \<Rightarrow> ('u, 'o) link" where
  "pppos_send_config accm pc ac l = l\<lparr>pcb := (pcb l)\<lparr>pcomp := pc, accomp := ac, out_accm := load_accm accm (out_accm (pcb l))\<rparr>\<rparr>"

definition pppos_recv_config :: "u32 \<Rightarrow> bool \<Rightarrow> bool \<Rightarrow> ('u, 'o) link \<Rightarrow> ('u, 'o) link" where
  "pppos_recv_config accm pc ac l = l\<lparr>pcb := (pcb l)\<lparr>in_accm := load_accm accm (in_accm (pcb l))\<rparr>\<rparr>"

fun link_call :: "'o device \<Rightarrow> nat \<Rightarrow> lcall \<Rightarrow> ('u, 'o) link \<Rightarrow> ('u, 'o) link option" where
  "link_call output_cb B Connect l = Some (pppos_connect l)"
| "link_call output_cb B Disconnect l = Some (pppos_disconnect l)"
| "link_call output_cb B (Send_config a p c) l = Some (pppos_send_config a p c l)"
| "link_call output_cb B (Recv_config a p c) l = Some (pppos_recv_config a p c l)"
| "link_call output_cb B (Write now now' p) l = map_option snd (pppos_write output_cb B now now' p l)"
| "link_call output_cb B (Netif_output now now' pb protocol) l = map_option snd (pppos_netif_output output_cb B now now' pb protocol l)"
| "link_call output_cb B (Release n) l = Some (l\<lparr>pool := pool l + min n (lent l), lent := lent l - min n (lent l)\<rparr>)"

fun link_calls :: "'o device \<Rightarrow> nat \<Rightarrow> lcall list \<Rightarrow> ('u, 'o) link \<Rightarrow> ('u, 'o) link option" where
  "link_calls output_cb B [] l = Some l"
| "link_calls output_cb B (c # cs) l = do { l1 \<leftarrow> link_call output_cb B c l; link_calls output_cb B cs l1 }"

section \<open>Input\<close>

definition upd_pcb :: "(pppos_pcb \<Rightarrow> pppos_pcb) \<Rightarrow> ('u, 'o) link \<Rightarrow> ('u, 'o) link" where
  "upd_pcb f l = l\<lparr>pcb := f (pcb l)\<rparr>"

text \<open>The buffer that \<^verbatim>\<open>in_tail\<close> points to, and a store to it.\<close>

definition tail_get :: "pppos_pcb \<Rightarrow> pbuf option" where
  "tail_get p = (case in_tail p of Tail_null \<Rightarrow> None | Tail_own t \<Rightarrow> Some t | Tail_head \<Rightarrow> (case in_head p of [] \<Rightarrow> None | h # _ \<Rightarrow> Some h))"

definition tail_put :: "pbuf \<Rightarrow> pppos_pcb \<Rightarrow> pppos_pcb" where
  "tail_put t p = (case in_tail p of Tail_null \<Rightarrow> p | Tail_own _ \<Rightarrow> p\<lparr>in_tail := Tail_own t\<rparr>
     | Tail_head \<Rightarrow> (case in_head p of [] \<Rightarrow> p | _ # hs \<Rightarrow> p\<lparr>in_head := t # hs\<rparr>))"

text \<open>\<^verbatim>\<open>in_tail->tot_len = in_tail->len\<close>, and the chain with the tail.\<close>

definition close_tail :: "pppos_pcb \<Rightarrow> pppos_pcb option" where
  "close_tail p = do {
     t \<leftarrow> tail_get p;
     let t1 = t\<lparr>tot_len := plen t\<rparr>;
     let p1 = tail_put t1 p;
     (case in_tail p1 of
        Tail_own _ \<Rightarrow> do { h \<leftarrow> pbuf_cat (in_head p1) t1; Some (p1\<lparr>in_head := h\<rparr>) }
      | _ \<Rightarrow> Some p1) }"

text \<open>A good packet: the checksum is cut off and the packet is passed on.\<close>

definition good_packet :: "'u handler \<Rightarrow> 'o device \<Rightarrow> nat \<Rightarrow> ('u, 'o) link \<Rightarrow> ('u, 'o) link option" where
  "good_packet ppp_input output_cb B l = do {
     t \<leftarrow> tail_get (pcb l);
     (p2, k) \<leftarrow>
       (if length (payload t) > 2
        then do { p1 \<leftarrow> close_tail (tail_put (t\<lparr>payload := take (length (payload t) - 2) (payload t)\<rparr>) (pcb l)); Some (p1, 0) }
        else do {
          p1 \<leftarrow> close_tail (pcb l);
          h \<leftarrow> (case in_head p1 of [] \<Rightarrow> None | h # _ \<Rightarrow> Some h);
          (hs, k) \<leftarrow> pbuf_realloc (in_head p1) (tot_len h - 2);
          Some (p1\<lparr>in_head := hs\<rparr>, k) });
     let inp = in_head p2;
     let (u, calls) = ppp_input inp (upper l);
     link_calls output_cb B calls
       (l\<lparr>pcb := p2\<lparr>in_head := [], in_tail := Tail_null\<rparr>, pool := pool l + k, lent := lent l + length inp, upper := u\<rparr>) }"

definition new_packet :: "('u, 'o) link \<Rightarrow> ('u, 'o) link" where
  "new_packet = upd_pcb (\<lambda>p. p\<lparr>in_fcs := PPP_INITFCS, in_state := PDADDRESS, in_escaped := False\<rparr>)"

definition flag_char :: "'u handler \<Rightarrow> 'o device \<Rightarrow> nat \<Rightarrow> ('u, 'o) link \<Rightarrow> ('u, 'o) link option" where
  "flag_char ppp_input output_cb B l = do {
     l1 \<leftarrow>
       (if in_state (pcb l) \<in> {PDIDLE, PDSTART, PDADDRESS} then Some l
        else if in_state (pcb l) \<noteq> PDDATA
        then Some (pppos_input_drop (l\<lparr>stats := (stats l)\<lparr>st_lenerr := st_lenerr (stats l) + 1\<rparr>\<rparr>))
        else if in_fcs (pcb l) \<noteq> PPP_GOODFCS
        then Some (pppos_input_drop (l\<lparr>stats := (stats l)\<lparr>st_chkerr := st_chkerr (stats l) + 1\<rparr>\<rparr>))
        else good_packet ppp_input output_cb B l);
     Some (new_packet l1) }"

definition data_char :: "nat \<Rightarrow> u8 \<Rightarrow> ('u, 'o) link \<Rightarrow> ('u, 'o) link option" where
  "data_char B c l =
     (let p = pcb l
      in if (case tail_get p of None \<Rightarrow> True | Some t \<Rightarrow> length (payload t) = B)
         then do {
           p1 \<leftarrow> (case in_tail p of
               Tail_null \<Rightarrow> Some p
             | Tail_head \<Rightarrow> close_tail p
             | Tail_own _ \<Rightarrow> do { p1 \<leftarrow> close_tail p; Some (p1\<lparr>in_tail := Tail_null\<rparr>) });
           let (next, free) = pbuf_alloc B 0 (pool l);
           (case next of
              [] \<Rightarrow> Some (upd_pcb (\<lambda>p. p\<lparr>in_state := PDSTART\<rparr>)
                (pppos_input_drop (l\<lparr>pcb := p1, stats := (stats l)\<lparr>st_memerr := st_memerr (stats l) + 1\<rparr>\<rparr>)))
            | nb # _ \<Rightarrow>
                if in_head p1 = []
                then do {
                  d \<leftarrow> nb_put B (payload nb) [ucast (drop_bit 8 (in_protocol p)), ucast (in_protocol p AND 0xFF)];
                  d1 \<leftarrow> nb_put B d [c];
                  Some (l\<lparr>pcb := p1\<lparr>in_head := [nb\<lparr>payload := d1\<rparr>], in_tail := Tail_head\<rparr>, pool := free\<rparr>) }
                else do {
                  d1 \<leftarrow> nb_put B (payload nb) [c];
                  Some (l\<lparr>pcb := p1\<lparr>in_tail := Tail_own (nb\<lparr>payload := d1\<rparr>)\<rparr>, pool := free\<rparr>) }) }
         else do {
           t \<leftarrow> tail_get p;
           d1 \<leftarrow> nb_put B (payload t) [c];
           Some (l\<lparr>pcb := tail_put (t\<lparr>payload := d1\<rparr>) p\<rparr>) })"

text \<open>The \<^verbatim>\<open>switch\<close> with its cases that fall through.\<close>

definition protocol1_char :: "u8 \<Rightarrow> pppos_pcb \<Rightarrow> pppos_pcb" where
  "protocol1_char c p = (if c AND 1 \<noteq> 0 then p\<lparr>in_protocol := ucast c, in_state := PDDATA\<rparr>
     else p\<lparr>in_protocol := push_bit 8 (ucast c), in_state := PDPROTOCOL2\<rparr>)"

definition control_char :: "u8 \<Rightarrow> pppos_pcb \<Rightarrow> pppos_pcb" where
  "control_char c p = (if c = PPP_UI then p\<lparr>in_state := PDPROTOCOL1\<rparr> else protocol1_char c p)"

definition address_char :: "u8 \<Rightarrow> pppos_pcb \<Rightarrow> pppos_pcb" where
  "address_char c p = (if c = PPP_ALLSTATIONS then p\<lparr>in_state := PDCONTROL\<rparr> else control_char c p)"

definition start_char :: "u8 \<Rightarrow> pppos_pcb \<Rightarrow> pppos_pcb" where
  "start_char c p = address_char c (p\<lparr>in_fcs := PPP_INITFCS\<rparr>)"

definition state_char :: "nat \<Rightarrow> u8 \<Rightarrow> ('u, 'o) link \<Rightarrow> ('u, 'o) link option" where
  "state_char B c l =
     (case in_state (pcb l) of
        PDIDLE \<Rightarrow> Some (if c \<noteq> PPP_ALLSTATIONS then l else upd_pcb (start_char c) l)
      | PDSTART \<Rightarrow> Some (upd_pcb (start_char c) l)
      | PDADDRESS \<Rightarrow> Some (upd_pcb (address_char c) l)
      | PDCONTROL \<Rightarrow> Some (upd_pcb (control_char c) l)
      | PDPROTOCOL1 \<Rightarrow> Some (upd_pcb (protocol1_char c) l)
      | PDPROTOCOL2 \<Rightarrow> Some (upd_pcb (\<lambda>p. p\<lparr>in_protocol := in_protocol p OR ucast c, in_state := PDDATA\<rparr>) l)
      | PDDATA \<Rightarrow> data_char B c l)"

definition plain_char :: "nat \<Rightarrow> u8 \<Rightarrow> ('u, 'o) link \<Rightarrow> ('u, 'o) link option" where
  "plain_char B cur_char l =
     (let c = (if in_escaped (pcb l) then cur_char XOR PPP_TRANS else cur_char)
      in do {
        l1 \<leftarrow> state_char B c (upd_pcb (\<lambda>p. p\<lparr>in_escaped := False\<rparr>) l);
        Some (upd_pcb (\<lambda>p. p\<lparr>in_fcs := PPP_FCS (in_fcs p) c\<rparr>) l1) })"

definition input_char :: "'u handler \<Rightarrow> 'o device \<Rightarrow> nat \<Rightarrow> u8 \<Rightarrow> ('u, 'o) link \<Rightarrow> ('u, 'o) link option" where
  "input_char ppp_input output_cb B c l =
     (if ESCAPE_P (in_accm (pcb l)) c
      then (if c = PPP_ESCAPE then Some (upd_pcb (\<lambda>p. p\<lparr>in_escaped := True\<rparr>) l)
            else if c = PPP_FLAG then flag_char ppp_input output_cb B l
            else Some l)
      else plain_char B c l)"

fun pppos_input :: "'u handler \<Rightarrow> 'o device \<Rightarrow> nat \<Rightarrow> u8 list \<Rightarrow> ('u, 'o) link \<Rightarrow> ('u, 'o) link option" where
  "pppos_input ppp_input output_cb B [] l = Some l"
| "pppos_input ppp_input output_cb B (c # s) l =
     (if \<not> popen (pcb l) then Some l
      else do { l1 \<leftarrow> input_char ppp_input output_cb B c l; pppos_input ppp_input output_cb B s l1 })"

text \<open>Received bytes on their way through the queue of the core thread; \<open>post\<close> is what \<^verbatim>\<open>tcpip_inpkt\<close> returns.\<close>

fun take_chain :: "pbuf list \<Rightarrow> u8 list \<Rightarrow> pbuf list" where
  "take_chain [] s = []"
| "take_chain (p # ps) s = p\<lparr>payload := take (length (payload p)) s\<rparr> # take_chain ps (drop (length (payload p)) s)"

definition pppos_input_tcpip :: "err_t \<Rightarrow> nat \<Rightarrow> u8 list \<Rightarrow> nat \<Rightarrow> err_t \<times> pbuf list \<times> nat" where
  "pppos_input_tcpip post B s free =
     (let (p, free1) = pbuf_alloc B (length s) free
      in if p = [] then (ERR_MEM, [], free1)
         else if post = ERR_OK then (ERR_OK, take_chain p s, free1) else (post, [], pbuf_free p free1))"

fun input_chain :: "'u handler \<Rightarrow> 'o device \<Rightarrow> nat \<Rightarrow> pbuf list \<Rightarrow> ('u, 'o) link \<Rightarrow> ('u, 'o) link option" where
  "input_chain ppp_input output_cb B [] l = Some l"
| "input_chain ppp_input output_cb B (n # ns) l = do {
     l1 \<leftarrow> pppos_input ppp_input output_cb B (payload n) l;
     input_chain ppp_input output_cb B ns l1 }"

definition pppos_input_sys :: "'u handler \<Rightarrow> 'o device \<Rightarrow> nat \<Rightarrow> pbuf list \<Rightarrow> ('u, 'o) link \<Rightarrow> (err_t \<times> ('u, 'o) link) option" where
  "pppos_input_sys ppp_input output_cb B p l = do {
     l1 \<leftarrow> input_chain ppp_input output_cb B p l;
     Some (ERR_OK, l1\<lparr>pool := pbuf_free p (pool l1)\<rparr>) }"

end
