(* ===== verification/PppOsLaws.thy ===== *)
theory PppOsLaws
  imports PppOs
begin

text \<open>
  Laws of the serial link of theory \<open>PppOs\<close>: the frame check sequence, what the output functions send, and what the input
  functions make of it.
\<close>

section \<open>Frame check sequence\<close>

fun tab_from :: "u8 \<Rightarrow> u16 list \<Rightarrow> bool" where
  "tab_from i [] = True"
| "tab_from i (x # xs) = (ppp_get_fcs i = x \<and> tab_from (i + 1) xs)"

lemma funpow_8: "(f ^^ 8) x = f (f (f (f (f (f (f (f x)))))))"
  by (simp add: numeral_eq_Suc)

lemma fcstab_from_0: "tab_from 0 fcstab"
  by (simp add: fcstab_def ppp_get_fcs_def funpow_8 fcs_bit_def PPP_FCS_POLYNOMIAL_def)

lemma tab_from_nth: "tab_from i xs \<Longrightarrow> k < length xs \<Longrightarrow> xs ! k = ppp_get_fcs (i + of_nat k)"
proof (induction xs arbitrary: i k)
  case (Cons x xs)
  then show ?case by (cases k) (auto simp: algebra_simps)
qed simp

lemma fcstab_entries: "length fcstab = 256" "fcstab ! 255 = 0x0F78" "fcstab ! 0x87 = 0xF0B7"
  by code_simp+

lemma fcstab_nth: "k < 256 \<Longrightarrow> fcstab ! k = ppp_get_fcs (of_nat k)"
  using tab_from_nth [OF fcstab_from_0, of k] by (simp add: fcstab_entries)

definition fcs_of :: "u8 list \<Rightarrow> u16 \<Rightarrow> u16" where
  "fcs_of cs f = fold (\<lambda>c f. PPP_FCS f c) cs f"

lemma fcs_of_simps [simp]: "fcs_of [] f = f" "fcs_of (c # cs) f = fcs_of cs (PPP_FCS f c)" "fcs_of (as @ bs) f = fcs_of bs (fcs_of as f)"
  by (simp_all add: fcs_of_def)

text \<open>The two bytes that follow the data.\<close>

definition fcs_bytes :: "u16 \<Rightarrow> u8 list" where
  "fcs_bytes f = [ucast (NOT f AND 0xFF), ucast (drop_bit 8 (NOT f) AND 0xFF)]"

lemma mask8: "(0xFF :: u16) = mask 8"
  by (simp add: mask_eq_exp_minus_1)

lemma fcs_good: "fcs_of (fcs_bytes f) f = PPP_GOODFCS"
proof -
  let ?lo = "ucast (NOT f AND 0xFF) :: u8" let ?hi = "ucast (drop_bit 8 (NOT f) AND 0xFF) :: u8"
  have 1: "(f XOR ucast ?lo) AND 0xFF = (0xFF :: u16)" unfolding mask8 by (rule bit_word_eqI) (auto simp: bit_simps)
  have f1: "PPP_FCS f ?lo = drop_bit 8 f XOR 0x0F78" unfolding PPP_FCS_def 1 by (simp add: fcstab_entries)
  have x: "((a XOR k) XOR b) AND m = ((a XOR b) AND m) XOR (k AND m)" "drop_bit n (a XOR k) = drop_bit n a XOR drop_bit n k" for a b k m :: u16 and n
    by (rule bit_word_eqI, auto simp: bit_simps)+
  have "((drop_bit 8 f XOR 0x0F78) XOR ucast ?hi) AND 0xFF = ((drop_bit 8 f XOR ucast ?hi) AND 0xFF) XOR (0x0F78 AND 0xFF)" by (rule x(1))
  moreover have "(drop_bit 8 f XOR ucast ?hi) AND 0xFF = (0xFF :: u16)" unfolding mask8 by (rule bit_word_eqI) (auto simp: bit_simps)
  ultimately have 2: "((drop_bit 8 f XOR 0x0F78) XOR ucast ?hi) AND 0xFF = (0x87 :: u16)" by simp
  have "drop_bit 8 (drop_bit 8 f XOR 0x0F78) = drop_bit 8 (drop_bit 8 f) XOR (drop_bit 8 0x0F78 :: u16)" by (rule x(2))
  moreover have "drop_bit 8 (drop_bit 8 f) = 0" by (rule bit_word_eqI) (auto simp: bit_simps dest: bit_imp_le_length)
  ultimately have 3: "drop_bit 8 (drop_bit 8 f XOR 0x0F78) = (0x0F :: u16)" by simp
  show ?thesis unfolding fcs_bytes_def by (simp add: f1) (simp add: PPP_FCS_def 2 3 fcstab_entries PPP_GOODFCS_def)
qed

section \<open>Output\<close>

definition esc :: "u8 list \<Rightarrow> u8 \<Rightarrow> u8 list" where
  "esc accm c = (if ESCAPE_P accm c then [PPP_ESCAPE, c XOR PPP_TRANS] else [c])"

definition escs :: "u8 list \<Rightarrow> u8 list \<Rightarrow> u8 list" where
  "escs accm cs = concat (map (esc accm) cs)"

lemma escs_simps [simp]: "escs accm [] = []" "escs accm (c # cs) = esc accm c @ escs accm cs" "escs accm (as @ bs) = escs accm as @ escs accm bs"
  by (simp_all add: escs_def)

text \<open>A frame on the line: the body with its check sequence, escaped, and the closing flag.\<close>

definition frame :: "u8 list \<Rightarrow> u8 list \<Rightarrow> u8 list" where
  "frame accm body = escs accm (body @ fcs_bytes (fcs_of body PPP_INITFCS)) @ [PPP_FLAG]"

definition idle_text :: "u32 \<Rightarrow> pppos_pcb \<Rightarrow> u8 list" where
  "idle_text now p = (if now - last_xmit p \<ge> PPP_MAXIDLEFLAG then [PPP_FLAG] else [])"

lemma alloc_nb: "0 < n \<Longrightarrow> pbuf_alloc B 0 n = ([\<lparr>payload = [], tot_len = 0\<rparr>], n - 1)"
  by (simp add: pbuf_alloc_def pool_chain.simps [of B n 0])

text \<open>The header that \<^verbatim>\<open>pppos_netif_output\<close> writes.\<close>

definition header :: "pppos_pcb \<Rightarrow> u16 \<Rightarrow> u8 list" where
  "header p protocol = (if accomp p then [] else [PPP_ALLSTATIONS, PPP_UI]) @
     (if \<not> pcomp p \<or> protocol > 0xFF then [ucast (drop_bit 8 protocol AND 0xFF)] else []) @ [ucast (protocol AND 0xFF)]"

text \<open>A serial device that sends all that it is given, as long as it is \<open>up\<close>; \<open>sent\<close> is what it has sent.\<close>

locale serial_device =
  fixes output_cb :: "'o device" and sent :: "'o \<Rightarrow> u8 list" and up :: "'o \<Rightarrow> bool"
  assumes sends: "up o' \<Longrightarrow> \<exists>o1. output_cb bs o' = (of_nat (length bs), o1) \<and> sent o1 = sent o' @ bs \<and> up o1"
begin

text \<open>\<open>st\<close> has written \<open>w\<close> in all, part of it still in the buffer.\<close>

definition wrote :: "nat \<Rightarrow> u8 list \<Rightarrow> err_t \<times> u8 list \<times> 'o \<Rightarrow> bool" where
  "wrote B w st \<longleftrightarrow> (case st of (err, nb, o') \<Rightarrow> err = ERR_OK \<and> length nb \<le> B \<and> sent o' @ nb = w \<and> up o')"

lemma send_nb_ok: "up o' \<Longrightarrow> \<exists>o1. send_nb output_cb nb o' = (True, o1) \<and> sent o1 = sent o' @ nb \<and> up o1"
  using sends [of o' nb] by (auto simp: send_nb_def)

lemma append_ok:
  assumes "wrote B w st" "2 \<le> B"
  shows "\<exists>st'. pppos_output_append output_cb B accm c a fcs st = Some (st', map_option (\<lambda>f. PPP_FCS f c) fcs) \<and>
    wrote B (w @ (if a then esc accm c else [c])) st'"
proof -
  obtain nb o' where st: "st = (ERR_OK, nb, o')" "length nb \<le> B" "sent o' @ nb = w" "up o'" using assms(1) by (auto simp: wrote_def)
  obtain o1 where o1: "send_nb output_cb nb o' = (True, o1)" "sent o1 = w" "up o1" using send_nb_ok [OF st(4)] st(3) by blast
  show ?thesis
  proof (cases "int B - int (length nb) < 2")
    case True
    then show ?thesis using st(1) o1 assms(2) by (auto simp: pppos_output_append_def nb_put_def wrote_def esc_def)
  next
    case False
    then show ?thesis using st by (auto simp: pppos_output_append_def nb_put_def wrote_def esc_def)
  qed
qed

lemma append_all_ok:
  assumes "2 \<le> B"
  shows "wrote B w st \<Longrightarrow> \<exists>st'. append_all output_cb B accm cs fcs st = Some (st', map_option (fcs_of cs) fcs) \<and> wrote B (w @ escs accm cs) st'"
proof (induction cs arbitrary: w st fcs)
  case (Cons c cs)
  from append_ok [OF Cons.prems assms, of accm c True fcs] obtain st1 where
    1: "pppos_output_append output_cb B accm c True fcs st = Some (st1, map_option (\<lambda>f. PPP_FCS f c) fcs)" "wrote B (w @ esc accm c) st1" by auto
  from Cons.IH [OF 1(2), of "map_option (\<lambda>f. PPP_FCS f c) fcs"] 1(1) show ?case by (cases fcs) auto
next
  case Nil
  then show ?case by (cases fcs) auto
qed

lemma output_last_ok:
  assumes "wrote B w st" "2 \<le> B"
  shows "\<exists>o2. pppos_output_last output_cb B now f st l = Some (ERR_OK,
      l\<lparr>pcb := (pcb l)\<lparr>last_xmit := now\<rparr>, line := o2, stats := (stats l)\<lparr>st_xmit := st_xmit (stats l) + 1\<rparr>, pool := pool l + 1\<rparr>) \<and>
    sent o2 = w @ escs (out_accm (pcb l)) (fcs_bytes f) @ [PPP_FLAG] \<and> up o2"
proof -
  let ?a = "out_accm (pcb l)"
  from append_ok [OF assms, of ?a "ucast (NOT f AND 0xFF)" True None] obtain st1 where
    1: "pppos_output_append output_cb B ?a (ucast (NOT f AND 0xFF)) True None st = Some (st1, None)"
      "wrote B (w @ esc ?a (ucast (NOT f AND 0xFF))) st1" by auto
  from append_ok [OF 1(2) assms(2), of ?a "ucast (drop_bit 8 (NOT f) AND 0xFF)" True None] obtain st2 where
    2: "pppos_output_append output_cb B ?a (ucast (drop_bit 8 (NOT f) AND 0xFF)) True None st1 = Some (st2, None)"
      "wrote B (w @ escs ?a (fcs_bytes f)) st2" by (auto simp: fcs_bytes_def)
  from append_ok [OF 2(2) assms(2), of ?a PPP_FLAG False None] obtain nb o1 where
    3: "pppos_output_append output_cb B ?a PPP_FLAG False None st2 = Some ((ERR_OK, nb, o1), None)"
      "sent o1 @ nb = w @ escs ?a (fcs_bytes f) @ [PPP_FLAG]" "up o1" by (auto simp: wrote_def)
  obtain o2 where o2: "(if length nb > 0 then send_nb output_cb nb o1 else (True, o1)) = (True, o2)" "sent o2 = sent o1 @ nb" "up o2"
    using send_nb_ok [OF 3(3), of nb] 3(3) by (cases "nb = []") auto
  show ?thesis using 1(1) 2(1) 3 o2 by (auto simp: pppos_output_last_def Let_def)
qed

lemma idle_flag_ok:
  assumes "up (line l)" "2 \<le> B"
  shows "\<exists>st. idle_flag output_cb B now l = Some (st, None) \<and> wrote B (sent (line l) @ idle_text now (pcb l)) st"
proof -
  have "wrote B (sent (line l)) (ERR_OK, [], line l)" using assms(1) by (simp add: wrote_def)
  from append_ok [OF this assms(2), of "out_accm (pcb l)" PPP_FLAG False None] this show ?thesis
    by (auto simp: idle_flag_def idle_text_def)
qed

lemma write_ok:
  assumes "up (line l)" "2 \<le> B" "0 < pool l"
  shows "\<exists>l'. pppos_write output_cb B now now' p l = Some (ERR_OK, l') \<and>
    sent (line l') = sent (line l) @ idle_text now (pcb l) @ frame (out_accm (pcb l)) p \<and> up (line l') \<and> pool l' = pool l"
proof -
  obtain st where st: "idle_flag output_cb B now l = Some (st, None)" "wrote B (sent (line l) @ idle_text now (pcb l)) st"
    using idle_flag_ok [OF assms(1,2)] by blast
  obtain st1 where st1: "append_all output_cb B (out_accm (pcb l)) p (Some PPP_INITFCS) st = Some (st1, Some (fcs_of p PPP_INITFCS))"
    "wrote B ((sent (line l) @ idle_text now (pcb l)) @ escs (out_accm (pcb l)) p) st1"
    using append_all_ok [OF assms(2) st(2), of "out_accm (pcb l)" p "Some PPP_INITFCS"] by auto
  from output_last_ok [OF st1(2) assms(2), of now' "fcs_of p PPP_INITFCS" "l\<lparr>pool := pool l - 1\<rparr>"] st(1) st1(1) alloc_nb [OF assms(3), of B] assms(3)
  show ?thesis by (auto simp: pppos_write_def frame_def)
qed

lemma netif_output_ok:
  assumes "up (line l)" "2 \<le> B" "0 < pool l"
  shows "\<exists>l'. pppos_netif_output output_cb B now now' pb protocol l = Some (ERR_OK, l') \<and>
    sent (line l') = sent (line l) @ idle_text now (pcb l) @ frame (out_accm (pcb l)) (header (pcb l) protocol @ concat pb) \<and>
    up (line l') \<and> pool l' = pool l"
proof -
  let ?a = "out_accm (pcb l)" let ?w = "sent (line l) @ idle_text now (pcb l)"
  define h1 where "h1 = (if accomp (pcb l) then [] else [PPP_ALLSTATIONS, PPP_UI])"
  define h2 where "h2 = (if \<not> pcomp (pcb l) \<or> protocol > 0xFF then [ucast (drop_bit 8 protocol AND 0xFF)] else [] :: u8 list)"
  define h3 where "h3 = [ucast (protocol AND 0xFF) :: u8]"
  have h: "header (pcb l) protocol = h1 @ h2 @ h3" by (simp add: header_def h1_def h2_def h3_def)
  obtain st where st: "idle_flag output_cb B now l = Some (st, None)" "wrote B ?w st" using idle_flag_ok [OF assms(1,2)] by blast
  obtain st1 where 1: "append_all output_cb B ?a h1 (Some PPP_INITFCS) st = Some (st1, Some (fcs_of h1 PPP_INITFCS))" "wrote B (?w @ escs ?a h1) st1"
    using append_all_ok [OF assms(2) st(2), of ?a h1 "Some PPP_INITFCS"] by auto
  obtain st2 where 2: "append_all output_cb B ?a h2 (Some (fcs_of h1 PPP_INITFCS)) st1 = Some (st2, Some (fcs_of (h1 @ h2) PPP_INITFCS))"
    "wrote B (?w @ escs ?a (h1 @ h2)) st2"
    using append_all_ok [OF assms(2) 1(2), of ?a h2 "Some (fcs_of h1 PPP_INITFCS)"] by auto
  obtain st3 where 3: "append_all output_cb B ?a h3 (Some (fcs_of (h1 @ h2) PPP_INITFCS)) st2 = Some (st3, Some (fcs_of (h1 @ h2 @ h3) PPP_INITFCS))"
    "wrote B (?w @ escs ?a (h1 @ h2 @ h3)) st3"
    using append_all_ok [OF assms(2) 2(2), of ?a h3 "Some (fcs_of (h1 @ h2) PPP_INITFCS)"] by auto
  let ?b = "h1 @ h2 @ h3 @ concat pb"
  obtain st4 where 4: "append_all output_cb B ?a (concat pb) (Some (fcs_of (h1 @ h2 @ h3) PPP_INITFCS)) st3 = Some (st4, Some (fcs_of ?b PPP_INITFCS))"
    "wrote B (?w @ escs ?a ?b) st4"
    using append_all_ok [OF assms(2) 3(2), of ?a "concat pb" "Some (fcs_of (h1 @ h2 @ h3) PPP_INITFCS)"] by auto
  from output_last_ok [OF 4(2) assms(2), of now' "fcs_of ?b PPP_INITFCS" "l\<lparr>pool := pool l - 1\<rparr>"] st(1) 1(1) 2(1) 3(1) 4(1) alloc_nb [OF assms(3), of B] assms(3)
  show ?thesis unfolding pppos_netif_output_def h1_def [symmetric] h2_def [symmetric] h3_def [symmetric] h frame_def by auto
qed

end

section \<open>Input of a frame\<close>

text \<open>The two character maps fit: what the receiver drops or interprets, the sender escapes, and no escaped character looks special.\<close>

definition maps_fit :: "u8 list \<Rightarrow> u8 list \<Rightarrow> bool" where
  "maps_fit outm inm \<longleftrightarrow> (\<forall>c. (ESCAPE_P inm c \<longrightarrow> ESCAPE_P outm c) \<and> (ESCAPE_P outm c \<longrightarrow> \<not> ESCAPE_P inm (c XOR PPP_TRANS))) \<and>
     ESCAPE_P inm PPP_ESCAPE \<and> ESCAPE_P inm PPP_FLAG"

lemma pppos_input_single: "popen (pcb l) \<Longrightarrow> pppos_input ppp_input output_cb B [c] l = input_char ppp_input output_cb B c l"
  by (cases "input_char ppp_input output_cb B c l") simp_all

lemma pppos_input_append: "pppos_input ppp_input output_cb B (a @ b) l = do { l1 \<leftarrow> pppos_input ppp_input output_cb B a l; pppos_input ppp_input output_cb B b l1 }"
proof (induction a arbitrary: l)
  case (Cons c a)
  show ?case
  proof (cases "popen (pcb l)")
    case True
    then show ?thesis using Cons by (cases "input_char ppp_input output_cb B c l") simp_all
  next
    case False
    then show ?thesis by (cases b) simp_all
  qed
qed simp

lemma input_chain_concat: "input_chain ppp_input output_cb B ns l = pppos_input ppp_input output_cb B (concat (map payload ns)) l"
proof (induction ns arbitrary: l)
  case (Cons n ns)
  then show ?case by (cases "pppos_input ppp_input output_cb B (payload n) l") (simp_all add: pppos_input_append)
qed simp

text \<open>The characters of a body, after the escapes.\<close>

fun plain_chars :: "nat \<Rightarrow> u8 list \<Rightarrow> ('u, 'o) link \<Rightarrow> ('u, 'o) link option" where
  "plain_chars B [] l = Some l"
| "plain_chars B (c # cs) l = do { l1 \<leftarrow> plain_char B c l; plain_chars B cs l1 }"

lemma plain_chars_append: "plain_chars B (a @ b) l = do { l1 \<leftarrow> plain_chars B a l; plain_chars B b l1 }"
proof (induction a arbitrary: l)
  case (Cons c a)
  then show ?case by (cases "plain_char B c l") simp_all
qed simp

definition same_ends :: "('u, 'o) link \<Rightarrow> ('u, 'o) link \<Rightarrow> bool" where
  "same_ends l l' \<longleftrightarrow> popen (pcb l') = popen (pcb l) \<and> in_accm (pcb l') = in_accm (pcb l) \<and> out_accm (pcb l') = out_accm (pcb l) \<and>
     upper l' = upper l \<and> line l' = line l \<and> lent l' = lent l"

lemma same_ends_refl [simp]: "same_ends l l"
  by (simp add: same_ends_def)

lemma same_ends_trans: "same_ends l l1 \<Longrightarrow> same_ends l1 l2 \<Longrightarrow> same_ends l l2"
  by (simp add: same_ends_def)

lemma close_tail_same:
  "close_tail p = Some p' \<Longrightarrow> popen p' = popen p \<and> in_accm p' = in_accm p \<and> out_accm p' = out_accm p \<and> in_escaped p' = in_escaped p \<and>
     in_state p' = in_state p \<and> in_protocol p' = in_protocol p \<and> in_fcs p' = in_fcs p"
  by (auto simp: close_tail_def tail_get_def tail_put_def bind_eq_Some_conv Let_def split: in_tail.splits list.splits)

lemma tail_put_same:
  "popen (tail_put t p) = popen p \<and> in_accm (tail_put t p) = in_accm p \<and> out_accm (tail_put t p) = out_accm p \<and> in_escaped (tail_put t p) = in_escaped p \<and>
     in_state (tail_put t p) = in_state p \<and> in_protocol (tail_put t p) = in_protocol p \<and> in_fcs (tail_put t p) = in_fcs p"
  by (simp add: tail_put_def split: in_tail.split list.split)

lemma drop_same: "same_ends l (pppos_input_drop l) \<and> in_escaped (pcb (pppos_input_drop l)) = in_escaped (pcb l)"
  by (simp add: same_ends_def pppos_input_drop_def pppos_input_free_current_packet_def Let_def)

text \<open>The cases of \<^term>\<open>data_char\<close>: there is room in the tail; no buffer is free; the first buffer of a packet; another one.\<close>

definition closed_pcb :: "pppos_pcb \<Rightarrow> pppos_pcb option" where
  "closed_pcb p = (case in_tail p of
      Tail_null \<Rightarrow> Some p
    | Tail_head \<Rightarrow> close_tail p
    | Tail_own _ \<Rightarrow> do { p1 \<leftarrow> close_tail p; Some (p1\<lparr>in_tail := Tail_null\<rparr>) })"

lemma closed_pcb_same:
  "closed_pcb p = Some p' \<Longrightarrow> popen p' = popen p \<and> in_accm p' = in_accm p \<and> out_accm p' = out_accm p \<and> in_escaped p' = in_escaped p \<and>
     in_state p' = in_state p \<and> in_protocol p' = in_protocol p \<and> in_fcs p' = in_fcs p"
  by (auto simp: closed_pcb_def bind_eq_Some_conv dest!: close_tail_same split: in_tail.splits)

lemma data_char_cases:
  assumes "data_char B c l = Some l'"
  obtains (room) t where "tail_get (pcb l) = Some t" "length (payload t) \<noteq> B" "length (payload t) + 1 \<le> B"
      "l' = l\<lparr>pcb := tail_put (t\<lparr>payload := payload t @ [c]\<rparr>) (pcb l)\<rparr>"
    | (full) p1 where "closed_pcb (pcb l) = Some p1" "pool l = 0"
      "l' = upd_pcb (\<lambda>p. p\<lparr>in_state := PDSTART\<rparr>) (pppos_input_drop (l\<lparr>pcb := p1, stats := (stats l)\<lparr>st_memerr := st_memerr (stats l) + 1\<rparr>\<rparr>))"
    | (first) p1 where "closed_pcb (pcb l) = Some p1" "0 < pool l" "in_head p1 = []" "3 \<le> B"
      "l' = l\<lparr>pcb := p1\<lparr>in_head := [\<lparr>payload = [ucast (drop_bit 8 (in_protocol (pcb l))), ucast (in_protocol (pcb l) AND 0xFF), c], tot_len = 0\<rparr>],
        in_tail := Tail_head\<rparr>, pool := pool l - 1\<rparr>"
    | (more) p1 where "closed_pcb (pcb l) = Some p1" "0 < pool l" "in_head p1 \<noteq> []" "1 \<le> B"
      "l' = l\<lparr>pcb := p1\<lparr>in_tail := Tail_own \<lparr>payload = [c], tot_len = 0\<rparr>\<rparr>, pool := pool l - 1\<rparr>"
proof (cases "case tail_get (pcb l) of None \<Rightarrow> True | Some t \<Rightarrow> length (payload t) = B")
  case True
  then obtain p1 where p1: "closed_pcb (pcb l) = Some p1" using assms by (auto simp: data_char_def Let_def bind_eq_Some_conv closed_pcb_def [symmetric])
  show thesis
  proof (cases "pool l = 0")
    case z: True
    have "pbuf_alloc B 0 (pool l) = ([], 0)" by (simp add: z pbuf_alloc_def pool_chain.simps)
    then show thesis using True p1 z assms by (intro full [OF p1 z]) (simp add: data_char_def Let_def closed_pcb_def [symmetric])
  next
    case z: False
    then have a: "pbuf_alloc B 0 (pool l) = ([\<lparr>payload = [], tot_len = 0\<rparr>], pool l - 1)" by (simp add: alloc_nb)
    show thesis
    proof (cases "in_head p1 = []")
      case h: True
      then show thesis using True p1 z a assms
        by (intro first [OF p1 _ h]) (auto simp: data_char_def Let_def closed_pcb_def [symmetric] nb_put_def split: if_splits)
    next
      case h: False
      then show thesis using True p1 z a assms
        by (intro more [OF p1 _ h]) (auto simp: data_char_def Let_def closed_pcb_def [symmetric] nb_put_def split: if_splits)
    qed
  qed
next
  case False
  then obtain t where "tail_get (pcb l) = Some t" "length (payload t) \<noteq> B" by (auto split: option.splits)
  then show thesis using assms by (intro room) (auto simp: data_char_def Let_def nb_put_def split: if_splits)
qed

lemma data_char_same: "data_char B c l = Some l' \<Longrightarrow> same_ends l l' \<and> in_escaped (pcb l') = in_escaped (pcb l)"
proof (erule data_char_cases)
  fix p1 assume p1: "closed_pcb (pcb l) = Some p1"
  let ?l = "l\<lparr>pcb := p1, stats := (stats l)\<lparr>st_memerr := st_memerr (stats l) + 1\<rparr>\<rparr>"
  assume "l' = upd_pcb (\<lambda>p. p\<lparr>in_state := PDSTART\<rparr>) (pppos_input_drop ?l)"
  then show "same_ends l l' \<and> in_escaped (pcb l') = in_escaped (pcb l)"
    using drop_same [of ?l] closed_pcb_same [OF p1] by (simp add: same_ends_def upd_pcb_def)
qed (auto simp: same_ends_def tail_put_same dest: closed_pcb_same)

lemma plain_char_same:
  assumes "plain_char B c l = Some l'"
  shows "same_ends l l'" "\<not> in_escaped (pcb l')"
proof -
  let ?c = "if in_escaped (pcb l) then c XOR PPP_TRANS else c" let ?l = "upd_pcb (\<lambda>p. p\<lparr>in_escaped := False\<rparr>) l"
  obtain l1 where l1: "state_char B ?c ?l = Some l1" "l' = upd_pcb (\<lambda>p. p\<lparr>in_fcs := PPP_FCS (in_fcs p) ?c\<rparr>) l1"
    using assms by (auto simp: plain_char_def Let_def bind_eq_Some_conv)
  have "same_ends ?l l1 \<and> in_escaped (pcb l1) = in_escaped (pcb ?l)"
  proof (cases "in_state (pcb ?l) = PDDATA")
    case True
    then show ?thesis using l1(1) data_char_same by (simp add: state_char_def)
  next
    case False
    then show ?thesis using l1(1)
      by (auto simp: state_char_def same_ends_def upd_pcb_def start_char_def address_char_def control_char_def protocol1_char_def split: pd_state.splits if_splits)
  qed
  then show "same_ends l l'" "\<not> in_escaped (pcb l')" using l1(2) by (simp_all add: same_ends_def upd_pcb_def)
qed

lemma input_esc:
  assumes "maps_fit outm (in_accm (pcb l))" "popen (pcb l)" "\<not> in_escaped (pcb l)"
  shows "pppos_input ppp_input output_cb B (esc outm c) l = plain_char B c l"
proof (cases "ESCAPE_P outm c")
  case True
  have s: "ESCAPE_P (in_accm (pcb l)) PPP_ESCAPE" "\<not> ESCAPE_P (in_accm (pcb l)) (c XOR PPP_TRANS)" using assms(1) True by (auto simp: maps_fit_def)
  let ?l = "upd_pcb (\<lambda>p. p\<lparr>in_escaped := True\<rparr>) l"
  have e: "upd_pcb (\<lambda>p. p\<lparr>in_escaped := False\<rparr>) (upd_pcb (\<lambda>p. p\<lparr>in_escaped := True\<rparr>) l) = upd_pcb (\<lambda>p. p\<lparr>in_escaped := False\<rparr>) l" by (simp add: upd_pcb_def)
  have p: "popen (pcb ?l)" "in_accm (pcb ?l) = in_accm (pcb l)" "in_escaped (pcb ?l)" using assms(2) by (simp_all add: upd_pcb_def)
  have "pppos_input ppp_input output_cb B (esc outm c) l = pppos_input ppp_input output_cb B [c XOR PPP_TRANS] ?l"
    using True s(1) assms(2) by (simp add: esc_def input_char_def [of ppp_input output_cb B PPP_ESCAPE l])
  also have "\<dots> = input_char ppp_input output_cb B (c XOR PPP_TRANS) ?l" by (rule pppos_input_single [OF p(1)])
  also have "\<dots> = plain_char B (c XOR PPP_TRANS) ?l" using s(2) p(2) by (simp add: input_char_def)
  also have "\<dots> = plain_char B c l" unfolding plain_char_def e using p(3) assms(3) by (simp add: xor.assoc)
  finally show ?thesis .
next
  case False
  then have "\<not> ESCAPE_P (in_accm (pcb l)) c" using assms(1) by (auto simp: maps_fit_def)
  then show ?thesis using False pppos_input_single [OF assms(2)] by (simp add: esc_def input_char_def)
qed

lemma input_escs:
  "maps_fit outm (in_accm (pcb l)) \<Longrightarrow> popen (pcb l) \<Longrightarrow> \<not> in_escaped (pcb l) \<Longrightarrow>
    pppos_input ppp_input output_cb B (escs outm cs) l = plain_chars B cs l"
proof (induction cs arbitrary: l)
  case (Cons c cs)
  have "plain_char B c l \<bind> pppos_input ppp_input output_cb B (escs outm cs) = plain_char B c l \<bind> plain_chars B cs"
  proof (cases "plain_char B c l")
    case (Some l1)
    then show ?thesis using Cons.IH [of l1] Cons.prems plain_char_same [OF Some] by (simp add: same_ends_def)
  qed simp
  then show ?case using Cons.prems by (simp add: pppos_input_append input_esc)
qed simp

section \<open>The packet that is being received\<close>

fun chain_ok :: "pbuf list \<Rightarrow> bool" where
  "chain_ok [] \<longleftrightarrow> True"
| "chain_ok (p # ps) \<longleftrightarrow> tot_len p = of_nat (length (concat (map payload (p # ps)))) \<and> chain_ok ps"

definition own_tail :: "pppos_pcb \<Rightarrow> pbuf list" where
  "own_tail p = (case in_tail p of Tail_own t \<Rightarrow> [t] | _ \<Rightarrow> [])"

definition contents :: "pppos_pcb \<Rightarrow> u8 list" where
  "contents p = concat (map payload (in_head p @ own_tail p))"

definition held :: "pppos_pcb \<Rightarrow> nat" where
  "held p = length (in_head p @ own_tail p)"

definition rx_ok :: "nat \<Rightarrow> pppos_pcb \<Rightarrow> bool" where
  "rx_ok B p \<longleftrightarrow> (case in_tail p of
      Tail_null \<Rightarrow> in_head p = []
    | Tail_head \<Rightarrow> (\<exists>h. in_head p = [h] \<and> 3 \<le> length (payload h) \<and> length (payload h) \<le> B)
    | Tail_own t \<Rightarrow> in_head p \<noteq> [] \<and> chain_ok (in_head p) \<and> (\<forall>h \<in> set (in_head p). length (payload h) = B) \<and>
        1 \<le> length (payload t) \<and> length (payload t) \<le> B)"

lemma chain_ok_last: "chain_ok h \<Longrightarrow> h \<noteq> [] \<Longrightarrow> tot_len (last h) = plen (last h)"
proof (induction h)
  case (Cons p h)
  then show ?case by (cases "h = []") (simp_all add: plen_def)
qed simp

lemma chain_ok_add:
  "chain_ok h \<Longrightarrow> tot_len t = plen t \<Longrightarrow> chain_ok (map (\<lambda>p. p\<lparr>tot_len := tot_len p + tot_len t\<rparr>) h @ [t])"
  by (induction h) (auto simp: plen_def comp_def)

lemma pbuf_cat_ok:
  assumes "chain_ok h" "h \<noteq> []" "tot_len t = plen t"
  shows "\<exists>h'. pbuf_cat h t = Some h' \<and> chain_ok h' \<and> map payload h' = map payload h @ [payload t]"
  using assms chain_ok_add [OF assms(1,3)] chain_ok_last [OF assms(1,2)] by (simp add: pbuf_cat_def assert_c_def comp_def)

text \<open>The tail joins the chain.\<close>

definition tail_ok :: "pppos_pcb \<Rightarrow> bool" where
  "tail_ok p \<longleftrightarrow> (case in_tail p of Tail_null \<Rightarrow> False | Tail_head \<Rightarrow> (\<exists>h. in_head p = [h]) | Tail_own t \<Rightarrow> in_head p \<noteq> [] \<and> chain_ok (in_head p))"

lemma rx_tail_ok: "rx_ok B p \<Longrightarrow> in_tail p \<noteq> Tail_null \<Longrightarrow> tail_ok p"
  by (auto simp: rx_ok_def tail_ok_def split: in_tail.splits)

lemma close_tail_ok:
  assumes "tail_ok p"
  shows "\<exists>p'. close_tail p = Some p' \<and> chain_ok (in_head p') \<and> map payload (in_head p') = map payload (in_head p @ own_tail p)"
proof (cases "in_tail p")
  case Tail_head
  with assms(1) obtain h where "in_head p = [h]" by (auto simp: tail_ok_def)
  with Tail_head show ?thesis by (simp add: close_tail_def tail_get_def tail_put_def own_tail_def plen_def)
next
  case (Tail_own t)
  let ?t = "t\<lparr>tot_len := plen t\<rparr>"
  have "chain_ok (in_head p)" "in_head p \<noteq> []" using assms(1) Tail_own by (auto simp: tail_ok_def)
  with pbuf_cat_ok [of "in_head p" ?t] Tail_own show ?thesis
    by (auto simp: close_tail_def tail_get_def tail_put_def own_tail_def plen_def)
qed (use assms in \<open>simp add: tail_ok_def\<close>)

lemma closed_pcb_ok:
  assumes "rx_ok B p"
  shows "\<exists>p'. closed_pcb p = Some p' \<and> chain_ok (in_head p') \<and> map payload (in_head p') = map payload (in_head p @ own_tail p) \<and>
    in_tail p' = (if in_tail p = Tail_head then Tail_head else Tail_null)"
proof (cases "in_tail p = Tail_null")
  case True
  then show ?thesis using assms by (simp add: closed_pcb_def rx_ok_def own_tail_def)
next
  case False
  from close_tail_ok [OF rx_tail_ok [OF assms False]] obtain p' where
    p': "close_tail p = Some p'" "chain_ok (in_head p')" "map payload (in_head p') = map payload (in_head p @ own_tail p)" by blast
  show ?thesis
  proof (cases "in_tail p")
    case Tail_head
    moreover from this p'(1) have "in_tail p' = Tail_head"
      by (auto simp: close_tail_def tail_get_def tail_put_def bind_eq_Some_conv Let_def split: list.splits)
    ultimately show ?thesis using p' by (simp add: closed_pcb_def)
  qed (use False p' in \<open>simp_all add: closed_pcb_def\<close>)
qed

definition proto_bytes :: "u16 \<Rightarrow> u8 list" where
  "proto_bytes q = [ucast (drop_bit 8 q), ucast (q AND 0xFF)]"

text \<open>A data byte is stored behind what has come before; the buffers are neither lost nor doubled. Without a free buffer the packet is dropped.\<close>

definition stored_char :: "nat \<Rightarrow> u8 \<Rightarrow> ('u, 'o) link \<Rightarrow> ('u, 'o) link \<Rightarrow> bool" where
  "stored_char B c l l' \<longleftrightarrow>
     contents (pcb l') = (if in_tail (pcb l) = Tail_null then proto_bytes (in_protocol (pcb l)) else contents (pcb l)) @ [c] \<and>
     in_tail (pcb l') \<noteq> Tail_null \<and> in_state (pcb l') = in_state (pcb l) \<and> in_protocol (pcb l') = in_protocol (pcb l) \<and> in_fcs (pcb l') = in_fcs (pcb l)"

lemma tail_null_contents: "rx_ok B p \<Longrightarrow> in_tail p = Tail_null \<Longrightarrow> contents p = [] \<and> held p = 0"
  by (simp add: rx_ok_def contents_def held_def own_tail_def)

lemma contents_length:
  assumes "rx_ok B p" "tail_get p = Some t"
  shows "length (contents p) = (held p - 1) * B + length (payload t)" "0 < held p" "length (payload t) \<le> B" "in_tail p \<noteq> Tail_null"
proof -
  have sum: "(\<forall>h \<in> set hs. length (payload h) = B) \<Longrightarrow> length (concat (map payload hs)) = length hs * B" for hs
    by (induction hs) auto
  show "length (contents p) = (held p - 1) * B + length (payload t)" "0 < held p" "length (payload t) \<le> B" "in_tail p \<noteq> Tail_null"
    using assms sum [of "in_head p"]
    by (auto simp: rx_ok_def tail_get_def contents_def held_def own_tail_def split: in_tail.splits)
qed

lemma tail_some: "rx_ok B p \<Longrightarrow> in_tail p \<noteq> Tail_null \<Longrightarrow> \<exists>t. tail_get p = Some t"
  by (auto simp: rx_ok_def tail_get_def split: in_tail.splits)

lemma data_char_ok:
  assumes rx: "rx_ok B (pcb l)" and B: "3 \<le> B"
  shows "\<exists>l'. data_char B c l = Some l' \<and> rx_ok B (pcb l') \<and> pool l' + held (pcb l') = pool l + held (pcb l) \<and>
    (stored_char B c l l' \<or> pool l = 0 \<and> length (contents (pcb l)) = held (pcb l) * B \<and> in_state (pcb l') = PDSTART \<and> in_tail (pcb l') = Tail_null)"
proof (cases "case tail_get (pcb l) of None \<Rightarrow> True | Some t \<Rightarrow> length (payload t) = B")
  case False
  then obtain t where t: "tail_get (pcb l) = Some t" "length (payload t) \<noteq> B" by (auto split: option.splits)
  note C = contents_length [OF rx t(1)]
  have "data_char B c l = Some (l\<lparr>pcb := tail_put (t\<lparr>payload := payload t @ [c]\<rparr>) (pcb l)\<rparr>)"
    using t C(3) by (simp add: data_char_def Let_def nb_put_def)
  moreover have "rx_ok B (tail_put (t\<lparr>payload := payload t @ [c]\<rparr>) (pcb l)) \<and> held (tail_put (t\<lparr>payload := payload t @ [c]\<rparr>) (pcb l)) = held (pcb l) \<and>
      contents (tail_put (t\<lparr>payload := payload t @ [c]\<rparr>) (pcb l)) = contents (pcb l) @ [c] \<and> in_tail (tail_put (t\<lparr>payload := payload t @ [c]\<rparr>) (pcb l)) \<noteq> Tail_null"
    using rx t C(3) by (auto simp: rx_ok_def tail_get_def tail_put_def held_def contents_def own_tail_def split: in_tail.splits)
  ultimately show ?thesis using C(4) tail_put_same [of "t\<lparr>payload := payload t @ [c]\<rparr>" "pcb l"] by (simp add: stored_char_def)
next
  case True
  from closed_pcb_ok [OF rx] obtain p1 where p1: "closed_pcb (pcb l) = Some p1" "chain_ok (in_head p1)"
    "map payload (in_head p1) = map payload (in_head (pcb l) @ own_tail (pcb l))" "in_tail p1 = (if in_tail (pcb l) = Tail_head then Tail_head else Tail_null)" by blast
  note S = closed_pcb_same [OF p1(1)]
  have n: "length (in_head p1) = held (pcb l)" "concat (map payload (in_head p1)) = contents (pcb l)"
    using p1(3) by (auto simp: held_def contents_def dest: map_eq_imp_length_eq) (metis length_map length_append)
  have full: "length (contents (pcb l)) = held (pcb l) * B" "\<forall>h \<in> set (in_head p1). length (payload h) = B"
  proof -
    have P: "payload ` set (in_head p1) = payload ` set (in_head (pcb l) @ own_tail (pcb l))" using arg_cong [OF p1(3), of set] by (simp add: image_Un)
    have "length (contents (pcb l)) = held (pcb l) * B \<and> (\<forall>h \<in> set (in_head (pcb l) @ own_tail (pcb l)). length (payload h) = B)"
    proof (cases "in_tail (pcb l) = Tail_null")
      case False
      then obtain t where t: "tail_get (pcb l) = Some t" "length (payload t) = B" using tail_some [OF rx False] True by auto
      have "(held (pcb l) - 1) * B + B = held (pcb l) * B" using contents_length(2) [OF rx t(1)] by (cases "held (pcb l)") simp_all
      with contents_length(1) [OF rx t(1)] t rx False show ?thesis
        by (auto simp: rx_ok_def tail_get_def own_tail_def split: in_tail.splits)
    qed (use rx in \<open>simp add: rx_ok_def contents_def held_def own_tail_def\<close>)
    then show "length (contents (pcb l)) = held (pcb l) * B" "\<forall>h \<in> set (in_head p1). length (payload h) = B"
      using P by (auto, metis (no_types, lifting) Un_iff image_iff imageI)
  qed
  have hn: "in_head p1 = [] \<longleftrightarrow> in_tail (pcb l) = Tail_null"
    using n(1) rx by (auto simp: held_def rx_ok_def own_tail_def split: in_tail.splits)
  have D: "data_char B c l = (let (next, free) = pbuf_alloc B 0 (pool l) in
      (case next of
              [] \<Rightarrow> Some (upd_pcb (\<lambda>p. p\<lparr>in_state := PDSTART\<rparr>)
                (pppos_input_drop (l\<lparr>pcb := p1, stats := (stats l)\<lparr>st_memerr := st_memerr (stats l) + 1\<rparr>\<rparr>)))
            | nb # _ \<Rightarrow>
                if in_head p1 = []
                then do {
                  d \<leftarrow> nb_put B (payload nb) [ucast (drop_bit 8 (in_protocol (pcb l))), ucast (in_protocol (pcb l) AND 0xFF)];
                  d1 \<leftarrow> nb_put B d [c];
                  Some (l\<lparr>pcb := p1\<lparr>in_head := [nb\<lparr>payload := d1\<rparr>], in_tail := Tail_head\<rparr>, pool := free\<rparr>) }
                else do {
                  d1 \<leftarrow> nb_put B (payload nb) [c];
                  Some (l\<lparr>pcb := p1\<lparr>in_tail := Tail_own (nb\<lparr>payload := d1\<rparr>)\<rparr>, pool := free\<rparr>) }))"
    using True p1(1) by (simp add: data_char_def Let_def closed_pcb_def [symmetric])
  show ?thesis
  proof (cases "pool l = 0")
    case z: True
    have "pbuf_alloc B 0 (pool l) = ([], 0)" by (simp add: z pbuf_alloc_def pool_chain.simps)
    then show ?thesis using D z full(1) n(1) p1(4)
      by (auto simp: upd_pcb_def pppos_input_drop_def pppos_input_free_current_packet_def Let_def rx_ok_def held_def own_tail_def pbuf_free_def)
  next
    case z: False
    then have a: "pbuf_alloc B 0 (pool l) = ([\<lparr>payload = [], tot_len = 0\<rparr>], pool l - 1)" by (simp add: alloc_nb)
    show ?thesis
    proof (cases "in_head p1 = []")
      case True
      then show ?thesis using D a z B hn n(1) S
        by (auto simp: nb_put_def rx_ok_def held_def own_tail_def stored_char_def contents_def proto_bytes_def)
    next
      case False
      then show ?thesis using D a z B hn n S full(2) p1(2)
        by (auto simp: nb_put_def rx_ok_def held_def own_tail_def stored_char_def contents_def)
    qed
  qed
qed

section \<open>A good packet\<close>

lemma realloc_ok:
  assumes "chain_ok ps" "length (concat (map payload ps)) < 2 ^ 16" "r + unat shrink = length (concat (map payload ps))" "ps \<noteq> []"
  shows "\<exists>ps' k. realloc_loop shrink (of_nat r) ps = Some (ps', k) \<and> concat (map payload ps') = take r (concat (map payload ps)) \<and>
    chain_ok ps' \<and> length ps' + k = length ps \<and> ps' \<noteq> []"
  using assms
proof (induction ps arbitrary: r)
  case (Cons q qs)
  have r: "r < 2 ^ 16" "length (payload q) < 2 ^ 16" using Cons.prems(2,3) by simp_all
  then have cmp: "of_nat r > plen q \<longleftrightarrow> length (payload q) < r"
    by (simp add: plen_def word_less_nat_alt unat_of_nat)
  show ?case
  proof (cases "length (payload q) < r")
    case True
    have ne: "qs \<noteq> []" using True Cons.prems(3) by auto
    have e: "r - length (payload q) + unat shrink = length (concat (map payload qs))" using True Cons.prems(3) by simp
    from Cons.IH [OF _ _ e ne] Cons.prems(1,2) obtain ps' k where
      IH: "realloc_loop shrink (of_nat (r - length (payload q))) qs = Some (ps', k)"
        "concat (map payload ps') = take (r - length (payload q)) (concat (map payload qs))" "chain_ok ps'" "length ps' + k = length qs" by auto
    have "of_nat r - plen q = (of_nat (r - length (payload q)) :: u16)" using True by (simp add: plen_def of_nat_diff)
    moreover have "tot_len q - shrink = of_nat r"
    proof -
      have "tot_len q = of_nat (r + unat shrink)" using Cons.prems(1,3) by simp
      then show ?thesis by simp
    qed
    moreover have "length (concat (map payload ps')) = r - length (payload q)" using IH(2) e by simp
    ultimately show ?thesis using True IH cmp by (simp add: of_nat_diff)
  next
    case False
    then show ?thesis using cmp r by (simp add: unat_of_nat)
  qed
qed simp

text \<open>What the layers above get, and the link as they find it.\<close>

definition passes_on :: "'u handler \<Rightarrow> 'o device \<Rightarrow> nat \<Rightarrow> pbuf list \<Rightarrow> nat \<Rightarrow> ('u, 'o) link \<Rightarrow> ('u, 'o) link option" where
  "passes_on ppp_input output_cb B inp k l =
     link_calls output_cb B (snd (ppp_input inp (upper l)))
       (l\<lparr>pcb := (pcb l)\<lparr>in_head := [], in_tail := Tail_null\<rparr>, pool := pool l + k, lent := lent l + length inp, upper := fst (ppp_input inp (upper l))\<rparr>)"

lemma pcb_split: "close_tail p = Some p' \<Longrightarrow> p'\<lparr>in_head := a, in_tail := b\<rparr> = p\<lparr>in_head := a, in_tail := b\<rparr>"
  by (auto simp: close_tail_def tail_get_def tail_put_def bind_eq_Some_conv Let_def split: in_tail.splits list.splits)

lemma tail_put_split: "(tail_put t p)\<lparr>in_head := a, in_tail := b\<rparr> = p\<lparr>in_head := a, in_tail := b\<rparr>"
  by (simp add: tail_put_def split: in_tail.split list.split)

lemma good_packet_ok:
  assumes rx: "rx_ok B (pcb l)" "in_tail (pcb l) \<noteq> Tail_null" and B: "3 \<le> B" and small: "length (contents (pcb l)) < 2 ^ 16"
  shows "\<exists>inp k. good_packet ppp_input output_cb B l = passes_on ppp_input output_cb B inp k l \<and>
    concat (map payload inp) = take (length (contents (pcb l)) - 2) (contents (pcb l)) \<and> chain_ok inp \<and> length inp + k = held (pcb l) \<and> inp \<noteq> []"
proof -
  obtain t where t: "tail_get (pcb l) = Some t" using tail_some [OF rx] by blast
  note C = contents_length [OF rx(1) t]
  have three: "3 \<le> length (contents (pcb l))"
    using rx B C(1) by (auto simp: rx_ok_def contents_def own_tail_def held_def tail_get_def neq_Nil_conv split: in_tail.splits)
  show ?thesis
  proof (cases "length (payload t) > 2")
    case True
    let ?t = "t\<lparr>payload := take (length (payload t) - 2) (payload t)\<rparr>" let ?p = "tail_put ?t (pcb l)"
    have ok: "tail_ok ?p" using rx_tail_ok [OF rx] t by (auto simp: tail_ok_def tail_put_def tail_get_def split: in_tail.splits list.splits)
    from close_tail_ok [OF ok] obtain p' where p': "close_tail ?p = Some p'" "chain_ok (in_head p')"
      "map payload (in_head p') = map payload (in_head ?p @ own_tail ?p)" by blast
    have "concat (map payload (in_head ?p @ own_tail ?p)) = take (length (contents (pcb l)) - 2) (contents (pcb l)) \<and>
        length (in_head ?p @ own_tail ?p) = held (pcb l)"
      using rx t True by (auto simp: rx_ok_def tail_put_def tail_get_def contents_def own_tail_def held_def split: in_tail.splits)
    moreover have "length (in_head p') = length (in_head ?p @ own_tail ?p)" using arg_cong [OF p'(3), of length] by simp
    moreover have "good_packet ppp_input output_cb B l = passes_on ppp_input output_cb B (in_head p') 0 l"
      using t True p'(1) pcb_split [OF p'(1)] tail_put_split [where t = ?t and p = "pcb l"]
      by (simp add: good_packet_def passes_on_def split_beta Let_def)
    ultimately show ?thesis using p'(2,3) C(2)
      by (intro exI [of _ "in_head p'"] exI [of _ 0]) auto
  next
    case False
    from close_tail_ok [OF rx_tail_ok [OF rx]] obtain p' where p': "close_tail (pcb l) = Some p'" "chain_ok (in_head p')"
      "map payload (in_head p') = map payload (in_head (pcb l) @ own_tail (pcb l))" by blast
    have "concat (map payload (in_head p')) = contents (pcb l)" using p'(3) by (simp add: contents_def)
    moreover have "length (in_head p') = held (pcb l)" using arg_cong [OF p'(3), of length] unfolding held_def by (simp only: length_map)
    ultimately have c: "concat (map payload (in_head p')) = contents (pcb l)" "length (in_head p') = held (pcb l)" .
    then obtain h hs where h: "in_head p' = h # hs" using C(2) by (cases "in_head p'") auto
    have tot: "tot_len h = of_nat (length (contents (pcb l)))" using p'(2) c(1) [symmetric] h by simp
    let ?n = "length (contents (pcb l)) - 2"
    have new: "tot_len h - 2 = of_nat ?n" using tot three by (simp add: of_nat_diff)
    have "\<not> (of_nat ?n \<ge> tot_len h)" 
    proof -
      have u: "unat (of_nat m :: u16) = m" if "m < 2 ^ 16" for m using that by (simp add: unat_of_nat)
      have "unat (of_nat ?n :: u16) = ?n" using small u [of ?n] by linarith
      moreover have "unat (tot_len h) = length (contents (pcb l))" using tot u [OF small] by simp
      ultimately show ?thesis using three unfolding word_le_nat_alt by linarith
    qed
    moreover have "tot_len h - of_nat ?n = 2" using new by (metis add_diff_cancel_left' diff_add_cancel)
    ultimately have re: "pbuf_realloc (in_head p') (tot_len h - 2) = realloc_loop 2 (of_nat ?n) (in_head p')" by (simp add: pbuf_realloc_def h new)
    have "?n + unat (2 :: u16) = length (concat (map payload (in_head p')))" "in_head p' \<noteq> []" using three h unfolding c(1) by simp_all
    from realloc_ok [OF p'(2) _ this, unfolded c, OF small] obtain ps k where
      ps: "realloc_loop 2 (of_nat ?n) (in_head p') = Some (ps, k)" "concat (map payload ps) = take ?n (contents (pcb l))" "chain_ok ps" "length ps + k = held (pcb l)" "ps \<noteq> []"
      by blast
    have "good_packet ppp_input output_cb B l = passes_on ppp_input output_cb B ps k l"
      using t False p'(1) pcb_split [OF p'(1)] re ps(1) h by (simp add: good_packet_def passes_on_def split_beta Let_def)
    then show ?thesis using ps by blast
  qed
qed

section \<open>From one end of the line to the other\<close>

text \<open>The receiver waits for a frame.\<close>

definition ready :: "('u, 'o) link \<Rightarrow> bool" where
  "ready l \<longleftrightarrow> popen (pcb l) \<and> in_state (pcb l) = PDADDRESS \<and> in_fcs (pcb l) = PPP_INITFCS \<and> \<not> in_escaped (pcb l) \<and>
     in_head (pcb l) = [] \<and> in_tail (pcb l) = Tail_null"

text \<open>A protocol number that the receiver can tell from the other fields of the header.\<close>

definition proto_ok :: "pppos_pcb \<Rightarrow> u16 \<Rightarrow> bool" where
  "proto_ok p q \<longleftrightarrow> \<not> bit q 8 \<and> (pcomp p \<and> q \<le> 0xFF \<longrightarrow> bit q 0 \<and> (accomp p \<longrightarrow> q \<noteq> 0xFF \<and> q \<noteq> 0x03))"

lemma and_1_bit: "(c AND 1 \<noteq> 0) = bit c 0" for c :: "'a::len word"
  by (simp add: bit_0 and_one_eq odd_iff_mod_2_eq_one)

lemma high_byte:
  fixes q :: u16
  assumes "\<not> bit q 8"
  defines "c \<equiv> (ucast (drop_bit 8 q AND 0xFF) :: u8)"
  shows "c AND 1 = 0" "c \<noteq> PPP_ALLSTATIONS" "c \<noteq> PPP_UI" "push_bit 8 (ucast c) OR ucast (ucast (q AND 0xFF) :: u8) = q"
proof -
  have b: "\<not> bit c 0" using assms(1) by (simp add: c_def bit_simps mask8)
  then show "c AND 1 = 0" using and_1_bit [of c] by simp
  show "c \<noteq> PPP_ALLSTATIONS" "c \<noteq> PPP_UI" using b by (auto simp: PPP_ALLSTATIONS_def PPP_UI_def)
  show "push_bit 8 (ucast c) OR ucast (ucast (q AND 0xFF) :: u8) = q"
    unfolding c_def mask8 by (rule bit_word_eqI) (auto simp: bit_simps)
qed

lemma low_byte:
  fixes q :: u16
  assumes "q \<le> 0xFF"
  defines "c \<equiv> (ucast (q AND 0xFF) :: u8)"
  shows "ucast c = q" "bit q 0 \<Longrightarrow> c AND 1 \<noteq> 0" "q \<noteq> 0xFF \<Longrightarrow> c \<noteq> PPP_ALLSTATIONS" "q \<noteq> 0x03 \<Longrightarrow> c \<noteq> PPP_UI"
proof -
  have "unat (take_bit 8 q) = unat q" using assms(1) unfolding unsigned_take_bit_eq by (simp add: take_bit_eq_mod [of _ "unat q"] word_le_nat_alt)
  then have "q AND mask 8 = q" by (simp add: word_unat_eq_iff flip: take_bit_eq_mask)
  then have q: "q AND 0xFF = q" by (simp add: mask8)
  show u: "ucast c = q"
  proof -
    have "ucast c = q AND mask 8" unfolding c_def mask8 by (rule bit_word_eqI) (auto simp: bit_simps)
    then show ?thesis using q by (simp add: mask8)
  qed
  show "bit q 0 \<Longrightarrow> c AND 1 \<noteq> 0" unfolding and_1_bit by (simp add: c_def bit_simps mask8)
  show "q \<noteq> 0xFF \<Longrightarrow> c \<noteq> PPP_ALLSTATIONS" "q \<noteq> 0x03 \<Longrightarrow> c \<noteq> PPP_UI" using u by (auto simp: PPP_ALLSTATIONS_def PPP_UI_def)
qed

lemma plain_char_state:
  assumes "\<not> in_escaped (pcb l)" "state_char B c l = Some l1"
  shows "plain_char B c l = Some (upd_pcb (\<lambda>p. p\<lparr>in_fcs := PPP_FCS (in_fcs p) c\<rparr>) l1)"
proof -
  have "upd_pcb (\<lambda>p. p\<lparr>in_escaped := False\<rparr>) l = l" using assms(1) by (simp add: upd_pcb_def)
  then show ?thesis using assms by (simp add: plain_char_def)
qed

lemma header_input:
  assumes r: "ready l" and q: "proto_ok p q"
  shows "plain_chars B (header p q) l = Some (upd_pcb (\<lambda>r. r\<lparr>in_state := PDDATA, in_protocol := q, in_fcs := fcs_of (header p q) PPP_INITFCS\<rparr>) l)"
proof -
  define l1 where "l1 = (if accomp p then l else upd_pcb (\<lambda>r. r\<lparr>in_state := PDPROTOCOL1, in_fcs := fcs_of [PPP_ALLSTATIONS, PPP_UI] PPP_INITFCS\<rparr>) l)"
  define pre where "pre = (if accomp p then [] else [PPP_ALLSTATIONS, PPP_UI])"
  have 1: "plain_chars B pre l = Some l1"
    using r by (auto simp: pre_def l1_def ready_def plain_char_def state_char_def upd_pcb_def address_char_def control_char_def PPP_ALLSTATIONS_def PPP_UI_def)
  have l1: "\<not> in_escaped (pcb l1)" "in_state (pcb l1) = (if accomp p then PDADDRESS else PDPROTOCOL1)" "in_fcs (pcb l1) = fcs_of pre PPP_INITFCS"
    using r by (auto simp: l1_def pre_def ready_def upd_pcb_def)
  let ?lo = "ucast (q AND 0xFF) :: u8" let ?hi = "ucast (drop_bit 8 q AND 0xFF) :: u8"
  have head: "header p q = pre @ (if \<not> pcomp p \<or> q > 0xFF then [?hi] else []) @ [?lo]" by (simp add: header_def pre_def)
  have upd: "upd_pcb (\<lambda>r. r\<lparr>in_state := PDDATA, in_protocol := q, in_fcs := f\<rparr>) l1 = upd_pcb (\<lambda>r. r\<lparr>in_state := PDDATA, in_protocol := q, in_fcs := f\<rparr>) l" for f
    by (simp add: l1_def upd_pcb_def)
  show ?thesis
  proof (cases "\<not> pcomp p \<or> q > 0xFF")
    case True
    note H = high_byte [of q]
    have nb: "\<not> bit q 8" using q by (simp add: proto_ok_def)
    let ?l2 = "upd_pcb (\<lambda>r. r\<lparr>in_protocol := push_bit 8 (ucast ?hi), in_state := PDPROTOCOL2\<rparr>) l1"
    have "state_char B ?hi l1 = Some ?l2"
      using H(1-3) [OF nb] l1(2) by (auto simp: state_char_def address_char_def control_char_def protocol1_char_def upd_pcb_def)
    note 2 = plain_char_state [OF l1(1) this]
    let ?l3 = "upd_pcb (\<lambda>p. p\<lparr>in_fcs := PPP_FCS (in_fcs p) ?hi\<rparr>) ?l2"
    have "state_char B ?lo ?l3 = Some (upd_pcb (\<lambda>p. p\<lparr>in_protocol := q, in_state := PDDATA\<rparr>) ?l3)"
      using H(4) [OF nb] by (simp add: state_char_def upd_pcb_def)
    note 3 = plain_char_state [OF _ this]
    have "\<not> in_escaped (pcb ?l3)" using l1(1) by (simp add: upd_pcb_def)
    from 3 [OF this] 2 1 show ?thesis using True l1(3) unfolding head upd [symmetric]
      by (simp add: plain_chars_append) (simp add: upd_pcb_def)
  next
    case False
    then have s: "q \<le> 0xFF" "bit q 0" "accomp p \<longrightarrow> q \<noteq> 0xFF \<and> q \<noteq> 0x03" using q by (auto simp: proto_ok_def)
    have "state_char B ?lo l1 = Some (upd_pcb (\<lambda>r. r\<lparr>in_protocol := q, in_state := PDDATA\<rparr>) l1)"
      using low_byte [OF s(1)] s(2,3) l1(2) by (cases "accomp p") (simp_all add: state_char_def address_char_def control_char_def protocol1_char_def upd_pcb_def)
    from plain_char_state [OF l1(1) this] 1 show ?thesis using False l1(3) unfolding head upd [symmetric]
      by (simp add: plain_chars_append) (simp add: upd_pcb_def)
  qed
qed

text \<open>What the packet has so far, with its protocol field; the buffers that there are for it.\<close>

definition packet :: "pppos_pcb \<Rightarrow> u8 list" where
  "packet p = (if in_tail p = Tail_null then proto_bytes (in_protocol p) else contents p)"

definition room :: "nat \<Rightarrow> ('u, 'o) link \<Rightarrow> nat" where
  "room B l = (pool l + held (pcb l)) * B"

definition receiving :: "nat \<Rightarrow> ('u, 'o) link \<Rightarrow> bool" where
  "receiving B l \<longleftrightarrow> in_state (pcb l) = PDDATA \<and> rx_ok B (pcb l) \<and> \<not> in_escaped (pcb l)"

lemma data_step:
  assumes r: "receiving B l" and B: "3 \<le> B" and fits: "length (packet (pcb l)) < room B l"
  shows "\<exists>l'. plain_char B c l = Some l' \<and> receiving B l' \<and> packet (pcb l') = packet (pcb l) @ [c] \<and> in_tail (pcb l') \<noteq> Tail_null \<and>
    in_fcs (pcb l') = PPP_FCS (in_fcs (pcb l)) c \<and> pool l' + held (pcb l') = pool l + held (pcb l) \<and> same_ends l l'"
proof -
  have rx: "rx_ok B (pcb l)" using r by (simp add: receiving_def)
  from data_char_ok [OF rx B, of c] obtain l1 where l1: "data_char B c l = Some l1" "rx_ok B (pcb l1)" "pool l1 + held (pcb l1) = pool l + held (pcb l)"
    "stored_char B c l l1 \<or> pool l = 0 \<and> length (contents (pcb l)) = held (pcb l) * B \<and> in_state (pcb l1) = PDSTART \<and> in_tail (pcb l1) = Tail_null" by blast
  have "\<not> (pool l = 0 \<and> length (contents (pcb l)) = held (pcb l) * B)"
  proof (cases "in_tail (pcb l) = Tail_null")
    case True
    then show ?thesis using fits tail_null_contents [OF rx True] by (cases "pool l") (auto simp: packet_def room_def)
  qed (use fits in \<open>auto simp: packet_def room_def\<close>)
  with l1(4) have st: "stored_char B c l l1" by blast
  have "state_char B c l = Some l1" using r l1(1) by (simp add: state_char_def receiving_def)
  from plain_char_state [OF _ this] r have pc: "plain_char B c l = Some (upd_pcb (\<lambda>p. p\<lparr>in_fcs := PPP_FCS (in_fcs p) c\<rparr>) l1)" by (simp add: receiving_def)
  have up: "rx_ok B (p\<lparr>in_fcs := f\<rparr>) = rx_ok B p" "held (p\<lparr>in_fcs := f\<rparr>) = held p" "contents (p\<lparr>in_fcs := f\<rparr>) = contents p" for p f
    by (simp_all add: rx_ok_def held_def packet_def contents_def own_tail_def split: in_tail.split)
  show ?thesis using pc plain_char_same [OF pc] st l1(2,3) r
    by (simp add: up receiving_def upd_pcb_def stored_char_def packet_def)
qed

lemma data_input:
  "receiving B l \<Longrightarrow> 3 \<le> B \<Longrightarrow> length (packet (pcb l)) + length bs \<le> room B l \<Longrightarrow>
    \<exists>l'. plain_chars B bs l = Some l' \<and> receiving B l' \<and> packet (pcb l') = packet (pcb l) @ bs \<and> (bs \<noteq> [] \<longrightarrow> in_tail (pcb l') \<noteq> Tail_null) \<and>
      in_fcs (pcb l') = fcs_of bs (in_fcs (pcb l)) \<and> pool l' + held (pcb l') = pool l + held (pcb l) \<and> same_ends l l'"
proof (induction bs arbitrary: l)
  case (Cons c bs)
  from data_step [OF Cons.prems(1,2), of c] Cons.prems(3) obtain l1 where
    l1: "plain_char B c l = Some l1" "receiving B l1" "packet (pcb l1) = packet (pcb l) @ [c]" "in_tail (pcb l1) \<noteq> Tail_null"
      "in_fcs (pcb l1) = PPP_FCS (in_fcs (pcb l)) c" "pool l1 + held (pcb l1) = pool l + held (pcb l)" "same_ends l l1" by auto
  have "room B l1 = room B l" using l1(6) by (simp add: room_def)
  with Cons.IH [OF l1(2) Cons.prems(2)] l1(3) Cons.prems(3) obtain l2 where
    l2: "plain_chars B bs l1 = Some l2" "receiving B l2" "packet (pcb l2) = packet (pcb l1) @ bs" "bs \<noteq> [] \<longrightarrow> in_tail (pcb l2) \<noteq> Tail_null"
      "in_fcs (pcb l2) = fcs_of bs (in_fcs (pcb l1))" "pool l2 + held (pcb l2) = pool l1 + held (pcb l1)" "same_ends l1 l2" by auto
  have "bs = [] \<longrightarrow> l2 = l1" using l2(1) by auto
  with l1 l2 same_ends_trans [OF l1(7) l2(7)] show ?case by auto
qed simp

lemma proto_bytes_header: "ucast (drop_bit 8 q AND 0xFF) = (ucast (drop_bit 8 q) :: u8)" for q :: u16
  unfolding mask8 by (rule bit_word_eqI) (auto simp: bit_simps)

lemma frame_input:
  assumes r: "ready l" and B: "3 \<le> B" and m: "maps_fit outm (in_accm (pcb l))" and q: "proto_ok sp q"
    and fits: "length d + 4 \<le> pool l * B" and small: "length d + 4 < 2 ^ 16"
  shows "\<exists>l1 inp k. pppos_input ppp_input output_cb B (frame outm (header sp q @ d)) l = map_option new_packet (passes_on ppp_input output_cb B inp k l1) \<and>
    concat (map payload inp) = proto_bytes q @ d \<and> chain_ok inp \<and> inp \<noteq> [] \<and> same_ends l l1 \<and> pool l1 + length inp + k = pool l"
proof -
  let ?h = "header sp q" let ?f = "fcs_bytes (fcs_of (?h @ d) PPP_INITFCS)"
  let ?l0 = "upd_pcb (\<lambda>r. r\<lparr>in_state := PDDATA, in_protocol := q, in_fcs := fcs_of ?h PPP_INITFCS\<rparr>) l"
  have l0: "receiving B ?l0" "packet (pcb ?l0) = proto_bytes q" "room B ?l0 = pool l * B" "held (pcb ?l0) = 0" "pool ?l0 = pool l" "in_fcs (pcb ?l0) = fcs_of ?h PPP_INITFCS" "same_ends l ?l0"
    using r by (auto simp: receiving_def ready_def upd_pcb_def rx_ok_def packet_def room_def held_def own_tail_def same_ends_def)
  have "length (packet (pcb ?l0)) + length (d @ ?f) \<le> room B ?l0" using fits l0(2,3) by (simp add: proto_bytes_def fcs_bytes_def)
  from data_input [OF l0(1) B this] obtain l1 where
    l1: "plain_chars B (d @ ?f) ?l0 = Some l1" "receiving B l1" "packet (pcb l1) = proto_bytes q @ d @ ?f" "in_tail (pcb l1) \<noteq> Tail_null"
      "in_fcs (pcb l1) = PPP_GOODFCS" "pool l1 + held (pcb l1) = pool l" "same_ends ?l0 l1"
    using l0 fcs_good [of "fcs_of (?h @ d) PPP_INITFCS"] by (auto simp: fcs_bytes_def)
  have e: "same_ends l l1" using same_ends_trans [OF l0(7) l1(7)] .
  have "plain_chars B (?h @ d @ ?f) l = Some l1" using header_input [OF r q, of B] l1(1) by (simp add: plain_chars_append)
  then have body: "pppos_input ppp_input output_cb B (escs outm (?h @ d @ ?f)) l = Some l1"
    using r by (subst input_escs [OF m]) (simp_all add: ready_def)
  have c: "contents (pcb l1) = proto_bytes q @ d @ ?f" using l1(3,4) by (simp add: packet_def)
  have rx: "rx_ok B (pcb l1)" and st: "in_state (pcb l1) = PDDATA" using l1(2) by (simp_all add: receiving_def)
  have op: "popen (pcb l1)" and acc: "in_accm (pcb l1) = in_accm (pcb l)" using e r by (simp_all add: same_ends_def ready_def)
  have "length (contents (pcb l1)) < 2 ^ 16" using small c by (simp add: proto_bytes_def fcs_bytes_def)
  from good_packet_ok [OF rx l1(4) B this, of ppp_input output_cb] obtain inp k where
    g: "good_packet ppp_input output_cb B l1 = passes_on ppp_input output_cb B inp k l1"
      "concat (map payload inp) = proto_bytes q @ d" "chain_ok inp" "length inp + k = held (pcb l1)" "inp \<noteq> []"
    using c by (auto simp: fcs_bytes_def)
  have "ESCAPE_P (in_accm (pcb l1)) PPP_FLAG" "PPP_FLAG \<noteq> PPP_ESCAPE" using m acc by (auto simp: maps_fit_def PPP_FLAG_def PPP_ESCAPE_def)
  then have "pppos_input ppp_input output_cb B [PPP_FLAG] l1 = map_option new_packet (passes_on ppp_input output_cb B inp k l1)"
    using pppos_input_single [OF op, of ppp_input output_cb B PPP_FLAG] st l1(5) g(1)
    by (cases "passes_on ppp_input output_cb B inp k l1") (simp_all add: input_char_def flag_char_def)
  with body have "pppos_input ppp_input output_cb B (frame outm (?h @ d)) l = map_option new_packet (passes_on ppp_input output_cb B inp k l1)"
    unfolding frame_def append_assoc by (subst pppos_input_append) simp
  then show ?thesis using g e l1(6) by (intro exI [of _ l1] exI [of _ inp] exI [of _ k]) auto
qed

section \<open>Safety for arbitrary bytes\<close>

text \<open>The output functions return, whatever the device answers, and keep the pool.\<close>

lemma append_total:
  assumes "2 \<le> B" "length nb \<le> B"
  shows "\<exists>err nb' o1 fcs'. pppos_output_append output_cb B accm c a fcs (err0, nb, o') = Some ((err, nb', o1), fcs') \<and> length nb' \<le> B \<and> (fcs' = None \<longleftrightarrow> fcs = None)"
proof (cases "err0 = ERR_OK")
  case False
  then show ?thesis using assms by (simp add: pppos_output_append_def)
next
  case True
  obtain ok o1 where o1: "send_nb output_cb nb o' = (ok, o1)" by fastforce
  show ?thesis using True assms o1 by (auto simp: pppos_output_append_def nb_put_def Let_def)
qed

lemma append_all_total:
  "2 \<le> B \<Longrightarrow> length nb \<le> B \<Longrightarrow> \<exists>err nb' o1 fcs'. append_all output_cb B accm cs fcs (err0, nb, o') = Some ((err, nb', o1), fcs') \<and> length nb' \<le> B \<and> (fcs' = None \<longleftrightarrow> fcs = None)"
proof (induction cs arbitrary: err0 nb o' fcs)
  case (Cons c cs)
  from append_total [OF Cons.prems(1,2), of output_cb accm c True fcs err0 o'] obtain err1 nb1 o1 f1 where
    1: "pppos_output_append output_cb B accm c True fcs (err0, nb, o') = Some ((err1, nb1, o1), f1)" "length nb1 \<le> B" "f1 = None \<longleftrightarrow> fcs = None" by blast
  from Cons.IH [OF Cons.prems(1) 1(2), of f1 err1 o1] 1 show ?case by auto
qed auto

definition kept :: "('u, 'o) link \<Rightarrow> ('u, 'o) link \<Rightarrow> bool" where
  "kept l l' \<longleftrightarrow> pool l' = pool l \<and> lent l' = lent l \<and> upper l' = upper l \<and> (\<exists>x. pcb l' = (pcb l)\<lparr>last_xmit := x\<rparr>)"

lemma output_last_total:
  assumes "2 \<le> B" "length nb \<le> B"
  shows "\<exists>err l'. pppos_output_last output_cb B now f (err0, nb, o') l = Some (err, l') \<and> kept (l\<lparr>pool := pool l + 1\<rparr>) l'"
proof -
  let ?a = "out_accm (pcb l)"
  from append_total [OF assms, of output_cb ?a "ucast (NOT f AND 0xFF)" True None err0 o'] obtain e1 n1 o1 f1 where
    1: "pppos_output_append output_cb B ?a (ucast (NOT f AND 0xFF)) True None (err0, nb, o') = Some ((e1, n1, o1), f1)" "length n1 \<le> B" by blast
  from append_total [OF assms(1) 1(2), of output_cb ?a "ucast (drop_bit 8 (NOT f) AND 0xFF)" True None e1 o1] obtain e2 n2 o2 f2 where
    2: "pppos_output_append output_cb B ?a (ucast (drop_bit 8 (NOT f) AND 0xFF)) True None (e1, n1, o1) = Some ((e2, n2, o2), f2)" "length n2 \<le> B" by blast
  from append_total [OF assms(1) 2(2), of output_cb ?a PPP_FLAG False None e2 o2] obtain e3 n3 o3 f3 where
    3: "pppos_output_append output_cb B ?a PPP_FLAG False None (e2, n2, o2) = Some ((e3, n3, o3), f3)" by blast
  obtain ok o4 where 4: "(if e3 = ERR_OK \<and> length n3 > 0 then send_nb output_cb n3 o3 else (True, o3)) = (ok, o4)" by fastforce
  show ?thesis using 1(1) 2(1) 3 4 by (auto simp: pppos_output_last_def Let_def kept_def)
qed

lemma idle_total:
  assumes "2 \<le> B"
  shows "\<exists>err nb o1 f. idle_flag output_cb B now l = Some ((err, nb, o1), f) \<and> length nb \<le> B"
  using append_total [OF assms, of "[]" output_cb "out_accm (pcb l)" PPP_FLAG False None ERR_OK "line l"] by (auto simp: idle_flag_def)

lemma write_total:
  assumes "2 \<le> B"
  shows "\<exists>err l'. pppos_write output_cb B now now' p l = Some (err, l') \<and> kept l l'"
proof (cases "pool l = 0")
  case True
  then have "pbuf_alloc B 0 (pool l) = ([], 0)" by (simp add: pbuf_alloc_def pool_chain.simps)
  then show ?thesis by (auto simp: pppos_write_def no_buffer_def kept_def intro: exI [of _ "last_xmit (pcb l)"])
next
  case False
  obtain e n o1 f where i: "idle_flag output_cb B now l = Some ((e, n, o1), f)" "length n \<le> B" using idle_total [OF assms, of output_cb now l] by auto
  obtain e1 n1 o2 f1 where a: "append_all output_cb B (out_accm (pcb l)) p (Some PPP_INITFCS) (e, n, o1) = Some ((e1, n1, o2), f1)" "length n1 \<le> B"
    using append_all_total [OF assms i(2), of output_cb "out_accm (pcb l)" p "Some PPP_INITFCS" e o1] by blast
  from output_last_total [OF assms a(2), of output_cb now' "the f1" e1 o2 "l\<lparr>pool := pool l - 1\<rparr>"] i(1) a(1) alloc_nb [of "pool l" B] False
  show ?thesis by (auto simp: pppos_write_def kept_def)
qed

lemma netif_output_total:
  assumes "2 \<le> B"
  shows "\<exists>err l'. pppos_netif_output output_cb B now now' pb q l = Some (err, l') \<and> kept l l'"
proof (cases "pool l = 0")
  case True
  then have "pbuf_alloc B 0 (pool l) = ([], 0)" by (simp add: pbuf_alloc_def pool_chain.simps)
  then show ?thesis by (auto simp: pppos_netif_output_def no_buffer_def kept_def Let_def intro: exI [of _ "last_xmit (pcb l)"])
next
  case False
  let ?a = "out_accm (pcb l)"
  note T = append_all_total [OF assms, where output_cb = output_cb and accm = ?a]
  obtain e n o1 f where i: "idle_flag output_cb B now l = Some ((e, n, o1), f)" "length n \<le> B" using idle_total [OF assms, of output_cb now l] by auto
  define h1 where "h1 = (if accomp (pcb l) then [] else [PPP_ALLSTATIONS, PPP_UI])"
  define h2 where "h2 = (if \<not> pcomp (pcb l) \<or> q > 0xFF then [ucast (drop_bit 8 q AND 0xFF)] else [] :: u8 list)"
  obtain e1 n1 o2 f1 where 1: "append_all output_cb B ?a h1 (Some PPP_INITFCS) (e, n, o1) = Some ((e1, n1, o2), f1)" "length n1 \<le> B" using T [OF i(2)] by blast
  obtain e2 n2 o3 f2 where 2: "append_all output_cb B ?a h2 f1 (e1, n1, o2) = Some ((e2, n2, o3), f2)" "length n2 \<le> B" using T [OF 1(2)] by blast
  obtain e3 n3 o4 f3 where 3: "append_all output_cb B ?a [ucast (q AND 0xFF)] f2 (e2, n2, o3) = Some ((e3, n3, o4), f3)" "length n3 \<le> B" using T [OF 2(2)] by blast
  obtain e4 n4 o5 f4 where 4: "append_all output_cb B ?a (concat pb) f3 (e3, n3, o4) = Some ((e4, n4, o5), f4)" "length n4 \<le> B" using T [OF 3(2)] by blast
  from output_last_total [OF assms 4(2), of output_cb now' "the f4" e4 o5 "l\<lparr>pool := pool l - 1\<rparr>"] i(1) 1(1) 2(1) 3(1) 4(1) alloc_nb [of "pool l" B] False
  show ?thesis unfolding pppos_netif_output_def h1_def [symmetric] h2_def [symmetric] Let_def by (auto simp: kept_def simp del: append_all.simps)
qed

text \<open>No packet is in progress while the layers above have one.\<close>

definition detached :: "('u, 'o) link \<Rightarrow> bool" where
  "detached l \<longleftrightarrow> in_head (pcb l) = [] \<and> in_tail (pcb l) = Tail_null"

lemma link_call_total:
  assumes "2 \<le> B" "detached l"
  shows "\<exists>l'. link_call output_cb B c l = Some l' \<and> detached l' \<and> pool l' + lent l' = pool l + lent l"
proof (cases c)
  case (Write now now' p)
  then show ?thesis using write_total [OF assms(1), of output_cb now now' p l] assms(2) by (auto simp: kept_def detached_def)
next
  case (Netif_output now now' pb q)
  then show ?thesis using netif_output_total [OF assms(1), of output_cb now now' pb q l] assms(2) by (auto simp: kept_def detached_def)
qed (use assms(2) in \<open>auto simp: detached_def pppos_connect_def pcb0_def pppos_disconnect_def pppos_input_free_current_packet_def Let_def
  pppos_send_config_def pppos_recv_config_def\<close>)

lemma link_calls_total:
  "2 \<le> B \<Longrightarrow> detached l \<Longrightarrow> \<exists>l'. link_calls output_cb B cs l = Some l' \<and> detached l' \<and> pool l' + lent l' = pool l + lent l"
proof (induction cs arbitrary: l)
  case (Cons c cs)
  from link_call_total [OF Cons.prems, of output_cb c] obtain l1 where
    l1: "link_call output_cb B c l = Some l1" "detached l1" "pool l1 + lent l1 = pool l + lent l" by blast
  from Cons.IH [OF Cons.prems(1) l1(2)] l1 show ?case by auto
qed simp

text \<open>Cutting off the checksum never runs off the chain, even when its length does not fit \<^verbatim>\<open>u16_t\<close>.\<close>

lemma realloc_total:
  "unat r \<le> length (concat (map payload ps)) \<Longrightarrow> \<forall>p \<in> set ps. length (payload p) < 2 ^ 16 \<Longrightarrow> ps \<noteq> [] \<Longrightarrow>
    \<exists>ps' k. realloc_loop shrink r ps = Some (ps', k) \<and> length ps' + k = length ps"
proof (induction ps arbitrary: r)
  case (Cons q qs)
  have u: "unat (plen q) = length (payload q)" using Cons.prems(2) by (simp add: plen_def unat_of_nat)
  show ?case
  proof (cases "r > plen q")
    case True
    then have lt: "length (payload q) < unat r" using u by (simp add: word_less_nat_alt)
    then have "unat (r - plen q) = unat r - length (payload q)" using u by (simp add: unat_sub word_le_nat_alt)
    then have "unat (r - plen q) \<le> length (concat (map payload qs))" using Cons.prems(1) by simp
    moreover have "qs \<noteq> []" using lt Cons.prems(1) by auto
    ultimately obtain ps' k where "realloc_loop shrink (r - plen q) qs = Some (ps', k)" "length ps' + k = length qs"
      using Cons.IH [of "r - plen q"] Cons.prems(2) by auto
    then show ?thesis using True by simp
  qed simp
qed simp

lemma good_packet_total:
  assumes rx: "rx_ok B (pcb l)" "in_tail (pcb l) \<noteq> Tail_null" and B: "3 \<le> B" "B < 2 ^ 16"
  shows "\<exists>inp k. good_packet ppp_input output_cb B l = passes_on ppp_input output_cb B inp k l \<and> length inp + k = held (pcb l)"
proof -
  obtain t where t: "tail_get (pcb l) = Some t" using tail_some [OF rx] by blast
  show ?thesis
  proof (cases "length (payload t) > 2")
    case True
    let ?t = "t\<lparr>payload := take (length (payload t) - 2) (payload t)\<rparr>" let ?p = "tail_put ?t (pcb l)"
    have ok: "tail_ok ?p" using rx_tail_ok [OF rx] t by (auto simp: tail_ok_def tail_put_def tail_get_def split: in_tail.splits list.splits)
    from close_tail_ok [OF ok] obtain p' where p': "close_tail ?p = Some p'" "map payload (in_head p') = map payload (in_head ?p @ own_tail ?p)" by blast
    have "length (in_head ?p @ own_tail ?p) = held (pcb l)"
      using rx t by (auto simp: rx_ok_def tail_put_def tail_get_def own_tail_def held_def split: in_tail.splits)
    then have "length (in_head p') + 0 = held (pcb l)" using arg_cong [OF p'(2), of length] by simp
    moreover have "good_packet ppp_input output_cb B l = passes_on ppp_input output_cb B (in_head p') 0 l"
      using t True p'(1) pcb_split [OF p'(1)] tail_put_split [where t = ?t and p = "pcb l"]
      by (simp add: good_packet_def passes_on_def split_beta Let_def)
    ultimately show ?thesis by blast
  next
    case False
    from close_tail_ok [OF rx_tail_ok [OF rx]] obtain p' where p': "close_tail (pcb l) = Some p'" "chain_ok (in_head p')"
      "map payload (in_head p') = map payload (in_head (pcb l) @ own_tail (pcb l))" by blast
    have n: "length (in_head p') = held (pcb l)" using arg_cong [OF p'(3), of length] unfolding held_def by (simp only: length_map)
    then obtain h hs where h: "in_head p' = h # hs" using contents_length(2) [OF rx(1) t] by (cases "in_head p'") auto
    have "payload ` set (in_head p') = payload ` set (in_head (pcb l) @ own_tail (pcb l))" using arg_cong [OF p'(3), of set] by (simp add: image_Un)
    moreover have "\<forall>p \<in> set (in_head (pcb l) @ own_tail (pcb l)). length (payload p) \<le> B"
      using rx by (auto simp: rx_ok_def own_tail_def split: in_tail.splits)
    ultimately have small: "\<forall>p \<in> set (in_head p'). length (payload p) < 2 ^ 16" using B(2) by (metis imageE imageI le_less_trans)
    have "\<exists>ps k. pbuf_realloc (in_head p') (tot_len h - 2) = Some (ps, k) \<and> length ps + k = held (pcb l)"
    proof (cases "tot_len h - 2 \<ge> tot_len h")
      case True
      then show ?thesis using n h by (auto simp: pbuf_realloc_def)
    next
      case False
      have "tot_len h = of_nat (length (concat (map payload (in_head p'))))" using p'(2) h by simp
      then have "unat (tot_len h) \<le> length (concat (map payload (in_head p')))" by (simp add: unat_of_nat)
      then have "unat (tot_len h - 2) \<le> length (concat (map payload (in_head p')))" using False by (simp add: word_le_nat_alt)
      from realloc_total [OF this small] h False n show ?thesis by (auto simp: pbuf_realloc_def simp del: realloc_loop.simps)
    qed
    then obtain ps k where "pbuf_realloc (in_head p') (tot_len h - 2) = Some (ps, k)" "length ps + k = held (pcb l)" by blast
    moreover from this have "good_packet ppp_input output_cb B l = passes_on ppp_input output_cb B ps k l"
      using t False p'(1) pcb_split [OF p'(1)] h by (simp add: good_packet_def passes_on_def split_beta Let_def)
    ultimately show ?thesis by blast
  qed
qed

definition link_ok :: "nat \<Rightarrow> ('u, 'o) link \<Rightarrow> bool" where
  "link_ok B l \<longleftrightarrow> rx_ok B (pcb l) \<and> (in_tail (pcb l) \<noteq> Tail_null \<longrightarrow> in_state (pcb l) = PDDATA)"

text \<open>All pool buffers: free, with the layers above, in the packet that is being received.\<close>

definition total :: "('u, 'o) link \<Rightarrow> nat" where
  "total l = pool l + lent l + held (pcb l)"

text \<open>A header has been received and a correct check sequence, but no data.\<close>

definition header_only :: "('u, 'o) link \<Rightarrow> bool" where
  "header_only l \<longleftrightarrow> in_state (pcb l) = PDDATA \<and> in_tail (pcb l) = Tail_null \<and> in_fcs (pcb l) = PPP_GOODFCS"

lemma detached_ok: "detached l \<Longrightarrow> link_ok B l \<and> held (pcb l) = 0"
  by (simp add: detached_def link_ok_def rx_ok_def held_def own_tail_def)

lemma not_data_detached: "link_ok B l \<Longrightarrow> in_state (pcb l) \<noteq> PDDATA \<Longrightarrow> detached l"
  by (auto simp: link_ok_def detached_def rx_ok_def split: in_tail.splits)

lemma new_packet_detached: "detached l \<Longrightarrow> detached (new_packet l) \<and> pool (new_packet l) = pool l \<and> lent (new_packet l) = lent l"
  by (simp add: detached_def new_packet_def upd_pcb_def)

lemma drop_total: "rx_ok B (pcb l) \<Longrightarrow> detached (pppos_input_drop l) \<and> total (pppos_input_drop l) = total l"
  by (auto simp: detached_def pppos_input_drop_def pppos_input_free_current_packet_def Let_def total_def held_def own_tail_def pbuf_free_def rx_ok_def split: in_tail.splits)

lemma flag_total:
  assumes ok: "link_ok B l" and B: "3 \<le> B" "B < 2 ^ 16" and h: "\<not> header_only l"
  shows "\<exists>l'. flag_char ppp_input output_cb B l = Some l' \<and> detached l' \<and> total l' = total l"
proof -
  have rx: "rx_ok B (pcb l)" using ok by (simp add: link_ok_def)
  have fin: "flag_char ppp_input output_cb B l = Some (new_packet l1) \<and> detached (new_packet l1) \<and> total (new_packet l1) = total l"
    if "flag_char ppp_input output_cb B l = Some (new_packet l1)" "detached l1" "total l1 = total l" for l1
    using that new_packet_detached [OF that(2)] detached_ok [OF that(2)] detached_ok [of "new_packet l1"] by (auto simp: total_def)
  consider "in_state (pcb l) \<in> {PDIDLE, PDSTART, PDADDRESS}" | "in_state (pcb l) \<notin> {PDIDLE, PDSTART, PDADDRESS}" "in_state (pcb l) \<noteq> PDDATA"
    | "in_state (pcb l) = PDDATA" "in_fcs (pcb l) \<noteq> PPP_GOODFCS" | "in_state (pcb l) = PDDATA" "in_fcs (pcb l) = PPP_GOODFCS" by blast
  then show ?thesis
  proof cases
    case 1
    then have "detached l" using not_data_detached [OF ok] by auto
    with fin [of l] 1 show ?thesis by (auto simp: flag_char_def)
  next
    case 2
    let ?l = "l\<lparr>stats := (stats l)\<lparr>st_lenerr := st_lenerr (stats l) + 1\<rparr>\<rparr>"
    have "detached (pppos_input_drop ?l)" "total (pppos_input_drop ?l) = total l" using drop_total [of B ?l] rx by (auto simp: total_def)
    with fin [of "pppos_input_drop ?l"] 2 show ?thesis by (auto simp: flag_char_def)
  next
    case 3
    let ?l = "l\<lparr>stats := (stats l)\<lparr>st_chkerr := st_chkerr (stats l) + 1\<rparr>\<rparr>"
    have "detached (pppos_input_drop ?l)" "total (pppos_input_drop ?l) = total l" using drop_total [of B ?l] rx by (auto simp: total_def)
    with fin [of "pppos_input_drop ?l"] 3 show ?thesis by (auto simp: flag_char_def)
  next
    case 4
    then have tail: "in_tail (pcb l) \<noteq> Tail_null" using h by (auto simp: header_only_def)
    from good_packet_total [OF rx tail B, of ppp_input output_cb] obtain inp k where
      g: "good_packet ppp_input output_cb B l = passes_on ppp_input output_cb B inp k l" "length inp + k = held (pcb l)" by blast
    let ?l = "l\<lparr>pcb := (pcb l)\<lparr>in_head := [], in_tail := Tail_null\<rparr>, pool := pool l + k, lent := lent l + length inp, upper := fst (ppp_input inp (upper l))\<rparr>"
    have "detached ?l" by (simp add: detached_def)
    from link_calls_total [OF _ this, of B output_cb "snd (ppp_input inp (upper l))"] B obtain l1 where
      l1: "passes_on ppp_input output_cb B inp k l = Some l1" "detached l1" "pool l1 + lent l1 = pool ?l + lent ?l" by (auto simp: passes_on_def)
    have "total l1 = total l" using l1(3) g(2) detached_ok [OF l1(2)] by (simp add: total_def)
    with fin [of l1] 4 g(1) l1 show ?thesis by (auto simp: flag_char_def)
  qed
qed

lemma upd_detached: "detached l \<Longrightarrow> in_head (f (pcb l)) = in_head (pcb l) \<Longrightarrow> in_tail (f (pcb l)) = in_tail (pcb l) \<Longrightarrow> detached (upd_pcb f l) \<and> total (upd_pcb f l) = total l"
  by (simp add: detached_def upd_pcb_def total_def held_def own_tail_def)

lemma upd_fields:
  "link_ok B (upd_pcb (\<lambda>p. p\<lparr>in_fcs := g p\<rparr>) l) = link_ok B l" "total (upd_pcb (\<lambda>p. p\<lparr>in_fcs := g p\<rparr>) l) = total l"
  "link_ok B (upd_pcb (\<lambda>p. p\<lparr>in_escaped := e\<rparr>) l) = link_ok B l" "total (upd_pcb (\<lambda>p. p\<lparr>in_escaped := e\<rparr>) l) = total l"
  by (simp_all add: link_ok_def rx_ok_def upd_pcb_def total_def held_def own_tail_def split: in_tail.split)

lemma state_char_total:
  assumes ok: "link_ok B l" and B: "3 \<le> B"
  shows "\<exists>l'. state_char B c l = Some l' \<and> link_ok B l' \<and> total l' = total l"
proof (cases "in_state (pcb l) = PDDATA")
  case True
  have rx: "rx_ok B (pcb l)" using ok by (simp add: link_ok_def)
  from data_char_ok [OF rx B, of c] obtain l1 where l1: "data_char B c l = Some l1" "rx_ok B (pcb l1)" "pool l1 + held (pcb l1) = pool l + held (pcb l)"
    "stored_char B c l l1 \<or> in_tail (pcb l1) = Tail_null" by blast
  have "in_tail (pcb l1) \<noteq> Tail_null \<longrightarrow> in_state (pcb l1) = PDDATA" using l1(4) True by (auto simp: stored_char_def)
  moreover have "lent l1 = lent l" using data_char_same [OF l1(1)] by (simp add: same_ends_def)
  ultimately show ?thesis using True l1 by (simp add: state_char_def link_ok_def total_def)
next
  case False
  note d = not_data_detached [OF ok False]
  define f where "f = (case in_state (pcb l) of PDIDLE \<Rightarrow> (if c \<noteq> PPP_ALLSTATIONS then id else start_char c) | PDSTART \<Rightarrow> start_char c
    | PDADDRESS \<Rightarrow> address_char c | PDCONTROL \<Rightarrow> control_char c | PDPROTOCOL1 \<Rightarrow> protocol1_char c
    | _ \<Rightarrow> (\<lambda>p. p\<lparr>in_protocol := in_protocol p OR ucast c, in_state := PDDATA\<rparr>))"
  have "state_char B c l = Some (upd_pcb f l)" using False by (cases "in_state (pcb l)") (simp_all add: state_char_def f_def upd_pcb_def)
  moreover have "in_head (f (pcb l)) = in_head (pcb l)" "in_tail (f (pcb l)) = in_tail (pcb l)"
    by (cases "in_state (pcb l)", simp_all add: f_def start_char_def address_char_def control_char_def protocol1_char_def)+
  ultimately show ?thesis using upd_detached [OF d, of f] detached_ok [of "upd_pcb f l" B] by auto
qed

lemma input_char_total:
  assumes ok: "link_ok B l" and B: "3 \<le> B" "B < 2 ^ 16" and h: "\<not> (c = PPP_FLAG \<and> ESCAPE_P (in_accm (pcb l)) c \<and> header_only l)"
  shows "\<exists>l'. input_char ppp_input output_cb B c l = Some l' \<and> link_ok B l' \<and> total l' = total l"
proof (cases "ESCAPE_P (in_accm (pcb l)) c")
  case True
  show ?thesis
  proof (cases "c = PPP_FLAG")
    case f: True
    then have "c \<noteq> PPP_ESCAPE" by (simp add: PPP_FLAG_def PPP_ESCAPE_def)
    with True f h flag_total [OF ok B, of ppp_input output_cb] detached_ok show ?thesis by (auto simp: input_char_def)
  next
    case False
    then show ?thesis using True ok upd_fields(3,4) [where e = True] by (auto simp: input_char_def)
  qed
next
  case False
  let ?c = "if in_escaped (pcb l) then c XOR PPP_TRANS else c" let ?l = "upd_pcb (\<lambda>p. p\<lparr>in_escaped := False\<rparr>) l"
  from state_char_total [of B ?l ?c] ok B obtain l1 where "state_char B ?c ?l = Some l1" "link_ok B l1" "total l1 = total l" by (auto simp: upd_fields)
  then show ?thesis using False by (simp add: input_char_def plain_char_def upd_fields)
qed

text \<open>The one place where the receiver can follow a null pointer: a flag right after a header.\<close>

definition null_tail :: "('u, 'o) link \<Rightarrow> bool" where
  "null_tail l \<longleftrightarrow> popen (pcb l) \<and> ESCAPE_P (in_accm (pcb l)) PPP_FLAG \<and> header_only l"

lemma null_tail_fails: "null_tail l \<Longrightarrow> pppos_input ppp_input output_cb B (PPP_FLAG # s) l = None"
  by (simp add: null_tail_def header_only_def input_char_def flag_char_def good_packet_def tail_get_def PPP_FLAG_def PPP_ESCAPE_def)

lemma pppos_input_total:
  "link_ok B l \<Longrightarrow> 3 \<le> B \<Longrightarrow> B < 2 ^ 16 \<Longrightarrow>
    (case pppos_input ppp_input output_cb B s l of
       Some l' \<Rightarrow> link_ok B l' \<and> total l' = total l
     | None \<Rightarrow> \<exists>s1 s2 l1. s = s1 @ PPP_FLAG # s2 \<and> pppos_input ppp_input output_cb B s1 l = Some l1 \<and> null_tail l1)"
proof (induction s arbitrary: l)
  case (Cons c s)
  consider "\<not> popen (pcb l)" | "c = PPP_FLAG" "null_tail l" | "popen (pcb l)" "\<not> (c = PPP_FLAG \<and> ESCAPE_P (in_accm (pcb l)) c \<and> header_only l)"
    by (auto simp: null_tail_def)
  then show ?case
  proof cases
    case 1
    then show ?thesis using Cons.prems by simp
  next
    case 2
    then have "c # s = [] @ PPP_FLAG # s \<and> pppos_input ppp_input output_cb B [] l = Some l \<and> null_tail l" by simp
    moreover have "pppos_input ppp_input output_cb B (c # s) l = None" unfolding 2(1) by (rule null_tail_fails [OF 2(2)])
    ultimately show ?thesis by (metis (mono_tags, lifting) option.simps(4))
  next
    case 3
    from input_char_total [OF Cons.prems 3(2), of ppp_input output_cb] obtain l1 where
      l1: "input_char ppp_input output_cb B c l = Some l1" "link_ok B l1" "total l1 = total l" by blast
    have step: "pppos_input ppp_input output_cb B (c # t) l = pppos_input ppp_input output_cb B t l1" for t using 3(1) l1(1) by simp
    show ?thesis
    proof (cases "pppos_input ppp_input output_cb B s l1")
      case None
      with Cons.IH [OF l1(2) Cons.prems(2,3)] obtain s1 s2 l2 where
        "s = s1 @ PPP_FLAG # s2" "pppos_input ppp_input output_cb B s1 l1 = Some l2" "null_tail l2" by auto
      then have w: "c # s = (c # s1) @ PPP_FLAG # s2 \<and> pppos_input ppp_input output_cb B (c # s1) l = Some l2 \<and> null_tail l2" using step by simp
      have "pppos_input ppp_input output_cb B (c # s) l = None" using step None by simp
      with w show ?thesis by (metis (mono_tags, lifting) option.simps(4))
    next
      case (Some l2)
      with Cons.IH [OF l1(2) Cons.prems(2,3)] l1 show ?thesis unfolding step by simp
    qed
  qed
qed simp

section \<open>Every history of the link\<close>

text \<open>The link from its creation on: bytes arrive, the layers above call it; they connect it only while it is down.\<close>

inductive link_run :: "'u handler \<Rightarrow> 'o device \<Rightarrow> nat \<Rightarrow> ('u, 'o) link \<Rightarrow> ('u, 'o) link \<Rightarrow> bool"
  for ppp_input :: "'u handler" and output_cb :: "'o device" and B :: nat and l0 :: "('u, 'o) link" where
  start: "link_run ppp_input output_cb B l0 l0"
| bytes: "link_run ppp_input output_cb B l0 l \<Longrightarrow> pppos_input ppp_input output_cb B s l = Some l' \<Longrightarrow> link_run ppp_input output_cb B l0 l'"
| call: "link_run ppp_input output_cb B l0 l \<Longrightarrow> (c = Connect \<Longrightarrow> \<not> popen (pcb l)) \<Longrightarrow> link_call output_cb B c l = Some l' \<Longrightarrow> link_run ppp_input output_cb B l0 l'"

definition link_inv :: "nat \<Rightarrow> ('u, 'o) link \<Rightarrow> bool" where
  "link_inv B l \<longleftrightarrow> link_ok B l \<and> (\<not> popen (pcb l) \<longrightarrow> detached l)"

lemma input_char_inv:
  assumes inv: "link_inv B l" and B: "3 \<le> B" "B < 2 ^ 16" and op: "popen (pcb l)" and st: "input_char ppp_input output_cb B c l = Some l'"
  shows "link_inv B l' \<and> total l' = total l"
proof -
  have ok: "link_ok B l" using inv by (simp add: link_inv_def)
  have h: "\<not> (c = PPP_FLAG \<and> ESCAPE_P (in_accm (pcb l)) c \<and> header_only l)"
  proof
    assume h: "c = PPP_FLAG \<and> ESCAPE_P (in_accm (pcb l)) c \<and> header_only l"
    then have "pppos_input ppp_input output_cb B (PPP_FLAG # []) l = None" using op by (intro null_tail_fails) (auto simp: null_tail_def)
    then show False using st h op by simp
  qed
  from input_char_total [OF ok B h, of ppp_input output_cb] st have 1: "link_ok B l'" "total l' = total l" by simp_all
  have "\<not> popen (pcb l') \<longrightarrow> detached l'"
  proof (cases "ESCAPE_P (in_accm (pcb l)) c \<and> c = PPP_FLAG")
    case True
    then have "flag_char ppp_input output_cb B l = Some l'" using st by (auto simp: input_char_def PPP_FLAG_def PPP_ESCAPE_def split: if_splits)
    then show ?thesis using flag_total [OF ok B, of ppp_input output_cb] h True by auto
  next
    case False
    then have "popen (pcb l')" using st op plain_char_same [of B c l l'] by (auto simp: input_char_def upd_pcb_def same_ends_def split: if_splits)
    then show ?thesis by simp
  qed
  then show ?thesis using 1 by (simp add: link_inv_def)
qed

lemma pppos_input_inv:
  "link_inv B l \<Longrightarrow> 3 \<le> B \<Longrightarrow> B < 2 ^ 16 \<Longrightarrow> pppos_input ppp_input output_cb B s l = Some l' \<Longrightarrow> link_inv B l' \<and> total l' = total l"
proof (induction s arbitrary: l)
  case (Cons c s)
  show ?case
  proof (cases "popen (pcb l)")
    case True
    then obtain l1 where l1: "input_char ppp_input output_cb B c l = Some l1" "pppos_input ppp_input output_cb B s l1 = Some l'"
      using Cons.prems(4) by (auto simp: bind_eq_Some_conv)
    from input_char_inv [OF Cons.prems(1-3) True l1(1)] Cons.IH [OF _ Cons.prems(2,3) l1(2)] show ?thesis by simp
  qed (use Cons.prems in simp)
qed simp

lemma kept_inv: "kept l l' \<Longrightarrow> link_inv B l' = link_inv B l \<and> total l' = total l"
  by (auto simp: kept_def link_inv_def link_ok_def rx_ok_def total_def held_def own_tail_def detached_def split: in_tail.split)

lemma link_call_inv:
  assumes inv: "link_inv B l" and B: "2 \<le> B" and c: "c = Connect \<Longrightarrow> \<not> popen (pcb l)"
  shows "\<exists>l'. link_call output_cb B c l = Some l' \<and> link_inv B l' \<and> total l' = total l"
proof (cases c)
  case Connect
  then have "detached l" using inv c by (simp add: link_inv_def)
  then show ?thesis using Connect detached_ok [of "pppos_connect l" B] detached_ok [of l B]
    by (simp add: link_inv_def pppos_connect_def total_def detached_def pcb0_def)
next
  case Disconnect
  have rx: "rx_ok B (pcb l)" using inv by (simp add: link_inv_def link_ok_def)
  then have "detached (pppos_disconnect l)" "total (pppos_disconnect l) = total l"
    by (auto simp: detached_def pppos_disconnect_def pppos_input_free_current_packet_def Let_def total_def held_def own_tail_def pbuf_free_def rx_ok_def split: in_tail.splits)
  then show ?thesis using Disconnect detached_ok [of "pppos_disconnect l" B] by (simp add: link_inv_def)
next
  case (Write now now' p)
  then show ?thesis using write_total [OF B, of output_cb now now' p l] kept_inv inv by fastforce
next
  case (Netif_output now now' pb q)
  then show ?thesis using netif_output_total [OF B, of output_cb now now' pb q l] kept_inv inv by fastforce
qed (use inv in \<open>auto simp: link_inv_def link_ok_def rx_ok_def total_def held_def own_tail_def detached_def pppos_send_config_def pppos_recv_config_def split: in_tail.split\<close>)

lemma link_run_inv:
  assumes "link_run ppp_input output_cb B l0 l" "detached l0" "3 \<le> B" "B < 2 ^ 16"
  shows "link_inv B l \<and> total l = total l0"
  using assms(1)
proof induction
  case start
  show ?case using assms(2) detached_ok [of l0 B] by (simp add: link_inv_def)
next
  case (bytes l s l')
  then show ?case using pppos_input_inv [of B l ppp_input output_cb s l'] assms(3,4) by simp
next
  case (call l c l')
  then show ?case using link_call_inv [of B l c output_cb] assms(3) by force
qed

definition stats0 :: link_stats where
  "stats0 = \<lparr>st_xmit = 0, st_drop = 0, st_chkerr = 0, st_lenerr = 0, st_memerr = 0, st_err = 0\<rparr>"

definition new_link :: "nat \<Rightarrow> link_stats \<Rightarrow> 'u \<Rightarrow> 'o \<Rightarrow> ('u, 'o) link" where
  "new_link N st u o' = \<lparr>pcb = pcb0, pool = N, lent = 0, stats = st, vj_toss = False, upper = u, line = o'\<rparr>"

lemma new_link_detached: "detached (new_link N st u o') \<and> total (new_link N st u o') = N"
  by (simp add: new_link_def detached_def pcb0_def total_def held_def own_tail_def)



lemma upt_4: "[0..<4] = [0, 1, 2, 3]"
  by (simp add: upt_rec)

lemma empty_frame_fails:
  assumes "popen (pcb l)" "in_state (pcb l) = PDIDLE" "in_head (pcb l) = []" "in_tail (pcb l) = Tail_null"
    and m: "ESCAPE_P (in_accm (pcb l)) 0x7E" "ESCAPE_P (in_accm (pcb l)) 0x7D" "\<not> ESCAPE_P (in_accm (pcb l)) 0x20"
  shows "pppos_input ppp_input output_cb B [0x7E, 0x7D, 0x20, 0x7D, 0x20, 0x7E] l = None"
proof -
  let ?p = "(pcb l)\<lparr>in_fcs := PPP_INITFCS, in_state := PDADDRESS, in_escaped := False\<rparr>"
  have f: "PPP_FCS PPP_INITFCS 0 = 0x0F87" "PPP_FCS 0x0F87 0 = PPP_GOODFCS" by (simp_all add: PPP_FCS_def PPP_INITFCS_def PPP_GOODFCS_def fcstab_entries)
  have c: "(0x20 :: u8) XOR PPP_TRANS = 0" "PPP_FLAG = 0x7E" "PPP_ESCAPE = 0x7D" "(0x7E :: u8) \<noteq> 0x7D" "0 \<noteq> PPP_ALLSTATIONS" "0 \<noteq> PPP_UI"
    by (simp_all add: PPP_TRANS_def PPP_FLAG_def PPP_ESCAPE_def PPP_ALLSTATIONS_def PPP_UI_def)
  have 1: "input_char ppp_input output_cb B 0x7E l = Some (l\<lparr>pcb := ?p\<rparr>)"
    using assms by (simp add: input_char_def c flag_char_def new_packet_def upd_pcb_def)
  have 2: "input_char ppp_input output_cb B 0x7D l' = Some (l'\<lparr>pcb := (pcb l')\<lparr>in_escaped := True\<rparr>\<rparr>)" if "in_accm (pcb l') = in_accm (pcb l)" for l'
    using that m by (simp add: input_char_def c upd_pcb_def)
  let ?q = "?p\<lparr>in_fcs := 0x0F87, in_state := PDPROTOCOL2, in_protocol := 0\<rparr>"
  have 3: "input_char ppp_input output_cb B 0x20 (l\<lparr>pcb := ?p\<lparr>in_escaped := True\<rparr>\<rparr>) = Some (l\<lparr>pcb := ?q\<rparr>)"
    using m by (simp add: input_char_def plain_char_def c upd_pcb_def state_char_def address_char_def control_char_def protocol1_char_def f)
  have 4: "input_char ppp_input output_cb B 0x20 (l\<lparr>pcb := ?q\<lparr>in_escaped := True\<rparr>\<rparr>) = Some (l\<lparr>pcb := ?q\<lparr>in_fcs := PPP_GOODFCS, in_state := PDDATA\<rparr>\<rparr>)"
    using m by (simp add: input_char_def plain_char_def c upd_pcb_def state_char_def f)
  have 5: "input_char ppp_input output_cb B 0x7E (l\<lparr>pcb := ?q\<lparr>in_fcs := PPP_GOODFCS, in_state := PDDATA\<rparr>\<rparr>) = None"
    using assms by (simp add: input_char_def c flag_char_def good_packet_def tail_get_def)
  show ?thesis using assms(1) 1 2 3 4 5 by simp
qed

text \<open>
  C20. A frame without data: two bytes, sent escaped, are a complete header (protocol 0) and at the same time a correct check sequence; the flag that
  follows makes the receiver follow the null pointer \<^verbatim>\<open>in_tail\<close>. Every link that has been connected can be crashed so, whatever has been negotiated.\<close>

theorem empty_frame_null:
  "pppos_input ppp_input output_cb B [0x7E, 0x7D, 0x20, 0x7D, 0x20, 0x7E] (pppos_recv_config a pc ac (pppos_connect l)) = None"
proof (rule empty_frame_fails)
  let ?l = "pppos_recv_config a pc ac (pppos_connect l)"
  have "in_accm (pcb ?l) ! 15 = 0x60" "in_accm (pcb ?l) ! 4 = 0"
    by (simp_all add: pppos_recv_config_def pppos_connect_def pcb0_def load_accm_def upt_4)
  then show "ESCAPE_P (in_accm (pcb ?l)) 0x7E" "ESCAPE_P (in_accm (pcb ?l)) 0x7D" "\<not> ESCAPE_P (in_accm (pcb ?l)) 0x20"
    by (simp_all add: ESCAPE_P_def)
qed (simp_all add: pppos_recv_config_def pppos_connect_def pcb0_def)

section \<open>The character maps of two ends that have negotiated\<close>

definition conn_map :: "u8 list" where
  "conn_map = (replicate 32 0)[15 := 0x60]"

lemma ESCAPE_P_bit: "ESCAPE_P m c \<longleftrightarrow> bit (m ! (unat c div 8)) (unat c mod 8)"
proof -
  have "unat (drop_bit 3 c) = unat c div 8" by (simp add: unat_drop_bit_eq drop_bit_eq_div [of 3 "unat c"])
  moreover have "c AND 7 = take_bit 3 c" by (simp add: take_bit_eq_mask mask_eq_exp_minus_1)
  then have "unat (c AND 7) = take_bit 3 (unat c)" by (simp only: unsigned_take_bit_eq)
  then have "unat (c AND 7) = unat c mod 8" by (simp add: take_bit_eq_mod)
  ultimately show ?thesis by (simp add: ESCAPE_P_def bit_iff_and_push_bit_not_eq_0)
qed

lemma load_accm_nth: "length m = 32 \<Longrightarrow> i < 32 \<Longrightarrow> load_accm a m ! i = (if i < 4 then ucast (drop_bit (8 * i) a AND 0xFF) else m ! i)"
proof -
  assume i: "i < 32" and m: "length m = 32"
  consider "i = 0" | "i = 1" | "i = 2" | "i = 3" | "4 \<le> i" by linarith
  then show ?thesis using i m by cases (simp_all add: load_accm_def upt_4)
qed

lemma load_accm_escape: "ESCAPE_P (load_accm a conn_map) c \<longleftrightarrow> (if c < 32 then bit a (unat c) else c = 0x7D \<or> c = 0x7E)"
proof (cases "c < 32")
  case True
  then have c: "unat c < 32" by (simp add: word_less_nat_alt)
  then have "load_accm a conn_map ! (unat c div 8) = ucast (drop_bit (8 * (unat c div 8)) a AND 0xFF)"
    by (subst load_accm_nth) (auto simp: conn_map_def)
  moreover have "bit (0xFF :: u32) k \<longleftrightarrow> k < 8" for k using bit_mask_iff [of 8 k, where 'a = u32] by (cases "k < 8") (auto simp: mask_eq_exp_minus_1 dest: bit_imp_le_length)
  moreover have "unat c mod 8 < 8" by simp
  ultimately show ?thesis using True c by (simp add: ESCAPE_P_bit bit_simps)
next
  case False
  then have c: "32 \<le> unat c" "unat c < 256" using unsigned_less [of c, where ?'a = nat] by (simp_all add: word_less_nat_alt)
  have n: "load_accm a conn_map ! (unat c div 8) = (if unat c div 8 = 15 then 0x60 else 0)"
    using c by (subst load_accm_nth) (auto simp: conn_map_def nth_list_update)
  have b: "bit (0x60 :: u8) k \<longleftrightarrow> k = 5 \<or> k = 6" for k
  proof -
    consider "k = 0" | "k = 1" | "k = 2" | "k = 3" | "k = 4" | "k = 5" | "k = 6" | "k = 7" | "8 \<le> k" by linarith
    then show ?thesis by cases (auto dest: bit_imp_le_length)
  qed
  have "x div 8 = 15 \<and> (x mod 8 = 5 \<or> x mod 8 = 6) \<longleftrightarrow> x = 125 \<or> x = 126" for x :: nat by presburger
  note this [of "unat c"]
  moreover have "c = 0x7D \<longleftrightarrow> unat c = 125" "c = 0x7E \<longleftrightarrow> unat c = 126" by (simp_all add: word_unat_eq_iff)
  moreover have "ESCAPE_P (load_accm a conn_map) c \<longleftrightarrow> unat c div 8 = 15 \<and> (unat c mod 8 = 5 \<or> unat c mod 8 = 6)"
    unfolding ESCAPE_P_bit n using b [of "unat c mod 8"] by (cases "unat c div 8 = 15") simp_all
  ultimately show ?thesis using False by simp
qed

lemma negotiated_maps_fit: "b AND a = b \<Longrightarrow> maps_fit (load_accm a conn_map) (load_accm b conn_map)"
proof -
  assume ab: "b AND a = b"
  have sub: "bit a n" if "bit b n" for n using that ab by (metis bit_and_iff)
  have lt: "\<not> bit c 5" if "c < 32" for c :: u8
  proof -
    have "take_bit 5 (unat c) = unat c" using that by (simp add: take_bit_nat_eq_self_iff word_less_nat_alt)
    then have "take_bit 5 c = c" by (simp add: word_unat_eq_iff unsigned_take_bit_eq)
    then show ?thesis by (metis bit_take_bit_iff less_irrefl_nat)
  qed
  have x: "\<not> c XOR PPP_TRANS < 32" if "c < 32" for c :: u8
  proof -
    have "bit (c XOR PPP_TRANS) 5" using lt [OF that] by (simp add: bit_simps PPP_TRANS_def)
    then show ?thesis using lt by blast
  qed
  have y: "c XOR PPP_TRANS \<noteq> 0x7D \<and> c XOR PPP_TRANS \<noteq> 0x7E" if "c < 32" for c :: u8
  proof -
    have "c = (c XOR PPP_TRANS) XOR PPP_TRANS" by (simp add: xor.assoc)
    then show ?thesis using that by (auto simp: PPP_TRANS_def)
  qed
  show ?thesis unfolding maps_fit_def load_accm_escape
    using sub x y by (auto simp: PPP_ESCAPE_def PPP_FLAG_def split: if_splits) (simp_all add: PPP_TRANS_def)
qed

section \<open>Both ends of a line\<close>

lemma ready_flag:
  assumes "ready r" "ESCAPE_P (in_accm (pcb r)) PPP_FLAG"
  shows "pppos_input ppp_input output_cb B (PPP_FLAG # s) r = pppos_input ppp_input output_cb B s r"
proof -
  have "new_packet r = r" using assms(1) by (cases r; cases "pcb r") (auto simp: ready_def new_packet_def upd_pcb_def)
  then show ?thesis using assms by (simp add: ready_def input_char_def flag_char_def PPP_FLAG_def PPP_ESCAPE_def)
qed

context serial_device
begin

lemma line_roundtrip:
  assumes s: "up (line s)" "2 \<le> B" "0 < pool s" and r: "ready r" "3 \<le> B'" "length (concat pb) + 4 \<le> pool r * B'" "length (concat pb) + 4 < 2 ^ 16"
    and m: "maps_fit (out_accm (pcb s)) (in_accm (pcb r))" and q: "proto_ok (pcb s) q"
  shows "\<exists>s' w. pppos_netif_output output_cb B now now' pb q s = Some (ERR_OK, s') \<and> sent (line s') = sent (line s) @ w \<and> up (line s') \<and> pool s' = pool s \<and>
    (\<exists>r1 inp k. pppos_input ppp_input output_cb' B' w r = map_option new_packet (passes_on ppp_input output_cb' B' inp k r1) \<and>
      concat (map payload inp) = proto_bytes q @ concat pb \<and> chain_ok inp \<and> inp \<noteq> [] \<and> same_ends r r1 \<and> pool r1 + length inp + k = pool r)"
proof -
  let ?f = "frame (out_accm (pcb s)) (header (pcb s) q @ concat pb)"
  from netif_output_ok [OF s, of now now' pb q] obtain s' where s': "pppos_netif_output output_cb B now now' pb q s = Some (ERR_OK, s')"
    "sent (line s') = sent (line s) @ idle_text now (pcb s) @ ?f" "up (line s')" "pool s' = pool s" by blast
  have "pppos_input ppp_input output_cb' B' (idle_text now (pcb s) @ ?f) r = pppos_input ppp_input output_cb' B' ?f r"
    using ready_flag [OF r(1), of ppp_input output_cb' B' ?f] m by (simp add: idle_text_def maps_fit_def)
  moreover from frame_input [OF r(1,2) m q r(3,4), of ppp_input output_cb'] obtain r1 inp k where
    "pppos_input ppp_input output_cb' B' ?f r = map_option new_packet (passes_on ppp_input output_cb' B' inp k r1)"
    "concat (map payload inp) = proto_bytes q @ concat pb" "chain_ok inp" "inp \<noteq> []" "same_ends r r1" "pool r1 + length inp + k = pool r" by blast
  ultimately show ?thesis using s' by (intro exI [of _ s'] exI [of _ "idle_text now (pcb s) @ ?f"] conjI exI [of _ r1] exI [of _ inp] exI [of _ k]) simp_all
qed

end

text \<open>
  The frame check sequence with the table of 256 entries is the one that is computed bit by bit.\<close>

theorem ppp_fcs_table: "PPP_FCS fcs c = drop_bit 8 fcs XOR ppp_get_fcs (ucast ((fcs XOR ucast c) AND 0xFF))"
proof -
  let ?k = "(fcs XOR ucast c) AND 0xFF :: u16"
  have "?k \<le> 0xFF" by (metis word_and_le1)
  then have "unat ?k < 256" by (simp add: word_le_nat_alt)
  moreover have "(of_nat (unat ?k) :: u8) = ucast ?k" by (simp add: unsigned_ucast_eq unat_word_ariths word_unat_eq_iff unat_of_nat)
  ultimately show ?thesis unfolding PPP_FCS_def using fcstab_nth [of "unat ?k"] by simp
qed

end
