(* ===== verification/Modem.thy ===== *)
theory Modem
  imports PppOsLaws
begin

text \<open>
  The mobile network module of the port: \<^verbatim>\<open>lwip_port/sio.c\<close> with the threads of \<^verbatim>\<open>lwip_port/pppos_example.c\<close>. The module is driven with AT commands until it
  answers \<open>CONNECT\<close>; from then on the serial line carries PPP. The serial device of the link of theory \<open>PppOs\<close> is \<^verbatim>\<open>sio_write\<close>, so the state of the
  module is the line of the link.

  The task \<^verbatim>\<open>mobile_network_task\<close> has the higher priority: what it does between two calls of \<^verbatim>\<open>vTaskDelay\<close> is one step. The thread \<^verbatim>\<open>pppos_rx_thread\<close>
  takes the received bytes one by one; the processing of a byte is one step. \<^verbatim>\<open>uart1_send\<close> and the pin that powers the module are drivers of the
  board: the bytes given to the one, and the level of the other, are recorded. \<^verbatim>\<open>ppp_connect\<close> is represented by the calls that it makes on the
  link. The local variables of \<^verbatim>\<open>mobile_network_rx\<close> are taken to keep their values between two bytes, as the code expects; what they hold at the start
  is arbitrary.
\<close>

section \<open>State\<close>

datatype register_network_status_m = at_reset | at_ok | at_cgreg | at_atd | at_enter_ppp | at_reboot

text \<open>The parts of the loop of the task, named after the delay in each.\<close>

datatype stage = Reboot | Reset | Ok | Cgreg | Atd | Ppp

record modem =
  rnsm :: register_network_status_m
  m_reboot_count :: u32
  at_count :: u32
  wait :: stage
  module_4G_is_init :: bool
  power :: bool
  uart :: "u8 list"
  enter_ppp :: bool
  jmqtt :: nat
  arrRxChar :: "u8 list"
  arrRxCharNb :: nat
  newRxChar :: u8

definition RX_SIZE :: nat where "RX_SIZE = 1500"

definition octets :: "string \<Rightarrow> u8 list" where
  "octets s = map of_char s"

definition crlf :: "u8 list" where
  "crlf = [0x0D, 0x0A]"

definition uart1_send :: "u8 list \<Rightarrow> modem \<Rightarrow> modem" where
  "uart1_send bs m = m\<lparr>uart := uart m @ bs\<rparr>"

definition module_4G_OFF :: "modem \<Rightarrow> modem" where
  "module_4G_OFF m = m\<lparr>module_4G_is_init := True, power := False\<rparr>"

definition module_4G_ON :: "modem \<Rightarrow> modem" where
  "module_4G_ON m = m\<lparr>module_4G_is_init := True, power := True\<rparr>"

definition upd_line :: "('o \<Rightarrow> 'o) \<Rightarrow> ('u, 'o) link \<Rightarrow> ('u, 'o) link" where
  "upd_line f l = l\<lparr>line := f (line l)\<rparr>"

section \<open>The serial device\<close>

definition sio_write :: "modem device" where
  "sio_write data m = (if rnsm m \<noteq> at_enter_ppp then (0, m) else (of_nat (length data), uart1_send data m))"

definition ppp_output_cb :: "modem device" where
  "ppp_output_cb data m = sio_write data m"

section \<open>State changes\<close>

text \<open>\<open>conn\<close> are the calls that \<^verbatim>\<open>ppp_connect\<close> makes.\<close>

definition m_state_change :: "nat \<Rightarrow> lcall list \<Rightarrow> register_network_status_m \<Rightarrow> ('u, modem) link \<Rightarrow> ('u, modem) link option" where
  "m_state_change B conn s l = do {
     let l1 = (if s = at_reboot then upd_line (\<lambda>m. m\<lparr>m_reboot_count := m_reboot_count m + 1\<rparr>) l else l);
     l2 \<leftarrow> (if s = at_enter_ppp then link_calls ppp_output_cb B conn (upd_line (\<lambda>m. m\<lparr>enter_ppp := True\<rparr>) l1) else Some l1);
     Some (upd_line (\<lambda>m. m\<lparr>rnsm := s\<rparr>) l2) }"

section \<open>The task\<close>

text \<open>The condition of each part's loop, and the part that follows.\<close>

fun stage_state :: "stage \<Rightarrow> register_network_status_m" where
  "stage_state Reboot = at_reboot"
| "stage_state Reset = at_reset"
| "stage_state Ok = at_ok"
| "stage_state Cgreg = at_cgreg"
| "stage_state Atd = at_atd"
| "stage_state Ppp = at_enter_ppp"

fun next_stage :: "stage \<Rightarrow> stage" where
  "next_stage Reboot = Reset"
| "next_stage Reset = Ok"
| "next_stage Ok = Cgreg"
| "next_stage Cgreg = Atd"
| "next_stage Atd = Ppp"
| "next_stage Ppp = Reboot"

fun at_cmd :: "stage \<Rightarrow> u8 list" where
  "at_cmd Reset = octets ''AT'' @ crlf"
| "at_cmd Ok = octets ''AT+CGREG?'' @ crlf"
| "at_cmd Cgreg = octets ''AT+CGDCONT=1,'' @ [0x22] @ octets ''IP'' @ [0x22] @ octets '','' @ [0x22] @ octets ''CMNET'' @ [0x22] @ crlf"
| "at_cmd Atd = octets ''ATD*99#'' @ crlf"
| "at_cmd _ = []"

text \<open>The body of a loop up to its delay.\<close>

definition loop_body :: "stage \<Rightarrow> modem \<Rightarrow> modem" where
  "loop_body st m =
     (case st of
        Reboot \<Rightarrow> module_4G_OFF m
      | Ppp \<Rightarrow> m
      | _ \<Rightarrow> (uart1_send (at_cmd st) m)\<lparr>at_count := at_count m + 1\<rparr>)\<lparr>wait := st\<rparr>"

text \<open>From the start of a part to the next delay; the endless loop comes back to the first part.\<close>

fun stage_nr :: "stage \<Rightarrow> nat" where
  "stage_nr Reboot = 0"
| "stage_nr Reset = 1"
| "stage_nr Ok = 2"
| "stage_nr Cgreg = 3"
| "stage_nr Atd = 4"
| "stage_nr Ppp = 5"

fun state_nr :: "register_network_status_m \<Rightarrow> nat" where
  "state_nr at_reboot = 0"
| "state_nr at_reset = 1"
| "state_nr at_ok = 2"
| "state_nr at_cgreg = 3"
| "state_nr at_atd = 4"
| "state_nr at_enter_ppp = 5"

function from_stage :: "stage \<Rightarrow> modem \<Rightarrow> modem" where
  "from_stage st m =
     (let m1 = (if st = Ppp then m else m\<lparr>at_count := 0\<rparr>)
      in if rnsm m1 = stage_state st then loop_body st m1 else from_stage (next_stage st) m1)"
  by pat_completeness auto
termination
proof (relation "measure (\<lambda>(st, m). (6 + state_nr (rnsm m) - stage_nr st) mod 6)")
  show "((next_stage st, m1), st, m) \<in> measure (\<lambda>(st, m). (6 + state_nr (rnsm m) - stage_nr st) mod 6)"
    if "m1 = (if st = Ppp then m else m\<lparr>at_count := 0\<rparr>)" "rnsm m1 \<noteq> stage_state st" for st m m1
    using that by (cases st; cases "rnsm m") auto
qed simp

text \<open>The task comes back from a delay; \<open>net_up\<close>: the default interface has an address.\<close>

definition loop_again :: "stage \<Rightarrow> u32 \<Rightarrow> modem \<Rightarrow> modem" where
  "loop_again st limit m =
     (if at_count m > limit then from_stage (next_stage st) m
      else if rnsm m = stage_state st then loop_body st m else from_stage (next_stage st) m)"

definition reset_timeout :: "modem \<Rightarrow> u32" where
  "reset_timeout m = (if m_reboot_count m = 0 then 1000 div 100 else 60000 div 100)"

definition mobile_network_task :: "nat \<Rightarrow> lcall list \<Rightarrow> bool \<Rightarrow> ('u, modem) link \<Rightarrow> ('u, modem) link option" where
  "mobile_network_task B conn net_up l =
     (case wait (line l) of
        Reboot \<Rightarrow> do { l1 \<leftarrow> m_state_change B conn at_reset (upd_line module_4G_ON l); Some (upd_line (from_stage Reset) l1) }
      | Reset \<Rightarrow>
          if at_count (line l) > reset_timeout (line l)
          then do { l1 \<leftarrow> m_state_change B conn at_reboot l; Some (upd_line (from_stage Ok) l1) }
          else Some (upd_line (loop_again Reset (reset_timeout (line l))) l)
      | Ppp \<Rightarrow> Some (upd_line (\<lambda>m. from_stage Reboot (if net_up then m\<lparr>jmqtt := jmqtt m + 1\<rparr> else m)) l)
      | st \<Rightarrow> Some (upd_line (loop_again st 60) l))"

section \<open>Received bytes\<close>

text \<open>\<^verbatim>\<open>strncmp\<close> with the length of a string that has no terminator in it, on the whole array.\<close>

definition starts :: "u8 list \<Rightarrow> modem \<Rightarrow> bool" where
  "starts features m \<longleftrightarrow> take (length features) (arrRxChar m) = features"

definition change_if :: "nat \<Rightarrow> lcall list \<Rightarrow> string \<Rightarrow> register_network_status_m \<Rightarrow> ('u, modem) link \<Rightarrow> ('u, modem) link option" where
  "change_if B conn features s l = (if starts (octets features) (line l) then m_state_change B conn s l else Some l)"

definition rx_line :: "nat \<Rightarrow> lcall list \<Rightarrow> ('u, modem) link \<Rightarrow> ('u, modem) link option" where
  "rx_line B conn l =
     (case rnsm (line l) of
        at_reset \<Rightarrow> change_if B conn ''OK'' at_ok l
      | at_ok \<Rightarrow> do { l1 \<leftarrow> change_if B conn ''+CGREG: 0,1'' at_cgreg l; change_if B conn ''+CGREG: 0,5'' at_cgreg l1 }
      | at_cgreg \<Rightarrow> change_if B conn ''OK'' at_atd l
      | at_atd \<Rightarrow> change_if B conn ''CONNECT'' at_enter_ppp l
      | _ \<Rightarrow> Some l)"

definition rx_store :: "u8 \<Rightarrow> modem \<Rightarrow> modem" where
  "rx_store c m =
     (if arrRxCharNb m < RX_SIZE
      then m\<lparr>newRxChar := c, arrRxChar := (arrRxChar m)[arrRxCharNb m := c], arrRxCharNb := arrRxCharNb m + 1\<rparr>
      else m\<lparr>newRxChar := c, arrRxCharNb := 0\<rparr>)"

definition rx_at :: "nat \<Rightarrow> lcall list \<Rightarrow> u8 \<Rightarrow> ('u, modem) link \<Rightarrow> ('u, modem) link option" where
  "rx_at B conn c l =
     (let last = newRxChar (line l); l1 = upd_line (rx_store c) l
      in if last = 0x0D \<and> c = 0x0A then do { l2 \<leftarrow> rx_line B conn l1; Some (upd_line (\<lambda>m. m\<lparr>arrRxCharNb := 0\<rparr>) l2) } else Some l1)"

text \<open>What is returned, if the function returns after this byte. A store behind \<^verbatim>\<open>arrRxChar\<close> or behind the caller's array is \<^term>\<open>None\<close>.\<close>

definition rx_ppp :: "nat \<Rightarrow> u8 \<Rightarrow> modem \<Rightarrow> (u8 list option \<times> modem) option" where
  "rx_ppp len c m = do {
     assert_c (arrRxCharNb m < RX_SIZE);
     let m1 = m\<lparr>arrRxChar := (arrRxChar m)[arrRxCharNb m := c], arrRxCharNb := arrRxCharNb m + 1\<rparr>;
     if (arrRxCharNb m1 \<noteq> 1 \<and> c = 0x7E) \<or> arrRxCharNb m1 = len
     then do { assert_c (arrRxCharNb m1 \<le> len); Some (Some (take (arrRxCharNb m1) (arrRxChar m1)), m1\<lparr>arrRxCharNb := 0\<rparr>) }
     else Some (None, m1) }"

definition rx_char :: "nat \<Rightarrow> lcall list \<Rightarrow> nat \<Rightarrow> u8 \<Rightarrow> ('u, modem) link \<Rightarrow> (u8 list option \<times> ('u, modem) link) option" where
  "rx_char B conn len c l =
     (if rnsm (line l) \<noteq> at_enter_ppp then map_option (Pair None) (rx_at B conn c l)
      else map_option (\<lambda>(r, m). (r, l\<lparr>line := m\<rparr>)) (rx_ppp len c (line l)))"

text \<open>The function takes bytes until it returns, or waits for more: then \<^term>\<open>None\<close> stands for the result.\<close>

fun mobile_network_rx ::
  "nat \<Rightarrow> lcall list \<Rightarrow> nat \<Rightarrow> u8 list \<Rightarrow> ('u, modem) link \<Rightarrow> (u8 list option \<times> u8 list \<times> ('u, modem) link) option" where
  "mobile_network_rx B conn len [] l = Some (None, [], l)"
| "mobile_network_rx B conn len (c # cs) l = do {
     (r, l1) \<leftarrow> rx_char B conn len c l;
     (case r of Some data \<Rightarrow> Some (Some data, cs, l1) | None \<Rightarrow> mobile_network_rx B conn len cs l1) }"

definition sio_read :: "nat \<Rightarrow> lcall list \<Rightarrow> nat \<Rightarrow> u8 list \<Rightarrow> ('u, modem) link \<Rightarrow> (u8 list option \<times> u8 list \<times> ('u, modem) link) option" where
  "sio_read B conn len cs l = mobile_network_rx B conn len cs l"

text \<open>The state that \<^verbatim>\<open>mobile_network_module_register_up\<close> leaves, and the first step of the task; \<open>arr\<close> and \<open>c\<close> are the uninitialised locals.\<close>

definition modem0 :: "u8 list \<Rightarrow> u8 \<Rightarrow> modem" where
  "modem0 arr c = from_stage Reboot
     \<lparr>rnsm = at_reset, m_reboot_count = 0, at_count = 0, wait = Reboot, module_4G_is_init = False, power = True, uart = [], enter_ppp = False, jmqtt = 0,
      arrRxChar = arr, arrRxCharNb = 0, newRxChar = c\<rparr>"

definition BUFFER_SIZE :: nat where "BUFFER_SIZE = 128"

text \<open>One round of the loop of \<^verbatim>\<open>pppos_rx_thread\<close>, up to the chain that it gives to the core thread; \<open>post\<close> is what the core thread's queue answers.\<close>

definition pppos_rx_thread ::
  "nat \<Rightarrow> lcall list \<Rightarrow> err_t \<Rightarrow> u8 list \<Rightarrow> ('u, modem) link \<Rightarrow> (pbuf list option \<times> u8 list \<times> ('u, modem) link) option" where
  "pppos_rx_thread B conn post cs l = do {
     (r, cs1, l1) \<leftarrow> sio_read B conn BUFFER_SIZE cs l;
     (case r of
        None \<Rightarrow> Some (None, cs1, l1)
      | Some data \<Rightarrow>
          if length data > 0
          then (let (_, p, free) = pppos_input_tcpip post B data (pool l1) in Some (Some p, cs1, l1\<lparr>pool := free\<rparr>))
          else Some (Some [], cs1, l1)) }"

end
