(* ===== verification/ModemLaws.thy ===== *)
theory ModemLaws
  imports Modem "HOL-Library.Sublist"
begin

text \<open>
  Laws of the mobile network module of theory \<open>Modem\<close>.
\<close>

section \<open>The device of the link\<close>

interpretation sio: serial_device ppp_output_cb uart "\<lambda>m. rnsm m = at_enter_ppp"
  by unfold_locales (simp add: ppp_output_cb_def sio_write_def uart1_send_def)

text \<open>
  C21. Round trip through the serial line: a packet that one end sends while its module is in PPP mode goes to the line completely, and the other end, with the
  bytes that were sent, passes exactly the protocol number and the data of the packet to its layers above, in one chain with correct lengths.
  It holds for any sizes of the buffers and whatever the layers above do with the packet.\<close>

theorem ppp_roundtrip:
  assumes "rnsm (line s) = at_enter_ppp" "2 \<le> B" "0 < pool s"
    and "ready r" "3 \<le> B'" "length (concat pb) + 4 \<le> pool r * B'" "length (concat pb) + 4 < 2 ^ 16"
    and "maps_fit (out_accm (pcb s)) (in_accm (pcb r))" "proto_ok (pcb s) q"
  shows "\<exists>s' w. pppos_netif_output ppp_output_cb B now now' pb q s = Some (ERR_OK, s') \<and> uart (line s') = uart (line s) @ w \<and> pool s' = pool s \<and>
    (\<exists>r1 inp k. pppos_input ppp_input output_cb' B' w r = map_option new_packet (passes_on ppp_input output_cb' B' inp k r1) \<and>
      concat (map payload inp) = proto_bytes q @ concat pb \<and> chain_ok inp \<and> inp \<noteq> [] \<and> same_ends r r1 \<and> pool r1 + length inp + k = pool r)"
  using sio.line_roundtrip [OF assms, of now now' ppp_input output_cb'] by blast

definition demo_modem :: modem where
  "demo_modem = (modem0 (replicate 1500 0) 0)\<lparr>rnsm := at_enter_ppp\<rparr>"

definition demo_sender :: "(unit, modem) link" where
  "demo_sender = pppos_send_config 0 True True (pppos_connect (new_link 2 stats0 () demo_modem))"

definition demo_receiver :: "(unit, modem) link" where
  "demo_receiver = new_packet (pppos_recv_config 0 True True (pppos_connect (new_link 3 stats0 () demo_modem)))"

theorem ppp_roundtrip_witness:
  "\<exists>s' w. pppos_netif_output ppp_output_cb 8 0 0 [[0x45, 0x7E], [0x7D]] 0x0021 demo_sender = Some (ERR_OK, s') \<and> uart (line s') = uart (line demo_sender) @ w \<and> pool s' = 2 \<and>
    (\<exists>r1 inp k. pppos_input (\<lambda>p u. (u, [])) ppp_output_cb 4 w demo_receiver = map_option new_packet (passes_on (\<lambda>p u. (u, [])) ppp_output_cb 4 inp k r1) \<and>
      concat (map payload inp) = proto_bytes 0x0021 @ [0x45, 0x7E, 0x7D] \<and> chain_ok inp \<and> inp \<noteq> [] \<and> same_ends demo_receiver r1 \<and> pool r1 + length inp + k = 3)"
proof -
  have 1: "rnsm (line demo_sender) = at_enter_ppp" "pool demo_sender = 2" "proto_ok (pcb demo_sender) 0x0021"
    by (simp_all add: demo_sender_def demo_modem_def pppos_send_config_def pppos_connect_def new_link_def proto_ok_def)
  have 2: "ready demo_receiver" "pool demo_receiver = 3"
    by (simp_all add: demo_receiver_def new_packet_def upd_pcb_def pppos_recv_config_def pppos_connect_def new_link_def pcb0_def ready_def)
  have 3: "maps_fit (out_accm (pcb demo_sender)) (in_accm (pcb demo_receiver))"
    using negotiated_maps_fit [of 0 0]
    by (simp add: demo_sender_def demo_receiver_def new_packet_def upd_pcb_def pppos_recv_config_def pppos_send_config_def pppos_connect_def new_link_def pcb0_def conn_map_def)
  show ?thesis
    using ppp_roundtrip [OF 1(1), where B = 8 and r = demo_receiver and B' = 4 and pb = "[[0x45, 0x7E], [0x7D]]" and q = "0x0021" and now = 0 and now' = 0 and
      ppp_input = "\<lambda>p u. (u, [])" and output_cb' = ppp_output_cb] 1 2 3 by simp
qed

section \<open>State changes\<close>

lemma change_simple: "s \<noteq> at_enter_ppp \<Longrightarrow> m_state_change B conn s l =
    Some (upd_line (\<lambda>m. m\<lparr>rnsm := s, m_reboot_count := (if s = at_reboot then m_reboot_count m + 1 else m_reboot_count m)\<rparr>) l)"
  by (simp add: m_state_change_def upd_line_def)

text \<open>What the device does to the line, the calls of the layers above do.\<close>

locale device_law =
  fixes output_cb :: "'o device" and P :: "'o \<Rightarrow> bool"
  assumes keeps: "P o' \<Longrightarrow> P (snd (output_cb bs o'))"
begin

lemma append_keeps: "P o' \<Longrightarrow> pppos_output_append output_cb B accm c a fcs (err, nb, o') = Some ((err', nb', o1), fcs') \<Longrightarrow> P o1"
  using keeps [of o' nb] by (auto simp: pppos_output_append_def send_nb_def Let_def split_beta bind_eq_Some_conv split: if_splits)

lemma append_all_keeps: "P o' \<Longrightarrow> append_all output_cb B accm cs fcs (err, nb, o') = Some ((err', nb', o1), fcs') \<Longrightarrow> P o1"
proof (induction cs arbitrary: fcs err nb o')
  case (Cons c cs)
  then obtain e n o2 f where "pppos_output_append output_cb B accm c True fcs (err, nb, o') = Some ((e, n, o2), f)"
    "append_all output_cb B accm cs f (e, n, o2) = Some ((err', nb', o1), fcs')" by (auto simp: bind_eq_Some_conv)
  then show ?case using Cons append_keeps by blast
qed simp

lemma last_keeps: "P o' \<Longrightarrow> pppos_output_last output_cb B now f (err, nb, o') l = Some (err', l') \<Longrightarrow> P (line l')"
proof -
  assume P: "P o'" and l': "pppos_output_last output_cb B now f (err, nb, o') l = Some (err', l')"
  from l' obtain e1 n1 o1 f1 e2 n2 o2 f2 e3 n3 o3 f3 where
    s: "pppos_output_append output_cb B (out_accm (pcb l)) (ucast (NOT f AND 0xFF)) True None (err, nb, o') = Some ((e1, n1, o1), f1)"
      "pppos_output_append output_cb B (out_accm (pcb l)) (ucast (drop_bit 8 (NOT f) AND 0xFF)) True None (e1, n1, o1) = Some ((e2, n2, o2), f2)"
      "pppos_output_append output_cb B (out_accm (pcb l)) PPP_FLAG False None (e2, n2, o2) = Some ((e3, n3, o3), f3)"
    by (auto simp: pppos_output_last_def bind_eq_Some_conv Let_def)
  have "P o3" by (rule append_keeps [OF append_keeps [OF append_keeps [OF P s(1)] s(2)] s(3)])
  then have "P (snd (send_nb output_cb n3 o3))" using keeps [of o3 n3] by (simp add: send_nb_def split_beta)
  then show ?thesis using l' s \<open>P o3\<close> by (auto simp: pppos_output_last_def Let_def split_beta split: if_splits)
qed

lemma idle_keeps: "P (line l) \<Longrightarrow> idle_flag output_cb B now l = Some ((err, nb, o1), f) \<Longrightarrow> P o1"
  using append_keeps by (auto simp: idle_flag_def split: if_splits)

lemma call_keeps: "P (line l) \<Longrightarrow> link_call output_cb B c l = Some l' \<Longrightarrow> P (line l')"
proof (cases c)
  case (Write now now' p)
  assume P: "P (line l)" "link_call output_cb B c l = Some l'"
  show ?thesis
  proof (cases "pool l = 0")
    case True
    then show ?thesis using P Write by (auto simp: pppos_write_def pbuf_alloc_def pool_chain.simps no_buffer_def)
  next
    case False
    with P Write alloc_nb [of "pool l" B] obtain err e n o1 f e1 n1 o2 f1 where
      s: "idle_flag output_cb B now l = Some ((e, n, o1), f)" "append_all output_cb B (out_accm (pcb l)) p (Some PPP_INITFCS) (e, n, o1) = Some ((e1, n1, o2), f1)"
      "pppos_output_last output_cb B now' (the f1) (e1, n1, o2) (l\<lparr>pool := pool l - 1\<rparr>) = Some (err, l')"
      by (auto simp: pppos_write_def bind_eq_Some_conv)
    show ?thesis by (rule last_keeps [OF append_all_keeps [OF idle_keeps [OF P(1) s(1)] s(2)] s(3)])
  qed
next
  case (Netif_output now now' pb q)
  assume P: "P (line l)" "link_call output_cb B c l = Some l'"
  show ?thesis
  proof (cases "pool l = 0")
    case True
    then show ?thesis using P Netif_output by (auto simp: pppos_netif_output_def pbuf_alloc_def pool_chain.simps no_buffer_def Let_def)
  next
    case False
    with P Netif_output alloc_nb [of "pool l" B] obtain err h1 h2 h3 e n o1 f e1 n1 o2 f1 e2 n2 o3 f2 e3 n3 o4 f3 e4 n4 o5 f4 where
      s: "idle_flag output_cb B now l = Some ((e, n, o1), f)"
      "append_all output_cb B (out_accm (pcb l)) h1 (Some PPP_INITFCS) (e, n, o1) = Some ((e1, n1, o2), f1)"
      "append_all output_cb B (out_accm (pcb l)) h2 f1 (e1, n1, o2) = Some ((e2, n2, o3), f2)"
      "append_all output_cb B (out_accm (pcb l)) h3 f2 (e2, n2, o3) = Some ((e3, n3, o4), f3)"
      "append_all output_cb B (out_accm (pcb l)) (concat pb) f3 (e3, n3, o4) = Some ((e4, n4, o5), f4)"
      "pppos_output_last output_cb B now' (the f4) (e4, n4, o5) (l\<lparr>pool := pool l - 1\<rparr>) = Some (err, l')"
      by (auto simp: pppos_netif_output_def bind_eq_Some_conv Let_def simp del: append_all.simps)
    show ?thesis
      by (rule last_keeps [OF append_all_keeps [OF append_all_keeps [OF append_all_keeps [OF append_all_keeps [OF idle_keeps [OF P(1) s(1)] s(2)] s(3)] s(4)] s(5)] s(6)])
  qed
qed (auto simp: pppos_connect_def pppos_disconnect_def pppos_input_free_current_packet_def Let_def pppos_send_config_def pppos_recv_config_def)

lemma calls_keep: "P (line l) \<Longrightarrow> link_calls output_cb B cs l = Some l' \<Longrightarrow> P (line l')"
proof (induction cs arbitrary: l)
  case (Cons c cs)
  then obtain l1 where "link_call output_cb B c l = Some l1" "link_calls output_cb B cs l1 = Some l'" by (auto simp: bind_eq_Some_conv)
  then show ?case using Cons.IH [of l1] call_keeps [OF Cons.prems(1)] by simp
qed simp

end

section \<open>Entering PPP mode\<close>

interpretation quiet: device_law ppp_output_cb "\<lambda>m. m = m0 \<and> rnsm m0 \<noteq> at_enter_ppp" for m0
  by unfold_locales (auto simp: ppp_output_cb_def sio_write_def)

lemma enter_line:
  assumes "rnsm (line l) \<noteq> at_enter_ppp" "m_state_change B conn at_enter_ppp l = Some l'"
  shows "line l' = (line l)\<lparr>enter_ppp := True, rnsm := at_enter_ppp\<rparr>"
proof -
  let ?l = "upd_line (\<lambda>m. m\<lparr>enter_ppp := True\<rparr>) l"
  obtain l2 where l2: "link_calls ppp_output_cb B conn ?l = Some l2" "l' = upd_line (\<lambda>m. m\<lparr>rnsm := at_enter_ppp\<rparr>) l2"
    using assms(2) by (auto simp: m_state_change_def bind_eq_Some_conv)
  have "line l2 = line ?l" using quiet.calls_keep [OF _ l2(1), of "line ?l"] assms(1) by (simp add: upd_line_def)
  then show ?thesis using l2(2) by (simp add: upd_line_def)
qed

lemma enter_total:
  assumes "detached l" "2 \<le> B"
  shows "\<exists>l'. m_state_change B conn at_enter_ppp l = Some l' \<and> detached l' \<and> pool l' + lent l' = pool l + lent l"
proof -
  let ?l = "upd_line (\<lambda>m. m\<lparr>enter_ppp := True\<rparr>) l"
  have "detached ?l" using assms(1) by (simp add: detached_def upd_line_def)
  from link_calls_total [OF assms(2) this, of ppp_output_cb conn] show ?thesis
    by (auto simp: m_state_change_def upd_line_def detached_def)
qed

text \<open>
  The change to PPP mode starts the connection before the mode is set: whatever packets the layers above send while they connect, \<^verbatim>\<open>sio_write\<close> refuses
  them, and nothing reaches the line. The first Configure-Request is always lost.\<close>

theorem first_packets_refused:
  assumes "rnsm (line l) \<noteq> at_enter_ppp" "detached l" "2 \<le> B"
  shows "\<exists>l'. m_state_change B conn at_enter_ppp l = Some l' \<and> uart (line l') = uart (line l) \<and> rnsm (line l') = at_enter_ppp"
  using enter_total [OF assms(2,3), of conn] enter_line [OF assms(1), of B conn] by fastforce

theorem first_packets_refused_witness:
  "\<exists>l'. m_state_change 8 [Connect, Write 0 0 [0xC0, 0x21, 1, 1, 0, 4]] at_enter_ppp (new_link 4 stats0 () (modem0 (replicate 1500 0) 0)) = Some l' \<and>
     uart (line l') = octets ''AT'' @ crlf \<and> rnsm (line l') = at_enter_ppp"
proof -
  let ?m = "modem0 (replicate 1500 0) 0"
  have "rnsm ?m = at_reset" "uart ?m = octets ''AT'' @ crlf"
    by (simp_all add: modem0_def from_stage.simps [of Reboot] from_stage.simps [of Reset] loop_body_def uart1_send_def)
  then show ?thesis using first_packets_refused [of "new_link 4 stats0 () ?m" 8 "[Connect, Write 0 0 [0xC0, 0x21, 1, 1, 0, 4]]"] new_link_detached [of 4 stats0 "()" ?m]
    by (simp add: new_link_def)
qed

section \<open>The task\<close>

fun state_stage :: "register_network_status_m \<Rightarrow> stage" where
  "state_stage at_reboot = Reboot"
| "state_stage at_reset = Reset"
| "state_stage at_ok = Ok"
| "state_stage at_cgreg = Cgreg"
| "state_stage at_atd = Atd"
| "state_stage at_enter_ppp = Ppp"

lemma stage_state_iff: "s = stage_state st \<longleftrightarrow> st = state_stage s"
  by (cases st; cases s) auto

declare from_stage.simps [simp del]

text \<open>The endless loop always comes to a delay: in the part that belongs to the state.\<close>

lemma from_stage_eq:
  "from_stage st m = loop_body (state_stage (rnsm m)) (if st = Ppp \<and> rnsm m = at_enter_ppp then m else m\<lparr>at_count := 0\<rparr>)"
proof (induction st m rule: from_stage.induct)
  case (1 st m)
  let ?m = "if st = Ppp then m else m\<lparr>at_count := 0\<rparr>"
  show ?case
  proof (cases "rnsm ?m = stage_state st")
    case True
    then show ?thesis by (subst from_stage.simps) (cases st; simp add: Let_def)
  next
    case False
    from 1 [OF refl False] have "from_stage st m = loop_body (state_stage (rnsm ?m)) (if next_stage st = Ppp \<and> rnsm ?m = at_enter_ppp then ?m else ?m\<lparr>at_count := 0\<rparr>)"
      using False by (subst from_stage.simps) (simp add: Let_def)
    then show ?thesis using False by (cases st) auto
  qed
qed

fun task_run :: "nat \<Rightarrow> lcall list \<Rightarrow> bool list \<Rightarrow> ('u, modem) link \<Rightarrow> ('u, modem) link option" where
  "task_run B conn [] l = Some l"
| "task_run B conn (n # ns) l = do { l1 \<leftarrow> mobile_network_task B conn n l; task_run B conn ns l1 }"

lemma task_run_append: "task_run B conn (as @ bs) l = do { l1 \<leftarrow> task_run B conn as l; task_run B conn bs l1 }"
proof (induction as arbitrary: l)
  case (Cons a as)
  then show ?case by (cases "mobile_network_task B conn a l") simp_all
qed simp

text \<open>The module is asked \<open>AT\<close> for the \<open>n\<close>-th time.\<close>

definition asking :: "nat \<Rightarrow> u32 \<Rightarrow> modem \<Rightarrow> bool" where
  "asking n r m \<longleftrightarrow> rnsm m = at_reset \<and> wait m = Reset \<and> at_count m = of_nat n \<and> m_reboot_count m = r"

definition limit_of :: "u32 \<Rightarrow> nat" where
  "limit_of r = (if r = 0 then 10 else 600)"

lemma reset_timeout_limit: "reset_timeout m = of_nat (limit_of (m_reboot_count m))"
  by (simp add: reset_timeout_def limit_of_def)

lemma limit_le: "limit_of r \<le> 600"
  by (simp add: limit_of_def)

lemma ask_again:
  assumes "asking n r (line l)" "n \<le> limit_of r"
  shows "\<exists>l'. mobile_network_task B conn net l = Some l' \<and> asking (n + 1) r (line l')"
proof -
  have "\<not> at_count (line l) > reset_timeout (line l)"
    using assms limit_le [of r] by (simp add: asking_def reset_timeout_limit word_less_nat_alt unat_of_nat)
  then show ?thesis using assms(1) by (simp add: mobile_network_task_def asking_def loop_again_def upd_line_def loop_body_def uart1_send_def)
qed

lemma asks_until:
  "asking n r (line l) \<Longrightarrow> n + length ns = limit_of r + 1 \<Longrightarrow> \<exists>l'. task_run B conn ns l = Some l' \<and> asking (limit_of r + 1) r (line l')"
proof (induction ns arbitrary: n l)
  case (Cons a ns)
  from ask_again [OF Cons.prems(1), of B conn a] Cons.prems(2) obtain l1 where
    "mobile_network_task B conn a l = Some l1" "asking (n + 1) r (line l1)" by auto
  with Cons.IH [of "n + 1" l1] Cons.prems(2) show ?case by auto
qed simp

lemma gives_up:
  assumes "asking (limit_of r + 1) r (line l)"
  shows "\<exists>l'. task_run B conn [a, b] l = Some l' \<and> asking 1 (r + 1) (line l') \<and> power (line l')"
proof -
  have "at_count (line l) > reset_timeout (line l)"
    using assms by (cases "r = 0") (simp_all add: asking_def reset_timeout_def limit_of_def)
  then show ?thesis using assms
    by (simp add: mobile_network_task_def asking_def upd_line_def change_simple from_stage_eq loop_body_def module_4G_OFF_def module_4G_ON_def uart1_send_def)
qed

lemma reboot_cycle:
  assumes "asking 1 r (line l)" "length ns = limit_of r + 2"
  shows "\<exists>l'. task_run B conn ns l = Some l' \<and> asking 1 (r + 1) (line l') \<and> power (line l')"
proof -
  define as where "as = take (limit_of r) ns"
  have as: "1 + length as = limit_of r + 1" using assms(2) by (simp add: as_def)
  have "length (drop (limit_of r) ns) = Suc (Suc 0)" using assms(2) by simp
  then obtain a b where ns: "ns = as @ [a, b]" unfolding as_def by (metis append_take_drop_id length_0_conv length_Suc_conv)
  from asks_until [OF assms(1) as, of B conn] obtain l1 where l1: "task_run B conn as l = Some l1" "asking (limit_of r + 1) r (line l1)" by blast
  with gives_up [OF l1(2), of B conn a b] show ?thesis unfolding ns task_run_append by simp
qed

lemma reboot_cycles:
  "asking 1 1 (line l) \<Longrightarrow> length ns = 602 * k \<Longrightarrow> k < 2 ^ 32 - 1 \<Longrightarrow>
    \<exists>l'. task_run B conn ns l = Some l' \<and> asking 1 (of_nat (k + 1)) (line l')"
proof (induction k arbitrary: ns)
  case (Suc k)
  let ?as = "take (602 * k) ns" and ?bs = "drop (602 * k) ns"
  from Suc.IH [of ?as] Suc.prems obtain l1 where l1: "task_run B conn ?as l = Some l1" "asking 1 (of_nat (k + 1)) (line l1)" by auto
  have "(of_nat (k + 1) :: u32) \<noteq> 0" using Suc.prems(3) by (simp add: word_unat_eq_iff unat_of_nat del: of_nat_Suc)
  then have "limit_of (of_nat (k + 1)) = 600" by (simp add: limit_of_def del: of_nat_Suc of_nat_add)
  then have "length ?bs = limit_of (of_nat (k + 1)) + 2" using Suc.prems(2) by simp
  from reboot_cycle [OF l1(2) this, of B conn] obtain l2 where "task_run B conn ?bs l1 = Some l2" "asking 1 (of_nat (k + 1) + 1) (line l2)" by blast
  then show ?case using l1(1) task_run_append [of B conn ?as ?bs l] by (auto simp: add.commute)
qed simp

lemma modem0_asking: "asking 1 0 (modem0 arr c)"
  by (simp add: modem0_def from_stage_eq asking_def loop_body_def uart1_send_def)



text \<open>A state in which the task waits for the module's answer to a command other than \<open>AT\<close>.\<close>

definition waiting :: "modem \<Rightarrow> bool" where
  "waiting m \<longleftrightarrow> rnsm m \<in> {at_ok, at_cgreg, at_atd} \<and> wait m = state_stage (rnsm m)"

lemma waiting_step:
  assumes "waiting (line l)"
  shows "\<exists>l'. mobile_network_task B conn net l = Some l' \<and> waiting (line l') \<and> rnsm (line l') = rnsm (line l) \<and> m_reboot_count (line l') = m_reboot_count (line l) \<and>
    uart (line l') = uart (line l) @ at_cmd (state_stage (rnsm (line l))) \<and> power (line l') = power (line l)"
  using assms by (cases "rnsm (line l)") (auto simp: waiting_def mobile_network_task_def loop_again_def from_stage_eq upd_line_def loop_body_def uart1_send_def)

text \<open>
  After the first answer of the module the time limits have no effect: while it does not answer, the task sends the same command in every round, for ever,
  and never restarts the module.\<close>

theorem no_timeout_after_ok:
  assumes "waiting (line l)"
  shows "\<exists>l'. task_run B conn ns l = Some l' \<and> rnsm (line l') = rnsm (line l) \<and> m_reboot_count (line l') = m_reboot_count (line l) \<and>
    uart (line l') = uart (line l) @ concat (replicate (length ns) (at_cmd (state_stage (rnsm (line l)))))"
  using assms
proof (induction ns arbitrary: l)
  case (Cons n ns)
  from waiting_step [OF Cons.prems, of B conn n] obtain l1 where l1: "mobile_network_task B conn n l = Some l1" "waiting (line l1)" "rnsm (line l1) = rnsm (line l)"
    "m_reboot_count (line l1) = m_reboot_count (line l)" "uart (line l1) = uart (line l) @ at_cmd (state_stage (rnsm (line l)))" by blast
  from Cons.IH [OF l1(2)] l1 show ?case by auto
qed simp

definition demo_waiting :: modem where
  "demo_waiting = (modem0 (replicate 1500 0) 0)\<lparr>rnsm := at_ok, wait := Ok, uart := []\<rparr>"

theorem no_timeout_after_ok_witness:
  "\<exists>l'. task_run 8 [] (replicate 1000 False) (new_link 4 stats0 () demo_waiting) = Some l' \<and> rnsm (line l') = at_ok \<and> m_reboot_count (line l') = 0 \<and>
    uart (line l') = concat (replicate 1000 (octets ''AT+CGREG?'' @ crlf))"
proof -
  have "waiting demo_waiting" "rnsm demo_waiting = at_ok" "m_reboot_count demo_waiting = 0" "uart demo_waiting = []"
    using modem0_asking [of "replicate 1500 0" 0] by (simp_all add: demo_waiting_def waiting_def asking_def)
  then show ?thesis using no_timeout_after_ok [of "new_link 4 stats0 () demo_waiting" 8 "[]" "replicate 1000 False"] by (simp add: new_link_def)
qed

section \<open>Answers of the module\<close>

text \<open>What the receiving side leaves alone.\<close>

definition task_same :: "modem \<Rightarrow> modem \<Rightarrow> bool" where
  "task_same m m' \<longleftrightarrow> wait m' = wait m \<and> uart m' = uart m \<and> at_count m' = at_count m \<and> m_reboot_count m' = m_reboot_count m \<and> power m' = power m"

lemma task_same_trans: "task_same m m1 \<Longrightarrow> task_same m1 m2 \<Longrightarrow> task_same m m2"
  by (simp add: task_same_def)

text \<open>The buffer holds the bytes of the line so far.\<close>

definition in_line :: "u8 list \<Rightarrow> modem \<Rightarrow> bool" where
  "in_line t m \<longleftrightarrow> length (arrRxChar m) = RX_SIZE \<and> arrRxCharNb m = length t \<and> take (length t) (arrRxChar m) = t"

lemma rx_store_in_line:
  assumes "in_line t m" "length t < RX_SIZE"
  shows "in_line (t @ [c]) (rx_store c m) \<and> newRxChar (rx_store c m) = c \<and> rnsm (rx_store c m) = rnsm m \<and> task_same m (rx_store c m)"
  using assms by (simp add: task_same_def in_line_def rx_store_def take_Suc_conv_app_nth)

text \<open>What a complete line without the two characters at its end does: the specification of the dialogue.\<close>

definition at_reaction :: "u8 list \<Rightarrow> register_network_status_m \<Rightarrow> register_network_status_m" where
  "at_reaction t s =
     (case s of
        at_reset \<Rightarrow> if prefix (octets ''OK'') t then at_ok else s
      | at_ok \<Rightarrow> if prefix (octets ''+CGREG: 0,1'') t \<or> prefix (octets ''+CGREG: 0,5'') t then at_cgreg else s
      | at_cgreg \<Rightarrow> if prefix (octets ''OK'') t then at_atd else s
      | at_atd \<Rightarrow> if prefix (octets ''CONNECT'') t then at_enter_ppp else s
      | _ \<Rightarrow> s)"

lemma rx_char_at: "rnsm (line l) \<noteq> at_enter_ppp \<Longrightarrow> rx_char B conn len c l = map_option (Pair None) (rx_at B conn c l)"
  by (simp add: rx_char_def)

lemma rx_part:
  "rnsm (line l) \<noteq> at_enter_ppp \<Longrightarrow> in_line t (line l) \<Longrightarrow> 0x0A \<notin> set u \<Longrightarrow> length t + length u < RX_SIZE \<Longrightarrow>
    \<exists>l'. mobile_network_rx B conn len (u @ cs) l = mobile_network_rx B conn len cs l' \<and> in_line (t @ u) (line l') \<and> rnsm (line l') = rnsm (line l) \<and>
      newRxChar (line l') = last (newRxChar (line l) # u) \<and> (\<exists>m. l' = l\<lparr>line := m\<rparr>) \<and> task_same (line l) (line l')"
proof (induction u arbitrary: l t)
  case (Cons c u)
  let ?l = "upd_line (rx_store c) l"
  have st: "rx_char B conn len c l = Some (None, ?l)" using Cons.prems(1,3) by (simp add: rx_char_at rx_at_def)
  have l1: "in_line (t @ [c]) (line ?l)" "newRxChar (line ?l) = c" "rnsm (line ?l) = rnsm (line l)" "task_same (line l) (line ?l)"
    using rx_store_in_line [OF Cons.prems(2)] Cons.prems(4) by (simp_all add: upd_line_def)
  from Cons.IH [of ?l "t @ [c]"] l1 Cons.prems obtain l2 where
    l2: "mobile_network_rx B conn len (u @ cs) ?l = mobile_network_rx B conn len cs l2" "in_line ((t @ [c]) @ u) (line l2)" "rnsm (line l2) = rnsm (line ?l)"
      "newRxChar (line l2) = last (newRxChar (line ?l) # u)" "\<exists>m. l2 = ?l\<lparr>line := m\<rparr>" "task_same (line ?l) (line l2)" by auto
  show ?case using st l1 l2 task_same_trans [OF l1(4) l2(6)] by (intro exI [of _ l2]) (auto simp: upd_line_def)
next
  case Nil
  then show ?case by (intro exI [of _ l]) (auto simp: task_same_def intro: exI [of _ "line l"])
qed

lemma starts_line:
  assumes "in_line (t @ crlf) m" "0x0D \<notin> set f" "length f \<le> RX_SIZE"
  shows "starts f m \<longleftrightarrow> prefix f t"
proof -
  define rest where "rest = drop (length t + 2) (arrRxChar m)"
  have arr: "arrRxChar m = t @ crlf @ rest" using assms(1) unfolding in_line_def rest_def by (metis append.assoc append_take_drop_id crlf_def length_append length_Cons list.size(3) One_nat_def Suc_1)
  show ?thesis
  proof (cases "length f \<le> length t")
    case True
    then show ?thesis by (auto simp: starts_def arr prefix_def) (metis append_take_drop_id)
  next
    case False
    then have "0x0D \<in> set (take (length f) (arrRxChar m))" by (simp add: arr crlf_def take_Cons')
    then have "\<not> starts f m" using assms(2) unfolding starts_def by metis
    then show ?thesis using False prefix_length_le by blast
  qed
qed

lemma octets_no_cr:
  "0x0D \<notin> set (octets ''OK'')" "0x0D \<notin> set (octets ''+CGREG: 0,1'')" "0x0D \<notin> set (octets ''+CGREG: 0,5'')" "0x0D \<notin> set (octets ''CONNECT'')"
  by (simp_all add: octets_def)

lemma rx_line_spec:
  assumes "in_line (t @ crlf) (line l)" "rnsm (line l) \<noteq> at_enter_ppp" "detached l" "2 \<le> B"
  shows "\<exists>l'. rx_line B conn l = Some l' \<and> rnsm (line l') = at_reaction t (rnsm (line l)) \<and> detached l' \<and> task_same (line l) (line l') \<and>
    arrRxChar (line l') = arrRxChar (line l) \<and> newRxChar (line l') = newRxChar (line l)"
proof -
  have S: "starts (octets ''OK'') (line l) = prefix (octets ''OK'') t" "starts (octets ''+CGREG: 0,1'') (line l) = prefix (octets ''+CGREG: 0,1'') t"
    "starts (octets ''+CGREG: 0,5'') (line l) = prefix (octets ''+CGREG: 0,5'') t" "starts (octets ''CONNECT'') (line l) = prefix (octets ''CONNECT'') t"
    using starts_line [OF assms(1)] octets_no_cr by (simp_all add: octets_def RX_SIZE_def)
  have U: "starts f (m\<lparr>rnsm := s, m_reboot_count := r\<rparr>) = starts f m" for f m s r by (simp add: starts_def)
  show ?thesis
  proof (cases "rnsm (line l)")
    case at_atd
    then show ?thesis
      using S enter_total [OF assms(3,4), of conn] enter_line [OF assms(2), of B conn] assms(3)
      by (cases "prefix (octets ''CONNECT'') t") (auto simp: rx_line_def change_if_def at_reaction_def task_same_def)
  qed (use S assms in \<open>auto simp: rx_line_def change_if_def at_reaction_def change_simple upd_line_def detached_def U task_same_def\<close>)
qed

lemma rx_whole_line:
  assumes "rnsm (line l) \<noteq> at_enter_ppp" "in_line [] (line l)" "0x0A \<notin> set t" "length t + 2 \<le> RX_SIZE" "detached l" "2 \<le> B"
  shows "\<exists>l'. mobile_network_rx B conn len ((t @ crlf) @ cs) l = mobile_network_rx B conn len cs l' \<and> in_line [] (line l') \<and>
    rnsm (line l') = at_reaction t (rnsm (line l)) \<and> detached l' \<and> task_same (line l) (line l')"
proof -
  from rx_part [OF assms(1,2), of "t @ [0x0D]" B conn len "0x0A # cs"] assms(3,4) obtain l1 m1 where
    l1: "mobile_network_rx B conn len ((t @ crlf) @ cs) l = mobile_network_rx B conn len (0x0A # cs) l1" "in_line (t @ [0x0D]) (line l1)" "rnsm (line l1) = rnsm (line l)"
      "newRxChar (line l1) = 0x0D" "l1 = l\<lparr>line := m1\<rparr>" "task_same (line l) (line l1)" by (auto simp: crlf_def)
  let ?l = "upd_line (rx_store 0x0A) l1"
  have l2: "in_line (t @ crlf) (line ?l)" "rnsm (line ?l) = rnsm (line l)" "task_same (line l1) (line ?l)" "detached ?l"
    using rx_store_in_line [OF l1(2), of "0x0A"] assms(4,5) l1(3,5) by (simp_all add: upd_line_def crlf_def detached_def)
  from rx_line_spec [OF l2(1) _ l2(4) assms(6), of conn] l2(2) assms(1) obtain l3 where
    l3: "rx_line B conn ?l = Some l3" "rnsm (line l3) = at_reaction t (rnsm (line l))" "detached l3" "task_same (line ?l) (line l3)" "arrRxChar (line l3) = arrRxChar (line ?l)" by auto
  let ?l4 = "upd_line (\<lambda>m. m\<lparr>arrRxCharNb := 0\<rparr>) l3"
  have "rx_char B conn len 0x0A l1 = Some (None, ?l4)" using l1(3,4) l3(1) assms(1) by (simp add: rx_char_at rx_at_def)
  then have "mobile_network_rx B conn len ((t @ crlf) @ cs) l = mobile_network_rx B conn len cs ?l4" using l1(1) by simp
  moreover have "in_line [] (line ?l4)" using l2(1) l3(5) by (simp add: in_line_def upd_line_def)
  moreover have "task_same (line l) (line ?l4)"
    using task_same_trans [OF task_same_trans [OF l1(6) l2(3)] l3(4)] by (simp add: task_same_def upd_line_def)
  ultimately show ?thesis using l3(2,3) by (intro exI [of _ ?l4]) (simp add: upd_line_def detached_def)
qed

lemma at_lines:
  assumes "in_line [] (line l)" "detached l" "2 \<le> B" "\<forall>t \<in> set ts. 0x0A \<notin> set t \<and> length t + 2 \<le> RX_SIZE"
    and "\<forall>k < length ts. fold at_reaction (take k ts) (rnsm (line l)) \<noteq> at_enter_ppp"
  shows "\<exists>l'. mobile_network_rx B conn len (concat (map (\<lambda>t. t @ crlf) ts)) l = Some (None, [], l') \<and> in_line [] (line l') \<and>
    rnsm (line l') = fold at_reaction ts (rnsm (line l)) \<and> task_same (line l) (line l')"
  using assms
proof (induction ts arbitrary: l)
  case (Cons t ts)
  have ne: "rnsm (line l) \<noteq> at_enter_ppp" using Cons.prems(5) by (elim allE [of _ 0]) simp
  from rx_whole_line [OF ne Cons.prems(1) _ _ Cons.prems(2,3), of t conn len "concat (map (\<lambda>t. t @ crlf) ts)"] Cons.prems(4) obtain l1 where
    l1: "mobile_network_rx B conn len ((t @ crlf) @ concat (map (\<lambda>t. t @ crlf) ts)) l = mobile_network_rx B conn len (concat (map (\<lambda>t. t @ crlf) ts)) l1"
      "in_line [] (line l1)" "rnsm (line l1) = at_reaction t (rnsm (line l))" "detached l1" "task_same (line l) (line l1)" by auto
  have "\<forall>k < length ts. fold at_reaction (take k ts) (rnsm (line l1)) \<noteq> at_enter_ppp"
    using Cons.prems(5) l1(3) by (metis Suc_less_eq fold_simps(2) length_Cons take_Suc_Cons)
  from Cons.IH [OF l1(2,4) Cons.prems(3) _ this] Cons.prems(4) obtain l2 where
    "mobile_network_rx B conn len (concat (map (\<lambda>t. t @ crlf) ts)) l1 = Some (None, [], l2)" "in_line [] (line l2)"
    "rnsm (line l2) = fold at_reaction ts (rnsm (line l1))" "task_same (line l1) (line l2)" by auto
  then show ?case using l1 task_same_trans by fastforce
qed (auto simp: task_same_def)


lemma demo_in_line: "in_line [] (modem0 (replicate 1500 0) 0)"
  by (simp add: in_line_def RX_SIZE_def modem0_def from_stage_eq loop_body_def uart1_send_def)




end
