(* ===== verification/Timeouts.thy ===== *)
theory Timeouts
  imports Prelude "HOL-Library.Multiset"
begin

text \<open>
  The timers of lwIP: \<^verbatim>\<open>core/timeouts.c\<close>. The list \<^verbatim>\<open>next_timeout\<close> is a list, the pool \<^verbatim>\<open>MEMP_SYS_TIMEOUT\<close> the number of its free elements. A handler with its
  argument is one value: the TCP timer, a cyclic timer with its index in \<^verbatim>\<open>lwip_cyclic_timers\<close>, or another one. What handlers do is an argument: a
  function on the rest of the world that also gives the calls that it makes on the timers, with the reading of the clock at each call. \<^term>\<open>None\<close> is a
  failed assertion or, in \<open>check_loop\<close>, that the given number of rounds was not enough.
\<close>

section \<open>State\<close>

definition LWIP_MAX_TIMEOUT :: u32 where "LWIP_MAX_TIMEOUT = 0x7FFFFFFF"
definition LWIP_UINT32_MAX :: u32 where "LWIP_UINT32_MAX = 0xFFFFFFFF"
definition SYS_TIMEOUTS_SLEEPTIME_INFINITE :: u32 where "SYS_TIMEOUTS_SLEEPTIME_INFINITE = 0xFFFFFFFF"
definition TCP_TMR_INTERVAL :: u32 where "TCP_TMR_INTERVAL = 250"

definition TIME_LESS_THAN :: "u32 \<Rightarrow> u32 \<Rightarrow> bool" where
  "TIME_LESS_THAN t compare_to \<longleftrightarrow> t - compare_to > LWIP_MAX_TIMEOUT"

datatype 'h hnd = Tcp | Cyclic nat | User 'h

record 'h sys_timeo =
  t_time :: u32
  t_h :: "'h hnd option"

record ('h, 'w) timers =
  next_timeout :: "'h sys_timeo list"
  current_timeout_due_time :: u32
  tcpip_tcp_timer_active :: bool
  timeo_pool :: nat
  world :: 'w

datatype 'h tcall = Timeout u32 u32 'h | Untimeout 'h | Tcp_needed u32 bool

record ('h, 'w) tenv =
  run_job :: "'h hnd \<Rightarrow> 'w \<Rightarrow> 'w \<times> 'h tcall list"
  sys_now :: "'w \<Rightarrow> u32"
  tcp_pcbs :: "'w \<Rightarrow> bool"
  interval_ms :: "nat \<Rightarrow> u32"
  num_cyclic :: nat

section \<open>Setting and cancelling\<close>

text \<open>The loop that looks for the place in a list that is not empty.\<close>

fun link_in :: "'h sys_timeo \<Rightarrow> 'h sys_timeo list \<Rightarrow> 'h sys_timeo list" where
  "link_in x [] = []"
| "link_in x [t] = [t, x]"
| "link_in x (t # u # ts) = (if TIME_LESS_THAN (t_time x) (t_time u) then t # x # u # ts else t # link_in x (u # ts))"

definition place :: "'h sys_timeo \<Rightarrow> 'h sys_timeo list \<Rightarrow> 'h sys_timeo list" where
  "place x ts =
     (case ts of
        [] \<Rightarrow> [x]
      | t # _ \<Rightarrow> if TIME_LESS_THAN (t_time x) (t_time t) then x # ts else link_in x ts)"

definition sys_timeout_abs :: "u32 \<Rightarrow> 'h hnd option \<Rightarrow> ('h, 'w) timers \<Rightarrow> ('h, 'w) timers option" where
  "sys_timeout_abs abs_time handler s = do {
     assert_c (timeo_pool s \<noteq> 0);
     Some (s\<lparr>timeo_pool := timeo_pool s - 1, next_timeout := place \<lparr>t_time = abs_time, t_h = handler\<rparr> (next_timeout s)\<rparr>) }"

definition sys_timeout :: "u32 \<Rightarrow> u32 \<Rightarrow> 'h hnd option \<Rightarrow> ('h, 'w) timers \<Rightarrow> ('h, 'w) timers option" where
  "sys_timeout now msecs handler s = do {
     assert_c (msecs \<le> LWIP_UINT32_MAX div 4);
     sys_timeout_abs (now + msecs) handler s }"

fun unlink :: "'h hnd option \<Rightarrow> 'h sys_timeo list \<Rightarrow> 'h sys_timeo list option" where
  "unlink handler [] = None"
| "unlink handler (t # ts) = (if t_h t = handler then Some ts else map_option ((#) t) (unlink handler ts))"

definition sys_untimeout :: "'h hnd option \<Rightarrow> ('h, 'w) timers \<Rightarrow> ('h, 'w) timers" where
  "sys_untimeout handler s =
     (case unlink handler (next_timeout s) of None \<Rightarrow> s | Some ts \<Rightarrow> s\<lparr>next_timeout := ts, timeo_pool := timeo_pool s + 1\<rparr>)"

section \<open>The timers of the stack\<close>

definition tcp_timer_needed :: "u32 \<Rightarrow> bool \<Rightarrow> ('h, 'w) timers \<Rightarrow> ('h, 'w) timers option" where
  "tcp_timer_needed now pcbs s =
     (if \<not> tcpip_tcp_timer_active s \<and> pcbs then sys_timeout now TCP_TMR_INTERVAL (Some Tcp) (s\<lparr>tcpip_tcp_timer_active := True\<rparr>) else Some s)"

fun timer_call :: "'h tcall \<Rightarrow> ('h, 'w) timers \<Rightarrow> ('h, 'w) timers option" where
  "timer_call (Timeout now msecs h) s = sys_timeout now msecs (Some (User h)) s"
| "timer_call (Untimeout h) s = Some (sys_untimeout (Some (User h)) s)"
| "timer_call (Tcp_needed now pcbs) s = tcp_timer_needed now pcbs s"

fun timer_calls :: "'h tcall list \<Rightarrow> ('h, 'w) timers \<Rightarrow> ('h, 'w) timers option" where
  "timer_calls [] s = Some s"
| "timer_calls (c # cs) s = do { s1 \<leftarrow> timer_call c s; timer_calls cs s1 }"

definition run_handler :: "('h, 'w) tenv \<Rightarrow> 'h hnd \<Rightarrow> ('h, 'w) timers \<Rightarrow> ('h, 'w) timers option" where
  "run_handler E h s = (let (w, cs) = run_job E h (world s) in timer_calls cs (s\<lparr>world := w\<rparr>))"

definition tcpip_tcp_timer :: "('h, 'w) tenv \<Rightarrow> ('h, 'w) timers \<Rightarrow> ('h, 'w) timers option" where
  "tcpip_tcp_timer E s = do {
     s1 \<leftarrow> run_handler E Tcp s;
     if tcp_pcbs E (world s1) then sys_timeout (sys_now E (world s1)) TCP_TMR_INTERVAL (Some Tcp) s1
     else Some (s1\<lparr>tcpip_tcp_timer_active := False\<rparr>) }"

definition lwip_cyclic_timer :: "('h, 'w) tenv \<Rightarrow> nat \<Rightarrow> ('h, 'w) timers \<Rightarrow> ('h, 'w) timers option" where
  "lwip_cyclic_timer E i s = do {
     s1 \<leftarrow> run_handler E (Cyclic i) s;
     let now = sys_now E (world s1);
     let next_timeout_time = current_timeout_due_time s1 + interval_ms E i;
     if TIME_LESS_THAN next_timeout_time now then sys_timeout_abs (now + interval_ms E i) (Some (Cyclic i)) s1
     else sys_timeout_abs next_timeout_time (Some (Cyclic i)) s1 }"

definition call_handler :: "('h, 'w) tenv \<Rightarrow> 'h hnd \<Rightarrow> ('h, 'w) timers \<Rightarrow> ('h, 'w) timers option" where
  "call_handler E h s = (case h of Tcp \<Rightarrow> tcpip_tcp_timer E s | Cyclic i \<Rightarrow> lwip_cyclic_timer E i s | User _ \<Rightarrow> run_handler E h s)"

fun start_cyclic :: "('h, 'w) tenv \<Rightarrow> nat list \<Rightarrow> ('h, 'w) timers \<Rightarrow> ('h, 'w) timers option" where
  "start_cyclic E [] s = Some s"
| "start_cyclic E (i # is) s = do { s1 \<leftarrow> sys_timeout (sys_now E (world s)) (interval_ms E i) (Some (Cyclic i)) s; start_cyclic E is s1 }"

definition sys_timeouts_init :: "('h, 'w) tenv \<Rightarrow> ('h, 'w) timers \<Rightarrow> ('h, 'w) timers option" where
  "sys_timeouts_init E s = start_cyclic E [1..<num_cyclic E] s"

section \<open>Running\<close>

text \<open>At most \<open>n\<close> rounds; the result has the timers that ran, in their order.\<close>

fun check_loop :: "('h, 'w) tenv \<Rightarrow> u32 \<Rightarrow> nat \<Rightarrow> ('h, 'w) timers \<Rightarrow> ('h sys_timeo list \<times> ('h, 'w) timers) option" where
  "check_loop E now 0 s = None"
| "check_loop E now (Suc n) s =
     (case next_timeout s of
        [] \<Rightarrow> Some ([], s)
      | t # ts \<Rightarrow>
          if TIME_LESS_THAN now (t_time t) then Some ([], s)
          else do {
            let s1 = s\<lparr>next_timeout := ts, current_timeout_due_time := t_time t, timeo_pool := timeo_pool s + 1\<rparr>;
            s2 \<leftarrow> (case t_h t of None \<Rightarrow> Some s1 | Some h \<Rightarrow> call_handler E h s1);
            (tr, s3) \<leftarrow> check_loop E now n s2;
            Some (t # tr, s3) })"

definition sys_check_timeouts :: "('h, 'w) tenv \<Rightarrow> nat \<Rightarrow> ('h, 'w) timers \<Rightarrow> ('h sys_timeo list \<times> ('h, 'w) timers) option" where
  "sys_check_timeouts E n s = check_loop E (sys_now E (world s)) n s"

definition sys_restart_timeouts :: "u32 \<Rightarrow> ('h, 'w) timers \<Rightarrow> ('h, 'w) timers" where
  "sys_restart_timeouts now s =
     (case next_timeout s of
        [] \<Rightarrow> s
      | t # _ \<Rightarrow> s\<lparr>next_timeout := map (\<lambda>u. u\<lparr>t_time := (t_time u - t_time t) + now\<rparr>) (next_timeout s)\<rparr>)"

definition sys_timeouts_sleeptime :: "u32 \<Rightarrow> ('h, 'w) timers \<Rightarrow> u32 option" where
  "sys_timeouts_sleeptime now s =
     (case next_timeout s of
        [] \<Rightarrow> Some SYS_TIMEOUTS_SLEEPTIME_INFINITE
      | t # _ \<Rightarrow>
          if TIME_LESS_THAN (t_time t) now then Some 0
          else do { assert_c (t_time t - now \<le> LWIP_MAX_TIMEOUT); Some (t_time t - now) })"

section \<open>Order of the list\<close>

text \<open>Times around a point in time \<open>b\<close>, as numbers; the comparison that takes care of the wrap-around is the one of these numbers.\<close>

definition due :: "u32 \<Rightarrow> u32 \<Rightarrow> nat" where
  "due b t = unat (t - b)"

definition in_window :: "u32 \<Rightarrow> u32 \<Rightarrow> bool" where
  "in_window b t \<longleftrightarrow> due b t < 2 ^ 31"

lemma unat_diff_wrap: "x < y \<Longrightarrow> unat (x - y) = 2 ^ 32 - (unat y - unat x)" for x y :: u32
  using unsigned_less [of y, where ?'a = nat] by (simp add: unat_sub_if_size word_size word_less_nat_alt)

lemma less_due:
  assumes "in_window b t" "in_window b c"
  shows "TIME_LESS_THAN t c \<longleftrightarrow> due b t < due b c"
proof -
  define x where "x = t - b" define y where "y = c - b"
  have tc: "t - c = x - y" by (simp add: x_def y_def)
  have xy: "unat x < 2 ^ 31" "unat y < 2 ^ 31" using assms by (simp_all add: in_window_def due_def x_def y_def)
  show ?thesis
  proof (cases "y \<le> x")
    case True
    then have "unat (x - y) = unat x - unat y" "\<not> unat x < unat y" by (simp_all add: unat_sub word_le_nat_alt)
    then show ?thesis using xy unfolding TIME_LESS_THAN_def tc LWIP_MAX_TIMEOUT_def due_def x_def [symmetric] y_def [symmetric] by (simp add: word_less_nat_alt)
  next
    case False
    then have lt: "unat x < unat y" by (simp add: word_le_nat_alt)
    have "unat (x - y) = 2 ^ 32 - (unat y - unat x)" using lt by (intro unat_diff_wrap) (simp add: word_less_nat_alt)
    then show ?thesis using xy lt unfolding TIME_LESS_THAN_def tc LWIP_MAX_TIMEOUT_def due_def x_def [symmetric] y_def [symmetric] by (simp add: word_less_nat_alt)
  qed
qed

lemma link_in_eq: "ts \<noteq> [] \<Longrightarrow> \<not> TIME_LESS_THAN (t_time x) (t_time (hd ts)) \<Longrightarrow>
    link_in x ts = takeWhile (\<lambda>u. \<not> TIME_LESS_THAN (t_time x) (t_time u)) ts @ x # dropWhile (\<lambda>u. \<not> TIME_LESS_THAN (t_time x) (t_time u)) ts"
  by (induction x ts rule: link_in.induct) auto

lemma place_eq: "place x ts = takeWhile (\<lambda>u. \<not> TIME_LESS_THAN (t_time x) (t_time u)) ts @ x # dropWhile (\<lambda>u. \<not> TIME_LESS_THAN (t_time x) (t_time u)) ts"
  using link_in_eq [of ts x] by (cases ts) (auto simp: place_def)

lemma mset_place: "mset (place x ts) = add_mset x (mset ts)"
proof -
  have "mset (takeWhile P ts @ dropWhile P ts) = mset ts" for P by simp
  then show ?thesis unfolding place_eq by (metis mset.simps(2) mset_append union_mset_add_mset_right)
qed

lemma set_place [simp]: "set (place x ts) = insert x (set ts)"
  using arg_cong [OF mset_place, of set_mset] by simp

definition ordered :: "u32 \<Rightarrow> 'h sys_timeo list \<Rightarrow> bool" where
  "ordered b ts \<longleftrightarrow> (\<forall>t \<in> set ts. in_window b (t_time t)) \<and> sorted (map (\<lambda>t. due b (t_time t)) ts)"

lemma place_due:
  assumes "ordered b ts" "in_window b (t_time x)"
  shows "place x ts = takeWhile (\<lambda>u. due b (t_time u) \<le> due b (t_time x)) ts @ x # dropWhile (\<lambda>u. due b (t_time u) \<le> due b (t_time x)) ts"
proof -
  have "\<And>u. u \<in> set ts \<Longrightarrow> (\<not> TIME_LESS_THAN (t_time x) (t_time u)) = (due b (t_time u) \<le> due b (t_time x))"
    using assms by (simp add: ordered_def less_due not_less)
  then show ?thesis unfolding place_eq by (metis (no_types, lifting) dropWhile_cong takeWhile_cong)
qed

lemma sorted_dropWhile_gt:
  assumes "sorted (map f ts)" "y \<in> set (dropWhile (\<lambda>u. f u \<le> k) ts)"
  shows "(k :: nat) < f y"
  using assms by (induction ts) (auto split: if_splits)

lemma place_ordered:
  assumes "ordered b ts" "in_window b (t_time x)"
  shows "ordered b (place x ts)"
proof -
  let ?f = "\<lambda>t. due b (t_time t)" let ?P = "\<lambda>u. ?f u \<le> ?f x"
  have s: "sorted (map ?f ts)" using assms(1) by (simp add: ordered_def)
  have "sorted (map ?f (takeWhile ?P ts @ dropWhile ?P ts))" using s by simp
  then have 1: "sorted (map ?f (takeWhile ?P ts))" "sorted (map ?f (dropWhile ?P ts))" unfolding map_append sorted_append by simp_all
  have 2: "\<forall>y \<in> set (dropWhile ?P ts). ?f x < ?f y" using sorted_dropWhile_gt [OF s] by blast
  have 3: "\<forall>y \<in> set (takeWhile ?P ts). ?f y \<le> ?f x" using set_takeWhileD by fastforce
  have "sorted (map ?f (takeWhile ?P ts @ x # dropWhile ?P ts))" using 1 2 3 by (fastforce simp: sorted_append)
  moreover have "\<forall>t \<in> set (place x ts). in_window b (t_time t)" using assms by (auto simp: ordered_def)
  ultimately show ?thesis unfolding ordered_def place_due [OF assms] by simp
qed

text \<open>The window around the present: timers that are less than 12 days away.\<close>

definition past :: "u32 \<Rightarrow> u32" where
  "past now = now - 2 ^ 30"

lemma due_add: "unat (n - now) + unat ms < 2 ^ 30 \<Longrightarrow> due (past now) (n + ms) = 2 ^ 30 + unat (n - now) + unat ms"
proof -
  assume a: "unat (n - now) + unat ms < 2 ^ 30"
  have "n + ms - past now = 2 ^ 30 + (n - now) + ms" by (simp add: past_def algebra_simps)
  moreover have "unat (2 ^ 30 + (n - now) + ms) = (2 ^ 30 + unat (n - now) + unat ms) mod 2 ^ 32" by (simp add: unat_word_ariths mod_add_left_eq mod_add_right_eq)
  ultimately show ?thesis using a unfolding due_def by (simp only:) simp
qed

lemma due_now: "due (past now) now = 2 ^ 30"
  using due_add [of now now 0] by simp

text \<open>
  C27. Setting a timer, for clocks that wrap around: when the pending timers are less than 12 days from the present, the new timer comes after those that are
  due earlier or at the same time and before the later ones, the list stays in the order of the due times, and nothing else changes. Timers with the same time
  run in the order in which they were set.\<close>

theorem sys_timeout_in_order:
  assumes "ordered (past now) (next_timeout s)" "msecs \<le> LWIP_UINT32_MAX div 4" "timeo_pool s \<noteq> 0"
  shows "\<exists>s'. sys_timeout now msecs h s = Some s' \<and> ordered (past now) (next_timeout s') \<and> timeo_pool s' = timeo_pool s - 1 \<and>
    next_timeout s' = takeWhile (\<lambda>u. due (past now) (t_time u) \<le> 2 ^ 30 + unat msecs) (next_timeout s) @ \<lparr>t_time = now + msecs, t_h = h\<rparr> #
      dropWhile (\<lambda>u. due (past now) (t_time u) \<le> 2 ^ 30 + unat msecs) (next_timeout s)"
proof -
  have m: "unat msecs < 2 ^ 30" using assms(2) by (simp add: LWIP_UINT32_MAX_def word_le_nat_alt)
  let ?x = "\<lparr>t_time = now + msecs, t_h = h\<rparr>"
  have d: "due (past now) (t_time ?x) = 2 ^ 30 + unat msecs" using due_add [of now now msecs] m by simp
  then have w: "in_window (past now) (t_time ?x)" using m by (simp add: in_window_def)
  show ?thesis using place_ordered [OF assms(1) w] place_due [OF assms(1) w] d assms(2,3)
    by (simp add: sys_timeout_def sys_timeout_abs_def assert_c_def)
qed

definition demo_timers :: "(nat, unit) timers" where
  "demo_timers = \<lparr>next_timeout = [\<lparr>t_time = 0xFFFFFF00, t_h = Some Tcp\<rparr>, \<lparr>t_time = 5, t_h = Some (User 1)\<rparr>], current_timeout_due_time = 0,
     tcpip_tcp_timer_active = True, timeo_pool = 3, world = ()\<rparr>"

theorem sys_timeout_in_order_witness:
  "\<exists>s'. sys_timeout 0xFFFFFF80 0x85 (Some (User 2)) demo_timers = Some s' \<and>
     next_timeout s' = [\<lparr>t_time = 0xFFFFFF00, t_h = Some Tcp\<rparr>, \<lparr>t_time = 5, t_h = Some (User 1)\<rparr>, \<lparr>t_time = 5, t_h = Some (User 2)\<rparr>]"
proof -
  have "(0x100000005 :: u32) = 5" by simp
  then show ?thesis using sys_timeout_in_order [of "0xFFFFFF80" demo_timers "0x85" "Some (User 2)"]
    by (auto simp: demo_timers_def ordered_def in_window_def due_def past_def LWIP_UINT32_MAX_def)
qed

section \<open>Sleeping\<close>

text \<open>
  The time that the core thread may sleep: the assertion on it never fails, whatever is in the list; after exactly this time the first timer is due, and
  at no moment before it.\<close>

theorem sleeptime_exact:
  assumes "next_timeout s = t # ts"
  shows "\<exists>r. sys_timeouts_sleeptime now s = Some r \<and> r \<le> LWIP_MAX_TIMEOUT \<and> (TIME_LESS_THAN (t_time t) now \<or> \<not> TIME_LESS_THAN (now + r) (t_time t)) \<and>
    (\<forall>d < r. TIME_LESS_THAN (now + d) (t_time t))"
proof (cases "TIME_LESS_THAN (t_time t) now")
  case True
  then show ?thesis using assms by (simp add: sys_timeouts_sleeptime_def)
next
  case False
  let ?r = "t_time t - now"
  have r: "?r \<le> LWIP_MAX_TIMEOUT" using False by (simp add: TIME_LESS_THAN_def not_less)
  have "TIME_LESS_THAN (now + d) (t_time t)" if "d < ?r" for d
  proof -
    have "now + d - t_time t = d - ?r" by simp
    moreover have "unat (d - ?r) = 2 ^ 32 - (unat ?r - unat d)" by (rule unat_diff_wrap [OF that])
    ultimately show ?thesis using r that unsigned_less [of ?r, where ?'a = nat] unfolding TIME_LESS_THAN_def LWIP_MAX_TIMEOUT_def by (simp only: word_less_nat_alt word_le_nat_alt) simp
  qed
  then show ?thesis using assms False r by (auto simp: sys_timeouts_sleeptime_def assert_c_def TIME_LESS_THAN_def)
qed

theorem sleeptime_exact_witness:
  "\<exists>r. sys_timeouts_sleeptime 0xFFFFFEF0 demo_timers = Some r \<and> r \<le> LWIP_MAX_TIMEOUT \<and> (\<forall>d < r. TIME_LESS_THAN (0xFFFFFEF0 + d) 0xFFFFFF00)"
  using sleeptime_exact [of demo_timers "\<lparr>t_time = 0xFFFFFF00, t_h = Some Tcp\<rparr>" "[\<lparr>t_time = 5, t_h = Some (User 1)\<rparr>]" "0xFFFFFEF0"]
  by (auto simp: demo_timers_def)

section \<open>Running the expired timers\<close>

definition expired :: "u32 \<Rightarrow> 'h sys_timeo \<Rightarrow> bool" where
  "expired now t \<longleftrightarrow> \<not> TIME_LESS_THAN now (t_time t)"

text \<open>Calls that set timers for a time after \<open>now\<close>.\<close>

definition later_calls :: "u32 \<Rightarrow> 'h tcall list \<Rightarrow> bool" where
  "later_calls now cs \<longleftrightarrow> (\<forall>c \<in> set cs. \<exists>n ms h. c = Timeout n ms h \<and> 0 < unat (n - now) + unat ms \<and> unat (n - now) + unat ms < 2 ^ 30)"

lemma expired_due: "in_window (past now) (t_time t) \<Longrightarrow> expired now t \<longleftrightarrow> due (past now) (t_time t) \<le> 2 ^ 30"
  using less_due [of "past now" now "t_time t"] by (auto simp: expired_def in_window_def due_now)

lemma later_place:
  assumes "ordered (past now) (es @ fs)" "\<forall>t \<in> set es. expired now t" "0 < unat (n - now) + unat ms" "unat (n - now) + unat ms < 2 ^ 30"
  shows "\<exists>fs'. place \<lparr>t_time = n + ms, t_h = h\<rparr> (es @ fs) = es @ fs' \<and> set fs' = insert \<lparr>t_time = n + ms, t_h = h\<rparr> (set fs) \<and> ordered (past now) (es @ fs')"
proof -
  let ?x = "\<lparr>t_time = n + ms, t_h = h\<rparr>" let ?P = "\<lambda>u. due (past now) (t_time u) \<le> due (past now) (t_time ?x)"
  have d: "due (past now) (t_time ?x) = 2 ^ 30 + unat (n - now) + unat ms" using due_add [OF assms(4)] by simp
  then have w: "in_window (past now) (t_time ?x)" using assms(4) by (simp add: in_window_def)
  have "?P t" if "t \<in> set es" for t
  proof -
    have "in_window (past now) (t_time t)" using assms(1) that by (auto simp: ordered_def)
    then have "due (past now) (t_time t) \<le> 2 ^ 30" using assms(2) that expired_due by blast
    then show ?thesis using d assms(3) by simp
  qed
  then have "place ?x (es @ fs) = es @ (takeWhile ?P fs @ ?x # dropWhile ?P fs)" unfolding place_due [OF assms(1) w] by simp
  moreover from this have "ordered (past now) (es @ (takeWhile ?P fs @ ?x # dropWhile ?P fs))" using place_ordered [OF assms(1) w] by simp
  moreover have "set (takeWhile ?P fs @ ?x # dropWhile ?P fs) = insert ?x (set fs)"
    by (metis Un_insert_right list.simps(15) set_append takeWhile_dropWhile_id)
  ultimately show ?thesis by blast
qed

lemma later_not_expired:
  assumes "0 < unat (n - now) + unat ms" "unat (n - now) + unat ms < 2 ^ 30"
  shows "\<not> expired now \<lparr>t_time = n + ms, t_h = h\<rparr>"
  using assms due_add [OF assms(2)] by (subst expired_due) (simp_all add: in_window_def)

lemma timer_calls_later:
  "later_calls now cs \<Longrightarrow> length cs \<le> timeo_pool s \<Longrightarrow> next_timeout s = es @ fs \<Longrightarrow> ordered (past now) (es @ fs) \<Longrightarrow> \<forall>t \<in> set es. expired now t \<Longrightarrow>
    \<forall>t \<in> set fs. \<not> expired now t \<Longrightarrow>
    \<exists>s' fs'. timer_calls cs s = Some s' \<and> next_timeout s' = es @ fs' \<and> ordered (past now) (es @ fs') \<and> (\<forall>t \<in> set fs'. \<not> expired now t) \<and>
      timeo_pool s' = timeo_pool s - length cs \<and> world s' = world s"
proof (induction cs arbitrary: s fs)
  case (Cons c cs)
  from Cons.prems(1) obtain n ms h where c: "c = Timeout n ms h" "0 < unat (n - now) + unat ms" "unat (n - now) + unat ms < 2 ^ 30" "later_calls now cs"
    by (auto simp: later_calls_def)
  let ?x = "\<lparr>t_time = n + ms, t_h = Some (User h)\<rparr>"
  from later_place [OF Cons.prems(4,5) c(2,3), of "Some (User h)"] obtain fs1 where
    f: "place ?x (es @ fs) = es @ fs1" "set fs1 = insert ?x (set fs)" "ordered (past now) (es @ fs1)" by blast
  let ?s = "s\<lparr>timeo_pool := timeo_pool s - 1, next_timeout := es @ fs1\<rparr>"
  have "ms \<le> LWIP_UINT32_MAX div 4" using c(3) by (simp add: LWIP_UINT32_MAX_def word_le_nat_alt)
  then have st: "timer_call c s = Some ?s" using c(1) Cons.prems(2,3) f(1) by (simp add: sys_timeout_def sys_timeout_abs_def assert_c_def)
  have "\<forall>t \<in> set fs1. \<not> expired now t" using f(2) Cons.prems(6) later_not_expired [OF c(2,3), of "Some (User h)"] by auto
  from Cons.IH [OF c(4) _ _ f(3) Cons.prems(5) this, of ?s] Cons.prems(2) st show ?case by auto
qed auto

definition user_jobs :: "'h sys_timeo \<Rightarrow> bool" where
  "user_jobs t \<longleftrightarrow> t_h t = None \<or> (\<exists>h. t_h t = Some (User h))"

lemma check_loop_runs:
  assumes jobs: "\<forall>h w. later_calls now (snd (run_job E (User h) w)) \<and> length (snd (run_job E (User h) w)) \<le> k"
  shows "next_timeout s = es @ fs \<Longrightarrow> ordered (past now) (es @ fs) \<Longrightarrow> \<forall>t \<in> set es. expired now t \<and> user_jobs t \<Longrightarrow> \<forall>t \<in> set fs. \<not> expired now t \<Longrightarrow>
    k * length es \<le> timeo_pool s \<Longrightarrow> length es < n \<Longrightarrow>
    \<exists>s'. check_loop E now n s = Some (es, s') \<and> (\<forall>t \<in> set (next_timeout s'). \<not> expired now t) \<and> ordered (past now) (next_timeout s') \<and>
      world s' = fold (\<lambda>t w. case t_h t of None \<Rightarrow> w | Some h \<Rightarrow> fst (run_job E h w)) es (world s)"
proof (induction es arbitrary: s fs n)
  case Nil
  then obtain n' where n: "n = Suc n'" by (cases n) auto
  show ?case using Nil n by (cases fs) (auto simp: expired_def)
next
  case (Cons t es)
  then obtain n' where n: "n = Suc n'" by (cases n) auto
  let ?s1 = "s\<lparr>next_timeout := es @ fs, current_timeout_due_time := t_time t, timeo_pool := timeo_pool s + 1\<rparr>"
  have o: "ordered (past now) (es @ fs)" using Cons.prems(2) by (auto simp: ordered_def)
  have ex: "\<forall>u \<in> set es. expired now u" using Cons.prems(3) by simp
  have "\<exists>s2 fs2. (case t_h t of None \<Rightarrow> Some ?s1 | Some h \<Rightarrow> call_handler E h ?s1) = Some s2 \<and> next_timeout s2 = es @ fs2 \<and> ordered (past now) (es @ fs2) \<and>
      (\<forall>u \<in> set fs2. \<not> expired now u) \<and> k * length es \<le> timeo_pool s2 \<and> world s2 = (case t_h t of None \<Rightarrow> world s | Some h \<Rightarrow> fst (run_job E h (world s)))"
  proof (cases "t_h t")
    case None
    then show ?thesis using o Cons.prems(4,5) by auto
  next
    case (Some h)
    then obtain u where u: "h = User u" using Cons.prems(3) by (auto simp: user_jobs_def)
    obtain w cs where r: "run_job E h (world s) = (w, cs)" by fastforce
    then have cs: "later_calls now cs" "length cs \<le> k" using jobs u by (metis snd_conv)+
    have p: "length cs \<le> timeo_pool (?s1\<lparr>world := w\<rparr>)" using cs(2) Cons.prems(5) by simp
    from timer_calls_later [OF cs(1) p _ o ex Cons.prems(4)] obtain s2 fs2 where
      "timer_calls cs (?s1\<lparr>world := w\<rparr>) = Some s2" "next_timeout s2 = es @ fs2" "ordered (past now) (es @ fs2)" "\<forall>v \<in> set fs2. \<not> expired now v"
      "timeo_pool s2 = timeo_pool s + 1 - length cs" "world s2 = w" by auto
    then show ?thesis using Some u r cs(2) Cons.prems(5) by (auto simp: call_handler_def run_handler_def)
  qed
  then obtain s2 fs2 where s2: "(case t_h t of None \<Rightarrow> Some ?s1 | Some h \<Rightarrow> call_handler E h ?s1) = Some s2" "next_timeout s2 = es @ fs2" "ordered (past now) (es @ fs2)"
      "\<forall>u \<in> set fs2. \<not> expired now u" "k * length es \<le> timeo_pool s2" "world s2 = (case t_h t of None \<Rightarrow> world s | Some h \<Rightarrow> fst (run_job E h (world s)))" by blast
  from Cons.IH [OF s2(2,3) _ s2(4,5), of n'] Cons.prems(3,6) n obtain s3 where s3: "check_loop E now n' s2 = Some (es, s3)" "\<forall>t \<in> set (next_timeout s3). \<not> expired now t"
    "ordered (past now) (next_timeout s3)" "world s3 = fold (\<lambda>t w. case t_h t of None \<Rightarrow> w | Some h \<Rightarrow> fst (run_job E h w)) es (world s2)" by auto
  have "check_loop E now n s = Some (t # es, s3)" using n Cons.prems(1,3) s2(1) s3(1) by (cases "t_h t") (auto simp: expired_def)
  then show ?case using s3 s2(6) by auto
qed

lemma ordered_split:
  assumes "ordered (past now) ts"
  shows "ts = filter (expired now) ts @ filter (\<lambda>t. \<not> expired now t) ts"
  using assms
proof (induction ts)
  case (Cons t ts)
  then have IH: "ts = filter (expired now) ts @ filter (\<lambda>t. \<not> expired now t) ts" by (simp add: ordered_def)
  show ?case
  proof (cases "expired now t")
    case False
    have w: "in_window (past now) (t_time t)" "\<forall>u \<in> set ts. in_window (past now) (t_time u) \<and> due (past now) (t_time t) \<le> due (past now) (t_time u)"
      using Cons.prems by (auto simp: ordered_def)
    have "\<forall>u \<in> set ts. \<not> expired now u" using False w expired_due by (metis order_trans)
    then show ?thesis using False by simp
  qed (use IH in simp)
qed simp


definition demo_env :: "(nat, nat list) tenv" where
  "demo_env = \<lparr>run_job = (\<lambda>h w. case h of User i \<Rightarrow> (w @ [i], [Timeout 10 250 i]) | _ \<Rightarrow> (w, [])), sys_now = (\<lambda>w. 10), tcp_pcbs = (\<lambda>w. False),
     interval_ms = (\<lambda>i. 1000), num_cyclic = 3\<rparr>"

definition demo_state :: "(nat, nat list) timers" where
  "demo_state = \<lparr>next_timeout = [\<lparr>t_time = 0xFFFFFF00, t_h = Some (User 7)\<rparr>, \<lparr>t_time = 5, t_h = Some (User 8)\<rparr>, \<lparr>t_time = 11, t_h = Some (User 9)\<rparr>],
     current_timeout_due_time = 0, tcpip_tcp_timer_active = False, timeo_pool = 3, world = []\<rparr>"


section \<open>The TCP timer\<close>

definition tcps :: "('h, 'w) timers \<Rightarrow> nat" where
  "tcps s = size (filter_mset (\<lambda>t. t_h t = Some Tcp) (mset (next_timeout s)))"

definition tcp_inv :: "('h, 'w) timers \<Rightarrow> bool" where
  "tcp_inv s \<longleftrightarrow> tcps s = (if tcpip_tcp_timer_active s then 1 else 0)"

text \<open>While the handler of the TCP timer runs.\<close>

definition tcp_runs :: "('h, 'w) timers \<Rightarrow> bool" where
  "tcp_runs s \<longleftrightarrow> tcpip_tcp_timer_active s \<and> tcps s = 0"

lemmas tcp_defs = tcps_def tcp_inv_def tcp_runs_def

lemma abs_tcps:
  assumes "sys_timeout_abs a h s = Some s'"
  shows "tcps s' = tcps s + (if h = Some Tcp then 1 else 0) \<and> tcpip_tcp_timer_active s' = tcpip_tcp_timer_active s"
  using assms by (auto simp: sys_timeout_abs_def assert_c_def tcps_def mset_place split: if_splits)

lemma timeout_tcps:
  assumes "sys_timeout now ms h s = Some s'"
  shows "tcps s' = tcps s + (if h = Some Tcp then 1 else 0) \<and> tcpip_tcp_timer_active s' = tcpip_tcp_timer_active s"
  using assms abs_tcps by (auto simp: sys_timeout_def assert_c_def split: if_splits)

lemma unlink_mset: "unlink h ts = Some ts' \<Longrightarrow> \<exists>t. t_h t = h \<and> mset ts = add_mset t (mset ts')"
proof (induction ts arbitrary: ts')
  case (Cons t ts)
  show ?case
  proof (cases "t_h t = h")
    case True
    then show ?thesis using Cons.prems by auto
  next
    case False
    then obtain ts1 where ts1: "unlink h ts = Some ts1" "ts' = t # ts1" using Cons.prems by auto
    from Cons.IH [OF ts1(1)] obtain u where "t_h u = h" "mset ts = add_mset u (mset ts1)" by blast
    then show ?thesis using ts1(2) by (intro exI [of _ u]) (simp add: add_mset_commute)
  qed
qed simp

lemma untimeout_tcps: "tcps (sys_untimeout (Some (User h)) s) = tcps s \<and> tcpip_tcp_timer_active (sys_untimeout (Some (User h)) s) = tcpip_tcp_timer_active s"
  using unlink_mset [of "Some (User h)" "next_timeout s"] by (auto simp: sys_untimeout_def tcps_def split: option.split)

lemma timer_call_tcps:
  assumes "timer_call c s = Some s'"
  shows "(tcp_inv s \<longrightarrow> tcp_inv s') \<and> (tcp_runs s \<longrightarrow> tcp_runs s')"
proof (cases c)
  case (Timeout n ms h)
  then show ?thesis using assms timeout_tcps [of n ms "Some (User h)" s s'] by (simp add: tcp_inv_def tcp_runs_def)
next
  case (Untimeout h)
  then show ?thesis using assms untimeout_tcps [of h s] by (auto simp: tcp_inv_def tcp_runs_def)
next
  case (Tcp_needed n b)
  then have "s' = s \<or> \<not> tcpip_tcp_timer_active s \<and> sys_timeout n TCP_TMR_INTERVAL (Some Tcp) (s\<lparr>tcpip_tcp_timer_active := True\<rparr>) = Some s'"
    using assms by (auto simp: tcp_timer_needed_def split: if_splits)
  moreover have "tcps (s\<lparr>tcpip_tcp_timer_active := True\<rparr>) = tcps s" by (simp add: tcps_def)
  ultimately show ?thesis using timeout_tcps [of n TCP_TMR_INTERVAL "Some Tcp" "s\<lparr>tcpip_tcp_timer_active := True\<rparr>" s'] by (auto simp: tcp_inv_def tcp_runs_def)
qed

lemma timer_calls_tcps: "timer_calls cs s = Some s' \<Longrightarrow> (tcp_inv s \<longrightarrow> tcp_inv s') \<and> (tcp_runs s \<longrightarrow> tcp_runs s')"
proof (induction cs arbitrary: s)
  case (Cons c cs)
  then obtain s1 where "timer_call c s = Some s1" "timer_calls cs s1 = Some s'" by (auto simp: bind_eq_Some_conv)
  then show ?case using Cons.IH timer_call_tcps by blast
qed simp

lemma run_handler_tcps: "run_handler E h s = Some s' \<Longrightarrow> (tcp_inv s \<longrightarrow> tcp_inv s') \<and> (tcp_runs s \<longrightarrow> tcp_runs s')"
proof -
  assume "run_handler E h s = Some s'"
  then obtain w cs where "timer_calls cs (s\<lparr>world := w\<rparr>) = Some s'" by (auto simp: run_handler_def split: prod.splits)
  moreover have "tcp_inv (s\<lparr>world := w\<rparr>) = tcp_inv s" "tcp_runs (s\<lparr>world := w\<rparr>) = tcp_runs s" by (simp_all add: tcp_defs)
  ultimately show ?thesis using timer_calls_tcps by metis
qed

lemma tcp_timer_tcps:
  assumes "tcp_runs s" "tcpip_tcp_timer E s = Some s'"
  shows "tcp_inv s'"
proof -
  obtain s1 where s1: "run_handler E Tcp s = Some s1" "(if tcp_pcbs E (world s1) then sys_timeout (sys_now E (world s1)) TCP_TMR_INTERVAL (Some Tcp) s1
      else Some (s1\<lparr>tcpip_tcp_timer_active := False\<rparr>)) = Some s'"
    using assms(2) by (auto simp: tcpip_tcp_timer_def bind_eq_Some_conv)
  have "tcp_runs s1" using run_handler_tcps [OF s1(1)] assms(1) by blast
  then show ?thesis using s1(2) timeout_tcps by (auto simp: tcp_inv_def tcp_runs_def tcps_def split: if_splits) fastforce+
qed

lemma cyclic_tcps:
  assumes "tcp_inv s" "lwip_cyclic_timer E i s = Some s'"
  shows "tcp_inv s'"
proof -
  obtain s1 a where s1: "run_handler E (Cyclic i) s = Some s1" "sys_timeout_abs a (Some (Cyclic i)) s1 = Some s'"
    using assms(2) by (auto simp: lwip_cyclic_timer_def bind_eq_Some_conv Let_def split: if_splits)
  have "tcp_inv s1" using run_handler_tcps [OF s1(1)] assms(1) by blast
  then show ?thesis using abs_tcps [OF s1(2)] by (auto simp: tcp_inv_def)
qed

lemma check_loop_tcps: "tcp_inv s \<Longrightarrow> check_loop E now n s = Some (tr, s') \<Longrightarrow> tcp_inv s'"
proof (induction n arbitrary: s tr)
  case (Suc n)
  show ?case
  proof (cases "\<exists>t ts. next_timeout s = t # ts \<and> \<not> TIME_LESS_THAN now (t_time t)")
    case False
    then show ?thesis using Suc.prems by (auto split: list.splits)
  next
    case True
    then obtain t ts where t: "next_timeout s = t # ts" "\<not> TIME_LESS_THAN now (t_time t)" by blast
    define s1 where "s1 = s\<lparr>next_timeout := ts, current_timeout_due_time := t_time t, timeo_pool := timeo_pool s + 1\<rparr>"
    obtain s2 tr' where s2: "(case t_h t of None \<Rightarrow> Some s1 | Some h \<Rightarrow> call_handler E h s1) = Some s2" "check_loop E now n s2 = Some (tr', s')"
      using Suc.prems(2) t by (cases "t_h t") (auto simp: s1_def bind_eq_Some_conv)
    have "tcp_inv s2"
    proof (cases "t_h t = Some Tcp")
      case True
      then have "tcp_runs s1" using Suc.prems(1) t(1) by (auto simp: s1_def tcp_defs split: if_splits)
      then show ?thesis using s2(1) True tcp_timer_tcps by (auto simp: call_handler_def)
    next
      case False
      then have "tcp_inv s1" using Suc.prems(1) t(1) by (auto simp: s1_def tcp_defs split: if_splits)
      then show ?thesis using s2(1) False cyclic_tcps run_handler_tcps
        by (auto simp: call_handler_def split: option.splits hnd.splits) blast+
    qed
    then show ?thesis using Suc.IH s2(2) by blast
  qed
qed simp

lemma start_cyclic_tcps: "tcp_inv s \<Longrightarrow> start_cyclic E is s = Some s' \<Longrightarrow> tcp_inv s'"
proof (induction "is" arbitrary: s)
  case (Cons i "is")
  then obtain s1 where s1: "sys_timeout (sys_now E (world s)) (interval_ms E i) (Some (Cyclic i)) s = Some s1" "start_cyclic E is s1 = Some s'"
    by (auto simp: bind_eq_Some_conv)
  have "tcp_inv s1" using timeout_tcps [OF s1(1)] Cons.prems(1) by (auto simp: tcp_inv_def)
  then show ?case using Cons.IH s1(2) by blast
qed simp

text \<open>The timers from the start on.\<close>

inductive timer_run :: "('h, 'w) tenv \<Rightarrow> ('h, 'w) timers \<Rightarrow> bool" for E :: "('h, 'w) tenv" where
  init: "sys_timeouts_init E \<lparr>next_timeout = [], current_timeout_due_time = 0, tcpip_tcp_timer_active = False, timeo_pool = N, world = w\<rparr> = Some s \<Longrightarrow> timer_run E s"
| call: "timer_run E s \<Longrightarrow> timer_call c s = Some s' \<Longrightarrow> timer_run E s'"
| check: "timer_run E s \<Longrightarrow> sys_check_timeouts E n s = Some (tr, s') \<Longrightarrow> timer_run E s'"
| restart: "timer_run E s \<Longrightarrow> timer_run E (sys_restart_timeouts now s)"
| other: "timer_run E s \<Longrightarrow> timer_run E (s\<lparr>world := w\<rparr>)"

text \<open>
  C26. The TCP timer is pending exactly once when its flag says that it is active and not at all otherwise, between all operations on the timers, whatever
  the other handlers do and whatever is registered in between: it is neither lost nor set twice.\<close>

theorem tcp_timer_once:
  assumes "timer_run E s"
  shows "length (filter (\<lambda>t. t_h t = Some Tcp) (next_timeout s)) = (if tcpip_tcp_timer_active s then 1 else 0)"
proof -
  have "tcp_inv s" using assms
  proof induction
    case (init N w s)
    have "tcp_inv \<lparr>next_timeout = [], current_timeout_due_time = 0, tcpip_tcp_timer_active = False, timeo_pool = N, world = w\<rparr>" by (simp add: tcp_defs)
    from start_cyclic_tcps [OF this] init show ?case unfolding sys_timeouts_init_def by blast
  next
    case (call s c s')
    then show ?case using timer_call_tcps by blast
  next
    case (check s n tr s')
    then show ?case using check_loop_tcps by (auto simp: sys_check_timeouts_def)
  next
    case (restart s now)
    moreover have "filter_mset (\<lambda>t. t_h t = Some Tcp) (mset (map (\<lambda>u. u\<lparr>t_time := f u\<rparr>) ts)) =
        image_mset (\<lambda>u. u\<lparr>t_time := f u\<rparr>) (filter_mset (\<lambda>t. t_h t = Some Tcp) (mset ts))" for f and ts :: "'a sys_timeo list"
      by (induction ts) auto
    ultimately show ?case by (auto simp: sys_restart_timeouts_def tcp_defs split: list.split)
  next
    case (other s w)
    then show ?case by (simp add: tcp_defs)
  qed
  then show ?thesis by (simp add: tcp_inv_def tcps_def flip: mset_filter)
qed

theorem tcp_timer_once_witness:
  "\<exists>s s'. sys_timeouts_init demo_env \<lparr>next_timeout = [], current_timeout_due_time = 0, tcpip_tcp_timer_active = False, timeo_pool = 5, world = []\<rparr> = Some s \<and>
     timer_call (Tcp_needed 20 True) s = Some s' \<and> length (filter (\<lambda>t. t_h t = Some Tcp) (next_timeout s')) = 1"
proof -
  let ?b = "\<lparr>next_timeout = [], current_timeout_due_time = 0, tcpip_tcp_timer_active = False, timeo_pool = 5, world = []\<rparr> :: (nat, nat list) timers"
  let ?s = "?b\<lparr>next_timeout := [\<lparr>t_time = 1010, t_h = Some (Cyclic 1)\<rparr>, \<lparr>t_time = 1010, t_h = Some (Cyclic 2)\<rparr>], timeo_pool := 3\<rparr>"
  have i: "sys_timeouts_init demo_env ?b = Some ?s"
    by (simp add: sys_timeouts_init_def demo_env_def upt_rec sys_timeout_def sys_timeout_abs_def assert_c_def LWIP_UINT32_MAX_def place_def TIME_LESS_THAN_def LWIP_MAX_TIMEOUT_def)
  have "\<exists>s'. timer_call (Tcp_needed 20 True) ?s = Some s' \<and> tcpip_tcp_timer_active s'"
    by (simp add: tcp_timer_needed_def sys_timeout_def sys_timeout_abs_def assert_c_def LWIP_UINT32_MAX_def TCP_TMR_INTERVAL_def)
  then obtain s' where s': "timer_call (Tcp_needed 20 True) ?s = Some s'" "tcpip_tcp_timer_active s'" by blast
  have "timer_run demo_env s'" using timer_run.call [OF timer_run.init [OF i] s'(1)] .
  from tcp_timer_once [OF this] i s' show ?thesis by auto
qed

section \<open>A timer that is due at once\<close>

text \<open>
  C28. Only the timers that have expired when the function is entered should run. A handler that sets itself again with a time of 0, while the clock shows the same
  millisecond, is run again in the same call, and again: no number of rounds is enough.\<close>

theorem zero_timeout_never_ends:
  assumes "\<forall>w. run_job E (User h) w = (f w, [Timeout (sys_now E w) 0 h])" "\<forall>w. sys_now E (f w) = sys_now E w"
    and "next_timeout s = [\<lparr>t_time = sys_now E (world s), t_h = Some (User h)\<rparr>]"
  shows "sys_check_timeouts E n s = None"
proof -
  have "check_loop E now n s = None" if "next_timeout s = [\<lparr>t_time = now, t_h = Some (User h)\<rparr>]" "sys_now E (world s) = now" for now n s
    using that
  proof (induction n arbitrary: s)
    case (Suc n)
    let ?s1 = "s\<lparr>next_timeout := [], current_timeout_due_time := now, timeo_pool := timeo_pool s + 1\<rparr>"
    let ?s2 = "?s1\<lparr>world := f (world s), timeo_pool := timeo_pool s, next_timeout := [\<lparr>t_time = now, t_h = Some (User h)\<rparr>]\<rparr>"
    have "call_handler E (User h) ?s1 = Some ?s2"
      using assms(1) Suc.prems by (simp add: call_handler_def run_handler_def sys_timeout_def sys_timeout_abs_def assert_c_def place_def)
    moreover have "check_loop E now n ?s2 = None" using Suc.prems assms(2) by (intro Suc.IH) simp_all
    moreover have "\<not> TIME_LESS_THAN now now" by (simp add: TIME_LESS_THAN_def)
    ultimately show ?case using Suc.prems by (simp add: Let_def)
  qed simp
  then show ?thesis using assms(3) by (simp add: sys_check_timeouts_def)
qed

definition loop_env :: "(unit, unit) tenv" where
  "loop_env = \<lparr>run_job = (\<lambda>h w. (w, [Timeout 7 0 ()])), sys_now = (\<lambda>w. 7), tcp_pcbs = (\<lambda>w. False), interval_ms = (\<lambda>i. 0), num_cyclic = 0\<rparr>"

theorem zero_timeout_never_ends_witness:
  "sys_check_timeouts loop_env 100000
     \<lparr>next_timeout = [\<lparr>t_time = 7, t_h = Some (User ())\<rparr>], current_timeout_due_time = 0, tcpip_tcp_timer_active = False, timeo_pool = 4, world = ()\<rparr> = None"
  by (rule zero_timeout_never_ends [of loop_env "()" "\<lambda>w. w"]) (simp_all add: loop_env_def)

end
