(* ===== verification/InetChksum.thy ===== *)
theory InetChksum
  imports Prelude
begin

text \<open>
  The Internet checksum of lwIP: \<^verbatim>\<open>core/inet_chksum.c\<close>. Memory is little-endian, as on the board. A block of memory is its address, of which only the alignment
  matters, and its bytes; a chain of packet buffers is a list of blocks. The three versions of \<^verbatim>\<open>lwip_standard_chksum\<close> among which the configuration
  chooses have numbers; the port uses the second. \<^term>\<open>None\<close> is a failed assertion.
\<close>

section \<open>Words\<close>

definition SWAP_BYTES_IN_WORD :: "u32 \<Rightarrow> u32" where
  "SWAP_BYTES_IN_WORD w = push_bit 8 (w AND 0xFF) OR drop_bit 8 (w AND 0xFF00)"

definition FOLD_U32T :: "u32 \<Rightarrow> u32" where
  "FOLD_U32T u = drop_bit 16 u + (u AND 0xFFFF)"

definition lwip_htons :: "u16 \<Rightarrow> u16" where
  "lwip_htons n = push_bit 8 (n AND 0x00FF) OR drop_bit 8 (n AND 0xFF00)"

text \<open>Loads of 16 and 32 bits, least significant byte first; the first octet as the most significant one.\<close>

definition ld16 :: "u8 \<Rightarrow> u8 \<Rightarrow> u32" where
  "ld16 a b = ucast a + 256 * ucast b"

definition ld32 :: "u8 \<Rightarrow> u8 \<Rightarrow> u8 \<Rightarrow> u8 \<Rightarrow> u32" where
  "ld32 a b c d = ucast a + 256 * ucast b + 65536 * ucast c + 16777216 * ucast d"

section \<open>The sum\<close>

fun octet_loop :: "u8 list \<Rightarrow> u32 \<Rightarrow> u32" where
  "octet_loop (a # b # bs) acc = octet_loop bs (acc + (256 * ucast a + ucast b))"
| "octet_loop [a] acc = acc + 256 * ucast a"
| "octet_loop [] acc = acc"

definition lwip_standard_chksum1 :: "u8 list \<Rightarrow> u16" where
  "lwip_standard_chksum1 bs =
     (let acc = octet_loop bs 0;
          acc1 = FOLD_U32T acc;
          acc2 = (if acc1 AND 0xFFFF0000 \<noteq> 0 then FOLD_U32T acc1 else acc1)
      in lwip_htons (ucast acc2))"

fun bulk_loop :: "u8 list \<Rightarrow> u32 \<Rightarrow> u32 \<times> u8 list" where
  "bulk_loop (a # b # bs) acc = bulk_loop bs (acc + ld16 a b)"
| "bulk_loop bs acc = (acc, bs)"

text \<open>The bytes that do not belong to an aligned word are put together in \<open>t\<close>.\<close>

definition finish_sum :: "bool \<Rightarrow> u32 \<Rightarrow> u32 \<Rightarrow> u8 list \<Rightarrow> u16" where
  "finish_sum swap t acc rest =
     (let t1 = (case rest of [] \<Rightarrow> t | b # _ \<Rightarrow> t + ucast b);
          sum1 = FOLD_U32T (FOLD_U32T (acc + t1))
      in ucast (if swap then SWAP_BYTES_IN_WORD sum1 else sum1))"

definition lwip_standard_chksum :: "nat \<Rightarrow> u8 list \<Rightarrow> u16" where
  "lwip_standard_chksum pb bs =
     (let odd = (pb mod 2 = 1);
          t = (if odd \<and> bs \<noteq> [] then 256 * ucast (hd bs) else 0);
          bs1 = (if odd then tl bs else bs);
          (acc, rest) = bulk_loop bs1 0
      in finish_sum odd t acc rest)"

text \<open>The additions of 32 bits with the carry added back.\<close>

definition carry_add :: "u32 \<Rightarrow> u32 \<Rightarrow> u32" where
  "carry_add acc x = (let tmp = acc + x in if tmp < acc then tmp + 1 else tmp)"

fun quad_loop :: "u8 list \<Rightarrow> u32 \<Rightarrow> u32 \<times> u8 list" where
  "quad_loop (a # b # c # d # e # f # g # h # bs) acc = quad_loop bs (carry_add (carry_add acc (ld32 a b c d)) (ld32 e f g h))"
| "quad_loop bs acc = (acc, bs)"

definition align_word :: "bool \<Rightarrow> u8 list \<Rightarrow> u32 \<times> u8 list" where
  "align_word unaligned bs = (case bs of a # b # bs1 \<Rightarrow> if unaligned then (ld16 a b, bs1) else (0, bs) | _ \<Rightarrow> (0, bs))"

definition lwip_standard_chksum3 :: "nat \<Rightarrow> u8 list \<Rightarrow> u16" where
  "lwip_standard_chksum3 pb bs =
     (let odd = (pb mod 2 = 1);
          t = (if odd \<and> bs \<noteq> [] then 256 * ucast (hd bs) else 0);
          bs1 = (if odd then tl bs else bs);
          ps = (if odd \<and> bs \<noteq> [] then pb + 1 else pb);
          (sum1, bs2) = align_word (ps mod 4 \<noteq> 0) bs1;
          (sum2, bs3) = quad_loop bs2 sum1;
          (sum3, rest) = bulk_loop bs3 (FOLD_U32T sum2)
      in finish_sum odd t sum3 rest)"

definition inet_chksum :: "nat \<Rightarrow> u8 list \<Rightarrow> u16" where
  "inet_chksum dataptr bs = NOT (lwip_standard_chksum dataptr bs)"

definition lwip_chksum_copy :: "nat \<Rightarrow> u8 list \<Rightarrow> u16 \<times> u8 list" where
  "lwip_chksum_copy dst src = (lwip_standard_chksum dst src, src)"

section \<open>Chains\<close>

type_synonym block = "nat \<times> u8 list"

fun chain_loop :: "block list \<Rightarrow> bool \<Rightarrow> u32 \<Rightarrow> bool \<times> u32" where
  "chain_loop [] swapped acc = (swapped, acc)"
| "chain_loop ((a, bs) # q) swapped acc =
     (let acc1 = FOLD_U32T (acc + ucast (lwip_standard_chksum a bs))
      in if length bs mod 2 \<noteq> 0 then chain_loop q (\<not> swapped) (SWAP_BYTES_IN_WORD acc1) else chain_loop q swapped acc1)"

definition unswap :: "bool \<times> u32 \<Rightarrow> u32" where
  "unswap r = (case r of (swapped, acc) \<Rightarrow> if swapped then SWAP_BYTES_IN_WORD acc else acc)"

definition inet_chksum_pbuf :: "block list \<Rightarrow> u16" where
  "inet_chksum_pbuf p = ucast (NOT (unswap (chain_loop p False 0) AND 0xFFFF))"

text \<open>The end of both functions with a pseudo header.\<close>

definition add_proto :: "u8 \<Rightarrow> u16 \<Rightarrow> u32 \<Rightarrow> u16" where
  "add_proto proto proto_len acc =
     (let acc1 = acc + ucast (lwip_htons (ucast proto)) + ucast (lwip_htons proto_len)
      in ucast (NOT (FOLD_U32T (FOLD_U32T acc1) AND 0xFFFF)))"

definition inet_cksum_pseudo_base :: "block list \<Rightarrow> u8 \<Rightarrow> u16 \<Rightarrow> u32 \<Rightarrow> u16" where
  "inet_cksum_pseudo_base p proto proto_len acc = add_proto proto proto_len (unswap (chain_loop p False acc))"

text \<open>Addresses are in network order: the number that a load of their bytes gives.\<close>

definition add_addr :: "u32 \<Rightarrow> u32 \<Rightarrow> u32" where
  "add_addr addr acc = acc + (addr AND 0xFFFF) + (drop_bit 16 addr AND 0xFFFF)"

definition inet_chksum_pseudo :: "block list \<Rightarrow> u8 \<Rightarrow> u16 \<Rightarrow> u32 \<Rightarrow> u32 \<Rightarrow> u16" where
  "inet_chksum_pseudo p proto proto_len src dest =
     inet_cksum_pseudo_base p proto proto_len (FOLD_U32T (FOLD_U32T (add_addr dest (add_addr src 0))))"

definition ip6_acc :: "u32 list \<Rightarrow> u32 list \<Rightarrow> u32" where
  "ip6_acc src dest = FOLD_U32T (FOLD_U32T (fold (\<lambda>(s, d) acc. add_addr d (add_addr s acc)) (zip (take 4 src) (take 4 dest)) 0))"

definition ip6_chksum_pseudo :: "block list \<Rightarrow> u8 \<Rightarrow> u16 \<Rightarrow> u32 list \<Rightarrow> u32 list \<Rightarrow> u16" where
  "ip6_chksum_pseudo p proto proto_len src dest = inet_cksum_pseudo_base p proto proto_len (ip6_acc src dest)"

datatype ip_addr_t = V4 u32 | V6 "u32 list"

text \<open>The source has the kind of the destination; otherwise the function would read the union in \<^verbatim>\<open>ip_addr_t\<close> as something else, which is \<^term>\<open>None\<close>.\<close>

definition ip_chksum_pseudo :: "block list \<Rightarrow> u8 \<Rightarrow> u16 \<Rightarrow> ip_addr_t \<Rightarrow> ip_addr_t \<Rightarrow> u16 option" where
  "ip_chksum_pseudo p proto proto_len src dest =
     (case (src, dest) of
        (V6 a, V6 d) \<Rightarrow> Some (ip6_chksum_pseudo p proto proto_len a d)
      | (V4 a, V4 d) \<Rightarrow> Some (inet_chksum_pseudo p proto proto_len a d)
      | _ \<Rightarrow> None)"

fun partial_loop :: "block list \<Rightarrow> u16 \<Rightarrow> bool \<Rightarrow> u32 \<Rightarrow> (bool \<times> u32) option" where
  "partial_loop [] chksum_len swapped acc = Some (swapped, acc)"
| "partial_loop ((a, bs) # q) chksum_len swapped acc =
     (if chksum_len = 0 then Some (swapped, acc)
      else let chklen = (if of_nat (length bs) > chksum_len then chksum_len else of_nat (length bs));
               acc1 = FOLD_U32T (acc + ucast (lwip_standard_chksum a (take (unat chklen) bs)))
        in do {
          assert_c (chksum_len - chklen < 0x7FFF);
          if length bs mod 2 \<noteq> 0 then partial_loop q (chksum_len - chklen) (\<not> swapped) (SWAP_BYTES_IN_WORD acc1)
          else partial_loop q (chksum_len - chklen) swapped acc1 })"

definition inet_cksum_pseudo_partial_base :: "block list \<Rightarrow> u8 \<Rightarrow> u16 \<Rightarrow> u16 \<Rightarrow> u32 \<Rightarrow> u16 option" where
  "inet_cksum_pseudo_partial_base p proto proto_len chksum_len acc =
     map_option (\<lambda>r. add_proto proto proto_len (unswap r)) (partial_loop p chksum_len False acc)"

definition inet_chksum_pseudo_partial :: "block list \<Rightarrow> u8 \<Rightarrow> u16 \<Rightarrow> u16 \<Rightarrow> u32 \<Rightarrow> u32 \<Rightarrow> u16 option" where
  "inet_chksum_pseudo_partial p proto proto_len chksum_len src dest =
     inet_cksum_pseudo_partial_base p proto proto_len chksum_len (FOLD_U32T (FOLD_U32T (add_addr dest (add_addr src 0))))"

definition ip6_chksum_pseudo_partial :: "block list \<Rightarrow> u8 \<Rightarrow> u16 \<Rightarrow> u16 \<Rightarrow> u32 list \<Rightarrow> u32 list \<Rightarrow> u16 option" where
  "ip6_chksum_pseudo_partial p proto proto_len chksum_len src dest =
     inet_cksum_pseudo_partial_base p proto proto_len chksum_len (ip6_acc src dest)"

definition ip_chksum_pseudo_partial :: "block list \<Rightarrow> u8 \<Rightarrow> u16 \<Rightarrow> u16 \<Rightarrow> ip_addr_t \<Rightarrow> ip_addr_t \<Rightarrow> u16 option" where
  "ip_chksum_pseudo_partial p proto proto_len chksum_len src dest =
     (case (src, dest) of
        (V6 a, V6 d) \<Rightarrow> ip6_chksum_pseudo_partial p proto proto_len chksum_len a d
      | (V4 a, V4 d) \<Rightarrow> inet_chksum_pseudo_partial p proto proto_len chksum_len a d
      | _ \<Rightarrow> None)"

section \<open>Sums modulo 65535\<close>

text \<open>\<open>x\<close> stands for \<open>n\<close> in the arithmetic with end-around carry, in which 0 and 65535 are different.\<close>

definition rep :: "nat \<Rightarrow> nat \<Rightarrow> bool" where
  "rep x n \<longleftrightarrow> x mod 65535 = n mod 65535 \<and> (x = 0 \<longleftrightarrow> n = 0)"

text \<open>The number between 0 and 65535 that stands for \<open>n\<close>.\<close>

definition oc :: "nat \<Rightarrow> nat" where
  "oc n = (if n = 0 then 0 else (n - 1) mod 65535 + 1)"

lemma rep_refl [simp]: "rep x x"
  by (simp add: rep_def)

lemma rep_trans: "rep x y \<Longrightarrow> rep y z \<Longrightarrow> rep x z"
  by (simp add: rep_def)

lemma rep_sym: "rep x y \<Longrightarrow> rep y x"
  by (simp add: rep_def)

lemma rep_add: "rep x m \<Longrightarrow> rep y n \<Longrightarrow> rep (x + y) (m + n)"
  unfolding rep_def by (metis add_is_0 mod_add_cong)

lemma rep_mult: "0 < c \<Longrightarrow> rep x m \<Longrightarrow> rep (c * x) (c * m)"
  unfolding rep_def by (metis mod_mult_cong mult_is_0 not_gr_zero)

lemma rep_65536: "rep (65536 * n) n"
proof -
  have "65536 * n mod 65535 = (65536 mod 65535) * n mod 65535" by (metis mod_mult_left_eq)
  then show ?thesis by (simp add: rep_def)
qed

lemma rep_fold: "rep (x div 65536 + x mod 65536) x"
proof -
  have "rep (x div 65536 + x mod 65536) (65536 * (x div 65536) + x mod 65536)" by (rule rep_add [OF rep_sym [OF rep_65536] rep_refl])
  then show ?thesis by simp
qed

lemma rep_unique: "rep x n \<Longrightarrow> rep y n \<Longrightarrow> x \<le> 65535 \<Longrightarrow> y \<le> 65535 \<Longrightarrow> x = y"
  unfolding rep_def by (metis le_neq_implies_less mod_less mod_self)

lemma oc_rep: "rep (oc n) n" "oc n \<le> 65535"
proof -
  show "rep (oc n) n"
  proof (cases "n = 0")
    case False
    have "((n - 1) mod 65535 + 1) mod 65535 = (n - 1 + 1) mod 65535" by (rule mod_add_left_eq)
    then show ?thesis using False by (simp add: rep_def oc_def)
  qed (simp add: rep_def oc_def)
  have "(n - 1) mod 65535 < 65535" by (rule mod_less_divisor) simp
  then show "oc n \<le> 65535" unfolding oc_def by auto
qed

lemma rep_oc: "rep x n \<Longrightarrow> x \<le> 65535 \<Longrightarrow> x = oc n"
  using rep_unique oc_rep by blast

text \<open>The reference: the bytes as one number, the first byte the least significant.\<close>

fun le_num :: "u8 list \<Rightarrow> nat" where
  "le_num [] = 0"
| "le_num (b # bs) = unat b + 256 * le_num bs"

lemma rep_pair: "rep s (le_num bs) \<Longrightarrow> rep (unat a + 256 * unat b + s) (le_num (a # b # bs))"
proof -
  assume "rep s (le_num bs)"
  then have "rep s (65536 * le_num bs)" using rep_trans rep_sym rep_65536 by blast
  from rep_add [OF rep_refl this, of "unat a + 256 * unat b"] show ?thesis by (simp add: algebra_simps)
qed

lemma le_num_append: "rep (le_num (as @ bs)) (le_num as + (if even (length as) then 1 else 256) * le_num bs)"
proof (induction as)
  case (Cons a as)
  have "rep (256 * le_num (as @ bs)) (256 * (le_num as + (if even (length as) then 1 else 256) * le_num bs))" by (rule rep_mult [OF _ Cons]) simp
  moreover have "rep (256 * (le_num as + (if even (length as) then 1 else 256) * le_num bs)) (256 * le_num as + (if even (length (a # as)) then 1 else 256) * le_num bs)"
  proof (cases "even (length as)")
    case False
    have "rep (256 * le_num as + 65536 * le_num bs) (256 * le_num as + le_num bs)" by (rule rep_add [OF rep_refl rep_65536])
    then show ?thesis using False by (simp add: algebra_simps)
  qed simp
  ultimately have "rep (256 * le_num (as @ bs)) (256 * le_num as + (if even (length (a # as)) then 1 else 256) * le_num bs)" by (rule rep_trans)
  from rep_add [OF rep_refl this, of "unat a"] show ?case by (simp add: add.assoc)
qed simp

section \<open>Words as numbers\<close>

lemma unat_u8: "unat (a :: u8) \<le> 255" "unat (a :: u8) < 256"
  using unsigned_less [of a, where ?'a = nat] by simp_all

lemma unat_u16: "unat (a :: u16) \<le> 65535"
  using unsigned_less [of a, where ?'a = nat] by simp

lemma unat_ucast_u8 [simp]: "unat (ucast (a :: u8) :: u32) = unat a" "unat (ucast (a :: u8) :: u16) = unat a"
  by (simp_all add: unsigned_ucast_eq take_bit_nat_eq_self_iff less_trans [OF unat_u8(2)])

lemma unat_ucast_u16 [simp]: "unat (ucast (a :: u16) :: u32) = unat a"
  by (simp add: unsigned_ucast_eq take_bit_nat_eq_self_iff le_less_trans [OF unat_u16])

lemma unat_ld16: "unat (ld16 a b) = unat a + 256 * unat b"
  using unat_u8 [of a] unat_u8 [of b] by (simp add: ld16_def unat_word_ariths)

lemma unat_ld32: "unat (ld32 a b c d) = le_num [a, b, c, d]"
  using unat_u8 [of a] unat_u8 [of b] unat_u8 [of c] unat_u8 [of d] by (simp add: ld32_def unat_word_ariths)

lemma unat_and_ffff: "unat (u AND 0xFFFF) = unat u mod 65536" for u :: u32
proof -
  have "u AND 0xFFFF = take_bit 16 u" by (simp add: take_bit_eq_mask mask_eq_exp_minus_1)
  then have "unat (u AND 0xFFFF) = take_bit 16 (unat u)" by (simp only: unsigned_take_bit_eq)
  then show ?thesis by (simp add: take_bit_eq_mod)
qed

lemma unat_fold: "unat (FOLD_U32T u) = unat u div 65536 + unat u mod 65536"
proof -
  have "unat (drop_bit 16 u) = unat u div 65536" by (simp add: unat_drop_bit_eq drop_bit_eq_div [of 16 "unat u"])
  moreover have "unat u div 65536 < 65536" using unsigned_less [of u, where ?'a = nat] by (simp add: less_mult_imp_div_less)
  ultimately show ?thesis using unat_and_ffff [of u] by (simp add: FOLD_U32T_def unat_word_ariths)
qed

lemma unat_mask8: "unat (take_bit 8 u) = unat u mod 256" for u :: "'a::len word"
  by (simp only: unsigned_take_bit_eq) (simp add: take_bit_eq_mod)

lemma drop_high: "drop_bit n (w AND push_bit n (mask n)) = take_bit n (drop_bit n w)" for w :: "'a::len word"
  by (rule bit_word_eqI) (auto simp: bit_simps dest: bit_imp_le_length)

lemma swap_parts:
  fixes w :: "'a::len word"
  assumes "16 \<le> LENGTH('a)"
  shows "unat (push_bit 8 (take_bit 8 w) OR take_bit 8 (drop_bit 8 w)) = 256 * (unat w mod 256) + unat w div 256 mod 256"
proof -
  let ?a = "push_bit 8 (take_bit 8 w)" and ?b = "take_bit 8 (drop_bit 8 w)"
  have d: "?a OR ?b = ?a + ?b" by (rule disjunctive_add [symmetric]) (auto simp: bit_simps)
  have "(2 :: nat) ^ 16 \<le> 2 ^ LENGTH('a)" by (rule power_increasing [OF assms]) simp
  then have L: "65536 \<le> (2 :: nat) ^ LENGTH('a)" by simp
  have b: "unat ?b = unat w div 256 mod 256" unfolding unat_mask8 by (simp add: unat_drop_bit_eq drop_bit_eq_div [of 8 "unat w"])
  have "?a = 256 * take_bit 8 w" by (simp add: push_bit_eq_mult mult.commute)
  then have a: "unat ?a = 256 * (unat w mod 256)" 
  proof -
    have "unat (256 :: 'a word) = 256"
    proof -
      have "unat (256 :: 'a word) = 256 mod 2 ^ LENGTH('a)" by (metis of_nat_numeral unat_of_nat unsigned_of_nat take_bit_eq_mod)
      then show ?thesis using L by simp
    qed
    moreover have "unat w mod 256 \<le> 255" by (simp add: less_Suc_eq_le [symmetric])
    ultimately show ?thesis using \<open>?a = 256 * take_bit 8 w\<close> L unat_mask8 [of w] by (simp add: unat_word_ariths)
  qed
  have "256 * (unat w mod 256) + unat w div 256 mod 256 < 65536"
  proof -
    have "unat w mod 256 \<le> 255" "unat w div 256 mod 256 \<le> 255" by (simp_all add: less_Suc_eq_le [symmetric])
    then show ?thesis by simp
  qed
  then show ?thesis unfolding d using a b L by (simp add: unat_word_ariths)
qed

lemma unat_swap: "unat w < 65536 \<Longrightarrow> unat (SWAP_BYTES_IN_WORD w) = 256 * (unat w mod 256) + unat w div 256"
proof -
  assume w: "unat w < 65536"
  have "w AND 0xFF = take_bit 8 w" by (simp add: take_bit_eq_mask mask_eq_exp_minus_1)
  moreover have "(0xFF00 :: u32) = push_bit 8 (mask 8)" by (simp add: mask_eq_exp_minus_1)
  then have "drop_bit 8 (w AND 0xFF00) = take_bit 8 (drop_bit 8 w)" using drop_high [of 8 w] by simp
  moreover have "unat w div 256 mod 256 = unat w div 256" using w by (simp add: less_mult_imp_div_less)
  ultimately show ?thesis using swap_parts [of w] by (simp add: SWAP_BYTES_IN_WORD_def)
qed

lemma unat_htons: "unat (lwip_htons n) = 256 * (unat n mod 256) + unat n div 256"
proof -
  have "n AND 0xFF = take_bit 8 n" by (simp add: take_bit_eq_mask mask_eq_exp_minus_1)
  moreover have "(0xFF00 :: u16) = push_bit 8 (mask 8)" by (simp add: mask_eq_exp_minus_1)
  then have "drop_bit 8 (n AND 0xFF00) = take_bit 8 (drop_bit 8 n)" using drop_high [of 8 n] by simp
  moreover have "unat n div 256 mod 256 = unat n div 256" using unat_u16 [of n] by (simp add: less_mult_imp_div_less)
  ultimately show ?thesis using swap_parts [of n] by (simp add: lwip_htons_def)
qed

lemma rep_swap: "rep (256 * (x mod 256) + x div 256) (256 * x)"
proof -
  have "rep (256 * (x mod 256) + x div 256) (256 * (x mod 256) + 65536 * (x div 256))" by (rule rep_add [OF rep_refl rep_sym [OF rep_65536]])
  moreover have "256 * (x mod 256) + 65536 * (x div 256) = 256 * x" using mult_div_mod_eq [of 256 x] by linarith
  ultimately show ?thesis by simp
qed

section \<open>The three versions\<close>

lemma bulk_loop_sum:
  "bulk_loop bs acc = (acc', rest) \<Longrightarrow> unat acc + 65535 * (length bs div 2) < 2 ^ 32 \<Longrightarrow>
    \<exists>pre s. bs = pre @ rest \<and> even (length pre) \<and> length rest < 2 \<and> unat acc' = unat acc + s \<and> rep s (le_num pre) \<and> s \<le> 65535 * (length pre div 2)"
proof (induction bs acc arbitrary: acc' rule: bulk_loop.induct)
  case (1 a b bs acc)
  have ld: "unat (ld16 a b) \<le> 65535" using unat_u8 [of a] unat_u8 [of b] by (simp add: unat_ld16)
  have n: "unat (acc + ld16 a b) = unat acc + unat (ld16 a b)" using 1(3) ld by (simp add: unat_word_ariths)
  have "bulk_loop bs (acc + ld16 a b) = (acc', rest)" using 1(2) by simp
  moreover have "unat (acc + ld16 a b) + 65535 * (length bs div 2) < 2 ^ 32" using 1(3) ld n by simp
  ultimately obtain pre s where IH: "bs = pre @ rest" "even (length pre)" "length rest < 2" "unat acc' = unat (acc + ld16 a b) + s" "rep s (le_num pre)" "s \<le> 65535 * (length pre div 2)"
    using 1(1) by blast
  have "rep (unat (ld16 a b) + s) (le_num (a # b # pre))" unfolding unat_ld16 by (rule rep_pair [OF IH(5)])
  then show ?case using IH n ld by (intro exI [of _ "a # b # pre"] exI [of _ "unat (ld16 a b) + s"]) auto
qed auto

lemma fold_rep: "rep (unat (FOLD_U32T x)) (unat x)"
  unfolding unat_fold by (rule rep_fold)

lemma fold_small: "unat x \<le> 131070 \<Longrightarrow> unat (FOLD_U32T x) \<le> 65535"
proof (cases "unat x < 65536")
  case False
  assume a: "unat x \<le> 131070"
  then have "unat x div 65536 = 1" using False by simp
  moreover from this have "unat x mod 65536 = unat x - 65536" using mult_div_mod_eq [of 65536 "unat x"] by simp
  ultimately show ?thesis using a by (simp add: unat_fold)
qed (simp add: unat_fold)

lemma fold_le: "unat (FOLD_U32T x) \<le> 131070"
proof -
  have "unat x div 65536 \<le> 65535" using unsigned_less [of x, where ?'a = nat] by (simp add: less_Suc_eq_le [symmetric] less_mult_imp_div_less)
  moreover have "unat x mod 65536 \<le> 65535" by (simp add: less_Suc_eq_le [symmetric])
  ultimately show ?thesis unfolding unat_fold by simp
qed

lemma fold_fold: "rep (unat (FOLD_U32T (FOLD_U32T x))) (unat x) \<and> unat (FOLD_U32T (FOLD_U32T x)) \<le> 65535"
  using fold_small [OF fold_le] rep_trans [OF fold_rep fold_rep] by blast

lemma swap_rep: "unat w \<le> 65535 \<Longrightarrow> rep (unat (SWAP_BYTES_IN_WORD w)) (256 * unat w) \<and> unat (SWAP_BYTES_IN_WORD w) \<le> 65535"
proof -
  assume w: "unat w \<le> 65535"
  then have "unat w mod 256 \<le> 255" "unat w div 256 \<le> 255" by (simp_all add: less_Suc_eq_le [symmetric] less_mult_imp_div_less)
  then show ?thesis using unat_swap [of w] w rep_swap [of "unat w"] by simp
qed

lemma finish_sum_rep:
  assumes "unat acc + unat t + le_num rest < 2 ^ 32" "length rest < 2"
  shows "rep (unat (finish_sum swap t acc rest)) ((if swap then 256 else 1) * (unat acc + unat t + le_num rest))"
proof -
  define x where "x = acc + (case rest of [] \<Rightarrow> t | b # _ \<Rightarrow> t + ucast b)"
  have x: "unat x = unat acc + unat t + le_num rest"
    using assms by (cases rest) (auto simp: x_def unat_word_ariths less_Suc_eq)
  let ?f = "FOLD_U32T (FOLD_U32T x)"
  define r where "r = (if swap then SWAP_BYTES_IN_WORD ?f else ?f)"
  have "rep (256 * unat ?f) (256 * unat x)" using fold_fold by (intro rep_mult) simp_all
  then have r: "rep (unat r) ((if swap then 256 else 1) * unat x) \<and> unat r \<le> 65535"
    using fold_fold [of x] swap_rep [of ?f] rep_trans by (auto simp: r_def)
  then have "unat (ucast r :: u16) = unat r" by (simp add: unsigned_ucast_eq take_bit_nat_eq_self_iff)
  moreover have "finish_sum swap t acc rest = ucast r" by (simp add: finish_sum_def r_def x_def)
  ultimately show ?thesis using r x by simp
qed

text \<open>What is summed after the first byte at an odd address stands for the whole.\<close>

lemma shifted_rep:
  assumes "rep s (le_num bs1)" "bs1 = (if o' then tl bs else bs)" "t = (if o' \<and> bs \<noteq> [] then 256 * unat (hd bs) else 0)"
  shows "rep ((if o' then 256 else 1) * (s + t)) (le_num bs)"
proof (cases "o' \<and> bs \<noteq> []")
  case True
  then obtain b bs2 where b: "bs = b # bs2" by (cases bs) auto
  have "rep (65536 * unat b + 256 * s) (unat b + 256 * le_num bs2)"
    using True b assms by (intro rep_add [OF rep_65536] rep_mult) simp_all
  then show ?thesis using True b assms by (simp add: algebra_simps)
next
  case False
  then show ?thesis using assms by (cases bs) (auto simp: rep_def)
qed

lemma unat_head: "unat (if o' \<and> bs \<noteq> [] then 256 * ucast (hd bs) else 0 :: u32) = (if o' \<and> bs \<noteq> [] then 256 * unat (hd bs) else 0)" for bs :: "u8 list"
proof (cases "o' \<and> bs \<noteq> []")
  case True
  have "256 * unat (hd bs) < 2 ^ 32" using unat_u8 [of "hd bs"] by simp
  then show ?thesis using True by (simp add: unat_word_ariths)
qed auto

lemma append_even: "even (length pre) \<Longrightarrow> rep s (le_num pre) \<Longrightarrow> rep (s + le_num rest) (le_num (pre @ rest))"
proof -
  assume e: "even (length pre)" and s: "rep s (le_num pre)"
  have "rep (le_num (pre @ rest)) (le_num pre + le_num rest)" using le_num_append [of pre rest] e by simp
  note rep_sym [OF this]
  with rep_add [OF s rep_refl] show ?thesis by (rule rep_trans)
qed

lemma chksum2_rep:
  assumes "length bs \<le> 0x20000"
  shows "rep (unat (lwip_standard_chksum pb bs)) (le_num bs)"
proof -
  define o' where "o' = (pb mod 2 = 1)"
  define t where "t = (if o' \<and> bs \<noteq> [] then 256 * ucast (hd bs) else 0 :: u32)"
  define bs1 where "bs1 = (if o' then tl bs else bs)"
  obtain acc rest where l: "bulk_loop bs1 0 = (acc, rest)" by fastforce
  have len: "length bs1 div 2 \<le> 65536" "o' \<and> bs \<noteq> [] \<longrightarrow> length bs1 div 2 \<le> 65535" using assms by (auto simp: bs1_def)
  then have "65535 * (length bs1 div 2) < 2 ^ 32" by simp
  with bulk_loop_sum [OF l] obtain pre s where p: "bs1 = pre @ rest" "even (length pre)" "length rest < 2" "unat acc = s" "rep s (le_num pre)" "s \<le> 65535 * (length pre div 2)" by auto
  have ut: "unat t = (if o' \<and> bs \<noteq> [] then 256 * unat (hd bs) else 0)" unfolding t_def by (rule unat_head)
  have rest: "le_num rest \<le> 255" using p(3) unat_u8 by (cases rest) (auto simp: less_Suc_eq)
  have "length pre div 2 \<le> length bs1 div 2" using p(1) by (simp add: div_le_mono)
  then have "s \<le> 65535 * 65536" "o' \<and> bs \<noteq> [] \<longrightarrow> s \<le> 65535 * 65535" using p(6) len by (simp, auto)
  then have "s + unat t + le_num rest < 2 ^ 32" using rest ut unat_u8 [of "hd bs"] by (cases "o' \<and> bs \<noteq> []") auto
  with finish_sum_rep [of acc t rest o'] p(3,4) have "rep (unat (finish_sum o' t acc rest)) ((if o' then 256 else 1) * ((s + le_num rest) + unat t))" by (simp add: algebra_simps)
  moreover have "rep ((if o' then 256 else 1) * ((s + le_num rest) + unat t)) (le_num bs)"
    using shifted_rep [OF _ bs1_def ut] append_even [OF p(2,5)] p(1) by simp
  moreover have "lwip_standard_chksum pb bs = finish_sum o' t acc rest" using l by (simp add: lwip_standard_chksum_def o'_def t_def bs1_def Let_def)
  ultimately show ?thesis using rep_trans by metis
qed

lemma octet_loop_sum:
  "unat acc + 65535 * ((length bs + 1) div 2) < 2 ^ 32 \<Longrightarrow> \<exists>s. unat (octet_loop bs acc) = unat acc + s \<and> rep s (256 * le_num bs)"
proof (induction bs acc rule: octet_loop.induct)
  case (1 a b bs acc)
  let ?x = "256 * ucast a + ucast b :: u32"
  have x: "unat ?x = 256 * unat a + unat b" using unat_u8 [of a] unat_u8 [of b] by (simp add: unat_word_ariths)
  then have le: "unat ?x \<le> 65535" using unat_u8 [of a] unat_u8 [of b] by simp
  then have n: "unat (acc + ?x) = unat acc + unat ?x" using 1(2) by (simp add: unat_word_ariths)
  have "unat (acc + ?x) + 65535 * ((length bs + 1) div 2) < 2 ^ 32" using 1(2) le n by simp
  from 1(1) [OF this] obtain s where s: "unat (octet_loop bs (acc + ?x)) = unat (acc + ?x) + s" "rep s (256 * le_num bs)" by blast
  have "rep (unat b + s) (65536 * unat b + 65536 * (256 * le_num bs))"
    by (rule rep_add [OF rep_sym [OF rep_65536] rep_trans [OF s(2) rep_sym [OF rep_65536]]])
  from rep_add [OF rep_refl this, of "256 * unat a"] have "rep (unat ?x + s) (256 * le_num (a # b # bs))" unfolding x by (simp add: algebra_simps)
  then show ?case using s(1) n by (intro exI [of _ "unat ?x + s"]) simp
next
  case (2 a acc)
  have "unat (acc + 256 * ucast a) = unat acc + 256 * unat a" using 2 unat_u8 [of a] by (simp add: unat_word_ariths)
  then show ?case by (intro exI [of _ "256 * unat a"]) simp
qed simp

lemma chksum1_rep:
  assumes "length bs \<le> 0x20000"
  shows "rep (unat (lwip_standard_chksum1 bs)) (le_num bs)"
proof -
  define acc where "acc = octet_loop bs 0"
  have "65535 * ((length bs + 1) div 2) < 2 ^ 32" using assms by simp
  then have acc: "rep (unat acc) (256 * le_num bs)" using octet_loop_sum [of 0 bs] by (auto simp: acc_def)
  define acc2 where "acc2 = (if FOLD_U32T acc AND 0xFFFF0000 \<noteq> 0 then FOLD_U32T (FOLD_U32T acc) else FOLD_U32T acc)"
  have "unat acc2 \<le> 65535 \<and> rep (unat acc2) (unat acc)"
  proof (cases "FOLD_U32T acc AND 0xFFFF0000 = 0")
    case True
    have "(0xFFFF0000 OR 0xFFFF :: u32) = - 1" by simp
    then have "FOLD_U32T acc = FOLD_U32T acc AND (0xFFFF0000 OR 0xFFFF)" by (simp only: and.right_neutral)
    then have "FOLD_U32T acc = (FOLD_U32T acc AND 0xFFFF0000) OR (FOLD_U32T acc AND 0xFFFF)" by (simp only: bit.conj_disj_distrib)
    then have "unat (FOLD_U32T acc) = unat (FOLD_U32T acc) mod 65536" using True unat_and_ffff [of "FOLD_U32T acc"] by simp
    then have "unat (FOLD_U32T acc) < 65536" by (metis mod_less_divisor zero_less_numeral)
    then show ?thesis using True fold_rep by (simp add: acc2_def)
  qed (use fold_fold in \<open>simp add: acc2_def\<close>)
  then have 2: "unat (ucast acc2 :: u16) = unat acc2" "rep (unat acc2) (256 * le_num bs)" using rep_trans [OF _ acc]
    by (auto simp: unsigned_ucast_eq take_bit_nat_eq_self_iff)
  have "rep (unat (lwip_htons (ucast acc2))) (256 * unat acc2)" unfolding unat_htons 2(1) by (rule rep_swap)
  moreover have "rep (256 * unat acc2) (256 * (256 * le_num bs))" by (rule rep_mult [OF _ 2(2)]) simp
  moreover have "rep (256 * (256 * le_num bs)) (le_num bs)" using rep_65536 [of "le_num bs"] by simp
  moreover have "lwip_standard_chksum1 bs = lwip_htons (ucast acc2)" by (simp add: lwip_standard_chksum1_def acc2_def acc_def Let_def)
  ultimately show ?thesis using rep_trans by metis
qed

lemma carry_rep: "rep (unat (carry_add a x)) (unat a + unat x)"
proof (cases "unat a + unat x < 2 ^ 32")
  case True
  then have "unat (a + x) = unat a + unat x" by (simp add: unat_word_ariths)
  moreover from this have "\<not> a + x < a" by (simp add: word_less_nat_alt)
  ultimately show ?thesis by (simp add: carry_add_def)
next
  case False
  have b: "unat a < 2 ^ 32" "unat x < 2 ^ 32" using unsigned_less [of a, where ?'a = nat] unsigned_less [of x, where ?'a = nat] by simp_all
  have u: "unat (a + x) = unat a + unat x - 2 ^ 32" using False b by (simp add: unat_word_ariths mod_if)
  then have "a + x < a" using b False by (simp add: word_less_nat_alt)
  moreover have "unat (a + x + 1) = unat a + unat x - 2 ^ 32 + 1" using u b False by (simp add: unat_word_ariths)
  ultimately have c: "unat (carry_add a x) = unat a + unat x - 2 ^ 32 + 1" by (simp add: carry_add_def)
  have "unat a + unat x = (unat a + unat x - 2 ^ 32 + 1) + 65535 * 65537" using False by simp
  then have "(unat a + unat x) mod 65535 = (unat a + unat x - 2 ^ 32 + 1) mod 65535" by (metis mod_mult_self2)
  moreover have "unat a + unat x \<noteq> 0" using False by (metis zero_less_numeral zero_less_power)
  ultimately show ?thesis using c by (simp add: rep_def)
qed

lemma quad_loop_sum:
  "quad_loop bs acc = (acc', rest) \<Longrightarrow> \<exists>pre. bs = pre @ rest \<and> even (length pre) \<and> length rest < 8 \<and> rep (unat acc') (unat acc + le_num pre)"
proof (induction bs acc rule: quad_loop.induct)
  case (1 a b c d e f g h bs acc)
  let ?x = "carry_add (carry_add acc (ld32 a b c d)) (ld32 e f g h)"
  from 1 obtain pre where p: "bs = pre @ rest" "even (length pre)" "length rest < 8" "rep (unat acc') (unat ?x + le_num pre)" by auto
  have "rep (unat ?x) (unat acc + le_num [a, b, c, d] + le_num [e, f, g, h])"
    unfolding unat_ld32 [symmetric] by (rule rep_trans [OF carry_rep rep_add [OF carry_rep rep_refl]])
  then have x: "rep (unat ?x) (unat acc + le_num [a, b, c, d, e, f, g, h])"
  proof (rule rep_trans)
    have "rep (le_num [a, b, c, d] + le_num [e, f, g, h]) (le_num ([a, b, c, d] @ [e, f, g, h]))" by (rule append_even) simp_all
    from rep_add [OF rep_refl this, of "unat acc"] show "rep (unat acc + le_num [a, b, c, d] + le_num [e, f, g, h]) (unat acc + le_num [a, b, c, d, e, f, g, h])"
      by (simp add: add.assoc)
  qed
  let ?p = "[a, b, c, d, e, f, g, h]"
  have "rep (le_num ?p + le_num pre) (le_num (?p @ pre))" by (rule append_even) simp_all
  from rep_add [OF rep_refl this, of "unat acc"] have "rep (unat acc + le_num ?p + le_num pre) (unat acc + le_num (?p @ pre))" by (simp only: add.assoc)
  with rep_trans [OF p(4) rep_add [OF x rep_refl]] have "rep (unat acc') (unat acc + le_num (?p @ pre))" by (rule rep_trans)
  then show ?case using p(1-3) by (intro exI [of _ "?p @ pre"]) simp
qed auto

lemma chksum3_rep: "rep (unat (lwip_standard_chksum3 pb bs)) (le_num bs)"
proof -
  define o' where "o' = (pb mod 2 = 1)"
  define t where "t = (if o' \<and> bs \<noteq> [] then 256 * ucast (hd bs) else 0 :: u32)"
  define bs1 where "bs1 = (if o' then tl bs else bs)"
  define ps where "ps = (if o' \<and> bs \<noteq> [] then pb + 1 else pb)"
  obtain acc1 bs2 where 1: "align_word (ps mod 4 \<noteq> 0) bs1 = (acc1, bs2)" by fastforce
  obtain acc2 bs3 where 2: "quad_loop bs2 acc1 = (acc2, bs3)" by fastforce
  obtain acc3 rest where 3: "bulk_loop bs3 (FOLD_U32T acc2) = (acc3, rest)" by fastforce
  have "\<exists>pre1. bs1 = pre1 @ bs2 \<and> even (length pre1) \<and> unat acc1 = le_num pre1"
    using 1 by (auto simp: align_word_def unat_ld16 split: list.splits if_splits)
  then obtain pre1 where p1: "bs1 = pre1 @ bs2" "even (length pre1)" "unat acc1 = le_num pre1" by blast
  from quad_loop_sum [OF 2] obtain pre2 where p2: "bs2 = pre2 @ bs3" "even (length pre2)" "length bs3 < 8" "rep (unat acc2) (unat acc1 + le_num pre2)" by blast
  note f = fold_le [of acc2]
  have l3: "length bs3 div 2 \<le> 3" using p2(3) by simp
  then have "unat (FOLD_U32T acc2) + 65535 * (length bs3 div 2) < 2 ^ 32" using f by simp
  from bulk_loop_sum [OF 3 this] obtain pre3 s where p3: "bs3 = pre3 @ rest" "even (length pre3)" "length rest < 2" "unat acc3 = unat (FOLD_U32T acc2) + s"
    "rep s (le_num pre3)" "s \<le> 65535 * (length pre3 div 2)" by blast
  have ut: "unat t = (if o' \<and> bs \<noteq> [] then 256 * unat (hd bs) else 0)" unfolding t_def by (rule unat_head)
  have "unat t \<le> 65280" using ut unat_u8 [of "hd bs"] by simp
  moreover have "le_num rest \<le> 255" using p3(3) unat_u8 by (cases rest) (auto simp: less_Suc_eq)
  moreover have "length pre3 div 2 \<le> 3" using l3 p3(1) by (simp add: div_le_mono le_trans)
  then have "s \<le> 65535 * 3" using p3(6) by simp
  ultimately have "unat acc3 + unat t + le_num rest < 2 ^ 32" using f p3(4) by simp
  with finish_sum_rep [of acc3 t rest o'] p3(3) have r: "rep (unat (finish_sum o' t acc3 rest)) ((if o' then 256 else 1) * ((unat acc3 + le_num rest) + unat t))"
    by (simp add: algebra_simps)
  have a: "rep (unat (FOLD_U32T acc2)) (le_num (pre1 @ pre2))"
    using rep_trans [OF rep_trans [OF fold_rep p2(4)]] append_even [OF p1(2) rep_refl, of pre2] p1(3) by simp
  have "rep (unat acc3) (le_num ((pre1 @ pre2) @ pre3))"
    unfolding p3(4) using rep_trans [OF rep_add [OF a p3(5)]] append_even [of "pre1 @ pre2", OF _ rep_refl, of pre3] p1(2) p2(2) by simp
  then have "rep (unat acc3 + le_num rest) (le_num bs1)" using append_even [of "(pre1 @ pre2) @ pre3" "unat acc3" rest] p1 p2 p3 by simp
  from shifted_rep [OF this bs1_def ut] r have "rep (unat (finish_sum o' t acc3 rest)) (le_num bs)" using rep_trans by blast
  moreover have "lwip_standard_chksum3 pb bs = finish_sum o' t acc3 rest"
    using 1 2 3 by (simp add: lwip_standard_chksum3_def o'_def t_def bs1_def ps_def Let_def)
  ultimately show ?thesis by simp
qed

text \<open>
  C29. The three versions of the checksum, byte by byte, by 16 bits and by 32 bits with the carry added back, compute the same on every block of memory at every
  alignment, for the lengths that the comments allow: the number that the bytes form, modulo 65535, with 65535 in place of 0 unless all bytes are 0.\<close>

theorem chksum_versions_agree:
  assumes "length bs \<le> 0x20000"
  shows "unat (lwip_standard_chksum pb bs) = oc (le_num bs) \<and> lwip_standard_chksum1 bs = lwip_standard_chksum pb bs \<and> lwip_standard_chksum3 pb' bs = lwip_standard_chksum pb bs"
  using rep_oc [OF chksum2_rep [OF assms, of pb] unat_u16] rep_oc [OF chksum1_rep [OF assms] unat_u16] rep_oc [OF chksum3_rep [of pb' bs] unat_u16] by (simp add: word_unat_eq_iff)

theorem chksum_versions_agree_witness:
  "unat (lwip_standard_chksum 1 [0x45, 0x00, 0xFF, 0xFF, 0x12]) = oc (le_num [0x45, 0x00, 0xFF, 0xFF, 0x12]) \<and>
   lwip_standard_chksum3 2 [0x45, 0x00, 0xFF, 0xFF, 0x12] = lwip_standard_chksum 1 [0x45, 0x00, 0xFF, 0xFF, 0x12] \<and> lwip_standard_chksum 1 [0x45, 0x00, 0xFF, 0xFF, 0x12] = 0x57"
proof -
  have "lwip_standard_chksum 1 [0x45, 0x00, 0xFF, 0xFF, 0x12] = 0x57"
    by (simp add: lwip_standard_chksum_def finish_sum_def ld16_def FOLD_U32T_def SWAP_BYTES_IN_WORD_def)
  then show ?thesis using chksum_versions_agree [of "[0x45, 0x00, 0xFF, 0xFF, 0x12]" 1 2] by simp
qed

section \<open>Chains of buffers\<close>

definition chain_bytes :: "block list \<Rightarrow> u8 list" where
  "chain_bytes p = concat (map snd p)"

text \<open>The factor of a sum that is kept with its bytes swapped.\<close>

definition swf :: "bool \<Rightarrow> nat" where
  "swf b = (if b then 256 else 1)"

lemma swf_pos [simp]: "0 < swf b"
  by (simp add: swf_def)

lemma swf_mult: "rep (swf a * (swf b * n)) (swf (a \<noteq> b) * n)"
  using rep_65536 [of n] by (cases a; cases b) (simp_all add: swf_def)

lemma swf_append: "rep (le_num (as @ bs)) (le_num as + swf (odd (length as)) * le_num bs)"
  using le_num_append [of as bs] by (cases "even (length as)") (simp_all add: swf_def)

text \<open>\<open>acc\<close> stands for \<open>X\<close>, swapped or not.\<close>

definition acc_for :: "u32 \<Rightarrow> bool \<Rightarrow> nat \<Rightarrow> bool" where
  "acc_for acc swapped X \<longleftrightarrow> unat acc \<le> 65535 \<and> rep (unat acc) (swf swapped * X)"

lemma acc_for_rep: "acc_for acc s X \<Longrightarrow> rep X Y \<Longrightarrow> acc_for acc s Y"
  using rep_trans rep_mult [OF swf_pos] by (simp add: acc_for_def) blast

lemma unswap_rep:
  assumes "acc_for acc s X"
  shows "unat (unswap (s, acc)) \<le> 65535 \<and> rep (unat (unswap (s, acc))) X"
proof (cases s)
  case True
  then have a: "unat acc \<le> 65535" "rep (unat acc) (256 * X)" using assms by (simp_all add: acc_for_def swf_def)
  have "rep (256 * unat acc) (256 * (256 * X))" by (rule rep_mult [OF _ a(2)]) simp
  then have "rep (256 * unat acc) X" using rep_trans [OF _ rep_65536 [of X]] by simp
  then show ?thesis using True swap_rep [OF a(1)] rep_trans by (auto simp: unswap_def)
qed (use assms in \<open>simp add: unswap_def acc_for_def swf_def\<close>)

text \<open>One buffer.\<close>

definition add_block :: "nat \<Rightarrow> u8 list \<Rightarrow> u32 \<Rightarrow> u32" where
  "add_block a bs acc = FOLD_U32T (acc + ucast (lwip_standard_chksum a bs))"

lemma add_block_rep:
  assumes "acc_for acc s X" "length bs \<le> 0x20000"
  shows "acc_for (add_block a bs acc) s (X + swf s * le_num bs)"
proof -
  let ?c = "lwip_standard_chksum a bs"
  have u: "unat (acc + ucast ?c) = unat acc + unat ?c" using assms(1) unat_u16 [of ?c] by (simp add: acc_for_def unat_word_ariths)
  then have le: "unat (add_block a bs acc) \<le> 65535" unfolding add_block_def using assms(1) unat_u16 [of ?c] by (intro fold_small) (simp add: acc_for_def)
  have 1: "rep (unat (add_block a bs acc)) (unat acc + unat ?c)" using fold_rep [of "acc + ucast ?c"] u by (simp add: add_block_def)
  have 2: "rep (unat acc + unat ?c) (swf s * X + le_num bs)" using assms(1) chksum2_rep [OF assms(2)] by (intro rep_add) (simp_all add: acc_for_def)
  have 3: "rep (swf s * X + le_num bs) (swf s * X + swf s * (swf s * le_num bs))"
    by (rule rep_add [OF rep_refl rep_sym]) (use swf_mult [of s s "le_num bs"] in \<open>simp add: swf_def\<close>)
  from rep_trans [OF rep_trans [OF 1 2] 3] show ?thesis using le by (simp add: acc_for_def algebra_simps)
qed

lemma swap_acc: "acc_for acc s X \<Longrightarrow> acc_for (SWAP_BYTES_IN_WORD acc) (\<not> s) X"
proof -
  assume a: "acc_for acc s X"
  then have "rep (256 * unat acc) (256 * (swf s * X))" by (intro rep_mult) (simp_all add: acc_for_def)
  moreover have "rep (256 * (swf s * X)) (swf (\<not> s) * X)" using swf_mult [of True s X] by (simp add: swf_def)
  ultimately show ?thesis using a swap_rep [of acc] rep_trans by (simp add: acc_for_def) blast
qed

lemma next_block_rep:
  assumes "acc_for acc s X" "length bs \<le> 0x20000"
  shows "acc_for (if length bs' mod 2 \<noteq> 0 then SWAP_BYTES_IN_WORD (add_block a bs acc) else add_block a bs acc) (s \<noteq> odd (length bs')) (X + swf s * le_num bs)"
  using add_block_rep [OF assms, of a] swap_acc by (auto simp: odd_iff_mod_2_eq_one)

lemma sum_append: "rep (X + swf s * le_num as + swf (s \<noteq> odd (length as)) * le_num bs) (X + swf s * le_num (as @ bs))"
proof -
  have "rep (swf s * le_num as + swf (s \<noteq> odd (length as)) * le_num bs) (swf s * le_num as + swf s * (swf (odd (length as)) * le_num bs))"
    by (rule rep_add [OF rep_refl rep_sym [OF swf_mult]])
  moreover have "rep (swf s * (le_num as + swf (odd (length as)) * le_num bs)) (swf s * le_num (as @ bs))"
    by (rule rep_mult [OF swf_pos rep_sym [OF swf_append]])
  ultimately have "rep (swf s * le_num as + swf (s \<noteq> odd (length as)) * le_num bs) (swf s * le_num (as @ bs))" unfolding distrib_left by (rule rep_trans)
  from rep_add [OF rep_refl this, of X] show ?thesis by (simp add: add.assoc)
qed

lemma chain_loop_rep:
  "acc_for acc s X \<Longrightarrow> \<forall>(a, bs) \<in> set p. length bs \<le> 0x20000 \<Longrightarrow>
    \<exists>s' acc'. chain_loop p s acc = (s', acc') \<and> acc_for acc' s' (X + swf s * le_num (chain_bytes p))"
proof (induction p arbitrary: s acc X)
  case (Cons q p)
  obtain a bs where q: "q = (a, bs)" by fastforce
  define acc1 where "acc1 = (if length bs mod 2 \<noteq> 0 then SWAP_BYTES_IN_WORD (add_block a bs acc) else add_block a bs acc)"
  have 1: "acc_for acc1 (s \<noteq> odd (length bs)) (X + swf s * le_num bs)" unfolding acc1_def using Cons.prems q by (intro next_block_rep) auto
  have st: "chain_loop (q # p) s acc = chain_loop p (s \<noteq> odd (length bs)) acc1" by (auto simp: q acc1_def add_block_def odd_iff_mod_2_eq_one)
  from Cons.IH [OF 1] Cons.prems(2) obtain s' acc' where
    "chain_loop p (s \<noteq> odd (length bs)) acc1 = (s', acc')" "acc_for acc' s' (X + swf s * le_num bs + swf (s \<noteq> odd (length bs)) * le_num (chain_bytes p))" by auto
  then show ?case using st acc_for_rep [OF _ sum_append] by (auto simp: q chain_bytes_def)
qed (auto simp: chain_bytes_def)

lemma chain_sum:
  assumes "unat acc \<le> 65535" "\<forall>(a, bs) \<in> set p. length bs \<le> 0x20000"
  shows "unat (unswap (chain_loop p False acc)) \<le> 65535 \<and> rep (unat (unswap (chain_loop p False acc))) (unat acc + le_num (chain_bytes p))"
proof -
  have "acc_for acc False (unat acc)" using assms(1) by (simp add: acc_for_def swf_def)
  from chain_loop_rep [OF this assms(2)] show ?thesis using unswap_rep by (auto simp: swf_def)
qed

lemma not_sum: "unat x \<le> 65535 \<Longrightarrow> rep (unat x) n \<Longrightarrow> (ucast (NOT (x AND 0xFFFF)) :: u16) = NOT (of_nat (oc n))" for x :: u32
proof -
  assume x: "unat x \<le> 65535" "rep (unat x) n"
  have "x AND 0xFFFF = x" using x(1) unat_and_ffff [of x] by (simp add: word_unat_eq_iff)
  moreover have "(ucast (NOT x) :: u16) = NOT (ucast x)" by (rule bit_word_eqI) (auto simp: bit_simps)
  moreover have "(ucast x :: u16) = of_nat (oc n)" using rep_oc [OF x(2,1)] x(1) by (simp add: word_unat_eq_iff unsigned_ucast_eq unat_of_nat take_bit_eq_mod)
  ultimately show ?thesis by simp
qed

definition chain_small :: "block list \<Rightarrow> bool" where
  "chain_small p \<longleftrightarrow> (\<forall>(a, bs) \<in> set p. length bs \<le> 0xFFFF)"

lemma chain_small_le: "chain_small p \<Longrightarrow> \<forall>(a, bs) \<in> set p. length bs \<le> 0x20000"
  by (auto simp: chain_small_def)

lemma chksum_pbuf_eq: "chain_small p \<Longrightarrow> inet_chksum_pbuf p = NOT (of_nat (oc (le_num (chain_bytes p))))"
  unfolding inet_chksum_pbuf_def using chain_sum [of 0 p] chain_small_le by (intro not_sum) simp_all

lemma inet_chksum_eq: "length bs \<le> 0x20000 \<Longrightarrow> inet_chksum a bs = NOT (of_nat (oc (le_num bs)))"
proof -
  assume "length bs \<le> 0x20000"
  from rep_oc [OF chksum2_rep [OF this, of a] unat_u16] have "lwip_standard_chksum a bs = of_nat (oc (le_num bs))"
    using oc_rep(2) [of "le_num bs"] by (simp add: word_unat_eq_iff unat_of_nat)
  then show ?thesis by (simp add: inet_chksum_def)
qed

text \<open>
  C30. The checksum of a chain of packet buffers is the checksum of its bytes in one block, however the bytes are divided among the buffers, with odd and empty
  lengths, and wherever each buffer lies.\<close>

theorem chain_checksum:
  assumes "chain_small p" "length (chain_bytes p) \<le> 0x20000"
  shows "inet_chksum_pbuf p = inet_chksum a (chain_bytes p)"
  using chksum_pbuf_eq [OF assms(1)] inet_chksum_eq [OF assms(2)] by simp

theorem chain_checksum_witness:
  "inet_chksum_pbuf [(1, [0x45, 0x00, 0x01]), (4, []), (7, [0xFE]), (2, [0x80, 0x81, 0x82])] = inet_chksum 6 [0x45, 0x00, 0x01, 0xFE, 0x80, 0x81, 0x82]"
  using chain_checksum [of "[(1, [0x45, 0x00, 0x01]), (4, []), (7, [0xFE]), (2, [0x80, 0x81, 0x82])]" 6] by (simp add: chain_bytes_def chain_small_def)

section \<open>Pseudo headers\<close>

text \<open>The bytes of a word in memory, and of a length in network order.\<close>

definition mem32 :: "u32 \<Rightarrow> u8 list" where
  "mem32 a = [ucast a, ucast (drop_bit 8 a), ucast (drop_bit 16 a), ucast (drop_bit 24 a)]"

definition net16 :: "u16 \<Rightarrow> u8 list" where
  "net16 n = [ucast (drop_bit 8 n), ucast n]"

definition pseudo_header :: "u32 \<Rightarrow> u32 \<Rightarrow> u8 \<Rightarrow> u16 \<Rightarrow> u8 list" where
  "pseudo_header src dest proto proto_len = mem32 src @ mem32 dest @ [0, proto] @ net16 proto_len"

lemma unat_byte: "unat (ucast (drop_bit n a) :: u8) = unat a div 2 ^ n mod 256" for a :: "'a::len word"
  by (simp add: unsigned_ucast_eq take_bit_eq_mod unat_drop_bit_eq drop_bit_eq_div [of n "unat a"])

lemma le_num_mem32: "le_num (mem32 a) = unat a"
proof -
  define x where "x = unat a"
  have "x < 2 ^ 32" using unsigned_less [of a, where ?'a = nat] by (simp add: x_def)
  then have w: "x div 256 div 256 div 256 < 256" by (simp add: less_mult_imp_div_less div_mult2_eq [symmetric])
  have "unat (ucast a :: u8) = x mod 256" using unat_byte [of 0 a] by (simp add: x_def)
  moreover have "x div 65536 = x div 256 div 256" "x div 16777216 = x div 256 div 256 div 256" by (simp_all add: div_mult2_eq [symmetric])
  ultimately have "le_num (mem32 a) = x mod 256 + 256 * (x div 256 mod 256 + 256 * (x div 256 div 256 mod 256 + 256 * (x div 256 div 256 div 256)))"
    using w by (simp add: mem32_def unat_byte x_def [symmetric])
  then show ?thesis by (simp add: mod_mult_div_eq x_def)
qed

lemma le_num_net16: "le_num (net16 n) = unat (lwip_htons n)"
proof -
  have "unat (ucast n :: u8) = unat n mod 256" using unat_byte [of 0 n] by simp
  moreover have "unat n div 256 mod 256 = unat n div 256" using unat_u16 [of n] by (simp add: less_mult_imp_div_less)
  ultimately show ?thesis by (simp add: net16_def unat_byte unat_htons)
qed

lemma add_addr_rep:
  assumes "unat acc + 131070 < 2 ^ 32"
  shows "unat (add_addr a acc) \<le> unat acc + 131070 \<and> rep (unat (add_addr a acc)) (unat acc + unat a)"
proof -
  have h: "unat (drop_bit 16 a) = unat a div 65536" by (simp add: unat_drop_bit_eq drop_bit_eq_div [of 16 "unat a"])
  have d: "unat a div 65536 < 65536" using unsigned_less [of a, where ?'a = nat] by (simp add: less_mult_imp_div_less)
  have m: "unat a mod 65536 < 65536" by simp
  have "unat (drop_bit 16 a AND 0xFFFF) = unat a div 65536" using unat_and_ffff [of "drop_bit 16 a"] h d by simp
  then have u: "unat (add_addr a acc) = unat acc + (unat a mod 65536 + unat a div 65536)"
    using unat_and_ffff [of a] assms d m by (simp add: add_addr_def unat_word_ariths)
  have "rep (unat a mod 65536 + unat a div 65536) (unat a)" using rep_fold [of "unat a"] by (simp add: add.commute)
  then show ?thesis using u d m rep_add [OF rep_refl] by simp
qed

lemma add_proto_eq:
  assumes "unat acc \<le> 65535" "rep (unat acc) X"
  shows "add_proto proto proto_len acc = NOT (of_nat (oc (X + 256 * unat proto + unat (lwip_htons proto_len))))"
proof -
  define acc1 where "acc1 = acc + ucast (lwip_htons (ucast proto)) + ucast (lwip_htons proto_len)"
  have p: "unat (lwip_htons (ucast proto)) = 256 * unat proto" using unat_u8 [of proto] by (simp add: unat_htons)
  have u: "unat acc1 = unat acc + 256 * unat proto + unat (lwip_htons proto_len)"
    using assms(1) p unat_u8 [of proto] unat_u16 [of "lwip_htons proto_len"] by (simp add: acc1_def unat_word_ariths)
  have "rep (unat acc1) (X + 256 * unat proto + unat (lwip_htons proto_len))" unfolding u by (intro rep_add assms(2)) simp_all
  then have "rep (unat (FOLD_U32T (FOLD_U32T acc1))) (X + 256 * unat proto + unat (lwip_htons proto_len))" using fold_fold rep_trans by blast
  then show ?thesis unfolding add_proto_def acc1_def [symmetric] Let_def using fold_fold by (intro not_sum) blast+
qed

lemma pseudo_base_eq:
  assumes "chain_small p" "unat acc \<le> 65535" "rep (unat acc) X"
  shows "inet_cksum_pseudo_base p proto proto_len acc = NOT (of_nat (oc (X + le_num (chain_bytes p) + 256 * unat proto + unat (lwip_htons proto_len))))"
proof -
  have "rep (unat (unswap (chain_loop p False acc))) (X + le_num (chain_bytes p))"
    using chain_sum [OF assms(2) chain_small_le [OF assms(1)]] rep_trans rep_add [OF assms(3) rep_refl] by blast
  then show ?thesis unfolding inet_cksum_pseudo_base_def using chain_sum [OF assms(2) chain_small_le [OF assms(1)]] by (intro add_proto_eq) blast+
qed

lemma oc_cong: "rep m n \<Longrightarrow> oc m = oc n"
  using rep_unique oc_rep rep_trans by blast

lemma addr_acc: "rep (unat (FOLD_U32T (FOLD_U32T (add_addr dest (add_addr src 0))))) (unat src + unat dest) \<and> unat (FOLD_U32T (FOLD_U32T (add_addr dest (add_addr src 0)))) \<le> 65535"
proof -
  have 1: "unat (add_addr src 0) \<le> 131070" "rep (unat (add_addr src 0)) (unat src)" using add_addr_rep [of 0 src] by simp_all
  have "rep (unat (add_addr dest (add_addr src 0))) (unat (add_addr src 0) + unat dest)" using 1(1) add_addr_rep [of "add_addr src 0" dest] by simp
  then have "rep (unat (add_addr dest (add_addr src 0))) (unat src + unat dest)" using rep_trans [OF _ rep_add [OF 1(2) rep_refl]] by blast
  then show ?thesis using fold_fold rep_trans by blast
qed

lemma header_num: "rep (le_num (pseudo_header src dest proto proto_len @ bs)) (unat src + unat dest + le_num bs + 256 * unat proto + unat (lwip_htons proto_len))"
proof -
  let ?h = "[0, proto] :: u8 list"
  have e: "rep (le_num (as @ bs)) (le_num as + le_num bs)" if "even (length as)" for as bs using le_num_append [of as bs] that by simp
  have 1: "rep (le_num (net16 proto_len @ bs)) (unat (lwip_htons proto_len) + le_num bs)" using e [of "net16 proto_len" bs] by (simp add: le_num_net16) (simp add: net16_def)
  have 2: "rep (le_num (?h @ net16 proto_len @ bs)) (256 * unat proto + (unat (lwip_htons proto_len) + le_num bs))"
    using rep_trans [OF e [of ?h "net16 proto_len @ bs"] rep_add [OF rep_refl 1]] by simp
  have 3: "rep (le_num (mem32 dest @ ?h @ net16 proto_len @ bs)) (unat dest + (256 * unat proto + (unat (lwip_htons proto_len) + le_num bs)))"
    using rep_trans [OF e [of "mem32 dest"] rep_add [OF rep_refl 2]] by (simp add: le_num_mem32) (simp add: mem32_def)
  have "rep (le_num (mem32 src @ mem32 dest @ ?h @ net16 proto_len @ bs)) (unat src + (unat dest + (256 * unat proto + (unat (lwip_htons proto_len) + le_num bs))))"
    using rep_trans [OF e [of "mem32 src"] rep_add [OF rep_refl 3]] by (simp add: le_num_mem32) (simp add: mem32_def)
  then show ?thesis by (simp add: pseudo_header_def algebra_simps)
qed

text \<open>
  C31. The checksum of a segment with its pseudo header, which is computed without building the header, is the checksum of a chain whose first buffer has the twelve
  bytes of the header: the addresses, a zero byte, the protocol, and the length in network order.\<close>

theorem pseudo_checksum:
  assumes "chain_small p"
  shows "inet_chksum_pseudo p proto proto_len src dest = inet_chksum_pbuf ((a, pseudo_header src dest proto proto_len) # p)"
proof -
  have "chain_small ((a, pseudo_header src dest proto proto_len) # p)" using assms by (simp add: chain_small_def pseudo_header_def mem32_def net16_def)
  from chksum_pbuf_eq [OF this] have "inet_chksum_pbuf ((a, pseudo_header src dest proto proto_len) # p) =
      NOT (of_nat (oc (unat src + unat dest + le_num (chain_bytes p) + 256 * unat proto + unat (lwip_htons proto_len))))"
    using oc_cong [OF header_num [of src dest proto proto_len "chain_bytes p"]] by (simp add: chain_bytes_def)
  moreover have "inet_chksum_pseudo p proto proto_len src dest = NOT (of_nat (oc (unat src + unat dest + le_num (chain_bytes p) + 256 * unat proto + unat (lwip_htons proto_len))))"
    unfolding inet_chksum_pseudo_def using addr_acc [of dest src] by (intro pseudo_base_eq [OF assms]) blast+
  ultimately show ?thesis by simp
qed

theorem pseudo_checksum_witness:
  "inet_chksum_pseudo [(3, [0x12, 0x34, 0x56])] 17 3 0x0100A8C0 0x0200A8C0 =
   inet_chksum_pbuf [(0, [0xC0, 0xA8, 0x00, 0x01, 0xC0, 0xA8, 0x00, 0x02, 0, 17, 0, 3]), (3, [0x12, 0x34, 0x56])]"
proof -
  have "pseudo_header 0x0100A8C0 0x0200A8C0 17 3 = [0xC0, 0xA8, 0x00, 0x01, 0xC0, 0xA8, 0x00, 0x02, 0, 17, 0, 3]" by (simp add: pseudo_header_def mem32_def net16_def)
  then show ?thesis using pseudo_checksum [of "[(3, [0x12, 0x34, 0x56])]" 17 3 "0x0100A8C0" "0x0200A8C0" 0] by (simp add: chain_small_def)
qed

section \<open>Checking\<close>

lemma unat_not: "unat (NOT x) = 65535 - unat x" for x :: u16
proof -
  have "NOT x = - 1 - x" by (simp add: not_eq_complement)
  moreover have "unat (- 1 - x) = unat (- 1 :: u16) - unat x" by (rule unat_sub) simp
  moreover have "unat (- 1 :: u16) = 65535" by (simp add: unsigned_minus_1_eq_mask mask_eq_exp_minus_1)
  ultimately show ?thesis by simp
qed

lemma oc_zero: "oc 0 = 0"
  by (simp add: oc_def)

lemma rep_oc_add: "rep (n + k) (oc n + k)" if "k = 65535 - oc n"
proof (cases "n = 0")
  case False
  then have "oc n \<noteq> 0" using oc_rep(1) [of n] by (auto simp: rep_def)
  moreover have "(n + k) mod 65535 = (oc n + k) mod 65535" using oc_rep(1) [of n] by (intro mod_add_cong) (simp_all add: rep_def)
  ultimately show ?thesis using False by (simp add: rep_def)
qed (simp add: oc_zero)

text \<open>
  C32. What the sender puts into the packet, the receiver accepts: with the checksum stored over a field of two zero bytes at an even offset, the checksum of the whole
  is 0, for every content of the packet.\<close>

theorem checksum_accepted:
  assumes "even (length xs)" "length xs + length ys + 2 \<le> 0x20000" "c = inet_chksum a (xs @ [0, 0] @ ys)"
  shows "inet_chksum a' (xs @ [ucast c, ucast (drop_bit 8 c)] @ ys) = 0"
proof -
  let ?n = "le_num xs + le_num ys"
  have e: "rep (le_num (as @ bs)) (le_num as + le_num bs)" if "even (length as)" for as bs using le_num_append [of as bs] that by simp
  have sp: "rep (le_num (xs @ [u, v] @ ys)) (le_num xs + (unat u + 256 * unat v + le_num ys))" for u v
    using rep_trans [OF e [OF assms(1)] rep_add [OF rep_refl e [of "[u, v]" ys]]] by simp
  have c: "unat c = 65535 - oc ?n"
  proof -
    have "c = NOT (of_nat (oc ?n))" using inet_chksum_eq [of "xs @ [0, 0] @ ys" a] assms(2,3) oc_cong [OF sp [of 0 0]] by simp
    then show ?thesis using oc_rep(2) [of ?n] by (simp add: unat_not unat_of_nat)
  qed
  have b: "unat (ucast c :: u8) + 256 * unat (ucast (drop_bit 8 c) :: u8) = unat c"
  proof -
    have "unat c div 256 mod 256 = unat c div 256" using unat_u16 [of c] by (simp add: less_mult_imp_div_less)
    then show ?thesis using unat_byte [of 0 c] unat_byte [of 8 c] by (simp add: mod_mult_div_eq)
  qed
  have "rep (le_num xs + (unat c + le_num ys)) 65535"
  proof -
    have "le_num xs + (unat c + le_num ys) = ?n + (65535 - oc ?n)" using c by simp
    moreover have "rep (?n + (65535 - oc ?n)) (oc ?n + (65535 - oc ?n))" by (rule rep_oc_add) simp
    ultimately show ?thesis using oc_rep(2) [of ?n] by simp
  qed
  then have "oc (le_num (xs @ [ucast c, ucast (drop_bit 8 c)] @ ys)) = 65535" using rep_trans [OF sp [of "ucast c" "ucast (drop_bit 8 c)"]] b rep_oc by (metis order_refl rep_sym)
  then show ?thesis using inet_chksum_eq [of "xs @ [ucast c, ucast (drop_bit 8 c)] @ ys" a'] assms(2) by simp
qed

theorem checksum_accepted_witness:
  "inet_chksum 1 ([0x45, 0x00] @ [ucast (inet_chksum 0 ([0x45, 0x00] @ [0, 0] @ [0x11])), ucast (drop_bit 8 (inet_chksum 0 ([0x45, 0x00] @ [0, 0] @ [0x11])))] @ [0x11]) = 0"
  by (rule checksum_accepted [OF _ _ refl]) simp_all

section \<open>Partial checksums\<close>

lemma partial_len:
  assumes "length bs \<le> 0xFFFF" "c = (if of_nat (length bs) > n then n else of_nat (length bs) :: u16)"
  shows "unat c = min (length bs) (unat n)" "unat (n - c) = unat n - length bs" "take (unat c) bs = take (unat n) bs"
proof -
  have l: "unat (of_nat (length bs) :: u16) = length bs" using assms(1) by (simp add: unat_of_nat)
  show 1: "unat c = min (length bs) (unat n)" using l assms(2) by (auto simp: word_less_nat_alt)
  have "c \<le> n" using 1 by (simp add: word_le_nat_alt)
  then show "unat (n - c) = unat n - length bs" using 1 by (simp add: unat_sub)
  show "take (unat c) bs = take (unat n) bs" using 1 by (simp add: min_def)
qed

lemma partial_loop_rep:
  "acc_for acc s X \<Longrightarrow> chain_small p \<Longrightarrow> unat n < 0x7FFF \<Longrightarrow>
    \<exists>s' acc'. partial_loop p n s acc = Some (s', acc') \<and> acc_for acc' s' (X + swf s * le_num (take (unat n) (chain_bytes p)))"
proof (induction p arbitrary: s acc X n)
  case (Cons q p)
  obtain a bs where q: "q = (a, bs)" by fastforce
  show ?case
  proof (cases "n = 0")
    case False
    define c where "c = (if of_nat (length bs) > n then n else of_nat (length bs) :: u16)"
    have bs: "length bs \<le> 0xFFFF" using Cons.prems(2) by (simp add: q chain_small_def)
    note c = partial_len [OF bs c_def]
    let ?t = "take (unat n) bs" and ?r = "take (unat n - length bs) (chain_bytes p)"
    define acc1 where "acc1 = (if length bs mod 2 \<noteq> 0 then SWAP_BYTES_IN_WORD (add_block a ?t acc) else add_block a ?t acc)"
    have 1: "acc_for acc1 (s \<noteq> odd (length bs)) (X + swf s * le_num ?t)" unfolding acc1_def using bs by (intro next_block_rep Cons.prems(1)) simp
    have "unat (n - c) < 0x7FFF" using c(2) Cons.prems(3) by simp
    moreover have "n - c < 0x7FFF" using calculation by (simp add: word_less_nat_alt)
    ultimately have st: "partial_loop (q # p) n s acc = partial_loop p (n - c) (s \<noteq> odd (length bs)) acc1" and le: "unat (n - c) < 0x7FFF"
      using False by (auto simp: q acc1_def add_block_def odd_iff_mod_2_eq_one c_def [symmetric] c(3) Let_def)
    from Cons.IH [OF 1 _ le] Cons.prems(2) obtain s' acc' where
      r: "partial_loop p (n - c) (s \<noteq> odd (length bs)) acc1 = Some (s', acc')" "acc_for acc' s' (X + swf s * le_num ?t + swf (s \<noteq> odd (length bs)) * le_num ?r)"
      by (auto simp: chain_small_def c(2))
    have "rep (X + swf s * le_num ?t + swf (s \<noteq> odd (length bs)) * le_num ?r) (X + swf s * le_num (?t @ ?r))"
      using sum_append [of X s ?t ?r] by (cases "length bs \<le> unat n") simp_all
    from acc_for_rep [OF r(2) this] show ?thesis using st r(1) by (simp add: q chain_bytes_def)
  qed (use Cons.prems(1) in \<open>auto simp: q\<close>)
qed (auto simp: chain_bytes_def)

lemma partial_base_eq:
  assumes "chain_small p" "unat n < 0x7FFF" "unat acc \<le> 65535" "rep (unat acc) X"
  shows "inet_cksum_pseudo_partial_base p proto proto_len n acc =
    Some (NOT (of_nat (oc (X + le_num (take (unat n) (chain_bytes p)) + 256 * unat proto + unat (lwip_htons proto_len)))))"
proof -
  have "acc_for acc False (unat acc)" using assms(3) by (simp add: acc_for_def swf_def)
  from partial_loop_rep [OF this assms(1,2)] obtain s' acc' where
    r: "partial_loop p n False acc = Some (s', acc')" "acc_for acc' s' (unat acc + le_num (take (unat n) (chain_bytes p)))" by (auto simp: swf_def)
  have "rep (unat (unswap (s', acc'))) (X + le_num (take (unat n) (chain_bytes p)))" "unat (unswap (s', acc')) \<le> 65535"
    using unswap_rep [OF r(2)] rep_trans [OF _ rep_add [OF assms(4) rep_refl]] by auto
  then show ?thesis using r(1) by (simp add: inet_cksum_pseudo_partial_base_def add_proto_eq)
qed

text \<open>
  A checksum over only the first bytes of a segment, fewer than 32767 as the assertion in the loop wants it, is that of the pseudo header and these bytes, also
  where the last byte lies within a buffer of the chain.\<close>

theorem partial_checksum:
  assumes "chain_small p" "unat n < 0x7FFF"
  shows "inet_chksum_pseudo_partial p proto proto_len n src dest =
    Some (inet_chksum_pbuf [(a, pseudo_header src dest proto proto_len), (b, take (unat n) (chain_bytes p))])"
proof -
  let ?q = "[(a, pseudo_header src dest proto proto_len), (b, take (unat n) (chain_bytes p))]"
  let ?x = "unat src + unat dest + le_num (take (unat n) (chain_bytes p)) + 256 * unat proto + unat (lwip_htons proto_len)"
  have "chain_small ?q" using assms(2) by (auto simp: chain_small_def pseudo_header_def mem32_def net16_def)
  from chksum_pbuf_eq [OF this] have "inet_chksum_pbuf ?q = NOT (of_nat (oc ?x))"
    using oc_cong [OF header_num [of src dest proto proto_len "take (unat n) (chain_bytes p)"]] by (simp add: chain_bytes_def)
  moreover have "inet_chksum_pseudo_partial p proto proto_len n src dest = Some (NOT (of_nat (oc ?x)))"
    unfolding inet_chksum_pseudo_partial_def using addr_acc [of dest src] by (intro partial_base_eq [OF assms]) blast+
  ultimately show ?thesis by simp
qed

theorem partial_checksum_witness:
  "inet_chksum_pseudo_partial [(3, [0x12]), (4, [0x34, 0x56, 0x78])] 17 4 2 0x0100A8C0 0x0200A8C0 =
   Some (inet_chksum_pbuf [(0, [0xC0, 0xA8, 0x00, 0x01, 0xC0, 0xA8, 0x00, 0x02, 0, 17, 0, 4]), (0, [0x12, 0x34])])"
proof -
  have "pseudo_header 0x0100A8C0 0x0200A8C0 17 4 = [0xC0, 0xA8, 0x00, 0x01, 0xC0, 0xA8, 0x00, 0x02, 0, 17, 0, 4]" by (simp add: pseudo_header_def mem32_def net16_def)
  then show ?thesis using partial_checksum [of "[(3, [0x12]), (4, [0x34, 0x56, 0x78])]" 2 17 4 "0x0100A8C0" "0x0200A8C0" 0 0] by (simp add: chain_small_def chain_bytes_def)
qed

lemma partial_checksum_refused:
  assumes "n \<ge> 0x7FFF"
  shows "inet_chksum_pseudo_partial ((a, []) # p) proto proto_len n src dest = None"
proof -
  have "\<not> n < 0x7FFF" "n \<noteq> 0" using assms by (auto simp: not_less)
  then show ?thesis by (simp add: inet_chksum_pseudo_partial_def inet_cksum_pseudo_partial_base_def Let_def assert_c_def)
qed

section \<open>IPv6\<close>

text \<open>Its pseudo header has the length in four bytes before the protocol.\<close>

definition pseudo_header6 :: "u32 list \<Rightarrow> u32 list \<Rightarrow> u8 \<Rightarrow> u16 \<Rightarrow> u8 list" where
  "pseudo_header6 src dest proto proto_len = concat (map mem32 (src @ dest)) @ [0, 0] @ net16 proto_len @ [0, 0, 0, proto]"

lemma le_num_even: "even (length as) \<Longrightarrow> rep (le_num (as @ bs)) (le_num as + le_num bs)"
  using le_num_append [of as bs] by simp

lemma le_num_words: "rep (le_num (concat (map mem32 ws) @ bs)) (sum_list (map unat ws) + le_num bs)"
proof (induction ws)
  case (Cons w ws)
  have "rep (le_num (mem32 w @ concat (map mem32 ws) @ bs)) (unat w + le_num (concat (map mem32 ws) @ bs))"
    using le_num_even [of "mem32 w"] by (simp add: le_num_mem32) (simp add: mem32_def)
  from rep_trans [OF this rep_add [OF rep_refl Cons]] show ?case by (simp add: add.assoc)
qed simp

lemma ip6_fold:
  "length ps \<le> n \<Longrightarrow> unat acc + 262140 * n < 2 ^ 32 \<Longrightarrow>
    rep (unat (fold (\<lambda>(s, d) acc. add_addr d (add_addr s acc)) ps acc)) (unat acc + sum_list (map (\<lambda>(s, d). unat s + unat d) ps))"
proof (induction ps arbitrary: acc n)
  case (Cons q ps)
  obtain s d where q: "q = (s, d)" by fastforce
  obtain k where k: "n = Suc k" using Cons.prems(1) by (cases n) simp_all
  let ?b = "add_addr s acc" and ?S = "sum_list (map (\<lambda>(s, d). unat s + unat d) ps)"
  have 1: "unat ?b \<le> unat acc + 131070" "rep (unat ?b) (unat acc + unat s)" using add_addr_rep [of acc s] Cons.prems(2) k by simp_all
  have 2: "unat (add_addr d ?b) \<le> unat acc + 262140" "rep (unat (add_addr d ?b)) (unat ?b + unat d)" using add_addr_rep [of ?b d] Cons.prems(2) k 1(1) by simp_all
  have "rep (unat (add_addr d ?b)) (unat acc + unat s + unat d)" using rep_trans [OF 2(2) rep_add [OF 1(2) rep_refl]] .
  from rep_add [OF this rep_refl [of ?S]] Cons.IH [of k "add_addr d ?b"] Cons.prems k 2(1) rep_trans show ?case by (auto simp: q add.assoc)
qed simp

text \<open>The sum over the four words of both addresses, and the checksum.\<close>

lemma ip6_acc_rep:
  assumes "length src = 4" "length dest = 4"
  shows "unat (ip6_acc src dest) \<le> 65535 \<and> rep (unat (ip6_acc src dest)) (sum_list (map unat (src @ dest)))"
proof -
  have "sum_list (map (\<lambda>(s, d). unat s + unat d) (zip src dest)) = sum_list (map unat (src @ dest))"
    using assms by (auto simp: length_Suc_conv numeral_eq_Suc)
  then show ?thesis unfolding ip6_acc_def using ip6_fold [of "zip src dest" 4 0] assms fold_fold rep_trans by simp blast
qed

text \<open>
  The checksum for IPv6, too, is that of a chain with the pseudo header in front.\<close>

lemma ip6_pseudo_checksum:
  assumes "chain_small p" "length src = 4" "length dest = 4"
  shows "ip6_chksum_pseudo p proto proto_len src dest = inet_chksum_pbuf ((a, pseudo_header6 src dest proto proto_len) # p)"
proof -
  let ?h = "pseudo_header6 src dest proto proto_len" and ?b = "chain_bytes p"
  let ?x = "sum_list (map unat (src @ dest)) + le_num ?b + 256 * unat proto + unat (lwip_htons proto_len)"
  have 1: "rep (le_num (net16 proto_len @ [0, 0, 0, proto] @ ?b)) (unat (lwip_htons proto_len) + le_num ([0, 0, 0, proto] @ ?b))"
    using le_num_even [of "net16 proto_len" "[0, 0, 0, proto] @ ?b"] unfolding le_num_net16 by (simp add: net16_def)
  have "rep (le_num ([0, 0, 0, proto] @ ?b)) (256 * unat proto + le_num ?b)"
    using rep_trans [OF le_num_even [of "[0, 0]" "[0, proto] @ ?b"] rep_add [OF rep_refl le_num_even [of "[0, proto]" ?b]]] by simp
  from rep_trans [OF 1 rep_add [OF rep_refl this]] have "rep (le_num ([0, 0] @ net16 proto_len @ [0, 0, 0, proto] @ ?b)) (unat (lwip_htons proto_len) + (256 * unat proto + le_num ?b))"
    using rep_trans [OF le_num_even [of "[0, 0]" "net16 proto_len @ [0, 0, 0, proto] @ ?b"]] by simp
  from rep_trans [OF le_num_words [of "src @ dest"] rep_add [OF rep_refl this]] have "rep (le_num (?h @ ?b)) ?x" by (simp add: pseudo_header6_def ac_simps)
  moreover have "length ?h = 40" using assms(2,3) by (auto simp: pseudo_header6_def mem32_def net16_def length_Suc_conv numeral_eq_Suc)
  ultimately have "inet_chksum_pbuf ((a, ?h) # p) = NOT (of_nat (oc ?x))"
    using chksum_pbuf_eq [of "(a, ?h) # p"] assms(1) oc_cong by (simp add: chain_small_def chain_bytes_def)
  moreover have "ip6_chksum_pseudo p proto proto_len src dest = NOT (of_nat (oc ?x))"
    unfolding ip6_chksum_pseudo_def using ip6_acc_rep [OF assms(2,3)] by (intro pseudo_base_eq [OF assms(1)]) blast+
  ultimately show ?thesis by simp
qed

end
