(* ===== verification/Pbuf.thy ===== *)
theory Pbuf
  imports InetChksum
begin

text \<open>
  Packet buffers of lwIP: \<^verbatim>\<open>core/pbuf.c\<close>. The structures are a store by address, the bytes of memory another one; a structure and the data behind it
  are one chunk from the heap or a pool, whose source and size are recorded. The answers of the allocators (\<^verbatim>\<open>core/memp.c\<close>, \<^verbatim>\<open>core/mem.c\<close>), what is in
  new memory, the size that trimming a chunk gives, the function that frees a custom buffer, and whether a callback can be queued are the environment.
  Addresses are natural numbers. \<^term>\<open>None\<close> is a failed assertion, an access outside memory, a pointer moved below address 0, or a loop that does not end.
\<close>

section \<open>Data\<close>

type_synonym addr = nat

record pbuf =
  p_next :: "addr option"
  payload :: addr
  tot_len :: u16
  p_len :: u16
  type_internal :: u8
  p_flags :: u8
  p_ref :: u8
  if_idx :: u8

record pstate =
  pbufs :: "addr \<Rightarrow> pbuf option"
  bytes :: "addr \<Rightarrow> u8 option"
  chunks :: "addr \<Rightarrow> (u8 \<times> nat) option"
  ooseq_pending :: bool
  ooseq_calls :: nat

record penv =
  answer :: "u8 \<Rightarrow> nat \<Rightarrow> pstate \<Rightarrow> addr option"
  junk :: "addr \<Rightarrow> u8"
  pool_bufsize :: u32
  trimmed :: "nat \<Rightarrow> nat \<Rightarrow> nat"
  custom_free :: "addr \<Rightarrow> pstate \<Rightarrow> pstate option"
  try_callback :: "pstate \<Rightarrow> bool"

datatype err_t = ERR_OK | ERR_MEM | ERR_VAL | ERR_ARG

definition PBUF_RAM :: u16 where "PBUF_RAM = 0x0280"

definition PBUF_ROM :: u16 where "PBUF_ROM = 0x0001"

definition PBUF_REF :: u16 where "PBUF_REF = 0x0041"

definition PBUF_POOL :: u16 where "PBUF_POOL = 0x0182"

text \<open>The sources of memory: 0 is the heap, 1 the pool of structures, 2 the pool of buffers.\<close>

definition pbuf_get_allocsrc :: "pbuf \<Rightarrow> u8" where
  "pbuf_get_allocsrc b = type_internal b AND 0x0F"

definition is_custom :: "pbuf \<Rightarrow> bool" where
  "is_custom b \<longleftrightarrow> p_flags b AND 0x02 \<noteq> 0"

definition SIZEOF_STRUCT_PBUF :: nat where "SIZEOF_STRUCT_PBUF = 16"

definition LWIP_MEM_ALIGN_SIZE :: "u32 \<Rightarrow> u32" where
  "LWIP_MEM_ALIGN_SIZE n = (n + 3) AND NOT 3"

definition LWIP_MEM_ALIGN :: "addr \<Rightarrow> addr" where
  "LWIP_MEM_ALIGN a = (a + 3) div 4 * 4"

section \<open>Memory\<close>

definition upd :: "addr \<Rightarrow> (pbuf \<Rightarrow> pbuf) \<Rightarrow> pstate \<Rightarrow> pstate option" where
  "upd p f s = (case pbufs s p of None \<Rightarrow> None | Some b \<Rightarrow> Some (s\<lparr>pbufs := (pbufs s)(p \<mapsto> f b)\<rparr>))"

fun rd_bytes :: "addr \<Rightarrow> nat \<Rightarrow> pstate \<Rightarrow> u8 list option" where
  "rd_bytes a 0 s = Some []"
| "rd_bytes a (Suc n) s = do { x \<leftarrow> bytes s a; xs \<leftarrow> rd_bytes (Suc a) n s; Some (x # xs) }"

fun wr_bytes :: "addr \<Rightarrow> u8 list \<Rightarrow> pstate \<Rightarrow> pstate option" where
  "wr_bytes a [] s = Some s"
| "wr_bytes a (x # xs) s = (case bytes s a of None \<Rightarrow> None | Some _ \<Rightarrow> wr_bytes (Suc a) xs (s\<lparr>bytes := (bytes s)(a \<mapsto> x)\<rparr>))"

definition new_chunk :: "penv \<Rightarrow> u8 \<Rightarrow> nat \<Rightarrow> pstate \<Rightarrow> addr option \<times> pstate" where
  "new_chunk E src n s =
     (case answer E src n s of
        None \<Rightarrow> (None, s)
      | Some p \<Rightarrow> (Some p, s\<lparr>chunks := (chunks s)(p \<mapsto> (src, n)),
          bytes := (\<lambda>a. if p + SIZEOF_STRUCT_PBUF \<le> a \<and> a < p + n then Some (junk E a) else bytes s a)\<rparr>))"

definition free_chunk :: "u8 \<Rightarrow> addr \<Rightarrow> pstate \<Rightarrow> pstate option" where
  "free_chunk src p s =
     (case chunks s p of
        None \<Rightarrow> None
      | Some (k, n) \<Rightarrow>
          if k \<noteq> src then None
          else Some (s\<lparr>chunks := (chunks s)(p := None), pbufs := (pbufs s)(p := None),
            bytes := (\<lambda>a. if p + SIZEOF_STRUCT_PBUF \<le> a \<and> a < p + n then None else bytes s a)\<rparr>))"

definition mem_trim :: "penv \<Rightarrow> addr \<Rightarrow> nat \<Rightarrow> pstate \<Rightarrow> pstate option" where
  "mem_trim E p wanted s =
     (case chunks s p of
        None \<Rightarrow> None
      | Some (k, n) \<Rightarrow>
          if k \<noteq> 0 \<or> n < wanted then None
          else Some (s\<lparr>chunks := (chunks s)(p \<mapsto> (k, trimmed E n wanted)),
            bytes := (\<lambda>a. if p + trimmed E n wanted \<le> a \<and> a < p + n then None else bytes s a)\<rparr>))"

section \<open>Allocation\<close>

definition pbuf_init_alloced_pbuf :: "addr \<Rightarrow> addr \<Rightarrow> u16 \<Rightarrow> u16 \<Rightarrow> u16 \<Rightarrow> u8 \<Rightarrow> pstate \<Rightarrow> pstate" where
  "pbuf_init_alloced_pbuf p pl tot n type flags s =
     s\<lparr>pbufs := (pbufs s)(p \<mapsto> \<lparr>p_next = None, payload = pl, tot_len = tot, p_len = n, type_internal = ucast type, p_flags = flags, p_ref = 1, if_idx = 0\<rparr>)\<rparr>"

definition pbuf_pool_is_empty :: "penv \<Rightarrow> pstate \<Rightarrow> pstate" where
  "pbuf_pool_is_empty E s =
     (if ooseq_pending s then s
      else let s1 = s\<lparr>ooseq_pending := True\<rparr>
        in if try_callback E s1 then s1\<lparr>ooseq_calls := ooseq_calls s1 + 1\<rparr> else s1\<lparr>ooseq_pending := False\<rparr>)"

definition release :: "penv \<Rightarrow> addr \<Rightarrow> pbuf \<Rightarrow> pstate \<Rightarrow> pstate option" where
  "release E p b s =
     (if is_custom b then custom_free E p s
      else if pbuf_get_allocsrc b = 2 then free_chunk 2 p s
      else if pbuf_get_allocsrc b = 1 then free_chunk 1 p s
      else if pbuf_get_allocsrc b = 0 then free_chunk 0 p s
      else None)"

partial_function (option) free_loop :: "penv \<Rightarrow> addr option \<Rightarrow> u8 \<Rightarrow> pstate \<Rightarrow> (u8 \<times> pstate) option" where
  "free_loop E po count s =
     (case po of
        None \<Rightarrow> Some (count, s)
      | Some p \<Rightarrow> do {
          b \<leftarrow> pbufs s p;
          assert_c (p_ref b > 0);
          s1 \<leftarrow> upd p (p_ref_update (\<lambda>_. p_ref b - 1)) s;
          if p_ref b - 1 = 0
          then do { s2 \<leftarrow> release E p b s1; free_loop E (p_next b) (count + 1) s2 }
          else Some (count, s1) })"

definition pbuf_free :: "penv \<Rightarrow> addr option \<Rightarrow> pstate \<Rightarrow> (u8 \<times> pstate) option" where
  "pbuf_free E po s = do { assert_c (po \<noteq> None); free_loop E po 0 s }"

partial_function (option) pool_loop :: "penv \<Rightarrow> u16 \<Rightarrow> u16 \<Rightarrow> (addr \<times> addr) option \<Rightarrow> pstate \<Rightarrow> (addr option \<times> pstate) option" where
  "pool_loop E rem_len offset ends s =
     (case new_chunk E 2 (SIZEOF_STRUCT_PBUF + unat (pool_bufsize E)) s of
        (None, s1) \<Rightarrow> do {
          let s2 = pbuf_pool_is_empty E s1;
          s3 \<leftarrow> (case ends of None \<Rightarrow> Some s2 | Some (p, _) \<Rightarrow> map_option snd (pbuf_free E (Some p) s2));
          Some (None, s3) }
      | (Some q, s1) \<Rightarrow> do {
          let room = pool_bufsize E - LWIP_MEM_ALIGN_SIZE (ucast offset);
          let qlen = min rem_len (ucast room);
          let pl = LWIP_MEM_ALIGN (q + SIZEOF_STRUCT_PBUF + unat offset);
          let s2 = pbuf_init_alloced_pbuf q pl rem_len qlen PBUF_POOL 0 s1;
          assert_c (pl mod 4 = 0);
          assert_c (room > 0);
          s3 \<leftarrow> (case ends of None \<Rightarrow> Some s2 | Some (_, l) \<Rightarrow> upd l (p_next_update (\<lambda>_. Some q)) s2);
          let p = (case ends of None \<Rightarrow> q | Some (p, _) \<Rightarrow> p);
          if rem_len - qlen > 0 then pool_loop E (rem_len - qlen) 0 (Some (p, q)) s3
          else Some (Some p, s3) })"

definition pbuf_alloc_reference :: "penv \<Rightarrow> addr \<Rightarrow> u16 \<Rightarrow> u16 \<Rightarrow> pstate \<Rightarrow> (addr option \<times> pstate) option" where
  "pbuf_alloc_reference E pl n type s = do {
     assert_c (type = PBUF_REF \<or> type = PBUF_ROM);
     (case new_chunk E 1 SIZEOF_STRUCT_PBUF s of
        (None, s1) \<Rightarrow> Some (None, s1)
      | (Some p, s1) \<Rightarrow> Some (Some p, pbuf_init_alloced_pbuf p pl n n type 0 s1)) }"

text \<open>Sizes on the heap have 16 bits, for a heap of 1600 bytes. The assertion that the payload is aligned is left out: \<^verbatim>\<open>LWIP_MEM_ALIGN\<close> gives an aligned address.\<close>

definition alloc_ram :: "penv \<Rightarrow> u16 \<Rightarrow> u16 \<Rightarrow> pstate \<Rightarrow> addr option \<times> pstate" where
  "alloc_ram E offset n s =
     (let payload_len = ucast (LWIP_MEM_ALIGN_SIZE (ucast offset) + LWIP_MEM_ALIGN_SIZE (ucast n)) :: u16;
          alloc_len = ucast (LWIP_MEM_ALIGN_SIZE (of_nat SIZEOF_STRUCT_PBUF) + ucast payload_len) :: u16
      in if ucast payload_len < LWIP_MEM_ALIGN_SIZE (ucast n) \<or> ucast alloc_len < LWIP_MEM_ALIGN_SIZE (ucast n) then (None, s)
         else case new_chunk E 0 (unat alloc_len) s of
             (None, s1) \<Rightarrow> (None, s1)
           | (Some p, s1) \<Rightarrow> (Some p, pbuf_init_alloced_pbuf p (LWIP_MEM_ALIGN (p + SIZEOF_STRUCT_PBUF + unat offset)) n n PBUF_RAM 0 s1))"

definition pbuf_alloc :: "penv \<Rightarrow> u16 \<Rightarrow> u16 \<Rightarrow> u16 \<Rightarrow> pstate \<Rightarrow> (addr option \<times> pstate) option" where
  "pbuf_alloc E layer n type s =
     (if type = PBUF_REF \<or> type = PBUF_ROM then pbuf_alloc_reference E 0 n type s
      else if type = PBUF_POOL then pool_loop E n layer None s
      else if type = PBUF_RAM then Some (alloc_ram E layer n s)
      else None)"

text \<open>The caller gives the structure at \<open>p\<close>, and memory for the data or none.\<close>

definition pbuf_alloced_custom :: "u16 \<Rightarrow> u16 \<Rightarrow> u16 \<Rightarrow> addr \<Rightarrow> addr \<Rightarrow> u16 \<Rightarrow> pstate \<Rightarrow> addr option \<times> pstate" where
  "pbuf_alloced_custom l n type p payload_mem payload_mem_len s =
     (if LWIP_MEM_ALIGN_SIZE (ucast l) + ucast n > ucast payload_mem_len then (None, s)
      else let pl = (if payload_mem \<noteq> 0 then payload_mem + unat (LWIP_MEM_ALIGN_SIZE (ucast l)) else 0)
        in (Some p, pbuf_init_alloced_pbuf p pl n n type 0x02 s))"

section \<open>Lengths and headers\<close>

partial_function (option) realloc_loop :: "addr \<Rightarrow> u16 \<Rightarrow> u16 \<Rightarrow> pstate \<Rightarrow> (addr \<times> u16 \<times> pstate) option" where
  "realloc_loop q rem_len shrink s = do {
     b \<leftarrow> pbufs s q;
     if rem_len > p_len b
     then do {
       s1 \<leftarrow> upd q (tot_len_update (\<lambda>t. t - shrink)) s;
       q1 \<leftarrow> p_next b;
       realloc_loop q1 (rem_len - p_len b) shrink s1 }
     else Some (q, rem_len, s) }"

definition pbuf_realloc :: "penv \<Rightarrow> addr \<Rightarrow> u16 \<Rightarrow> pstate \<Rightarrow> pstate option" where
  "pbuf_realloc E p new_len s = do {
     b \<leftarrow> pbufs s p;
     if new_len \<ge> tot_len b then Some s
     else do {
       (q, rem_len, s1) \<leftarrow> realloc_loop p new_len (tot_len b - new_len) s;
       c \<leftarrow> pbufs s1 q;
       s2 \<leftarrow> (if pbuf_get_allocsrc c = 0 \<and> rem_len \<noteq> p_len c \<and> \<not> is_custom c
              then mem_trim E q ((payload c - q + unat rem_len) mod 2 ^ 16) s1 else Some s1);
       s3 \<leftarrow> upd q (\<lambda>d. d\<lparr>p_len := rem_len, tot_len := rem_len\<rparr>) s2;
       s4 \<leftarrow> (case p_next c of None \<Rightarrow> Some s3 | Some r \<Rightarrow> map_option snd (pbuf_free E (Some r) s3));
       upd q (p_next_update (\<lambda>_. None)) s4 } }"

text \<open>Header sizes have 32 bits. The result is 1 on failure.\<close>

definition pbuf_add_header_impl :: "addr \<Rightarrow> u32 \<Rightarrow> bool \<Rightarrow> pstate \<Rightarrow> (u8 \<times> pstate) option" where
  "pbuf_add_header_impl p inc force s = do {
     b \<leftarrow> pbufs s p;
     let mag = (ucast inc :: u16);
     if inc > 0xFFFF then Some (1, s)
     else if inc = 0 then Some (0, s)
     else if mag + tot_len b < mag then Some (1, s)
     else if type_internal b AND 0x80 = 0 \<and> \<not> force then Some (1, s)
     else do {
       assert_c (unat inc \<le> payload b);
       let pl = payload b - unat inc;
       if type_internal b AND 0x80 \<noteq> 0 \<and> pl < p + SIZEOF_STRUCT_PBUF then Some (1, s)
       else do {
         s1 \<leftarrow> upd p (\<lambda>b. b\<lparr>payload := pl, p_len := p_len b + mag, tot_len := tot_len b + mag\<rparr>) s;
         Some (0, s1) } } }"

definition pbuf_add_header :: "addr \<Rightarrow> u32 \<Rightarrow> pstate \<Rightarrow> (u8 \<times> pstate) option" where
  "pbuf_add_header p inc s = pbuf_add_header_impl p inc False s"

definition pbuf_add_header_force :: "addr \<Rightarrow> u32 \<Rightarrow> pstate \<Rightarrow> (u8 \<times> pstate) option" where
  "pbuf_add_header_force p inc s = pbuf_add_header_impl p inc True s"

definition pbuf_remove_header :: "addr \<Rightarrow> u32 \<Rightarrow> pstate \<Rightarrow> (u8 \<times> pstate) option" where
  "pbuf_remove_header p dec s = do {
     b \<leftarrow> pbufs s p;
     let mag = (ucast dec :: u16);
     if dec > 0xFFFF then Some (1, s)
     else if dec = 0 then Some (0, s)
     else if mag > p_len b then Some (1, s)
     else do {
       s1 \<leftarrow> upd p (\<lambda>b. b\<lparr>payload := payload b + unat dec, p_len := p_len b - mag, tot_len := tot_len b - mag\<rparr>) s;
       Some (0, s1) } }"

text \<open>The increment has 16 bits with a sign; its negation is computed with 32 bits.\<close>

definition pbuf_header_impl :: "addr \<Rightarrow> u16 \<Rightarrow> bool \<Rightarrow> pstate \<Rightarrow> (u8 \<times> pstate) option" where
  "pbuf_header_impl p inc force s =
     (if sint inc < 0 then pbuf_remove_header p (- scast inc) s
      else pbuf_add_header_impl p (ucast inc) force s)"

definition pbuf_header :: "addr \<Rightarrow> u16 \<Rightarrow> pstate \<Rightarrow> (u8 \<times> pstate) option" where
  "pbuf_header p inc s = pbuf_header_impl p inc False s"

definition pbuf_header_force :: "addr \<Rightarrow> u16 \<Rightarrow> pstate \<Rightarrow> (u8 \<times> pstate) option" where
  "pbuf_header_force p inc s = pbuf_header_impl p inc True s"

partial_function (option) pbuf_free_header :: "penv \<Rightarrow> addr option \<Rightarrow> u16 \<Rightarrow> pstate \<Rightarrow> (addr option \<times> pstate) option" where
  "pbuf_free_header E po free_left s =
     (case po of
        None \<Rightarrow> Some (None, s)
      | Some p \<Rightarrow>
          if free_left = 0 then Some (Some p, s)
          else do {
            b \<leftarrow> pbufs s p;
            if free_left \<ge> p_len b
            then do {
              s1 \<leftarrow> upd p (p_next_update (\<lambda>_. None)) s;
              (_, s2) \<leftarrow> pbuf_free E (Some p) s1;
              pbuf_free_header E (p_next b) (free_left - p_len b) s2 }
            else do {
              (_, s1) \<leftarrow> pbuf_remove_header p (ucast free_left) s;
              Some (Some p, s1) } })"

section \<open>Chains\<close>

partial_function (option) clen_loop :: "addr option \<Rightarrow> u16 \<Rightarrow> pstate \<Rightarrow> u16 option" where
  "clen_loop po n s = (case po of None \<Rightarrow> Some n | Some p \<Rightarrow> do { b \<leftarrow> pbufs s p; clen_loop (p_next b) (n + 1) s })"

definition pbuf_clen :: "addr option \<Rightarrow> pstate \<Rightarrow> u16 option" where
  "pbuf_clen po s = clen_loop po 0 s"

definition pbuf_ref :: "addr option \<Rightarrow> pstate \<Rightarrow> pstate option" where
  "pbuf_ref po s =
     (case po of
        None \<Rightarrow> Some s
      | Some p \<Rightarrow> do { b \<leftarrow> pbufs s p; assert_c (p_ref b + 1 > 0); upd p (p_ref_update (\<lambda>r. r + 1)) s })"

partial_function (option) cat_loop :: "addr \<Rightarrow> addr \<Rightarrow> pstate \<Rightarrow> (addr \<times> pstate) option" where
  "cat_loop p t s = do {
     b \<leftarrow> pbufs s p;
     bt \<leftarrow> pbufs s t;
     (case p_next b of
        None \<Rightarrow> Some (p, s)
      | Some q \<Rightarrow> do { s1 \<leftarrow> upd p (tot_len_update (\<lambda>n. n + tot_len bt)) s; cat_loop q t s1 }) }"

definition pbuf_cat :: "addr option \<Rightarrow> addr option \<Rightarrow> pstate \<Rightarrow> pstate option" where
  "pbuf_cat ho to s =
     (case (ho, to) of
        (Some h, Some t) \<Rightarrow> do {
          (p, s1) \<leftarrow> cat_loop h t s;
          b \<leftarrow> pbufs s1 p;
          bt \<leftarrow> pbufs s1 t;
          assert_c (tot_len b = p_len b);
          upd p (\<lambda>b. b\<lparr>tot_len := tot_len b + tot_len bt, p_next := Some t\<rparr>) s1 }
      | _ \<Rightarrow> Some s)"

definition pbuf_chain :: "addr option \<Rightarrow> addr option \<Rightarrow> pstate \<Rightarrow> pstate option" where
  "pbuf_chain ho to s = do { s1 \<leftarrow> pbuf_cat ho to s; pbuf_ref to s1 }"

definition pbuf_dechain :: "penv \<Rightarrow> addr \<Rightarrow> pstate \<Rightarrow> (addr option \<times> pstate) option" where
  "pbuf_dechain E p s = do {
     b \<leftarrow> pbufs s p;
     (case p_next b of
        None \<Rightarrow> do { assert_c (tot_len b = p_len b); Some (None, s) }
      | Some q \<Rightarrow> do {
          c \<leftarrow> pbufs s q;
          assert_c (uint (tot_len c) = uint (tot_len b) - uint (p_len b));
          s1 \<leftarrow> upd q (tot_len_update (\<lambda>_. tot_len b - p_len b)) s;
          s2 \<leftarrow> upd p (\<lambda>d. d\<lparr>p_next := None, tot_len := p_len b\<rparr>) s1;
          (tail_gone, s3) \<leftarrow> pbuf_free E (Some q) s2;
          d \<leftarrow> pbufs s3 p;
          assert_c (tot_len d = p_len d);
          Some (if tail_gone > 0 then None else Some q, s3) }) }"

section \<open>Contents\<close>

text \<open>One round of the loop copies a part; offsets have 32 bits, so that an offset behind the end of a buffer wraps around.\<close>

definition copy_part :: "addr \<Rightarrow> u32 \<Rightarrow> addr \<Rightarrow> u32 \<Rightarrow> u16 \<Rightarrow> pstate \<Rightarrow> (u32 \<times> u32 \<times> u16 \<times> pstate) option" where
  "copy_part p_to offset_to p_from offset_from copy_len s = do {
     bt \<leftarrow> pbufs s p_to;
     bf \<leftarrow> pbufs s p_from;
     let to_left = ucast (p_len bt) - offset_to;
     let from_left = ucast (p_len bf) - offset_from;
     let len_calc = (if to_left \<ge> from_left then from_left else to_left);
     let n = (ucast (min (ucast copy_len) len_calc) :: u16);
     xs \<leftarrow> rd_bytes (payload bf + unat offset_from) (unat n) s;
     s1 \<leftarrow> wr_bytes (payload bt + unat offset_to) xs s;
     assert_c (offset_to + ucast n \<le> ucast (p_len bt));
     assert_c (offset_from + ucast n \<le> ucast (p_len bf));
     Some (offset_to + ucast n, offset_from + ucast n, copy_len - n, s1) }"

definition is_queue :: "addr option \<Rightarrow> pstate \<Rightarrow> bool option" where
  "is_queue po s = (case po of None \<Rightarrow> Some False | Some p \<Rightarrow> do { b \<leftarrow> pbufs s p; Some (p_len b = tot_len b \<and> p_next b \<noteq> None) })"

definition advance :: "bool \<Rightarrow> addr \<Rightarrow> u32 \<Rightarrow> pstate \<Rightarrow> (addr option \<times> u32) option" where
  "advance done p offset s = do { b \<leftarrow> pbufs s p; Some (if done then (p_next b, 0) else (Some p, offset)) }"

partial_function (option) copy_loop :: "addr \<Rightarrow> u32 \<Rightarrow> addr \<Rightarrow> u32 \<Rightarrow> u16 \<Rightarrow> pstate \<Rightarrow> (err_t \<times> pstate) option" where
  "copy_loop p_to offset_to p_from offset_from copy_len s = do {
     (ot, of', n, s1) \<leftarrow> copy_part p_to offset_to p_from offset_from copy_len s;
     bt \<leftarrow> pbufs s1 p_to;
     bf \<leftarrow> pbufs s1 p_from;
     (fo, of1) \<leftarrow> advance (of' \<ge> ucast (p_len bf)) p_from of' s1;
     if fo = None \<and> n \<noteq> 0 then Some (ERR_ARG, s1)
     else do {
       (to, ot1) \<leftarrow> advance (ot = ucast (p_len bt)) p_to ot s1;
       if to = None \<and> n \<noteq> 0 then Some (ERR_ARG, s1)
       else do {
         qf \<leftarrow> is_queue fo s1;
         if qf then Some (ERR_VAL, s1)
         else do {
           qt \<leftarrow> is_queue to s1;
           if qt then Some (ERR_VAL, s1)
           else (case (to, fo) of
               (Some t, Some f) \<Rightarrow> if n \<noteq> 0 then copy_loop t ot1 f of1 n s1 else Some (ERR_OK, s1)
             | _ \<Rightarrow> Some (ERR_OK, s1)) } } } }"

definition pbuf_copy_partial_pbuf :: "addr option \<Rightarrow> addr option \<Rightarrow> u16 \<Rightarrow> u16 \<Rightarrow> pstate \<Rightarrow> (err_t \<times> pstate) option" where
  "pbuf_copy_partial_pbuf to fo copy_len offset s =
     (case fo of
        None \<Rightarrow> Some (ERR_ARG, s)
      | Some p_from \<Rightarrow> do {
          bf \<leftarrow> pbufs s p_from;
          if tot_len bf < copy_len then Some (ERR_ARG, s)
          else (case to of
              None \<Rightarrow> Some (ERR_ARG, s)
            | Some p_to \<Rightarrow> do {
                bt \<leftarrow> pbufs s p_to;
                if unat (tot_len bt) < unat offset + unat copy_len then Some (ERR_ARG, s)
                else copy_loop p_to (ucast offset) p_from 0 copy_len s }) })"

definition pbuf_copy :: "addr option \<Rightarrow> addr option \<Rightarrow> pstate \<Rightarrow> (err_t \<times> pstate) option" where
  "pbuf_copy to fo s =
     (case fo of
        None \<Rightarrow> Some (ERR_ARG, s)
      | Some p_from \<Rightarrow> do { b \<leftarrow> pbufs s p_from; pbuf_copy_partial_pbuf to fo (tot_len b) 0 s })"

text \<open>The bytes that are copied to the buffer of the application.\<close>

partial_function (option) copy_out :: "addr option \<Rightarrow> u16 \<Rightarrow> u16 \<Rightarrow> u16 \<Rightarrow> u8 list \<Rightarrow> pstate \<Rightarrow> (u16 \<times> u8 list) option" where
  "copy_out po n offset copied_total out s =
     (case po of
        None \<Rightarrow> Some (copied_total, out)
      | Some p \<Rightarrow>
          if n = 0 then Some (copied_total, out)
          else do {
            b \<leftarrow> pbufs s p;
            if offset \<noteq> 0 \<and> offset \<ge> p_len b then copy_out (p_next b) n (offset - p_len b) copied_total out s
            else do {
              let k = (if p_len b - offset > n then n else p_len b - offset);
              xs \<leftarrow> rd_bytes (payload b + unat offset) (unat k) s;
              copy_out (p_next b) (n - k) 0 (copied_total + k) (out @ xs) s } })"

definition pbuf_copy_partial :: "addr option \<Rightarrow> bool \<Rightarrow> u16 \<Rightarrow> u16 \<Rightarrow> pstate \<Rightarrow> (u16 \<times> u8 list) option" where
  "pbuf_copy_partial buf dataptr n offset s =
     (if buf = None then Some (0, []) else if \<not> dataptr then Some (0, []) else copy_out buf n offset 0 [] s)"

partial_function (option) pbuf_skip_const :: "addr option \<Rightarrow> u16 \<Rightarrow> pstate \<Rightarrow> (addr option \<times> u16) option" where
  "pbuf_skip_const po offset_left s =
     (case po of
        None \<Rightarrow> Some (None, offset_left)
      | Some q \<Rightarrow> do {
          b \<leftarrow> pbufs s q;
          if p_len b \<le> offset_left then pbuf_skip_const (p_next b) (offset_left - p_len b) s
          else Some (Some q, offset_left) })"

definition pbuf_skip :: "addr option \<Rightarrow> u16 \<Rightarrow> pstate \<Rightarrow> (addr option \<times> u16) option" where
  "pbuf_skip po offset s = pbuf_skip_const po offset s"

text \<open>The result: nothing, a pointer into the buffer, or a copy.\<close>

datatype contiguous = No_data | In_place addr | Copied "u8 list"

definition pbuf_get_contiguous :: "addr option \<Rightarrow> bool \<Rightarrow> u32 \<Rightarrow> u16 \<Rightarrow> u16 \<Rightarrow> pstate \<Rightarrow> contiguous option" where
  "pbuf_get_contiguous po buffer bufsize n offset s =
     (if po = None \<or> \<not> buffer \<or> bufsize < ucast n then Some No_data
      else do {
        (qo, out_offset) \<leftarrow> pbuf_skip_const po offset s;
        (case qo of
           None \<Rightarrow> Some No_data
         | Some q \<Rightarrow> do {
             b \<leftarrow> pbufs s q;
             if unat (p_len b) \<ge> unat out_offset + unat n then Some (In_place (payload b + unat out_offset))
             else do {
               (k, xs) \<leftarrow> pbuf_copy_partial qo buffer n out_offset s;
               Some (if k \<noteq> n then No_data else Copied xs) } }) })"

partial_function (option) take_loop :: "addr option \<Rightarrow> u8 list \<Rightarrow> pstate \<Rightarrow> pstate option" where
  "take_loop po xs s =
     (if xs = [] then Some s
      else do {
        p \<leftarrow> po;
        b \<leftarrow> pbufs s p;
        let k = min (length xs) (unat (p_len b));
        s1 \<leftarrow> wr_bytes (payload b) (take k xs) s;
        take_loop (p_next b) (drop k xs) s1 })"

definition pbuf_take :: "addr option \<Rightarrow> u8 list option \<Rightarrow> pstate \<Rightarrow> (err_t \<times> pstate) option" where
  "pbuf_take buf dataptr s =
     (case buf of
        None \<Rightarrow> Some (ERR_ARG, s)
      | Some p \<Rightarrow>
          (case dataptr of
             None \<Rightarrow> Some (ERR_ARG, s)
           | Some xs \<Rightarrow> do {
               b \<leftarrow> pbufs s p;
               if unat (tot_len b) < length xs then Some (ERR_MEM, s)
               else map_option (\<lambda>s1. (ERR_OK, s1)) (take_loop buf xs s) }))"

definition pbuf_take_at :: "addr option \<Rightarrow> u8 list \<Rightarrow> u16 \<Rightarrow> pstate \<Rightarrow> (err_t \<times> pstate) option" where
  "pbuf_take_at buf xs offset s = do {
     (qo, target_offset) \<leftarrow> pbuf_skip buf offset s;
     (case qo of
        None \<Rightarrow> Some (ERR_MEM, s)
      | Some q \<Rightarrow> do {
          b \<leftarrow> pbufs s q;
          if unat (tot_len b) < unat target_offset + length xs then Some (ERR_MEM, s)
          else do {
            assert_c (target_offset < p_len b);
            let k = min (unat (p_len b) - unat target_offset) (length xs);
            s1 \<leftarrow> wr_bytes (payload b + unat target_offset) (take k xs) s;
            if length xs - k > 0 then pbuf_take (p_next b) (Some (drop k xs)) s1 else Some (ERR_OK, s1) } }) }"

definition pbuf_clone :: "penv \<Rightarrow> u16 \<Rightarrow> u16 \<Rightarrow> addr \<Rightarrow> pstate \<Rightarrow> (addr option \<times> pstate) option" where
  "pbuf_clone E layer type p s = do {
     b \<leftarrow> pbufs s p;
     (qo, s1) \<leftarrow> pbuf_alloc E layer (tot_len b) type s;
     (case qo of
        None \<Rightarrow> Some (None, s1)
      | Some q \<Rightarrow> do { (err, s2) \<leftarrow> pbuf_copy qo (Some p) s1; assert_c (err = ERR_OK); Some (qo, s2) }) }"

definition pbuf_coalesce :: "penv \<Rightarrow> addr \<Rightarrow> u16 \<Rightarrow> pstate \<Rightarrow> (addr \<times> pstate) option" where
  "pbuf_coalesce E p layer s = do {
     b \<leftarrow> pbufs s p;
     if p_next b = None then Some (p, s)
     else do {
       (qo, s1) \<leftarrow> pbuf_clone E layer PBUF_RAM p s;
       (case qo of
          None \<Rightarrow> Some (p, s1)
        | Some q \<Rightarrow> do { (_, s2) \<leftarrow> pbuf_free E (Some p) s1; Some (q, s2) }) } }"

definition pbuf_fill_chksum :: "addr \<Rightarrow> u16 \<Rightarrow> u8 list \<Rightarrow> u16 \<Rightarrow> pstate \<Rightarrow> (err_t \<times> u16 \<times> pstate) option" where
  "pbuf_fill_chksum p start_offset xs chksum s = do {
     assert_c (xs \<noteq> []);
     b \<leftarrow> pbufs s p;
     if start_offset \<ge> p_len b \<or> unat start_offset + length xs > unat (p_len b) then Some (ERR_ARG, chksum, s)
     else do {
       let dst = payload b + unat start_offset;
       let (c, ys) = lwip_chksum_copy dst xs;
       s1 \<leftarrow> wr_bytes dst ys s;
       let c1 = (if start_offset AND 1 \<noteq> 0 then ucast (SWAP_BYTES_IN_WORD (ucast c)) else c);
       Some (ERR_OK, ucast (FOLD_U32T (ucast chksum + ucast c1)), s1) } }"

section \<open>Single bytes and searching\<close>

definition pbuf_try_get_at :: "addr option \<Rightarrow> u16 \<Rightarrow> pstate \<Rightarrow> int option" where
  "pbuf_try_get_at po offset s = do {
     (qo, q_idx) \<leftarrow> pbuf_skip_const po offset s;
     (case qo of
        None \<Rightarrow> Some (- 1)
      | Some q \<Rightarrow> do { b \<leftarrow> pbufs s q; if p_len b > q_idx then map_option uint (bytes s (payload b + unat q_idx)) else Some (- 1) }) }"

definition pbuf_get_at :: "addr option \<Rightarrow> u16 \<Rightarrow> pstate \<Rightarrow> u8 option" where
  "pbuf_get_at po offset s = map_option (\<lambda>r. if r \<ge> 0 then word_of_int r else 0) (pbuf_try_get_at po offset s)"

definition pbuf_put_at :: "addr option \<Rightarrow> u16 \<Rightarrow> u8 \<Rightarrow> pstate \<Rightarrow> pstate option" where
  "pbuf_put_at po offset x s = do {
     (qo, q_idx) \<leftarrow> pbuf_skip po offset s;
     (case qo of
        None \<Rightarrow> Some s
      | Some q \<Rightarrow> do { b \<leftarrow> pbufs s q; if p_len b > q_idx then wr_bytes (payload b + unat q_idx) [x] s else Some s }) }"

text \<open>The second argument is how many bytes are done; the bytes to compare with are those left.\<close>

fun cmp_loop :: "addr option \<Rightarrow> u16 \<Rightarrow> nat \<Rightarrow> u8 list \<Rightarrow> pstate \<Rightarrow> u16 option" where
  "cmp_loop qo start i [] s = Some 0"
| "cmp_loop qo start i (b # bs) s = do {
     a \<leftarrow> pbuf_get_at qo (start + of_nat i) s;
     if a \<noteq> b then Some (of_nat (min (i + 1) 0xFFFF)) else cmp_loop qo start (Suc i) bs s }"

definition pbuf_memcmp :: "addr \<Rightarrow> u16 \<Rightarrow> u8 list \<Rightarrow> pstate \<Rightarrow> u16 option" where
  "pbuf_memcmp p offset s2 s = do {
     b \<leftarrow> pbufs s p;
     if unat (tot_len b) < unat offset + length s2 then Some 0xFFFF
     else do { (qo, start) \<leftarrow> pbuf_skip_const (Some p) offset s; cmp_loop qo start 0 s2 s } }"

partial_function (option) find_loop :: "addr \<Rightarrow> u8 list \<Rightarrow> u16 \<Rightarrow> u16 \<Rightarrow> pstate \<Rightarrow> u16 option" where
  "find_loop p m i max_cmp_start s =
     (if i \<le> max_cmp_start
      then do { plus \<leftarrow> pbuf_memcmp p i m s; if plus = 0 then Some i else find_loop p m (i + 1) max_cmp_start s }
      else Some 0xFFFF)"

definition pbuf_memfind :: "addr \<Rightarrow> u8 list \<Rightarrow> u16 \<Rightarrow> pstate \<Rightarrow> u16 option" where
  "pbuf_memfind p m start_offset s = do {
     b \<leftarrow> pbufs s p;
     if unat (tot_len b) \<ge> length m + unat start_offset then find_loop p m start_offset (tot_len b - of_nat (length m)) s
     else Some 0xFFFF }"

text \<open>A string is the bytes before its terminator.\<close>

definition pbuf_strstr :: "addr \<Rightarrow> u8 list option \<Rightarrow> pstate \<Rightarrow> u16 option" where
  "pbuf_strstr p substr s =
     (case substr of
        None \<Rightarrow> Some 0xFFFF
      | Some m \<Rightarrow> do {
          b \<leftarrow> pbufs s p;
          if m = [] \<or> tot_len b = 0xFFFF \<or> length m \<ge> 0xFFFF then Some 0xFFFF else pbuf_memfind p m 0 s })"

section \<open>Splitting\<close>

partial_function (option) split_find :: "addr \<Rightarrow> addr option \<Rightarrow> u16 \<Rightarrow> pstate \<Rightarrow> (addr \<times> addr option) option" where
  "split_find i ro front s =
     (case ro of
        None \<Rightarrow> Some (i, None)
      | Some r \<Rightarrow> do {
          b \<leftarrow> pbufs s r;
          if front + p_len b \<ge> front then split_find r (p_next b) (front + p_len b) s else Some (i, Some r) })"

partial_function (option) split_adjust :: "addr option \<Rightarrow> u16 \<Rightarrow> pstate \<Rightarrow> pstate option" where
  "split_adjust io sub s =
     (case io of
        None \<Rightarrow> Some s
      | Some i \<Rightarrow> do {
          b \<leftarrow> pbufs s i;
          s1 \<leftarrow> upd i (tot_len_update (\<lambda>n. n - sub)) s;
          assert_c (p_next b \<noteq> None \<or> tot_len b - sub = p_len b);
          split_adjust (p_next b) sub s1 })"

definition pbuf_split_64k :: "addr option \<Rightarrow> pstate \<Rightarrow> (addr option \<times> pstate) option" where
  "pbuf_split_64k po s =
     (case po of
        None \<Rightarrow> Some (None, s)
      | Some p \<Rightarrow> do {
          b \<leftarrow> pbufs s p;
          if p_next b = None then Some (None, s)
          else do {
            (i, ro) \<leftarrow> split_find p (p_next b) (p_len b) s;
            s1 \<leftarrow> upd i (p_next_update (\<lambda>_. None)) s;
            (case ro of
               None \<Rightarrow> Some (None, s1)
             | Some r \<Rightarrow> do {
                 c \<leftarrow> pbufs s1 r;
                 s2 \<leftarrow> split_adjust po (tot_len c) s1;
                 s3 \<leftarrow> (if p_flags b AND 0x20 \<noteq> 0 then upd r (p_flags_update (\<lambda>f. f OR 0x20)) s2 else Some s2);
                 Some (ro, s3) }) } })"

end
