(* ===== verification/PbufLaws.thy ===== *)
theory PbufLaws
  imports Pbuf
begin

text \<open>
  What a chain of packet buffers means: \<^term>\<open>packet\<close> says which bytes it holds. Readers (copying out, single bytes, comparing, finding, checksum) see these bytes,
  and writers change exactly the ones they are to change.
\<close>

section \<open>Packets\<close>

text \<open>The chain at \<open>po\<close>, which has the buffers \<open>ps\<close>, holds the bytes \<open>xs\<close>, and its length fields are right.\<close>

fun packet :: "pstate \<Rightarrow> addr option \<Rightarrow> addr list \<Rightarrow> u8 list \<Rightarrow> bool" where
  "packet s po [] xs \<longleftrightarrow> po = None \<and> xs = []"
| "packet s po (p # ps) xs \<longleftrightarrow> po = Some p \<and>
     (case pbufs s p of
        None \<Rightarrow> False
      | Some b \<Rightarrow> unat (tot_len b) = length xs \<and> unat (p_len b) \<le> length xs \<and>
          rd_bytes (payload b) (unat (p_len b)) s = Some (take (unat (p_len b)) xs) \<and>
          packet s (p_next b) ps (drop (unat (p_len b)) xs))"

lemma packet_None: "packet s None ps xs \<longleftrightarrow> ps = [] \<and> xs = []"
  by (cases ps) auto

lemma packet_Some: "packet s (Some p) ps xs \<longleftrightarrow> (\<exists>b qs. ps = p # qs \<and> pbufs s p = Some b \<and> unat (tot_len b) = length xs \<and> unat (p_len b) \<le> length xs \<and>
    rd_bytes (payload b) (unat (p_len b)) s = Some (take (unat (p_len b)) xs) \<and> packet s (p_next b) qs (drop (unat (p_len b)) xs))"
  by (cases ps) (auto split: option.splits)

lemma packet_len: "packet s po ps xs \<Longrightarrow> length xs < 65536"
proof (cases po)
  case (Some p)
  assume "packet s po ps xs"
  then obtain b :: pbuf where "unat (tot_len b) = length xs" using Some by (auto simp: packet_Some)
  then show ?thesis using unsigned_less [of "tot_len b", where ?'a = nat] by simp
qed (auto simp: packet_None)

section \<open>Ranges of bytes\<close>

lemma rd_bytes_len: "rd_bytes a n s = Some xs \<Longrightarrow> length xs = n"
  by (induction n arbitrary: a xs) (auto simp: bind_eq_Some_conv)

lemma rd_bytes_iff: "rd_bytes a n s = Some xs \<longleftrightarrow> length xs = n \<and> (\<forall>i<n. bytes s (a + i) = Some (xs ! i))"
proof (induction n arbitrary: a xs)
  case (Suc n)
  show ?case
  proof (cases xs)
    case (Cons y ys)
    have "(\<forall>i<Suc n. bytes s (a + i) = Some ((y # ys) ! i)) \<longleftrightarrow> bytes s a = Some y \<and> (\<forall>i<n. bytes s (Suc a + i) = Some (ys ! i))"
      by (auto simp: less_Suc_eq_0_disj)
    then show ?thesis using Suc.IH [of "Suc a"] Cons by (auto simp: bind_eq_Some_conv)
  qed (auto simp: bind_eq_Some_conv)
qed auto

lemma rd_bytes_part:
  assumes "rd_bytes a n s = Some xs" "off + k \<le> n"
  shows "rd_bytes (a + off) k s = Some (take k (drop off xs))"
  using assms by (auto simp: rd_bytes_iff add.assoc)

lemma rd_byte: "rd_bytes a n s = Some xs \<Longrightarrow> i < n \<Longrightarrow> bytes s (a + i) = Some (xs ! i)"
  by (simp add: rd_bytes_iff)

section \<open>Reading\<close>

lemma unat_le_sub: "b \<le> a \<Longrightarrow> unat (a - b) = unat a - unat b" for a b :: u16
  by (simp add: unat_sub)

lemma skip_none: "packet s po ps xs \<Longrightarrow> unat off \<ge> length xs \<Longrightarrow> \<exists>k. pbuf_skip_const po off s = Some (None, k)"
proof (induction ps arbitrary: po xs off)
  case Nil
  then show ?case by (subst pbuf_skip_const.simps) simp
next
  case (Cons p ps)
  then obtain b where po: "po = Some p" and b: "pbufs s p = Some b" "unat (p_len b) \<le> length xs" "packet s (p_next b) ps (drop (unat (p_len b)) xs)"
    by (auto split: option.splits)
  have le: "p_len b \<le> off" using b(2) Cons.prems(2) by (simp add: word_le_nat_alt)
  have "\<exists>k. pbuf_skip_const (p_next b) (off - p_len b) s = Some (None, k)" using Cons.IH [OF b(3)] Cons.prems(2) unat_le_sub [OF le] by simp
  then show ?case using le by (subst pbuf_skip_const.simps) (simp add: po b(1))
qed

lemma skip_packet:
  "packet s po ps xs \<Longrightarrow> unat off < length xs \<Longrightarrow> \<exists>as q qs b k. pbuf_skip_const po off s = Some (Some q, k) \<and> pbufs s q = Some b \<and>
     unat k < unat (p_len b) \<and> unat k \<le> unat off \<and> ps = as @ q # qs \<and> packet s (Some q) (q # qs) (drop (unat off - unat k) xs)"
proof (induction ps arbitrary: po xs off)
  case (Cons p ps)
  then obtain b where po: "po = Some p" and b: "pbufs s p = Some b" "unat (p_len b) \<le> length xs" "packet s (p_next b) ps (drop (unat (p_len b)) xs)"
    by (auto split: option.splits)
  show ?case
  proof (cases "p_len b \<le> off")
    case True
    then have le: "unat (p_len b) \<le> unat off" by (simp add: word_le_nat_alt)
    have st: "pbuf_skip_const po off s = pbuf_skip_const (p_next b) (off - p_len b) s"
      using True by (subst pbuf_skip_const.simps) (simp add: po b(1))
    have u: "unat (off - p_len b) = unat off - unat (p_len b)" using unat_le_sub [OF True] .
    have "unat (off - p_len b) < length (drop (unat (p_len b)) xs)" using Cons.prems(2) le u by simp
    from Cons.IH [OF b(3) this] obtain as q qs c k where k: "pbuf_skip_const (p_next b) (off - p_len b) s = Some (Some q, k)" "pbufs s q = Some c"
      "unat k < unat (p_len c)" "unat k \<le> unat off - unat (p_len b)" "ps = as @ q # qs" "packet s (Some q) (q # qs) (drop (unat off - unat (p_len b) - unat k) (drop (unat (p_len b)) xs))"
      unfolding u by blast
    have "unat off - unat (p_len b) - unat k + unat (p_len b) = unat off - unat k" using k(4) le by simp
    then have "packet s (Some q) (q # qs) (drop (unat off - unat k) xs)" using k(6) by simp
    moreover have "p # ps = (p # as) @ q # qs" "unat k \<le> unat off" using k(4,5) by simp_all
    moreover have "pbuf_skip_const po off s = Some (Some q, k)" using st k(1) by simp
    ultimately show ?thesis using k(2,3) by blast
  next
    case False
    then have lt: "unat off < unat (p_len b)" by (simp add: word_le_nat_alt)
    have "pbuf_skip_const po off s = Some (Some p, off)" using False by (subst pbuf_skip_const.simps) (simp add: po b(1))
    moreover have "p # ps = [] @ p # ps" "packet s (Some p) (p # ps) (drop (unat off - unat off) xs)" using Cons.prems(1) po by simp_all
    ultimately show ?thesis using b(1) lt by blast
  qed
qed simp

lemma try_get_packet:
  assumes "packet s po ps xs"
  shows "pbuf_try_get_at po off s = Some (if unat off < length xs then uint (xs ! unat off) else - 1)"
proof (cases "unat off < length xs")
  case True
  from skip_packet [OF assms True] obtain as q qs b k where k: "pbuf_skip_const po off s = Some (Some q, k)" "pbufs s q = Some b" "unat k < unat (p_len b)" "unat k \<le> unat off"
    "packet s (Some q) (q # qs) (drop (unat off - unat k) xs)" by blast
  have "bytes s (payload b + unat k) = Some (take (unat (p_len b)) (drop (unat off - unat k) xs) ! unat k)" using k by (intro rd_byte) simp_all
  also have "\<dots> = Some (xs ! unat off)" using k(3,4) True by (simp add: nth_drop)
  finally show ?thesis using k True by (simp add: pbuf_try_get_at_def word_less_nat_alt)
next
  case False
  then show ?thesis using skip_none [OF assms, of off] by (auto simp: pbuf_try_get_at_def)
qed

lemma get_packet: "packet s po ps xs \<Longrightarrow> pbuf_get_at po off s = Some (if unat off < length xs then xs ! unat off else 0)"
  by (simp add: pbuf_get_at_def try_get_packet)

lemma copy_out_packet:
  "packet s po ps xs \<Longrightarrow> copy_out po n off tot out s =
     Some (tot + of_nat (length (take (unat n) (drop (unat off) xs))), out @ take (unat n) (drop (unat off) xs))"
proof (induction ps arbitrary: po xs n off tot out)
  case Nil
  then show ?case by (subst copy_out.simps) simp
next
  case (Cons p ps)
  then obtain b where po: "po = Some p" and b: "pbufs s p = Some b" "unat (p_len b) \<le> length xs" "rd_bytes (payload b) (unat (p_len b)) s = Some (take (unat (p_len b)) xs)"
    "packet s (p_next b) ps (drop (unat (p_len b)) xs)" by (auto split: option.splits)
  consider "n = 0" | "n \<noteq> 0" "off \<noteq> 0" "off \<ge> p_len b" | "n \<noteq> 0" "off = 0 \<or> off < p_len b" by force
  then show ?case
  proof cases
    case 1
    then show ?thesis by (subst copy_out.simps) (simp add: po)
  next
    case 2
    have "unat (off - p_len b) + unat (p_len b) = unat off" using 2(3) by (simp add: unat_le_sub word_le_nat_alt)
    then have "drop (unat (off - p_len b)) (drop (unat (p_len b)) xs) = drop (unat off) xs" by (simp add: add.commute)
    then show ?thesis using 2 Cons.IH [OF b(4), of n "off - p_len b"] by (subst copy_out.simps) (simp add: po b(1))
  next
    case 3
    then have le: "off \<le> p_len b" by auto
    define k where "k = (if p_len b - off > n then n else p_len b - off)"
    have uk: "unat k = min (unat n) (unat (p_len b) - unat off)" using le by (auto simp: k_def word_less_nat_alt unat_le_sub)
    have kn: "k \<le> n" using uk by (simp add: word_le_nat_alt)
    let ?t = "take (unat k) (drop (unat off) (take (unat (p_len b)) xs))" and ?r = "take (unat (n - k)) (drop (unat (p_len b)) xs)"
    have r: "rd_bytes (payload b + unat off) (unat k) s = Some ?t" using uk by (intro rd_bytes_part [OF b(3)]) (use le in \<open>simp add: word_le_nat_alt\<close>)
    have st: "copy_out po n off tot out s = copy_out (p_next b) (n - k) 0 (tot + k) (out @ ?t) s"
      using 3 r by (subst copy_out.simps) (auto simp: po b(1) Let_def k_def [symmetric] not_le)
    have ih: "copy_out (p_next b) (n - k) 0 (tot + k) (out @ ?t) s = Some (tot + k + of_nat (length ?r), out @ ?t @ ?r)" using Cons.IH [OF b(4), of "n - k" 0] by simp
    have ap: "?t @ ?r = take (unat n) (drop (unat off) xs)"
    proof (cases "unat n \<le> unat (p_len b) - unat off")
      case True
      then have "unat k = unat n" "k = n" using uk by (simp_all add: word_unat_eq_iff)
      then show ?thesis using True by (simp add: take_drop min_def) (use le in \<open>auto simp: word_le_nat_alt\<close>)
    next
      case False
      then have k: "unat k = unat (p_len b) - unat off" using uk by simp
      have n: "unat n = unat k + unat (n - k)" using kn by (simp add: unat_le_sub word_le_nat_alt)
      have "unat off + unat k = unat (p_len b)" using k le by (simp add: word_le_nat_alt)
      then have "drop (unat k) (drop (unat off) xs) = drop (unat (p_len b)) xs" by (simp add: add.commute)
      then have "take (unat n) (drop (unat off) xs) = take (unat k) (drop (unat off) xs) @ ?r" by (subst n) (simp only: take_add)
      then show ?thesis using k by (simp add: drop_take)
    qed
    have ct: "tot + k + of_nat (length ?r) = tot + of_nat (length (?t @ ?r))"
    proof -
      have "length ?t = unat k" using uk b(2) by simp
      then have "length (?t @ ?r) = unat k + length ?r" by simp
      then show ?thesis by (simp only: of_nat_add) simp
    qed
    show ?thesis unfolding st ih ct ap ..
  qed
qed

section \<open>Comparing and finding\<close>

text \<open>The number of equal bytes at the beginning.\<close>

fun same_prefix :: "u8 list \<Rightarrow> u8 list \<Rightarrow> nat" where
  "same_prefix (x # xs) (y # ys) = (if x = y then Suc (same_prefix xs ys) else 0)"
| "same_prefix xs ys = 0"

lemma cmp_loop_packet:
  "packet s qo qs zs \<Longrightarrow> unat start + i + length bs \<le> length zs \<Longrightarrow> i + length bs \<le> 0xFFFF \<Longrightarrow>
    cmp_loop qo start i bs s = Some (if take (length bs) (drop (unat start + i) zs) = bs then 0 else of_nat (i + same_prefix (drop (unat start + i) zs) bs + 1))"
proof (induction bs arbitrary: i)
  case (Cons b bs)
  have lt: "unat start + i < length zs" using Cons.prems(2) by simp
  have u: "unat (start + of_nat i) = unat start + i" using lt packet_len [OF Cons.prems(1)] by (simp add: unat_word_ariths unat_of_nat)
  have d: "drop (unat start + i) zs = zs ! (unat start + i) # drop (unat start + Suc i) zs" using lt by (simp add: Cons_nth_drop_Suc)
  show ?case
  proof (cases "zs ! (unat start + i) = b")
    case True
    then show ?thesis using Cons.IH [of "Suc i"] Cons.prems lt u by (simp add: get_packet [OF Cons.prems(1)] d)
  next
    case False
    then show ?thesis using lt u Cons.prems(3) by (simp add: get_packet [OF Cons.prems(1)] d min_def)
  qed
qed simp

definition occurs_at :: "u8 list \<Rightarrow> u8 list \<Rightarrow> nat \<Rightarrow> bool" where
  "occurs_at m xs i \<longleftrightarrow> i + length m \<le> length xs \<and> take (length m) (drop i xs) = m"

lemma memcmp_packet:
  assumes "packet s (Some p) ps xs" "length m \<le> 0xFFFF"
  shows "pbuf_memcmp p off m s = Some (if length xs < unat off + length m then 0xFFFF
    else if occurs_at m xs (unat off) then 0 else of_nat (same_prefix (drop (unat off) xs) m + 1))"
proof -
  obtain b where b: "pbufs s p = Some b" "unat (tot_len b) = length xs" using assms(1) by (auto simp: packet_Some)
  consider "length xs < unat off + length m" | "m = []" "unat off = length xs" | "unat off + length m \<le> length xs" "unat off < length xs"
    by (cases "length xs < unat off + length m"; cases "unat off < length xs"; cases m) auto
  then show ?thesis
  proof cases
    case 1
    then show ?thesis using b by (simp add: pbuf_memcmp_def)
  next
    case 2
    then show ?thesis using b skip_none [OF assms(1), of off] by (auto simp: pbuf_memcmp_def occurs_at_def)
  next
    case 3
    from skip_packet [OF assms(1) 3(2)] obtain as q qs c k where k: "pbuf_skip_const (Some p) off s = Some (Some q, k)" "unat k \<le> unat off"
      "packet s (Some q) (q # qs) (drop (unat off - unat k) xs)" by blast
    show ?thesis using b 3 cmp_loop_packet [OF k(3), of k 0 m] k(1,2) assms(2) by (simp add: pbuf_memcmp_def occurs_at_def)
  qed
qed

lemma memcmp_zero:
  assumes "packet s (Some p) ps xs" "length m \<le> 0xFFFF" "unat off + length m \<le> length xs"
  shows "\<exists>r. pbuf_memcmp p off m s = Some r \<and> (r = 0 \<longleftrightarrow> occurs_at m xs (unat off))"
proof -
  have "same_prefix (drop (unat off) xs) m < length m" if "\<not> occurs_at m xs (unat off)"
  proof -
    have "same_prefix ys m < length m" if "length m \<le> length ys" "take (length m) ys \<noteq> m" for ys
      using that by (induction ys m rule: same_prefix.induct) auto
    then show ?thesis using that assms(3) by (simp add: occurs_at_def)
  qed
  then have "(of_nat (same_prefix (drop (unat off) xs) m + 1) :: u16) \<noteq> 0" if "\<not> occurs_at m xs (unat off)"
    using that assms(2) by (simp add: word_unat_eq_iff unat_of_nat del: of_nat_Suc of_nat_add)
  then show ?thesis using memcmp_packet [OF assms(1,2), of off] assms(3) by (auto simp del: of_nat_Suc of_nat_add)
qed

definition found_at :: "u8 list \<Rightarrow> u8 list \<Rightarrow> nat \<Rightarrow> u16 \<Rightarrow> bool" where
  "found_at m xs i r \<longleftrightarrow> (if \<exists>j \<ge> i. occurs_at m xs j then i \<le> unat r \<and> occurs_at m xs (unat r) \<and> (\<forall>j. i \<le> j \<and> j < unat r \<longrightarrow> \<not> occurs_at m xs j) else r = 0xFFFF)"

lemma found_step: "\<not> occurs_at m xs i \<Longrightarrow> found_at m xs (Suc i) r \<Longrightarrow> found_at m xs i r"
proof -
  assume n: "\<not> occurs_at m xs i" and f: "found_at m xs (Suc i) r"
  have ge: "Suc i \<le> j \<longleftrightarrow> i \<le> j" if "occurs_at m xs j" for j using that n by (cases "i = j") auto
  then have e: "(\<exists>j \<ge> i. occurs_at m xs j) \<longleftrightarrow> (\<exists>j \<ge> Suc i. occurs_at m xs j)" by blast
  show ?thesis
  proof (cases "\<exists>j \<ge> Suc i. occurs_at m xs j")
    case True
    with f have t: "Suc i \<le> unat r" "occurs_at m xs (unat r)" "\<And>j. Suc i \<le> j \<Longrightarrow> j < unat r \<Longrightarrow> \<not> occurs_at m xs j" by (simp_all only: found_at_def if_True simp_thms)
    have "\<not> occurs_at m xs j" if "i \<le> j" "j < unat r" for j using t(3) [OF _ that(2)] ge that(1) by blast
    with t True show ?thesis by (simp add: found_at_def e)
  next
    case False
    with f show ?thesis by (simp only: found_at_def e if_False simp_thms)
  qed
qed

lemma find_loop_packet:
  assumes "packet s (Some p) ps xs" "length m \<le> 0xFFFF" "length m \<le> length xs" "unat mx = length xs - length m"
  shows "\<exists>r. find_loop p m i mx s = Some r \<and> found_at m xs (unat i) r"
proof (induction "unat mx + 1 - unat i" arbitrary: i rule: less_induct)
  case less
  have lim: "j \<le> unat mx" if "occurs_at m xs j" for j using that assms(3,4) unfolding occurs_at_def by linarith
  show ?case
  proof (cases "i \<le> mx")
    case True
    then have le: "unat i \<le> unat mx" by (simp add: word_le_nat_alt)
    then have "unat i + length m \<le> length xs" using assms(3,4) by linarith
    then obtain r where r: "pbuf_memcmp p i m s = Some r" "r = 0 \<longleftrightarrow> occurs_at m xs (unat i)" using memcmp_zero [OF assms(1,2), of i] by auto
    show ?thesis
    proof (cases "occurs_at m xs (unat i)")
      case True
      then show ?thesis using r \<open>i \<le> mx\<close> by (subst find_loop.simps) (auto simp: found_at_def)
    next
      case False
      then have "m \<noteq> []" using le assms(3,4) by (auto simp: occurs_at_def)
      then have "unat i + 1 < 65536" using le assms(3,4) packet_len [OF assms(1)] by (cases m) auto
      then have u: "unat (i + 1) = Suc (unat i)" by (simp add: unat_word_ariths)
      have st: "find_loop p m i mx s = find_loop p m (i + 1) mx s" using r False \<open>i \<le> mx\<close> by (subst find_loop.simps) simp
      have "unat mx + 1 - unat (i + 1) < unat mx + 1 - unat i" using u le by simp
      from less [OF this] show ?thesis unfolding st u using found_step [OF False] by blast
    qed
  next
    case False
    then have "\<not> (\<exists>j \<ge> unat i. occurs_at m xs j)" using lim by (auto simp: word_le_nat_alt dest!: lim)
    then show ?thesis using False by (subst find_loop.simps) (auto simp: found_at_def)
  qed
qed

section \<open>Composition with the checksum\<close>

text \<open>The blocks of a chain.\<close>

definition block_of :: "pstate \<Rightarrow> addr \<Rightarrow> block" where
  "block_of s p = (case pbufs s p of None \<Rightarrow> (0, []) | Some b \<Rightarrow> (payload b, case rd_bytes (payload b) (unat (p_len b)) s of None \<Rightarrow> [] | Some xs \<Rightarrow> xs))"

lemma chain_bytes_packet: "packet s po ps xs \<Longrightarrow> chain_bytes (map (block_of s) ps) = xs"
proof (induction ps arbitrary: po xs)
  case (Cons p ps)
  then obtain b where b: "pbufs s p = Some b" "rd_bytes (payload b) (unat (p_len b)) s = Some (take (unat (p_len b)) xs)" "packet s (p_next b) ps (drop (unat (p_len b)) xs)"
    by (auto split: option.splits)
  from Cons.IH [OF b(3)] show ?case using b by (simp add: chain_bytes_def block_of_def)
qed (simp add: chain_bytes_def)

lemma chain_small_packet: "packet s po ps xs \<Longrightarrow> chain_small (map (block_of s) ps)"
proof (induction ps arbitrary: po xs)
  case (Cons p ps)
  then obtain b where b: "pbufs s p = Some b" "rd_bytes (payload b) (unat (p_len b)) s = Some (take (unat (p_len b)) xs)" "packet s (p_next b) ps (drop (unat (p_len b)) xs)"
    by (auto split: option.splits)
  have "length (take (unat (p_len b)) xs) \<le> 0xFFFF" using unsigned_less [of "p_len b", where ?'a = nat] by simp
  with Cons.IH [OF b(3)] show ?case using b by (simp add: chain_small_def block_of_def)
qed (simp add: chain_small_def)

section \<open>What a reader sees\<close>

lemma memfind_packet:
  assumes "packet s (Some p) ps xs" "length m \<le> 0xFFFF"
  shows "\<exists>r. pbuf_memfind p m off s = Some r \<and> found_at m xs (unat off) r"
proof -
  obtain b where b: "pbufs s p = Some b" "unat (tot_len b) = length xs" using assms(1) by (auto simp: packet_Some)
  show ?thesis
  proof (cases "length m + unat off \<le> length xs")
    case True
    then have "unat (tot_len b - of_nat (length m)) = length xs - length m" using b(2) assms(2) by (simp add: unat_sub word_le_nat_alt unat_of_nat)
    then show ?thesis using find_loop_packet [OF assms, of "tot_len b - of_nat (length m)" off] True b by (simp add: pbuf_memfind_def)
  next
    case False
    then have "\<not> (\<exists>j \<ge> unat off. occurs_at m xs j)" by (auto simp: occurs_at_def)
    then show ?thesis using False b by (auto simp: pbuf_memfind_def found_at_def)
  qed
qed

lemma strstr_packet:
  assumes "packet s (Some p) ps xs" "m \<noteq> []" "length m < 0xFFFF" "length xs < 0xFFFF"
  shows "\<exists>r. pbuf_strstr p (Some m) s = Some r \<and> found_at m xs 0 r"
proof -
  obtain b where b: "pbufs s p = Some b" "unat (tot_len b) = length xs" using assms(1) by (auto simp: packet_Some)
  then have "tot_len b \<noteq> 0xFFFF" using assms(4) by auto
  then show ?thesis using memfind_packet [OF assms(1), of m 0] assms(2,3) b(1) by (simp add: pbuf_strstr_def)
qed

text \<open>
  C34. Whatever way a packet is cut into buffers, readers see one sequence of bytes: copying out any part, reading any byte, comparing, finding and the checksum give
  what they give on the sequence, also past its end; and every loop over the chain ends.\<close>

theorem packet_readers:
  assumes "packet s (Some p) ps xs" "length m \<le> 0xFFFF"
  shows "pbuf_copy_partial (Some p) True n off s = Some (of_nat (length (take (unat n) (drop (unat off) xs))), take (unat n) (drop (unat off) xs)) \<and>
    pbuf_try_get_at (Some p) off s = Some (if unat off < length xs then uint (xs ! unat off) else - 1) \<and>
    pbuf_memcmp p off m s = Some (if length xs < unat off + length m then 0xFFFF
      else if occurs_at m xs (unat off) then 0 else of_nat (same_prefix (drop (unat off) xs) m + 1)) \<and>
    (\<exists>r. pbuf_memfind p m off s = Some r \<and> found_at m xs (unat off) r) \<and>
    inet_chksum_pbuf (map (block_of s) ps) = inet_chksum a xs"
proof (intro conjI)
  show "pbuf_copy_partial (Some p) True n off s = Some (of_nat (length (take (unat n) (drop (unat off) xs))), take (unat n) (drop (unat off) xs))"
    using copy_out_packet [OF assms(1), of n off 0 "[]"] by (simp add: pbuf_copy_partial_def)
  show "inet_chksum_pbuf (map (block_of s) ps) = inet_chksum a xs"
    using chksum_pbuf_eq [OF chain_small_packet [OF assms(1)]] inet_chksum_eq [of xs a] packet_len [OF assms(1)] by (simp add: chain_bytes_packet [OF assms(1)])
qed (rule try_get_packet [OF assms(1)] memcmp_packet [OF assms] memfind_packet [OF assms])+

text \<open>A packet of two buffers at 16 and 48, the first with the bytes from 33 on.\<close>

definition two_buffers :: pstate where
  "two_buffers = \<lparr>pbufs = (\<lambda>_. None)(16 := Some \<lparr>p_next = Some 48, payload = 33, tot_len = 5, p_len = 3, type_internal = 0x82, p_flags = 0, p_ref = 1, if_idx = 0\<rparr>,
      48 := Some \<lparr>p_next = None, payload = 64, tot_len = 2, p_len = 2, type_internal = 0x82, p_flags = 0, p_ref = 1, if_idx = 0\<rparr>),
    bytes = (\<lambda>_. None)(32 := Some 0x99, 33 := Some 0x41, 34 := Some 0x42, 35 := Some 0x43, 64 := Some 0x44, 65 := Some 0x45),
    chunks = (\<lambda>_. None)(16 := Some (2, 20), 48 := Some (2, 20)), ooseq_pending = False, ooseq_calls = 0\<rparr>"

lemma rd_bytes_numeral: "rd_bytes a (numeral k) s = do { x \<leftarrow> bytes s a; xs \<leftarrow> rd_bytes (Suc a) (pred_numeral k) s; Some (x # xs) }"
  by (simp only: numeral_eq_Suc rd_bytes.simps)

lemma two_buffers_packet: "packet two_buffers (Some 16) [16, 48] [0x41, 0x42, 0x43, 0x44, 0x45]"
  by (simp add: two_buffers_def rd_bytes_numeral)

theorem packet_readers_witness:
  "pbuf_copy_partial (Some 16) True 9 2 two_buffers = Some (3, [0x43, 0x44, 0x45]) \<and> pbuf_memfind 16 [0x43, 0x44] 2 two_buffers = Some 2 \<and>
   pbuf_memcmp 16 1 [0x42, 0x43, 0x45] two_buffers = Some 3"
proof -
  note r = packet_readers [OF two_buffers_packet, of "[0x43, 0x44]" 9 2] packet_readers [OF two_buffers_packet, of "[0x42, 0x43, 0x45]" 9 1]
  have "occurs_at [0x43, 0x44] [0x41, 0x42, 0x43, 0x44, 0x45] 2" by (simp add: occurs_at_def)
  then have "unat q = 2" if "found_at [0x43, 0x44] [0x41, 0x42, 0x43, 0x44, 0x45] 2 q" for q :: u16
    using that unfolding found_at_def by (metis le_antisym le_refl not_le)
  then have "q = 2" if "found_at [0x43, 0x44] [0x41, 0x42, 0x43, 0x44, 0x45] 2 q" for q :: u16 using that by (simp add: word_unat_eq_iff)
  then have "pbuf_memfind 16 [0x43, 0x44] 2 two_buffers = Some 2" using r(1) by force
  moreover have "pbuf_copy_partial (Some 16) True 9 2 two_buffers = Some (3, [0x43, 0x44, 0x45])" using r(1) by simp
  moreover have "pbuf_memcmp 16 1 [0x42, 0x43, 0x45] two_buffers = Some 3" using r(2) by (simp add: occurs_at_def)
  ultimately show ?thesis by blast
qed

section \<open>Separation\<close>

definition prange :: "pstate \<Rightarrow> addr \<Rightarrow> addr set" where
  "prange s p = (case pbufs s p of None \<Rightarrow> {} | Some b \<Rightarrow> {payload b..<payload b + unat (p_len b)})"

definition pranges :: "pstate \<Rightarrow> addr list \<Rightarrow> addr set" where
  "pranges s ps = (\<Union>p \<in> set ps. prange s p)"

fun apart :: "pstate \<Rightarrow> addr list \<Rightarrow> bool" where
  "apart s [] \<longleftrightarrow> True"
| "apart s (p # ps) \<longleftrightarrow> p \<notin> set ps \<and> prange s p \<inter> pranges s ps = {} \<and> apart s ps"

lemma pranges_simps [simp]: "pranges s [] = {}" "pranges s (p # ps) = prange s p \<union> pranges s ps"
  by (simp_all add: pranges_def)

lemma pranges_append: "pranges s (ps @ qs) = pranges s ps \<union> pranges s qs"
  by (auto simp: pranges_def)

lemma apart_append: "apart s (ps @ qs) \<longleftrightarrow> apart s ps \<and> apart s qs \<and> set ps \<inter> set qs = {} \<and> pranges s ps \<inter> pranges s qs = {}"
  by (induction ps) (auto simp: pranges_append)

lemma prange_cong: "pbufs s' p = pbufs s p \<Longrightarrow> prange s' p = prange s p"
  by (simp add: prange_def)

lemma pranges_cong: "(\<And>p. p \<in> set ps \<Longrightarrow> pbufs s' p = pbufs s p) \<Longrightarrow> pranges s' ps = pranges s ps"
  unfolding pranges_def by (rule SUP_cong) (simp_all add: prange_def)

lemma apart_cong: "(\<And>p. p \<in> set ps \<Longrightarrow> pbufs s' p = pbufs s p) \<Longrightarrow> apart s' ps = apart s ps"
proof (induction ps)
  case (Cons p ps)
  then show ?case using pranges_cong [of ps s' s] prange_cong [of s' p s] by simp
qed simp

lemma rd_bytes_cong: "(\<And>a'. a \<le> a' \<Longrightarrow> a' < a + n \<Longrightarrow> bytes s' a' = bytes s a') \<Longrightarrow> rd_bytes a n s' = rd_bytes a n s"
proof (induction n arbitrary: a)
  case (Suc n)
  from Suc.prems have "bytes s' a = bytes s a" "\<And>a'. Suc a \<le> a' \<Longrightarrow> a' < Suc a + n \<Longrightarrow> bytes s' a' = bytes s a'" by simp_all
  with Suc.IH [of "Suc a"] show ?case by simp
qed simp

lemma packet_cong:
  "packet s po ps xs \<Longrightarrow> (\<And>p. p \<in> set ps \<Longrightarrow> pbufs s' p = pbufs s p) \<Longrightarrow> (\<And>a. a \<in> pranges s ps \<Longrightarrow> bytes s' a = bytes s a) \<Longrightarrow> packet s' po ps xs"
proof (induction ps arbitrary: po xs)
  case (Cons p ps)
  then obtain b where b: "po = Some p" "pbufs s p = Some b" "unat (tot_len b) = length xs" "unat (p_len b) \<le> length xs"
    "rd_bytes (payload b) (unat (p_len b)) s = Some (take (unat (p_len b)) xs)" "packet s (p_next b) ps (drop (unat (p_len b)) xs)" by (auto split: option.splits)
  have "rd_bytes (payload b) (unat (p_len b)) s' = rd_bytes (payload b) (unat (p_len b)) s" using Cons.prems(3) b(2) by (intro rd_bytes_cong) (simp add: prange_def)
  moreover have "packet s' (p_next b) ps (drop (unat (p_len b)) xs)" using Cons.IH [OF b(6)] Cons.prems(2,3) by simp
  moreover have "pbufs s' p = Some b" using Cons.prems(2) b(2) by simp
  ultimately show ?case using b by simp
qed simp

section \<open>Writing\<close>

definition stored :: "addr \<Rightarrow> u8 list \<Rightarrow> pstate \<Rightarrow> pstate" where
  "stored a xs s = s\<lparr>bytes := (\<lambda>x. if a \<le> x \<and> x < a + length xs then Some (xs ! (x - a)) else bytes s x)\<rparr>"

lemma stored_other [simp]: "pbufs (stored a xs s) = pbufs s" "chunks (stored a xs s) = chunks s"
  by (simp_all add: stored_def)

lemma stored_bytes: "bytes (stored a xs s) x = (if a \<le> x \<and> x < a + length xs then Some (xs ! (x - a)) else bytes s x)"
  by (simp add: stored_def)

lemma wr_bytes_stored: "(\<And>i. i < length xs \<Longrightarrow> bytes s (a + i) \<noteq> None) \<Longrightarrow> wr_bytes a xs s = Some (stored a xs s)"
proof (induction xs arbitrary: a s)
  case (Cons x xs)
  let ?s = "s\<lparr>bytes := (bytes s)(a \<mapsto> x)\<rparr>"
  have "bytes ?s (Suc a + i) \<noteq> None" if "i < length xs" for i using Cons.prems [of "Suc i"] that by simp
  from Cons.IH [OF this] have "wr_bytes (Suc a) xs ?s = Some (stored (Suc a) xs ?s)" .
  moreover have "stored (Suc a) xs ?s = stored a (x # xs) s" by (auto simp: stored_def fun_eq_iff nth_Cons' Suc_diff_Suc intro!: arg_cong [of _ _ "\<lambda>n. xs ! n"])
  moreover have "bytes s a \<noteq> None" using Cons.prems [of 0] by simp
  ultimately show ?case by auto
next
  case Nil
  have "(\<lambda>x. if a \<le> x \<and> x < a then Some ([] ! (x - a)) else bytes s x) = bytes s" by (rule ext) auto
  then show ?case by (simp add: stored_def)
qed

lemma rd_stored_within:
  assumes "rd_bytes a n s = Some xs" "off + length ys \<le> n"
  shows "rd_bytes a n (stored (a + off) ys s) = Some (take off xs @ ys @ drop (off + length ys) xs)"
  using assms by (auto simp: rd_bytes_iff stored_bytes nth_append)

lemma rd_mapped: "rd_bytes a n s = Some xs \<Longrightarrow> off + k \<le> n \<Longrightarrow> i < k \<Longrightarrow> bytes s (a + off + i) \<noteq> None"
  by (simp add: rd_bytes_iff add.assoc)

text \<open>What writing \<open>ys\<close> at \<open>off\<close> makes of \<open>xs\<close>, and what it leaves alone.\<close>

definition patch :: "nat \<Rightarrow> u8 list \<Rightarrow> u8 list \<Rightarrow> u8 list" where
  "patch off ys xs = take off xs @ ys @ drop (off + length ys) xs"

definition frame :: "pstate \<Rightarrow> pstate \<Rightarrow> addr set \<Rightarrow> bool" where
  "frame s s' A \<longleftrightarrow> pbufs s' = pbufs s \<and> chunks s' = chunks s \<and> (\<forall>a. a \<notin> A \<longrightarrow> bytes s' a = bytes s a)"

lemma frame_trans: "frame s s1 A \<Longrightarrow> frame s1 s2 B \<Longrightarrow> A \<subseteq> C \<Longrightarrow> B \<subseteq> C \<Longrightarrow> frame s s2 C"
  by (simp add: frame_def) (metis subsetD)

lemma frame_stored: "{a..<a + length xs} \<subseteq> A \<Longrightarrow> frame s (stored a xs s) A"
  by (auto simp: frame_def stored_bytes)

lemma frame_packet: "frame s s' A \<Longrightarrow> packet s po ps xs \<Longrightarrow> pranges s ps \<inter> A = {} \<Longrightarrow> packet s' po ps xs"
  by (erule packet_cong) (auto simp: frame_def)

lemma patch_len: "off + length ys \<le> length xs \<Longrightarrow> length (patch off ys xs) = length xs"
  by (simp add: patch_def)

lemma take_loop_packet:
  "packet s po ps xs \<Longrightarrow> apart s ps \<Longrightarrow> length ys \<le> length xs \<Longrightarrow>
    \<exists>s'. take_loop po ys s = Some s' \<and> packet s' po ps (patch 0 ys xs) \<and> frame s s' (pranges s ps)"
proof (induction ps arbitrary: po xs ys s)
  case Nil
  then show ?case by (subst take_loop.simps) (simp add: patch_def frame_def)
next
  case (Cons p ps)
  then obtain b where b: "po = Some p" "pbufs s p = Some b" "unat (tot_len b) = length xs" "unat (p_len b) \<le> length xs"
    "rd_bytes (payload b) (unat (p_len b)) s = Some (take (unat (p_len b)) xs)" "packet s (p_next b) ps (drop (unat (p_len b)) xs)" by (auto split: option.splits)
  show ?case
  proof (cases "ys = []")
    case True
    then show ?thesis using Cons.prems(1) by (subst take_loop.simps) (simp add: patch_def frame_def)
  next
    case False
    let ?l = "unat (p_len b)"
    define k where "k = min (length ys) ?l"
    let ?s = "stored (payload b) (take k ys) s"
    have w: "wr_bytes (payload b) (take k ys) s = Some ?s" using rd_mapped [OF b(5), of 0 k] by (intro wr_bytes_stored) (simp add: k_def)
    have pr: "{payload b..<payload b + length (take k ys)} \<subseteq> prange s p" by (auto simp: prange_def b(2) k_def)
    have 1: "packet ?s (p_next b) ps (drop ?l xs)" using Cons.prems(2) by (intro frame_packet [OF frame_stored [OF pr] b(6)]) auto
    have "apart ?s ps" using Cons.prems(2) apart_cong [of ps ?s s] by simp
    moreover have "length (drop k ys) \<le> length (drop ?l xs)" using Cons.prems(3) by (auto simp: k_def)
    ultimately obtain s' where s': "take_loop (p_next b) (drop k ys) ?s = Some s'" "packet s' (p_next b) ps (patch 0 (drop k ys) (drop ?l xs))" "frame ?s s' (pranges s ps)"
      using Cons.IH [OF 1, of "drop k ys"] pranges_cong [of ps ?s s] by auto
    have "take_loop po ys s = Some s'" using False w s'(1) by (subst take_loop.simps) (simp add: b(1,2) k_def [symmetric] Let_def)
    moreover have "packet s' po (p # ps) (patch 0 ys xs)"
    proof -
      have "rd_bytes (payload b) ?l ?s = Some (take k ys @ drop k (take ?l xs))" using rd_stored_within [OF b(5), of 0 "take k ys"] by (simp add: k_def)
      then have r: "rd_bytes (payload b) ?l s' = Some (take k ys @ drop k (take ?l xs))"
        using s'(3) Cons.prems(2) by (subst rd_bytes_cong [of _ _ _ ?s]) (auto simp: frame_def prange_def b(2))
      have t: "take k ys @ drop k (take ?l xs) = take ?l (patch 0 ys xs)" using Cons.prems(3) b(4) by (auto simp: k_def patch_def min_def drop_take)
      have d: "patch 0 (drop k ys) (drop ?l xs) = drop ?l (patch 0 ys xs)" using Cons.prems(3) b(4) by (auto simp: k_def patch_def min_def)
      have "pbufs s' p = Some b" using s'(3) b(2) by (simp add: frame_def)
      then show ?thesis using b r s'(2) Cons.prems(3) patch_len [of 0 ys xs] by (simp add: t d)
    qed
    moreover have "frame s s' (pranges s (p # ps))" by (rule frame_trans [OF frame_stored [OF pr] s'(3)]) auto
    ultimately show ?thesis by blast
  qed
qed

lemma patch_take:
  assumes "k + length ys \<le> l" "l \<le> length zs"
  shows "patch k ys (take l zs) = take l (patch k ys zs)" "drop l (patch k ys zs) = drop l zs"
proof -
  have "k \<le> l" using assms(1) by simp
  then have "take k (take l zs) = take k zs" "take l (take k zs) = take k zs" by (simp_all add: min_def)
  then show "patch k ys (take l zs) = take l (patch k ys zs)" using assms by (simp add: patch_def drop_take)
  show "drop l (patch k ys zs) = drop l zs" using assms by (simp add: patch_def)
qed

lemma patch_patch:
  assumes "n \<le> length ys" "k + length ys \<le> length zs"
  shows "patch (k + n) (drop n ys) (patch k (take n ys) zs) = patch k ys zs"
proof -
  let ?A = "take k zs @ take n ys"
  have A: "length ?A = k + n" using assms by simp
  have "patch k (take n ys) zs = ?A @ drop (k + n) zs" using assms by (simp add: patch_def min_def)
  then have "patch (k + n) (drop n ys) (patch k (take n ys) zs) = ?A @ drop n ys @ drop (k + n + (length ys - n)) (?A @ drop (k + n) zs)" using A by (simp add: patch_def)
  also have "drop (k + n + (length ys - n)) (?A @ drop (k + n) zs) = drop (k + length ys) zs" using A assms by (simp add: add.commute)
  finally show ?thesis by (simp add: patch_def)
qed

lemma packet_unique: "packet s po ps xs \<Longrightarrow> packet s qo ps ys \<Longrightarrow> po = qo \<and> xs = ys"
  using chain_bytes_packet [of s po ps xs] chain_bytes_packet [of s qo ps ys] by (cases ps) auto

lemma packet_replace:
  "packet s po (as @ qs) xs \<Longrightarrow> apart s (as @ qs) \<Longrightarrow> packet s qo qs zs \<Longrightarrow> frame s s' (pranges s qs) \<Longrightarrow> packet s' qo qs zs' \<Longrightarrow> length zs' = length zs \<Longrightarrow>
    length zs \<le> length xs \<and> packet s' po (as @ qs) (take (length xs - length zs) xs @ zs')"
proof (induction as arbitrary: po xs)
  case Nil
  then have "po = qo" "xs = zs" using packet_unique by auto
  then show ?case using Nil by simp
next
  case (Cons p as)
  then obtain b where b: "po = Some p" "pbufs s p = Some b" "unat (tot_len b) = length xs" "unat (p_len b) \<le> length xs"
    "rd_bytes (payload b) (unat (p_len b)) s = Some (take (unat (p_len b)) xs)" "packet s (p_next b) (as @ qs) (drop (unat (p_len b)) xs)" by (auto split: option.splits)
  let ?l = "unat (p_len b)" and ?n = "length xs - length zs"
  from Cons.IH [OF b(6)] Cons.prems have ih: "length zs \<le> length xs - ?l" "packet s' (p_next b) (as @ qs) (take (?n - ?l) (drop ?l xs) @ zs')" by (simp_all add: add.commute)
  have r: "rd_bytes (payload b) ?l s' = rd_bytes (payload b) ?l s"
    using Cons.prems(2,4) by (intro rd_bytes_cong) (auto simp: frame_def prange_def b(2) pranges_append)
  have p': "pbufs s' p = Some b" using Cons.prems(4) b(2) by (simp add: frame_def)
  have le: "?l \<le> ?n" using ih(1) b(4) by linarith
  then have t: "take ?l (take ?n xs @ zs') = take ?l xs" "drop ?l (take ?n xs @ zs') = take (?n - ?l) (drop ?l xs) @ zs'" using b(4) by (simp_all add: drop_take min_def)
  show ?case using b ih le r p' Cons.prems(6) t by simp
qed

lemma take_packet:
  assumes "packet s (Some p) ps xs" "apart s ps"
  shows "if length ys \<le> length xs then \<exists>s'. pbuf_take (Some p) (Some ys) s = Some (ERR_OK, s') \<and> packet s' (Some p) ps (patch 0 ys xs) \<and> frame s s' (pranges s ps)
    else pbuf_take (Some p) (Some ys) s = Some (ERR_MEM, s)"
proof -
  obtain b where b: "pbufs s p = Some b" "unat (tot_len b) = length xs" using assms(1) by (auto simp: packet_Some)
  then show ?thesis using take_loop_packet [OF assms, of ys] by (auto simp: pbuf_take_def)
qed

lemma write_head:
  assumes "packet s (Some q) (q # qs) zs" "apart s (q # qs)" "pbufs s q = Some b" "k < unat (p_len b)" "k + length ys \<le> length zs" "n = min (unat (p_len b) - k) (length ys)"
  shows "\<exists>s'. wr_bytes (payload b + k) (take n ys) s = Some s' \<and> packet s' (Some q) (q # qs) (patch k (take n ys) zs) \<and> frame s s' (prange s q)"
proof -
  let ?l = "unat (p_len b)" and ?s = "stored (payload b + k) (take n ys) s"
  have b: "unat (tot_len b) = length zs" "?l \<le> length zs" "rd_bytes (payload b) ?l s = Some (take ?l zs)" "packet s (p_next b) qs (drop ?l zs)" using assms(1,3) by auto
  have kn: "k + n \<le> ?l" "length (take n ys) = n" using assms(4,6) by auto
  have w: "wr_bytes (payload b + k) (take n ys) s = Some ?s" using rd_mapped [OF b(3), of k n] kn by (intro wr_bytes_stored) simp
  have "{payload b + k..<payload b + k + length (take n ys)} \<subseteq> prange s q" using kn by (auto simp: prange_def assms(3))
  then have f: "frame s ?s (prange s q)" by (rule frame_stored)
  have "packet ?s (p_next b) qs (drop ?l zs)" using assms(2) by (intro frame_packet [OF f b(4)]) auto
  moreover have "rd_bytes (payload b) ?l ?s = Some (patch k (take n ys) (take ?l zs))" using rd_stored_within [OF b(3), of k "take n ys"] kn by (simp add: patch_def)
  moreover have "patch k (take n ys) (take ?l zs) = take ?l (patch k (take n ys) zs)" "drop ?l (patch k (take n ys) zs) = drop ?l zs" "length (patch k (take n ys) zs) = length zs"
    using patch_take [of k "take n ys" ?l zs] patch_len [of k "take n ys" zs] kn b(2) by simp_all
  ultimately have "packet ?s (Some q) (q # qs) (patch k (take n ys) zs)" using b assms(3) by simp
  then show ?thesis using w f by blast
qed

lemma take_at_head:
  assumes "packet s (Some q) (q # qs) zs" "apart s (q # qs)" "pbufs s q = Some b" "k < unat (p_len b)" "k + length ys \<le> length zs" "n = min (unat (p_len b) - k) (length ys)"
  shows "\<exists>s1 s'. wr_bytes (payload b + k) (take n ys) s = Some s1 \<and>
    (if length ys - n > 0 then pbuf_take (p_next b) (Some (drop n ys)) s1 = Some (ERR_OK, s') else s1 = s') \<and>
    packet s' (Some q) (q # qs) (patch k ys zs) \<and> frame s s' (pranges s (q # qs))"
proof -
  from write_head [OF assms] obtain s1 where s1: "wr_bytes (payload b + k) (take n ys) s = Some s1" "packet s1 (Some q) (q # qs) (patch k (take n ys) zs)" "frame s s1 (prange s q)" by blast
  show ?thesis
  proof (cases "length ys - n > 0")
    case False
    then have "take n ys = ys" by simp
    then show ?thesis using s1 False frame_trans [OF s1(3), of s1 "{}"] by (auto simp: frame_def)
  next
    case True
    let ?l = "unat (p_len b)" and ?zs = "patch k (take n ys) zs"
    have n: "k + n = ?l" "n \<le> length ys" using True assms(4,6) by auto
    have b1: "pbufs s1 q = Some b" using s1(3) assms(3) by (simp add: frame_def)
    then have b: "?l \<le> length ?zs" "packet s1 (p_next b) qs (drop ?l ?zs)" using s1(2) by auto
    have len: "length ?zs = length zs" using n assms(5) by (intro patch_len) simp
    have le: "length (drop n ys) \<le> length (drop ?l ?zs)" using assms(5) n len by simp
    then obtain r where r: "p_next b = Some r" using b(2) True by (cases "p_next b") (auto simp: packet_None)
    have fp: "pbufs s1 = pbufs s" using s1(3) by (simp add: frame_def)
    have ap: "apart s1 (q # qs)" using assms(2) apart_cong [of "q # qs" s1 s] fp by simp
    from take_packet [of s1 r qs "drop ?l ?zs" "drop n ys"] b(2) r ap le obtain s' where
      s': "pbuf_take (p_next b) (Some (drop n ys)) s1 = Some (ERR_OK, s')" "packet s' (p_next b) qs (patch 0 (drop n ys) (drop ?l ?zs))" "frame s1 s' (pranges s1 qs)" by auto
    have "packet s' (Some q) ([q] @ qs) (take (length ?zs - length (drop ?l ?zs)) ?zs @ patch 0 (drop n ys) (drop ?l ?zs))"
      using packet_replace [of s1 "Some q" "[q]" qs ?zs "p_next b" "drop ?l ?zs" s'] s1(2) ap b(2) s' le patch_len by auto
    moreover have "take (length ?zs - length (drop ?l ?zs)) ?zs @ patch 0 (drop n ys) (drop ?l ?zs) = patch (k + n) (drop n ys) ?zs" using b(1) n(1) unfolding patch_def [of 0] patch_def [of "k + n"] by (simp add: add.commute)
    ultimately have "packet s' (Some q) (q # qs) (patch k ys zs)" unfolding append_Cons append_Nil patch_patch [OF n(2) assms(5)] by (simp only:)
    moreover have "frame s s' (pranges s (q # qs))" using frame_trans [OF s1(3) s'(3)] pranges_cong [of qs s1 s] fp by auto
    ultimately show ?thesis using s1(1) s'(1) True by auto
  qed
qed

lemma patch_suffix:
  assumes "k \<le> off" "off + length ys \<le> length xs"
  shows "take (length xs - length (drop (off - k) xs)) xs @ patch k ys (drop (off - k) xs) = patch off ys xs"
proof -
  have "take (off - k) xs @ take k (drop (off - k) xs) = take off xs" using assms(1) take_add [of "off - k" k xs] by simp
  then show ?thesis using assms by (simp add: patch_def add.commute append_assoc [symmetric] del: append_assoc)
qed

lemma patch_at:
  assumes "packet s po (as @ q # qs) xs" "apart s (as @ q # qs)" "packet s (Some q) (q # qs) (drop (off - k) xs)" "k \<le> off" "off + length ys \<le> length xs"
    "packet s' (Some q) (q # qs) (patch k ys (drop (off - k) xs))" "frame s s' (pranges s (q # qs))"
  shows "packet s' po (as @ q # qs) (patch off ys xs)"
proof -
  have "length (patch k ys (drop (off - k) xs)) = length (drop (off - k) xs)" using assms(4,5) by (intro patch_len) simp
  from packet_replace [OF assms(1,2,3,7,6) this] patch_suffix [OF assms(4,5)] show ?thesis by simp
qed

lemma take_at_packet:
  assumes "packet s po ps xs" "apart s ps"
  shows "if unat off < length xs \<and> unat off + length ys \<le> length xs
    then \<exists>s'. pbuf_take_at po ys off s = Some (ERR_OK, s') \<and> packet s' po ps (patch (unat off) ys xs) \<and> frame s s' (pranges s ps)
    else pbuf_take_at po ys off s = Some (ERR_MEM, s)"
proof (cases "unat off < length xs")
  case True
  from skip_packet [OF assms(1) True] obtain as q qs b k where k: "pbuf_skip_const po off s = Some (Some q, k)" "pbufs s q = Some b" "unat k < unat (p_len b)" "unat k \<le> unat off"
    "ps = as @ q # qs" "packet s (Some q) (q # qs) (drop (unat off - unat k) xs)" by blast
  let ?zs = "drop (unat off - unat k) xs"
  have tot: "unat (tot_len b) = length ?zs" using k(2,6) by simp
  show ?thesis
  proof (cases "unat off + length ys \<le> length xs")
    case fits: True
    let ?n = "min (unat (p_len b) - unat k) (length ys)"
    have le: "unat k + length ys \<le> length ?zs" using fits k(4) by simp
    have ap: "apart s (q # qs)" using assms(2) k(5) by (simp add: apart_append)
    from take_at_head [OF k(6) ap k(2,3) le refl] obtain s1 s' where s': "wr_bytes (payload b + unat k) (take ?n ys) s = Some s1"
      "if length ys - ?n > 0 then pbuf_take (p_next b) (Some (drop ?n ys)) s1 = Some (ERR_OK, s') else s1 = s'"
      "packet s' (Some q) (q # qs) (patch (unat k) ys ?zs)" "frame s s' (pranges s (q # qs))" by blast
    have "pbuf_take_at po ys off s = Some (ERR_OK, s')"
      using k(1,2,3) s'(1,2) tot le by (auto simp: pbuf_take_at_def pbuf_skip_def word_less_nat_alt Let_def split: if_splits)
    moreover have "packet s' po ps (patch (unat off) ys xs)" using patch_at [OF _ _ k(6,4) fits s'(3,4)] assms k(5) by blast
    moreover have "frame s s' (pranges s ps)" using s'(4) k(5) by (auto simp: frame_def pranges_append)
    ultimately show ?thesis using True fits by auto
  next
    case False
    then have "length ?zs < unat k + length ys" using k(4) True by simp
    then show ?thesis using k(1,2) tot False by (simp add: pbuf_take_at_def pbuf_skip_def)
  qed
next
  case False
  then show ?thesis using skip_none [OF assms(1), of off] by (auto simp: pbuf_take_at_def pbuf_skip_def)
qed

lemma put_at_packet:
  assumes "packet s po ps xs" "apart s ps"
  shows "\<exists>s'. pbuf_put_at po off x s = Some s' \<and> packet s' po ps (if unat off < length xs then patch (unat off) [x] xs else xs) \<and> frame s s' (pranges s ps)"
proof (cases "unat off < length xs")
  case True
  from skip_packet [OF assms(1) True] obtain as q qs b k where k: "pbuf_skip_const po off s = Some (Some q, k)" "pbufs s q = Some b" "unat k < unat (p_len b)" "unat k \<le> unat off"
    "ps = as @ q # qs" "packet s (Some q) (q # qs) (drop (unat off - unat k) xs)" by blast
  let ?zs = "drop (unat off - unat k) xs"
  have le: "unat k + length [x] \<le> length ?zs" using True k(4) by simp
  have ap: "apart s (q # qs)" using assms(2) k(5) by (simp add: apart_append)
  have "1 = min (unat (p_len b) - unat k) (length [x])" using k(3) by simp
  from write_head [OF k(6) ap k(2,3) le this] obtain s' where s': "wr_bytes (payload b + unat k) [x] s = Some s'" "packet s' (Some q) (q # qs) (patch (unat k) [x] ?zs)"
    "frame s s' (prange s q)" by auto
  have f: "frame s s' (pranges s (q # qs))" using s'(3) by (auto simp: frame_def)
  have "packet s' po ps (patch (unat off) [x] xs)" using patch_at [OF _ _ k(6,4) _ s'(2) f] assms k(5) True by simp
  moreover have "frame s s' (pranges s ps)" using f k(5) by (auto simp: frame_def pranges_append)
  ultimately show ?thesis using k(1-3) s'(1) True by (simp add: pbuf_put_at_def pbuf_skip_def word_less_nat_alt)
next
  case False
  then show ?thesis using skip_none [OF assms(1), of off] assms(1) by (auto simp: pbuf_put_at_def pbuf_skip_def frame_def)
qed

text \<open>
  C35. Data written at any offset of a packet, which may begin and end within buffers and cover several, change exactly these bytes of it and no other byte of memory;
  a write that does not fit into the packet is refused and changes nothing.\<close>

theorem packet_writers:
  assumes "packet s (Some p) ps xs" "apart s ps"
  shows "(if unat off < length xs \<and> unat off + length ys \<le> length xs
      then \<exists>s'. pbuf_take_at (Some p) ys off s = Some (ERR_OK, s') \<and> packet s' (Some p) ps (patch (unat off) ys xs) \<and> frame s s' (pranges s ps)
      else pbuf_take_at (Some p) ys off s = Some (ERR_MEM, s)) \<and>
    (\<exists>s'. pbuf_put_at (Some p) off x s = Some s' \<and> packet s' (Some p) ps (if unat off < length xs then patch (unat off) [x] xs else xs) \<and> frame s s' (pranges s ps)) \<and>
    (if length ys \<le> length xs
      then \<exists>s'. pbuf_take (Some p) (Some ys) s = Some (ERR_OK, s') \<and> packet s' (Some p) ps (patch 0 ys xs) \<and> frame s s' (pranges s ps)
      else pbuf_take (Some p) (Some ys) s = Some (ERR_MEM, s))"
  using take_at_packet [OF assms, of off ys] put_at_packet [OF assms, of off x] take_packet [OF assms, of ys] by (intro conjI)

lemma two_buffers_apart: "apart two_buffers [16, 48]"
  by (auto simp: prange_def two_buffers_def)

theorem packet_writers_witness:
  "\<exists>s'. pbuf_take_at (Some 16) [0x61, 0x62] 2 two_buffers = Some (ERR_OK, s') \<and> packet s' (Some 16) [16, 48] [0x41, 0x42, 0x61, 0x62, 0x45]"
proof -
  have "\<exists>s'. pbuf_take_at (Some 16) [0x61, 0x62] 2 two_buffers = Some (ERR_OK, s') \<and> packet s' (Some 16) [16, 48] (patch 2 [0x61, 0x62] [0x41, 0x42, 0x43, 0x44, 0x45])"
    using packet_writers [OF two_buffers_packet two_buffers_apart, of 2 "[0x61, 0x62]"] by (simp del: packet.simps) blast
  then show ?thesis by (simp add: patch_def del: packet.simps)
qed

end
