(* ===== verification/PbufRefs.thy ===== *)
theory PbufRefs
  imports PbufLaws
begin

text \<open>
  Reference counts of packet buffers: \<^term>\<open>refs_ok\<close> is the invariant of all buffers with the references their users hold. Every operation keeps it and returns, so that
  users of any calls are safe and leak nothing. Also concatenation, headers, and the chains of 256 buffers that \<^verbatim>\<open>pbuf_dechain\<close> does not handle.
\<close>

section \<open>Links and references\<close>

definition link :: "pstate \<Rightarrow> (addr \<times> addr) set" where
  "link s = {(p, q). \<exists>b. pbufs s p = Some b \<and> p_next b = Some q}"

definition incoming :: "pstate \<Rightarrow> addr \<Rightarrow> nat" where
  "incoming s p = card {q. (q, p) \<in> link s}"

definition chunk_ok :: "pstate \<Rightarrow> addr \<Rightarrow> pbuf \<Rightarrow> bool" where
  "chunk_ok s p b \<longleftrightarrow> \<not> is_custom b \<and> pbuf_get_allocsrc b \<in> {0, 1, 2} \<and> (\<exists>n. chunks s p = Some (pbuf_get_allocsrc b, n))"

text \<open>\<open>R p\<close> is the number of references to the buffer \<open>p\<close> that the users hold.\<close>

definition refs_ok :: "pstate \<Rightarrow> (addr \<Rightarrow> nat) \<Rightarrow> bool" where
  "refs_ok s R \<longleftrightarrow> finite (dom (pbufs s)) \<and> acyclic (link s) \<and>
     (\<forall>p b. pbufs s p = Some b \<longrightarrow> unat (p_ref b) = R p + incoming s p \<and> p_ref b \<noteq> 0 \<and> chunk_ok s p b) \<and>
     (\<forall>p q. (p, q) \<in> link s \<longrightarrow> pbufs s q \<noteq> None) \<and>
     (\<forall>p. pbufs s p = None \<longrightarrow> R p = 0 \<and> chunks s p = None)"

lemma link_finite: "finite (dom (pbufs s)) \<Longrightarrow> finite {q. (q, p) \<in> link s}"
  by (rule finite_subset [of _ "dom (pbufs s)"]) (auto simp: link_def)

lemma refs_okD:
  assumes "refs_ok s R" "pbufs s p = Some b"
  shows "unat (p_ref b) = R p + incoming s p" "p_ref b \<noteq> 0" "chunk_ok s p b" "p_next b = Some q \<Longrightarrow> pbufs s q \<noteq> None"
proof -
  show "unat (p_ref b) = R p + incoming s p" "p_ref b \<noteq> 0" "chunk_ok s p b" using assms by (simp_all add: refs_ok_def)
  have "pbufs s q \<noteq> None" if "(p, q) \<in> link s" using assms(1) that unfolding refs_ok_def by blast
  then show "p_next b = Some q \<Longrightarrow> pbufs s q \<noteq> None" using assms(2) by (simp add: link_def)
qed

lemma refs_live: "refs_ok s R \<Longrightarrow> R p > 0 \<Longrightarrow> \<exists>b. pbufs s p = Some b"
  by (auto simp: refs_ok_def)

text \<open>Changes of other fields than the links.\<close>

lemma link_upd:
  assumes "pbufs s p = Some b" "pbufs s' = (pbufs s)(p \<mapsto> c)" "p_next c = p_next b"
  shows "link s' = link s"
  using assms by (auto simp: link_def split: if_splits)

lemma refs_ok_ref:
  assumes "refs_ok s R" "pbufs s p = Some b" "pbufs s' = (pbufs s)(p \<mapsto> c)" "chunks s' = chunks s" "p_next c = p_next b" "type_internal c = type_internal b" "p_flags c = p_flags b"
    "p_ref c \<noteq> 0" "unat (p_ref c) = n + incoming s p"
  shows "refs_ok s' (R(p := n))"
proof -
  have l: "link s' = link s" by (rule link_upd [OF assms(2,3,5)])
  then have i: "incoming s' q = incoming s q" for q by (simp add: incoming_def)
  have "dom (pbufs s') = dom (pbufs s)" using assms(2,3) by auto
  moreover have "chunk_ok s' q d \<longleftrightarrow> chunk_ok s q d" for q d using assms(4) by (simp add: chunk_ok_def)
  moreover have "chunk_ok s p c" using refs_okD(3) [OF assms(1,2)] assms(6,7) by (simp add: chunk_ok_def is_custom_def pbuf_get_allocsrc_def)
  ultimately show ?thesis using assms(1) assms(8,9) unfolding refs_ok_def l i by (auto simp: assms(3,4))
qed

section \<open>Freeing\<close>

lemma release_ok: "chunk_ok s p b \<Longrightarrow> \<exists>n. chunks s p = Some (pbuf_get_allocsrc b, n) \<and>
    release E p b s = Some (s\<lparr>chunks := (chunks s)(p := None), pbufs := (pbufs s)(p := None), bytes := (\<lambda>a. if p + SIZEOF_STRUCT_PBUF \<le> a \<and> a < p + n then None else bytes s a)\<rparr>)"
  by (auto simp: chunk_ok_def release_def free_chunk_def)

lemma link_remove: "pbufs s' = (pbufs s)(p := None) \<Longrightarrow> link s' = link s - {p} \<times> UNIV"
  by (auto simp: link_def split: if_splits)

lemma incoming_remove:
  assumes "finite (dom (pbufs s))" "pbufs s p = Some b" "pbufs s' = (pbufs s)(p := None)"
  shows "incoming s' q + (if p_next b = Some q then 1 else 0) = incoming s q"
proof -
  have e: "{r. (r, q) \<in> link s'} = {r. (r, q) \<in> link s} - {p}" using link_remove [OF assms(3)] by auto
  have "p \<in> {r. (r, q) \<in> link s} \<longleftrightarrow> p_next b = Some q" using assms(2) by (simp add: link_def)
  then show ?thesis unfolding incoming_def e using card_Suc_Diff1 [OF link_finite [OF assms(1), of q], of p] by auto
qed

lemma refs_ok_remove:
  assumes "refs_ok s R" "pbufs s p = Some b" "p_ref b = 1" "R p = 1" "pbufs s' = (pbufs s)(p := None)" "chunks s' = (chunks s)(p := None)"
    "R' = (\<lambda>q. if q = p then 0 else R q + (if p_next b = Some q then 1 else 0))"
  shows "refs_ok s' R'"
proof -
  have fin: "finite (dom (pbufs s))" using assms(1) by (simp add: refs_ok_def)
  have in0: "incoming s p = 0" using refs_okD(1) [OF assms(1,2)] assms(3,4) by simp
  then have np: "(q, p) \<notin> link s" for q using link_finite [OF fin, of p] by (auto simp: incoming_def)
  have l: "link s' = link s - {p} \<times> UNIV" by (rule link_remove [OF assms(5)])
  note i = incoming_remove [OF fin assms(2,5)]
  have "unat (p_ref c) = R' q + incoming s' q \<and> p_ref c \<noteq> 0 \<and> chunk_ok s' q c" if "pbufs s' q = Some c" for q c
  proof -
    have q: "q \<noteq> p" "pbufs s q = Some c" using that assms(5) by (auto split: if_splits)
    then have "chunk_ok s' q c" using refs_okD(3) [OF assms(1) q(2)] assms(6) by (simp add: chunk_ok_def)
    then show ?thesis using refs_okD(1,2) [OF assms(1) q(2)] i [of q] q(1) assms(7) by auto
  qed
  moreover have "pbufs s' q \<noteq> None" if "(r, q) \<in> link s'" for r q using that l np assms(1,5) by (auto simp: refs_ok_def)
  moreover have "R' q = 0 \<and> chunks s' q = None" if "pbufs s' q = None" for q
  proof (cases "q = p")
    case False
    then have "pbufs s q = None" using that assms(5) by simp
    moreover from this have "p_next b \<noteq> Some q" using refs_okD(4) [OF assms(1,2)] by auto
    ultimately show ?thesis using False assms(1,6,7) by (simp add: refs_ok_def)
  qed (use assms(6,7) in simp)
  moreover have "acyclic (link s')" using assms(1) l by (auto simp: refs_ok_def intro: acyclic_subset)
  moreover have "finite (dom (pbufs s'))" using fin assms(5) by simp
  ultimately show ?thesis unfolding refs_ok_def by blast
qed

text \<open>What is left after freeing has only its reference count changed.\<close>

definition kept :: "pstate \<Rightarrow> pstate \<Rightarrow> bool" where
  "kept s s' \<longleftrightarrow> (\<forall>q b. pbufs s' q = Some b \<longrightarrow> (\<exists>c. pbufs s q = Some c \<and> b = c\<lparr>p_ref := p_ref b\<rparr>)) \<and> (\<forall>q. chunks s' q \<noteq> None \<longrightarrow> chunks s' q = chunks s q)"

lemma kept_refl: "kept s s"
  by (auto simp: kept_def)

lemma kept_trans: "kept s s1 \<Longrightarrow> kept s1 s2 \<Longrightarrow> kept s s2"
  unfolding kept_def by (metis (no_types, lifting) pbuf.surjective pbuf.update_convs(7) pbuf.select_convs(7))

lemma upd_Some: "pbufs s p = Some b \<Longrightarrow> upd p f s = Some (s\<lparr>pbufs := (pbufs s)(p \<mapsto> f b)\<rparr>)"
  by (simp add: upd_def)

text \<open>The result counts the buffers that are gone.\<close>

definition counted :: "pstate \<Rightarrow> pstate \<Rightarrow> u8 \<Rightarrow> u8 \<Rightarrow> bool" where
  "counted s s' k c \<longleftrightarrow> card (dom (pbufs s')) \<le> card (dom (pbufs s)) \<and> c = k + of_nat (card (dom (pbufs s)) - card (dom (pbufs s')))"

lemma free_loop_ok:
  "refs_ok s R \<Longrightarrow> R p > 0 \<Longrightarrow> \<exists>c s'. free_loop E (Some p) k s = Some (c, s') \<and> refs_ok s' (R(p := R p - 1)) \<and> kept s s' \<and> counted s s' k c \<and>
    (\<forall>b. pbufs s p = Some b \<and> p_ref b = 1 \<longrightarrow> pbufs s' p = None)"
proof (induction "card (dom (pbufs s))" arbitrary: s R p k rule: less_induct)
  case less
  obtain b where b: "pbufs s p = Some b" using refs_live [OF less.prems] by blast
  let ?c = "b\<lparr>p_ref := p_ref b - 1\<rparr>"
  let ?s1 = "s\<lparr>pbufs := (pbufs s)(p \<mapsto> ?c)\<rparr>"
  note r = refs_okD [OF less.prems(1) b]
  have one: "(1::u8) \<le> p_ref b" using r(2) by (simp add: word_le_nat_alt) (metis Suc_leI unat_gt_0)
  then have u: "unat (p_ref b - 1) = R p - 1 + incoming s p" using r(1) less.prems(2) by (simp add: unat_sub)
  have pos: "p_ref b > 0" using r(2) by (simp add: word_greater_zero_iff)
  have st: "free_loop E (Some p) k s = (if p_ref b - 1 = 0 then do { s2 \<leftarrow> release E p b ?s1; free_loop E (p_next b) (k + 1) s2 } else Some (k, ?s1))"
    using pos by (subst free_loop.simps) (simp add: b upd_Some)
  show ?case
  proof (cases "p_ref b - 1 = 0")
    case False
    have "refs_ok ?s1 (R(p := R p - 1))" using False u by (intro refs_ok_ref [OF less.prems(1) b, of _ ?c]) simp_all
    moreover have "kept s ?s1" using b by (auto simp: kept_def split: if_splits)
    moreover have "counted s ?s1 k k" using b by (simp add: counted_def insert_absorb domI)
    ultimately show ?thesis using st False b by auto
  next
    case True
    then have ref1: "p_ref b = 1" by simp
    then have R1: "R p = 1" "incoming s p = 0" using r(1) less.prems(2) by auto
    have "chunk_ok ?s1 p b" using r(3) by (simp add: chunk_ok_def)
    from release_ok [OF this, of E] obtain s2 where s2: "release E p b ?s1 = Some s2" "pbufs s2 = (pbufs s)(p := None)" "chunks s2 = (chunks s)(p := None)" by auto
    define R' where "R' = (\<lambda>q. if q = p then 0 else R q + (if p_next b = Some q then 1 else 0))"
    have ok2: "refs_ok s2 R'" by (rule refs_ok_remove [OF less.prems(1) b ref1 R1(1) s2(2,3) R'_def])
    have k2: "kept s s2" using s2(2,3) by (auto simp: kept_def split: if_splits)
    have fin: "finite (dom (pbufs s))" using less.prems(1) by (simp add: refs_ok_def)
    have dom2: "card (dom (pbufs s)) = Suc (card (dom (pbufs s2)))" using card_Suc_Diff1 [OF fin, of p] b s2(2) by (simp add: domI)
    have st2: "free_loop E (Some p) k s = free_loop E (p_next b) (k + 1) s2" using st True s2(1) by simp
    show ?thesis
    proof (cases "p_next b")
      case None
      then have "R' = R(p := R p - 1)" using R1(1) by (auto simp: R'_def)
      moreover have "free_loop E (p_next b) (k + 1) s2 = Some (k + 1, s2)" using None by (subst free_loop.simps) simp
      moreover have "counted s s2 k (k + 1)" using dom2 by (simp add: counted_def)
      ultimately show ?thesis using st2 ok2 k2 s2(2) by auto
    next
      case (Some q)
      have "finite {r. (r, p) \<in> link s}" using less.prems(1) link_finite by (simp add: refs_ok_def)
      then have "(p, p) \<notin> link s" using R1(2) by (auto simp: incoming_def)
      then have qp: "q \<noteq> p" using Some b by (auto simp: link_def)
      have "card (dom (pbufs s2)) < card (dom (pbufs s))" using dom2 by simp
      moreover have "R' q > 0" using Some qp by (simp add: R'_def)
      ultimately obtain c s' where s': "free_loop E (Some q) (k + 1) s2 = Some (c, s')" "refs_ok s' (R'(q := R' q - 1))" "kept s2 s'" "counted s2 s' (k + 1) c" using less.hyps ok2 by blast
      have "R'(q := R' q - 1) = R(p := R p - 1)" using Some qp R1(1) by (auto simp: R'_def)
      moreover have "counted s s' k c" using s'(4) dom2 by (auto simp: counted_def Suc_diff_le)
      moreover have "pbufs s' p = None" using s'(3) s2(2) unfolding kept_def by (metis fun_upd_same not_Some_eq)
      ultimately show ?thesis using st2 s' Some kept_trans [OF k2] by auto
    qed
  qed
qed

lemma pbuf_free_ok: "refs_ok s R \<Longrightarrow> R p > 0 \<Longrightarrow> \<exists>c s'. pbuf_free E (Some p) s = Some (c, s') \<and> refs_ok s' (R(p := R p - 1)) \<and> kept s s' \<and> counted s s' 0 c \<and>
    (\<forall>b. pbufs s p = Some b \<and> p_ref b = 1 \<longrightarrow> pbufs s' p = None)"
  using free_loop_ok by (simp add: pbuf_free_def)

text \<open>When no reference is left, no buffer is.\<close>

lemma link_wf: "refs_ok s R \<Longrightarrow> wf (link s)"
proof -
  assume ok: "refs_ok s R"
  then have fin: "finite (dom (pbufs s))" "acyclic (link s)" by (simp_all add: refs_ok_def)
  have "link s \<subseteq> dom (pbufs s) \<times> dom (pbufs s)" using refs_okD(4) [OF ok] by (auto simp: link_def)
  then have "finite (link s)" using fin(1) finite_subset by blast
  then show ?thesis using fin(2) by (simp add: wf_iff_acyclic_if_finite)
qed

lemma no_leak:
  assumes "refs_ok s (\<lambda>_. 0)"
  shows "pbufs s = (\<lambda>_. None) \<and> chunks s = (\<lambda>_. None)"
proof -
  have "pbufs s p = None" for p using link_wf [OF assms]
  proof (induction p rule: wf_induct_rule)
    case (less p)
    show ?case
    proof (rule ccontr)
      assume "pbufs s p \<noteq> None"
      then obtain b where b: "pbufs s p = Some b" by blast
      then have "incoming s p > 0" using refs_okD(1,2) [OF assms b] by (metis add_0 unat_gt_0)
      then obtain q where q: "(q, p) \<in> link s" by (auto simp: incoming_def card_gt_0_iff)
      then obtain c where "pbufs s q = Some c" unfolding link_def by blast
      with less [OF q] show False by simp
    qed
  qed
  then show ?thesis using assms by (auto simp: refs_ok_def)
qed

section \<open>Changes of links\<close>

definition set_next :: "addr \<Rightarrow> addr option \<Rightarrow> pstate \<Rightarrow> pstate" where
  "set_next p no s = s\<lparr>pbufs := (\<lambda>q. if q = p then map_option (p_next_update (\<lambda>_. no)) (pbufs s q) else pbufs s q)\<rparr>"

lemma upd_next: "pbufs s p = Some b \<Longrightarrow> upd p (p_next_update (\<lambda>_. no)) s = Some (set_next p no s)"
  by (auto simp: upd_def set_next_def fun_eq_iff intro!: arg_cong [of _ _ "\<lambda>f. s\<lparr>pbufs := f\<rparr>"])

lemma set_next_pbufs: "pbufs (set_next p no s) q = (if q = p then map_option (p_next_update (\<lambda>_. no)) (pbufs s q) else pbufs s q)"
  by (simp add: set_next_def)

lemma set_next_chunks [simp]: "chunks (set_next p no s) = chunks s" "bytes (set_next p no s) = bytes s"
  by (simp_all add: set_next_def)

lemma set_next_dom: "pbufs (set_next p no s) q = None \<longleftrightarrow> pbufs s q = None"
  by (simp add: set_next_pbufs)

lemma link_set_next: "pbufs s p = Some b \<Longrightarrow> link (set_next p no s) = (link s - {p} \<times> UNIV) \<union> (case no of None \<Rightarrow> {} | Some q \<Rightarrow> {(p, q)})"
  by (auto simp: link_def set_next_pbufs split: if_splits option.splits)

text \<open>The references after a change of the links of \<open>p\<close>, which had the successor \<open>old\<close>.\<close>

lemma refs_ok_relink:
  assumes ok: "refs_ok s R" and p: "pbufs s p = Some b" and ac: "acyclic (link (set_next p no s))" and tgt: "\<And>q. no = Some q \<Longrightarrow> pbufs s q \<noteq> None"
    and R: "\<And>q. R' q + (if no = Some q then 1 else 0) = R q + (if p_next b = Some q then 1 else 0)"
  shows "refs_ok (set_next p no s) R'"
proof -
  let ?s = "set_next p no s"
  have fin: "finite (dom (pbufs s))" using ok by (simp add: refs_ok_def)
  have i: "incoming ?s q + (if p_next b = Some q then 1 else 0) = incoming s q + (if no = Some q then 1 else 0)" for q
  proof -
    let ?A = "{r. (r, q) \<in> link s}"
    have e: "{r. (r, q) \<in> link ?s} = (?A - {p}) \<union> (if no = Some q then {p} else {})" using link_set_next [OF p] by (auto split: option.splits)
    have m: "p \<in> ?A \<longleftrightarrow> p_next b = Some q" using p by (simp add: link_def)
    have "card ((?A - {p}) \<union> (if no = Some q then {p} else {})) = card (?A - {p}) + (if no = Some q then 1 else 0)" using link_finite [OF fin, of q] by (simp add: card.insert_remove)
    then show ?thesis unfolding incoming_def e using m card_Suc_Diff1 [OF link_finite [OF fin, of q], of p] by auto
  qed
  have "unat (p_ref d) = R' q + incoming ?s q \<and> p_ref d \<noteq> 0 \<and> chunk_ok ?s q d" if d: "pbufs ?s q = Some d" for q d
  proof -
    obtain c where c: "pbufs s q = Some c" "p_ref d = p_ref c" "type_internal d = type_internal c" "p_flags d = p_flags c" using d by (auto simp: set_next_pbufs split: if_splits)
    have "R' q + incoming ?s q = R q + incoming s q" using i [of q] R [of q] by linarith
    then show ?thesis using refs_okD(1-3) [OF ok c(1)] c by (simp add: chunk_ok_def is_custom_def pbuf_get_allocsrc_def)
  qed
  moreover have "pbufs ?s r \<noteq> None" if "(q, r) \<in> link ?s" for q r
    using that link_set_next [OF p, of no] tgt ok unfolding set_next_dom refs_ok_def by (auto split: option.splits)
  moreover have "R' q = 0 \<and> chunks ?s q = None" if "pbufs ?s q = None" for q
  proof -
    have q: "pbufs s q = None" using that set_next_dom by simp
    moreover have "p_next b \<noteq> Some q" "no \<noteq> Some q" using q refs_okD(4) [OF ok p] tgt by auto
    ultimately show ?thesis using R [of q] ok by (simp add: refs_ok_def)
  qed
  moreover have "finite (dom (pbufs ?s))" by (rule finite_subset [OF _ fin]) (auto simp: set_next_pbufs split: if_splits)
  ultimately show ?thesis unfolding refs_ok_def using ac by blast
qed

lemma refs_unlink:
  assumes "refs_ok s R" "pbufs s p = Some b" "p_next b = Some q"
  shows "refs_ok (set_next p None s) (R(q := R q + 1))"
proof (rule refs_ok_relink [OF assms(1,2)])
  show "acyclic (link (set_next p None s))" using assms(1) link_set_next [OF assms(2), of None] by (auto simp: refs_ok_def intro: acyclic_subset)
qed (use assms(3) in auto)

lemma refs_link:
  assumes "refs_ok s R" "pbufs s p = Some b" "p_next b = None" "R t > 0" "(t, p) \<notin> (link s)\<^sup>*"
  shows "refs_ok (set_next p (Some t) s) (R(t := R t - 1))"
proof (rule refs_ok_relink [OF assms(1,2)])
  have "link (set_next p (Some t) s) = insert (p, t) (link s)" using link_set_next [OF assms(2), of "Some t"] assms(2,3) by (auto simp: link_def)
  then show "acyclic (link (set_next p (Some t) s))" using assms(1,5) by (simp add: refs_ok_def)
  show "pbufs s q \<noteq> None" if "Some t = Some q" for q using that refs_live [OF assms(1,4)] by auto
qed (use assms(3,4) in auto)

section \<open>Chains of a packet\<close>

lemma packet_det: "packet s po ps xs \<Longrightarrow> packet s po qs ys \<Longrightarrow> ps = qs"
proof (induction ps arbitrary: po xs qs ys)
  case (Cons p ps)
  then obtain b where b: "po = Some p" "pbufs s p = Some b" "packet s (p_next b) ps (drop (unat (p_len b)) xs)" by (auto split: option.splits)
  with Cons.prems(2) obtain qs' where "qs = p # qs'" "packet s (p_next b) qs' (drop (unat (p_len b)) ys)" by (auto simp: packet_Some)
  then show ?case using Cons.IH [OF b(3)] by blast
qed (auto simp: packet_None)

lemma packet_suffix: "packet s po (as @ q # qs) xs \<Longrightarrow> \<exists>zs. packet s (Some q) (q # qs) zs"
proof (induction as arbitrary: po xs)
  case Nil
  then show ?case by auto
next
  case (Cons p as)
  then obtain b :: pbuf where "packet s (p_next b) (as @ q # qs) (drop (unat (p_len b)) xs)" by (auto split: option.splits)
  then show ?case by (rule Cons.IH)
qed

lemma packet_distinct: "packet s po ps xs \<Longrightarrow> distinct ps"
proof (induction ps arbitrary: po xs)
  case (Cons p ps)
  then obtain b where b: "po = Some p" "pbufs s p = Some b" "packet s (p_next b) ps (drop (unat (p_len b)) xs)" by (auto split: option.splits)
  have "p \<notin> set ps"
  proof
    assume "p \<in> set ps"
    then obtain as qs where ps: "ps = as @ p # qs" by (auto dest: split_list)
    then obtain zs where "packet s (Some p) (p # qs) zs" using b(3) packet_suffix by blast
    with Cons.prems b(1) have "p # ps = p # qs" using packet_det by blast
    then show False using ps by simp
  qed
  then show ?case using Cons.IH [OF b(3)] by simp
qed simp

lemma packet_link: "packet s po ps xs \<Longrightarrow> p \<in> set ps \<Longrightarrow> (p, q) \<in> link s \<Longrightarrow> q \<in> set ps"
proof (induction ps arbitrary: po xs)
  case (Cons r ps)
  then obtain b where b: "pbufs s r = Some b" "packet s (p_next b) ps (drop (unat (p_len b)) xs)" by (auto split: option.splits)
  show ?case
  proof (cases "p = r")
    case True
    then have "p_next b = Some q" using Cons.prems(3) b(1) by (simp add: link_def)
    then show ?thesis using b(2) by (cases ps) auto
  qed (use Cons.IH [OF b(2)] Cons.prems in auto)
qed simp

lemma packet_reach: "packet s po ps xs \<Longrightarrow> p \<in> set ps \<Longrightarrow> (p, q) \<in> (link s)\<^sup>* \<Longrightarrow> q \<in> set ps"
  by (erule rtrancl_induct, assumption) (rule packet_link)

lemma packet_next: "packet s po ps xs \<Longrightarrow> p \<in> set ps \<Longrightarrow> \<exists>b. pbufs s p = Some b"
  by (induction ps arbitrary: po xs) (auto split: option.splits)

section \<open>Concatenation\<close>

text \<open>States that differ at most in lengths, payloads and bytes.\<close>

definition shape :: "pbuf \<Rightarrow> addr option \<times> u8 \<times> u8 \<times> u8" where
  "shape b = (p_next b, p_ref b, type_internal b, p_flags b)"

definition same_shape :: "pstate \<Rightarrow> pstate \<Rightarrow> bool" where
  "same_shape s s' \<longleftrightarrow> chunks s' = chunks s \<and> (\<forall>q. map_option shape (pbufs s' q) = map_option shape (pbufs s q))"

lemma same_shape_dom: "same_shape s s' \<Longrightarrow> pbufs s' q = None \<longleftrightarrow> pbufs s q = None"
  unfolding same_shape_def by (metis option.map_disc_iff)

lemma same_shapeD:
  assumes "same_shape s s'" "pbufs s' q = Some c"
  obtains b where "pbufs s q = Some b" "p_next c = p_next b" "p_ref c = p_ref b" "type_internal c = type_internal b" "p_flags c = p_flags b"
proof -
  have "map_option shape (pbufs s q) = map_option shape (pbufs s' q)" using assms(1) by (simp add: same_shape_def)
  then have "map_option shape (pbufs s q) = Some (shape c)" using assms(2) by simp
  then obtain b where "pbufs s q = Some b" "shape b = shape c" by auto
  then show ?thesis using that by (simp add: shape_def)
qed

lemma same_shape_link: "same_shape s s' \<Longrightarrow> link s' = link s"
proof -
  assume a: "same_shape s s'"
  have "(p, q) \<in> link s' \<longleftrightarrow> (p, q) \<in> link s" for p q
    using same_shape_dom [OF a, of p] by (cases "pbufs s' p") (auto simp: link_def elim: same_shapeD [OF a])
  then show ?thesis by auto
qed

lemma refs_ok_shape: "same_shape s s' \<Longrightarrow> refs_ok s R \<Longrightarrow> refs_ok s' R"
proof -
  assume a: "same_shape s s'" and ok: "refs_ok s R"
  note l = same_shape_link [OF a] and d = same_shape_dom [OF a]
  have i: "incoming s' p = incoming s p" for p by (simp add: incoming_def l)
  have dom: "dom (pbufs s') = dom (pbufs s)" using d by (auto simp: dom_def)
  have "unat (p_ref c) = R p + incoming s p \<and> p_ref c \<noteq> 0 \<and> chunk_ok s' p c" if "pbufs s' p = Some c" for p c
  proof -
    from same_shapeD [OF a that] obtain b where b: "pbufs s p = Some b" "p_ref c = p_ref b" "type_internal c = type_internal b" "p_flags c = p_flags b" by blast
    have "chunk_ok s' p c \<longleftrightarrow> chunk_ok s p b" using a b by (simp add: chunk_ok_def is_custom_def pbuf_get_allocsrc_def same_shape_def)
    then show ?thesis using refs_okD(1-3) [OF ok b(1)] b(2) by simp
  qed
  then show ?thesis using ok a unfolding refs_ok_def l i dom d by (simp add: same_shape_def)
qed

definition add_tot :: "addr set \<Rightarrow> u16 \<Rightarrow> pstate \<Rightarrow> pstate" where
  "add_tot A n s = s\<lparr>pbufs := (\<lambda>q. if q \<in> A then map_option (tot_len_update (\<lambda>k. k + n)) (pbufs s q) else pbufs s q)\<rparr>"

lemma add_tot_simps [simp]: "chunks (add_tot A n s) = chunks s" "bytes (add_tot A n s) = bytes s"
  "pbufs (add_tot A n s) q = (if q \<in> A then map_option (tot_len_update (\<lambda>k. k + n)) (pbufs s q) else pbufs s q)"
  by (simp_all add: add_tot_def)

lemma add_tot_shape: "same_shape s (add_tot A n s)"
  by (auto simp: same_shape_def option.map_comp comp_def shape_def [abs_def])

lemma upd_tot: "pbufs s p = Some b \<Longrightarrow> upd p (tot_len_update (\<lambda>k. k + n)) s = Some (add_tot {p} n s)"
  by (auto simp: upd_def add_tot_def fun_eq_iff intro!: arg_cong [of _ _ "\<lambda>f. s\<lparr>pbufs := f\<rparr>"])

lemma add_tot_insert: "p \<notin> A \<Longrightarrow> add_tot A n (add_tot {p} n s) = add_tot (insert p A) n s"
  by (auto simp: add_tot_def fun_eq_iff intro!: arg_cong [of _ _ "\<lambda>f. s\<lparr>pbufs := f\<rparr>"])

lemma packet_last: "packet s po (ps @ [l]) xs \<Longrightarrow> \<exists>b. pbufs s l = Some b \<and> p_next b = None \<and> tot_len b = p_len b"
proof (induction ps arbitrary: po xs)
  case Nil
  then show ?case by (auto split: option.splits simp: word_unat_eq_iff)
next
  case (Cons p ps)
  then obtain b :: pbuf where "packet s (p_next b) (ps @ [l]) (drop (unat (p_len b)) xs)" by (auto split: option.splits)
  then show ?case by (rule Cons.IH)
qed

lemma cat_loop_packet:
  "packet s (Some h) ps xs \<Longrightarrow> t \<notin> set ps \<Longrightarrow> pbufs s t = Some bt \<Longrightarrow> cat_loop h t s = Some (last ps, add_tot (set (butlast ps)) (tot_len bt) s)"
proof (induction ps arbitrary: h xs s)
  case (Cons p ps)
  then obtain b where b: "h = p" "pbufs s p = Some b" "packet s (p_next b) ps (drop (unat (p_len b)) xs)" by (auto split: option.splits)
  have dist: "p \<notin> set ps" using packet_distinct [OF Cons.prems(1)] by simp
  show ?case
  proof (cases ps)
    case Nil
    then have "p_next b = None" using b(3) by simp
    moreover have "add_tot {} (tot_len bt) s = s" by (simp add: add_tot_def)
    ultimately show ?thesis using b Cons.prems(3) Nil by (subst cat_loop.simps) simp
  next
    case (Cons q qs)
    let ?s = "add_tot {p} (tot_len bt) s"
    have nq: "p_next b = Some q" using b(3) Cons by simp
    have "packet ?s (Some q) ps (drop (unat (p_len b)) xs)" by (rule packet_cong [of s]) (use b(3) nq dist in auto)
    moreover have "pbufs ?s t = Some bt" "t \<notin> set ps" using Cons.prems(2,3) by simp_all
    ultimately have "cat_loop q t ?s = Some (last ps, add_tot (set (butlast ps)) (tot_len bt) ?s)" by (intro Cons.IH)
    moreover have "p \<notin> set (butlast ps)" using dist in_set_butlastD by fastforce
    moreover have "cat_loop h t s = cat_loop q t ?s" using b(1,2) nq Cons.prems(3) by (subst cat_loop.simps) (simp add: upd_tot)
    ultimately show ?thesis using Cons add_tot_insert [of p "set (butlast ps)"] by simp
  qed
qed simp

lemma pbuf_cat_packet:
  assumes "packet s (Some h) ps xs" "t \<notin> set ps" "pbufs s t = Some bt"
  shows "pbuf_cat (Some h) (Some t) s = Some (set_next (last ps) (Some t) (add_tot (set ps) (tot_len bt) s))"
proof -
  obtain qs l where ps: "ps = qs @ [l]" using assms(1) by (cases ps rule: rev_cases) auto
  from packet_last [OF assms(1) [unfolded ps]] obtain b where b: "pbufs s l = Some b" "p_next b = None" "tot_len b = p_len b" by blast
  let ?s = "add_tot (set qs) (tot_len bt) s"
  have l: "l \<notin> set qs" using packet_distinct [OF assms(1)] ps by simp
  have "cat_loop h t s = Some (l, ?s)" using cat_loop_packet [OF assms] ps by simp
  moreover have "upd l (\<lambda>b. b\<lparr>tot_len := tot_len b + tot_len bt, p_next := Some t\<rparr>) ?s = Some (set_next l (Some t) (add_tot (set ps) (tot_len bt) s))"
    using b l ps by (auto simp: upd_def add_tot_def set_next_def fun_eq_iff intro!: arg_cong [of _ _ "\<lambda>f. s\<lparr>pbufs := f\<rparr>"])
  ultimately show ?thesis using b l ps assms(2,3) by (simp add: pbuf_cat_def)
qed

lemma packet_join:
  "packet s (Some h) ps xs \<Longrightarrow> packet s' (Some t) qs ys \<Longrightarrow> length xs + length ys < 65536 \<Longrightarrow> bytes s' = bytes s \<Longrightarrow> unat n = length ys \<Longrightarrow>
    (\<And>p. p \<in> set ps \<Longrightarrow> pbufs s' p = map_option (\<lambda>b. b\<lparr>tot_len := tot_len b + n, p_next := if p = last ps then Some t else p_next b\<rparr>) (pbufs s p)) \<Longrightarrow>
    packet s' (Some h) (ps @ qs) (xs @ ys)"
proof (induction ps arbitrary: h xs)
  case (Cons p ps)
  then obtain b where b: "h = p" "pbufs s p = Some b" "unat (tot_len b) = length xs" "unat (p_len b) \<le> length xs"
    "rd_bytes (payload b) (unat (p_len b)) s = Some (take (unat (p_len b)) xs)" "packet s (p_next b) ps (drop (unat (p_len b)) xs)" by (auto split: option.splits)
  have dist: "p \<notin> set ps" using packet_distinct [OF Cons.prems(1)] by simp
  have u: "unat (tot_len b + n) = length xs + length ys" using b(3) Cons.prems(3,5) by (simp add: unat_word_ariths)
  have r: "rd_bytes (payload b) (unat (p_len b)) s' = Some (take (unat (p_len b)) xs)" using b(5) Cons.prems(4) rd_bytes_cong [of "payload b" "unat (p_len b)" s' s] by simp
  have p: "pbufs s' p = Some (b\<lparr>tot_len := tot_len b + n, p_next := if p = last (p # ps) then Some t else p_next b\<rparr>)" using Cons.prems(6) [of p] b(2) by simp
  have "packet s' (if p = last (p # ps) then Some t else p_next b) (ps @ qs) (drop (unat (p_len b)) xs @ ys)"
  proof (cases ps)
    case Nil
    then show ?thesis using b(6) Cons.prems(2) by simp
  next
    case (Cons q rs)
    then have "p_next b = Some q" using b(6) by simp
    moreover have "packet s' (Some q) (ps @ qs) (drop (unat (p_len b)) xs @ ys)"
    proof (rule Cons.IH)
      show "packet s (Some q) ps (drop (unat (p_len b)) xs)" using b(6) calculation by simp
      show "pbufs s' r = map_option (\<lambda>b. b\<lparr>tot_len := tot_len b + n, p_next := if r = last ps then Some t else p_next b\<rparr>) (pbufs s r)" if "r \<in> set ps" for r
        using Cons.prems(6) [of r] that Cons by simp
    qed (use Cons.prems in auto)
    moreover have "p \<noteq> last (p # ps)" using dist Cons by auto
    ultimately show ?thesis by simp
  qed
  then show ?case using b p r u by simp
qed simp

lemma last_in_packet: "packet s (Some h) ps xs \<Longrightarrow> last ps \<in> set ps \<and> (\<exists>b. pbufs s (last ps) = Some b \<and> p_next b = None)"
proof -
  assume a: "packet s (Some h) ps xs"
  then obtain qs l where "ps = qs @ [l]" by (cases ps rule: rev_cases) auto
  then show ?thesis using packet_last a by fastforce
qed

lemma cat_ok:
  assumes "refs_ok s R" "packet s (Some h) ps xs" "packet s (Some t) qs ys" "set ps \<inter> set qs = {}" "R t > 0"
  shows "\<exists>s'. pbuf_cat (Some h) (Some t) s = Some s' \<and> refs_ok s' (R(t := R t - 1)) \<and> bytes s' = bytes s \<and> chunks s' = chunks s \<and>
    (length xs + length ys < 65536 \<longrightarrow> packet s' (Some h) (ps @ qs) (xs @ ys))"
proof -
  obtain bt where bt: "pbufs s t = Some bt" "unat (tot_len bt) = length ys" "t \<in> set qs" using assms(3) by (auto simp: packet_Some)
  have tp: "t \<notin> set ps" using bt(3) assms(4) by auto
  obtain l b where l: "last ps = l" "l \<in> set ps" "pbufs s l = Some b" "p_next b = None" using last_in_packet [OF assms(2)] by blast
  let ?s1 = "add_tot (set ps) (tot_len bt) s"
  let ?s = "set_next l (Some t) ?s1"
  have c: "pbuf_cat (Some h) (Some t) s = Some ?s" using pbuf_cat_packet [OF assms(2) tp bt(1)] l(1) by simp
  have "refs_ok ?s1 R" by (rule refs_ok_shape [OF add_tot_shape assms(1)])
  moreover have "(t, l) \<notin> (link ?s1)\<^sup>*" using packet_reach [OF assms(3) bt(3), of l] assms(4) l(2) same_shape_link [OF add_tot_shape, of "set ps" "tot_len bt" s] by auto
  ultimately have ok: "refs_ok ?s (R(t := R t - 1))" using l assms(5) by (intro refs_link [of _ _ _ "tot_len_update (\<lambda>k. k + tot_len bt) b"]) auto
  have q: "packet ?s (Some t) qs ys" by (rule packet_cong [OF assms(3)]) (use assms(4) l(2) in \<open>auto simp: set_next_pbufs\<close>)
  have "packet ?s (Some h) (ps @ qs) (xs @ ys)" if "length xs + length ys < 65536"
    by (rule packet_join [OF assms(2) q that _ bt(2)]) (auto simp: set_next_pbufs l(1) option.map_comp comp_def intro!: option.map_cong)
  then show ?thesis using c ok by auto
qed

lemma ref_ok:
  assumes "refs_ok s R" "pbufs s t = Some b" "p_ref b \<noteq> 0xFF"
  shows "\<exists>s'. pbuf_ref (Some t) s = Some s' \<and> refs_ok s' (R(t := R t + 1)) \<and> bytes s' = bytes s \<and> chunks s' = chunks s \<and> pbufs s' = (pbufs s)(t \<mapsto> b\<lparr>p_ref := p_ref b + 1\<rparr>)"
proof -
  let ?s = "s\<lparr>pbufs := (pbufs s)(t \<mapsto> b\<lparr>p_ref := p_ref b + 1\<rparr>)\<rparr>"
  have "unat (p_ref b) \<noteq> 255" using assms(3) by (simp add: word_unat_eq_iff)
  then have "unat (p_ref b) + 1 < 256" using unsigned_less [of "p_ref b", where ?'a = nat] by simp
  then have u: "unat (p_ref b + 1) = unat (p_ref b) + 1" by (simp add: unat_word_ariths)
  then have nz: "p_ref b + 1 \<noteq> 0" by (metis add_is_0 one_neq_zero unat_0)
  have "refs_ok ?s (R(t := R t + 1))" using u nz refs_okD(1) [OF assms(1,2)] by (intro refs_ok_ref [OF assms(1,2), of _ "b\<lparr>p_ref := p_ref b + 1\<rparr>"]) simp_all
  moreover have "p_ref_update (\<lambda>r. r + 1) b = b\<lparr>p_ref := p_ref b + 1\<rparr>" by (cases b) simp
  then have "upd t (p_ref_update (\<lambda>r. r + 1)) s = Some ?s" using assms(2) by (simp only: upd_def option.case)
  ultimately show ?thesis using assms(2) nz by (simp add: pbuf_ref_def word_greater_zero_iff)
qed

lemma packet_ref: "pbufs s t = Some b \<Longrightarrow> pbufs s' = (pbufs s)(t \<mapsto> b\<lparr>p_ref := r\<rparr>) \<Longrightarrow> bytes s' = bytes s \<Longrightarrow> packet s' po ps xs = packet s po ps xs"
proof (induction ps arbitrary: po xs)
  case (Cons p ps)
  then show ?case using rd_bytes_cong [of _ _ s' s] by (auto split: option.splits)
qed simp

section \<open>Dechaining\<close>

lemma set_next_shape:
  assumes "pbufs s p = Some b"
  shows "same_shape (set_next p no s) (s\<lparr>pbufs := (pbufs s)(p \<mapsto> b\<lparr>p_next := no, tot_len := n\<rparr>)\<rparr>)"
  using assms by (auto simp: same_shape_def set_next_pbufs shape_def)

lemma packet_alone: "pbufs s p = Some b \<Longrightarrow> p_next b = None \<Longrightarrow> tot_len b = p_len b \<Longrightarrow> rd_bytes (payload b) (unat (p_len b)) s = Some xs \<Longrightarrow> packet s (Some p) [p] xs"
  using rd_bytes_len [of "payload b" "unat (p_len b)" s xs] by simp

text \<open>Dechaining a buffer with a successor: the link goes, then the reference that it was.\<close>

lemma dechain_free:
  assumes "refs_ok s R" "packet s (Some p) (p # qs) xs" "R p > 0" "pbufs s p = Some b" "p_next b = Some q"
  obtains s2 k s3 d where "pbuf_dechain E p s = Some (if k > 0 then None else Some q, s3)" "refs_ok s3 R" "kept s2 s3" "counted s2 s3 0 k" "refs_ok s2 (R(q := R q + 1))"
    "dom (pbufs s2) = dom (pbufs s)" "link s2 = link s - {p} \<times> UNIV" "pbufs s3 p = Some d" "p_next d = None" "tot_len d = p_len d"
proof -
  have b: "unat (tot_len b) = length xs" "unat (p_len b) \<le> length xs" "packet s (Some q) qs (drop (unat (p_len b)) xs)" using assms(2,4,5) by auto
  obtain c where c: "pbufs s q = Some c" "unat (tot_len c) = length xs - unat (p_len b)" and qs: "q \<in> set qs" using b(3) by (auto simp: packet_Some)
  have "int (unat (tot_len c)) = int (unat (tot_len b)) - int (unat (p_len b))" using c(2) b(1,2) by linarith
  then have "uint (tot_len c) = uint (tot_len b) - uint (p_len b)" by simp
  then have ne: "p \<noteq> q" "uint (tot_len c) = uint (tot_len b) - uint (p_len b)" using qs packet_distinct [OF assms(2)] by auto
  let ?s1 = "s\<lparr>pbufs := (pbufs s)(q \<mapsto> c\<lparr>tot_len := tot_len b - p_len b\<rparr>)\<rparr>"
  let ?s2 = "?s1\<lparr>pbufs := (pbufs ?s1)(p \<mapsto> b\<lparr>p_next := None, tot_len := p_len b\<rparr>)\<rparr>"
  have sh: "same_shape s ?s1" using c(1) by (simp add: same_shape_def shape_def)
  have p1: "pbufs ?s1 p = Some b" using assms(4) ne(1) by simp
  note sh2 = set_next_shape [OF p1, of None "p_len b"]
  have "refs_ok (set_next p None ?s1) (R(q := R q + 1))" by (rule refs_unlink [OF refs_ok_shape [OF sh assms(1)] p1 assms(5)])
  then have ok2: "refs_ok ?s2 (R(q := R q + 1))" using refs_ok_shape [OF sh2] by simp
  have l2: "link ?s2 = link s - {p} \<times> UNIV" using same_shape_link [OF sh2] link_set_next [OF p1, of None] same_shape_link [OF sh] by simp
  have dom: "dom (pbufs ?s2) = dom (pbufs s)" using assms(4) c(1) by auto
  from pbuf_free_ok [OF ok2, of q E] obtain k s3 where s3: "pbuf_free E (Some q) ?s2 = Some (k, s3)" "refs_ok s3 R" "kept ?s2 s3" "counted ?s2 s3 0 k" by auto
  obtain d where d: "pbufs s3 p = Some d" using refs_live [OF s3(2) assms(3)] by blast
  have "d = b\<lparr>p_next := None, tot_len := p_len b, p_ref := p_ref d\<rparr>" using s3(3) d unfolding kept_def by fastforce
  then have d2: "p_next d = None" "tot_len d = p_len d" by (metis pbuf.select_convs pbuf.surjective pbuf.update_convs)+
  have "pbuf_dechain E p s = Some (if k > 0 then None else Some q, s3)" using assms(4,5) c(1) ne s3(1) d d2(2) by (simp add: pbuf_dechain_def upd_def)
  from that [OF this s3(2-4) ok2 dom l2 d d2] show ?thesis .
qed

lemma dechain_ok:
  assumes "refs_ok s R" "packet s (Some p) ps xs" "R p > 0"
  shows "\<exists>qo s'. pbuf_dechain E p s = Some (qo, s') \<and> refs_ok s' R \<and> (\<exists>b. pbufs s' p = Some b \<and> p_next b = None \<and> tot_len b = p_len b) \<and>
    (card (dom (pbufs s)) \<le> 256 \<longrightarrow> (\<forall>q. qo = Some q \<longrightarrow> pbufs s' q \<noteq> None))"
proof -
  obtain b qs where b: "ps = p # qs" "pbufs s p = Some b" "unat (tot_len b) = length xs" "packet s (p_next b) qs (drop (unat (p_len b)) xs)" "unat (p_len b) \<le> length xs"
    using assms(2) by (auto simp: packet_Some)
  show ?thesis
  proof (cases "p_next b")
    case None
    then have "tot_len b = p_len b" using b by (auto simp: packet_None word_unat_eq_iff)
    then show ?thesis using b(2) None assms(1) by (simp add: pbuf_dechain_def)
  next
    case (Some q)
    obtain s2 k s3 d where s3: "pbuf_dechain E p s = Some (if k > 0 then None else Some q, s3)" "refs_ok s3 R" "kept s2 s3" "counted s2 s3 0 k" "refs_ok s2 (R(q := R q + 1))"
        "dom (pbufs s2) = dom (pbufs s)" "link s2 = link s - {p} \<times> UNIV" "pbufs s3 p = Some d" "p_next d = None" "tot_len d = p_len d"
      by (rule dechain_free [OF assms(1) assms(2) [unfolded b(1)] assms(3) b(2) Some, of E])
    have "pbufs s3 q \<noteq> None" if "k = 0" "card (dom (pbufs s)) \<le> 256"
    proof
      assume n: "pbufs s3 q = None"
      have "dom (pbufs s3) \<subseteq> dom (pbufs s) - {q}" using s3(3,6) n unfolding kept_def by blast
      moreover have "q \<in> dom (pbufs s)" using refs_okD(4) [OF assms(1) b(2) Some] by auto
      ultimately have "dom (pbufs s3) \<subset> dom (pbufs s)" by blast
      then have lt: "card (dom (pbufs s3)) < card (dom (pbufs s))" using assms(1) by (simp add: psubset_card_mono refs_ok_def)
      have "p \<in> dom (pbufs s3)" using s3(8) by auto
      then have "card (dom (pbufs s3)) > 0" using s3(2) by (auto simp: card_gt_0_iff refs_ok_def)
      moreover define m where "m = card (dom (pbufs s)) - card (dom (pbufs s3))"
      ultimately have m: "0 < m" "m < 256" using lt that(2) by simp_all
      have "k = 0 + of_nat m" using s3(4) unfolding counted_def s3(6) m_def by blast
      then have "(of_nat m :: u8) = 0" using that(1) by simp
      then show False using m by (simp add: word_unat_eq_iff unat_of_nat)
    qed
    then have "card (dom (pbufs s)) \<le> 256 \<longrightarrow> (\<forall>r. (if k > 0 then None else Some q) = Some r \<longrightarrow> pbufs s3 r \<noteq> None)" by (auto simp: word_greater_zero_iff)
    then show ?thesis using s3(1,2,8-10) by blast
  qed
qed

section \<open>Allocation\<close>

text \<open>What the allocators promise: the chunk they give is not in use, nor is the memory in it.\<close>

definition fresh :: "penv \<Rightarrow> bool" where
  "fresh E \<longleftrightarrow> (\<forall>src n s p. answer E src n s = Some p \<longrightarrow> pbufs s p = None \<and> chunks s p = None \<and> (\<forall>a. p + SIZEOF_STRUCT_PBUF \<le> a \<and> a < p + n \<longrightarrow> bytes s a = None))"

lemma refs_ok_new:
  assumes "refs_ok s R" "pbufs s p = None" "pbufs s' = (pbufs s)(p \<mapsto> b)" "chunks s' = (chunks s)(p \<mapsto> (pbuf_get_allocsrc b, n))"
    "p_next b = None" "p_ref b = 1" "\<not> is_custom b" "pbuf_get_allocsrc b \<in> {0, 1, 2}"
  shows "refs_ok s' (R(p := 1))"
proof -
  have l: "link s' = link s" using assms(2,3,5) by (auto simp: link_def split: if_splits)
  have i: "incoming s' q = incoming s q" for q by (simp add: incoming_def l)
  have tgt: "pbufs s q \<noteq> None" if "(r, q) \<in> link s" for r q using that assms(1) unfolding refs_ok_def by blast
  then have "(q, p) \<notin> link s" for q using assms(2) by blast
  then have i0: "incoming s p = 0" by (simp add: incoming_def)
  have "unat (p_ref c) = (R(p := 1)) q + incoming s q \<and> p_ref c \<noteq> 0 \<and> chunk_ok s' q c" if "pbufs s' q = Some c" for q c
  proof (cases "q = p")
    case True
    then show ?thesis using that assms(3-8) i0 by (auto simp: chunk_ok_def)
  next
    case False
    then have q: "pbufs s q = Some c" using that assms(3) by simp
    then show ?thesis using refs_okD(1-3) [OF assms(1) q] False assms(4) by (simp add: chunk_ok_def)
  qed
  moreover have "(R(p := 1)) q = 0 \<and> chunks s' q = None" if "pbufs s' q = None" for q using that assms(1,3,4) by (auto simp: refs_ok_def split: if_splits)
  moreover have "finite (dom (pbufs s'))" using assms(1,3) by (simp add: refs_ok_def)
  moreover have "pbufs s' q \<noteq> None" if "(r, q) \<in> link s" for r q using tgt [OF that] assms(3) by simp
  moreover have "acyclic (link s)" using assms(1) by (simp add: refs_ok_def)
  ultimately show ?thesis unfolding refs_ok_def l i by blast
qed

text \<open>A chunk from the allocator made into a buffer.\<close>

lemma new_buffer:
  assumes "refs_ok s R" "fresh E" "new_chunk E src n s = (Some p, s1)" "ucast type AND 0x0F = src" "src \<in> {0, 1, 2}" "flags AND 2 = 0"
  shows "refs_ok (pbuf_init_alloced_pbuf p pl tot m type flags s1) (R(p := 1))" "pbufs s p = None" "pbufs s1 = pbufs s"
proof -
  have p: "answer E src n s = Some p" "s1 = s\<lparr>chunks := (chunks s)(p \<mapsto> (src, n)), bytes := bytes s1\<rparr>" using assms(3) by (auto simp: new_chunk_def split: option.splits)
  then show n: "pbufs s p = None" using assms(2) by (auto simp: fresh_def)
  show s1: "pbufs s1 = pbufs s" by (subst p(2)) simp
  have c1: "chunks s1 = (chunks s)(p \<mapsto> (src, n))" by (subst p(2)) simp
  let ?b = "\<lparr>p_next = None, payload = pl, tot_len = tot, p_len = m, type_internal = ucast type, p_flags = flags, p_ref = 1, if_idx = 0\<rparr> :: pbuf"
  have "pbuf_get_allocsrc ?b = src" "\<not> is_custom ?b" using assms(4,6) by (simp_all add: pbuf_get_allocsrc_def is_custom_def)
  then show "refs_ok (pbuf_init_alloced_pbuf p pl tot m type flags s1) (R(p := 1))"
    using assms(5) n by (intro refs_ok_new [OF assms(1), of p _ ?b n]) (simp_all add: pbuf_init_alloced_pbuf_def s1 c1)
qed

lemma new_chunk_none: "new_chunk E src n s = (None, s1) \<Longrightarrow> s1 = s"
  by (auto simp: new_chunk_def split: option.splits)

lemma type_src: "ucast PBUF_RAM AND 0x0F = (0::u8)" "ucast PBUF_ROM AND 0x0F = (1::u8)" "ucast PBUF_REF AND 0x0F = (1::u8)" "ucast PBUF_POOL AND 0x0F = (2::u8)"
  by (simp_all add: PBUF_RAM_def PBUF_ROM_def PBUF_REF_def PBUF_POOL_def)

definition plus_ref :: "addr option \<Rightarrow> (addr \<Rightarrow> nat) \<Rightarrow> addr \<Rightarrow> nat" where
  "plus_ref po R = (case po of None \<Rightarrow> R | Some p \<Rightarrow> R(p := R p + 1))"

lemma alloc_reference_ok:
  assumes "refs_ok s R" "fresh E" "type = PBUF_REF \<or> type = PBUF_ROM"
  shows "\<exists>po s'. pbuf_alloc_reference E pl n type s = Some (po, s') \<and> refs_ok s' (plus_ref po R)"
proof -
  obtain po s1 where c: "new_chunk E 1 SIZEOF_STRUCT_PBUF s = (po, s1)" by fastforce
  show ?thesis
  proof (cases po)
    case None
    then have "s1 = s" using c new_chunk_none by blast
    then show ?thesis using c None assms(1,3) by (auto simp: pbuf_alloc_reference_def plus_ref_def)
  next
    case (Some p)
    have ty: "ucast type AND 0x0F = (1::u8)" using assms(3) type_src by auto
    note b = new_buffer [OF assms(1,2) c [unfolded Some] ty, of 0]
    have "R p = 0" using b(2) assms(1) by (simp add: refs_ok_def)
    then show ?thesis using c Some b(1) [of pl n n] assms(3) by (simp add: pbuf_alloc_reference_def plus_ref_def)
  qed
qed

lemma alloc_ram_ok:
  assumes "refs_ok s R" "fresh E"
  shows "\<exists>po s'. alloc_ram E off n s = (po, s') \<and> refs_ok s' (plus_ref po R)"
proof -
  define k where "k = unat (ucast (LWIP_MEM_ALIGN_SIZE (of_nat SIZEOF_STRUCT_PBUF) + ucast (ucast (LWIP_MEM_ALIGN_SIZE (ucast off) + LWIP_MEM_ALIGN_SIZE (ucast n)) :: u16)) :: u16)"
  obtain po s1 where c: "new_chunk E 0 k s = (po, s1)" by fastforce
  show ?thesis
  proof (cases po)
    case None
    then have "s1 = s" using c new_chunk_none by blast
    then show ?thesis using c None assms(1) by (auto simp: alloc_ram_def plus_ref_def Let_def k_def [symmetric])
  next
    case (Some p)
    note b = new_buffer [OF assms c [unfolded Some] type_src(1), of 0]
    have "R p = 0" using b(2) assms(1) by (simp add: refs_ok_def)
    then show ?thesis using c Some b(1) assms(1) by (auto simp: alloc_ram_def plus_ref_def Let_def k_def [symmetric])
  qed
qed

section \<open>Chains from the pool\<close>

text \<open>The chain built so far, from \<open>p\<close> to \<open>l\<close>, has one reference, that of the loop.\<close>

definition tail_of :: "pstate \<Rightarrow> (addr \<times> addr) option \<Rightarrow> bool" where
  "tail_of s ends \<longleftrightarrow> (case ends of None \<Rightarrow> True | Some (p, l) \<Rightarrow> \<exists>b. pbufs s l = Some b \<and> p_next b = None)"

definition room :: "penv \<Rightarrow> u16 \<Rightarrow> bool" where
  "room E off \<longleftrightarrow> LWIP_MEM_ALIGN_SIZE (ucast off) < pool_bufsize E \<and> pool_bufsize E \<le> 0xFFFF"

lemma ooseq_shape: "same_shape s (pbuf_pool_is_empty E s)"
  by (simp add: same_shape_def pbuf_pool_is_empty_def Let_def)

lemma pool_loop_ok:
  "refs_ok s (plus_ref (map_option fst ends) R) \<Longrightarrow> fresh E \<Longrightarrow> tail_of s ends \<Longrightarrow> room E off \<Longrightarrow> room E 0 \<Longrightarrow>
    \<exists>po s'. pool_loop E n off ends s = Some (po, s') \<and> refs_ok s' (plus_ref po R)"
proof (induction "unat n" arbitrary: n off ends s rule: less_induct)
  case less
  let ?N = "SIZEOF_STRUCT_PBUF + unat (pool_bufsize E)" and ?R = "plus_ref (map_option fst ends) R"
  obtain qo s1 where c: "new_chunk E 2 ?N s = (qo, s1)" by fastforce
  show ?case
  proof (cases qo)
    case None
    then have "s1 = s" using c new_chunk_none by blast
    let ?s2 = "pbuf_pool_is_empty E s"
    have ok2: "refs_ok ?s2 ?R" by (rule refs_ok_shape [OF ooseq_shape less.prems(1)])
    show ?thesis
    proof (cases ends)
      case None
      then show ?thesis using c \<open>qo = None\<close> \<open>s1 = s\<close> ok2 by (subst pool_loop.simps) (simp add: plus_ref_def)
    next
      case (Some e)
      then obtain p l where e: "ends = Some (p, l)" by (cases e) auto
      have "?R p > 0" using e by (simp add: plus_ref_def)
      from pbuf_free_ok [OF ok2 this] obtain k s' where s': "pbuf_free E (Some p) ?s2 = Some (k, s')" "refs_ok s' (?R(p := ?R p - 1))" by blast
      moreover have "?R(p := ?R p - 1) = R" using e by (simp add: plus_ref_def)
      ultimately show ?thesis using c \<open>qo = None\<close> \<open>s1 = s\<close> e by (subst pool_loop.simps) (simp add: plus_ref_def)
    qed
  next
    case (Some q)
    define rm where "rm = pool_bufsize E - LWIP_MEM_ALIGN_SIZE (ucast off)"
    define qlen where "qlen = min n (ucast rm)"
    define pl where "pl = LWIP_MEM_ALIGN (q + SIZEOF_STRUCT_PBUF + unat off)"
    let ?s2 = "pbuf_init_alloced_pbuf q pl n qlen PBUF_POOL 0 s1"
    have rm: "rm > 0" "rm \<le> 0xFFFF"
    proof -
      have "unat rm = unat (pool_bufsize E) - unat (LWIP_MEM_ALIGN_SIZE (ucast off))" using less.prems(4) by (simp add: rm_def room_def unat_sub less_imp_le)
      then have "0 < unat rm" "unat rm \<le> 0xFFFF" using less.prems(4) by (auto simp: room_def word_less_nat_alt word_le_nat_alt)
      then show "rm > 0" "rm \<le> 0xFFFF" by (simp_all add: word_less_nat_alt word_le_nat_alt)
    qed
    have al: "pl mod 4 = 0" by (simp add: pl_def LWIP_MEM_ALIGN_def)
    note nb = new_buffer [OF less.prems(1,2) c [unfolded Some] type_src(4), of 0]
    have q: "refs_ok ?s2 (?R(q := 1))" "pbufs s q = None" "pbufs s1 = pbufs s" using nb(1) [of pl n qlen] nb(2,3) by simp_all
    have qR: "?R q = 0" using less.prems(1) q(2) by (simp add: refs_ok_def)
    have p2: "pbufs ?s2 = (pbufs s)(q \<mapsto> \<lparr>p_next = None, payload = pl, tot_len = n, p_len = qlen, type_internal = ucast PBUF_POOL, p_flags = 0, p_ref = 1, if_idx = 0\<rparr>)"
      by (simp add: pbuf_init_alloced_pbuf_def q(3))
    obtain p s3 where s3: "(case ends of None \<Rightarrow> Some ?s2 | Some (_, l) \<Rightarrow> upd l (p_next_update (\<lambda>_. Some q)) ?s2) = Some s3" "p = (case ends of None \<Rightarrow> q | Some (p, _) \<Rightarrow> p)"
      "refs_ok s3 (plus_ref (Some p) R)" "tail_of s3 (Some (p, q))"
    proof (cases ends)
      case None
      then show ?thesis using q(1) qR that [of ?s2 q] p2 by (simp add: plus_ref_def tail_of_def)
    next
      case (Some e)
      then obtain p l b where e: "ends = Some (p, l)" "pbufs s l = Some b" "p_next b = None" using less.prems(3) by (cases e) (auto simp: tail_of_def)
      have lq: "l \<noteq> q" using e(2) q(2) by auto
      then have l2: "pbufs ?s2 l = Some b" using e(2) p2 by simp
      have "(q, r) \<notin> link ?s2" for r using p2 by (simp add: link_def)
      then have "(q, l) \<notin> (link ?s2)\<^sup>*" using lq by (blast elim: converse_rtranclE)
      then have ok3: "refs_ok (set_next l (Some q) ?s2) ((?R(q := 1))(q := (?R(q := 1)) q - 1))" using l2 e(3) q(1) by (intro refs_link) simp_all
      have "(?R(q := 1))(q := (?R(q := 1)) q - 1) = plus_ref (Some p) R" using qR e(1) by (simp add: plus_ref_def fun_upd_idem)
      then have ok: "refs_ok (set_next l (Some q) ?s2) (plus_ref (Some p) R)" using ok3 by (simp only:)
      have "tail_of (set_next l (Some q) ?s2) (Some (p, q))" using lq p2 by (simp add: tail_of_def set_next_pbufs)
      with ok show ?thesis using upd_next [OF l2, of "Some q"] by (intro that [of "set_next l (Some q) ?s2" p]) (simp_all only: e(1) option.case prod.case)
    qed
    have st: "pool_loop E n off ends s = (if n - qlen > 0 then pool_loop E (n - qlen) 0 (Some (p, q)) s3 else Some (Some p, s3))"
      using s3(1) c Some rm(1) al unfolding s3(2) qlen_def pl_def rm_def by (subst pool_loop.simps) (simp add: Let_def)
    show ?thesis
    proof (cases "n - qlen > 0")
      case False
      then show ?thesis using st s3(3) by auto
    next
      case True
      have "unat (ucast rm :: u16) = unat rm" using rm(2) by (simp add: unsigned_ucast_eq take_bit_eq_mod word_le_nat_alt)
      then have "unat (ucast rm :: u16) > 0" using rm(1) by (simp add: word_less_nat_alt)
      moreover have "n \<noteq> 0" using True by (auto simp: qlen_def)
      ultimately have "unat qlen > 0" "qlen \<le> n" by (auto simp: qlen_def min_def unat_gt_0)
      then have "unat (n - qlen) < unat n" by (simp add: unat_sub word_le_nat_alt)
      from less.hyps [OF this, of s3 "Some (p, q)" 0] s3(3,4) less.prems(2,5) show ?thesis using st True by simp
    qed
  qed
qed

lemma pbuf_alloc_ok:
  assumes "refs_ok s R" "fresh E" "type \<in> {PBUF_RAM, PBUF_ROM, PBUF_REF, PBUF_POOL}" "type = PBUF_POOL \<Longrightarrow> room E layer \<and> room E 0"
  shows "\<exists>po s'. pbuf_alloc E layer n type s = Some (po, s') \<and> refs_ok s' (plus_ref po R)"
proof -
  consider "type = PBUF_REF \<or> type = PBUF_ROM" | "type = PBUF_POOL" | "type = PBUF_RAM" using assms(3) by auto
  then show ?thesis
  proof cases
    case 1
    then show ?thesis using alloc_reference_ok [OF assms(1,2) 1] by (auto simp: pbuf_alloc_def)
  next
    case 2
    then have "\<not> (type = PBUF_REF \<or> type = PBUF_ROM)" by (simp add: PBUF_RAM_def PBUF_ROM_def PBUF_REF_def PBUF_POOL_def)
    moreover have "\<exists>po s'. pool_loop E n layer None s = Some (po, s') \<and> refs_ok s' (plus_ref po R)"
      using pool_loop_ok [of s None R E layer n] assms(1,2) assms(4) [OF 2] by (simp add: plus_ref_def tail_of_def)
    ultimately show ?thesis using 2 by (simp add: pbuf_alloc_def)
  next
    case 3
    then have "\<not> (type = PBUF_REF \<or> type = PBUF_ROM)" "type \<noteq> PBUF_POOL" by (simp_all add: PBUF_RAM_def PBUF_ROM_def PBUF_REF_def PBUF_POOL_def)
    then show ?thesis using alloc_ram_ok [OF assms(1,2), of layer n] 3 by (auto simp: pbuf_alloc_def)
  qed
qed

section \<open>Headers\<close>

definition with_fields :: "addr \<Rightarrow> addr \<Rightarrow> u16 \<Rightarrow> u16 \<Rightarrow> pbuf \<Rightarrow> pstate \<Rightarrow> pstate" where
  "with_fields p pl n tot b s = s\<lparr>pbufs := (pbufs s)(p \<mapsto> b\<lparr>payload := pl, p_len := n, tot_len := tot\<rparr>)\<rparr>"

lemma with_fields_shape: "pbufs s p = Some b \<Longrightarrow> same_shape s (with_fields p pl n tot b s)"
  by (auto simp: same_shape_def with_fields_def shape_def)

lemma rd_bytes_append: "rd_bytes a m s = Some xs \<Longrightarrow> rd_bytes (a + m) n s = Some ys \<Longrightarrow> rd_bytes a (m + n) s = Some (xs @ ys)"
proof (induction m arbitrary: a xs)
  case (Suc m)
  then obtain x zs where x: "bytes s a = Some x" "rd_bytes (Suc a) m s = Some zs" "xs = x # zs" by (auto simp: bind_eq_Some_conv)
  then show ?case using Suc.IH [of "Suc a" zs] Suc.prems(2) by simp
qed simp

lemma packet_fields:
  assumes "packet s (Some p) (p # qs) xs" "pbufs s p = Some b" "rd_bytes pl (unat n) s = Some hs" "unat tot = length (hs @ drop (unat (p_len b)) xs)"
  shows "packet (with_fields p pl n tot b s) (Some p) (p # qs) (hs @ drop (unat (p_len b)) xs)"
proof -
  let ?s = "with_fields p pl n tot b s"
  have np: "p \<notin> set qs" using packet_distinct [OF assms(1)] by simp
  have "packet ?s (p_next b) qs (drop (unat (p_len b)) xs)" by (rule packet_cong [of s "p_next b"]) (use np assms(1,2) in \<open>auto simp: with_fields_def\<close>)
  moreover have "rd_bytes pl (unat n) ?s = Some hs" using assms(3) rd_bytes_cong [of pl "unat n" ?s s] by (simp add: with_fields_def)
  ultimately show ?thesis using assms(4) rd_bytes_len [OF assms(3)] by (simp add: with_fields_def)
qed

lemma remove_header_ok:
  assumes "packet s (Some p) ps xs" "pbufs s p = Some b"
  shows "pbuf_remove_header p n s =
    (if n > 0xFFFF \<or> unat n > unat (p_len b) then Some (1, s) else Some (0, if n = 0 then s else with_fields p (payload b + unat n) (p_len b - ucast n) (tot_len b - ucast n) b s))"
proof -
  have u: "unat (ucast n :: u16) = unat n" if "n \<le> 0xFFFF" using that by (simp add: unsigned_ucast_eq take_bit_eq_mod word_le_nat_alt)
  then have "(ucast n :: u16) > p_len b \<longleftrightarrow> unat n > unat (p_len b)" if "n \<le> 0xFFFF" using that by (simp add: word_less_nat_alt)
  then show ?thesis using assms(2) by (auto simp: pbuf_remove_header_def Let_def upd_def with_fields_def not_less)
qed

lemma remove_header_packet:
  assumes "packet s (Some p) ps xs" "pbufs s p = Some b" "unat n \<le> unat (p_len b)"
  shows "\<exists>s'. pbuf_remove_header p n s = Some (0, s') \<and> packet s' (Some p) ps (drop (unat n) xs)"
proof -
  have n: "unat n \<le> 0xFFFF" using assms(3) unsigned_less [of "p_len b", where ?'a = nat] by simp
  obtain qs where b: "ps = p # qs" "unat (tot_len b) = length xs" "unat (p_len b) \<le> length xs" "rd_bytes (payload b) (unat (p_len b)) s = Some (take (unat (p_len b)) xs)"
    using assms(1,2) by (auto simp: packet_Some)
  have u: "unat (ucast n :: u16) = unat n" using n by (simp add: unsigned_ucast_eq take_bit_eq_mod)
  have le: "(ucast n :: u16) \<le> p_len b" "(ucast n :: u16) \<le> tot_len b" using u assms(3) b(2,3) by (simp_all add: word_le_nat_alt)
  let ?hs = "take (unat (p_len b) - unat n) (drop (unat n) (take (unat (p_len b)) xs))"
  have l: "unat (p_len b - ucast n) = unat (p_len b) - unat n" "unat (tot_len b - ucast n) = length xs - unat n" using le u b(2) by (simp_all add: unat_sub)
  have "rd_bytes (payload b + unat n) (unat (p_len b - ucast n)) s = Some ?hs" unfolding l using assms(3) by (intro rd_bytes_part [OF b(4)]) simp
  moreover have e: "?hs @ drop (unat (p_len b)) xs = drop (unat n) xs" using assms(3) by (simp add: drop_take) (metis append_take_drop_id drop_drop le_add_diff_inverse2)
  moreover have "unat (tot_len b - ucast n) = length (?hs @ drop (unat (p_len b)) xs)" unfolding e l by simp
  ultimately have "packet (with_fields p (payload b + unat n) (p_len b - ucast n) (tot_len b - ucast n) b s) (Some p) ps (drop (unat n) xs)"
    using packet_fields [of s p qs xs b] assms(1,2) b(1) by metis
  moreover have "n \<le> 0xFFFF" using n by (simp add: word_le_nat_alt)
  ultimately show ?thesis using remove_header_ok [OF assms(1,2), of n] assms by (cases "n = 0") (auto simp: not_less)
qed

text \<open>
  C37. A header can be put in front of a packet whose first buffer has room for it: its bytes then come first in the packet, and taking it away again restores the state
  exactly. Without room, or when the length would not fit in 16 bits, or in front of foreign memory, the call is refused and changes nothing.\<close>

theorem header_roundtrip:
  assumes "packet s (Some p) ps xs" "pbufs s p = Some b" "unat n \<le> payload b" "0 < n" "n \<le> 0xFFFF"
  shows "if unat n + length xs < 65536 \<and> type_internal b AND 0x80 \<noteq> 0 \<and> p + SIZEOF_STRUCT_PBUF \<le> payload b - unat n
    then \<exists>s1. pbuf_add_header p n s = Some (0, s1) \<and> pbuf_remove_header p n s1 = Some (0, s) \<and>
      (\<forall>hs. rd_bytes (payload b - unat n) (unat n) s = Some hs \<longrightarrow> packet s1 (Some p) ps (hs @ xs))
    else pbuf_add_header p n s = Some (1, s)"
proof -
  obtain qs where b: "ps = p # qs" "unat (tot_len b) = length xs" "unat (p_len b) \<le> length xs" "rd_bytes (payload b) (unat (p_len b)) s = Some (take (unat (p_len b)) xs)"
    using assms(1,2) by (auto simp: packet_Some)
  have u: "unat (ucast n :: u16) = unat n" using assms(5) by (simp add: unsigned_ucast_eq take_bit_eq_mod word_le_nat_alt)
  have wrap: "(ucast n :: u16) + tot_len b < ucast n \<longleftrightarrow> \<not> unat n + length xs < 65536"
  proof -
    have n: "unat n < 65536" using assms(5) by (simp add: word_le_nat_alt)
    have "unat ((ucast n :: u16) + tot_len b) = (unat n + length xs) mod 65536" using u b(2) by (simp add: unat_word_ariths)
    moreover have "(unat n + length xs) mod 65536 = unat n + length xs - 65536" if "\<not> unat n + length xs < 65536"
      using that n packet_len [OF assms(1)] by (simp add: mod_if)
    ultimately show ?thesis using u n packet_len [OF assms(1)] by (cases "unat n + length xs < 65536") (auto simp: word_less_nat_alt)
  qed
  let ?s1 = "with_fields p (payload b - unat n) (p_len b + ucast n) (tot_len b + ucast n) b s"
  have impl: "pbuf_add_header p n s = (if unat n + length xs < 65536 \<and> type_internal b AND 0x80 \<noteq> 0 \<and> p + SIZEOF_STRUCT_PBUF \<le> payload b - unat n then Some (0, ?s1) else Some (1, s))"
    using assms(2-5) wrap by (auto simp: pbuf_add_header_def pbuf_add_header_impl_def Let_def upd_def with_fields_def not_less add.commute)
  show ?thesis
  proof (cases "unat n + length xs < 65536 \<and> type_internal b AND 0x80 \<noteq> 0 \<and> p + SIZEOF_STRUCT_PBUF \<le> payload b - unat n")
    case True
    have l: "unat (p_len b + ucast n) = unat (p_len b) + unat n" "unat (tot_len b + ucast n) = unat n + length xs" using u b(2,3) True by (simp_all add: unat_word_ariths)
    have "pbufs ?s1 p = Some (b\<lparr>payload := payload b - unat n, p_len := p_len b + ucast n, tot_len := tot_len b + ucast n\<rparr>)" by (simp add: with_fields_def)
    moreover have "\<not> (ucast n :: u16) > p_len b + ucast n" using l u by (simp add: word_less_nat_alt)
    moreover have "(pbufs s)(p \<mapsto> b) = pbufs s" using assms(2) by (simp add: fun_upd_idem)
    ultimately have "pbuf_remove_header p n ?s1 = Some (0, s)"
      using assms(2-5) by (auto simp: pbuf_remove_header_def Let_def upd_def with_fields_def not_less)
    moreover have "packet ?s1 (Some p) ps (hs @ xs)" if hs: "rd_bytes (payload b - unat n) (unat n) s = Some hs" for hs
    proof -
      have "rd_bytes (payload b - unat n) (unat (p_len b + ucast n)) s = Some (hs @ take (unat (p_len b)) xs)"
        unfolding l using rd_bytes_append [OF hs, of "unat (p_len b)"] b(4) assms(3) by (simp add: add.commute)
      moreover have "unat (tot_len b + ucast n) = length ((hs @ take (unat (p_len b)) xs) @ drop (unat (p_len b)) xs)" using l(2) rd_bytes_len [OF hs] by simp
      ultimately have "packet ?s1 (Some p) (p # qs) ((hs @ take (unat (p_len b)) xs) @ drop (unat (p_len b)) xs)" using packet_fields [OF assms(1) [unfolded b(1)] assms(2)] by blast
      then show ?thesis unfolding b(1) append_assoc append_take_drop_id .
    qed
    ultimately show ?thesis using impl True by simp
  next
    case False
    then show ?thesis using impl unfolding if_not_P [OF False] by (simp only:)
  qed
qed

theorem header_roundtrip_witness:
  "\<exists>s1. pbuf_add_header 16 1 two_buffers = Some (0, s1) \<and> packet s1 (Some 16) [16, 48] [0x99, 0x41, 0x42, 0x43, 0x44, 0x45] \<and> pbuf_remove_header 16 1 s1 = Some (0, two_buffers)"
proof -
  let ?b = "\<lparr>p_next = Some 48, payload = 33, tot_len = 5, p_len = 3, type_internal = 0x82, p_flags = 0, p_ref = 1, if_idx = 0\<rparr> :: pbuf"
  have b: "pbufs two_buffers 16 = Some ?b" by (simp add: two_buffers_def)
  have h: "rd_bytes (payload ?b - unat (1::u32)) (unat (1::u32)) two_buffers = Some [0x99]" by (simp add: two_buffers_def)
  have c: "unat (1::u32) + length [0x41::u8, 0x42, 0x43, 0x44, 0x45] < 65536 \<and> type_internal ?b AND 0x80 \<noteq> 0 \<and> 16 + SIZEOF_STRUCT_PBUF \<le> payload ?b - unat (1::u32)"
    by (simp add: SIZEOF_STRUCT_PBUF_def)
  have "\<exists>s1. pbuf_add_header 16 1 two_buffers = Some (0, s1) \<and> pbuf_remove_header 16 1 s1 = Some (0, two_buffers) \<and>
      (\<forall>hs. rd_bytes (payload ?b - unat (1::u32)) (unat (1::u32)) two_buffers = Some hs \<longrightarrow> packet s1 (Some 16) [16, 48] (hs @ [0x41, 0x42, 0x43, 0x44, 0x45]))"
    using header_roundtrip [OF two_buffers_packet b, of 1, unfolded if_P [OF c]] by simp
  then show ?thesis using h by (metis append_Cons append_Nil)
qed

section \<open>Users of the buffers\<close>

text \<open>The calls of a user, with the references it holds. A chain that is changed is a packet and not a queue, as the descriptions of the functions want it.\<close>

datatype pcall = Alloc u16 u16 u16 | AllocReference addr u16 u16 | Ref addr | Free addr | Cat addr addr | Chain addr addr | Dechain addr
  | AddHeader addr u32 | RemoveHeader addr u32 | TakeAt addr "u8 list" u16 | PutAt addr u16 u8

type_synonym user = "pstate \<times> (addr \<Rightarrow> nat)"

fun pcall_run :: "penv \<Rightarrow> pcall \<Rightarrow> user \<Rightarrow> user option" where
  "pcall_run E (Alloc l n ty) (s, R) = do { (po, s') \<leftarrow> pbuf_alloc E l n ty s; Some (s', plus_ref po R) }"
| "pcall_run E (AllocReference pl n ty) (s, R) = do { (po, s') \<leftarrow> pbuf_alloc_reference E pl n ty s; Some (s', plus_ref po R) }"
| "pcall_run E (Ref p) (s, R) = do { s' \<leftarrow> pbuf_ref (Some p) s; Some (s', R(p := R p + 1)) }"
| "pcall_run E (Free p) (s, R) = do { (_, s') \<leftarrow> pbuf_free E (Some p) s; Some (s', R(p := R p - 1)) }"
| "pcall_run E (Cat h t) (s, R) = do { s' \<leftarrow> pbuf_cat (Some h) (Some t) s; Some (s', R(t := R t - 1)) }"
| "pcall_run E (Chain h t) (s, R) = do { s' \<leftarrow> pbuf_chain (Some h) (Some t) s; Some (s', R) }"
| "pcall_run E (Dechain p) (s, R) = do { (_, s') \<leftarrow> pbuf_dechain E p s; Some (s', R) }"
| "pcall_run E (AddHeader p n) (s, R) = do { (_, s') \<leftarrow> pbuf_add_header p n s; Some (s', R) }"
| "pcall_run E (RemoveHeader p n) (s, R) = do { (_, s') \<leftarrow> pbuf_remove_header p n s; Some (s', R) }"
| "pcall_run E (TakeAt p ys off) (s, R) = do { (_, s') \<leftarrow> pbuf_take_at (Some p) ys off s; Some (s', R) }"
| "pcall_run E (PutAt p off x) (s, R) = do { s' \<leftarrow> pbuf_put_at (Some p) off x s; Some (s', R) }"

definition is_packet :: "pstate \<Rightarrow> addr \<Rightarrow> bool" where
  "is_packet s p \<longleftrightarrow> (\<exists>ps xs. packet s (Some p) ps xs \<and> apart s ps)"

definition two_packets :: "pstate \<Rightarrow> addr \<Rightarrow> addr \<Rightarrow> bool" where
  "two_packets s h t \<longleftrightarrow> (\<exists>ps xs qs ys. packet s (Some h) ps xs \<and> packet s (Some t) qs ys \<and> set ps \<inter> set qs = {})"

fun pcall_legal :: "penv \<Rightarrow> pcall \<Rightarrow> user \<Rightarrow> bool" where
  "pcall_legal E (Alloc l n ty) (s, R) \<longleftrightarrow> ty \<in> {PBUF_RAM, PBUF_ROM, PBUF_REF, PBUF_POOL} \<and> room E l \<and> room E 0"
| "pcall_legal E (AllocReference pl n ty) (s, R) \<longleftrightarrow> ty \<in> {PBUF_REF, PBUF_ROM}"
| "pcall_legal E (Ref p) (s, R) \<longleftrightarrow> R p > 0 \<and> (\<forall>b. pbufs s p = Some b \<longrightarrow> p_ref b \<noteq> 0xFF)"
| "pcall_legal E (Free p) (s, R) \<longleftrightarrow> R p > 0"
| "pcall_legal E (Cat h t) (s, R) \<longleftrightarrow> R h > 0 \<and> R t > 0 \<and> two_packets s h t"
| "pcall_legal E (Chain h t) (s, R) \<longleftrightarrow> R h > 0 \<and> R t > 0 \<and> two_packets s h t \<and> (\<forall>b. pbufs s t = Some b \<longrightarrow> p_ref b \<noteq> 0xFF)"
| "pcall_legal E (Dechain p) (s, R) \<longleftrightarrow> R p > 0 \<and> is_packet s p"
| "pcall_legal E (AddHeader p n) (s, R) \<longleftrightarrow> R p > 0 \<and> (\<forall>b. pbufs s p = Some b \<longrightarrow> unat n \<le> payload b)"
| "pcall_legal E (RemoveHeader p n) (s, R) \<longleftrightarrow> R p > 0"
| "pcall_legal E (TakeAt p ys off) (s, R) \<longleftrightarrow> R p > 0 \<and> is_packet s p"
| "pcall_legal E (PutAt p off x) (s, R) \<longleftrightarrow> R p > 0 \<and> is_packet s p"

lemma frame_shape: "frame s s' A \<Longrightarrow> same_shape s s'"
  by (simp add: frame_def same_shape_def)

lemma add_header_shape:
  assumes "pbufs s p = Some b" "unat n \<le> payload b"
  shows "\<exists>r s'. pbuf_add_header p n s = Some (r, s') \<and> same_shape s s'"
proof -
  have "same_shape s s" by (simp add: same_shape_def)
  moreover have "same_shape s (s\<lparr>pbufs := (pbufs s)(p \<mapsto> b\<lparr>payload := x, p_len := y, tot_len := z\<rparr>)\<rparr>)" for x y z using assms(1) by (simp add: same_shape_def shape_def)
  ultimately show ?thesis using assms by (simp add: pbuf_add_header_def pbuf_add_header_impl_def Let_def upd_def)
qed

lemma remove_header_shape:
  assumes "pbufs s p = Some b"
  shows "\<exists>r s'. pbuf_remove_header p n s = Some (r, s') \<and> same_shape s s'"
proof -
  have "same_shape s s" by (simp add: same_shape_def)
  moreover have "same_shape s (s\<lparr>pbufs := (pbufs s)(p \<mapsto> b\<lparr>payload := x, p_len := y, tot_len := z\<rparr>)\<rparr>)" for x y z using assms(1) by (simp add: same_shape_def shape_def)
  ultimately show ?thesis using assms by (simp add: pbuf_remove_header_def Let_def upd_def)
qed

lemma chain_ok:
  assumes "refs_ok s R" "two_packets s h t" "R t > 0" "pbufs s t = Some b" "p_ref b \<noteq> 0xFF"
  shows "\<exists>s'. pbuf_chain (Some h) (Some t) s = Some s' \<and> refs_ok s' R"
proof -
  obtain ps xs qs ys where pk: "packet s (Some h) ps xs" "packet s (Some t) qs ys" "set ps \<inter> set qs = {}" using assms(2) by (auto simp: two_packets_def)
  have tp: "t \<notin> set ps" using pk(2,3) by (auto simp: packet_Some)
  from cat_ok [OF assms(1) pk assms(3)] obtain s1 where s1: "pbuf_cat (Some h) (Some t) s = Some s1" "refs_ok s1 (R(t := R t - 1))" by blast
  have "last ps \<noteq> t" using last_in_packet [OF pk(1)] tp by auto
  then have t1: "pbufs s1 t = Some b" using pbuf_cat_packet [OF pk(1) tp assms(4)] s1(1) assms(4) tp by (auto simp: set_next_pbufs)
  from ref_ok [OF s1(2) t1 assms(5)] obtain s' where "pbuf_ref (Some t) s1 = Some s'" "refs_ok s' ((R(t := R t - 1))(t := (R(t := R t - 1)) t + 1))" by blast
  moreover have "(R(t := R t - 1))(t := (R(t := R t - 1)) t + 1) = R" using assms(3) by auto
  ultimately show ?thesis using s1(1) by (simp add: pbuf_chain_def)
qed

lemma pcall_ok:
  assumes "refs_ok s R" "fresh E" "pcall_legal E c (s, R)"
  shows "\<exists>s' R'. pcall_run E c (s, R) = Some (s', R') \<and> refs_ok s' R'"
proof (cases c)
  case (Alloc l n ty)
  then show ?thesis using pbuf_alloc_ok [OF assms(1,2), of ty l n] assms(3) by auto
next
  case (AllocReference pl n ty)
  then show ?thesis using alloc_reference_ok [OF assms(1,2), of ty pl n] assms(3) by auto
next
  case (Ref p)
  then obtain b where "pbufs s p = Some b" "p_ref b \<noteq> 0xFF" using assms(3) refs_live [OF assms(1)] by fastforce
  then show ?thesis using ref_ok [OF assms(1)] Ref by fastforce
next
  case (Free p)
  then show ?thesis using pbuf_free_ok [OF assms(1), of p E] assms(3) by auto
next
  case (Cat h t)
  then obtain ps xs qs ys where "packet s (Some h) ps xs" "packet s (Some t) qs ys" "set ps \<inter> set qs = {}" "R t > 0" using assms(3) by (auto simp: two_packets_def)
  from cat_ok [OF assms(1) this] show ?thesis using Cat by auto
next
  case (Chain h t)
  then obtain b where "pbufs s t = Some b" using assms(3) refs_live [OF assms(1)] by fastforce
  then show ?thesis using chain_ok [OF assms(1)] Chain assms(3) by fastforce
next
  case (Dechain p)
  then obtain ps xs where pk: "packet s (Some p) ps xs" "R p > 0" using assms(3) by (auto simp: is_packet_def)
  from dechain_ok [OF assms(1) pk, of E] show ?thesis using Dechain by auto
next
  case (AddHeader p n)
  then obtain b where "pbufs s p = Some b" "unat n \<le> payload b" using assms(3) refs_live [OF assms(1)] by fastforce
  from add_header_shape [OF this] show ?thesis using AddHeader refs_ok_shape [OF _ assms(1)] by fastforce
next
  case (RemoveHeader p n)
  then obtain b where "pbufs s p = Some b" using assms(3) refs_live [OF assms(1)] by fastforce
  from remove_header_shape [OF this, of n] show ?thesis using RemoveHeader refs_ok_shape [OF _ assms(1)] by fastforce
next
  case (TakeAt p ys off)
  then obtain ps xs where pk: "packet s (Some p) ps xs" "apart s ps" using assms(3) by (auto simp: is_packet_def)
  have "\<exists>e s'. pbuf_take_at (Some p) ys off s = Some (e, s') \<and> refs_ok s' R"
    using take_at_packet [OF pk, of off ys] refs_ok_shape [OF frame_shape assms(1)] assms(1) by (auto split: if_splits)
  then show ?thesis using TakeAt by auto
next
  case (PutAt p off x)
  then obtain ps xs where pk: "packet s (Some p) ps xs" "apart s ps" using assms(3) by (auto simp: is_packet_def)
  then show ?thesis using put_at_packet [OF pk, of off x] refs_ok_shape [OF frame_shape assms(1)] PutAt by auto
qed

fun pcalls :: "penv \<Rightarrow> pcall list \<Rightarrow> user \<Rightarrow> user option" where
  "pcalls E [] u = Some u"
| "pcalls E (c # cs) u = do { u1 \<leftarrow> pcall_run E c u; pcalls E cs u1 }"

text \<open>Each call is legal in the state in which it is made.\<close>

fun pcalls_legal :: "penv \<Rightarrow> pcall list \<Rightarrow> user \<Rightarrow> bool" where
  "pcalls_legal E [] u \<longleftrightarrow> True"
| "pcalls_legal E (c # cs) u \<longleftrightarrow> pcall_legal E c u \<and> (case pcall_run E c u of None \<Rightarrow> True | Some u1 \<Rightarrow> pcalls_legal E cs u1)"

definition no_buffers :: pstate where
  "no_buffers = \<lparr>pbufs = (\<lambda>_. None), bytes = (\<lambda>_. None), chunks = (\<lambda>_. None), ooseq_pending = False, ooseq_calls = 0\<rparr>"

lemma no_buffers_ok: "refs_ok no_buffers (\<lambda>_. 0)"
  by (simp add: refs_ok_def no_buffers_def link_def acyclic_def)

lemma pcalls_ok: "refs_ok s R \<Longrightarrow> fresh E \<Longrightarrow> pcalls_legal E cs (s, R) \<Longrightarrow> \<exists>s' R'. pcalls E cs (s, R) = Some (s', R') \<and> refs_ok s' R'"
proof (induction cs arbitrary: s R)
  case (Cons c cs)
  from pcall_ok [OF Cons.prems(1,2)] Cons.prems(3) obtain s1 R1 where s1: "pcall_run E c (s, R) = Some (s1, R1)" "refs_ok s1 R1" by fastforce
  then show ?case using Cons.IH [OF s1(2) Cons.prems(2)] Cons.prems(3) by simp
qed simp

text \<open>
  C33. However users allocate, share, chain, unchain, write and free packet buffers, with allocators that give unused memory or none, every call returns: no buffer is
  touched or freed after it is gone, and none returns to the wrong pool. The count in each buffer is always the number of references to it, those from other
  buffers included, and when the users have given up all theirs, all memory is back.\<close>

theorem pbuf_client:
  assumes "fresh E" "pcalls_legal E cs (no_buffers, \<lambda>_. 0)"
  shows "\<exists>s R. pcalls E cs (no_buffers, \<lambda>_. 0) = Some (s, R) \<and> (\<forall>p b. pbufs s p = Some b \<longrightarrow> unat (p_ref b) = R p + incoming s p) \<and>
    (\<forall>p. R p > 0 \<longrightarrow> pbufs s p \<noteq> None) \<and> (R = (\<lambda>_. 0) \<longrightarrow> pbufs s = (\<lambda>_. None) \<and> chunks s = (\<lambda>_. None))"
proof -
  from pcalls_ok [OF no_buffers_ok assms] obtain s R where s: "pcalls E cs (no_buffers, \<lambda>_. 0) = Some (s, R)" "refs_ok s R" by blast
  have "pbufs s = (\<lambda>_. None) \<and> chunks s = (\<lambda>_. None)" if "R = (\<lambda>_. 0)" using no_leak s(2) that by blast
  then show ?thesis using s refs_okD(1) [OF s(2)] refs_live [OF s(2)] by (intro exI [of _ s] exI [of _ R]) auto
qed

text \<open>Allocators with places of 100 bytes each.\<close>

definition places :: penv where
  "places = \<lparr>answer = (\<lambda>src n s. if n \<le> 100 then find (\<lambda>p. pbufs s p = None \<and> chunks s p = None \<and> (\<forall>i < 100. bytes s (p + i) = None)) [1000, 1100, 1200] else None),
    junk = (\<lambda>_. 0), pool_bufsize = 40, trimmed = (\<lambda>n k. n), custom_free = (\<lambda>p s. None), try_callback = (\<lambda>_. True)\<rparr>"

lemma places_fresh: "fresh places"
proof -
  have "bytes s a = None" if "\<forall>i < 100. bytes s (p + i) = None" "p + SIZEOF_STRUCT_PBUF \<le> a" "a < p + n" "n \<le> 100" for s p a n
  proof -
    have "a - p < 100" "p + (a - p) = a" using that(2-4) by linarith+
    then show ?thesis using that(1) by metis
  qed
  then show ?thesis by (auto simp: fresh_def places_def find_Some_iff split: if_splits)
qed

theorem pbuf_client_witness:
  "\<exists>s R. pcalls places [AllocReference 500 3 PBUF_REF, Ref 1000, Free 1000, Free 1000] (no_buffers, \<lambda>_. 0) = Some (s, R) \<and> pbufs s = (\<lambda>_. None)"
proof -
  let ?cs = "[AllocReference 500 3 PBUF_REF, Ref 1000, Free 1000, Free 1000]"
  have a: "answer places 1 SIZEOF_STRUCT_PBUF no_buffers = Some 1000" by (simp add: places_def no_buffers_def SIZEOF_STRUCT_PBUF_def)
  have f: "free_loop E None k s = Some (k, s)" for E k s by (subst free_loop.simps) simp
  note run = pbuf_alloc_reference_def new_chunk_def a pbuf_init_alloced_pbuf_def plus_ref_def pbuf_ref_def pbuf_free_def upd_def f
    release_def is_custom_def pbuf_get_allocsrc_def free_chunk_def PBUF_REF_def PBUF_ROM_def
  have "pcalls_legal places ?cs (no_buffers, \<lambda>_. 0)" by (simp add: run free_loop.simps [of _ "Some 1000"])
  moreover have "\<exists>s. pcalls places ?cs (no_buffers, \<lambda>_. 0) = Some (s, (\<lambda>_. 0)(1000 := 0))" by (simp add: run free_loop.simps [of _ "Some 1000"])
  ultimately show ?thesis using pbuf_client [OF places_fresh, of ?cs] by auto
qed

section \<open>Long chains\<close>

lemma kept_link: "kept s s' \<Longrightarrow> link s' \<subseteq> link s"
proof
  fix x assume k: "kept s s'" and "x \<in> link s'"
  then obtain p q b where x: "x = (p, q)" "pbufs s' p = Some b" "p_next b = Some q" by (auto simp: link_def)
  obtain c where c: "pbufs s p = Some c" "b = c\<lparr>p_ref := p_ref b\<rparr>" using k x(2) unfolding kept_def by blast
  then have "p_next c = Some q" using x(3) by (metis pbuf.ext_inject pbuf.surjective pbuf.update_convs(7))
  then show "x \<in> link s" using x c(1) by (auto simp: link_def)
qed

text \<open>Freeing does not touch a buffer that is not in the chain.\<close>

lemma free_outside:
  assumes "refs_ok s R" "refs_ok s' R'" "kept s s'" "\<And>p. p \<notin> A \<Longrightarrow> R' p = R p" "\<And>p q. p \<in> A \<Longrightarrow> (p, q) \<in> link s \<Longrightarrow> q \<in> A" "pbufs s r \<noteq> None" "r \<notin> A"
  shows "pbufs s' r \<noteq> None"
proof -
  show ?thesis using link_wf [OF assms(1)] assms(6,7)
  proof (induction r rule: wf_induct_rule)
    case (less r)
    show ?case
    proof
      assume n: "pbufs s' r = None"
      then have "R' r = 0" using assms(2) by (simp add: refs_ok_def)
      then have "R r = 0" using assms(4) [OF less.prems(2)] by simp
      moreover obtain b where b: "pbufs s r = Some b" using less.prems(1) by blast
      ultimately have "incoming s r > 0" using refs_okD(1,2) [OF assms(1) b] by (metis add_0 unat_gt_0)
      then obtain p where p: "(p, r) \<in> link s" by (auto simp: incoming_def card_gt_0_iff)
      then have "p \<notin> A" "pbufs s p \<noteq> None" using assms(5) less.prems(2) by (auto simp: link_def)
      then obtain c where c: "pbufs s' p = Some c" using less.IH [OF p] by blast
      then obtain d where d: "pbufs s p = Some d" "c = d\<lparr>p_ref := p_ref c\<rparr>" using assms(3) unfolding kept_def by blast
      have "p_next d = Some r" using p d(1) by (simp add: link_def)
      then have "p_next c = Some r" using d(2) by (metis pbuf.ext_inject pbuf.surjective pbuf.update_convs(7))
      then show False using refs_okD(4) [OF assms(2) c] n by simp
    qed
  qed
qed

lemma dead_chain:
  assumes "refs_ok s R" "kept s0 s" "\<And>p. p \<in> set ps \<Longrightarrow> R p = 0" "\<And>p q. q \<in> set ps \<Longrightarrow> (p, q) \<in> link s0 \<Longrightarrow> p \<in> set ps"
  shows "\<forall>p \<in> set ps. pbufs s p = None"
proof -
  have "p \<in> set ps \<Longrightarrow> pbufs s p = None" for p using link_wf [OF assms(1)]
  proof (induction p rule: wf_induct_rule)
    case (less p)
    show ?case
    proof (rule ccontr)
      assume "pbufs s p \<noteq> None"
      then obtain b where b: "pbufs s p = Some b" by blast
      have "incoming s p > 0" using refs_okD(1,2) [OF assms(1) b] assms(3) [OF less.prems] by (metis add_0 unat_gt_0)
      then obtain q where q: "(q, p) \<in> link s" by (auto simp: incoming_def card_gt_0_iff)
      then have "q \<in> set ps" using assms(4) [OF less.prems] kept_link [OF assms(2)] by blast
      then show False using less.IH [OF q] q by (auto simp: link_def)
    qed
  qed
  then show ?thesis by blast
qed

lemma packet_pred: "packet s (Some p) (p # qs) xs \<Longrightarrow> q \<in> set qs \<Longrightarrow> \<exists>r \<in> set (p # qs). (r, q) \<in> link s"
proof (induction qs arbitrary: p xs)
  case (Cons a qs)
  then obtain b where b: "pbufs s p = Some b" "packet s (p_next b) (a # qs) (drop (unat (p_len b)) xs)" by (auto split: option.splits)
  then have n: "p_next b = Some a" by simp
  show ?case
  proof (cases "q = a")
    case True
    then show ?thesis using b(1) n by (auto simp: link_def)
  next
    case False
    then show ?thesis using Cons.IH [of a "drop (unat (p_len b)) xs"] b(2) n Cons.prems(2) by auto
  qed
qed simp

text \<open>
  C39. \<^verbatim>\<open>pbuf_dechain\<close> looks at the number of freed buffers, which has 8 bits, to see whether the rest of the chain is gone. When exactly 256 buffers are freed, it
  returns a pointer to the first of them.\<close>

theorem dechain_dangling:
  assumes "refs_ok s R" "packet s (Some p) (p # q # qs) xs" "R p > 0" "length (q # qs) = 256" "\<forall>r \<in> set (q # qs). \<forall>b. pbufs s r = Some b \<longrightarrow> p_ref b = 1"
  shows "\<exists>s'. pbuf_dechain E p s = Some (Some q, s') \<and> pbufs s' q = None"
proof -
  let ?Q = "q # qs"
  obtain b where b: "pbufs s p = Some b" "p_next b = Some q" using assms(2) by (auto split: option.splits)
  have dist: "p \<notin> set ?Q" "distinct ?Q" using packet_distinct [OF assms(2)] by auto
  obtain s2 k s3 d where s3: "pbuf_dechain E p s = Some (if k > 0 then None else Some q, s3)" "refs_ok s3 R" "kept s2 s3" "counted s2 s3 0 k" "refs_ok s2 (R(q := R q + 1))"
      "dom (pbufs s2) = dom (pbufs s)" "link s2 = link s - {p} \<times> UNIV" "pbufs s3 p = Some d" "p_next d = None" "tot_len d = p_len d"
    by (rule dechain_free [OF assms(1,2,3) b, of E])
  have one: "R r = 0 \<and> incoming s r = 1" if r: "r \<in> set ?Q" for r
  proof -
    obtain c where c: "pbufs s r = Some c" using packet_next [OF assms(2)] r by auto
    then have "R r + incoming s r = 1" using refs_okD(1) [OF assms(1) c] assms(5) r by fastforce
    moreover have "incoming s r > 0" using packet_pred [OF assms(2), of r] r link_finite [of s r] assms(1) by (auto simp: incoming_def card_gt_0_iff refs_ok_def)
    ultimately show ?thesis by simp
  qed
  have pred: "x \<in> set ?Q" if r: "r \<in> set ?Q" "(x, r) \<in> link s2" for x r
  proof -
    obtain y where y: "y \<in> set (p # ?Q)" "(y, r) \<in> link s" using packet_pred [OF assms(2) r(1)] by blast
    obtain z where "{x. (x, r) \<in> link s} = {z}" using one [OF r(1)] by (auto simp: incoming_def card_1_singleton_iff)
    then have "x = z" "y = z" using r(2) s3(7) y(2) by blast+
    then have "x = y" "x \<noteq> p" using r(2) s3(7) by auto
    then show ?thesis using y(1) by auto
  qed
  have dead: "\<forall>r \<in> set ?Q. pbufs s3 r = None" by (rule dead_chain [OF s3(2,3)]) (use one pred in auto)
  have live: "pbufs s3 r \<noteq> None" if "r \<in> dom (pbufs s)" "r \<notin> set ?Q" for r
  proof (rule free_outside [OF s3(5,2,3), of "set ?Q"])
    show "pbufs s2 r \<noteq> None" using that(1) s3(6) by auto
    show "y \<in> set ?Q" if "x \<in> set ?Q" "(x, y) \<in> link s2" for x y
    proof -
      obtain zs where "packet s (Some q) ?Q zs" using packet_suffix [of s "Some p" "[p]" q qs xs] assms(2) by auto
      then show ?thesis using packet_link that s3(7) by blast
    qed
  qed (use that(2) in auto)
  have "dom (pbufs s3) \<subseteq> dom (pbufs s)" using s3(3,6) unfolding kept_def by blast
  then have "dom (pbufs s3) = dom (pbufs s) - set ?Q" using dead live by (intro equalityI subsetI) (auto simp: dom_def)
  moreover have sub: "set ?Q \<subseteq> dom (pbufs s)" using packet_next [OF assms(2)] by auto
  moreover have fin: "finite (dom (pbufs s))" using assms(1) by (simp add: refs_ok_def)
  moreover have Q: "card (set ?Q) = 256" using distinct_card [OF dist(2)] assms(4) by simp
  ultimately have "card (dom (pbufs s3)) = card (dom (pbufs s)) - 256" by (simp only: card_Diff_subset [OF finite_set sub])
  moreover have "256 \<le> card (dom (pbufs s))" using card_mono [OF fin sub] Q by simp
  ultimately have "card (dom (pbufs s)) - card (dom (pbufs s3)) = 256" by simp
  then have "k = 0" using s3(4) unfolding counted_def s3(6) by simp
  then show ?thesis using s3(1) dead by auto
qed

text \<open>A chain of 257 empty buffers at the addresses 0 to 256.\<close>

definition long_chain :: pstate where
  "long_chain = \<lparr>pbufs = (\<lambda>a. if a \<le> 256 then Some \<lparr>p_next = (if a < 256 then Some (a + 1) else None), payload = 0, tot_len = 0, p_len = 0, type_internal = 1, p_flags = 0, p_ref = 1, if_idx = 0\<rparr> else None),
    bytes = (\<lambda>_. None), chunks = (\<lambda>a. if a \<le> 256 then Some (1, 16) else None), ooseq_pending = False, ooseq_calls = 0\<rparr>"

lemma long_chain_packet: "a \<le> 256 \<Longrightarrow> packet long_chain (Some a) [a..<257] []"
proof (induction "256 - a" arbitrary: a)
  case 0
  then have "a = 256" by simp
  moreover have "[256..<257] = [256::nat]" by (simp add: upt_conv_Cons)
  ultimately show ?case by (simp add: long_chain_def)
next
  case (Suc n)
  then have "packet long_chain (Some (a + 1)) [a + 1..<257] []" by simp
  moreover have "[a..<257] = a # [a + 1..<257]" "a < 256" using Suc by (simp_all add: upt_conv_Cons)
  ultimately show ?case by (simp add: long_chain_def)
qed

lemma long_chain_link: "link long_chain = {(a, a + 1) | a. a < 256}"
  by (auto simp: link_def long_chain_def split: if_splits)

lemma long_chain_ok: "refs_ok long_chain ((\<lambda>_. 0)(0 := 1))"
proof -
  have i: "incoming long_chain a = (if 0 < a \<and> a \<le> 256 then 1 else 0)" for a
  proof -
    have "{q. (q, a) \<in> link long_chain} = (if 0 < a \<and> a \<le> 256 then {a - 1} else {})" by (auto simp: long_chain_link)
    then show ?thesis by (simp add: incoming_def)
  qed
  have "acyclic (link long_chain)" by (rule wf_acyclic [OF wf_subset [OF wf_measure [of "\<lambda>n. n"]]]) (auto simp: long_chain_link)
  moreover have "finite (dom (pbufs long_chain))" by (rule finite_subset [of _ "{..256}"]) (auto simp: long_chain_def split: if_splits)
  moreover have "chunk_ok long_chain p b" if "pbufs long_chain p = Some b" for p b
    using that by (auto simp: chunk_ok_def long_chain_def is_custom_def pbuf_get_allocsrc_def split: if_splits)
  moreover have "unat (p_ref b) = ((\<lambda>_. 0)(0 := 1)) p + incoming long_chain p \<and> p_ref b \<noteq> 0" if "pbufs long_chain p = Some b" for p b
  proof -
    have "p_ref b = 1" "p \<le> 256" using that by (auto simp: long_chain_def split: if_splits)
    then show ?thesis by (simp add: i)
  qed
  moreover have "pbufs long_chain q \<noteq> None" if "(p, q) \<in> link long_chain" for p q using that by (auto simp: long_chain_link) (simp add: long_chain_def)
  moreover have "((\<lambda>_. 0)(0 := 1)) p = 0 \<and> chunks long_chain p = None" if "pbufs long_chain p = None" for p :: addr using that by (simp add: long_chain_def split: if_splits)
  ultimately show ?thesis unfolding refs_ok_def by blast
qed

theorem dechain_dangling_witness: "\<exists>s'. pbuf_dechain places 0 long_chain = Some (Some 1, s') \<and> pbufs s' 1 = None"
proof (rule dechain_dangling [OF long_chain_ok])
  have "[0..<257] = 0 # 1 # [2..<257]" by (simp add: upt_conv_Cons)
  then show "packet long_chain (Some 0) (0 # 1 # [2..<257]) []" using long_chain_packet [of 0] by simp
  show "\<forall>r \<in> set (1 # [2..<257]). \<forall>b. pbufs long_chain r = Some b \<longrightarrow> p_ref b = 1" by (auto simp: long_chain_def split: if_splits)
qed simp_all

end
