(* ===== verification/PbufCopy.thy ===== *)
theory PbufCopy
  imports PbufRefs
begin

text \<open>
  Copies of packets between chains that are cut differently, the room in buffers from the heap, and clones.
\<close>

section \<open>One part\<close>

definition no_empty :: "pstate \<Rightarrow> addr list \<Rightarrow> bool" where
  "no_empty s ps \<longleftrightarrow> (\<forall>p \<in> set ps. \<forall>b. pbufs s p = Some b \<longrightarrow> p_len b \<noteq> 0)"

lemma unat_ucast16: "unat (ucast n :: u32) = unat n" for n :: u16
  using unat_u16 [of n] by (simp add: unsigned_ucast_eq take_bit_eq_mod)

lemma copy_part_ok:
  assumes t: "packet s (Some t) (t # ts) xs" "apart s (t # ts)" "pbufs s t = Some bt" "unat ot < unat (p_len bt)"
    and f: "packet s (Some f) (f # fs) ys" "pbufs s f = Some bf" "unat off < unat (p_len bf)"
    and k: "k = min (unat n) (min (unat (p_len bt) - unat ot) (unat (p_len bf) - unat off))"
  shows "copy_part t ot f off n s = Some (ot + of_nat k, off + of_nat k, n - of_nat k, stored (payload bt + unat ot) (take k (drop (unat off) ys)) s)"
    "packet (stored (payload bt + unat ot) (take k (drop (unat off) ys)) s) (Some t) (t # ts) (patch (unat ot) (take k (drop (unat off) ys)) xs)"
    "frame s (stored (payload bt + unat ot) (take k (drop (unat off) ys)) s) (prange s t)"
proof -
  have bt: "unat (p_len bt) \<le> length xs" "rd_bytes (payload bt) (unat (p_len bt)) s = Some (take (unat (p_len bt)) xs)" using t(1,3) by auto
  have bf: "unat (p_len bf) \<le> length ys" "rd_bytes (payload bf) (unat (p_len bf)) s = Some (take (unat (p_len bf)) ys)" using f(1,2) by auto
  let ?tl = "ucast (p_len bt) - ot" and ?fl = "ucast (p_len bf) - off"
  have tl: "unat ?tl = unat (p_len bt) - unat ot" using t(4) by (simp add: unat_sub word_le_nat_alt unat_ucast16)
  have fl: "unat ?fl = unat (p_len bf) - unat off" using f(3) by (simp add: unat_sub word_le_nat_alt unat_ucast16)
  have kl: "k \<le> unat (p_len bt)" "k < 65536" "k \<le> unat n" using k unsigned_less [of "p_len bt", where ?'a = nat] by auto
  have m: "unat (min (ucast n) (if ?tl \<ge> ?fl then ?fl else ?tl)) = k"
    using tl fl k by (auto simp: min_def word_le_nat_alt unat_ucast16)
  have kn: "ucast (min (ucast n) (if ?tl \<ge> ?fl then ?fl else ?tl)) = (of_nat k :: u16)"
    using m kl(2) by (simp add: word_unat_eq_iff unsigned_ucast_eq unat_of_nat take_bit_eq_mod)
  have uk: "unat (of_nat k :: u16) = k" using kl(2) by (simp add: unat_of_nat)
  have uk32: "ucast (of_nat k :: u16) = (of_nat k :: u32)" using uk kl(2) by (simp add: word_unat_eq_iff unat_ucast16 unat_of_nat)
  let ?xs = "take k (drop (unat off) ys)" and ?s = "stored (payload bt + unat ot) (take k (drop (unat off) ys)) s"
  have le: "unat ot + k \<le> unat (p_len bt)" "unat off + k \<le> unat (p_len bf)" using k t(4) f(3) by auto
  then have "k \<le> unat (p_len bf) - unat off" by simp
  then have "take k (drop (unat off) (take (unat (p_len bf)) ys)) = ?xs" by (simp add: drop_take min_absorb1)
  then have r: "rd_bytes (payload bf + unat off) k s = Some ?xs" using rd_bytes_part [OF bf(2) le(2)] by simp
  have len: "length ?xs = k" using le(2) bf(1) by simp
  have w: "wr_bytes (payload bt + unat ot) ?xs s = Some ?s" using rd_mapped [OF bt(2) le(1)] len by (intro wr_bytes_stored) simp
  have "unat (ot + of_nat k) = unat ot + k" "unat (off + of_nat k) = unat off + k"
    using le unsigned_less [of "p_len bt", where ?'a = nat] unsigned_less [of "p_len bf", where ?'a = nat] by (simp_all add: unat_word_ariths unat_of_nat)
  then show "copy_part t ot f off n s = Some (ot + of_nat k, off + of_nat k, n - of_nat k, ?s)"
    using le unfolding copy_part_def by (simp only: t(3) f(2) Option.bind.simps Let_def kn uk uk32 r w) (simp add: word_le_nat_alt unat_ucast16)
  have "take (min (unat (p_len bt) - unat ot) (length ?xs)) ?xs = ?xs" using le(1) len by simp
  then show "packet ?s (Some t) (t # ts) (patch (unat ot) ?xs xs)" "frame s ?s (prange s t)"
    using write_head [OF t(1-3), of "unat ot" ?xs] t(4) le(1) len bt(1) w by auto
qed

section \<open>The loop\<close>

text \<open>Where the loop goes on in a chain after \<open>off\<close> bytes of its first buffer: there are bytes left.\<close>

lemma advance_ok:
  assumes "packet s (Some p) (p # ps) xs" "pbufs s p = Some b" "no_empty s (p # ps)" "unat off \<le> unat (p_len b)" "unat off < length xs" "d = (off = ucast (p_len b))"
  shows "\<exists>q qs c off'. advance d p off s = Some (Some q, off') \<and> pbufs s q = Some c \<and> unat off' < unat (p_len c) \<and>
    (if d then qs = tl ps \<and> ps = q # qs \<and> off' = 0 \<and> p_next b = Some q \<and> packet s (Some q) (q # qs) (drop (unat off) xs) else q = p \<and> qs = ps \<and> off' = off)"
proof (cases d)
  case False
  then have "unat off \<noteq> unat (p_len b)" using assms(6) by (auto simp: word_unat_eq_iff unat_ucast16)
  then have "unat off < unat (p_len b)" using assms(4) by simp
  then show ?thesis using False assms(2) by (auto simp: advance_def)
next
  case True
  then have e: "unat off = unat (p_len b)" using assms(6) by (simp add: unat_ucast16)
  have n: "packet s (p_next b) ps (drop (unat off) xs)" using assms(1,2) e by simp
  then obtain q where q: "p_next b = Some q" using assms(5) by (cases "p_next b") (auto simp: packet_None)
  with n obtain c qs where c: "ps = q # qs" "pbufs s q = Some c" by (auto simp: packet_Some)
  then have "p_len c \<noteq> 0" using assms(3) by (simp add: no_empty_def)
  then have "0 < unat (p_len c)" by (simp add: unat_gt_0)
  then show ?thesis using True assms(2) q c n by (intro exI [of _ q] exI [of _ qs] exI [of _ c] exI [of _ 0]) (simp add: advance_def)
qed

lemma not_queue: "packet s (Some p) ps xs \<Longrightarrow> no_empty s ps \<Longrightarrow> is_queue (Some p) s = Some False"
proof -
  assume a: "packet s (Some p) ps xs" "no_empty s ps"
  then obtain b qs where b: "ps = p # qs" "pbufs s p = Some b" "unat (tot_len b) = length xs" "packet s (p_next b) qs (drop (unat (p_len b)) xs)" by (auto simp: packet_Some)
  have "p_next b = None" if "p_len b = tot_len b"
  proof (rule ccontr)
    assume "p_next b \<noteq> None"
    then obtain q c where c: "p_next b = Some q" "pbufs s q = Some c" "unat (p_len c) \<le> length xs - unat (p_len b)" "q \<in> set qs" using b(4) by (auto simp: packet_Some)
    then have "p_len c \<noteq> 0" using a(2) b(1) by (simp add: no_empty_def)
    then show False using c(3) that b(3) by (simp add: unat_gt_0 [symmetric])
  qed
  then show ?thesis using b(2) by (auto simp: is_queue_def)
qed

lemma no_empty_cong: "pbufs s' = pbufs s \<Longrightarrow> no_empty s' ps = no_empty s ps"
  by (simp add: no_empty_def)

lemma advance_total:
  assumes "packet s (Some p) (p # ps) xs" "no_empty s (p # ps)"
  shows "\<exists>po off'. advance d p off s = Some (po, off') \<and> is_queue po s = Some False"
proof -
  obtain b where b: "pbufs s p = Some b" "packet s (p_next b) ps (drop (unat (p_len b)) xs)" using assms(1) by (auto split: option.splits)
  have "is_queue (Some p) s = Some False" by (rule not_queue [OF assms])
  moreover have "is_queue (p_next b) s = Some False"
  proof (cases "p_next b")
    case (Some q)
    then show ?thesis using not_queue [of s q ps] b(2) assms(2) by (simp add: no_empty_def)
  qed (simp add: is_queue_def)
  ultimately show ?thesis using b(1) by (simp add: advance_def)
qed

text \<open>One round: where it leaves the loop, and how it goes on.\<close>

definition after_part :: "bool \<Rightarrow> bool \<Rightarrow> addr \<Rightarrow> u32 \<Rightarrow> addr \<Rightarrow> u32 \<Rightarrow> u16 \<Rightarrow> pstate \<Rightarrow> (err_t \<times> pstate) option" where
  "after_part dt df t ot f off n s = do {
     (fo, of1) \<leftarrow> advance df f off s;
     if fo = None \<and> n \<noteq> 0 then Some (ERR_ARG, s)
     else do {
       (to, ot1) \<leftarrow> advance dt t ot s;
       if to = None \<and> n \<noteq> 0 then Some (ERR_ARG, s)
       else do {
         qf \<leftarrow> is_queue fo s;
         if qf then Some (ERR_VAL, s)
         else do {
           qt \<leftarrow> is_queue to s;
           if qt then Some (ERR_VAL, s)
           else (case (to, fo) of
               (Some t, Some f) \<Rightarrow> if n \<noteq> 0 then copy_loop t ot1 f of1 n s else Some (ERR_OK, s)
             | _ \<Rightarrow> Some (ERR_OK, s)) } } } }"

lemma copy_loop_round:
  assumes "copy_part t ot f off n s = Some (ot1, off1, n1, s1)" "pbufs s1 t = Some bt" "pbufs s1 f = Some bf" "unat off1 \<le> unat (p_len bf)"
  shows "copy_loop t ot f off n s = after_part (ot1 = ucast (p_len bt)) (off1 = ucast (p_len bf)) t ot1 f off1 n1 s1"
proof -
  have "off1 \<ge> ucast (p_len bf) \<longleftrightarrow> off1 = ucast (p_len bf)" using assms(4) by (auto simp: word_le_nat_alt word_unat_eq_iff unat_ucast16)
  then show ?thesis unfolding after_part_def by (subst copy_loop.simps) (simp add: assms(1-3))
qed

lemma after_part_done:
  assumes "packet s (Some t) (t # ts) xs" "no_empty s (t # ts)" "packet s (Some f) (f # fs) ys" "no_empty s (f # fs)"
  shows "after_part dt df t ot f off 0 s = Some (ERR_OK, s)"
proof -
  obtain to ot1 where t: "advance dt t ot s = Some (to, ot1)" "is_queue to s = Some False" using advance_total [OF assms(1,2)] by blast
  obtain fo of1 where f: "advance df f off s = Some (fo, of1)" "is_queue fo s = Some False" using advance_total [OF assms(3,4)] by blast
  show ?thesis using t f by (auto simp: after_part_def split: option.splits)
qed

lemma after_part_more:
  assumes "advance dt t ot s = Some (Some t1, ot1)" "advance df f off s = Some (Some f1, of1)" "is_queue (Some t1) s = Some False" "is_queue (Some f1) s = Some False" "n \<noteq> 0"
  shows "after_part dt df t ot f off n s = copy_loop t1 ot1 f1 of1 n s"
  using assms by (simp add: after_part_def)

text \<open>The rest of the copy, which starts at the end of the part or in the next buffer, completes it.\<close>

lemma copy_rest:
  assumes "packet s1 (Some t) (t # ts) (patch o1 (take k zs) xs)" "apart s1 (t # ts)" "o1 + length zs \<le> length xs" "k \<le> length zs" "pbufs s1 t = Some bt"
    "if d then ts = t1 # ts1 \<and> o1 + k = unat (p_len bt) \<and> p_next bt = Some t1 \<and> packet s2 (Some t1) ts (patch 0 (drop k zs) (drop (o1 + k) (patch o1 (take k zs) xs))) \<and> frame s1 s2 (pranges s1 ts)
     else packet s2 (Some t) (t # ts) (patch (o1 + k) (drop k zs) (patch o1 (take k zs) xs)) \<and> frame s1 s2 (pranges s1 (t # ts))"
  shows "packet s2 (Some t) (t # ts) (patch o1 zs xs) \<and> frame s1 s2 (pranges s1 (t # ts))"
proof (cases d)
  case False
  then show ?thesis using assms(6) patch_patch [OF assms(4,3)] by simp
next
  case True
  let ?ws = "patch o1 (take k zs) xs"
  have d: "ts = t1 # ts1" "o1 + k = unat (p_len bt)" "p_next bt = Some t1" "packet s2 (Some t1) ts (patch 0 (drop k zs) (drop (o1 + k) ?ws))" "frame s1 s2 (pranges s1 ts)" using True assms(6) by auto
  have len: "length ?ws = length xs" using assms(3,4) by (intro patch_len) simp
  have b: "packet s1 (Some t1) ts (drop (o1 + k) ?ws)" using assms(1,5) d by simp
  have "length (patch 0 (drop k zs) (drop (o1 + k) ?ws)) = length (drop (o1 + k) ?ws)" using assms(3,4) len by (intro patch_len) simp
  from packet_replace [of s1 "Some t" "[t]" ts ?ws, OF _ _ b d(5,4) this] assms(1,2)
  have "packet s2 (Some t) (t # ts) (take (length ?ws - length (drop (o1 + k) ?ws)) ?ws @ patch 0 (drop k zs) (drop (o1 + k) ?ws))" by simp
  moreover have "take (length ?ws - length (drop (o1 + k) ?ws)) ?ws @ patch 0 (drop k zs) (drop (o1 + k) ?ws) = patch (o1 + k) (drop k zs) ?ws"
    using assms(3,4) len unfolding patch_def [of 0] patch_def [of "o1 + k"] by (simp add: add.commute)
  ultimately have "packet s2 (Some t) (t # ts) (patch o1 zs xs)" unfolding patch_patch [OF assms(4,3)] by (simp only:)
  moreover have "frame s1 s2 (pranges s1 (t # ts))" using d(5) by (auto simp: frame_def)
  ultimately show ?thesis by blast
qed

text \<open>A place to copy to: within the first buffer of a packet without empty buffers.\<close>

definition place_in :: "pstate \<Rightarrow> addr \<Rightarrow> addr list \<Rightarrow> u8 list \<Rightarrow> u32 \<Rightarrow> bool" where
  "place_in s p ps xs off \<longleftrightarrow> packet s (Some p) (p # ps) xs \<and> no_empty s (p # ps) \<and> (\<exists>b. pbufs s p = Some b \<and> unat off < unat (p_len b))"

lemma place_frame: "place_in s p ps xs off \<Longrightarrow> frame s s' A \<Longrightarrow> pranges s (p # ps) \<inter> A = {} \<Longrightarrow> place_in s' p ps xs off"
  unfolding place_in_def using frame_packet [of s s' A "Some p" "p # ps" xs] no_empty_cong [of s' s] by (simp add: frame_def)

lemma place_advance:
  assumes "packet s (Some p) (p # ps) xs" "no_empty s (p # ps)" "pbufs s p = Some b" "unat off \<le> unat (p_len b)" "unat off < length xs" "d = (off = ucast (p_len b))"
  shows "\<exists>q qs off'. advance d p off s = Some (Some q, off') \<and> is_queue (Some q) s = Some False \<and>
    (if d then ps = q # qs \<and> p_next b = Some q \<and> off' = 0 \<and> unat off = unat (p_len b) \<and> place_in s q qs (drop (unat off) xs) off' else q = p \<and> qs = ps \<and> off' = off \<and> place_in s p ps xs off)"
proof -
  from advance_ok [OF assms(1,3,2,4,5,6)] obtain q qs c off' where a: "advance d p off s = Some (Some q, off')" "pbufs s q = Some c" "unat off' < unat (p_len c)"
    "if d then qs = tl ps \<and> ps = q # qs \<and> off' = 0 \<and> p_next b = Some q \<and> packet s (Some q) (q # qs) (drop (unat off) xs) else q = p \<and> qs = ps \<and> off' = off" by blast
  show ?thesis
  proof (cases d)
    case True
    then have q: "ps = q # qs" "off' = 0" "p_next b = Some q" "packet s (Some q) (q # qs) (drop (unat off) xs)" using a(4) [unfolded if_P [OF True]] by blast+
    have e: "unat off = unat (p_len b)" using True assms(6) by (simp add: unat_ucast16)
    have ne: "no_empty s (q # qs)" using assms(2) q(1) by (simp add: no_empty_def)
    have "place_in s q qs (drop (unat off) xs) off'" unfolding place_in_def using q(4) ne a(2,3) by blast
    then show ?thesis using True a(1) q(1,2,3) e not_queue [OF q(4) ne] by (intro exI [of _ q] exI [of _ qs] exI [of _ off']) (simp only: if_True simp_thms)
  next
    case False
    then have q: "q = p" "qs = ps" "off' = off" using a(4) by simp_all
    have "place_in s p ps xs off" unfolding place_in_def using assms(1,2) a(2,3) q by blast
    then show ?thesis using False a(1) q not_queue [OF assms(1,2)] by (intro exI [of _ q] exI [of _ qs] exI [of _ off']) (simp only: if_False simp_thms)
  qed
qed

lemma copy_loop_ok:
  "place_in s t ts xs ot \<Longrightarrow> apart s (t # ts) \<Longrightarrow> place_in s f fs ys off \<Longrightarrow> pranges s (t # ts) \<inter> pranges s (f # fs) = {} \<Longrightarrow>
    unat ot + unat n \<le> length xs \<Longrightarrow> unat off + unat n \<le> length ys \<Longrightarrow>
    \<exists>s'. copy_loop t ot f off n s = Some (ERR_OK, s') \<and> packet s' (Some t) (t # ts) (patch (unat ot) (take (unat n) (drop (unat off) ys)) xs) \<and> frame s s' (pranges s (t # ts))"
proof (induction "length ts + length fs" arbitrary: s t ts xs ot f fs ys off n rule: less_induct)
  case less
  from less.prems(1) obtain bt where t: "packet s (Some t) (t # ts) xs" "no_empty s (t # ts)" "pbufs s t = Some bt" "unat ot < unat (p_len bt)" by (auto simp: place_in_def simp del: packet.simps)
  from less.prems(3) obtain bf where f: "packet s (Some f) (f # fs) ys" "no_empty s (f # fs)" "pbufs s f = Some bf" "unat off < unat (p_len bf)" by (auto simp: place_in_def simp del: packet.simps)
  define k where "k = min (unat n) (min (unat (p_len bt) - unat ot) (unat (p_len bf) - unat off))"
  define zs where "zs = take (unat n) (drop (unat off) ys)"
  define s1 where "s1 = stored (payload bt + unat ot) (take k (drop (unat off) ys)) s"
  note part = copy_part_ok [OF t(1) less.prems(2) t(3,4) f(1,3,4) k_def, folded s1_def]
  have zk: "take k (drop (unat off) ys) = take k zs" "length zs = unat n" "k \<le> unat n" using less.prems(6) by (auto simp: zs_def k_def min_absorb1)
  have fp: "pbufs s1 = pbufs s" using part(3) by (simp add: frame_def)
  have pt: "packet s1 (Some t) (t # ts) (patch (unat ot) (take k zs) xs)" "no_empty s1 (t # ts)" "pbufs s1 t = Some bt" "apart s1 (t # ts)"
    using part(2) zk(1) t(2,3) fp no_empty_cong [OF fp] apart_cong [of "t # ts" s1 s] less.prems(2) by (simp_all del: packet.simps)
  have pf: "packet s1 (Some f) (f # fs) ys" "no_empty s1 (f # fs)" "pbufs s1 f = Some bf"
    using frame_packet [OF part(3) f(1)] less.prems(4) f(2,3) fp no_empty_cong [OF fp] by (auto simp del: packet.simps)
  have u: "unat (ot + of_nat k) = unat ot + k" "unat (off + of_nat k) = unat off + k" "unat ot + k \<le> unat (p_len bt)" "unat off + k \<le> unat (p_len bf)"
    using t(4) f(4) unat_u16 [of "p_len bt"] unat_u16 [of "p_len bf"] by (auto simp: k_def unat_word_ariths unat_of_nat min_def)
  have "(of_nat k :: u16) \<le> n" "unat (of_nat k :: u16) = k" using zk(3) unat_u16 [of n] by (simp_all add: word_le_nat_alt unat_of_nat)
  then have un: "unat (n - of_nat k) = unat n - k" by (simp add: unat_sub)
  let ?dt = "ot + of_nat k = ucast (p_len bt)" and ?df = "off + of_nat k = ucast (p_len bf)"
  have st: "copy_loop t ot f off n s = after_part ?dt ?df t (ot + of_nat k) f (off + of_nat k) (n - of_nat k) s1"
    using u(2,4) by (intro copy_loop_round [OF part(1) pt(3) pf(3)]) simp
  have fr: "frame s s1 (pranges s (t # ts))" using part(3) by (auto simp: frame_def)
  show ?case
  proof (cases "n - of_nat k = 0")
    case True
    then have "k = unat n" using un zk(3) by simp
    then have "take k zs = zs" using zk(2) by simp
    then have "packet s1 (Some t) (t # ts) (patch (unat ot) zs xs)" using pt(1) by (simp only:)
    moreover have "copy_loop t ot f off n s = Some (ERR_OK, s1)" using after_part_done [OF pt(1,2) pf(1,2)] st True by (simp only:)
    ultimately show ?thesis using fr unfolding zs_def by blast
  next
    case False
    then have lt: "k < unat n" using un zk(3) by (metis diff_is_0_eq leI unat_eq_zero)
    have len: "length (patch (unat ot) (take k zs) xs) = length xs" using less.prems(5) zk(2,3) by (intro patch_len) simp
    have "unat (ot + of_nat k) < length (patch (unat ot) (take k zs) xs)" using u(1) lt less.prems(5) len by simp
    with place_advance [OF pt(1-3), of "ot + of_nat k" ?dt] u(1,3) obtain t1 ts1 ot1 where
      a: "advance ?dt t (ot + of_nat k) s1 = Some (Some t1, ot1)" "is_queue (Some t1) s1 = Some False"
        "if ?dt then ts = t1 # ts1 \<and> p_next bt = Some t1 \<and> ot1 = 0 \<and> unat (ot + of_nat k) = unat (p_len bt) \<and> place_in s1 t1 ts1 (drop (unat (ot + of_nat k)) (patch (unat ot) (take k zs) xs)) ot1
         else t1 = t \<and> ts1 = ts \<and> ot1 = ot + of_nat k \<and> place_in s1 t ts (patch (unat ot) (take k zs) xs) (ot + of_nat k)" by auto
    have "unat (off + of_nat k) < length ys" using u(2) lt less.prems(6) by simp
    with place_advance [OF pf, of "off + of_nat k" ?df] u(2,4) obtain f1 fs1 of1 where
      b: "advance ?df f (off + of_nat k) s1 = Some (Some f1, of1)" "is_queue (Some f1) s1 = Some False"
        "if ?df then fs = f1 # fs1 \<and> p_next bf = Some f1 \<and> of1 = 0 \<and> unat (off + of_nat k) = unat (p_len bf) \<and> place_in s1 f1 fs1 (drop (unat (off + of_nat k)) ys) of1
         else f1 = f \<and> fs1 = fs \<and> of1 = off + of_nat k \<and> place_in s1 f fs ys (off + of_nat k)" by auto
    define ws where "ws = patch (unat ot) (take k zs) xs"
    have sub: "unat n - k \<le> length xs - (unat ot + k)" "unat n - k \<le> length ys - (unat off + k)" "unat ot + k + (unat n - k) \<le> length xs" "unat off + k + (unat n - k) \<le> length ys"
      using less.prems(5,6) zk(3) by linarith+
    obtain xs' where X: "place_in s1 t1 ts1 xs' ot1" "unat ot1 + (unat n - k) \<le> length xs'" "apart s1 (t1 # ts1)" "set (t1 # ts1) \<subseteq> set (t # ts)"
      "xs' = (if ?dt then drop (unat ot + k) ws else ws)" "unat ot1 = (if ?dt then 0 else unat ot + k)" "length ts1 + (if ?dt then 1 else 0) = length ts"
      using a(3) u(1) pt(4) len sub unfolding ws_def [symmetric] by (cases ?dt) (auto simp del: packet.simps)
    obtain ys' where Y: "place_in s1 f1 fs1 ys' of1" "unat of1 + (unat n - k) \<le> length ys'" "set (f1 # fs1) \<subseteq> set (f # fs)"
      "drop (unat of1) ys' = drop (unat off + k) ys" "length fs1 + (if ?df then 1 else 0) = length fs"
      using b(3) u(2) sub by (cases ?df) (auto simp del: packet.simps)
    have "?dt \<or> ?df" using lt u(3,4) unfolding word_unat_eq_iff u(1,2) unat_ucast16 by (auto simp: k_def min_def split: if_splits)
    then have m: "length ts1 + length fs1 < length ts + length fs" using X(7) Y(5) by auto
    have rs: "pranges s1 (t1 # ts1) \<subseteq> pranges s (t # ts)" "pranges s1 (f1 # fs1) \<subseteq> pranges s (f # fs)"
      using X(4) Y(3) prange_cong [of s1 _ s] fp unfolding pranges_def by auto
    then have dj: "pranges s1 (t1 # ts1) \<inter> pranges s1 (f1 # fs1) = {}" using less.prems(4) by blast
    from less.hyps [OF m X(1,3) Y(1) dj, of "n - of_nat k"] X(2) Y(2) un obtain s2 where
      s2: "copy_loop t1 ot1 f1 of1 (n - of_nat k) s1 = Some (ERR_OK, s2)" "packet s2 (Some t1) (t1 # ts1) (patch (unat ot1) (take (unat n - k) (drop (unat of1) ys')) xs')" "frame s1 s2 (pranges s1 (t1 # ts1))"
      by auto
    have "take (unat n - k) (drop (unat of1) ys') = drop k zs" unfolding Y(4) zs_def by (simp add: drop_take add.commute)
    then have p2: "packet s2 (Some t1) (t1 # ts1) (patch (unat ot1) (drop k zs) xs')" using s2(2) by (simp only:)
    have "packet s2 (Some t) (t # ts) (patch (unat ot) zs xs) \<and> frame s1 s2 (pranges s1 (t # ts))"
    proof (rule copy_rest [OF pt(1,4) _ _ pt(3), where d = ?dt and ?t1.0 = t1 and ?ts1.0 = ts1])
      show "unat ot + length zs \<le> length xs" "k \<le> length zs" using less.prems(5) zk by simp_all
      show "if ?dt then ts = t1 # ts1 \<and> unat ot + k = unat (p_len bt) \<and> p_next bt = Some t1 \<and>
            packet s2 (Some t1) ts (patch 0 (drop k zs) (drop (unat ot + k) (patch (unat ot) (take k zs) xs))) \<and> frame s1 s2 (pranges s1 ts)
          else packet s2 (Some t) (t # ts) (patch (unat ot + k) (drop k zs) (patch (unat ot) (take k zs) xs)) \<and> frame s1 s2 (pranges s1 (t # ts))"
        using a(3) p2 s2(3) X(5,6) u(1) unfolding ws_def [symmetric] by (cases ?dt) (simp_all del: packet.simps pranges_simps)
    qed
    moreover have "copy_loop t ot f off n s = Some (ERR_OK, s2)" using st after_part_more [OF a(1) b(1) a(2) b(2) False] s2(1) by (simp only:)
    moreover have "frame s s2 (pranges s (t # ts))" using frame_trans [OF fr, of s2 "pranges s1 (t # ts)"] calculation(1) pranges_cong [of "t # ts" s1 s] fp by auto
    ultimately show ?thesis unfolding zs_def by blast
  qed
qed

section \<open>Copies\<close>

lemma copy_partial_packet:
  assumes "packet s (Some t) ts xs" "apart s ts" "no_empty s ts" "packet s (Some f) fs ys" "no_empty s fs" "pranges s ts \<inter> pranges s fs = {}"
    "pbufs s t = Some bt" "off < p_len bt" "ys \<noteq> []"
  shows "if unat n \<le> length ys \<and> unat off + unat n \<le> length xs
    then \<exists>s'. pbuf_copy_partial_pbuf (Some t) (Some f) n off s = Some (ERR_OK, s') \<and> packet s' (Some t) ts (patch (unat off) (take (unat n) ys) xs) \<and> frame s s' (pranges s ts)
    else pbuf_copy_partial_pbuf (Some t) (Some f) n off s = Some (ERR_ARG, s)"
proof -
  obtain ts' where t: "ts = t # ts'" "unat (tot_len bt) = length xs" using assms(1,7) by (auto simp: packet_Some)
  obtain bf fs' where f: "fs = f # fs'" "pbufs s f = Some bf" "unat (tot_len bf) = length ys" using assms(4) by (auto simp: packet_Some)
  have "p_len bf \<noteq> 0" using assms(5) f by (simp add: no_empty_def)
  then have "0 < unat (p_len bf)" by (simp add: unat_gt_0)
  then have pf: "place_in s f fs' ys 0" unfolding place_in_def using assms(4,5) f(1,2) by auto
  have pt: "place_in s t ts' xs (ucast off)" unfolding place_in_def using assms(1,3,7,8) t(1) by (auto simp: unat_ucast16 word_less_nat_alt simp del: packet.simps)
  from copy_loop_ok [OF pt _ pf, of n] assms(2,6) t(1) f(1)
  have "\<exists>s'. copy_loop t (ucast off) f 0 n s = Some (ERR_OK, s') \<and> packet s' (Some t) ts (patch (unat off) (take (unat n) ys) xs) \<and> frame s s' (pranges s ts)"
    if "unat n \<le> length ys" "unat off + unat n \<le> length xs" using that by (simp add: unat_ucast16 del: packet.simps pranges_simps)
  then show ?thesis using assms(7) f(2,3) t(2) by (auto simp: pbuf_copy_partial_pbuf_def word_less_nat_alt not_less simp del: packet.simps)
qed




text \<open>The two buffers and a packet of one buffer at 80.\<close>

definition three_buffers :: pstate where
  "three_buffers = two_buffers\<lparr>pbufs := (pbufs two_buffers)(80 \<mapsto> \<lparr>p_next = None, payload = 200, tot_len = 2, p_len = 2, type_internal = 0x82, p_flags = 0, p_ref = 1, if_idx = 0\<rparr>),
     bytes := (bytes two_buffers)(200 \<mapsto> 0x61, 201 \<mapsto> 0x62)\<rparr>"


section \<open>Memory of a new buffer\<close>

lemma align_size: "unat (LWIP_MEM_ALIGN_SIZE (ucast n)) = (unat n + 3) div 4 * 4" for n :: u16
proof -
  have g: "(x AND NOT m) = push_bit 2 (drop_bit 2 x)" if m: "\<And>i. bit m i \<longleftrightarrow> i < 2" for x m :: u32
  proof (rule bit_word_eqI)
    fix i assume i: "i < LENGTH(32)"
    have "i < 2 \<or> 2 + (i - 2) = i" by linarith
    then show "bit (x AND NOT m) i = bit (push_bit 2 (drop_bit 2 x)) i" using i m [of i] by (auto simp: bit_and_iff bit_not_iff bit_push_bit_iff bit_drop_bit_eq)
  qed
  have "bit (3::u32) i \<longleftrightarrow> i < 2" for i using bit_mask_iff [where ?'a = "u32", of 2 i] by (auto simp: mask_eq_exp_minus_1)
  then have a: "(x AND NOT 3) = push_bit 2 (drop_bit 2 x)" for x :: u32 by (rule g)
  define y where "y = (ucast n :: u32) + 3"
  have y: "unat y = unat n + 3" using unat_u16 [of n] by (simp add: y_def unat_word_ariths unat_ucast16)
  have d: "unat (drop_bit 2 y) = unat y div 4" by (simp add: unat_drop_bit_eq drop_bit_eq_div [of 2 "unat y"])
  have "unat (push_bit 2 (drop_bit 2 y)) = unat y div 4 * 4" using d y unat_u16 [of n] by (simp add: push_bit_eq_mult unat_word_ariths)
  then show ?thesis using a [of y] y by (simp add: LWIP_MEM_ALIGN_SIZE_def y_def [symmetric])
qed

lemma align_addr: "p mod 4 = 0 \<Longrightarrow> LWIP_MEM_ALIGN (p + SIZEOF_STRUCT_PBUF + k) = p + 16 + (k + 3) div 4 * 4"
proof -
  assume "p mod 4 = 0"
  then obtain q where "p = 4 * q" by auto
  then have "p + SIZEOF_STRUCT_PBUF + k + 3 = 4 * (q + 4) + (k + 3)" by (simp add: SIZEOF_STRUCT_PBUF_def)
  then show ?thesis using \<open>p = 4 * q\<close> by (simp only: LWIP_MEM_ALIGN_def div_mult_self4 div_mult_self2) simp
qed

lemma mod_fits: "b \<le> (a + b) mod 65536 \<Longrightarrow> a < 65536 \<Longrightarrow> b \<le> 65536 \<Longrightarrow> a + b < 65536" for a b :: nat
proof (rule ccontr)
  assume a: "b \<le> (a + b) mod 65536" "a < 65536" "b \<le> 65536" "\<not> a + b < 65536"
  then have "(a + b) mod 65536 = a + b - 65536" by (simp add: mod_if)
  then show False using a by linarith
qed

lemma rd_junk: "(\<And>i. i < n \<Longrightarrow> bytes s (a + i) = Some (g (a + i))) \<Longrightarrow> rd_bytes a n s = Some (map g [a..<a + n])"
  by (auto simp: rd_bytes_iff)

lemma alloc_ram_packet:
  assumes "alloc_ram E off n s = (Some p, s')" "p mod 4 = 0" "off \<le> 0xFFE0"
  shows "\<exists>b size. pbufs s' p = Some b \<and> chunks s' p = Some (0, size) \<and> p_len b = n \<and> p + SIZEOF_STRUCT_PBUF + unat off \<le> payload b \<and> payload b + unat n \<le> p + size \<and>
    packet s' (Some p) [p] (map (junk E) [payload b..<payload b + unat n])"
proof -
  let ?a = "(unat off + 3) div 4 * 4" and ?l = "(unat n + 3) div 4 * 4"
  define pl where "pl = (ucast (LWIP_MEM_ALIGN_SIZE (ucast off) + LWIP_MEM_ALIGN_SIZE (ucast n)) :: u16)"
  define al where "al = (ucast (LWIP_MEM_ALIGN_SIZE (of_nat SIZEOF_STRUCT_PBUF) + ucast pl) :: u16)"
  have b: "?a \<le> 0xFFE0 + 3" "unat off \<le> ?a" "?l \<le> 65536" "unat n \<le> ?l" using assms(3) unat_u16 [of n] by (simp_all add: word_le_nat_alt)
  have pl: "unat pl = (?a + ?l) mod 65536" using b by (simp add: pl_def unsigned_ucast_eq take_bit_eq_mod unat_word_ariths align_size)
  have "LWIP_MEM_ALIGN_SIZE (of_nat SIZEOF_STRUCT_PBUF) = 16" by (simp add: LWIP_MEM_ALIGN_SIZE_def SIZEOF_STRUCT_PBUF_def)
  then have al: "unat al = (16 + unat pl) mod 65536" using unat_u16 [of pl] by (simp add: al_def unsigned_ucast_eq take_bit_eq_mod unat_word_ariths unat_ucast16)
  have ok: "\<not> ucast pl < LWIP_MEM_ALIGN_SIZE (ucast n)" "\<not> ucast al < LWIP_MEM_ALIGN_SIZE (ucast n)"
    and c: "\<exists>s1. new_chunk E 0 (unat al) s = (Some p, s1) \<and> s' = pbuf_init_alloced_pbuf p (LWIP_MEM_ALIGN (p + SIZEOF_STRUCT_PBUF + unat off)) n n PBUF_RAM 0 s1"
    using assms(1) unfolding alloc_ram_def Let_def pl_def [symmetric] al_def [symmetric] by (auto split: if_splits prod.splits option.splits)
  have l: "?l \<le> unat pl" "?l \<le> unat al" using ok by (simp_all add: word_less_nat_alt unat_ucast16 align_size not_less)
  have "?a + ?l < 65536" using pl l(1) b by (intro mod_fits) simp_all
  then have "unat pl = ?a + ?l" using pl by simp
  then have al2: "unat al = (16 + ?a + ?l) mod 65536" using al by (simp add: add.assoc)
  have "16 + ?a + ?l < 65536" using l(2) b unfolding al2 by (intro mod_fits) simp_all
  then have size: "unat al = 16 + ?a + ?l" using al2 by simp
  from c obtain s1 where s1: "new_chunk E 0 (unat al) s = (Some p, s1)" "s' = pbuf_init_alloced_pbuf p (p + 16 + ?a) n n PBUF_RAM 0 s1" unfolding align_addr [OF assms(2)] by blast
  then have m: "chunks s' p = Some (0, unat al)" "\<And>a. p + 16 \<le> a \<Longrightarrow> a < p + unat al \<Longrightarrow> bytes s' a = Some (junk E a)"
    by (auto simp: new_chunk_def pbuf_init_alloced_pbuf_def SIZEOF_STRUCT_PBUF_def split: option.splits)
  let ?b = "\<lparr>p_next = None, payload = p + 16 + ?a, tot_len = n, p_len = n, type_internal = ucast PBUF_RAM, p_flags = 0, p_ref = 1, if_idx = 0\<rparr> :: pbuf"
  have pb: "pbufs s' p = Some ?b" using s1(2) by (simp add: pbuf_init_alloced_pbuf_def)
  have "rd_bytes (payload ?b) (unat n) s' = Some (map (junk E) [payload ?b..<payload ?b + unat n])" using size b(4) by (intro rd_junk m(2)) auto
  then have "packet s' (Some p) [p] (map (junk E) [payload ?b..<payload ?b + unat n])" using pb by (intro packet_alone [OF pb]) simp_all
  then show ?thesis using pb m(1) size b by (intro exI [of _ ?b] exI [of _ "unat al"]) (simp add: SIZEOF_STRUCT_PBUF_def del: packet.simps)
qed

text \<open>
  C38. The sizes of a buffer on the heap are computed with 16 bits, and the check against wrap-around is right for every length: a buffer that is allocated has room
  for its whole length behind the header space, within its chunk.\<close>

theorem ram_buffer_fits:
  assumes "alloc_ram E off n s = (Some p, s')" "p mod 4 = 0" "off \<le> 0xFFE0"
  shows "\<exists>b size. pbufs s' p = Some b \<and> chunks s' p = Some (0, size) \<and> p_len b = n \<and> p + SIZEOF_STRUCT_PBUF + unat off \<le> payload b \<and> payload b + unat n \<le> p + size \<and>
    packet s' (Some p) [p] (map (junk E) [payload b..<payload b + unat n])"
  by (rule alloc_ram_packet [OF assms])

theorem ram_buffer_fits_witness:
  "\<exists>s' b. alloc_ram places 20 10 no_buffers = (Some 1000, s') \<and> pbufs s' 1000 = Some b \<and> 1036 \<le> payload b \<and> packet s' (Some 1000) [1000] (map (junk places) [payload b..<payload b + 10])"
proof -
  obtain s' where s': "alloc_ram places 20 10 no_buffers = (Some 1000, s')"
    by (simp add: alloc_ram_def LWIP_MEM_ALIGN_SIZE_def SIZEOF_STRUCT_PBUF_def new_chunk_def places_def no_buffers_def)
  from ram_buffer_fits [OF this] show ?thesis using s' by (auto simp: SIZEOF_STRUCT_PBUF_def simp del: packet.simps)
qed

section \<open>Clones\<close>

definition aligned :: "penv \<Rightarrow> bool" where
  "aligned E \<longleftrightarrow> (\<forall>src n s p. answer E src n s = Some p \<longrightarrow> p mod 4 = 0)"

lemma packet_mapped: "packet s po ps xs \<Longrightarrow> a \<in> pranges s ps \<Longrightarrow> bytes s a \<noteq> None"
proof (induction ps arbitrary: po xs)
  case (Cons p ps)
  then obtain b where b: "pbufs s p = Some b" "rd_bytes (payload b) (unat (p_len b)) s = Some (take (unat (p_len b)) xs)" "packet s (p_next b) ps (drop (unat (p_len b)) xs)"
    by (auto split: option.splits)
  show ?case
  proof (cases "a \<in> prange s p")
    case True
    then have "payload b \<le> a" "a - payload b < unat (p_len b)" using b(1) by (auto simp: prange_def)
    then show ?thesis using rd_byte [OF b(2), of "a - payload b"] by simp
  qed (use Cons.IH [OF b(3)] Cons.prems(2) in simp)
qed simp

lemma alloc_ram_frame:
  assumes "alloc_ram E off n s = (Some q, s1)" "fresh E" "packet s po ps xs" "chunks s1 q = Some (0, k)"
  shows "q \<notin> set ps" "packet s1 po ps xs" "pranges s1 ps \<inter> {q + SIZEOF_STRUCT_PBUF..<q + k} = {}"
proof -
  obtain m s0 pl where m: "new_chunk E 0 m s = (Some q, s0)" "s1 = pbuf_init_alloced_pbuf q pl n n PBUF_RAM 0 s0"
    using assms(1) unfolding alloc_ram_def Let_def by (auto split: if_splits prod.splits option.splits)
  then have s1: "answer E 0 m s = Some q" "\<And>p. p \<noteq> q \<Longrightarrow> pbufs s1 p = pbufs s p" "chunks s1 q = Some (0, m)"
    "\<And>a. \<not> (q + SIZEOF_STRUCT_PBUF \<le> a \<and> a < q + m) \<Longrightarrow> bytes s1 a = bytes s a" by (auto simp: new_chunk_def pbuf_init_alloced_pbuf_def split: option.splits)
  then have fr: "pbufs s q = None" "\<And>a. q + SIZEOF_STRUCT_PBUF \<le> a \<Longrightarrow> a < q + k \<Longrightarrow> bytes s a = None" "m = k" using assms(2,4) by (auto simp: fresh_def)
  show q: "q \<notin> set ps" using fr(1) packet_next [OF assms(3)] by fastforce
  have out: "\<not> (q + SIZEOF_STRUCT_PBUF \<le> a \<and> a < q + k)" if "a \<in> pranges s ps" for a using packet_mapped [OF assms(3) that] fr(2) [of a] by auto
  have pb: "pbufs s1 p = pbufs s p" if "p \<in> set ps" for p using s1(2) q that by metis
  have by1: "bytes s1 a = bytes s a" if "a \<in> pranges s ps" for a using s1(4) [of a] out [OF that] fr(3) by simp
  show "packet s1 po ps xs" by (rule packet_cong [OF assms(3) pb by1])
  show "pranges s1 ps \<inter> {q + SIZEOF_STRUCT_PBUF..<q + k} = {}" using out pranges_cong [of ps s1 s] pb by auto
qed

text \<open>
  A clone of a packet is one buffer with the same bytes; the packet itself stays as it is. Without memory for it, nothing changes.\<close>

theorem packet_clone:
  assumes "packet s (Some p) ps xs" "no_empty s ps" "xs \<noteq> []" "fresh E" "aligned E" "layer \<le> 0xFFE0"
  shows "pbuf_clone E layer PBUF_RAM p s = Some (None, s) \<or>
    (\<exists>q s'. pbuf_clone E layer PBUF_RAM p s = Some (Some q, s') \<and> q \<notin> set ps \<and> packet s' (Some q) [q] xs \<and> packet s' (Some p) ps xs)"
proof -
  obtain b where b: "pbufs s p = Some b" "unat (tot_len b) = length xs" using assms(1) by (auto simp: packet_Some)
  have al: "pbuf_alloc E layer (tot_len b) PBUF_RAM s = Some (alloc_ram E layer (tot_len b) s)"
    by (simp add: pbuf_alloc_def PBUF_RAM_def PBUF_ROM_def PBUF_REF_def PBUF_POOL_def)
  obtain qo s1 where a: "alloc_ram E layer (tot_len b) s = (qo, s1)" by fastforce
  show ?thesis
  proof (cases qo)
    case None
    then have "s1 = s" using a new_chunk_none unfolding alloc_ram_def Let_def by (auto split: if_splits prod.splits option.splits)
    then show ?thesis using b(1) al a None by (simp add: pbuf_clone_def)
  next
    case (Some q)
    note a' = a [unfolded Some]
    have "q mod 4 = 0" using a' assms(5) unfolding alloc_ram_def Let_def new_chunk_def aligned_def by (auto split: if_splits prod.splits option.splits)
    from alloc_ram_packet [OF a' this assms(6)] obtain c k where c: "pbufs s1 q = Some c" "chunks s1 q = Some (0, k)" "p_len c = tot_len b" "q + SIZEOF_STRUCT_PBUF + unat layer \<le> payload c"
      "payload c + unat (tot_len b) \<le> q + k" "packet s1 (Some q) [q] (map (junk E) [payload c..<payload c + unat (tot_len b)])" by blast
    note f = alloc_ram_frame [OF a' assms(4,1) c(2)]
    let ?js = "map (junk E) [payload c..<payload c + unat (tot_len b)]"
    have pos: "0 < tot_len b" using b(2) assms(3) by (simp add: word_less_nat_alt)
    have "prange s1 q \<subseteq> {q + SIZEOF_STRUCT_PBUF..<q + k}" using c(1,3,4,5) by (auto simp: prange_def)
    then have dj: "pranges s1 [q] \<inter> pranges s1 ps = {}" using f(3) by auto
    have pb: "pbufs s1 r = pbufs s r" if "r \<noteq> q" for r using a' that unfolding alloc_ram_def Let_def
      by (auto simp: new_chunk_def pbuf_init_alloced_pbuf_def split: if_splits prod.splits option.splits)
    then have ne: "no_empty s1 ps" using assms(2) f(1) unfolding no_empty_def by metis
    have ap: "apart s1 [q]" by simp
    have neq: "no_empty s1 [q]" using c(1,3) pos by (auto simp: no_empty_def)
    have p1: "pbufs s1 p = Some b" using pb [of p] f(1) assms(1) b(1) by (auto simp: packet_Some)
    have "\<exists>s'. pbuf_copy_partial_pbuf (Some q) (Some p) (tot_len b) 0 s1 = Some (ERR_OK, s') \<and> packet s' (Some q) [q] (patch 0 (take (unat (tot_len b)) xs) ?js) \<and> frame s1 s' (pranges s1 [q])"
      using copy_partial_packet [OF c(6) ap neq f(2) ne dj c(1) _ assms(3), of 0 "tot_len b"] pos c(3) b(2) by (simp del: packet.simps pranges_simps)
    then obtain s' where s': "pbuf_copy_partial_pbuf (Some q) (Some p) (tot_len b) 0 s1 = Some (ERR_OK, s')" "packet s' (Some q) [q] xs" "frame s1 s' (pranges s1 [q])"
      using b(2) by (auto simp: patch_def simp del: packet.simps pranges_simps)
    have "packet s' (Some p) ps xs" using frame_packet [OF s'(3) f(2)] dj by blast
    moreover have "pbuf_clone E layer PBUF_RAM p s = Some (Some q, s')" using b(1) al a' p1 s'(1) by (simp add: pbuf_clone_def pbuf_copy_def)
    ultimately show ?thesis using f(1) s'(2) by blast
  qed
qed

lemma places_aligned: "aligned places"
proof -
  have "p mod 4 = 0" if "find P [1000, 1100, 1200] = Some p" for P and p :: nat using that by (auto split: if_splits)
  then show ?thesis by (auto simp: aligned_def places_def split: if_splits)
qed

theorem packet_clone_witness: "\<exists>q s'. pbuf_clone places 0 PBUF_RAM 16 two_buffers = Some (Some q, s') \<and> packet s' (Some q) [q] [0x41, 0x42, 0x43, 0x44, 0x45]"
proof -
  have "no_empty two_buffers [16, 48]" by (simp add: no_empty_def two_buffers_def)
  then have d: "pbuf_clone places 0 PBUF_RAM 16 two_buffers = Some (None, two_buffers) \<or>
      (\<exists>q s'. pbuf_clone places 0 PBUF_RAM 16 two_buffers = Some (Some q, s') \<and> q \<notin> set [16, 48] \<and> packet s' (Some q) [q] [0x41, 0x42, 0x43, 0x44, 0x45] \<and>
        packet s' (Some 16) [16, 48] [0x41, 0x42, 0x43, 0x44, 0x45])"
    by (intro packet_clone [OF two_buffers_packet _ _ places_fresh places_aligned]) simp_all
  have "fst (alloc_ram places 0 5 two_buffers) = Some 1000"
    by (simp add: alloc_ram_def LWIP_MEM_ALIGN_SIZE_def SIZEOF_STRUCT_PBUF_def new_chunk_def places_def two_buffers_def)
  then obtain s1 where "alloc_ram places 0 5 two_buffers = (Some 1000, s1)" by (cases "alloc_ram places 0 5 two_buffers") simp
  moreover have "map_option tot_len (pbufs two_buffers 16) = Some 5" by (simp add: two_buffers_def)
  ultimately have "pbuf_clone places 0 PBUF_RAM 16 two_buffers \<noteq> Some (None, two_buffers)"
    by (auto simp: pbuf_clone_def pbuf_alloc_def PBUF_RAM_def PBUF_ROM_def PBUF_REF_def PBUF_POOL_def bind_eq_Some_conv)
  then show ?thesis using d by blast
qed

end
