(* ===== verification/Spec2Isabelle.thy ===== *)
theory Spec2Isabelle
  imports LoopQueue ListNode HeapAlloc StrBuffer JsonLoadSafe JsonDumpLaws PppFsmLaws ModemLaws Timeouts PbufCopy
begin

text \<open>
  A verification of the components for small devices in \<^verbatim>\<open>src/\<close>.

  \<^bold>\<open>The program.\<close> The repository collects components in C for 32-bit microcontrollers. Its own containers are a ring queue (\<^verbatim>\<open>loopQueue/\<close>),
  an intrusive doubly linked list (\<^verbatim>\<open>list/\<close>) and an allocator with several heaps (\<^verbatim>\<open>heap/\<close>, from \<^verbatim>\<open>heap_4\<close> of FreeRTOS). With them come the
  JSON library jansson (\<^verbatim>\<open>jansson-2.14/\<close>) and the network stack lwIP (\<^verbatim>\<open>lwip-2.1.3/\<close>), with a port (\<^verbatim>\<open>lwip_port/\<close>) that drives a mobile network
  module over a serial line: the task of the port dials with AT commands, then PPP frames run over the same line, the state machines of
  PPP negotiate, and packets travel in chains of buffers that the stack allocates, checks and frees, while its timers drive the retransmissions.

  \<^bold>\<open>The theories\<close>, in the order of their imports:

  \<^item> \<open>Prelude\<close>: C arithmetic, checked array accesses, assertions, lemma collections.
  \<^item> \<open>LoopQueue\<close>: \<^verbatim>\<open>loopQueue.h\<close>, \<^verbatim>\<open>loopQueue.c\<close>. The locale \<open>bounded_fifo\<close> is the contract of a queue; the ring refines it, also through
    the macros and the callbacks, so that elements come out in the order in which they went in.
  \<^item> \<open>ListNode\<close>: \<^verbatim>\<open>list.h\<close>. A store of nodes with \<^verbatim>\<open>prev\<close> and \<^verbatim>\<open>next\<close>; every operation is an operation on the represented sequence
    (locale \<open>linked_deque\<close>), and iteration with deletion visits every node once.
  \<^item> \<open>PortHeap\<close>, \<open>HeapAlloc\<close>: \<^verbatim>\<open>heap.c\<close>. The first has the code on one memory shared with the application, and the representation of the block list; the
    second the contract (locale \<open>allocator\<close>): live regions are disjoint, keep what is stored in them, and return to the heap.
  \<^item> \<open>Utf\<close>, \<open>StrBuffer\<close>: \<^verbatim>\<open>utf.c\<close>, \<^verbatim>\<open>strbuffer.c\<close>, \<^verbatim>\<open>memory.c\<close>. The codec accepts exactly the well-formed sequences and round-trips; the buffer is a byte sequence
    with a terminator, also when memory runs out.
  \<^item> \<open>JsonLoad\<close>, \<open>JsonLoadSafe\<close>: \<^verbatim>\<open>load.c\<close>, \<^verbatim>\<open>error.c\<close>. The whole decoder; it returns on all inputs and flags, without failed assertion or overrun.
  \<^item> \<open>HashTable\<close>: \<^verbatim>\<open>hashtable.c\<close>, on the lists of \<open>ListNode\<close>; a table refines an ordered map (locale \<open>ordered_map\<close>), for every hash function.
  \<^item> \<open>JsonValue\<close>, \<open>JsonOwn\<close>, \<open>JsonClient\<close>: \<^verbatim>\<open>value.c\<close>. Values with reference counts in a store; the ownership invariant; programs that obey the
    rules of ownership never touch a freed value, and leak nothing unless they build a cycle.
  \<^item> \<open>JsonDump\<close>, \<open>JsonDumpLaws\<close>: \<^verbatim>\<open>dump.c\<close>, parts of \<^verbatim>\<open>strconv.c\<close>. The encoder over any callback; the callbacks of the library are sinks
    (locale \<open>dump_sink\<close>); its output is the text of the value, and the decoder reads back the strings it writes.
  \<^item> \<open>PppFsm\<close>, \<open>PppFsmLaws\<close>: \<^verbatim>\<open>netif/ppp/fsm.c\<close>. The negotiation automaton with its callbacks as arguments; its timer, its end when the peer is
    silent, and its agreement with the transition table of RFC 1661.
  \<^item> \<open>PppOs\<close>, \<open>PppOsLaws\<close>: \<^verbatim>\<open>netif/ppp/pppos.c\<close>. Frames on the serial line, with the contract of the device as the locale \<open>serial_device\<close>.
  \<^item> \<open>Modem\<close>, \<open>ModemLaws\<close>: \<^verbatim>\<open>lwip_port/sio.c\<close> and the threads of \<^verbatim>\<open>pppos_example.c\<close>. The device of the link is the module of the port
    (interpretations of \<open>serial_device\<close> and \<open>device_law\<close>); what one link sends, the other receives, and the dialogue of AT commands takes its course.
  \<^item> \<open>Timeouts\<close>: \<^verbatim>\<open>core/timeouts.c\<close>. Timers in order of expiry on a clock that wraps around, cyclic timers, the TCP timer.
  \<^item> \<open>InetChksum\<close>: \<^verbatim>\<open>core/inet_chksum.c\<close>. The three versions of the sum agree; chains, pseudo headers and partial sums have the sum of their bytes.
  \<^item> \<open>Pbuf\<close>: \<^verbatim>\<open>core/pbuf.c\<close> on a store of structures and a store of bytes. \<open>PbufLaws\<close>: a chain means a sequence of bytes, which readers see and
    writers patch. \<open>PbufRefs\<close>: reference counts, headers, and programs that use buffers. \<open>PbufCopy\<close>: copies, the room in buffers on the heap, clones.

  \<^bold>\<open>Correspondence.\<close> A function of the source is a definition of the same name; loops and repeated pieces of a function have definitions of their own
  (\<open>free_loop\<close>, \<open>copy_part\<close>). Structures are records, enumerations are data types. State is passed explicitly. Machine integers are words
  where wrap-around is used or possible; otherwise integers whose bounds the invariants prove. Undefined behaviour, that is a null or dangling access, an
  access outside an array, a failed assertion, is the value \<^term>\<open>None\<close>, so a theorem that an operation returns excludes it.
  What the C library, the operating system, drivers and the application provide are arguments of the definitions: allocators, \<^verbatim>\<open>strtod\<close>, clocks, callbacks, serial
  devices. Results for them hold for every value of the argument, or under a named law such as \<open>fresh\<close> (an allocator gives unused memory).

  \<^bold>\<open>Loops.\<close> Loops that follow pointers are partial functions into options, in which not ending is \<^term>\<open>None\<close> as well; the lemmas
  show that they return. The decoder needs no fuel, as it reads a finite input. Only \<open>check_loop\<close> in \<open>Timeouts\<close> counts rounds, because a handler can
  set its timer again forever; one round more than there are expired timers is enough when no handler sets a timer that is due at once, and for one
  that does, no number is.

  \<^bold>\<open>Deviations\<close> of the code from its own descriptions are theorems too: a frame without data makes the receiver of the serial link follow a null pointer; the port never
  sets the access point, and waits forever for some answers; a timer of length 0 is run without end; a lost allocation stops the negotiation of PPP;
  unchaining returns a dangling pointer when 256 buffers are freed at once; a copy to an offset behind the first buffer of the target overruns that buffer.

  \<^bold>\<open>Not modelled.\<close> In jansson: packing and unpacking, which variable argument lists drive, the hash function itself, the random seed, and
  \<^verbatim>\<open>json_vsprintf\<close>. In lwIP: the option negotiation of the PPP protocols, authentication and its cryptography, IP, TCP, UDP, the pools and the heap,
  the sequential and socket interfaces, applications, drivers. Threads are modelled only in the port, as steps in any order between two waits. Exhaustion of
  memory is modelled for the hash table, the string buffer, the heap, the timers, the link and packet buffers, but not for JSON values and the decoder.
\<close>

end
